(* ===== verification/Prelude.thy ===== *)
theory Prelude
  imports Complex_Main "HOL-Library.Word" "HOL-Library.Multiset"
begin

text \<open>
  Shared base of the development: the machine types the C++ code uses, C strings and the few
  C library routines on them, the outcome of code that can run into undefined behaviour or a
  failed \<open>assert\<close>, and generic list facts that several components need.
\<close>

section \<open>Named collections\<close>

named_theorems c_defs \<open>definitions of C-level helpers, unfolded in component proofs\<close>
named_theorems queue_simps \<open>effect of the queue operations on each field\<close>

section \<open>Machine types\<close>

text \<open>
  \<open>uint8_t\<close>, \<open>uint16_t\<close>, \<open>uint32_t\<close> keep their width.  A C \<open>int\<close> that takes part in casts
  (queue filters and replacement rules, where -1 means \<open>don't care\<close>) is a 32-bit word read
  as two's complement.
\<close>

type_synonym u8 = "8 word"
type_synonym u16 = "16 word"
type_synonym u32 = "32 word"
type_synonym c_int = "32 word"

definition neg :: "c_int \<Rightarrow> bool" where
  "neg w \<longleftrightarrow> sint w < 0"

lemma neg_code [code, c_defs]: "neg w \<longleftrightarrow> 2 ^ 31 \<le> uint w"
proof -
  have "neg w \<longleftrightarrow> bit w 31"
    using bit_last_iff[of w] by (simp add: neg_def)
  also have "\<dots> \<longleftrightarrow> bit (uint w) 31"
    by (simp add: bit_uint_iff)
  also have "\<dots> \<longleftrightarrow> odd (uint w div 2 ^ 31)"
    by (rule bit_iff_odd)
  also have "\<dots> \<longleftrightarrow> 2 ^ 31 \<le> uint w"
  proof (cases "2 ^ 31 \<le> uint w")
    case True
    have "uint w div 2 ^ 31 = 1"
      by (rule int_div_pos_eq [where r = "uint w - 2 ^ 31"]) (use True uint_lt2p[of w] in auto)
    with True show ?thesis by simp
  next
    case False
    then have "uint w div 2 ^ 31 = 0"
      using uint_ge_0[of w] by simp
    with False show ?thesis by simp
  qed
  finally show ?thesis .
qed

lemma neg_minus_one [simp]: "neg (- 1)"
  by (simp add: neg_def)

lemma uint_minus_one_c_int [simp]: "uint (- 1 :: c_int) = 4294967295"
  by (simp add: unsigned_minus_1_eq_mask mask_eq_exp_minus_1)

lemma neg_numeral_small [simp]: "\<not> neg 0" "\<not> neg 1"
  by (simp_all add: neg_code)

section \<open>Outcomes\<close>

text \<open>
  A run of the code either returns (\<open>Inr\<close>), or reaches one of the following: an \<open>assert\<close>
  that fails, an access through a null pointer, an access outside an object, a write past the
  end of a fixed buffer, a read of an object as another type, a use of a freed object, a read of a
  value that was never set, a number that its type cannot hold, or a recursion that exceeded the fuel of the model.
\<close>

datatype fault =
    AssertFailed
  | NullDeref
  | OutOfBounds
  | BufferOverflow
  | TypeConfusion
  | UseAfterFree
  | Uninitialised
  | IntOverflow
  | OutOfFuel

type_synonym 'a outcome = "fault + 'a"

fun bindo :: "'a outcome \<Rightarrow> ('a \<Rightarrow> 'b outcome) \<Rightarrow> 'b outcome" where
  "bindo (Inl e) f = Inl e"
| "bindo (Inr x) f = f x"

definition c_assert :: "bool \<Rightarrow> unit outcome" where
  "c_assert b = (if b then Inr () else Inl AssertFailed)"

lemma bindo_Inr_iff [simp]: "bindo m f = Inr y \<longleftrightarrow> (\<exists>x. m = Inr x \<and> f x = Inr y)"
  by (cases m) auto

lemma bindo_Inl_iff: "bindo m f = Inl e \<longleftrightarrow> m = Inl e \<or> (\<exists>x. m = Inr x \<and> f x = Inl e)"
  by (cases m) auto

lemma bindo_assoc: "bindo (bindo m f) g = bindo m (\<lambda>x. bindo (f x) g)"
  by (cases m) auto

lemma bindo_cong [fundef_cong]:
  "m = m' \<Longrightarrow> (\<And>x. m' = Inr x \<Longrightarrow> f x = f' x) \<Longrightarrow> bindo m f = bindo m' f'"
  by (cases m') auto

lemma c_assert_simps [simp]:
  "c_assert b = Inr u \<longleftrightarrow> b"
  "c_assert b = Inl e \<longleftrightarrow> \<not> b \<and> e = AssertFailed"
  by (auto simp: c_assert_def)

section \<open>C strings\<close>

text \<open>
  A C string is the list of characters before its terminating NUL, so a \<open>string\<close> that models
  one never holds the NUL character.  \<open>strcmp(a, b) == 0\<close> is then equality.
\<close>

definition NUL :: char where
  "NUL = CHR 0x00"

definition cstr :: "string \<Rightarrow> string" where
  \<comment> \<open>what a routine that stops at the terminator (\<open>strdup\<close>, \<open>strcmp\<close>) sees of a buffer\<close>
  "cstr buf = takeWhile (\<lambda>c. c \<noteq> NUL) buf"

definition is_cstr :: "string \<Rightarrow> bool" where
  "is_cstr s \<longleftrightarrow> NUL \<notin> set s"

definition strncpy_term :: "nat \<Rightarrow> string \<Rightarrow> string" where
  \<comment> \<open>\<open>strncpy(d, s, n); d[n-1] = 0\<close>, then read back as a C string\<close>
  "strncpy_term n s = take (n - 1) s"

definition strncmp_eq :: "nat \<Rightarrow> string \<Rightarrow> string \<Rightarrow> bool" where
  \<comment> \<open>\<open>strncmp(a, b, n) == 0\<close>\<close>
  "strncmp_eq n a b \<longleftrightarrow> take n a = take n b"

lemma cstr_id [simp]: "is_cstr s \<Longrightarrow> cstr s = s"
  by (auto simp: cstr_def is_cstr_def takeWhile_eq_all_conv)

lemma is_cstr_cstr [simp]: "is_cstr (cstr s)"
  by (auto simp: cstr_def is_cstr_def dest: set_takeWhileD)

lemma length_strncpy_term: "0 < n \<Longrightarrow> length (strncpy_term n s) < n"
  by (simp add: strncpy_term_def)

lemma strncpy_term_short [simp]: "length s < n \<Longrightarrow> strncpy_term n s = s"
  by (simp add: strncpy_term_def)

section \<open>Lists\<close>

text \<open>The first index at which a predicate holds, as a C loop with \<open>break\<close> finds it.\<close>

fun find_index :: "('a \<Rightarrow> bool) \<Rightarrow> 'a list \<Rightarrow> nat option" where
  "find_index P [] = None"
| "find_index P (x # xs) = (if P x then Some 0 else map_option Suc (find_index P xs))"

lemma find_index_None: "find_index P xs = None \<longleftrightarrow> (\<forall>x \<in> set xs. \<not> P x)"
  by (induction xs) auto

lemma find_index_Some:
  "find_index P xs = Some i \<longleftrightarrow> i < length xs \<and> P (xs ! i) \<and> (\<forall>j < i. \<not> P (xs ! j))"
proof (induction xs arbitrary: i)
  case (Cons x xs)
  show ?case
  proof (cases i)
    case 0
    then show ?thesis by auto
  next
    case (Suc k)
    with Cons.IH[of k] show ?thesis
      by (auto simp: less_Suc_eq_0_disj)
  qed
qed simp

lemma find_index_bound: "find_index P xs = Some i \<Longrightarrow> i < length xs \<and> P (xs ! i)"
  by (simp add: find_index_Some)

lemma find_index_append:
  "find_index P (xs @ ys) =
     (case find_index P xs of Some i \<Rightarrow> Some i | None \<Rightarrow> map_option (\<lambda>i. length xs + i) (find_index P ys))"
  by (induction xs) (cases "find_index P ys"; auto split: option.split)+

text \<open>Scanning up to the first character outside a class.\<close>

lemma scan_append:
  "\<forall>x \<in> set xs. P x \<Longrightarrow> \<not> P y \<Longrightarrow> takeWhile P (xs @ y # ys) = xs"
  "\<forall>x \<in> set xs. P x \<Longrightarrow> \<not> P y \<Longrightarrow> dropWhile P (xs @ y # ys) = y # ys"
  by (induction xs) auto

text \<open>Removing one element by position.\<close>

definition remove_nth :: "nat \<Rightarrow> 'a list \<Rightarrow> 'a list" where
  "remove_nth i xs = take i xs @ drop (Suc i) xs"

lemma length_remove_nth [simp]: "i < length xs \<Longrightarrow> length (remove_nth i xs) = length xs - 1"
  by (simp add: remove_nth_def)

lemma set_remove_nth: "set (remove_nth i xs) \<subseteq> set xs"
  by (auto simp: remove_nth_def dest: in_set_takeD in_set_dropD)

lemma remove_nth_split: "remove_nth (length ys) (ys @ z # zs) = ys @ zs"
  by (simp add: remove_nth_def)

lemma map_remove_nth: "map f (remove_nth i xs) = remove_nth i (map f xs)"
  by (simp add: remove_nth_def take_map drop_map)

text \<open>Overwriting an element changes the elements of a kind by the old and the new one.\<close>

lemma mset_filter_update:
  "i < length xs \<Longrightarrow>
   mset (filter P (xs[i := y])) + (if P (xs ! i) then {#xs ! i#} else {#}) = mset (filter P xs) + (if P y then {#y#} else {#})"
proof (induction xs arbitrary: i)
  case (Cons x xs)
  then show ?case
  proof (cases i)
    case (Suc j)
    with Cons.IH [of j] Cons.prems show ?thesis by auto
  qed auto
qed simp

end
