(* ===== verification/Messages.thy ===== *)
theory Messages
  imports Prelude
begin

text \<open>
  Device addresses, message headers and messages: \<open>libplayercore/message.h\<close>, the constructors of
  \<open>Message\<close> in \<open>libplayercore/message.cc\<close>, and \<open>Device::MatchDeviceAddress\<close>.  The functions
  that the build generates from the interface definitions (\<open>playerxdr_get_sizeoffunc\<close> and
  \<open>playerxdr_get_clonefunc\<close>) are the fields of the parameter \<open>xdr\<close>.
\<close>

section \<open>Addresses and headers\<close>

record devaddr =
  host :: u32
  robot :: u32
  interf :: u16
  idx :: u16

record msghdr =
  addr :: devaddr
  mtype :: u8
  subtype :: u8
  timestamp :: real
  seq :: u32
  msize :: u32

text \<open>\<open>PLAYER_MSGTYPE_*\<close> and the codes of the player interface that the core uses.\<close>

abbreviation MSGTYPE_DATA :: u8 where "MSGTYPE_DATA \<equiv> 1"
abbreviation MSGTYPE_CMD :: u8 where "MSGTYPE_CMD \<equiv> 2"
abbreviation MSGTYPE_REQ :: u8 where "MSGTYPE_REQ \<equiv> 3"
abbreviation MSGTYPE_RESP_ACK :: u8 where "MSGTYPE_RESP_ACK \<equiv> 4"
abbreviation MSGTYPE_SYNCH :: u8 where "MSGTYPE_SYNCH \<equiv> 5"
abbreviation MSGTYPE_RESP_NACK :: u8 where "MSGTYPE_RESP_NACK \<equiv> 6"
abbreviation PLAYER_CODE :: u16 where "PLAYER_CODE \<equiv> 1"
abbreviation SYNCH_OK :: u8 where "SYNCH_OK \<equiv> 1"
abbreviation SYNCH_OVERFLOW :: u8 where "SYNCH_OVERFLOW \<equiv> 2"

abbreviation is_resp :: "msghdr \<Rightarrow> bool" where
  "is_resp h \<equiv> mtype h = MSGTYPE_RESP_NACK \<or> mtype h = MSGTYPE_RESP_ACK"

abbreviation is_datacmd :: "msghdr \<Rightarrow> bool" where
  "is_datacmd h \<equiv> mtype h = MSGTYPE_DATA \<or> mtype h = MSGTYPE_CMD"

definition LOCALHOST_ADDR :: u32 where
  "LOCALHOST_ADDR = 16777343"

section \<open>Matching\<close>

definition MatchMessage :: "msghdr \<Rightarrow> c_int \<Rightarrow> c_int \<Rightarrow> devaddr \<Rightarrow> bool" where
  "MatchMessage hdr type sub a \<longleftrightarrow>
     (neg type \<or> mtype hdr = ucast type) \<and>
     (neg sub \<or> subtype hdr = ucast sub) \<and>
     host (addr hdr) = host a \<and>
     robot (addr hdr) = robot a \<and>
     interf (addr hdr) = interf a \<and>
     idx (addr hdr) = idx a"

definition MatchMessage_any :: "msghdr \<Rightarrow> c_int \<Rightarrow> c_int \<Rightarrow> bool" where
  "MatchMessage_any hdr type sub \<longleftrightarrow>
     (neg type \<or> mtype hdr = ucast type) \<and>
     (neg sub \<or> subtype hdr = ucast sub)"

definition MatchDeviceAddress :: "devaddr \<Rightarrow> devaddr \<Rightarrow> bool" where
  "MatchDeviceAddress a1 a2 \<longleftrightarrow>
     (host a1 = host a2 \<or>
      (host a1 = 0 \<and> host a2 = LOCALHOST_ADDR) \<or>
      (host a1 = LOCALHOST_ADDR \<and> host a2 = 0)) \<and>
     robot a1 = robot a2 \<and>
     interf a1 = interf a2 \<and>
     idx a1 = idx a2"

lemma neg_ucast_u8 [simp]: "\<not> neg (ucast (w :: u8))"
proof -
  have "uint (ucast w :: c_int) = uint w"
    by (simp add: uint_up_ucast is_up)
  then show ?thesis
    using uint_lt2p[of w] by (simp add: neg_code)
qed

lemma neg_ucast_u16 [simp]: "\<not> neg (ucast (w :: u16))"
proof -
  have "uint (ucast w :: c_int) = uint w"
    by (simp add: uint_up_ucast is_up)
  then show ?thesis
    using uint_lt2p[of w] by (simp add: neg_code)
qed

lemma ucast_ucast_u8 [simp]: "ucast (ucast (w :: u8) :: c_int) = w"
  by (simp add: ucast_up_ucast_id is_up)

lemma ucast_ucast_u16 [simp]: "ucast (ucast (w :: u16) :: c_int) = w"
  by (simp add: ucast_up_ucast_id is_up)

text \<open>
  Given a full signature taken from a header, a match is equality of the four address
  components, the type and the subtype.
\<close>

definition same_signature :: "msghdr \<Rightarrow> msghdr \<Rightarrow> bool" where
  "same_signature h h' \<longleftrightarrow> addr h = addr h' \<and> mtype h = mtype h' \<and> subtype h = subtype h'"

lemma MatchMessage_exact:
  "MatchMessage h (ucast t) (ucast s) a \<longleftrightarrow> addr h = a \<and> mtype h = t \<and> subtype h = s"
  by (auto simp: MatchMessage_def)

lemma MatchDeviceAddress_refl [simp]: "MatchDeviceAddress a a"
  by (simp add: MatchDeviceAddress_def)

lemma MatchDeviceAddress_sym: "MatchDeviceAddress a b \<longleftrightarrow> MatchDeviceAddress b a"
  by (auto simp: MatchDeviceAddress_def)

lemma MatchDeviceAddress_trans:
  "MatchDeviceAddress a b \<Longrightarrow> MatchDeviceAddress b c \<Longrightarrow> MatchDeviceAddress a c"
  by (auto simp: MatchDeviceAddress_def)

section \<open>Messages\<close>

text \<open>
  A queue pointer is the number of the queue it points to, \<open>None\<close> for a null pointer.  The
  payload type \<open>'d\<close> is left open: the core only copies payloads through the generated functions.
\<close>

type_synonym qid = nat
type_synonym qptr = "qid option"

record 'd message =
  Header :: msghdr
  Data :: "'d option"
  Queue :: qptr

record 'd xdr =
  get_sizeoffunc :: "u16 \<Rightarrow> u8 \<Rightarrow> u8 \<Rightarrow> ('d \<Rightarrow> u32) option"
  get_clonefunc :: "u16 \<Rightarrow> u8 \<Rightarrow> u8 \<Rightarrow> ('d \<Rightarrow> 'd option) option"

definition CreateMessage ::
    "'d xdr \<Rightarrow> msghdr \<Rightarrow> 'd option \<Rightarrow> qptr \<Rightarrow> bool \<Rightarrow> 'd message" where
  "CreateMessage x aHeader data q copy =
     (case data of
        None \<Rightarrow> \<lparr>Header = aHeader\<lparr>msize := 0\<rparr>, Data = None, Queue = q\<rparr>
      | Some d \<Rightarrow>
          let h = (case get_sizeoffunc x (interf (addr aHeader)) (mtype aHeader) (subtype aHeader) of
                     Some f \<Rightarrow> aHeader\<lparr>msize := f d\<rparr>
                   | None \<Rightarrow> aHeader)
          in if copy then
               (case get_clonefunc x (interf (addr h)) (mtype h) (subtype h) of
                  Some c \<Rightarrow> \<lparr>Header = h, Data = c d, Queue = q\<rparr>
                | None \<Rightarrow> \<lparr>Header = h, Data = None, Queue = q\<rparr>)
             else \<lparr>Header = h, Data = Some d, Queue = q\<rparr>)"

definition Compare :: "'d message \<Rightarrow> 'd message \<Rightarrow> bool" where
  "Compare this other =
     MatchMessage (Header this) (ucast (mtype (Header other))) (ucast (subtype (Header other)))
       (addr (Header other))"

lemma Compare_iff: "Compare a b \<longleftrightarrow> same_signature (Header a) (Header b)"
  by (auto simp: Compare_def MatchMessage_exact same_signature_def)

lemma CreateMessage_header [simp]:
  "addr (Header (CreateMessage x h d q c)) = addr h"
  "mtype (Header (CreateMessage x h d q c)) = mtype h"
  "subtype (Header (CreateMessage x h d q c)) = subtype h"
  "timestamp (Header (CreateMessage x h d q c)) = timestamp h"
  "seq (Header (CreateMessage x h d q c)) = seq h"
  "Queue (CreateMessage x h d q c) = q"
  by (auto simp: CreateMessage_def Let_def split: option.splits)

text \<open>
  The size in the header never comes from the caller when the payload's type is known: it is
  what the generated size function says of the payload, and 0 without a payload.
\<close>

lemma CreateMessage_size:
  "get_sizeoffunc x (interf (addr h)) (mtype h) (subtype h) = Some f \<Longrightarrow>
   msize (Header (CreateMessage x h d q c)) = (case d of None \<Rightarrow> 0 | Some v \<Rightarrow> f v)"
  by (auto simp: CreateMessage_def Let_def split: option.splits)

end
