(* ===== verification/MessageQueue.thy ===== *)
theory MessageQueue
  imports Messages
begin

text \<open>
  \<open>MessageQueue\<close> of \<open>libplayercore/message.cc\<close>: the replacement rules, the filter, and the queue
  operations on the sequence of queued messages, head first.  The doubly linked elements that
  carry this sequence are in \<open>QueueLinks\<close>, the condition variable in \<open>QueueWait\<close>.
\<close>

section \<open>Replacement rules\<close>

record replace_rule =
  r_host :: c_int
  r_robot :: c_int
  r_interf :: c_int
  r_index :: c_int
  r_type :: c_int
  r_subtype :: c_int
  r_replace :: c_int

definition Match :: "replace_rule \<Rightarrow> msghdr \<Rightarrow> bool" where
  "Match r hdr \<longleftrightarrow>
     (neg (r_host r) \<or> r_host r = host (addr hdr)) \<and>
     (neg (r_robot r) \<or> r_robot r = robot (addr hdr)) \<and>
     (neg (r_interf r) \<or> ucast (r_interf r) = interf (addr hdr)) \<and>
     (neg (r_index r) \<or> ucast (r_index r) = idx (addr hdr)) \<and>
     (neg (r_type r) \<or> ucast (r_type r) = mtype hdr) \<and>
     (neg (r_subtype r) \<or> ucast (r_subtype r) = subtype hdr)"

definition Equivalent ::
    "replace_rule \<Rightarrow> c_int \<Rightarrow> c_int \<Rightarrow> c_int \<Rightarrow> c_int \<Rightarrow> c_int \<Rightarrow> c_int \<Rightarrow> bool" where
  "Equivalent r h rb i ix t s \<longleftrightarrow>
     r_host r = h \<and> r_robot r = rb \<and> r_interf r = i \<and> r_index r = ix \<and> r_type r = t \<and>
     r_subtype r = s"

abbreviation RULE_ACCEPT :: c_int where "RULE_ACCEPT \<equiv> 0"
abbreviation RULE_REPLACE :: c_int where "RULE_REPLACE \<equiv> 1"
abbreviation RULE_IGNORE :: c_int where "RULE_IGNORE \<equiv> 2"

section \<open>State\<close>

text \<open>The six filter values; they are meaningful only while \<open>filter_on\<close> is set.\<close>

record filter_vals =
  f_host :: c_int
  f_robot :: c_int
  f_interf :: c_int
  f_index :: c_int
  f_type :: c_int
  f_subtype :: c_int

text \<open>
  \<open>drop_count\<close> is declared \<open>bool\<close> in \<open>message.h\<close>, so incrementing it sets it: it records that
  messages were dropped, not how many.
\<close>

record 'd mqueue =
  elems :: "'d message list"
  Length :: nat
  Maxlen :: nat
  replaceRules :: "replace_rule list"
  Replace :: bool
  filter_on :: bool
  filter_v :: filter_vals
  pull :: bool
  data_requested :: bool
  data_delivered :: bool
  drop_count :: bool

text \<open>
  The constructor leaves the filter values uninitialised (parameter \<open>uninit\<close>).
\<close>

definition MessageQueue_new :: "filter_vals \<Rightarrow> bool \<Rightarrow> nat \<Rightarrow> 'd mqueue" where
  "MessageQueue_new uninit rep maxlen =
     \<lparr>elems = [], Length = 0, Maxlen = maxlen, replaceRules = [], Replace = rep,
      filter_on = False, filter_v = uninit, pull = False, data_requested = False,
      data_delivered = False, drop_count = False\<rparr>"

definition Empty :: "'d mqueue \<Rightarrow> bool" where
  "Empty q \<longleftrightarrow> elems q = []"

definition GetLength :: "'d mqueue \<Rightarrow> nat" where
  "GetLength q = Length q"

definition SetReplace :: "bool \<Rightarrow> 'd mqueue \<Rightarrow> 'd mqueue" where
  "SetReplace b q = q\<lparr>Replace := b\<rparr>"

definition SetPull :: "bool \<Rightarrow> 'd mqueue \<Rightarrow> 'd mqueue" where
  "SetPull b q = q\<lparr>pull := b\<rparr>"

definition SetDataRequested :: "bool \<Rightarrow> 'd mqueue \<Rightarrow> 'd mqueue" where
  "SetDataRequested d q = q\<lparr>data_requested := d, data_delivered := False\<rparr>"

definition ClearFilter :: "'d mqueue \<Rightarrow> 'd mqueue" where
  "ClearFilter q = q\<lparr>filter_on := False\<rparr>"

definition SetFilter ::
    "c_int \<Rightarrow> c_int \<Rightarrow> c_int \<Rightarrow> c_int \<Rightarrow> c_int \<Rightarrow> c_int \<Rightarrow> 'd mqueue \<Rightarrow> 'd mqueue" where
  "SetFilter h r i ix t s q =
     q\<lparr>filter_v := \<lparr>f_host = h, f_robot = r, f_interf = i, f_index = ix, f_type = t, f_subtype = s\<rparr>,
       filter_on := True\<rparr>"

text \<open>
  The filter compares at 32 bits (the header's fields are promoted), whereas a rule casts its own
  values down; type -1 means \<open>any response\<close>, not \<open>any type\<close>.
\<close>

definition Filter :: "'d mqueue \<Rightarrow> 'd message \<Rightarrow> bool" where
  "Filter q m \<longleftrightarrow>
     (let f = filter_v q; hdr = Header m in
      (neg (f_host f) \<or> f_host f = host (addr hdr)) \<and>
      (neg (f_robot f) \<or> f_robot f = robot (addr hdr)) \<and>
      (neg (f_interf f) \<or> f_interf f = ucast (interf (addr hdr))) \<and>
      (neg (f_index f) \<or> f_index f = ucast (idx (addr hdr))) \<and>
      (neg (f_type f) \<and> (mtype hdr = MSGTYPE_RESP_ACK \<or> mtype hdr = MSGTYPE_RESP_NACK) \<or>
       f_type f = ucast (mtype hdr)) \<and>
      (neg (f_subtype f) \<or> f_subtype f = ucast (subtype hdr)))"

section \<open>Rules of a queue\<close>

fun AddReplaceRule_list ::
    "replace_rule list \<Rightarrow> c_int \<Rightarrow> c_int \<Rightarrow> c_int \<Rightarrow> c_int \<Rightarrow> c_int \<Rightarrow> c_int \<Rightarrow> c_int
     \<Rightarrow> replace_rule list" where
  "AddReplaceRule_list [] h r i ix t s rep =
     [\<lparr>r_host = h, r_robot = r, r_interf = i, r_index = ix, r_type = t, r_subtype = s,
       r_replace = rep\<rparr>]"
| "AddReplaceRule_list (c # rest) h r i ix t s rep =
     (if Equivalent c h r i ix t s then c\<lparr>r_replace := rep\<rparr> # rest
      else c # AddReplaceRule_list rest h r i ix t s rep)"

definition AddReplaceRule ::
    "c_int \<Rightarrow> c_int \<Rightarrow> c_int \<Rightarrow> c_int \<Rightarrow> c_int \<Rightarrow> c_int \<Rightarrow> c_int \<Rightarrow> 'd mqueue \<Rightarrow> 'd mqueue" where
  "AddReplaceRule h r i ix t s rep q =
     q\<lparr>replaceRules := AddReplaceRule_list (replaceRules q) h r i ix t s rep\<rparr>"

definition AddReplaceRule_addr :: "devaddr \<Rightarrow> c_int \<Rightarrow> c_int \<Rightarrow> c_int \<Rightarrow> 'd mqueue \<Rightarrow> 'd mqueue" where
  "AddReplaceRule_addr a t s rep q =
     AddReplaceRule (host a) (robot a) (ucast (interf a)) (ucast (idx a)) t s rep q"

text \<open>The unknown-type branch returns \<open>false\<close>, which is the code of \<open>accept\<close>.\<close>

definition CheckReplace :: "'d mqueue \<Rightarrow> msghdr \<Rightarrow> c_int" where
  "CheckReplace q hdr =
     (case find (\<lambda>r. Match r hdr) (replaceRules q) of
        Some r \<Rightarrow> r_replace r
      | None \<Rightarrow>
          if mtype hdr = MSGTYPE_REQ \<or> mtype hdr = MSGTYPE_RESP_ACK \<or> mtype hdr = MSGTYPE_RESP_NACK
          then RULE_ACCEPT
          else if mtype hdr = MSGTYPE_DATA \<or> mtype hdr = MSGTYPE_CMD
          then (if Replace q then RULE_REPLACE else RULE_ACCEPT)
          else RULE_ACCEPT)"

section \<open>Push\<close>

definition PushFront :: "'d message \<Rightarrow> 'd mqueue \<Rightarrow> 'd mqueue" where
  "PushFront m q = q\<lparr>elems := m # elems q, Length := Length q + 1\<rparr>"

definition PushBack :: "'d message \<Rightarrow> 'd mqueue \<Rightarrow> 'd mqueue" where
  "PushBack m q = q\<lparr>elems := elems q @ [m], Length := Length q + 1\<rparr>"

definition Remove :: "nat \<Rightarrow> 'd mqueue \<Rightarrow> 'd mqueue" where
  "Remove i q = q\<lparr>elems := remove_nth i (elems q), Length := Length q - 1\<rparr>"

text \<open>The last position at which a predicate holds: the search from the tail in \<open>Push\<close> and \<open>Pop\<close>.\<close>

definition find_last :: "('a \<Rightarrow> bool) \<Rightarrow> 'a list \<Rightarrow> nat option" where
  "find_last P xs = map_option (\<lambda>i. length xs - 1 - i) (find_index P (rev xs))"

definition remove_match :: "'d message \<Rightarrow> 'd mqueue \<Rightarrow> 'd mqueue" where
  "remove_match m q =
     (case find_last (\<lambda>e. Compare e m) (elems q) of Some i \<Rightarrow> Remove i q | None \<Rightarrow> q)"

text \<open>
  The result: the return value, whether \<open>DataAvailable\<close> is called, and the queue.
\<close>

definition Push :: "'d message \<Rightarrow> 'd mqueue \<Rightarrow> bool \<times> bool \<times> 'd mqueue" where
  "Push msg q =
     (let hdr = Header msg; replaceOp = CheckReplace q hdr in
      if replaceOp = RULE_IGNORE then (True, False, q)
      else if replaceOp = RULE_ACCEPT \<and> is_datacmd hdr \<and> Maxlen q \<le> Length q
      then (True, False, q\<lparr>drop_count := True\<rparr>)
      else
        let q1 = (if replaceOp = RULE_REPLACE then remove_match msg q else q);
            q2 = PushBack msg q1
        in (True, \<not> filter_on q2 \<or> Filter q2 msg, q2))"

abbreviation push_q :: "'d message \<Rightarrow> 'd mqueue \<Rightarrow> 'd mqueue" where
  "push_q m q \<equiv> snd (snd (Push m q))"

section \<open>Pop\<close>

text \<open>
  What the code reads beside the queue: the uninitialised timestamp and sequence number of the
  synch header, and the payload it finds at the address of \<open>drop_count\<close>.
\<close>

record 'd pop_env =
  env_xdr :: "'d xdr"
  stack_time :: real
  stack_seq :: u32
  at_drop_count :: "bool \<Rightarrow> 'd"

definition synch_header :: "'d pop_env \<Rightarrow> u8 \<Rightarrow> msghdr" where
  "synch_header e sub =
     \<lparr>addr = \<lparr>host = 0, robot = 0, interf = PLAYER_CODE, idx = 0\<rparr>, mtype = MSGTYPE_SYNCH,
      subtype = sub, timestamp = stack_time e, seq = stack_seq e, msize = 0\<rparr>"

definition poppable :: "'d mqueue \<Rightarrow> nat option \<Rightarrow> 'd message \<Rightarrow> bool" where
  "poppable q resp_el m \<longleftrightarrow>
     resp_el \<noteq> None \<or>
     ((\<not> filter_on q \<or> Filter q m) \<and> (\<not> pull q \<or> data_requested q))"

definition last_resp :: "'d mqueue \<Rightarrow> nat option" where
  "last_resp q =
     (if \<not> filter_on q \<and> \<not> data_requested q
      then find_last (\<lambda>m. is_resp (Header m)) (elems q) else None)"

definition Pop :: "'d pop_env \<Rightarrow> 'd mqueue \<Rightarrow> 'd message option \<times> 'd mqueue" where
  "Pop e q =
     (case find_index (poppable q (last_resp q)) (elems q) of
        Some i \<Rightarrow>
          let m = elems q ! i;
              q1 = (if data_requested q \<and> mtype (Header m) = MSGTYPE_DATA
                    then q\<lparr>data_delivered := True\<rparr> else q)
          in (Some m, Remove i q1)
      | None \<Rightarrow>
          if pull q \<and> data_requested q \<and> data_delivered q then
            (if \<not> drop_count q
             then (Some (CreateMessage (env_xdr e) (synch_header e SYNCH_OK) None None False),
                   SetDataRequested False q)
             else (Some (CreateMessage (env_xdr e) (synch_header e SYNCH_OVERFLOW)
                          (Some (at_drop_count e (drop_count q))) None True),
                   SetDataRequested False (q\<lparr>drop_count := False\<rparr>)))
          else (None, q))"

section \<open>Well-formed queues\<close>

text \<open>
  \<open>Length\<close> is kept beside the elements by every operation; the invariant is that it agrees with
  them.
\<close>

definition queue_ok :: "'d mqueue \<Rightarrow> bool" where
  "queue_ok q \<longleftrightarrow> Length q = length (elems q)"

datatype 'd qop =
    QPush "'d message"
  | QPushFront "'d message"
  | QPop "'d pop_env"
  | QSetReplace bool
  | QSetPull bool
  | QSetDataRequested bool
  | QSetFilter c_int c_int c_int c_int c_int c_int
  | QClearFilter
  | QAddReplaceRule c_int c_int c_int c_int c_int c_int c_int

fun queue_op :: "'d qop \<Rightarrow> 'd mqueue \<Rightarrow> 'd mqueue" where
  "queue_op (QPush m) q = push_q m q"
| "queue_op (QPushFront m) q = PushFront m q"
| "queue_op (QPop e) q = snd (Pop e q)"
| "queue_op (QSetReplace b) q = SetReplace b q"
| "queue_op (QSetPull b) q = SetPull b q"
| "queue_op (QSetDataRequested b) q = SetDataRequested b q"
| "queue_op (QSetFilter h r i ix t s) q = SetFilter h r i ix t s q"
| "queue_op QClearFilter q = ClearFilter q"
| "queue_op (QAddReplaceRule h r i ix t s rep) q = AddReplaceRule h r i ix t s rep q"

abbreviation run_ops :: "'d qop list \<Rightarrow> 'd mqueue \<Rightarrow> 'd mqueue" where
  "run_ops ops q \<equiv> fold queue_op ops q"

subsection \<open>Searching from the tail\<close>

lemma find_last_None: "find_last P xs = None \<longleftrightarrow> (\<forall>x \<in> set xs. \<not> P x)"
  by (simp add: find_last_def find_index_None)

lemma find_last_Some:
  "find_last P xs = Some i \<longleftrightarrow>
     i < length xs \<and> P (xs ! i) \<and> (\<forall>j < length xs. i < j \<longrightarrow> \<not> P (xs ! j))"
proof -
  let ?n = "length xs"
  have *: "find_last P xs = Some i \<longleftrightarrow>
      (\<exists>k. find_index P (rev xs) = Some k \<and> i = ?n - 1 - k)"
    by (auto simp: find_last_def)
  show ?thesis
  proof
    assume "find_last P xs = Some i"
    with * obtain k where k: "k < ?n" "P (rev xs ! k)" "\<forall>j<k. \<not> P (rev xs ! j)" "i = ?n - 1 - k"
      by (auto simp: find_index_Some)
    have "\<not> P (xs ! j)" if "j < ?n" "i < j" for j
      using k(1,3,4) that by (auto simp: rev_nth dest!: spec[of _ "?n - 1 - j"])
    with k show "i < ?n \<and> P (xs ! i) \<and> (\<forall>j<?n. i < j \<longrightarrow> \<not> P (xs ! j))"
      by (auto simp: rev_nth)
  next
    assume i: "i < ?n \<and> P (xs ! i) \<and> (\<forall>j<?n. i < j \<longrightarrow> \<not> P (xs ! j))"
    then have "find_index P (rev xs) = Some (?n - 1 - i)"
      by (auto simp: find_index_Some rev_nth)
    with i * show "find_last P xs = Some i" by auto
  qed
qed

lemma find_last_snoc:
  "find_last P (xs @ [x]) = (if P x then Some (length xs) else find_last P xs)"
  by (auto simp: find_last_def option.map_comp comp_def intro!: map_option_cong)

lemma find_last_split:
  assumes "find_last P xs = Some i"
  obtains ys z zs where "xs = ys @ z # zs" "length ys = i" "P z" "\<forall>x \<in> set zs. \<not> P x"
proof
  from assms have i: "i < length xs" "P (xs ! i)" "\<And>j. j < length xs \<Longrightarrow> i < j \<Longrightarrow> \<not> P (xs ! j)"
    by (auto simp: find_last_Some)
  show "xs = take i xs @ xs ! i # drop (Suc i) xs"
    using i(1) by (simp add: id_take_nth_drop [symmetric])
  show "length (take i xs) = i" and "P (xs ! i)"
    using i by simp_all
  show "\<forall>x \<in> set (drop (Suc i) xs). \<not> P x"
    using i by (auto simp: in_set_conv_nth)
qed

lemma find_last_at: "P z \<Longrightarrow> \<forall>x \<in> set zs. \<not> P x \<Longrightarrow> find_last P (ys @ z # zs) = Some (length ys)"
proof (induction zs rule: rev_induct)
  case (snoc x zs)
  then show ?case using find_last_snoc [of P "ys @ z # zs" x] by simp
qed (simp add: find_last_snoc)

lemma find_index_at: "P z \<Longrightarrow> \<forall>x \<in> set ys. \<not> P x \<Longrightarrow> find_index P (ys @ z # zs) = Some (length ys)"
  by (induction ys) simp_all

lemma find_index_split:
  assumes "find_index P xs = Some i"
  obtains ys z zs where "xs = ys @ z # zs" "length ys = i" "P z" "\<forall>x \<in> set ys. \<not> P x"
proof
  from assms have i: "i < length xs" "P (xs ! i)" "\<And>j. j < i \<Longrightarrow> \<not> P (xs ! j)"
    by (auto simp: find_index_Some)
  show "xs = take i xs @ xs ! i # drop (Suc i) xs"
    using i(1) by (simp add: id_take_nth_drop [symmetric])
  show "length (take i xs) = i" and "P (xs ! i)"
    using i by simp_all
  show "\<forall>x \<in> set (take i xs). \<not> P x"
    using i by (auto simp: in_set_conv_nth)
qed

subsection \<open>Preservation\<close>

lemma queue_ok_new [simp]: "queue_ok (MessageQueue_new u r n)"
  by (simp add: queue_ok_def MessageQueue_new_def)

lemma queue_ok_settings [simp]:
  "queue_ok (SetReplace b q) = queue_ok q"
  "queue_ok (SetPull b q) = queue_ok q"
  "queue_ok (SetDataRequested b q) = queue_ok q"
  "queue_ok (ClearFilter q) = queue_ok q"
  "queue_ok (SetFilter h r i ix t s q) = queue_ok q"
  "queue_ok (AddReplaceRule h r i ix t s rep q) = queue_ok q"
  by (simp_all add: queue_ok_def SetReplace_def SetPull_def SetDataRequested_def ClearFilter_def
      SetFilter_def AddReplaceRule_def)

lemma queue_ok_PushFront [simp]: "queue_ok q \<Longrightarrow> queue_ok (PushFront m q)"
  by (simp add: queue_ok_def PushFront_def)

lemma queue_ok_PushBack [simp]: "queue_ok q \<Longrightarrow> queue_ok (PushBack m q)"
  by (simp add: queue_ok_def PushBack_def)

lemma queue_ok_Remove: "queue_ok q \<Longrightarrow> i < length (elems q) \<Longrightarrow> queue_ok (Remove i q)"
  by (simp add: queue_ok_def Remove_def)

lemma queue_ok_remove_match [simp]: "queue_ok q \<Longrightarrow> queue_ok (remove_match m q)"
  by (auto simp: remove_match_def find_last_Some intro: queue_ok_Remove split: option.splits)

lemma queue_ok_flags [simp]:
  "queue_ok (q\<lparr>drop_count := b\<rparr>) = queue_ok q"
  "queue_ok (q\<lparr>data_delivered := b\<rparr>) = queue_ok q"
  by (simp_all add: queue_ok_def)

lemma queue_ok_Push [simp]: "queue_ok q \<Longrightarrow> queue_ok (push_q m q)"
  by (simp add: Push_def Let_def)

lemma queue_ok_Pop [simp]: "queue_ok q \<Longrightarrow> queue_ok (snd (Pop e q))"
  by (auto simp: Pop_def Let_def dest!: find_index_bound intro!: queue_ok_Remove split: option.splits)

lemma queue_ok_op: "queue_ok q \<Longrightarrow> queue_ok (queue_op op q)"
  by (cases op) simp_all

lemma queue_ok_run: "queue_ok q \<Longrightarrow> queue_ok (run_ops ops q)"
  by (induction ops arbitrary: q) (simp_all add: queue_ok_op)

end
