(* ===== verification/QueueProps.thy ===== *)
theory QueueProps
  imports MessageQueue "HOL-Library.Multiset" "HOL-Library.Sublist"
begin

text \<open>
  What the message queue promises its users: nothing of request traffic is lost or reordered,
  every loss of data is recorded, the length limit in accept mode, one message per signature in
  replace mode, and what a reader gets in push mode and in pull mode.  The contract that the
  senders rely on is the locale \<open>delivery\<close>, interpreted on \<open>Push\<close>.
\<close>

section \<open>The contract of a delivery queue\<close>

text \<open>
  Senders rely on one fact about messages that must not be lost (here requests, replies and
  synchs): a push appends such a message and leaves the earlier ones alone, in order.
\<close>

locale delivery =
  fixes push :: "'m \<Rightarrow> 'q \<Rightarrow> 'q"
    and contents :: "'q \<Rightarrow> 'm list"
    and vital :: "'m \<Rightarrow> bool"
    and ok :: "'q \<Rightarrow> bool"
  assumes ok_push: "ok q \<Longrightarrow> ok (push m q)"
    and push_vital: "ok q \<Longrightarrow>
      filter vital (contents (push m q)) = filter vital (contents q) @ (if vital m then [m] else [])"
begin

lemma ok_fold: "ok q \<Longrightarrow> ok (fold push ms q)"
  by (induction ms arbitrary: q) (simp_all add: ok_push)

lemma fold_vital: "ok q \<Longrightarrow>
    filter vital (contents (fold push ms q)) = filter vital (contents q) @ filter vital ms"
  by (induction ms arbitrary: q) (simp_all add: ok_push push_vital)

lemma vital_delivered: "ok q \<Longrightarrow> m \<in> set ms \<Longrightarrow> vital m \<Longrightarrow> m \<in> set (contents (fold push ms q))"
proof -
  assume "ok q" "m \<in> set ms" "vital m"
  then have "m \<in> set (filter vital (contents (fold push ms q)))"
    by (simp add: fold_vital)
  then show ?thesis by simp
qed

end

section \<open>Effect of a push\<close>

lemma remove_match_fields [queue_simps]:
  "Maxlen (remove_match m q) = Maxlen q"
  "replaceRules (remove_match m q) = replaceRules q"
  "Replace (remove_match m q) = Replace q"
  "filter_on (remove_match m q) = filter_on q"
  "filter_v (remove_match m q) = filter_v q"
  "pull (remove_match m q) = pull q"
  "data_requested (remove_match m q) = data_requested q"
  "data_delivered (remove_match m q) = data_delivered q"
  "drop_count (remove_match m q) = drop_count q"
  by (auto simp: remove_match_def Remove_def split: option.splits)

lemma PushBack_fields [queue_simps]:
  "elems (PushBack m q) = elems q @ [m]"
  "Maxlen (PushBack m q) = Maxlen q"
  "replaceRules (PushBack m q) = replaceRules q"
  "Replace (PushBack m q) = Replace q"
  "filter_on (PushBack m q) = filter_on q"
  "filter_v (PushBack m q) = filter_v q"
  "pull (PushBack m q) = pull q"
  "data_requested (PushBack m q) = data_requested q"
  "data_delivered (PushBack m q) = data_delivered q"
  "drop_count (PushBack m q) = drop_count q"
  by (simp_all add: PushBack_def)

lemma Push_fields [queue_simps]:
  "Maxlen (push_q m q) = Maxlen q"
  "replaceRules (push_q m q) = replaceRules q"
  "Replace (push_q m q) = Replace q"
  "filter_on (push_q m q) = filter_on q"
  "filter_v (push_q m q) = filter_v q"
  "pull (push_q m q) = pull q"
  "data_requested (push_q m q) = data_requested q"
  "data_delivered (push_q m q) = data_delivered q"
  by (simp_all add: Push_def Let_def queue_simps)

lemma CheckReplace_cong:
  "replaceRules q = replaceRules q' \<Longrightarrow> Replace q = Replace q' \<Longrightarrow>
   CheckReplace q h = CheckReplace q' h"
  by (simp add: CheckReplace_def)

text \<open>The element that a replacing push removes has the signature of the new message.\<close>

lemma remove_match_elems:
  "(elems (remove_match m q) = elems q \<and> (\<forall>x \<in> set (elems q). \<not> same_signature (Header x) (Header m))) \<or>
   (\<exists>ys z zs. elems q = ys @ z # zs \<and> elems (remove_match m q) = ys @ zs \<and>
      same_signature (Header z) (Header m) \<and>
      (\<forall>x \<in> set zs. \<not> same_signature (Header x) (Header m)))"
proof (cases "find_last (\<lambda>e. Compare e m) (elems q)")
  case None
  then have "remove_match m q = q" by (simp add: remove_match_def)
  with None show ?thesis by (simp add: Compare_iff find_last_None)
next
  case (Some i)
  then obtain ys z zs where *: "elems q = ys @ z # zs" "length ys = i" "Compare z m"
      "\<forall>x \<in> set zs. \<not> Compare x m"
    by (rule find_last_split) blast
  then have "elems (remove_match m q) = ys @ zs"
    using Some by (auto simp: remove_match_def Remove_def remove_nth_split)
  with * show ?thesis by (auto simp: Compare_iff)
qed

definition vital :: "'d message \<Rightarrow> bool" where
  "vital m \<longleftrightarrow> \<not> is_datacmd (Header m)"

lemma same_signature_datacmd:
  "same_signature h h' \<Longrightarrow> is_datacmd h \<longleftrightarrow> is_datacmd h'"
  by (simp add: same_signature_def)

lemma remove_match_vital:
  assumes "is_datacmd (Header m)"
  shows "filter vital (elems (remove_match m q)) = filter vital (elems q)"
  using remove_match_elems [of m q] assms
  by (auto simp: vital_def dest: same_signature_datacmd)

definition spares_vital :: "'d mqueue \<Rightarrow> bool" where
  \<comment> \<open>no rule of the queue ignores or replaces anything but data and commands\<close>
  "spares_vital q \<longleftrightarrow>
     queue_ok q \<and> (\<forall>h. \<not> is_datacmd h \<longrightarrow> CheckReplace q h \<noteq> RULE_IGNORE \<and> CheckReplace q h \<noteq> RULE_REPLACE)"

lemma spares_vital_push: "spares_vital q \<Longrightarrow> spares_vital (push_q m q)"
  using CheckReplace_cong [of "push_q m q" q] by (simp add: spares_vital_def queue_simps)

lemma Push_vital:
  "spares_vital q \<Longrightarrow>
   filter vital (elems (push_q m q)) = filter vital (elems q) @ (if vital m then [m] else [])"
proof (cases "vital m")
  case True
  then have "CheckReplace q (Header m) \<noteq> RULE_IGNORE" "CheckReplace q (Header m) \<noteq> RULE_REPLACE"
      "\<not> is_datacmd (Header m)" if "spares_vital q"
    using that by (auto simp: spares_vital_def vital_def)
  then show "spares_vital q \<Longrightarrow> ?thesis"
    using True by (simp add: Push_def Let_def queue_simps)
next
  case False
  then have "filter vital (elems (remove_match m q)) = filter vital (elems q)"
    by (simp add: remove_match_vital vital_def)
  with False show ?thesis
    by (simp add: Push_def Let_def queue_simps)
qed

interpretation mq: delivery push_q elems vital spares_vital
  by unfold_locales (simp_all add: spares_vital_push Push_vital)

lemma spares_vital_new [simp]: "spares_vital (MessageQueue_new u r n)"
  by (auto simp: spares_vital_def CheckReplace_def MessageQueue_new_def queue_ok_def)

lemma CheckReplace_signature: "same_signature h h' \<Longrightarrow> CheckReplace q h = CheckReplace q h'"
  by (simp add: CheckReplace_def Match_def same_signature_def)

text \<open>The messages no push may lose: neither data nor commands, and no rule asks to ignore or replace them.\<close>

definition kept :: "'d mqueue \<Rightarrow> 'd message \<Rightarrow> bool" where
  "kept q m \<longleftrightarrow> vital m \<and> CheckReplace q (Header m) \<noteq> RULE_IGNORE \<and> CheckReplace q (Header m) \<noteq> RULE_REPLACE"

lemma kept_push [simp]: "kept (push_q m q) = kept q"
  using CheckReplace_cong [of "push_q m q" q] by (simp add: kept_def fun_eq_iff queue_simps)

lemma remove_match_kept:
  assumes "CheckReplace q (Header m) = RULE_REPLACE"
  shows "filter (kept q) (elems (remove_match m q)) = filter (kept q) (elems q)"
proof -
  have "\<not> kept q z" if "same_signature (Header z) (Header m)" for z
    using assms CheckReplace_signature [OF that, of q] by (simp add: kept_def)
  with remove_match_elems [of m q] show ?thesis by auto
qed

lemma Push_kept: "filter (kept q) (elems (push_q m q)) = filter (kept q) (elems q) @ (if kept q m then [m] else [])"
proof (cases "kept q m")
  case True
  then show ?thesis by (simp add: Push_def Let_def queue_simps kept_def vital_def)
next
  case False
  then show ?thesis using remove_match_kept [of q m] by (simp add: Push_def Let_def queue_simps)
qed

text \<open>For a fixed set of rules the sequence of pushes is a delivery queue of the messages that are kept.\<close>

interpretation kept: delivery push_q elems "kept q0" "\<lambda>q. kept q = kept q0" for q0
proof
  fix q m
  assume q: "kept q = kept q0"
  then show "kept (push_q m q) = kept q0" by simp
  from Push_kept [of q m] show "filter (kept q0) (elems (push_q m q)) = filter (kept q0) (elems q) @ (if kept q0 m then [m] else [])"
    unfolding q .
qed

text \<open>C1: Requests, replies and synchs are never lost, duplicated or reordered by \<open>Push\<close>.  Take any queue, whatever its
  content, maximum length, mode, filter and rules, and any sequence of pushes on it.  Of the messages other than data and
  commands that no rule of the queue asks to ignore or to replace, it then holds exactly those it held before, followed by
  those pushed, in the order they were pushed.\<close>

theorem requests_delivered_in_order:
  "filter (kept q) (elems (fold push_q ms q)) = filter (kept q) (elems q) @ filter (kept q) ms"
  by (rule kept.fold_vital) (rule refl)

section \<open>Losses are recorded\<close>

text \<open>What becomes of the message at position \<open>i\<close> of a sequence of pushes: it is ignored by a rule, dropped by a full queue, or
  replaced by a later one of its signature.\<close>

definition overflows :: "'d mqueue \<Rightarrow> 'd message list \<Rightarrow> nat \<Rightarrow> bool" where
  "overflows q ms i \<longleftrightarrow> is_datacmd (Header (ms ! i)) \<and> CheckReplace q (Header (ms ! i)) = RULE_ACCEPT \<and>
     Maxlen q \<le> length (elems (fold push_q (take i ms) q))"

definition superseded :: "'d mqueue \<Rightarrow> 'd message list \<Rightarrow> nat \<Rightarrow> bool" where
  "superseded q ms i \<longleftrightarrow> CheckReplace q (Header (ms ! i)) = RULE_REPLACE \<and>
     (\<exists>j. i < j \<and> j < length ms \<and> same_signature (Header (ms ! j)) (Header (ms ! i)))"

definition stays :: "'d mqueue \<Rightarrow> 'd message list \<Rightarrow> nat \<Rightarrow> bool" where
  "stays q ms i \<longleftrightarrow> CheckReplace q (Header (ms ! i)) \<noteq> RULE_IGNORE \<and> \<not> overflows q ms i \<and> \<not> superseded q ms i"

definition pushed_left :: "'d mqueue \<Rightarrow> 'd message list \<Rightarrow> 'd message list" where
  "pushed_left q ms = map ((!) ms) (filter (stays q ms) [0..<length ms])"

definition replaced_by :: "'d mqueue \<Rightarrow> 'd message list \<Rightarrow> 'd message \<Rightarrow> bool" where
  "replaced_by q ms x \<longleftrightarrow> CheckReplace q (Header x) = RULE_REPLACE \<and> (\<exists>m \<in> set ms. same_signature (Header m) (Header x))"

lemma same_signature_sym: "same_signature h h' \<longleftrightarrow> same_signature h' h"
  by (auto simp: same_signature_def)

lemma fold_push_rules: "CheckReplace (fold push_q ms q) = CheckReplace q \<and> Maxlen (fold push_q ms q) = Maxlen q"
proof (induction ms arbitrary: q)
  case (Cons m ms)
  have "CheckReplace (push_q m q) h = CheckReplace q h" for h by (rule CheckReplace_cong) (simp_all add: queue_simps)
  with Cons show ?case by (simp add: fun_eq_iff queue_simps)
qed simp

lemma overflows_append: "i < length ms \<Longrightarrow> overflows q (ms @ [m]) i = overflows q ms i"
  by (simp add: overflows_def nth_append)

lemma superseded_append:
  assumes "i < length ms"
  shows "superseded q (ms @ [m]) i \<longleftrightarrow> superseded q ms i \<or>
    CheckReplace q (Header (ms ! i)) = RULE_REPLACE \<and> same_signature (Header m) (Header (ms ! i))"
proof -
  let ?P = "\<lambda>x. same_signature (Header x) (Header (ms ! i))"
  have "(\<exists>j. i < j \<and> j < length (ms @ [m]) \<and> ?P ((ms @ [m]) ! j)) \<longleftrightarrow> (\<exists>j. i < j \<and> j < length ms \<and> ?P (ms ! j)) \<or> ?P m" (is "?L \<longleftrightarrow> ?R")
  proof
    assume ?L
    then obtain j where "i < j" "j < length (ms @ [m])" "?P ((ms @ [m]) ! j)" by blast
    then show ?R by (cases "j < length ms") (auto simp: nth_append)
  next
    assume ?R
    then show ?L
    proof
      assume "\<exists>j. i < j \<and> j < length ms \<and> ?P (ms ! j)"
      then obtain j where "i < j" "j < length ms" "?P (ms ! j)" by blast
      then show ?L by (intro exI [of _ j]) (simp add: nth_append)
    next
      assume "?P m"
      with assms show ?L by (intro exI [of _ "length ms"]) simp
    qed
  qed
  then show ?thesis using assms by (auto simp: superseded_def nth_append)
qed

lemma superseded_last: "\<not> superseded q (ms @ [m]) (length ms)"
  by (simp add: superseded_def)

lemma overflows_last:
  "overflows q (ms @ [m]) (length ms) \<longleftrightarrow> is_datacmd (Header m) \<and> CheckReplace q (Header m) = RULE_ACCEPT \<and>
     Maxlen q \<le> length (elems (fold push_q ms q))"
  by (simp add: overflows_def)

text \<open>A push that replaces takes its own signature out of what has been pushed; any other leaves that alone.\<close>

lemma pushed_left_append:
  "pushed_left q (ms @ [m]) =
     filter (\<lambda>x. \<not> (CheckReplace q (Header m) = RULE_REPLACE \<and> same_signature (Header x) (Header m))) (pushed_left q ms) @
     (if CheckReplace q (Header m) = RULE_IGNORE \<or> overflows q (ms @ [m]) (length ms) then [] else [m])"
proof -
  have st: "stays q (ms @ [m]) i \<longleftrightarrow> stays q ms i \<and>
      \<not> (CheckReplace q (Header m) = RULE_REPLACE \<and> same_signature (Header (ms ! i)) (Header m))" if "i < length ms" for i
    using that CheckReplace_signature [of "Header (ms ! i)" "Header m" q]
    by (auto simp: stays_def overflows_append superseded_append nth_append same_signature_sym)
  have "map ((!) (ms @ [m])) (filter (stays q (ms @ [m])) [0..<length ms]) =
      map ((!) ms) (filter (\<lambda>i. stays q ms i \<and>
        \<not> (CheckReplace q (Header m) = RULE_REPLACE \<and> same_signature (Header (ms ! i)) (Header m))) [0..<length ms])"
    by (rule map_cong) (auto simp: st nth_append intro: filter_cong)
  moreover have "stays q (ms @ [m]) (length ms) \<longleftrightarrow> \<not> (CheckReplace q (Header m) = RULE_IGNORE \<or> overflows q (ms @ [m]) (length ms))"
    by (simp add: stays_def superseded_last)
  moreover have "filter (\<lambda>x. \<not> (c \<and> P x)) (map f (filter Q is)) = map f (filter (\<lambda>i. Q i \<and> \<not> (c \<and> P (f i))) is)"
    for c P Q and f :: "nat \<Rightarrow> 'a message" and "is" by (induction "is") auto
  ultimately show ?thesis by (simp add: pushed_left_def)
qed

lemma filter_length_le_1: "length (filter P xs) \<le> 1 \<Longrightarrow> length (filter (\<lambda>x. Q x \<and> P x) xs) \<le> Suc 0"
proof -
  have "length (filter (\<lambda>x. Q x \<and> P x) xs) \<le> length (filter P xs)" by (induction xs) auto
  then show "length (filter P xs) \<le> 1 \<Longrightarrow> ?thesis" by simp
qed

lemma pushed_left_unique:
  assumes "CheckReplace q (Header m) = RULE_REPLACE"
  shows "length (filter (\<lambda>x. same_signature (Header x) (Header m)) (pushed_left q ms)) \<le> 1"
proof (induction ms rule: rev_induct)
  case (snoc x ms)
  show ?case
  proof (cases "same_signature (Header x) (Header m)")
    case True
    have "CheckReplace q (Header x) = RULE_REPLACE" using CheckReplace_signature [OF True, of q] assms by simp
    moreover have "same_signature (Header y) (Header x) = same_signature (Header y) (Header m)" for y :: "'a message"
      using True by (auto simp: same_signature_def)
    ultimately show ?thesis by (simp add: pushed_left_append filter_False)
  next
    case False
    with filter_length_le_1 [OF snoc.IH] show ?thesis by (simp add: pushed_left_append)
  qed
qed (simp add: pushed_left_def)

lemma remove_match_new:
  assumes "elems q = old @ new" "length (filter (\<lambda>x. same_signature (Header x) (Header m)) new) \<le> 1"
  shows "(\<exists>old'. elems (remove_match m q) = old' @ filter (\<lambda>x. \<not> same_signature (Header x) (Header m)) new \<and> subseq old' old \<and>
    filter (\<lambda>x. \<not> same_signature (Header x) (Header m)) old' = filter (\<lambda>x. \<not> same_signature (Header x) (Header m)) old)"
proof (cases "\<exists>x \<in> set (elems q). same_signature (Header x) (Header m)")
  case False
  with remove_match_elems [of m q] have "elems (remove_match m q) = elems q" by auto
  moreover have "filter (\<lambda>x. \<not> same_signature (Header x) (Header m)) new = new" using False assms(1) by (auto simp: filter_id_conv)
  ultimately show ?thesis using assms(1) by (intro exI [of _ old]) simp
next
  case True
  with remove_match_elems [of m q] obtain ys z zs where e: "elems q = ys @ z # zs" "elems (remove_match m q) = ys @ zs"
    "same_signature (Header z) (Header m)" "\<forall>x \<in> set zs. \<not> same_signature (Header x) (Header m)" by blast
  have zs: "filter (\<lambda>x. \<not> same_signature (Header x) (Header m)) zs = zs" using e(4) by (auto simp: filter_id_conv)
  show ?thesis
  proof (cases "length ys < length old")
    case True
    with e(1) assms(1) obtain us where us: "old = ys @ z # us" "zs = us @ new"
      by (auto simp: append_eq_append_conv2 append_eq_Cons_conv)
    then have "filter (\<lambda>x. \<not> same_signature (Header x) (Header m)) new = new" using e(4) by (auto simp: filter_id_conv)
    moreover have "subseq (ys @ us) (ys @ z # us)" by (rule list_emb_append_mono) auto
    ultimately show ?thesis using e us by (intro exI [of _ "ys @ us"]) simp
  next
    case False
    with e(1) assms(1) obtain us where us: "ys = old @ us" "new = us @ z # zs"
      by (auto simp: append_eq_append_conv2 append_eq_Cons_conv Cons_eq_append_conv)
    with assms(2) e(3) have "filter (\<lambda>x. same_signature (Header x) (Header m)) us = []" by simp
    then have "filter (\<lambda>x. \<not> same_signature (Header x) (Header m)) us = us" by (auto simp: filter_id_conv filter_empty_conv)
    with e us zs show ?thesis by (intro exI [of _ old]) simp
  qed
qed

lemma Push_elems:
  "elems (push_q m q) =
    (if CheckReplace q (Header m) = RULE_IGNORE then elems q
     else if CheckReplace q (Header m) = RULE_ACCEPT \<and> is_datacmd (Header m) \<and> Maxlen q \<le> Length q then elems q
     else if CheckReplace q (Header m) = RULE_REPLACE then elems (remove_match m q) @ [m] else elems q @ [m])"
  "drop_count (push_q m q) = (drop_count q \<or> CheckReplace q (Header m) = RULE_ACCEPT \<and> is_datacmd (Header m) \<and> Maxlen q \<le> Length q)"
  by (auto simp: Push_def Let_def queue_simps)

lemma fold_push_ok: "queue_ok q \<Longrightarrow> queue_ok (fold push_q ms q)"
  by (induction ms arbitrary: q) simp_all

definition queued_before :: "'d mqueue \<Rightarrow> 'd message list \<Rightarrow> 'd message list \<Rightarrow> bool" where
  "queued_before q ms old \<longleftrightarrow> subseq old (elems q) \<and>
     filter (\<lambda>x. \<not> replaced_by q ms x) old = filter (\<lambda>x. \<not> replaced_by q ms x) (elems q)"

lemma filter_weaken: "filter P xs = filter P ys \<Longrightarrow> (\<And>x. Q x \<Longrightarrow> P x) \<Longrightarrow> filter Q xs = filter Q ys"
proof -
  assume eq: "filter P xs = filter P ys" and imp: "\<And>x. Q x \<Longrightarrow> P x"
  have "filter Q zs = filter Q (filter P zs)" for zs by (induction zs) (auto dest: imp)
  with eq show ?thesis by metis
qed

lemma queued_before_append: "queued_before q ms old \<Longrightarrow> queued_before q (ms @ [m]) old"
proof -
  assume q: "queued_before q ms old"
  have "\<not> replaced_by q ms x" if "\<not> replaced_by q (ms @ [m]) x" for x using that by (auto simp: replaced_by_def)
  with q show ?thesis unfolding queued_before_def by (blast intro: filter_weaken)
qed

lemma queued_before_replace:
  assumes "queued_before q ms old" "CheckReplace q (Header m) = RULE_REPLACE" "subseq old' old"
    "filter (\<lambda>x. \<not> same_signature (Header x) (Header m)) old' = filter (\<lambda>x. \<not> same_signature (Header x) (Header m)) old"
  shows "queued_before q (ms @ [m]) old'"
proof -
  have sig: "\<not> same_signature (Header x) (Header m)" if "\<not> replaced_by q (ms @ [m]) x" for x
  proof
    assume ss: "same_signature (Header x) (Header m)"
    from CheckReplace_signature [OF this, of q] assms(2) have "CheckReplace q (Header x) = RULE_REPLACE" by simp
    moreover from ss have "same_signature (Header m) (Header x)" by (simp add: same_signature_def)
    ultimately show False using that by (simp add: replaced_by_def)
  qed
  have "filter (\<lambda>x. \<not> replaced_by q (ms @ [m]) x) old' = filter (\<lambda>x. \<not> replaced_by q (ms @ [m]) x) old"
    by (rule filter_weaken [OF assms(4)]) (rule sig)
  moreover have "filter (\<lambda>x. \<not> replaced_by q (ms @ [m]) x) old = filter (\<lambda>x. \<not> replaced_by q (ms @ [m]) x) (elems q)"
    using queued_before_append [OF assms(1), of m] by (simp add: queued_before_def)
  ultimately show ?thesis
    using assms(1) subseq_order.order_trans [OF assms(3)] by (simp add: queued_before_def)
qed

lemma pushes_account:
  assumes "queue_ok q"
  shows "(\<exists>old. elems (fold push_q ms q) = old @ pushed_left q ms \<and> queued_before q ms old) \<and>
    drop_count (fold push_q ms q) = (drop_count q \<or> (\<exists>i < length ms. overflows q ms i))"
proof (induction ms rule: rev_induct)
  case Nil
  then show ?case by (auto simp: pushed_left_def queued_before_def)
next
  case (snoc m ms)
  let ?q = "fold push_q ms q"
  from snoc obtain old where old: "elems ?q = old @ pushed_left q ms" "queued_before q ms old" by blast
  have len: "Length ?q = length (elems ?q)" using fold_push_ok [OF assms] by (simp add: queue_ok_def)
  have rules: "CheckReplace ?q = CheckReplace q" "Maxlen ?q = Maxlen q" using fold_push_rules by auto
  note push = Push_elems [of m ?q, unfolded rules len, folded overflows_last]
  have "(\<exists>i < length (ms @ [m]). overflows q (ms @ [m]) i) \<longleftrightarrow> (\<exists>i < length ms. overflows q ms i) \<or> overflows q (ms @ [m]) (length ms)"
    by (auto simp: less_Suc_eq overflows_append)
  then have dc: "drop_count (fold push_q (ms @ [m]) q) = (drop_count q \<or> (\<exists>i < length (ms @ [m]). overflows q (ms @ [m]) i))"
    using snoc push(2) overflows_last [of q ms m] by auto
  have "\<exists>old. elems (push_q m ?q) = old @ pushed_left q (ms @ [m]) \<and> queued_before q (ms @ [m]) old"
  proof (cases "CheckReplace q (Header m) = RULE_REPLACE")
    case False
    with push(1) old queued_before_append [OF old(2)] overflows_last [of q ms m] show ?thesis by (auto simp: pushed_left_append)
  next
    case True
    obtain old' where o: "elems (remove_match m ?q) = old' @ filter (\<lambda>x. \<not> same_signature (Header x) (Header m)) (pushed_left q ms)"
      "subseq old' old" "filter (\<lambda>x. \<not> same_signature (Header x) (Header m)) old' = filter (\<lambda>x. \<not> same_signature (Header x) (Header m)) old"
      using remove_match_new [OF old(1) pushed_left_unique [OF True]] by blast
    have "queued_before q (ms @ [m]) old'" by (rule queued_before_replace [OF old(2) True o(2,3)])
    moreover have "elems (push_q m ?q) = old' @ pushed_left q (ms @ [m])"
      using True o(1) push(1) overflows_last [of q ms m] by (simp add: pushed_left_append)
    ultimately show ?thesis by blast
  qed
  with dc show ?case by simp
qed

text \<open>C8: No silent loss.  Push any sequence of messages on any queue, whatever its content, rules, mode and limit.  Every push
  returns true.  Of the pushed messages the queue then holds, in order, exactly those that no rule ignores, that did not
  find the queue at its limit as data or commands to be queued, and that no later message of their signature replaces.
  \<open>drop_count\<close> is set exactly if it was set before or some message found the queue at its limit.  Of the messages
  queued before, a part stays in order, with all those that no pushed message replaces.\<close>

theorem Push_no_silent_loss:
  assumes "queue_ok q"
  shows "(\<exists>old. elems (fold push_q ms q) =
        old @ map ((!) ms) (filter (\<lambda>i. CheckReplace q (Header (ms ! i)) \<noteq> RULE_IGNORE \<and> \<not> overflows q ms i \<and> \<not> superseded q ms i)
          [0..<length ms]) \<and>
      subseq old (elems q) \<and> filter (\<lambda>x. \<not> replaced_by q ms x) old = filter (\<lambda>x. \<not> replaced_by q ms x) (elems q)) \<and>
    drop_count (fold push_q ms q) = (drop_count q \<or> (\<exists>i < length ms. overflows q ms i)) \<and>
    (\<forall>m. fst (Push m q))"
  using pushes_account [OF assms, of ms]
  by (simp add: pushed_left_def stays_def [abs_def] queued_before_def) (simp add: Push_def Let_def)

section \<open>The length limit\<close>

text \<open>Accept mode: data and commands are never replaced, only queued, dropped or ignored.\<close>

definition accept_mode :: "'d mqueue \<Rightarrow> bool" where
  "accept_mode q \<longleftrightarrow>
     \<not> Replace q \<and> (\<forall>r \<in> set (replaceRules q). r_replace r = RULE_ACCEPT \<or> r_replace r = RULE_IGNORE)"

definition n_datacmd :: "'d mqueue \<Rightarrow> nat" where
  "n_datacmd q = length (filter (\<lambda>m. is_datacmd (Header m)) (elems q))"

fun keeps_accept_mode :: "'d qop \<Rightarrow> bool" where
  "keeps_accept_mode (QPushFront m) = False"
| "keeps_accept_mode (QSetReplace b) = (\<not> b)"
| "keeps_accept_mode (QAddReplaceRule h r i ix t s rep) = (rep = RULE_ACCEPT \<or> rep = RULE_IGNORE)"
| "keeps_accept_mode _ = True"

lemma CheckReplace_accept_mode:
  "accept_mode q \<Longrightarrow> CheckReplace q h = RULE_ACCEPT \<or> CheckReplace q h = RULE_IGNORE"
  by (auto simp: CheckReplace_def accept_mode_def find_Some_iff split: option.splits dest: nth_mem)

lemma AddReplaceRule_list_set:
  "r' \<in> set (AddReplaceRule_list rs h r i ix t s rep) \<Longrightarrow>
   r_replace r' = rep \<or> r' \<in> set rs"
  by (induction rs) (auto split: if_splits)

lemma Pop_fields [queue_simps]:
  "Maxlen (snd (Pop e q)) = Maxlen q"
  "replaceRules (snd (Pop e q)) = replaceRules q"
  "Replace (snd (Pop e q)) = Replace q"
  "filter_on (snd (Pop e q)) = filter_on q"
  "filter_v (snd (Pop e q)) = filter_v q"
  "pull (snd (Pop e q)) = pull q"
  by (auto simp: Pop_def Let_def Remove_def SetDataRequested_def split: option.splits)

lemma setting_fields [queue_simps]:
  "elems (SetReplace b q) = elems q" "elems (SetPull b q) = elems q"
  "elems (SetDataRequested b q) = elems q" "elems (ClearFilter q) = elems q"
  "elems (SetFilter h r i ix t s q) = elems q"
  "elems (AddReplaceRule h r i ix t s rep q) = elems q"
  "Maxlen (SetReplace b q) = Maxlen q" "Maxlen (SetPull b q) = Maxlen q"
  "Maxlen (SetDataRequested b q) = Maxlen q" "Maxlen (ClearFilter q) = Maxlen q"
  "Maxlen (SetFilter h r i ix t s q) = Maxlen q"
  "Maxlen (AddReplaceRule h r i ix t s rep q) = Maxlen q"
  "Maxlen (PushFront m q) = Maxlen q"
  by (simp_all add: SetReplace_def SetPull_def SetDataRequested_def ClearFilter_def SetFilter_def
      AddReplaceRule_def PushFront_def)

lemma accept_mode_op: "accept_mode q \<Longrightarrow> keeps_accept_mode op \<Longrightarrow> accept_mode (queue_op op q)"
  by (cases op) (auto simp: accept_mode_def queue_simps SetReplace_def SetPull_def SetDataRequested_def
      ClearFilter_def SetFilter_def AddReplaceRule_def dest!: AddReplaceRule_list_set)

lemma Pop_elems [queue_simps]:
  "elems (snd (Pop e q)) =
     (case find_index (poppable q (last_resp q)) (elems q) of
        Some i \<Rightarrow> remove_nth i (elems q) | None \<Rightarrow> elems q)"
  by (auto simp: Pop_def Let_def Remove_def SetDataRequested_def split: option.splits)

lemma Pop_elems_cases:
  "elems (snd (Pop e q)) = elems q \<or>
   (\<exists>ys z zs. elems q = ys @ z # zs \<and> elems (snd (Pop e q)) = ys @ zs)"
proof (cases "find_index (poppable q (last_resp q)) (elems q)")
  case (Some i)
  moreover from Some obtain ys z zs where "elems q = ys @ z # zs" "length ys = i"
    by (rule find_index_split) blast
  ultimately have "elems (snd (Pop e q)) = ys @ zs"
    by (auto simp: Pop_elems remove_nth_split)
  with \<open>elems q = ys @ z # zs\<close> show ?thesis by blast
qed (simp add: Pop_elems)

lemma n_datacmd_op:
  assumes "accept_mode q" "queue_ok q" "keeps_accept_mode op" "n_datacmd q \<le> Maxlen q"
  shows "n_datacmd (queue_op op q) \<le> Maxlen q"
proof (cases op)
  case (QPush m)
  have "n_datacmd q \<le> Length q"
    using assms(2) by (simp add: n_datacmd_def queue_ok_def)
  then show ?thesis
    using QPush CheckReplace_accept_mode [OF assms(1), of "Header m"] assms(4)
    by (auto simp: Push_def Let_def n_datacmd_def queue_simps)
next
  case (QPop e)
  then show ?thesis
    using Pop_elems_cases [of e q] assms(4) by (auto simp: n_datacmd_def split: if_splits)
qed (use assms in \<open>simp_all add: n_datacmd_def queue_simps\<close>)

lemma Maxlen_op [queue_simps]: "Maxlen (queue_op op q) = Maxlen q"
  by (cases op) (simp_all add: queue_simps)

text \<open>The length limit, in accept mode: along every sequence of queue operations that
  leaves the queue in accept mode and does not use \<open>PushFront\<close>, the number of queued data and
  command messages never exceeds \<open>Maxlen\<close>.\<close>

theorem datacmd_within_Maxlen:
  assumes "accept_mode q" and "queue_ok q" and "n_datacmd q \<le> Maxlen q"
    and "list_all keeps_accept_mode ops"
  shows "n_datacmd (run_ops ops q) \<le> Maxlen (run_ops ops q)"
  using assms
proof (induction ops arbitrary: q)
  case (Cons op ops)
  then show ?case
    using n_datacmd_op [of q op]
    by (simp add: accept_mode_op queue_ok_op Maxlen_op)
qed simp

text \<open>A full queue of length 1 that gets a command, then a request, then a second command.\<close>

definition hdr0 :: "u8 \<Rightarrow> u8 \<Rightarrow> msghdr" where
  "hdr0 t s = \<lparr>addr = \<lparr>host = 0, robot = 6665, interf = 4, idx = 0\<rparr>, mtype = t, subtype = s,
     timestamp = 0, seq = 0, msize = 0\<rparr>"

definition msg0 :: "u8 \<Rightarrow> u8 \<Rightarrow> unit message" where
  "msg0 t s = \<lparr>Header = hdr0 t s, Data = None, Queue = None\<rparr>"

definition fv0 :: filter_vals where
  "fv0 = \<lparr>f_host = 0, f_robot = 0, f_interf = 0, f_index = 0, f_type = 0, f_subtype = 0\<rparr>"

theorem Push_no_silent_loss_witness:
  "\<exists>old. elems (fold push_q [msg0 MSGTYPE_CMD 1, msg0 MSGTYPE_REQ 1, msg0 MSGTYPE_CMD 2] (MessageQueue_new fv0 False 1)) =
      old @ [msg0 MSGTYPE_CMD 1, msg0 MSGTYPE_REQ 1] \<and> subseq old [] \<and>
    drop_count (fold push_q [msg0 MSGTYPE_CMD 1, msg0 MSGTYPE_REQ 1, msg0 MSGTYPE_CMD 2] (MessageQueue_new fv0 False 1))"
proof -
  define q :: "unit mqueue" where "q = MessageQueue_new fv0 False 1"
  define ms where "ms = [msg0 MSGTYPE_CMD 1, msg0 MSGTYPE_REQ 1, msg0 MSGTYPE_CMD 2]"
  have acc: "CheckReplace q h = RULE_ACCEPT" for h by (simp add: q_def CheckReplace_def MessageQueue_new_def)
  have "queue_ok q" "elems q = []" by (simp_all add: q_def queue_ok_def MessageQueue_new_def)
  note acct = Push_no_silent_loss [OF this(1), of ms, unfolded this(2)]
  have o: "\<not> overflows q ms 0" "\<not> overflows q ms 1" "overflows q ms 2"
    by (simp_all add: q_def ms_def overflows_def msg0_def hdr0_def MessageQueue_new_def Push_def CheckReplace_def PushBack_def Let_def numeral_2_eq_2)
  have r: "[0..<length ms] = [0, 1, 2]" by (simp add: ms_def upt_rec)
  have "filter (\<lambda>i. CheckReplace q (Header (ms ! i)) \<noteq> RULE_IGNORE \<and> \<not> overflows q ms i \<and> \<not> superseded q ms i) [0..<length ms] = [0, 1]"
    unfolding r using o by (simp add: acc superseded_def)
  then have "\<exists>old. elems (fold push_q ms q) = old @ map ((!) ms) [0, 1] \<and> subseq old []" using acct by auto
  moreover have "2 < length ms" by (simp add: ms_def)
  with o(3) have "drop_count (fold push_q ms q)" using acct by blast
  ultimately show ?thesis unfolding q_def [symmetric] ms_def [symmetric] by (simp add: ms_def)
qed

lemma datacmd_within_Maxlen_witness:
  "n_datacmd (run_ops [QPush (msg0 MSGTYPE_CMD 1), QPush (msg0 MSGTYPE_REQ 1), QPush (msg0 MSGTYPE_CMD 2)]
     (MessageQueue_new fv0 False 1))
   \<le> Maxlen (run_ops [QPush (msg0 MSGTYPE_CMD 1), QPush (msg0 MSGTYPE_REQ 1), QPush (msg0 MSGTYPE_CMD 2)]
     (MessageQueue_new fv0 False 1))"
  by (rule datacmd_within_Maxlen)
    (simp_all add: accept_mode_def MessageQueue_new_def queue_ok_def n_datacmd_def)

section \<open>Replace mode\<close>

definition replace_mode :: "'d mqueue \<Rightarrow> bool" where
  "replace_mode q \<longleftrightarrow> Replace q \<and> replaceRules q = []"

definition sig :: "'d message \<Rightarrow> devaddr \<times> u8 \<times> u8" where
  "sig m = (addr (Header m), mtype (Header m), subtype (Header m))"

definition one_per_signature :: "'d mqueue \<Rightarrow> bool" where
  "one_per_signature q \<longleftrightarrow> distinct (map sig (filter (\<lambda>m. is_datacmd (Header m)) (elems q)))"

fun keeps_replace_mode :: "'d qop \<Rightarrow> bool" where
  "keeps_replace_mode (QPushFront m) = False"
| "keeps_replace_mode (QSetReplace b) = b"
| "keeps_replace_mode (QAddReplaceRule h r i ix t s rep) = False"
| "keeps_replace_mode _ = True"

lemma same_signature_sig: "same_signature (Header a) (Header b) \<longleftrightarrow> sig a = sig b"
  by (auto simp: same_signature_def sig_def)

lemma CheckReplace_replace_mode:
  "replace_mode q \<Longrightarrow>
   CheckReplace q h = (if is_datacmd h then RULE_REPLACE else RULE_ACCEPT)"
  by (auto simp: CheckReplace_def replace_mode_def)

lemma one_per_signature_remove:
  assumes "one_per_signature q" and "is_datacmd (Header m)"
  shows "one_per_signature (PushBack m (remove_match m q))"
proof -
  let ?P = "\<lambda>m. is_datacmd (Header m)"
  have "sig m \<notin> sig ` set (filter ?P (elems (remove_match m q))) \<and>
        distinct (map sig (filter ?P (elems (remove_match m q))))"
    using remove_match_elems [of m q]
  proof (elim disjE exE conjE, goal_cases)
    case 1
    then show ?case using assms by (auto simp: one_per_signature_def same_signature_sig)
  next
    case (2 ys z zs)
    then have "?P z" using assms(2) by (auto simp: same_signature_def)
    with 2 assms(1) show ?case
      by (auto simp: one_per_signature_def same_signature_sig)
  qed
  then show ?thesis
    by (auto simp: one_per_signature_def queue_simps)
qed

lemma one_per_signature_op:
  assumes "replace_mode q" "one_per_signature q" "keeps_replace_mode op"
  shows "one_per_signature (queue_op op q)"
proof (cases op)
  case (QPush m)
  show ?thesis
  proof (cases "is_datacmd (Header m)")
    case True
    then show ?thesis
      using QPush assms one_per_signature_remove [of q m]
      by (simp add: Push_def Let_def CheckReplace_replace_mode)
  next
    case False
    then show ?thesis
      using QPush assms by (simp add: Push_def Let_def CheckReplace_replace_mode one_per_signature_def queue_simps)
  qed
next
  case (QPop e)
  then show ?thesis
    using Pop_elems_cases [of e q] assms(2) by (auto simp: one_per_signature_def split: if_splits)
qed (use assms in \<open>simp_all add: one_per_signature_def queue_simps\<close>)

lemma replace_mode_op: "replace_mode q \<Longrightarrow> keeps_replace_mode op \<Longrightarrow> replace_mode (queue_op op q)"
  by (cases op) (auto simp: replace_mode_def queue_simps SetReplace_def SetPull_def SetDataRequested_def
      ClearFilter_def SetFilter_def)

text \<open>Replace mode keeps at most one message per signature: along every sequence of queue
  operations that leaves the queue in replace mode without rules and does not use \<open>PushFront\<close>,
  no two queued data or command messages have the same address, type and subtype.\<close>

theorem replace_mode_unique:
  assumes "replace_mode q" and "one_per_signature q" and "list_all keeps_replace_mode ops"
  shows "one_per_signature (run_ops ops q)"
  using assms
proof (induction ops arbitrary: q)
  case (Cons op ops)
  then show ?case
    using one_per_signature_op [of q op] replace_mode_op [of q op] by simp
qed simp

lemma replace_mode_unique_witness:
  "one_per_signature (run_ops [QPush (msg0 MSGTYPE_CMD 1), QPush (msg0 MSGTYPE_CMD 2), QPush (msg0 MSGTYPE_CMD 1)]
     (MessageQueue_new fv0 True 1))"
  by (rule replace_mode_unique)
    (simp_all add: replace_mode_def MessageQueue_new_def one_per_signature_def)

text \<open>
  In replace mode the length limit is not consulted: \<open>Maxlen\<close> does not bound the queue, the
  number of signatures does.
\<close>

lemma replace_mode_ignores_Maxlen:
  "Length (run_ops [QPush (msg0 MSGTYPE_CMD 1), QPush (msg0 MSGTYPE_CMD 2)] (MessageQueue_new fv0 True 1)) = 2"
  by (simp add: Push_def Let_def CheckReplace_def MessageQueue_new_def msg0_def hdr0_def
      remove_match_def find_last_def Compare_def MatchMessage_def PushBack_def neg_code)

section \<open>What a reader gets\<close>

text \<open>Popping until the queue returns NULL, at most \<open>n\<close> times (as \<open>WriteClient\<close> does).\<close>

fun drain :: "'d pop_env \<Rightarrow> nat \<Rightarrow> 'd mqueue \<Rightarrow> 'd message list \<times> 'd mqueue" where
  "drain e 0 q = ([], q)"
| "drain e (Suc n) q =
     (case Pop e q of
        (None, q') \<Rightarrow> ([], q')
      | (Some m, q') \<Rightarrow> (case drain e n q' of (ms, q'') \<Rightarrow> (m # ms, q'')))"

definition up_to_last :: "('a \<Rightarrow> bool) \<Rightarrow> 'a list \<Rightarrow> 'a list" where
  "up_to_last P xs = rev (dropWhile (\<lambda>x. \<not> P x) (rev xs))"

lemma up_to_last_empty [simp]: "up_to_last P [] = []"
  by (simp add: up_to_last_def)

lemma up_to_last_Nil [simp]: "(\<And>x. x \<in> set xs \<Longrightarrow> \<not> P x) \<Longrightarrow> up_to_last P xs = []"
  by (simp add: up_to_last_def)

lemma up_to_last_Cons:
  "\<exists>y \<in> set (x # xs). P y \<Longrightarrow> up_to_last P (x # xs) = x # up_to_last P xs"
  by (cases "\<exists>y \<in> set xs. P y") (auto simp: up_to_last_def dropWhile_append)

definition synch_msg :: "'d pop_env \<Rightarrow> bool \<Rightarrow> 'd message" where
  "synch_msg e dropped =
     (if dropped
      then CreateMessage (env_xdr e) (synch_header e SYNCH_OVERFLOW) (Some (at_drop_count e True)) None True
      else CreateMessage (env_xdr e) (synch_header e SYNCH_OK) None None False)"

lemma Pop_Nil:
  "elems q = [] \<Longrightarrow>
   Pop e q = (if pull q \<and> data_requested q \<and> data_delivered q
              then (Some (synch_msg e (drop_count q)),
                    SetDataRequested False (q\<lparr>drop_count := False\<rparr>))
              else (None, q))"
  by (auto simp: Pop_def synch_msg_def SetDataRequested_def)

lemma Pop_head:
  assumes "elems q = m # ms" and "poppable q (last_resp q) m"
  shows "Pop e q = (Some m, q\<lparr>elems := ms, Length := Length q - 1,
      data_delivered := data_delivered q \<or> data_requested q \<and> mtype (Header m) = MSGTYPE_DATA\<rparr>)"
  using assms by (auto simp: Pop_def Remove_def remove_nth_def Let_def)

lemma Pop_none:
  assumes "\<forall>m \<in> set (elems q). \<not> poppable q (last_resp q) m" and "\<not> (pull q \<and> data_requested q)"
  shows "Pop e q = (None, q)"
proof -
  have "find_index (poppable q (last_resp q)) (elems q) = None"
    using assms(1) by (simp add: find_index_None)
  with assms(2) show ?thesis by (auto simp: Pop_def)
qed

text \<open>First in, first out: in push mode without a filter, \<open>n\<close> pops return the first \<open>n\<close>
  queued messages in order and leave the rest.\<close>

theorem drain_push_mode:
  assumes "\<not> pull q" and "\<not> filter_on q"
  shows "fst (drain e n q) = take n (elems q) \<and> elems (snd (drain e n q)) = drop n (elems q)"
  using assms
proof (induction n arbitrary: q)
  case (Suc n)
  show ?case
  proof (cases "elems q")
    case Nil
    with Suc.prems show ?thesis by (simp add: Pop_Nil)
  next
    case (Cons m ms)
    with Suc.prems have "poppable q (last_resp q) m" by (simp add: poppable_def)
    with Suc.IH Suc.prems Cons show ?thesis
      by (simp add: Pop_head [OF Cons] split: prod.splits)
        (metis (no_types, lifting) fst_conv mqueue.select_convs(1,6,8) mqueue.surjective
          mqueue.update_convs(1,2,10) snd_conv)
  qed
qed simp

lemma drain_push_mode_witness:
  "fst (drain undefined 2 (push_q (msg0 2 2) (push_q (msg0 3 1) (MessageQueue_new fv0 False 5))))
     = [msg0 3 1, msg0 2 2]"
  using drain_push_mode [of "push_q (msg0 2 2) (push_q (msg0 3 1) (MessageQueue_new fv0 False 5))"
      undefined 2]
  by (simp add: Push_def Let_def CheckReplace_def MessageQueue_new_def msg0_def hdr0_def PushBack_def)

subsection \<open>Pull mode, no request pending\<close>

lemma last_resp_pull:
  "\<not> filter_on q \<Longrightarrow> \<not> data_requested q \<Longrightarrow>
   last_resp q = None \<longleftrightarrow> (\<forall>m \<in> set (elems q). \<not> is_resp (Header m))"
  by (simp add: last_resp_def find_last_None)

text \<open>In pull mode with no data requested, a reader gets everything up to and including the
  last pending reply and nothing after it (with no reply pending, nothing at all), and the rest
  stays queued in order.\<close>

theorem drain_pull_until_last_response:
  assumes "pull q" and "\<not> data_requested q" and "\<not> filter_on q" and "length (elems q) \<le> n"
  shows "fst (drain e n q) = up_to_last (\<lambda>m. is_resp (Header m)) (elems q) \<and>
         fst (drain e n q) @ elems (snd (drain e n q)) = elems q"
  using assms
proof (induction n arbitrary: q)
  case (Suc n)
  show ?case
  proof (cases "\<exists>m \<in> set (elems q). is_resp (Header m)")
    case True
    then obtain m ms where Cons: "elems q = m # ms" by (cases "elems q") auto
    have "poppable q (last_resp q) m"
      using True Suc.prems last_resp_pull [of q] by (auto simp: poppable_def)
    note step = Pop_head [OF Cons this]
    show ?thesis
      using Suc.IH [of "snd (Pop e q)"] Suc.prems True
      by (auto simp: step Cons up_to_last_Cons split: prod.splits)
  next
    case False
    then have "Pop e q = (None, q)"
      using Suc.prems last_resp_pull [of q] by (intro Pop_none) (auto simp: poppable_def)
    with False show ?thesis by simp
  qed
qed simp

lemma drain_pull_until_last_response_witness:
  "fst (drain undefined 3 (SetPull True (push_q (msg0 1 3) (push_q (msg0 4 2) (push_q (msg0 1 1)
     (MessageQueue_new fv0 False 5)))))) = [msg0 1 1, msg0 4 2]"
  using drain_pull_until_last_response [of "SetPull True (push_q (msg0 1 3) (push_q (msg0 4 2)
      (push_q (msg0 1 1) (MessageQueue_new fv0 False 5))))" 3 undefined]
  by (simp add: Push_def Let_def CheckReplace_def MessageQueue_new_def msg0_def hdr0_def PushBack_def
      SetPull_def up_to_last_def)

subsection \<open>Pull mode, one frame\<close>

definition is_data :: "'d message \<Rightarrow> bool" where
  "is_data m \<longleftrightarrow> mtype (Header m) = MSGTYPE_DATA"

text \<open>A requested frame is closed by exactly one synch: in pull mode after a data request, a
  reader gets every queued message in order, then one synch message if and only if a data message
  was among them (or had been delivered before); the synch is of subtype overflow exactly when
  messages were dropped, and sending it clears both the request and the drop flag.\<close>

theorem drain_pull_frame:
  assumes "pull q" and "data_requested q" and "\<not> filter_on q" and "length (elems q) < n"
  shows "let closes = data_delivered q \<or> (\<exists>m \<in> set (elems q). is_data m); q' = snd (drain e n q) in
    fst (drain e n q) = elems q @ (if closes then [synch_msg e (drop_count q)] else []) \<and>
    elems q' = [] \<and> data_requested q' = (\<not> closes) \<and> drop_count q' = (drop_count q \<and> \<not> closes)"
  using assms
proof (induction n arbitrary: q)
  case (Suc n)
  show ?case
  proof (cases "elems q")
    case (Cons m ms)
    with Suc.prems have "poppable q (last_resp q) m" by (simp add: poppable_def)
    note step = Pop_head [OF Cons this]
    have len: "length (elems (snd (Pop e q))) < n"
      using Suc.prems Cons by (simp add: step)
    then show ?thesis
      using Suc.IH [of "snd (Pop e q)"] Suc.prems
      by (auto simp: step Cons is_data_def Let_def split: prod.splits)
  next
    case Nil
    show ?thesis
    proof (cases "data_delivered q")
      case False
      with Nil Suc.prems show ?thesis by (simp add: Pop_Nil)
    next
      case True
      define q1 where "q1 = SetDataRequested False (q\<lparr>drop_count := False\<rparr>)"
      have q1: "elems q1 = []" "\<not> data_requested q1" "\<not> drop_count q1"
        by (simp_all add: q1_def SetDataRequested_def Nil)
      have "drain e n q1 = ([], q1)"
        by (cases n) (simp_all add: Pop_Nil q1)
      with True Nil Suc.prems q1 show ?thesis
        by (simp add: Pop_Nil q1_def [symmetric] del: mqueue.simps)
    qed
  qed
qed simp

text \<open>A queue of length 1 in pull mode: one data message is kept, one is dropped.\<close>

definition env0 :: "unit pop_env" where
  "env0 = \<lparr>env_xdr = \<lparr>get_sizeoffunc = (\<lambda>_ _ _. None), get_clonefunc = (\<lambda>_ _ _. None)\<rparr>,
     stack_time = 0, stack_seq = 0, at_drop_count = (\<lambda>_. ())\<rparr>"

lemma drain_pull_frame_witness:
  "fst (drain env0 2 (SetDataRequested True (SetPull True (push_q (msg0 1 2) (push_q (msg0 1 1)
     (MessageQueue_new fv0 False 1)))))) = [msg0 1 1, synch_msg env0 True]"
  using drain_pull_frame [of "SetDataRequested True (SetPull True (push_q (msg0 1 2) (push_q (msg0 1 1)
     (MessageQueue_new fv0 False 1))))" 2 env0]
  by (simp add: Push_def Let_def CheckReplace_def MessageQueue_new_def msg0_def hdr0_def PushBack_def
      SetPull_def SetDataRequested_def is_data_def)

section \<open>Filters and rules\<close>

text \<open>With a filter set in push mode, \<open>Pop\<close> returns the first message that passes the filter,
  keeps the others in order, and returns NULL only if none passes.\<close>

theorem Pop_filtered:
  assumes "filter_on q" and "\<not> pull q"
  shows "case fst (Pop e q) of
      None \<Rightarrow> (\<forall>m \<in> set (elems q). \<not> Filter q m) \<and> snd (Pop e q) = q
    | Some m \<Rightarrow> (\<exists>ys zs. elems q = ys @ m # zs \<and> (\<forall>y \<in> set ys. \<not> Filter q y) \<and> Filter q m \<and>
        elems (snd (Pop e q)) = ys @ zs)"
proof -
  have p: "poppable q (last_resp q) m \<longleftrightarrow> Filter q m" for m
    using assms by (simp add: poppable_def last_resp_def)
  show ?thesis
  proof (cases "find_index (poppable q (last_resp q)) (elems q)")
    case None
    then have "\<forall>m \<in> set (elems q). \<not> Filter q m" by (simp add: find_index_None p)
    with None assms show ?thesis by (simp add: Pop_def)
  next
    case (Some i)
    then obtain ys z zs where *: "elems q = ys @ z # zs" "length ys = i" "Filter q z"
        "\<forall>y \<in> set ys. \<not> Filter q y"
      by (rule find_index_split) (auto simp: p)
    have "elems (snd (Pop e q)) = ys @ zs"
      using Some * by (auto simp: Pop_elems remove_nth_split)
    moreover have "fst (Pop e q) = Some z"
      using Some * by (auto simp: Pop_def Let_def nth_append)
    ultimately show ?thesis using * by auto
  qed
qed

lemma Pop_filtered_witness:
  "fst (Pop env0 (SetFilter (- 1) (- 1) 4 0 (- 1) 2 (push_q (msg0 4 2) (push_q (msg0 2 2)
     (MessageQueue_new fv0 False 5))))) = Some (msg0 4 2)"
  using Pop_filtered [of "SetFilter (- 1) (- 1) 4 0 (- 1) 2 (push_q (msg0 4 2) (push_q (msg0 2 2)
     (MessageQueue_new fv0 False 5)))" env0]
  by (simp add: Push_def Let_def CheckReplace_def MessageQueue_new_def msg0_def hdr0_def PushBack_def
      SetFilter_def Filter_def neg_code Pop_def poppable_def last_resp_def)

lemma ucast_u16_inject [simp]: "(ucast (x :: u16) :: c_int) = ucast y \<longleftrightarrow> x = y"
  by (metis ucast_ucast_u16)

lemma ucast_u8_inject [simp]: "(ucast (x :: u8) :: c_int) = ucast y \<longleftrightarrow> x = y"
  by (metis ucast_ucast_u8)

lemma minus_one_neq_ucast_u8 [simp]: "(- 1 :: c_int) \<noteq> ucast (x :: u8)"
  by (metis neg_minus_one neg_ucast_u8)

text \<open>The filter that \<open>Device::TimedRequest\<close> sets while it waits for the reply of \<open>a\<close>.\<close>

definition request_filter :: "devaddr \<Rightarrow> u8 \<Rightarrow> 'd mqueue \<Rightarrow> 'd mqueue" where
  "request_filter a sub q =
     SetFilter (host a) (robot a) (ucast (interf a)) (ucast (idx a)) (- 1) (ucast sub) q"

text \<open>While a request to a device is outstanding, the filter set for it passes exactly the
  replies (positive or negative) from that device to that request subtype, provided the host and
  robot parts of the address are below 2^31.\<close>

theorem request_filter_exact:
  assumes "\<not> neg (host a)" and "\<not> neg (robot a)"
  shows "Filter (request_filter a sub q) m \<longleftrightarrow>
     is_resp (Header m) \<and> addr (Header m) = a \<and> subtype (Header m) = sub"
proof -
  have "addr (Header m) = a \<longleftrightarrow> host (addr (Header m)) = host a \<and> robot (addr (Header m)) = robot a \<and>
      interf (addr (Header m)) = interf a \<and> idx (addr (Header m)) = idx a"
    by auto
  then show ?thesis
    using assms by (auto simp: request_filter_def Filter_def SetFilter_def Let_def)
qed

lemma request_filter_exact_witness:
  "Filter (request_filter (addr (hdr0 3 2)) 2 (MessageQueue_new fv0 False 5)) (msg0 6 2)"
  using request_filter_exact [of "addr (hdr0 3 2)" 2 "MessageQueue_new fv0 False 5" "msg0 6 2"]
  by (simp add: hdr0_def msg0_def neg_code)

text \<open>
  The proviso is needed: the unsigned host is stored in an \<open>int\<close>, where a value of 2^31 or more
  is negative and means \<open>don't care\<close>.  For a host such as 10.0.0.200 (packed 0xC800000A) the
  filter passes the replies of every other host.
\<close>

lemma request_filter_high_host:
  "Filter (request_filter \<lparr>host = 0xC800000A, robot = 6665, interf = 4, idx = 0\<rparr> 2
     (MessageQueue_new fv0 False 5)) (msg0 4 2)"
  "addr (Header (msg0 4 2)) \<noteq> \<lparr>host = 0xC800000A, robot = 6665, interf = 4, idx = 0\<rparr>"
  by (simp_all add: request_filter_def Filter_def SetFilter_def msg0_def hdr0_def Let_def neg_code)

lemma find_AddReplaceRule:
  fixes hdr :: msghdr
  defines "new \<equiv> \<lambda>h r i ix t s rep. \<lparr>r_host = h, r_robot = r, r_interf = i, r_index = ix,
      r_type = t, r_subtype = s, r_replace = rep\<rparr>"
  shows "map_option r_replace (find (\<lambda>r. Match r hdr) (AddReplaceRule_list rs h r i ix t s rep)) =
    (if Match (new h r i ix t s rep) hdr \<and>
        (\<forall>c \<in> set (takeWhile (\<lambda>c. \<not> Equivalent c h r i ix t s) rs). \<not> Match c hdr)
     then Some rep else map_option r_replace (find (\<lambda>r. Match r hdr) rs))"
proof (induction rs)
  case (Cons c rs)
  show ?case
  proof (cases "Equivalent c h r i ix t s")
    case True
    then have "Match (c\<lparr>r_replace := rep\<rparr>) hdr = Match (new h r i ix t s rep) hdr"
        "Match c hdr = Match (new h r i ix t s rep) hdr"
      by (simp_all add: new_def Equivalent_def Match_def)
    with True show ?thesis by simp
  next
    case False
    with Cons show ?thesis by simp
  qed
qed (simp add: new_def)

text \<open>The rule table is first-match with in-place update: after \<open>AddReplaceRule\<close> the new
  verdict applies to a message exactly when the message matches the new criteria and no older rule
  with other criteria, added before any rule with the same criteria, matches it; every other
  verdict is unchanged.\<close>

theorem CheckReplace_AddReplaceRule:
  "CheckReplace (AddReplaceRule h r i ix t s rep q) hdr =
     (if Match \<lparr>r_host = h, r_robot = r, r_interf = i, r_index = ix, r_type = t, r_subtype = s,
                r_replace = rep\<rparr> hdr \<and>
         filter (\<lambda>c. Match c hdr) (takeWhile (\<lambda>c. \<not> Equivalent c h r i ix t s) (replaceRules q)) = []
      then rep else CheckReplace q hdr)"
proof -
  let ?f = "\<lambda>rs. map_option r_replace (find (\<lambda>r. Match r hdr) rs)"
  define g where "g = (\<lambda>d v. case v of Some x \<Rightarrow> x | None \<Rightarrow> (d :: c_int))"
  have g: "g d (Some v) = v" for d v
    by (simp add: g_def)
  have *: "CheckReplace q1 hdr = g (CheckReplace (q1\<lparr>replaceRules := []\<rparr>) hdr) (?f (replaceRules q1))"
    for q1 :: "'a mqueue"
    by (simp add: CheckReplace_def g_def split: option.split)
  have "CheckReplace (AddReplaceRule h r i ix t s rep q\<lparr>replaceRules := []\<rparr>) hdr =
      CheckReplace (q\<lparr>replaceRules := []\<rparr>) hdr"
    by (rule CheckReplace_cong) (simp_all add: AddReplaceRule_def)
  then have "CheckReplace (AddReplaceRule h r i ix t s rep q) hdr =
      g (CheckReplace (q\<lparr>replaceRules := []\<rparr>) hdr)
        (?f (AddReplaceRule_list (replaceRules q) h r i ix t s rep))"
    by (subst *) (simp add: AddReplaceRule_def)
  then show ?thesis
    unfolding find_AddReplaceRule by (simp add: g * [of q] filter_empty_conv)
qed

end
