(* ===== verification/QueueLinks.thy ===== *)
theory QueueLinks
  imports QueueProps
begin

text \<open>
  The doubly linked \<open>MessageQueueElement\<close>s under the message queue: \<open>PushFront\<close>, \<open>PushBack\<close>,
  \<open>Remove\<close>, and the searches of \<open>Push\<close> (from the tail) and \<open>Pop\<close> (from the head), on an explicit
  store of elements.  Every operation is shown to keep the links well formed and to act on the
  list of messages as the operation of \<open>MessageQueue\<close> with the same name does.
\<close>

section \<open>The element store\<close>

text \<open>Elements are numbered in order of allocation; \<open>fresh\<close> is the next number.\<close>

record 'm dll =
  el_msg :: "nat \<Rightarrow> 'm option"
  el_prev :: "nat \<Rightarrow> nat option"
  el_next :: "nat \<Rightarrow> nat option"
  qhead :: "nat option"
  qtail :: "nat option"
  qlen :: nat
  fresh :: nat

definition dll_new :: "'m dll" where
  "dll_new = \<lparr>el_msg = Map.empty, el_prev = Map.empty, el_next = Map.empty, qhead = None,
     qtail = None, qlen = 0, fresh = 0\<rparr>"

definition new_element :: "'m \<Rightarrow> 'm dll \<Rightarrow> 'm dll" where
  "new_element m s =
     s\<lparr>el_msg := (el_msg s)(fresh s \<mapsto> m), el_prev := (el_prev s)(fresh s := None),
       el_next := (el_next s)(fresh s := None), fresh := Suc (fresh s)\<rparr>"

definition PushFront_links :: "'m \<Rightarrow> 'm dll \<Rightarrow> 'm dll" where
  "PushFront_links m s =
     (let e = fresh s; s1 = new_element m s in
      (case (qtail s1, qhead s1) of
         (Some t, Some h) \<Rightarrow>
           s1\<lparr>el_next := (el_next s1)(e := Some h), el_prev := (el_prev s1)(e := None, h := Some e),
              qhead := Some e, qlen := qlen s1 + 1\<rparr>
       | _ \<Rightarrow> s1\<lparr>qhead := Some e, qtail := Some e, qlen := qlen s1 + 1\<rparr>))"

definition PushBack_links :: "'m \<Rightarrow> 'm dll \<Rightarrow> 'm dll" where
  "PushBack_links m s =
     (let e = fresh s; s1 = new_element m s in
      (case qtail s1 of
         Some t \<Rightarrow>
           s1\<lparr>el_next := (el_next s1)(t := Some e, e := None), el_prev := (el_prev s1)(e := Some t),
              qtail := Some e, qlen := qlen s1 + 1\<rparr>
       | None \<Rightarrow> s1\<lparr>qhead := Some e, qtail := Some e, qlen := qlen s1 + 1\<rparr>))"

definition Remove_links :: "nat \<Rightarrow> 'm dll \<Rightarrow> 'm dll" where
  "Remove_links e s =
     (let s1 = (case el_prev s e of
                  Some p \<Rightarrow> s\<lparr>el_next := (el_next s)(p := el_next s e)\<rparr>
                | None \<Rightarrow> s\<lparr>qhead := el_next s e\<rparr>);
          s2 = (case el_next s1 e of
                  Some n \<Rightarrow> s1\<lparr>el_prev := (el_prev s1)(n := el_prev s1 e)\<rparr>
                | None \<Rightarrow> s1\<lparr>qtail := el_prev s1 e\<rparr>)
      in s2\<lparr>qlen := qlen s2 - 1\<rparr>)"

definition delete_element :: "nat \<Rightarrow> 'm dll \<Rightarrow> 'm dll" where
  "delete_element e s = s\<lparr>el_msg := (el_msg s)(e := None)\<rparr>"

text \<open>
  \<open>for(el = start; el; el = link(el)) if(P(el)) break;\<close>  The fuel is \<open>fresh\<close>, the number of elements
  ever allocated, which no cycle-free chain exceeds.
\<close>

fun chain_find :: "nat \<Rightarrow> (nat \<Rightarrow> nat option) \<Rightarrow> (nat \<Rightarrow> bool) \<Rightarrow> nat option \<Rightarrow> nat option" where
  "chain_find n link P None = None"
| "chain_find 0 link P (Some e) = None"
| "chain_find (Suc n) link P (Some e) = (if P e then Some e else chain_find n link P (link e))"

fun chain :: "nat \<Rightarrow> (nat \<Rightarrow> nat option) \<Rightarrow> nat option \<Rightarrow> nat list" where
  "chain n link None = []"
| "chain 0 link (Some e) = []"
| "chain (Suc n) link (Some e) = e # chain n link (link e)"

definition el_sat :: "'m dll \<Rightarrow> ('m \<Rightarrow> bool) \<Rightarrow> nat \<Rightarrow> bool" where
  "el_sat s P e = (case el_msg s e of Some m \<Rightarrow> P m | None \<Rightarrow> False)"

definition drop_last_match :: "('m \<Rightarrow> bool) \<Rightarrow> 'm dll \<Rightarrow> 'm dll" where
  "drop_last_match P s =
     (case chain_find (fresh s) (el_prev s) (el_sat s P) (qtail s) of
        Some e \<Rightarrow> delete_element e (Remove_links e s)
      | None \<Rightarrow> s)"

definition take_first_match :: "('m \<Rightarrow> bool) \<Rightarrow> 'm dll \<Rightarrow> 'm option \<times> 'm dll" where
  "take_first_match P s =
     (case chain_find (fresh s) (el_next s) (el_sat s P) (qhead s) of
        Some e \<Rightarrow> (el_msg s e, delete_element e (Remove_links e s))
      | None \<Rightarrow> (None, s))"

section \<open>Well-formed links\<close>

text \<open>\<open>seg link p xs q\<close>: following \<open>link\<close> from \<open>p\<close> visits \<open>xs\<close> and arrives at \<open>q\<close>.\<close>

fun seg :: "(nat \<Rightarrow> nat option) \<Rightarrow> nat option \<Rightarrow> nat list \<Rightarrow> nat option \<Rightarrow> bool" where
  "seg link p [] q \<longleftrightarrow> p = q"
| "seg link p (x # xs) q \<longleftrightarrow> p = Some x \<and> seg link (link x) xs q"

lemma seg_append: "seg link p (xs @ ys) q \<longleftrightarrow> (\<exists>r. seg link p xs r \<and> seg link r ys q)"
  by (induction xs arbitrary: p) auto

lemma seg_upd_other [simp]: "x \<notin> set xs \<Longrightarrow> seg (link(x := v)) p xs q = seg link p xs q"
  by (induction xs arbitrary: p) auto

lemma seg_relink:
  "seg link p (ys @ [y]) q \<Longrightarrow> y \<notin> set ys \<Longrightarrow> seg (link(y := r)) p (ys @ [y]) r"
  by (auto simp: seg_append)

lemma seg_chain: "seg link p xs None \<Longrightarrow> length xs \<le> n \<Longrightarrow> chain n link p = xs"
proof (induction xs arbitrary: p n)
  case (Cons x xs)
  then obtain k where "n = Suc k" "length xs \<le> k" by (cases n) auto
  with Cons show ?case by auto
qed simp

lemma seg_chain_find:
  "seg link p xs None \<Longrightarrow> length xs \<le> n \<Longrightarrow> chain_find n link P p = find P xs"
proof (induction xs arbitrary: p n)
  case (Cons x xs)
  then obtain k where "n = Suc k" "length xs \<le> k" by (cases n) auto
  with Cons show ?case by auto
qed simp

definition rep :: "'m dll \<Rightarrow> nat list \<Rightarrow> bool" where
  "rep s xs \<longleftrightarrow>
     distinct xs \<and> seg (el_next s) (qhead s) xs None \<and> seg (el_prev s) (qtail s) (rev xs) None \<and>
     (\<forall>x \<in> set xs. x < fresh s \<and> el_msg s x \<noteq> None) \<and> qlen s = length xs"

definition ids :: "'m dll \<Rightarrow> nat list" where
  "ids s = chain (fresh s) (el_next s) (qhead s)"

definition dll_ok :: "'m dll \<Rightarrow> bool" where
  "dll_ok s \<longleftrightarrow> rep s (ids s)"

definition content :: "'m dll \<Rightarrow> 'm list" where
  "content s = map (\<lambda>e. the (el_msg s e)) (ids s)"

lemma rep_length: "rep s xs \<Longrightarrow> length xs \<le> fresh s"
proof -
  assume "rep s xs"
  then have "distinct xs" "set xs \<subseteq> {..<fresh s}" by (auto simp: rep_def)
  then have "card (set xs) \<le> card {..<fresh s}" by (intro card_mono) auto
  with \<open>distinct xs\<close> show ?thesis by (simp add: distinct_card)
qed

lemma rep_ids: "rep s xs \<Longrightarrow> ids s = xs"
  using rep_length [of s xs] by (auto simp: ids_def rep_def intro: seg_chain)

lemma dll_okI: "rep s xs \<Longrightarrow> dll_ok s"
  by (simp add: dll_ok_def rep_ids)

lemma dll_new_ok: "dll_ok dll_new" "content dll_new = []"
proof -
  have "rep dll_new []" by (simp add: rep_def dll_new_def)
  then show "dll_ok dll_new" "content dll_new = []"
    by (auto simp: content_def dest: rep_ids intro: dll_okI)
qed

lemma rep_PushBack: "rep s xs \<Longrightarrow> rep (PushBack_links m s) (xs @ [fresh s])"
proof (cases xs rule: rev_cases)
  case Nil
  then show "rep s xs \<Longrightarrow> ?thesis"
    by (simp add: rep_def PushBack_links_def new_element_def Let_def)
next
  case (snoc ys t)
  assume rep: "rep s xs"
  have "fresh s \<notin> set (ys @ [t])" "t \<noteq> fresh s" "t \<notin> set ys" "qtail s = Some t"
    using rep snoc by (auto simp: rep_def)
  moreover have "seg ((el_next s)(t := Some (fresh s))) (qhead s) (ys @ [t]) (Some (fresh s))"
    using rep snoc by (intro seg_relink) (auto simp: rep_def)
  ultimately show ?thesis
    using rep snoc
    by (auto simp: rep_def PushBack_links_def new_element_def Let_def seg_append fun_upd_twist
        split: option.split)
qed

lemma rep_PushFront: "rep s xs \<Longrightarrow> rep (PushFront_links m s) (fresh s # xs)"
proof (cases xs)
  case Nil
  then show "rep s xs \<Longrightarrow> ?thesis"
    by (simp add: rep_def PushFront_links_def new_element_def Let_def)
next
  case (Cons h ys)
  assume rep: "rep s xs"
  have "fresh s \<notin> set (h # ys)" "h \<noteq> fresh s" "h \<notin> set ys" "qhead s = Some h"
    using rep Cons by (auto simp: rep_def)
  moreover obtain t where "qtail s = Some t"
    using rep Cons by (cases "rev xs") (auto simp: rep_def)
  moreover have "seg ((el_prev s)(h := Some (fresh s))) (qtail s) (rev ys @ [h]) (Some (fresh s))"
    using rep Cons by (intro seg_relink) (auto simp: rep_def)
  ultimately show ?thesis
    using rep Cons
    by (auto simp: rep_def PushFront_links_def new_element_def Let_def seg_append fun_upd_twist)
qed

text \<open>Unlinking an element from the middle: the links around it meet.\<close>

lemma seg_last: "seg link p (ys @ [y]) q \<Longrightarrow> link y = q"
  by (simp add: seg_append)

lemma rep_neighbours:
  assumes "rep s (ys @ e # zs)"
  shows "el_prev s e = (if ys = [] then None else Some (last ys))"
    and "el_next s e = (if zs = [] then None else Some (hd zs))"
  using assms by (cases ys rule: rev_cases; cases zs; auto simp: rep_def seg_append)+

lemma seg_unlink:
  assumes "seg link p (ys @ e # zs) None" and "distinct (ys @ e # zs)"
  shows "seg (if ys = [] then link else link(last ys := link e)) (if ys = [] then link e else p) (ys @ zs) None"
proof (cases ys rule: rev_cases)
  case Nil
  with assms show ?thesis by simp
next
  case (snoc us u)
  with assms have "seg link p (us @ [u]) (Some e)" "u \<notin> set us" "u \<notin> set zs"
      "seg link (link e) zs None"
    by (auto simp: seg_append)
  then have "seg (link(u := link e)) p (us @ [u]) (link e)" "seg (link(u := link e)) (link e) zs None"
    by (simp_all add: seg_relink del: fun_upd_apply)
  then have "seg (link(u := link e)) p ((us @ [u]) @ zs) None"
    by (auto simp: seg_append simp del: fun_upd_apply)
  with snoc show ?thesis by (simp del: fun_upd_apply)
qed

lemma rep_Remove:
  assumes "rep s (ys @ e # zs)"
  shows "rep (delete_element e (Remove_links e s)) (ys @ zs)"
proof -
  let ?s = "delete_element e (Remove_links e s)"
  note nb = rep_neighbours [OF assms]
  have d: "distinct (ys @ e # zs)" and fwd: "seg (el_next s) (qhead s) (ys @ e # zs) None"
    and bwd: "seg (el_prev s) (qtail s) (rev zs @ e # rev ys) None"
    using assms by (auto simp: rep_def)
  have "e \<notin> set ys" "e \<notin> set zs" using d by auto
  have nxt: "el_next ?s = (if ys = [] then el_next s else (el_next s)(last ys := el_next s e))"
    and hd: "qhead ?s = (if ys = [] then el_next s e else qhead s)"
    using nb \<open>e \<notin> set ys\<close>
    by (auto simp: delete_element_def Remove_links_def Let_def split: option.split)
  have next_e: "el_next (Remove_links e s) e = el_next s e"
    using nb \<open>e \<notin> set ys\<close> by (auto simp: Remove_links_def Let_def split: option.split)
  have prv: "el_prev ?s = (if rev zs = [] then el_prev s else (el_prev s)(last (rev zs) := el_prev s e))"
    and tl: "qtail ?s = (if rev zs = [] then el_prev s e else qtail s)"
    using nb \<open>e \<notin> set ys\<close> \<open>e \<notin> set zs\<close>
    by (auto simp: delete_element_def Remove_links_def Let_def last_rev hd_rev fun_upd_apply
        split: option.split)
  have "seg (el_next ?s) (qhead ?s) (ys @ zs) None"
    unfolding nxt hd by (rule seg_unlink [OF fwd d])
  moreover have "seg (el_prev ?s) (qtail ?s) (rev zs @ rev ys) None"
    unfolding prv tl by (rule seg_unlink [OF bwd]) (use d in auto)
  moreover have "qlen ?s = qlen s - 1" "fresh ?s = fresh s" "el_msg ?s = (el_msg s)(e := None)"
    by (auto simp: delete_element_def Remove_links_def Let_def split: option.split)
  ultimately show ?thesis
    using assms d by (auto simp: rep_def)
qed

section \<open>Effect on the messages\<close>

lemma content_rep: "rep s xs \<Longrightarrow> content s = map (\<lambda>e. the (el_msg s e)) xs"
  by (simp add: content_def rep_ids)

lemma PushBack_links_ok:
  "dll_ok s \<Longrightarrow> dll_ok (PushBack_links m s) \<and> content (PushBack_links m s) = content s @ [m]"
proof -
  assume "dll_ok s"
  then have rep: "rep s (ids s)" by (simp add: dll_ok_def)
  have msg: "el_msg (PushBack_links m s) = (el_msg s)(fresh s \<mapsto> m)"
    by (simp add: PushBack_links_def new_element_def Let_def split: option.split)
  have "fresh s \<notin> set (ids s)" using rep by (auto simp: rep_def)
  then show ?thesis
    using rep_PushBack [OF rep, of m]
    by (auto simp: content_rep [OF rep] content_rep [OF rep_PushBack [OF rep]] msg intro: dll_okI)
qed

lemma PushFront_links_ok:
  "dll_ok s \<Longrightarrow> dll_ok (PushFront_links m s) \<and> content (PushFront_links m s) = m # content s"
proof -
  assume "dll_ok s"
  then have rep: "rep s (ids s)" by (simp add: dll_ok_def)
  have msg: "el_msg (PushFront_links m s) = (el_msg s)(fresh s \<mapsto> m)"
    by (simp add: PushFront_links_def new_element_def Let_def split: option.split)
  have "fresh s \<notin> set (ids s)" using rep by (auto simp: rep_def)
  then show ?thesis
    using rep_PushFront [OF rep, of m]
    by (auto simp: content_rep [OF rep] content_rep [OF rep_PushFront [OF rep]] msg intro: dll_okI)
qed

lemma content_Remove:
  assumes "rep s (ys @ e # zs)"
  shows "dll_ok (delete_element e (Remove_links e s))"
    and "content (delete_element e (Remove_links e s)) =
      map (\<lambda>e. the (el_msg s e)) ys @ map (\<lambda>e. the (el_msg s e)) zs"
proof -
  have msg: "el_msg (delete_element e (Remove_links e s)) = (el_msg s)(e := None)"
    by (simp add: delete_element_def Remove_links_def Let_def split: option.split)
  have "e \<notin> set ys" "e \<notin> set zs" using assms by (auto simp: rep_def)
  then show "content (delete_element e (Remove_links e s)) =
      map (\<lambda>e. the (el_msg s e)) ys @ map (\<lambda>e. the (el_msg s e)) zs"
    by (auto simp: content_rep [OF rep_Remove [OF assms]] msg)
  show "dll_ok (delete_element e (Remove_links e s))"
    using rep_Remove [OF assms] by (rule dll_okI)
qed

lemma el_sat_rep: "rep s xs \<Longrightarrow> x \<in> set xs \<Longrightarrow> el_sat s P x = P (the (el_msg s x))"
  by (auto simp: rep_def el_sat_def)

lemma find_splitE:
  assumes "find P xs = Some e"
  obtains ys zs where "xs = ys @ e # zs" "P e" "\<forall>x \<in> set ys. \<not> P x"
proof -
  from assms obtain i where i: "i < length xs" "P (xs ! i)" "e = xs ! i" "\<forall>j<i. \<not> P (xs ! j)"
    by (auto simp: find_Some_iff)
  show ?thesis
  proof (rule that)
    show "xs = take i xs @ e # drop (Suc i) xs" using i by (simp add: id_take_nth_drop [symmetric])
    show "P e" using i by simp
    show "\<forall>x \<in> set (take i xs). \<not> P x" using i by (auto simp: in_set_conv_nth)
  qed
qed

lemma drop_last_match_ok:
  assumes "dll_ok s"
  shows "dll_ok (drop_last_match P s) \<and> content (drop_last_match P s) =
     (case find_last P (content s) of Some i \<Rightarrow> remove_nth i (content s) | None \<Rightarrow> content s)"
proof -
  let ?m = "\<lambda>e. the (el_msg s e)"
  from assms have rep: "rep s (ids s)" by (simp add: dll_ok_def)
  have cf: "chain_find (fresh s) (el_prev s) (el_sat s P) (qtail s) = find (el_sat s P) (rev (ids s))"
    using rep rep_length [OF rep] by (intro seg_chain_find) (auto simp: rep_def)
  show ?thesis
  proof (cases "find (el_sat s P) (rev (ids s))")
    case None
    then have "find_last P (content s) = None"
      by (auto simp: find_None_iff find_last_None content_def el_sat_rep [OF rep])
    with None cf assms show ?thesis by (simp add: drop_last_match_def)
  next
    case (Some e)
    from find_splitE [OF this] obtain as bs
      where *: "rev (ids s) = as @ e # bs" "el_sat s P e" "\<forall>x \<in> set as. \<not> el_sat s P x" .
    then have xs: "ids s = rev bs @ e # rev as" by (simp add: rev_eq_append_conv)
    then have sat: "P (?m e)" "\<forall>x \<in> set as. \<not> P (?m x)"
      using * el_sat_rep [OF rep] by auto
    then have "find_last P (content s) = Some (length (map ?m (rev bs)))"
      unfolding content_def xs map_append list.map by (intro find_last_at) auto
    with sat show ?thesis
      using content_Remove [of s "rev bs" e "rev as"] rep Some cf
      by (simp add: drop_last_match_def content_def [of s] xs remove_nth_def)
  qed
qed

lemma take_first_match_ok:
  assumes "dll_ok s"
  shows "dll_ok (snd (take_first_match P s)) \<and>
     fst (take_first_match P s) = map_option (\<lambda>i. content s ! i) (find_index P (content s)) \<and>
     content (snd (take_first_match P s)) =
     (case find_index P (content s) of Some i \<Rightarrow> remove_nth i (content s) | None \<Rightarrow> content s)"
proof -
  let ?m = "\<lambda>e. the (el_msg s e)"
  from assms have rep: "rep s (ids s)" by (simp add: dll_ok_def)
  have cf: "chain_find (fresh s) (el_next s) (el_sat s P) (qhead s) = find (el_sat s P) (ids s)"
    using rep rep_length [OF rep] by (intro seg_chain_find) (auto simp: rep_def)
  show ?thesis
  proof (cases "find (el_sat s P) (ids s)")
    case None
    then have "find_index P (content s) = None"
      by (auto simp: find_None_iff find_index_None content_def el_sat_rep [OF rep])
    with None cf assms show ?thesis by (simp add: take_first_match_def)
  next
    case (Some e)
    from find_splitE [OF this] obtain ys zs
      where *: "ids s = ys @ e # zs" "el_sat s P e" "\<forall>x \<in> set ys. \<not> el_sat s P x" .
    then have sat: "P (?m e)" "\<forall>x \<in> set ys. \<not> P (?m x)" "el_msg s e = Some (?m e)"
      using el_sat_rep [OF rep] rep by (auto simp: rep_def)
    then have "find_index P (content s) = Some (length (map ?m ys))"
      unfolding content_def * map_append list.map by (intro find_index_at) auto
    with sat show ?thesis
      using content_Remove [of s ys e zs] rep Some cf
      by (auto simp: take_first_match_def content_def [of s] * remove_nth_def nth_append)
  qed
qed

section \<open>The contract of the element store\<close>

text \<open>
  What the queue relies on: five operations on a representation of a list of messages.
\<close>

locale element_store =
  fixes ok :: "'s \<Rightarrow> bool"
    and msgs :: "'s \<Rightarrow> 'm list"
    and push_back :: "'m \<Rightarrow> 's \<Rightarrow> 's"
    and push_front :: "'m \<Rightarrow> 's \<Rightarrow> 's"
    and drop_last :: "('m \<Rightarrow> bool) \<Rightarrow> 's \<Rightarrow> 's"
    and take_first :: "('m \<Rightarrow> bool) \<Rightarrow> 's \<Rightarrow> 'm option \<times> 's"
  assumes law_back: "ok s \<Longrightarrow> ok (push_back m s) \<and> msgs (push_back m s) = msgs s @ [m]"
    and law_front: "ok s \<Longrightarrow> ok (push_front m s) \<and> msgs (push_front m s) = m # msgs s"
    and law_drop: "ok s \<Longrightarrow> ok (drop_last P s) \<and> msgs (drop_last P s) =
      (case find_last P (msgs s) of Some i \<Rightarrow> remove_nth i (msgs s) | None \<Rightarrow> msgs s)"
    and law_take: "ok s \<Longrightarrow> ok (snd (take_first P s)) \<and>
      fst (take_first P s) = map_option (\<lambda>i. msgs s ! i) (find_index P (msgs s)) \<and>
      msgs (snd (take_first P s)) =
      (case find_index P (msgs s) of Some i \<Rightarrow> remove_nth i (msgs s) | None \<Rightarrow> msgs s)"
begin

lemma replace_newest:
  "ok s \<Longrightarrow> ok (push_back m (drop_last P s)) \<and> msgs (push_back m (drop_last P s)) =
     (case find_last P (msgs s) of Some i \<Rightarrow> remove_nth i (msgs s) | None \<Rightarrow> msgs s) @ [m]"
  using law_back [of "drop_last P s" m] law_drop [of s P] by simp

lemma take_first_None: "ok s \<Longrightarrow> fst (take_first P s) = None \<longleftrightarrow> find_index P (msgs s) = None"
  using law_take [of s P] by simp

lemma back_then_take: "ok s \<Longrightarrow> msgs s = [] \<Longrightarrow> P m \<Longrightarrow>
    fst (take_first P (push_back m s)) = Some m \<and> msgs (snd (take_first P (push_back m s))) = []"
  using law_back [of s m] law_take [of "push_back m s" P] by (simp add: remove_nth_def)

end

interpretation links: element_store dll_ok content PushBack_links PushFront_links drop_last_match take_first_match
  by unfold_locales
    (rule PushBack_links_ok PushFront_links_ok drop_last_match_ok take_first_match_ok, assumption)+

section \<open>Push and Pop on the links refine the queue\<close>

text \<open>
  \<open>Push\<close> and \<open>Pop\<close> on the element store; the settings (rules, filter, mode flags) are those of the
  queue \<open>q\<close>, whose own element list is not looked at.
\<close>

definition Push_links :: "'d mqueue \<Rightarrow> 'd message \<Rightarrow> 'd message dll \<Rightarrow> 'd message dll" where
  "Push_links q msg s =
     (let hdr = Header msg; replaceOp = CheckReplace q hdr in
      if replaceOp = RULE_IGNORE then s
      else if replaceOp = RULE_ACCEPT \<and> is_datacmd hdr \<and> Maxlen q \<le> qlen s then s
      else PushBack_links msg
             (if replaceOp = RULE_REPLACE then drop_last_match (\<lambda>e. Compare e msg) s else s))"

definition resp_pending_links :: "'d mqueue \<Rightarrow> 'd message dll \<Rightarrow> bool" where
  "resp_pending_links q s \<longleftrightarrow>
     \<not> filter_on q \<and> \<not> data_requested q \<and>
     chain_find (fresh s) (el_prev s) (el_sat s (\<lambda>m. is_resp (Header m))) (qtail s) \<noteq> None"

definition Pop_links :: "'d mqueue \<Rightarrow> 'd message dll \<Rightarrow> 'd message option \<times> 'd message dll" where
  "Pop_links q s =
     take_first_match (\<lambda>m. resp_pending_links q s \<or>
        ((\<not> filter_on q \<or> Filter q m) \<and> (\<not> pull q \<or> data_requested q))) s"

lemma dll_ok_qlen: "dll_ok s \<Longrightarrow> qlen s = length (content s)"
  by (simp add: dll_ok_def rep_def content_def)

text \<open>C27: The linked-list code of \<open>Push\<close> implements the queue: on well-formed links that hold the
  queue's messages, it keeps the links well formed (forward and backward chains agree, end in NULL,
  and \<open>Length\<close> counts them) and leaves exactly the messages of \<open>Push\<close>, in order.\<close>

theorem Push_links_refines:
  assumes "dll_ok s" and "content s = elems q" and "queue_ok q"
  shows "dll_ok (Push_links q m s) \<and> content (Push_links q m s) = elems (push_q m q)"
proof -
  have "qlen s = Length q"
    using assms by (simp add: dll_ok_qlen queue_ok_def)
  then show ?thesis
    using assms links.replace_newest [OF assms(1), of m "\<lambda>e. Compare e m"] links.law_back [OF assms(1), of m]
    by (auto simp: Push_links_def Push_def Let_def queue_simps remove_match_def Remove_def
        split: option.splits)
qed

lemma Push_links_refines_witness:
  "content (Push_links (PushBack (msg0 2 1) (MessageQueue_new fv0 True 5)) (msg0 2 1)
     (PushBack_links (msg0 2 1) dll_new)) = [msg0 2 1]"
  using Push_links_refines [of "PushBack_links (msg0 2 1) dll_new"
      "PushBack (msg0 2 1) (MessageQueue_new fv0 True 5)" "msg0 2 1"]
    PushBack_links_ok [OF dll_new_ok(1), of "msg0 2 1"]
  by (simp add: dll_new_ok PushBack_def MessageQueue_new_def queue_ok_def Push_def Let_def
      CheckReplace_def remove_match_def find_last_def Compare_def MatchMessage_def Remove_def
      remove_nth_def msg0_def hdr0_def neg_code)

lemma resp_pending_links_iff:
  assumes "dll_ok s" and "content s = elems q"
  shows "resp_pending_links q s \<longleftrightarrow> last_resp q \<noteq> None"
proof -
  from assms(1) have rep: "rep s (ids s)" by (simp add: dll_ok_def)
  have "chain_find (fresh s) (el_prev s) (el_sat s (\<lambda>m. is_resp (Header m))) (qtail s) =
      find (el_sat s (\<lambda>m. is_resp (Header m))) (rev (ids s))"
    using rep rep_length [OF rep] by (intro seg_chain_find) (auto simp: rep_def)
  then have "chain_find (fresh s) (el_prev s) (el_sat s (\<lambda>m. is_resp (Header m))) (qtail s) = None \<longleftrightarrow>
      find_last (\<lambda>m. is_resp (Header m)) (content s) = None"
    by (auto simp: find_None_iff find_last_None content_def el_sat_rep [OF rep])
  then show ?thesis
    using assms(2) by (auto simp: resp_pending_links_def last_resp_def)
qed

text \<open>The linked-list code of \<open>Pop\<close> implements the queue: it takes out the same message as
  \<open>Pop\<close> (a synch is made, not taken out, when it finds none) and leaves the same remaining messages
  on well-formed links.\<close>

theorem Pop_links_refines:
  assumes "dll_ok s" and "content s = elems q"
  shows "dll_ok (snd (Pop_links q s)) \<and> content (snd (Pop_links q s)) = elems (snd (Pop e q)) \<and>
     (case fst (Pop_links q s) of
        Some m \<Rightarrow> fst (Pop e q) = Some m
      | None \<Rightarrow> fst (Pop e q) \<in> {None, Some (synch_msg e (drop_count q))})"
proof -
  let ?P = "\<lambda>m. resp_pending_links q s \<or> ((\<not> filter_on q \<or> Filter q m) \<and> (\<not> pull q \<or> data_requested q))"
  have P: "?P = poppable q (last_resp q)"
    by (simp add: fun_eq_iff poppable_def resp_pending_links_iff [OF assms])
  have pl: "Pop_links q s = take_first_match (poppable q (last_resp q)) s"
    unfolding Pop_links_def P ..
  note take = links.law_take [OF assms(1), of "poppable q (last_resp q)"]
  show ?thesis
  proof (cases "find_index (poppable q (last_resp q)) (elems q)")
    case None
    then have "fst (Pop e q) \<in> {None, Some (synch_msg e (drop_count q))}"
      by (simp add: Pop_def synch_msg_def)
    with None show ?thesis
      using take assms(2) by (simp add: pl Pop_elems)
  next
    case (Some i)
    then have "fst (Pop e q) = Some (elems q ! i)" by (simp add: Pop_def Let_def)
    with Some show ?thesis
      using take assms(2) by (simp add: pl Pop_elems)
  qed
qed

lemma Pop_links_refines_witness:
  "content (snd (Pop_links (PushBack (msg0 2 1) (MessageQueue_new fv0 True 5))
     (PushBack_links (msg0 2 1) dll_new))) = []"
  using Pop_links_refines [of "PushBack_links (msg0 2 1) dll_new"
      "PushBack (msg0 2 1) (MessageQueue_new fv0 True 5)" env0]
    PushBack_links_ok [OF dll_new_ok(1), of "msg0 2 1"]
  by (simp add: dll_new_ok PushBack_def MessageQueue_new_def Pop_def poppable_def last_resp_def
      Let_def find_last_def msg0_def hdr0_def Remove_def remove_nth_def)

end
