(* ===== verification/QueueWait.thy ===== *)
theory QueueWait
  imports QueueProps
begin

text \<open>
  \<open>MessageQueue::Wait\<close> without a timeout against a thread that calls \<open>Push\<close>: an interleaving model
  of one waiter and one producer on one queue.  \<open>Wait\<close> looks at the queue under the queue's lock and
  only then takes the mutex of the condition variable, so a push can fall between the two.
\<close>

section \<open>The two threads\<close>

text \<open>
  Where the waiter is: before the scan of the queue, between \<open>Unlock\<close> and \<open>pthread_cond_wait\<close>,
  blocked, or back from \<open>Wait\<close>.
\<close>

datatype wait_pc = Scan | Gap | Blocked | Returned

text \<open>
  The producer has messages still to push, or has pushed one and is about to call \<open>DataAvailable\<close>
  (if the flag says that it will).
\<close>

datatype 'd push_pc = ToPush "'d message list" | ToSignal bool "'d message list"

text \<open>\<open>pushed_in_gap\<close> is a history variable: a push ran while the waiter was in the gap.\<close>

record 'd wait_sys =
  wqueue :: "'d mqueue"
  waiter :: wait_pc
  producer :: "'d push_pc"
  pushed_in_gap :: bool

definition Wait_scan :: "'d mqueue \<Rightarrow> bool" where
  "Wait_scan q \<longleftrightarrow> list_ex (\<lambda>m. \<not> filter_on q \<or> Filter q m) (elems q)"

definition DataAvailable :: "'d wait_sys \<Rightarrow> 'd wait_sys" where
  "DataAvailable s = s\<lparr>waiter := (if waiter s = Blocked then Returned else waiter s)\<rparr>"

inductive wait_step :: "'d wait_sys \<Rightarrow> 'd wait_sys \<Rightarrow> bool" where
  scan_found: "waiter s = Scan \<Longrightarrow> Wait_scan (wqueue s) \<Longrightarrow> wait_step s (s\<lparr>waiter := Returned\<rparr>)"
| scan_none: "waiter s = Scan \<Longrightarrow> \<not> Wait_scan (wqueue s) \<Longrightarrow> wait_step s (s\<lparr>waiter := Gap\<rparr>)"
| cond_wait: "waiter s = Gap \<Longrightarrow> wait_step s (s\<lparr>waiter := Blocked\<rparr>)"
| push: "producer s = ToPush (m # ms) \<Longrightarrow>
    wait_step s (s\<lparr>wqueue := push_q m (wqueue s), producer := ToSignal (fst (snd (Push m (wqueue s)))) ms,
      pushed_in_gap := pushed_in_gap s \<or> waiter s = Gap\<rparr>)"
| signal: "producer s = ToSignal b ms \<Longrightarrow>
    wait_step s ((if b then DataAvailable s else s)\<lparr>producer := ToPush ms\<rparr>)"

inductive_cases wait_stepE: "wait_step s t"

inductive wait_run :: "'d wait_sys \<Rightarrow> 'd wait_sys \<Rightarrow> bool" where
  start: "wait_run s s"
| more: "wait_run s t \<Longrightarrow> wait_step t u \<Longrightarrow> wait_run s u"

definition wait_start :: "'d mqueue \<Rightarrow> 'd message list \<Rightarrow> 'd wait_sys" where
  "wait_start q ms = \<lparr>wqueue = q, waiter = Scan, producer = ToPush ms, pushed_in_gap = False\<rparr>"

section \<open>A wake-up is lost only in the gap\<close>

lemma Filter_push: "Filter (push_q m q) = Filter q"
  by (simp add: fun_eq_iff Filter_def queue_simps)

lemma push_elems_subset: "set (elems (push_q m q)) \<subseteq> insert m (set (elems q))"
  using remove_match_elems [of m q] by (auto simp: Push_def Let_def queue_simps)

lemma Push_signals:
  assumes "Wait_scan (push_q m q)" and "\<not> Wait_scan q"
  shows "fst (snd (Push m q))"
proof -
  from assms obtain x where x: "x \<in> set (elems (push_q m q))" "\<not> filter_on q \<or> Filter q x"
    by (auto simp: Wait_scan_def list_ex_iff Filter_push queue_simps)
  with assms(2) push_elems_subset [of m q] have "x = m"
    by (auto simp: Wait_scan_def list_ex_iff)
  have "elems (push_q m q) \<noteq> elems q"
    using assms by (auto simp: Wait_scan_def Filter_push queue_simps)
  with x \<open>x = m\<close> show ?thesis
    using Filter_push [of m q]
    by (auto simp: Push_def Let_def queue_simps split: if_splits)
qed

definition wait_inv :: "'d wait_sys \<Rightarrow> bool" where
  "wait_inv s \<longleftrightarrow> pushed_in_gap s \<or>
     ((waiter s = Gap \<longrightarrow> \<not> Wait_scan (wqueue s)) \<and>
      (waiter s = Blocked \<longrightarrow> Wait_scan (wqueue s) \<longrightarrow> (\<exists>ms. producer s = ToSignal True ms)))"

lemma wait_inv_step: "wait_step s t \<Longrightarrow> wait_inv s \<Longrightarrow> wait_inv t"
  by (erule wait_step.cases)
    (auto simp: wait_inv_def DataAvailable_def intro: Push_signals)

lemma wait_inv_run: "wait_run s t \<Longrightarrow> wait_inv s \<Longrightarrow> wait_inv t"
  by (induction rule: wait_run.induct) (auto intro: wait_inv_step)

text \<open>C29: No wake-up is lost outside the gap: along every interleaving in which no push falls
  between the scan of \<open>Wait\<close> and its \<open>pthread_cond_wait\<close>, a waiter that is blocked while the queue
  holds a message it waits for is about to be signalled.\<close>

theorem Wait_no_lost_wakeup:
  assumes "wait_run (wait_start q ms) s" and "\<not> pushed_in_gap s"
    and "waiter s = Blocked" and "Wait_scan (wqueue s)"
  shows "\<exists>rest. producer s = ToSignal True rest"
proof -
  have "wait_inv (wait_start q ms)" by (simp add: wait_inv_def wait_start_def)
  with assms(1) have "wait_inv s" by (rule wait_inv_run)
  with assms show ?thesis by (auto simp: wait_inv_def)
qed

text \<open>The run scan, block, push: the waiter is blocked, the message is there, the signal is due.\<close>

lemma wait_blocked_run:
  defines "q \<equiv> MessageQueue_new fv0 False 5"
  shows "wait_run (wait_start q [msg0 3 1]) \<lparr>wqueue = push_q (msg0 3 1) q, waiter = Blocked,
    producer = ToSignal True [], pushed_in_gap = False\<rparr>"
proof -
  have q: "\<not> Wait_scan q" "fst (snd (Push (msg0 3 1) q))"
    by (simp_all add: q_def Wait_scan_def MessageQueue_new_def Push_def Let_def CheckReplace_def
        msg0_def hdr0_def PushBack_def)
  let ?s = "\<lambda>w. \<lparr>wqueue = q, waiter = w, producer = ToPush [msg0 3 1], pushed_in_gap = False\<rparr>"
  have "wait_run (wait_start q [msg0 3 1]) (?s Gap)"
    using wait_run.more [OF wait_run.start [of "?s Scan"] wait_step.scan_none] q
    by (simp add: wait_start_def)
  then have "wait_run (wait_start q [msg0 3 1]) (?s Blocked)"
    using wait_run.more [OF _ wait_step.cond_wait [of "?s Gap"]] by simp
  then show ?thesis
    using wait_run.more [OF _ wait_step.push [of "?s Blocked" "msg0 3 1" "[]"]] q by simp
qed

lemma Wait_no_lost_wakeup_witness:
  "\<exists>rest. producer \<lparr>wqueue = push_q (msg0 3 1) (MessageQueue_new fv0 False 5), waiter = Blocked,
    producer = ToSignal True [], pushed_in_gap = False\<rparr> = ToSignal True rest"
  by (rule Wait_no_lost_wakeup [OF wait_blocked_run])
    (simp_all add: Wait_scan_def MessageQueue_new_def Push_def Let_def CheckReplace_def
      msg0_def hdr0_def PushBack_def)

text \<open>C30: In the gap it is lost.  Whenever a queue holds nothing that \<open>Wait\<close> looks for and a push would change that, there is
  an interleaving of one \<open>Wait\<close> and this push after which the waiter is blocked while the queue holds what it waits for and the
  producer is done with the push, its signal included.  If that was the last push, no step is left that would wake the waiter.\<close>

theorem Wait_lost_wakeup:
  assumes "\<not> Wait_scan q" and "Wait_scan (push_q m q)"
  shows "\<exists>s. wait_run (wait_start q (m # ms)) s \<and> waiter s = Blocked \<and> Wait_scan (wqueue s) \<and>
    wqueue s = push_q m q \<and> producer s = ToPush ms \<and> (ms = [] \<longrightarrow> (\<forall>t. \<not> wait_step s t))"
proof -
  have sg: "fst (snd (Push m q))" by (rule Push_signals [OF assms(2,1)])
  let ?s = "\<lambda>w. \<lparr>wqueue = q, waiter = w, producer = ToPush (m # ms), pushed_in_gap = False\<rparr>"
  let ?t = "\<lambda>w p. \<lparr>wqueue = push_q m q, waiter = w, producer = p, pushed_in_gap = True\<rparr>"
  have "wait_run (wait_start q (m # ms)) (?s Gap)"
    using wait_run.more [OF wait_run.start [of "?s Scan"] wait_step.scan_none] assms(1) by (simp add: wait_start_def)
  then have "wait_run (wait_start q (m # ms)) (?t Gap (ToSignal True ms))"
    using wait_run.more [OF _ wait_step.push [of "?s Gap" m ms]] sg by simp
  then have "wait_run (wait_start q (m # ms)) (?t Gap (ToPush ms))"
    using wait_run.more [OF _ wait_step.signal [of "?t Gap (ToSignal True ms)" True ms]] by (simp add: DataAvailable_def)
  then have "wait_run (wait_start q (m # ms)) (?t Blocked (ToPush ms))"
    using wait_run.more [OF _ wait_step.cond_wait [of "?t Gap (ToPush ms)"]] by simp
  moreover have "\<not> wait_step (?t Blocked (ToPush [])) t" for t by (auto elim: wait_stepE)
  ultimately show ?thesis using assms(2) by (intro exI [of _ "?t Blocked (ToPush ms)"]) auto
qed

theorem Wait_lost_wakeup_witness:
  "\<exists>s. wait_run (wait_start (MessageQueue_new fv0 False 5) [msg0 3 1]) s \<and>
     waiter s = Blocked \<and> elems (wqueue s) = [msg0 3 1] \<and> (\<forall>t. \<not> wait_step s t)"
proof -
  let ?q = "MessageQueue_new fv0 False 5 :: unit mqueue"
  have "\<not> Wait_scan ?q" "Wait_scan (push_q (msg0 3 1) ?q)" "elems (push_q (msg0 3 1) ?q) = [msg0 3 1]"
    by (simp_all add: Wait_scan_def MessageQueue_new_def Push_def Let_def CheckReplace_def msg0_def hdr0_def PushBack_def)
  with Wait_lost_wakeup [of ?q "msg0 3 1" "[]"] show ?thesis by fastforce
qed

end
