(* ===== verification/RefCount.thy ===== *)
theory RefCount
  imports Prelude
begin

text \<open>
  The reference counts of \<open>libplayercore/message.cc\<close>: \<open>QueuePointer\<close> (the autopointer to a message
  queue) and \<open>Message\<close>.  Both are handles that share one heap cell holding the count; what the cell
  guards (the queue, or the payload) is deleted with it.  Pointers that are used after the cell is
  gone are the fault \<open>UseAfterFree\<close>.
\<close>

section \<open>Handles and cells\<close>

text \<open>
  \<open>handles x = None\<close>: no object at \<open>x\<close>; \<open>Some None\<close>: an object whose pointer is null; \<open>Some (Some c)\<close>:
  an object that refers to cell \<open>c\<close>.  \<open>released\<close> logs the cells deleted, latest first.
\<close>

record rc =
  handles :: "nat \<Rightarrow> nat option option"
  count :: "nat \<Rightarrow> nat option"
  next_cell :: nat
  released :: "nat list"

definition rc_new :: rc where
  "rc_new = \<lparr>handles = (\<lambda>_. None), count = (\<lambda>_. None), next_cell = 0, released = []\<rparr>"

definition users :: "rc \<Rightarrow> nat \<Rightarrow> nat set" where
  "users h c = {x. handles h x = Some (Some c)}"

definition dec_count :: "nat \<Rightarrow> nat" where
  \<comment> \<open>\<open>(*RefCount)--\<close> on an \<open>unsigned int\<close>\<close>
  "dec_count n = (if n = 0 then 2 ^ 32 - 1 else n - 1)"

text \<open>Taking one more reference: the common part of the copy constructors and of assignment.  Counts going up have no bound here;
  the \<open>unsigned int\<close> of the code would need \<open>2 ^ 32\<close> live references to wrap.\<close>

definition acquire :: "nat \<Rightarrow> nat \<Rightarrow> rc \<Rightarrow> rc outcome" where
  "acquire x c h =
     (case count h c of
        None \<Rightarrow> Inl UseAfterFree
      | Some n \<Rightarrow>
          bindo (c_assert (n \<noteq> 0))
            (\<lambda>_. Inr (h\<lparr>handles := (handles h)(x \<mapsto> Some c), count := (count h)(c \<mapsto> n + 1)\<rparr>)))"

section \<open>QueuePointer\<close>

definition QueuePointer_null :: "nat \<Rightarrow> rc \<Rightarrow> rc outcome" where
  "QueuePointer_null x h = Inr (h\<lparr>handles := (handles h)(x \<mapsto> None)\<rparr>)"

definition QueuePointer_new :: "nat \<Rightarrow> rc \<Rightarrow> rc outcome" where
  "QueuePointer_new x h =
     Inr (h\<lparr>handles := (handles h)(x \<mapsto> Some (next_cell h)), count := (count h)(next_cell h \<mapsto> 1),
            next_cell := next_cell h + 1\<rparr>)"

definition QueuePointer_copy :: "nat \<Rightarrow> nat \<Rightarrow> rc \<Rightarrow> rc outcome" where
  "QueuePointer_copy x y h =
     (case handles h y of
        None \<Rightarrow> Inl UseAfterFree
      | Some None \<Rightarrow> QueuePointer_null x h
      | Some (Some c) \<Rightarrow> acquire x c h)"

definition QueuePointer_DecRef :: "nat \<Rightarrow> rc \<Rightarrow> rc outcome" where
  "QueuePointer_DecRef x h =
     (case handles h x of
        None \<Rightarrow> Inl UseAfterFree
      | Some None \<Rightarrow> Inr h
      | Some (Some c) \<Rightarrow>
          (case count h c of
             None \<Rightarrow> Inl UseAfterFree
           | Some n \<Rightarrow>
               let n' = dec_count n; h1 = h\<lparr>handles := (handles h)(x \<mapsto> None)\<rparr> in
               Inr (if n' = 0 then h1\<lparr>count := (count h1)(c := None), released := c # released h1\<rparr>
                    else h1\<lparr>count := (count h1)(c \<mapsto> n')\<rparr>)))"

definition QueuePointer_assign :: "nat \<Rightarrow> nat \<Rightarrow> rc \<Rightarrow> rc outcome" where
  "QueuePointer_assign x y h =
     bindo (QueuePointer_DecRef x h)
       (\<lambda>h1. case handles h1 y of
               None \<Rightarrow> Inl UseAfterFree
             | Some None \<Rightarrow> Inr h1
             | Some (Some c) \<Rightarrow> acquire x c h1)"

definition QueuePointer_destroy :: "nat \<Rightarrow> rc \<Rightarrow> rc outcome" where
  "QueuePointer_destroy x h =
     bindo (QueuePointer_DecRef x h) (\<lambda>h1. Inr (h1\<lparr>handles := (handles h1)(x := None)\<rparr>))"

section \<open>Message\<close>

definition Message_new :: "nat \<Rightarrow> rc \<Rightarrow> rc outcome" where
  "Message_new x h = QueuePointer_new x h"

definition Message_copy :: "nat \<Rightarrow> nat \<Rightarrow> rc \<Rightarrow> rc outcome" where
  "Message_copy x y h =
     (case handles h y of
        Some (Some c) \<Rightarrow> acquire x c h
      | Some None \<Rightarrow> Inl AssertFailed
      | None \<Rightarrow> Inl UseAfterFree)"

text \<open>
  Unlike \<open>QueuePointer::DecRef\<close>, \<open>Message::DecRef\<close> clears the object's pointers only when the count
  reaches zero, and locks through a null pointer when it has.
\<close>

definition Message_DecRef :: "nat \<Rightarrow> rc \<Rightarrow> rc outcome" where
  "Message_DecRef x h =
     (case handles h x of
        None \<Rightarrow> Inl UseAfterFree
      | Some None \<Rightarrow> Inl NullDeref
      | Some (Some c) \<Rightarrow>
          (case count h c of
             None \<Rightarrow> Inl UseAfterFree
           | Some n \<Rightarrow>
               let n' = dec_count n in
               Inr (if n' = 0
                    then h\<lparr>handles := (handles h)(x \<mapsto> None), count := (count h)(c := None),
                           released := c # released h\<rparr>
                    else h\<lparr>count := (count h)(c \<mapsto> n')\<rparr>)))"

definition Message_destroy :: "nat \<Rightarrow> rc \<Rightarrow> rc outcome" where
  "Message_destroy x h =
     bindo (Message_DecRef x h) (\<lambda>h1. Inr (h1\<lparr>handles := (handles h1)(x := None)\<rparr>))"

section \<open>The counting invariant\<close>

text \<open>
  Every cell in use counts its users exactly; a cell without users is gone; each cell ever made is
  released once, when its last user goes.
\<close>

definition rc_ok :: "rc \<Rightarrow> bool" where
  "rc_ok h \<longleftrightarrow>
     finite (dom (handles h)) \<and>
     (\<forall>c. count h c = (if users h c = {} then None else Some (card (users h c)))) \<and>
     (\<forall>c \<ge> next_cell h. users h c = {}) \<and>
     distinct (released h) \<and>
     (\<forall>c. c \<in> set (released h) \<longleftrightarrow> c < next_cell h \<and> users h c = {})"

lemma rc_ok_new: "rc_ok rc_new"
  by (simp add: rc_ok_def rc_new_def users_def dom_def)

lemma finite_users: "rc_ok h \<Longrightarrow> finite (users h c)"
proof -
  assume "rc_ok h"
  then have "finite (dom (handles h))" by (simp add: rc_ok_def)
  moreover have "users h c \<subseteq> dom (handles h)" by (auto simp: users_def)
  ultimately show ?thesis by (rule rev_finite_subset)
qed

lemma users_upd:
  "users (h\<lparr>handles := (handles h)(x := v)\<rparr>) c =
     (if v = Some (Some c) then insert x (users h c) else users h c - {x})"
  by (auto simp: users_def)

lemma users_other [simp]:
  "users (h\<lparr>count := k\<rparr>) = users h" "users (h\<lparr>released := r\<rparr>) = users h"
  "users (h\<lparr>next_cell := n\<rparr>) = users h"
  by (simp_all add: users_def fun_eq_iff)

lemma rc_okE:
  assumes "rc_ok h"
  shows "finite (dom (handles h))"
    and "users h c \<noteq> {} \<Longrightarrow> count h c = Some (card (users h c))"
    and "users h c = {} \<Longrightarrow> count h c = None"
    and "next_cell h \<le> c \<Longrightarrow> users h c = {}"
    and "distinct (released h)"
    and "c \<in> set (released h) \<longleftrightarrow> c < next_cell h \<and> users h c = {}"
  using assms by (simp_all add: rc_ok_def)

text \<open>Pointing a handle that points nowhere to a cell in use.\<close>

lemma acquire_ok:
  assumes "rc_ok h" and "y \<in> users h c" and "\<forall>c. x \<notin> users h c"
  shows "\<exists>h'. acquire x c h = Inr h' \<and> rc_ok h' \<and> next_cell h' = next_cell h \<and>
    handles h' = (handles h)(x \<mapsto> Some c)"
proof -
  let ?h = "h\<lparr>handles := (handles h)(x \<mapsto> Some c), count := (count h)(c \<mapsto> card (users h c) + 1)\<rparr>"
  note ok = rc_okE [OF assms(1)]
  have fin: "finite (users h c)" by (rule finite_users [OF assms(1)])
  have card: "card (users h c) \<noteq> 0" using assms(2) fin by auto
  have "count h c = Some (card (users h c))"
    using ok(2) [of c] assms(2) by blast
  then have "acquire x c h = Inr ?h"
    using card by (simp add: acquire_def c_assert_def)
  moreover have u: "users ?h d = (if d = c then insert x (users h c) else users h d)" for d
    using assms(3) users_upd [of h x "Some (Some c)" d] by (auto simp: users_def)
  have "rc_ok ?h"
    unfolding rc_ok_def u
    using assms(1,2,3) fin by (auto simp: rc_ok_def)
  ultimately show ?thesis by auto
qed

text \<open>Dropping the reference of a handle.\<close>

lemma DecRef_ok:
  assumes "rc_ok h" and "handles h x \<noteq> None"
  shows "\<exists>h'. QueuePointer_DecRef x h = Inr h' \<and> rc_ok h' \<and> next_cell h' = next_cell h \<and>
    handles h' = (handles h)(x \<mapsto> None)"
proof (cases "handles h x")
  case (Some v)
  show ?thesis
  proof (cases v)
    case None
    with Some have "(handles h)(x \<mapsto> None) = handles h" by auto
    with Some None assms show ?thesis by (simp add: QueuePointer_DecRef_def)
  next
    case (Some c)
    with \<open>handles h x = Some v\<close> have x: "x \<in> users h c" by (simp add: users_def)
    note ok = rc_okE [OF assms(1)]
    have fin: "finite (users h c)" by (rule finite_users [OF assms(1)])
    define n where "n = card (users h c)"
    have n: "count h c = Some n" "n \<noteq> 0"
      using ok(2) [of c] x fin by (auto simp: n_def)
    have c: "c < next_cell h" using ok(4) [of c] x by (cases "c < next_cell h") auto
    have cn: "c \<notin> set (released h)" using ok(6) [of c] x by auto
    have only: "n = 1 \<longleftrightarrow> users h c - {x} = {}"
      using x fin by (auto simp: n_def card_1_singleton_iff)
    let ?h1 = "h\<lparr>handles := (handles h)(x \<mapsto> None)\<rparr>"
    let ?h = "if n = 1 then ?h1\<lparr>count := (count h)(c := None), released := c # released h\<rparr>
        else ?h1\<lparr>count := (count h)(c \<mapsto> n - 1)\<rparr>"
    have dr: "QueuePointer_DecRef x h = Inr ?h"
      using \<open>handles h x = Some v\<close> Some n by (auto simp: QueuePointer_DecRef_def dec_count_def Let_def)
    have u: "users ?h d = (if d = c then users h c - {x} else users h d)" for d
      using x by (auto simp: users_def)
    have cd: "card (users h c - {x}) = n - 1"
      using x fin by (simp add: n_def)
    have "rc_ok ?h"
      unfolding rc_ok_def u using assms(1) only cd c cn n by (auto simp: rc_ok_def)
    with dr show ?thesis by auto
  qed
qed (use assms in simp)

lemma rc_ok_null: "rc_ok h \<Longrightarrow> (\<forall>c. x \<notin> users h c) \<Longrightarrow> rc_ok (h\<lparr>handles := (handles h)(x \<mapsto> None)\<rparr>)"
proof -
  assume "rc_ok h" "\<forall>c. x \<notin> users h c"
  then have "users (h\<lparr>handles := (handles h)(x \<mapsto> None)\<rparr>) c = users h c" for c
    by (simp add: users_upd)
  with \<open>rc_ok h\<close> show ?thesis by (simp add: rc_ok_def)
qed

lemma rc_ok_remove: "rc_ok h \<Longrightarrow> (\<forall>c. x \<notin> users h c) \<Longrightarrow> rc_ok (h\<lparr>handles := (handles h)(x := None)\<rparr>)"
proof -
  assume "rc_ok h" "\<forall>c. x \<notin> users h c"
  then have "users (h\<lparr>handles := (handles h)(x := None)\<rparr>) c = users h c" for c
    by (simp add: users_upd)
  with \<open>rc_ok h\<close> show ?thesis by (simp add: rc_ok_def)
qed

lemma rc_ok_make:
  assumes "rc_ok h" and "handles h x = None"
  shows "\<exists>h'. QueuePointer_new x h = Inr h' \<and> rc_ok h'"
proof -
  let ?h = "h\<lparr>handles := (handles h)(x \<mapsto> Some (next_cell h)), count := (count h)(next_cell h \<mapsto> 1),
      next_cell := next_cell h + 1\<rparr>"
  note ok = rc_okE [OF assms(1)]
  have u: "users ?h c = (if c = next_cell h then {x} else users h c)" for c
    using assms(2) ok(4) [of "next_cell h"] by (auto simp: users_def)
  have "rc_ok ?h"
    unfolding rc_ok_def u using assms(1) by (auto simp: rc_ok_def less_Suc_eq)
  then show ?thesis by (simp add: QueuePointer_new_def)
qed

lemma not_user: "handles h x = None \<or> handles h x = Some None \<Longrightarrow> \<forall>c. x \<notin> users h c"
  by (auto simp: users_def)

lemma copy_ok:
  assumes "rc_ok h" and "\<forall>c. x \<notin> users h c" and "handles h y = Some (Some c)"
  shows "\<exists>h'. acquire x c h = Inr h' \<and> rc_ok h'"
  using acquire_ok [OF assms(1) _ assms(2), of y c] assms(3) by (auto simp: users_def)

lemma destroy_ok:
  assumes "rc_ok h" and "handles h x \<noteq> None"
  shows "\<exists>h'. QueuePointer_destroy x h = Inr h' \<and> rc_ok h'"
proof -
  from DecRef_ok [OF assms] obtain h1 where
    h1: "QueuePointer_DecRef x h = Inr h1" "rc_ok h1" "handles h1 = (handles h)(x \<mapsto> None)" by blast
  then have "rc_ok (h1\<lparr>handles := (handles h1)(x := None)\<rparr>)"
    by (intro rc_ok_remove not_user) auto
  with h1 show ?thesis by (simp add: QueuePointer_destroy_def)
qed

lemma assign_ok:
  assumes "rc_ok h" and "handles h x \<noteq> None" and "handles h y \<noteq> None"
  shows "\<exists>h'. QueuePointer_assign x y h = Inr h' \<and> rc_ok h'"
proof -
  from DecRef_ok [OF assms(1,2)] obtain h1 where
    h1: "QueuePointer_DecRef x h = Inr h1" "rc_ok h1" "handles h1 = (handles h)(x \<mapsto> None)" by blast
  have "\<forall>c. x \<notin> users h1 c" using h1 by (intro not_user) auto
  then show ?thesis
    using h1 assms(3) copy_ok [of h1 x y]
    by (cases "handles h1 y") (auto simp: QueuePointer_assign_def split: option.splits if_splits)
qed

text \<open>
  On an object that refers to a cell, destroying a message and destroying a queue pointer come to
  the same thing.
\<close>

lemma Message_destroy_eq:
  "handles h x = Some (Some c) \<Longrightarrow> Message_destroy x h = QueuePointer_destroy x h"
  by (auto simp: Message_destroy_def QueuePointer_destroy_def Message_DecRef_def
      QueuePointer_DecRef_def Let_def split: option.split)

section \<open>Programs of handle operations\<close>

datatype qp_op = QNull nat | QNew nat | QCopy nat nat | QAssign nat nat | QDestroy nat

fun qp_step :: "qp_op \<Rightarrow> rc \<Rightarrow> rc outcome" where
  "qp_step (QNull x) = QueuePointer_null x"
| "qp_step (QNew x) = QueuePointer_new x"
| "qp_step (QCopy x y) = QueuePointer_copy x y"
| "qp_step (QAssign x y) = QueuePointer_assign x y"
| "qp_step (QDestroy x) = QueuePointer_destroy x"

text \<open>What C++ guarantees of the calls: constructors run on fresh storage, the rest on live objects.\<close>

fun qp_valid :: "qp_op \<Rightarrow> rc \<Rightarrow> bool" where
  "qp_valid (QNull x) h = (handles h x = None)"
| "qp_valid (QNew x) h = (handles h x = None)"
| "qp_valid (QCopy x y) h = (handles h x = None \<and> handles h y \<noteq> None)"
| "qp_valid (QAssign x y) h = (handles h x \<noteq> None \<and> handles h y \<noteq> None)"
| "qp_valid (QDestroy x) h = (handles h x \<noteq> None)"

datatype msg_op = MNew nat | MCopy nat nat | MDestroy nat

fun msg_step :: "msg_op \<Rightarrow> rc \<Rightarrow> rc outcome" where
  "msg_step (MNew x) = Message_new x"
| "msg_step (MCopy x y) = Message_copy x y"
| "msg_step (MDestroy x) = Message_destroy x"

fun is_message :: "rc \<Rightarrow> nat \<Rightarrow> bool" where
  "is_message h x = (case handles h x of Some (Some c) \<Rightarrow> True | _ \<Rightarrow> False)"

fun msg_valid :: "msg_op \<Rightarrow> rc \<Rightarrow> bool" where
  "msg_valid (MNew x) h = (handles h x = None)"
| "msg_valid (MCopy x y) h = (handles h x = None \<and> is_message h y)"
| "msg_valid (MDestroy x) h = is_message h x"

fun rc_run :: "('op \<Rightarrow> rc \<Rightarrow> rc outcome) \<Rightarrow> 'op list \<Rightarrow> rc \<Rightarrow> rc outcome" where
  "rc_run step [] h = Inr h"
| "rc_run step (op # ops) h = bindo (step op h) (rc_run step ops)"

fun rc_valid :: "('op \<Rightarrow> rc \<Rightarrow> rc outcome) \<Rightarrow> ('op \<Rightarrow> rc \<Rightarrow> bool) \<Rightarrow> 'op list \<Rightarrow> rc \<Rightarrow> bool" where
  "rc_valid step valid [] h = True"
| "rc_valid step valid (op # ops) h =
     (valid op h \<and> (case step op h of Inr h' \<Rightarrow> rc_valid step valid ops h' | Inl e \<Rightarrow> True))"

locale counted_handles =
  fixes step :: "'op \<Rightarrow> rc \<Rightarrow> rc outcome" and valid :: "'op \<Rightarrow> rc \<Rightarrow> bool"
  assumes step_ok: "rc_ok h \<Longrightarrow> valid op h \<Longrightarrow> \<exists>h'. step op h = Inr h' \<and> rc_ok h'"
begin

lemma run_ok: "rc_ok h \<Longrightarrow> rc_valid step valid ops h \<Longrightarrow> \<exists>h'. rc_run step ops h = Inr h' \<and> rc_ok h'"
proof (induction ops arbitrary: h)
  case (Cons op ops)
  then have "valid op h" by simp
  with Cons.prems(1) step_ok obtain h1 where "step op h = Inr h1" "rc_ok h1" by blast
  with Cons show ?case by simp
qed simp

lemma no_leak_no_dangling:
  assumes "rc_valid step valid ops rc_new"
  shows "\<exists>h. rc_run step ops rc_new = Inr h \<and> distinct (released h) \<and>
    (\<forall>c < next_cell h. count h c = (if users h c = {} then None else Some (card (users h c))) \<and>
       (c \<in> set (released h) \<longleftrightarrow> users h c = {}))"
  using run_ok [OF rc_ok_new assms] by (auto simp: rc_ok_def)

end

interpretation queue_pointers: counted_handles qp_step qp_valid
proof
  fix h op
  assume "rc_ok h" "qp_valid op h"
  then show "\<exists>h'. qp_step op h = Inr h' \<and> rc_ok h'"
  proof (cases op)
    case (QCopy x y)
    with \<open>rc_ok h\<close> \<open>qp_valid op h\<close> show ?thesis
      using copy_ok [of h x y] rc_ok_null [of h x] not_user [of h x]
      by (auto simp: QueuePointer_copy_def QueuePointer_null_def split: option.split)
  next
    case (QNull x)
    with \<open>rc_ok h\<close> \<open>qp_valid op h\<close> show ?thesis
      using rc_ok_null [of h x] not_user [of h x] by (simp add: QueuePointer_null_def)
  qed (auto intro: rc_ok_make assign_ok destroy_ok)
qed

interpretation messages: counted_handles msg_step msg_valid
proof
  fix h op
  assume "rc_ok h" "msg_valid op h"
  then show "\<exists>h'. msg_step op h = Inr h' \<and> rc_ok h'"
  proof (cases op)
    case (MCopy x y)
    with \<open>rc_ok h\<close> \<open>msg_valid op h\<close> show ?thesis
      using copy_ok [of h x y] not_user [of h x]
      by (auto simp: Message_copy_def split: option.splits)
  qed (auto simp: Message_new_def Message_destroy_eq split: option.splits
      intro: rc_ok_make destroy_ok)
qed

text \<open>C25: Queue pointers neither leak nor dangle: any program of default and queue-creating
  constructors, copies, assignments and destructors, on objects alive at the time, runs without
  touching a freed object or failing an assertion; at its end every count is the number of pointers
  to that queue, and a queue has been deleted, once, exactly when no pointer to it is left.\<close>

theorem QueuePointer_counts:
  assumes "rc_valid qp_step qp_valid ops rc_new"
  shows "\<exists>h. rc_run qp_step ops rc_new = Inr h \<and> distinct (released h) \<and>
    (\<forall>c < next_cell h. count h c = (if users h c = {} then None else Some (card (users h c))) \<and>
       (c \<in> set (released h) \<longleftrightarrow> users h c = {}))"
  using assms by (rule queue_pointers.no_leak_no_dangling)

lemma QueuePointer_counts_witness:
  "\<exists>h. rc_run qp_step [QNew 0, QCopy 1 0, QNull 2, QAssign 2 1, QDestroy 0] rc_new = Inr h \<and>
     distinct (released h)"
  using QueuePointer_counts [of "[QNew 0, QCopy 1 0, QNull 2, QAssign 2 1, QDestroy 0]"]
  by (auto simp: rc_new_def QueuePointer_new_def QueuePointer_copy_def QueuePointer_null_def
      QueuePointer_assign_def QueuePointer_DecRef_def QueuePointer_destroy_def acquire_def c_assert_def
      dec_count_def Let_def)

text \<open>C26: Messages neither leak nor dangle: any program of message creations, copies and
  destructions, on messages alive at the time, runs without touching freed memory, keeps the counts
  exact, and frees each payload once, with the last message object that shares it.\<close>

theorem Message_counts:
  assumes "rc_valid msg_step msg_valid ops rc_new"
  shows "\<exists>h. rc_run msg_step ops rc_new = Inr h \<and> distinct (released h) \<and>
    (\<forall>c < next_cell h. count h c = (if users h c = {} then None else Some (card (users h c))) \<and>
       (c \<in> set (released h) \<longleftrightarrow> users h c = {}))"
  using assms by (rule messages.no_leak_no_dangling)

lemma Message_counts_witness:
  "\<exists>h. rc_run msg_step [MNew 0, MCopy 1 0, MDestroy 0, MDestroy 1] rc_new = Inr h \<and>
     distinct (released h)"
  using Message_counts [of "[MNew 0, MCopy 1 0, MDestroy 0, MDestroy 1]"]
  by (auto simp: rc_new_def Message_new_def QueuePointer_new_def Message_copy_def Message_destroy_def
      Message_DecRef_def acquire_def c_assert_def dec_count_def Let_def)

text \<open>Assigning a queue pointer to itself is not safe: if it is the only pointer to its
  queue, \<open>p = p\<close> deletes the queue and leaves \<open>p\<close> null.\<close>

theorem QueuePointer_self_assign:
  assumes "handles h x = Some (Some c)" and "count h c = Some 1"
  shows "\<exists>h'. QueuePointer_assign x x h = Inr h' \<and> handles h' x = Some None \<and> count h' c = None \<and>
    c \<in> set (released h')"
  using assms by (simp add: QueuePointer_assign_def QueuePointer_DecRef_def dec_count_def Let_def)

lemma QueuePointer_self_assign_witness:
  "\<exists>h h'. QueuePointer_new 0 rc_new = Inr h \<and> QueuePointer_assign 0 0 h = Inr h' \<and>
     handles h' 0 = Some None"
  using QueuePointer_self_assign [of "rc_new\<lparr>handles := [0 \<mapsto> Some 0], count := [0 \<mapsto> 1], next_cell := 1\<rparr>" 0 0]
  by (auto simp: QueuePointer_new_def rc_new_def)

end
