(* ===== verification/CText.thy ===== *)
theory CText
  imports Prelude
begin

text \<open>
  The character classes and number conversions of the C library that the configuration file and the
  device table use, in the \<open>POSIX\<close> locale the program sets: \<open>isalpha\<close>, \<open>isdigit\<close>, \<open>strchr\<close>, \<open>atoi\<close>,
  and \<open>snprintf\<close> with \<open>%d\<close>.
\<close>

section \<open>Characters\<close>

abbreviation LF :: char where "LF \<equiv> CHR 0x0A"
abbreviation CR :: char where "CR \<equiv> CHR 0x0D"
abbreviation TAB :: char where "TAB \<equiv> CHR 0x09"
abbreviation QUOTE :: char where "QUOTE \<equiv> CHR 0x22"

definition c_isalpha :: "char \<Rightarrow> bool" where
  "c_isalpha c \<longleftrightarrow> (let n = (of_char c :: nat) in 65 \<le> n \<and> n \<le> 90 \<or> 97 \<le> n \<and> n \<le> 122)"

definition c_isdigit :: "char \<Rightarrow> bool" where
  "c_isdigit c \<longleftrightarrow> (let n = (of_char c :: nat) in 48 \<le> n \<and> n \<le> 57)"

definition c_isblank :: "char \<Rightarrow> bool" where
  "c_isblank c \<longleftrightarrow> c = CHR '' '' \<or> c = TAB"

text \<open>\<open>strchr(s, c)\<close> also finds the terminator, so it succeeds for a NUL character.\<close>

definition c_strchr :: "string \<Rightarrow> char \<Rightarrow> bool" where
  "c_strchr s c \<longleftrightarrow> c \<in> set s \<or> c = NUL"

lemma is_cstr_parts [simp]:
  "is_cstr (xs @ ys) \<longleftrightarrow> is_cstr xs \<and> is_cstr ys" "is_cstr (c # xs) \<longleftrightarrow> c \<noteq> NUL \<and> is_cstr xs"
  "is_cstr []"
  by (auto simp: is_cstr_def)

section \<open>Decimal numbers\<close>

definition c_isspace :: "char \<Rightarrow> bool" where
  "c_isspace c \<longleftrightarrow> (let n = (of_char c :: nat) in n = 32 \<or> 9 \<le> n \<and> n \<le> 13)"

definition digit_char :: "nat \<Rightarrow> char" where
  "digit_char d = char_of (48 + d)"

definition digit_val :: "char \<Rightarrow> nat" where
  "digit_val c = of_char c - 48"

fun print_nat :: "nat \<Rightarrow> string" where
  "print_nat n = (if n < 10 then [digit_char n] else print_nat (n div 10) @ [digit_char (n mod 10)])"

declare print_nat.simps [simp del]

definition print_int :: "int \<Rightarrow> string" where
  "print_int v = (if v < 0 then CHR ''-'' # print_nat (nat (- v)) else print_nat (nat v))"

fun read_digits :: "nat \<Rightarrow> string \<Rightarrow> nat" where
  "read_digits acc [] = acc"
| "read_digits acc (c # cs) = (if c_isdigit c then read_digits (10 * acc + digit_val c) cs else acc)"

text \<open>\<open>atoi\<close> of a number that does not fit an \<open>int\<close> is undefined.\<close>

definition atoi_value :: "string \<Rightarrow> int" where
  "atoi_value s =
     (case dropWhile c_isspace s of
        [] \<Rightarrow> 0
      | c # cs \<Rightarrow>
          if c = CHR ''-'' then - int (read_digits 0 cs)
          else if c = CHR ''+'' then int (read_digits 0 cs)
          else int (read_digits 0 (c # cs)))"

definition int_range :: "int \<Rightarrow> bool" where
  "int_range v \<longleftrightarrow> - (2 ^ 31) \<le> v \<and> v < 2 ^ 31"

definition atoi :: "string \<Rightarrow> int outcome" where
  "atoi s = (if int_range (atoi_value s) then Inr (atoi_value s) else Inl IntOverflow)"

lemma digit_char_val [simp]: "d < 10 \<Longrightarrow> digit_val (digit_char d) = d"
  by (simp add: digit_val_def digit_char_def)

lemma digit_char_isdigit [simp]: "d < 10 \<Longrightarrow> c_isdigit (digit_char d)"
  by (simp add: c_isdigit_def digit_char_def)

lemma read_digits_append:
  "\<forall>c \<in> set xs. c_isdigit c \<Longrightarrow> read_digits acc (xs @ ys) = read_digits (read_digits acc xs) ys"
  by (induction xs arbitrary: acc) auto

lemma print_nat_digits: "c \<in> set (print_nat n) \<Longrightarrow> c_isdigit c"
  by (induction n rule: print_nat.induct) (subst (asm) print_nat.simps, auto split: if_splits)

lemma print_nat_not_Nil [simp]: "print_nat n \<noteq> []"
  by (subst print_nat.simps) simp

lemma read_digits_print_nat: "read_digits 0 (print_nat n) = n"
proof (induction n rule: print_nat.induct)
  case (1 n)
  show ?case
  proof (cases "n < 10")
    case False
    have "read_digits 0 (print_nat (n div 10) @ [digit_char (n mod 10)]) = 10 * read_digits 0 (print_nat (n div 10)) + n mod 10"
      by (subst read_digits_append) (auto dest: print_nat_digits)
    with 1 False show ?thesis by (subst print_nat.simps) simp
  qed (subst print_nat.simps, simp)
qed

lemma c_isdigit_not:
  "c_isdigit c \<Longrightarrow> \<not> c_isspace c \<and> c \<noteq> CHR ''-'' \<and> c \<noteq> CHR ''+'' \<and> c \<noteq> NUL \<and> c \<noteq> CHR '':''"
  by (auto simp: c_isdigit_def c_isspace_def NUL_def Let_def)

text \<open>Printing and reading back.\<close>

lemma atoi_value_print_int: "atoi_value (print_int v) = v"
proof (cases "v < 0")
  case True
  then show ?thesis
    by (simp add: print_int_def atoi_value_def c_isspace_def read_digits_print_nat)
next
  case False
  obtain c cs where p: "print_nat (nat v) = c # cs" by (cases "print_nat (nat v)") auto
  with c_isdigit_not [of c] print_nat_digits [of c "nat v"] have "\<not> c_isspace c" "c \<noteq> CHR ''-''" "c \<noteq> CHR ''+''" by auto
  with False p show ?thesis
    using read_digits_print_nat [of "nat v"] by (simp add: print_int_def atoi_value_def)
qed

lemma atoi_print_int: "int_range v \<Longrightarrow> atoi (print_int v) = Inr v"
  by (simp add: atoi_def atoi_value_print_int)

end
