(* ===== verification/ConfigLexer.thy ===== *)
theory ConfigLexer
  imports CText "HOL-Library.Sublist"
begin

text \<open>
  The tokeniser of \<open>libplayercore/configfile.cc\<close>: \<open>LoadTokens\<close>, the \<open>LoadToken...\<close> routines, the
  token list and \<open>SaveTokens\<close>.  A file is the list of its characters still to be read; \<open>ungetc\<close>
  of the character just read is leaving it in that list.  The line counter is used in messages only
  and is left out.  The file system is the parameter \<open>lex_env\<close>.
\<close>

section \<open>Tokens\<close>

datatype token_type =
    TokenComment
  | TokenWord | TokenNum | TokenString | TokenBool
  | TokenOpenSection | TokenCloseSection
  | TokenOpenTuple | TokenCloseTuple
  | TokenSpace | TokenEOL

record token =
  t_include :: nat
  t_type :: token_type
  t_value :: string

text \<open>
  A routine that returns \<open>false\<close> yields \<open>Inr None\<close>; faults are \<open>Inl\<close>.
\<close>

fun bindr :: "'a option outcome \<Rightarrow> ('a \<Rightarrow> 'b option outcome) \<Rightarrow> 'b option outcome" where
  "bindr (Inl e) f = Inl e"
| "bindr (Inr None) f = Inr None"
| "bindr (Inr (Some x)) f = f x"

lemma bindr_cong [fundef_cong]:
  "m = m' \<Longrightarrow> (\<And>x. m' = Inr (Some x) \<Longrightarrow> f x = f' x) \<Longrightarrow> bindr m f = bindr m' f'"
  by (cases "(m', f')" rule: bindr.cases) auto

lemma bindr_Some [simp]:
  "bindr m f = Inr (Some y) \<longleftrightarrow> (\<exists>x. m = Inr (Some x) \<and> f x = Inr (Some y))"
  by (cases "(m, f)" rule: bindr.cases) auto

lemma bindr_Inl: "bindr m f = Inl e \<longleftrightarrow> m = Inl e \<or> (\<exists>x. m = Inr (Some x) \<and> f x = Inl e)"
  by (cases "(m, f)" rule: bindr.cases) auto

section \<open>Characters\<close>

definition num_chars :: string where
  "num_chars = ''+-.0123456789''"

definition word_char :: "char \<Rightarrow> bool" where
  "word_char c \<longleftrightarrow> c_isalpha c \<or> c_isdigit c \<or> c_strchr ''.-_[]:'' c"

section \<open>The token buffer and the token list\<close>

text \<open>\<open>char token[1024]\<close>, written with \<open>token[len++] = ch\<close> without a check.\<close>

definition TOKEN_BUF :: nat where
  "TOKEN_BUF = 1024"

text \<open>
  The common loop of the routines: read while the class holds, leave the first other character.
\<close>

fun scan_while :: "(char \<Rightarrow> bool) \<Rightarrow> string \<Rightarrow> string \<Rightarrow> (string \<times> string) outcome" where
  "scan_while P buf [] = Inr (buf, [])"
| "scan_while P buf (c # cs) =
     (if P c then (if length buf < TOKEN_BUF then scan_while P (buf @ [c]) cs else Inl BufferOverflow)
      else Inr (buf, c # cs))"

text \<open>\<open>AddToken\<close> copies the buffer up to its terminator; a full buffer without one is overread.\<close>

definition AddToken :: "token_type \<Rightarrow> string \<Rightarrow> nat \<Rightarrow> token list \<Rightarrow> token list option outcome" where
  "AddToken type buf inc toks =
     (if TOKEN_BUF \<le> length buf \<and> is_cstr buf then Inl OutOfBounds
      else Inr (Some (toks @ [\<lparr>t_include = inc, t_type = type, t_value = cstr buf\<rparr>])))"

definition GetTokenValue :: "token list \<Rightarrow> nat \<Rightarrow> string outcome" where
  "GetTokenValue toks i = (if i < length toks then Inr (t_value (toks ! i)) else Inl AssertFailed)"

definition SetTokenValue :: "nat \<Rightarrow> string \<Rightarrow> token list \<Rightarrow> token list outcome" where
  "SetTokenValue i v toks =
     (if i < length toks then Inr (toks[i := (toks ! i)\<lparr>t_value := v\<rparr>]) else Inl AssertFailed)"

definition print_token :: "token \<Rightarrow> string" where
  "print_token t =
     (if 0 < t_include t then []
      else if t_type t = TokenString then [QUOTE] @ t_value t @ [QUOTE] else t_value t)"

definition SaveTokens :: "token list \<Rightarrow> string" where
  "SaveTokens toks = concat (map print_token toks)"

section \<open>One token\<close>

type_synonym lexed = "(token list \<times> string) option outcome"

definition finish :: "token_type \<Rightarrow> nat \<Rightarrow> token list \<Rightarrow> string \<times> string \<Rightarrow> lexed" where
  "finish type inc toks = (\<lambda>(buf, rest). bindr (AddToken type buf inc toks) (\<lambda>toks'. Inr (Some (toks', rest))))"

definition LoadTokenComment :: "nat \<Rightarrow> token list \<Rightarrow> string \<Rightarrow> lexed" where
  "LoadTokenComment inc toks cs =
     bindo (scan_while (\<lambda>c. c \<noteq> LF \<and> c \<noteq> CR) [] cs) (finish TokenComment inc toks)"

definition LoadTokenNum :: "nat \<Rightarrow> token list \<Rightarrow> string \<Rightarrow> lexed" where
  "LoadTokenNum inc toks cs =
     bindo (scan_while (c_strchr num_chars) [] cs) (finish TokenNum inc toks)"

definition LoadTokenSpace :: "nat \<Rightarrow> token list \<Rightarrow> string \<Rightarrow> lexed" where
  "LoadTokenSpace inc toks cs =
     bindo (scan_while c_isblank [] cs) (finish TokenSpace inc toks)"

text \<open>The first character is the opening quote, which is read and dropped.\<close>

definition LoadTokenString :: "nat \<Rightarrow> token list \<Rightarrow> string \<Rightarrow> lexed" where
  "LoadTokenString inc toks cs =
     bindo (scan_while (\<lambda>c. c \<noteq> LF \<and> c \<noteq> QUOTE) [] (tl cs))
       (\<lambda>(buf, rest).
          case rest of
            [] \<Rightarrow> Inr None
          | c # rest' \<Rightarrow> if c = QUOTE then finish TokenString inc toks (buf, rest') else Inr None)"

section \<open>Includes\<close>

text \<open>
  \<open>read_file p\<close>: the contents of \<open>p\<close> if \<open>fopen(p, "r")\<close> succeeds; \<open>cwd\<close>: the result of \<open>getcwd\<close>;
  \<open>self_name\<close>: the name given to \<open>Load\<close>.
\<close>

record lex_env =
  read_file :: "string \<Rightarrow> string option"
  cwd :: "string option"
  self_name :: string

definition PATH_LIMIT :: nat where
  "PATH_LIMIT = 4096"

definition first_char :: "string \<Rightarrow> char" where
  "first_char s = (case s of [] \<Rightarrow> NUL | c # _ \<Rightarrow> c)"

definition is_absolute :: "string \<Rightarrow> bool" where
  "is_absolute s \<longleftrightarrow> first_char s = CHR ''/'' \<or> first_char s = CHR ''~''"

definition strip_slashes :: "string \<Rightarrow> string" where
  "strip_slashes s = rev (dropWhile (\<lambda>c. c = CHR ''/'') (rev s))"

text \<open>POSIX \<open>dirname\<close>.\<close>

definition dirname :: "string \<Rightarrow> string" where
  "dirname s =
     (let t = strip_slashes s in
      if t = [] then (if s = [] then ''.'' else ''/'')
      else
        let u = rev (dropWhile (\<lambda>c. c \<noteq> CHR ''/'') (rev t)) in
        if u = [] then ''.''
        else if strip_slashes u = [] then ''/'' else strip_slashes u)"

definition in_path_buffer :: "string \<Rightarrow> string outcome" where
  "in_path_buffer p =
     (if PATH_LIMIT < length p + 1 then Inl BufferOverflow
      else if PATH_LIMIT = length p + 1 then Inl AssertFailed else Inr p)"

definition include_path :: "lex_env \<Rightarrow> string \<Rightarrow> string outcome" where
  "include_path e filename =
     (if is_absolute filename then Inr filename
      else if is_absolute (self_name e)
      then in_path_buffer (dirname (self_name e) @ ''/'' @ filename)
      else (case cwd e of
              None \<Rightarrow> Inl AssertFailed
            | Some d \<Rightarrow> in_path_buffer (d @ ''/'' @ dirname (self_name e) @ ''/'' @ filename)))"

text \<open>
  \<open>load\<close> is \<open>LoadTokens\<close> on the included file: the level, its text and the tokens so far.
\<close>

type_synonym loader = "nat \<Rightarrow> string \<Rightarrow> token list \<Rightarrow> token list option outcome"

definition LoadTokenInclude :: "loader \<Rightarrow> lex_env \<Rightarrow> nat \<Rightarrow> token list \<Rightarrow> string \<Rightarrow> lexed" where
  "LoadTokenInclude load e inc toks cs =
     (case cs of
        [] \<Rightarrow> Inr None
      | ch # _ \<Rightarrow>
          if \<not> c_isblank ch then Inr None
          else bindr (LoadTokenSpace inc toks cs) (\<lambda>(toks1, cs1).
            case cs1 of
              [] \<Rightarrow> Inr None
            | ch1 # _ \<Rightarrow>
                if ch1 \<noteq> QUOTE then Inr None
                else bindr (LoadTokenString inc toks1 cs1) (\<lambda>(toks2, cs2).
                  bindo (GetTokenValue toks2 (length toks2 - 1)) (\<lambda>filename.
                  bindo (include_path e filename) (\<lambda>fullpath.
                    case read_file e fullpath of
                      None \<Rightarrow> Inr None
                    | Some infile \<Rightarrow>
                        bindr (AddToken TokenEOL [LF] inc toks2) (\<lambda>toks3.
                        bindr (load (inc + 1) infile toks3) (\<lambda>toks4.
                          Inr (Some (toks4, cs2)))))))))"

definition is_bool_word :: "string \<Rightarrow> bool" where
  "is_bool_word w \<longleftrightarrow> w = ''true'' \<or> w = ''false'' \<or> w = ''yes'' \<or> w = ''no''"

definition LoadTokenWord :: "loader \<Rightarrow> lex_env \<Rightarrow> nat \<Rightarrow> token list \<Rightarrow> string \<Rightarrow> lexed" where
  "LoadTokenWord load e inc toks cs =
     bindo (scan_while word_char [] cs) (\<lambda>(buf, rest).
       if rest = [] then finish TokenWord inc toks (buf, rest)
       else if cstr buf = ''include'' then
         bindr (AddToken TokenWord buf inc toks) (\<lambda>toks1. LoadTokenInclude load e inc toks1 rest)
       else if is_bool_word (cstr buf) then finish TokenBool inc toks (buf, rest)
       else finish TokenWord inc toks (buf, rest))"

section \<open>What one token consumes\<close>

lemma scan_while_split:
  "scan_while P buf s = Inr (b, rest) \<Longrightarrow>
   \<exists>w. s = w @ rest \<and> b = buf @ w \<and> (\<forall>c \<in> set w. P c) \<and> (rest \<noteq> [] \<longrightarrow> \<not> P (hd rest))"
proof (induction P buf s arbitrary: b rest rule: scan_while.induct)
  case (2 P buf c cs)
  show ?case
  proof (cases "P c")
    case True
    with 2 obtain w where "cs = w @ rest" "b = (buf @ [c]) @ w" "\<forall>c \<in> set w. P c"
        "rest \<noteq> [] \<longrightarrow> \<not> P (hd rest)"
      by (auto split: if_splits)
    with True show ?thesis by (intro exI [of _ "c # w"]) auto
  next
    case False
    with 2(2) show ?thesis by auto
  qed
qed simp

lemma scan_while_starts:
  "scan_while P [] (c # cs) = Inr (b, rest) \<Longrightarrow> P c \<Longrightarrow>
   \<exists>w. cs = w @ rest \<and> b = c # w \<and> (\<forall>c \<in> set w. P c)"
  using scan_while_split [of P "[]" "c # cs" b rest]
  by (cases b) (auto simp: Cons_eq_append_conv)

lemma AddToken_Some:
  "AddToken type buf inc toks = Inr (Some toks') \<longleftrightarrow>
   \<not> (TOKEN_BUF \<le> length buf \<and> is_cstr buf) \<and>
   toks' = toks @ [\<lparr>t_include = inc, t_type = type, t_value = cstr buf\<rparr>]"
  by (auto simp: AddToken_def)

lemma finish_Some:
  "finish type inc toks (buf, rest) = Inr (Some (toks', rest')) \<Longrightarrow>
   rest' = rest \<and> toks' = toks @ [\<lparr>t_include = inc, t_type = type, t_value = cstr buf\<rparr>]"
  by (auto simp: finish_def AddToken_Some)

lemma SaveTokens_append [simp]: "SaveTokens (xs @ ys) = SaveTokens xs @ SaveTokens ys"
  by (simp add: SaveTokens_def)

lemma SaveTokens_single:
  "SaveTokens [\<lparr>t_include = 0, t_type = t, t_value = v\<rparr>] =
     (if t = TokenString then [QUOTE] @ v @ [QUOTE] else v)"
  by (simp add: SaveTokens_def print_token_def)

text \<open>
  The contract between the main loop and the token routines: a routine called on a character of its
  class adds one token of the current level, consumes at least that character, and (outside included
  files and in text without NUL characters) the token it adds prints as what it consumed.
\<close>

locale token_scanner =
  fixes scan :: "nat \<Rightarrow> token list \<Rightarrow> string \<Rightarrow> lexed" and starts :: "char \<Rightarrow> bool"
  assumes scan_law: "starts c \<Longrightarrow> scan inc toks (c # cs) = Inr (Some (toks', rest)) \<Longrightarrow>
    suffix rest cs \<and> (\<exists>t. toks' = toks @ [t] \<and> t_include t = inc \<and> t_type t \<noteq> TokenWord \<and>
      (inc = 0 \<longrightarrow> is_cstr (c # cs) \<longrightarrow> c # cs = print_token t @ rest))"
begin

lemma rest: "starts c \<Longrightarrow> scan inc toks (c # cs) = Inr (Some (toks', rest)) \<Longrightarrow> suffix rest cs"
  using scan_law by blast

lemma one_token:
  "starts c \<Longrightarrow> scan inc toks (c # cs) = Inr (Some (toks', rest)) \<Longrightarrow>
   \<exists>t. toks' = toks @ [t] \<and> t_include t = inc"
  using scan_law by blast

lemma lossless:
  "starts c \<Longrightarrow> scan 0 toks (c # cs) = Inr (Some (toks', rest)) \<Longrightarrow> is_cstr (c # cs) \<Longrightarrow>
   \<exists>t. toks' = toks @ [t] \<and> t_include t = 0 \<and> t_type t \<noteq> TokenWord \<and> c # cs = print_token t @ rest"
  using scan_law by fast

end

lemma scan_class_law:
  assumes "type \<noteq> TokenString" "type \<noteq> TokenWord" and "P c"
    and "bindo (scan_while P [] (c # cs)) (finish type inc toks) = Inr (Some (toks', rest))"
  shows "suffix rest cs \<and> (\<exists>t. toks' = toks @ [t] \<and> t_include t = inc \<and> t_type t \<noteq> TokenWord \<and>
      (inc = 0 \<longrightarrow> is_cstr (c # cs) \<longrightarrow> c # cs = print_token t @ rest))"
proof -
  from assms(4) obtain b r where s: "scan_while P [] (c # cs) = Inr (b, r)"
      "finish type inc toks (b, r) = Inr (Some (toks', rest))" by auto
  from scan_while_starts [OF s(1) assms(3)] obtain w where w: "cs = w @ r" "b = c # w" by blast
  from finish_Some [OF s(2)] w show ?thesis
    using assms(1,2) by (auto simp: suffix_def print_token_def)
qed

interpretation comment: token_scanner LoadTokenComment "\<lambda>c. c = CHR ''#''"
  by unfold_locales (unfold LoadTokenComment_def, erule scan_class_law [rotated 3]; simp)

interpretation num: token_scanner LoadTokenNum "c_strchr num_chars"
  by unfold_locales (unfold LoadTokenNum_def, erule scan_class_law [rotated 3]; simp)

interpretation space: token_scanner LoadTokenSpace c_isblank
  by unfold_locales (unfold LoadTokenSpace_def, erule scan_class_law [rotated 3]; simp)

lemma LoadTokenString_Some:
  assumes "LoadTokenString inc toks (q # cs) = Inr (Some (toks', rest))"
  obtains b where "cs = b @ QUOTE # rest" "QUOTE \<notin> set b"
    "toks' = toks @ [\<lparr>t_include = inc, t_type = TokenString, t_value = cstr b\<rparr>]"
proof -
  from assms obtain b r0 where s0: "scan_while (\<lambda>c. c \<noteq> LF \<and> c \<noteq> QUOTE) [] cs = Inr (b, r0)"
      "(case r0 of [] \<Rightarrow> Inr None
        | c # rest' \<Rightarrow> if c = QUOTE then finish TokenString inc toks (b, rest') else Inr None)
       = Inr (Some (toks', rest))"
    by (auto simp: LoadTokenString_def)
  from s0(2) obtain r where r0: "r0 = QUOTE # r" and f: "finish TokenString inc toks (b, r) = Inr (Some (toks', rest))"
    by (cases r0) (auto split: if_splits)
  from scan_while_split [OF s0(1)] r0 have "cs = b @ QUOTE # r" "QUOTE \<notin> set b" by auto
  with finish_Some [OF f] show thesis by (intro that) auto
qed

interpretation str: token_scanner LoadTokenString "\<lambda>c. c = QUOTE"
proof
  fix c inc toks cs toks' rest
  assume c: "c = QUOTE" and "LoadTokenString inc toks (c # cs) = Inr (Some (toks', rest))"
  then obtain b where "cs = b @ QUOTE # rest"
      "toks' = toks @ [\<lparr>t_include = inc, t_type = TokenString, t_value = cstr b\<rparr>]"
    by (elim LoadTokenString_Some)
  with c show "suffix rest cs \<and> (\<exists>t. toks' = toks @ [t] \<and> t_include t = inc \<and> t_type t \<noteq> TokenWord \<and>
      (inc = 0 \<longrightarrow> is_cstr (c # cs) \<longrightarrow> c # cs = print_token t @ rest))"
    by (auto simp: suffix_def print_token_def)
qed

text \<open>What the token routines rely on in the nested \<open>LoadTokens\<close>: it only adds tokens, of its level or a deeper one.\<close>

definition levelled :: "loader \<Rightarrow> bool" where
  "levelled load \<longleftrightarrow> (\<forall>inc s toks toks'. load inc s toks = Inr (Some toks') \<longrightarrow>
     (\<exists>new. toks' = toks @ new \<and> (\<forall>t \<in> set new. inc \<le> t_include t)))"

text \<open>The successful include statement, step by step.\<close>

lemma LoadTokenInclude_Some:
  assumes "LoadTokenInclude load e inc toks cs = Inr (Some (toks', rest))"
  obtains c cs0 sp cs1 f p infile where
    "cs = c # cs0" "c_isblank c" "LoadTokenSpace inc toks cs = Inr (Some (toks @ [sp], QUOTE # cs1))"
    "cs1 = f @ QUOTE # rest" "QUOTE \<notin> set f" "include_path e (cstr f) = Inr p" "read_file e p = Some infile"
    "LoadTokenString inc (toks @ [sp]) (QUOTE # cs1) =
       Inr (Some (toks @ [sp, \<lparr>t_include = inc, t_type = TokenString, t_value = cstr f\<rparr>], rest))"
    "load (inc + 1) infile (toks @ [sp, \<lparr>t_include = inc, t_type = TokenString, t_value = cstr f\<rparr>,
       \<lparr>t_include = inc, t_type = TokenEOL, t_value = [LF]\<rparr>]) = Inr (Some toks')"
proof -
  from assms obtain c cs0 where cs: "cs = c # cs0" "c_isblank c"
    by (cases cs) (auto simp: LoadTokenInclude_def split: if_splits)
  with assms obtain toks1 cs' where sp: "LoadTokenSpace inc toks cs = Inr (Some (toks1, cs'))"
      and k: "(case cs' of [] \<Rightarrow> Inr None
            | ch1 # _ \<Rightarrow>
                if ch1 \<noteq> QUOTE then Inr None
                else bindr (LoadTokenString inc toks1 cs') (\<lambda>(toks2, cs2).
                  bindo (GetTokenValue toks2 (length toks2 - 1)) (\<lambda>filename.
                  bindo (include_path e filename) (\<lambda>fullpath.
                    case read_file e fullpath of
                      None \<Rightarrow> Inr None
                    | Some infile \<Rightarrow>
                        bindr (AddToken TokenEOL [LF] inc toks2) (\<lambda>toks3.
                        bindr (load (inc + 1) infile toks3) (\<lambda>toks4.
                          Inr (Some (toks4, cs2)))))))) = Inr (Some (toks', rest))"
    unfolding LoadTokenInclude_def by (simp only: list.case if_False bindr_Some not_True_eq_False) auto
  from space.one_token sp cs obtain t where t: "toks1 = toks @ [t]" by blast
  from k obtain cs1 where cs1: "cs' = QUOTE # cs1"
    by (cases cs') (auto split: if_splits)
  with k obtain toks2 where st: "LoadTokenString inc toks1 (QUOTE # cs1) = Inr (Some (toks2, rest))"
    by (auto split: option.splits)
  from LoadTokenString_Some [OF st] obtain f where f: "cs1 = f @ QUOTE # rest" "QUOTE \<notin> set f"
      "toks2 = toks1 @ [\<lparr>t_include = inc, t_type = TokenString, t_value = cstr f\<rparr>]" .
  have v: "GetTokenValue toks2 (length toks2 - 1) = Inr (cstr f)"
    unfolding f(3) by (simp add: GetTokenValue_def)
  from k st v obtain p infile where "include_path e (cstr f) = Inr p" "read_file e p = Some infile"
      "load (inc + 1) infile (toks2 @ [\<lparr>t_include = inc, t_type = TokenEOL, t_value = [LF]\<rparr>]) = Inr (Some toks')"
    by (auto simp: cs1 AddToken_Some is_cstr_def NUL_def cstr_def split: option.splits)
  with that [OF cs(1) cs(2)] sp t cs1 f st show thesis by auto
qed

lemma LoadTokenInclude_rest:
  assumes "LoadTokenInclude load e inc toks cs = Inr (Some (toks', rest))"
  shows "suffix rest cs"
  using assms
proof (rule LoadTokenInclude_Some)
  fix c cs0 sp cs1 f
  assume "cs = c # cs0" "c_isblank c" "LoadTokenSpace inc toks cs = Inr (Some (toks @ [sp], QUOTE # cs1))"
    "cs1 = f @ QUOTE # rest"
  with space.rest [of c inc toks cs0 "toks @ [sp]" "QUOTE # cs1"] show ?thesis
    by (auto simp: suffix_def)
qed

lemma LoadTokenWord_rest:
  assumes "word_char c" and "LoadTokenWord load e inc toks (c # cs) = Inr (Some (toks', rest))"
  shows "suffix rest cs"
proof -
  from assms(2) obtain b r where s: "scan_while word_char [] (c # cs) = Inr (b, r)"
    by (auto simp: LoadTokenWord_def)
  from scan_while_starts [OF s assms(1)] obtain w where w: "cs = w @ r" by blast
  from assms(2) s have "suffix rest r"
    by (auto simp: LoadTokenWord_def dest: finish_Some LoadTokenInclude_rest split: if_splits)
  with w show ?thesis by (auto simp: suffix_def)
qed


lemma LoadTokenWord_plain:
  assumes "word_char c" and "LoadTokenWord load e 0 toks (c # cs) = Inr (Some (toks', rest))"
    and "\<And>w r. c # cs = w @ r \<Longrightarrow> cstr w \<noteq> ''include''"
  shows "suffix rest cs \<and> (\<exists>new. toks' = toks @ new \<and> (is_cstr (c # cs) \<longrightarrow> c # cs = SaveTokens new @ rest))"
proof -
  from assms(2) obtain b r where s: "scan_while word_char [] (c # cs) = Inr (b, r)"
    by (auto simp: LoadTokenWord_def)
  from scan_while_starts [OF s assms(1)] obtain w where w: "cs = w @ r" "b = c # w" by blast
  with assms(3) [of b r] have "cstr b \<noteq> ''include''" by simp
  with assms(2) s obtain type where "type \<noteq> TokenString" and f: "finish type 0 toks (b, r) = Inr (Some (toks', rest))"
    by (auto simp: LoadTokenWord_def split: if_splits)
  from finish_Some [OF f] this(1) w show ?thesis by (auto simp: suffix_def SaveTokens_single)
qed

section \<open>The main loop\<close>

text \<open>\<open>LF\<close> and \<open>CR\<close> each absorb a following character of the other kind.\<close>

definition skip_pair :: "char \<Rightarrow> string \<Rightarrow> string" where
  "skip_pair other cs = (case cs of [] \<Rightarrow> [] | c # cs' \<Rightarrow> if c = other then cs' else cs)"

definition AddToken1 :: "token_type \<Rightarrow> char \<Rightarrow> nat \<Rightarrow> token list \<Rightarrow> string \<Rightarrow> lexed" where
  "AddToken1 type c inc toks rest = finish type inc toks ([c], rest)"

definition next_token :: "loader \<Rightarrow> lex_env \<Rightarrow> nat \<Rightarrow> token list \<Rightarrow> char \<Rightarrow> string \<Rightarrow> lexed" where
  "next_token load e inc toks ch cs =
     (if ch = CHR ''#'' then LoadTokenComment inc toks (ch # cs)
      else if c_isalpha ch then LoadTokenWord load e inc toks (ch # cs)
      else if c_strchr num_chars ch then LoadTokenNum inc toks (ch # cs)
      else if c_isblank ch then LoadTokenSpace inc toks (ch # cs)
      else if ch = QUOTE then LoadTokenString inc toks (ch # cs)
      else if c_strchr ''('' ch then AddToken1 TokenOpenSection ch inc toks cs
      else if c_strchr '')'' ch then AddToken1 TokenCloseSection ch inc toks cs
      else if c_strchr ''['' ch then AddToken1 TokenOpenTuple ch inc toks cs
      else if c_strchr '']'' ch then AddToken1 TokenCloseTuple ch inc toks cs
      else if ch = CR then AddToken1 TokenEOL LF inc toks (skip_pair LF cs)
      else if ch = LF then AddToken1 TokenEOL LF inc toks (skip_pair CR cs)
      else Inr None)"

lemma AddToken1_rest: "AddToken1 type c inc toks cs = Inr (Some (toks', rest)) \<Longrightarrow> rest = cs"
  by (auto simp: AddToken1_def dest: finish_Some)

lemma skip_pair_suffix: "suffix (skip_pair c cs) cs"
  by (auto simp: skip_pair_def suffix_def split: list.split)

lemma next_token_rest:
  assumes "next_token load e inc toks ch cs = Inr (Some (toks', rest))"
  shows "suffix rest cs"
proof -
  have w: "c_isalpha ch \<Longrightarrow> word_char ch" by (simp add: word_char_def)
  note laws = comment.rest [OF refl] num.rest space.rest str.rest [OF refl] LoadTokenWord_rest [OF w]
  from assms show ?thesis
    unfolding next_token_def
    by (auto simp: skip_pair_suffix dest: laws AddToken1_rest split: if_splits)
qed

function load_loop :: "loader \<Rightarrow> lex_env \<Rightarrow> nat \<Rightarrow> token list \<Rightarrow> string \<Rightarrow> token list option outcome" where
  "load_loop load e inc toks [] = Inr (Some toks)"
| "load_loop load e inc toks (ch # cs) =
     bindr (next_token load e inc toks ch cs) (\<lambda>(toks', rest). load_loop load e inc toks' rest)"
  by pat_completeness auto

termination
  by (relation "measure (\<lambda>(load, e, inc, toks, cs). length cs)")
     (auto dest!: next_token_rest suffix_length_le)

text \<open>
  \<open>LoadTokens\<close> on one text, with the number of files that may be open at once: an include opens the
  file while the including one is still open, and nothing in the code limits the nesting.
\<close>

primrec LoadTokens :: "nat \<Rightarrow> lex_env \<Rightarrow> nat \<Rightarrow> string \<Rightarrow> token list \<Rightarrow> token list option outcome" where
  "LoadTokens 0 e inc txt toks = Inl OutOfFuel"
| "LoadTokens (Suc n) e inc txt toks = load_loop (LoadTokens n e) e inc toks txt"


section \<open>Tokens are only added, at the level of their file\<close>

definition added :: "nat \<Rightarrow> token list \<Rightarrow> token list \<Rightarrow> bool" where
  "added inc toks toks' \<longleftrightarrow> (\<exists>new. toks' = toks @ new \<and> (\<forall>t \<in> set new. inc \<le> t_include t))"

lemma added_refl [simp]: "added inc toks toks"
  by (simp add: added_def)

lemma added_trans: "added inc xs ys \<Longrightarrow> added inc ys zs \<Longrightarrow> added inc xs zs"
  unfolding added_def by (elim exE conjE, intro exI conjI, simp) auto

lemma added_snoc [simp]: "added inc toks (toks @ [t]) \<longleftrightarrow> inc \<le> t_include t"
  by (simp add: added_def)

lemma levelled_added: "levelled load \<Longrightarrow> load inc s toks = Inr (Some toks') \<Longrightarrow> added inc toks toks'"
  by (simp add: levelled_def added_def)

lemma finish_added: "finish type inc toks br = Inr (Some (toks', rest)) \<Longrightarrow> added inc toks toks'"
  by (cases br) (auto dest: finish_Some)

lemma LoadTokenInclude_added:
  assumes "levelled load" and "LoadTokenInclude load e inc toks cs = Inr (Some (toks', rest))"
  shows "added inc toks toks'"
  using assms(2)
proof (rule LoadTokenInclude_Some)
  fix c cs0 sp cs1 f p infile
  assume a: "cs = c # cs0" "c_isblank c" "LoadTokenSpace inc toks cs = Inr (Some (toks @ [sp], QUOTE # cs1))"
    and l: "load (inc + 1) infile (toks @ [sp, \<lparr>t_include = inc, t_type = TokenString, t_value = cstr f\<rparr>,
       \<lparr>t_include = inc, t_type = TokenEOL, t_value = [LF]\<rparr>]) = Inr (Some toks')"
  from space.one_token a have "t_include sp = inc" by blast
  moreover have "added (inc + 1) (toks @ [sp, \<lparr>t_include = inc, t_type = TokenString, t_value = cstr f\<rparr>,
       \<lparr>t_include = inc, t_type = TokenEOL, t_value = [LF]\<rparr>]) toks'"
    using levelled_added [OF assms(1) l] .
  ultimately show ?thesis by (fastforce simp: added_def Suc_le_eq intro: less_imp_le)
qed

lemma LoadTokenWord_added:
  assumes "levelled load" and "LoadTokenWord load e inc toks cs = Inr (Some (toks', rest))"
  shows "added inc toks toks'"
proof -
  from assms(2) obtain b r where k: "(if r = [] then finish TokenWord inc toks (b, r)
       else if cstr b = ''include'' then
         bindr (AddToken TokenWord b inc toks) (\<lambda>toks1. LoadTokenInclude load e inc toks1 r)
       else if is_bool_word (cstr b) then finish TokenBool inc toks (b, r)
       else finish TokenWord inc toks (b, r)) = Inr (Some (toks', rest))"
    by (auto simp: LoadTokenWord_def)
  consider (inc) toks1 where "AddToken TokenWord b inc toks = Inr (Some toks1)"
      "LoadTokenInclude load e inc toks1 r = Inr (Some (toks', rest))"
    | (fin) type where "finish type inc toks (b, r) = Inr (Some (toks', rest))"
    using k by (auto split: if_splits)
  then show ?thesis
  proof cases
    case inc
    then have "added inc toks toks1" by (auto simp: AddToken_Some)
    from this LoadTokenInclude_added [OF assms(1) inc(2)] show ?thesis by (rule added_trans)
  next
    case fin
    then show ?thesis by (rule finish_added)
  qed
qed

lemma next_token_added:
  assumes "levelled load" and "next_token load e inc toks ch cs = Inr (Some (toks', rest))"
  shows "added inc toks toks'"
proof -
  note one = comment.one_token [OF refl] num.one_token space.one_token str.one_token [OF refl]
  from assms(2) show ?thesis
    unfolding next_token_def AddToken1_def
    by (auto simp: added_def dest: one finish_added LoadTokenWord_added [OF assms(1)] split: if_splits)
qed

lemma load_loop_added:
  "levelled load \<Longrightarrow> load_loop load e inc toks cs = Inr (Some toks') \<Longrightarrow> added inc toks toks'"
proof (induction load e inc toks cs rule: load_loop.induct)
  case (2 load e inc toks ch cs)
  from 2(3) obtain toks1 rest where n: "next_token load e inc toks ch cs = Inr (Some (toks1, rest))"
    and l: "load_loop load e inc toks1 rest = Inr (Some toks')" by auto
  from 2(1) [OF n refl 2(2) l] next_token_added [OF 2(2) n] show ?case by (rule added_trans [rotated])
qed simp

lemma levelled_iff:
  "levelled load \<longleftrightarrow> (\<forall>inc s toks toks'. load inc s toks = Inr (Some toks') \<longrightarrow> added inc toks toks')"
  by (simp add: levelled_def added_def)

lemma LoadTokens_levelled: "levelled (LoadTokens n e)"
proof (induction n)
  case (Suc n)
  then show ?case
    unfolding levelled_iff [of "LoadTokens (Suc n) e"] by (simp add: load_loop_added)
qed (simp add: levelled_def)

section \<open>Saving what was loaded\<close>

text \<open>The include statements of the loaded file itself: a last word \<open>include\<close> ends the file and opens none.\<close>

definition is_include_stmt :: "token \<Rightarrow> bool" where
  "is_include_stmt t \<longleftrightarrow> t_include t = 0 \<and> t_type t = TokenWord \<and> t_value t = ''include''"

definition include_stmts :: "token list \<Rightarrow> nat" where
  "include_stmts toks = length (filter is_include_stmt (butlast toks))"

fun join_lines :: "string list \<Rightarrow> string" where
  "join_lines [] = []"
| "join_lines [p] = p"
| "join_lines (p # q # ps) = p @ LF # join_lines (q # ps)"

text \<open>\<open>new\<close> prints as \<open>s\<close> with one line feed added after each of its \<open>k\<close> include statements.\<close>

definition prints_with_breaks :: "string \<Rightarrow> token list \<Rightarrow> nat \<Rightarrow> bool" where
  "prints_with_breaks s new k \<longleftrightarrow> (\<exists>ps. s = concat ps \<and> SaveTokens new = join_lines ps \<and> length ps = Suc k)"

lemma join_lines_prefix: "ps \<noteq> [] \<Longrightarrow> join_lines ((u @ hd ps) # tl ps) = u @ join_lines ps"
  by (cases ps rule: join_lines.cases) auto

lemma prints_plain:
  assumes "prints_with_breaks s new k" "SaveTokens new1 = u"
  shows "prints_with_breaks (u @ s) (new1 @ new) k"
proof -
  from assms(1) obtain ps where ps: "s = concat ps" "SaveTokens new = join_lines ps" "length ps = Suc k"
    by (auto simp: prints_with_breaks_def)
  then obtain p qs where "ps = p # qs" by (cases ps) auto
  with ps assms(2) show ?thesis
    unfolding prints_with_breaks_def
    by (intro exI [of _ "(u @ p) # qs"]) (use join_lines_prefix [of ps u] in auto)
qed

lemma prints_break:
  assumes "prints_with_breaks s new k" "SaveTokens new1 = u @ [LF]"
  shows "prints_with_breaks (u @ s) (new1 @ new) (Suc k)"
proof -
  from assms(1) obtain ps where ps: "s = concat ps" "SaveTokens new = join_lines ps" "length ps = Suc k"
    by (auto simp: prints_with_breaks_def)
  then obtain p qs where "ps = p # qs" by (cases ps) auto
  with ps assms(2) show ?thesis
    unfolding prints_with_breaks_def by (intro exI [of _ "u # ps"]) auto
qed

lemma prints_empty: "prints_with_breaks [] [] 0"
  unfolding prints_with_breaks_def by (intro exI [of _ "[[]]"]) (simp add: SaveTokens_def)


definition piece :: "string \<Rightarrow> string \<Rightarrow> token list \<Rightarrow> bool" where
  "piece u rest new \<longleftrightarrow> new \<noteq> [] \<and>
     (SaveTokens new = u \<and> (filter is_include_stmt new = [] \<or> rest = [] \<and> length new = 1) \<or>
      SaveTokens new = u @ [LF] \<and>
        (\<exists>t new'. new = t # new' \<and> is_include_stmt t \<and> new' \<noteq> [] \<and> filter is_include_stmt new' = []))"

lemma piece_single:
  "t_type t \<noteq> TokenWord \<or> t_value t \<noteq> ''include'' \<or> rest = [] \<Longrightarrow> print_token t = u \<Longrightarrow> piece u rest [t]"
  by (auto simp: piece_def is_include_stmt_def SaveTokens_def)

lemma SaveTokens_deeper: "\<forall>t \<in> set toks. 0 < t_include t \<Longrightarrow> SaveTokens toks = []"
  by (auto simp: SaveTokens_def print_token_def)

lemma LoadTokenInclude_piece:
  assumes lev: "levelled load"
    and run: "LoadTokenInclude load e 0 toks cs = Inr (Some (toks', rest))" and nn: "is_cstr cs"
  shows "\<exists>u new. cs = u @ rest \<and> toks' = toks @ new \<and> SaveTokens new = u @ [LF] \<and> new \<noteq> [] \<and>
    filter is_include_stmt new = []"
  using run
proof (rule LoadTokenInclude_Some)
  fix c cs0 sp cs1 f p infile
  assume a: "cs = c # cs0" "c_isblank c" "LoadTokenSpace 0 toks cs = Inr (Some (toks @ [sp], QUOTE # cs1))"
    and f: "cs1 = f @ QUOTE # rest"
    and l: "load (0 + 1) infile (toks @ [sp, \<lparr>t_include = 0, t_type = TokenString, t_value = cstr f\<rparr>,
       \<lparr>t_include = 0, t_type = TokenEOL, t_value = [LF]\<rparr>]) = Inr (Some toks')"
  from levelled_added [OF lev l] obtain new where
    new: "toks' = toks @ [sp, \<lparr>t_include = 0, t_type = TokenString, t_value = cstr f\<rparr>,
       \<lparr>t_include = 0, t_type = TokenEOL, t_value = [LF]\<rparr>] @ new" "\<forall>t \<in> set new. 0 < t_include t"
    by (auto simp: added_def Suc_le_eq)
  from space.lossless [of c toks cs0] a nn obtain t where "[sp] = [t]" "t_type t \<noteq> TokenWord"
      "cs = print_token t @ QUOTE # cs1" by auto
  moreover from this nn f have "is_cstr f" by simp
  moreover have "filter is_include_stmt new = []"
    using new(2) by (auto simp: filter_empty_conv is_include_stmt_def)
  ultimately show ?thesis
    using new f SaveTokens_deeper [OF new(2)]
    by (intro exI [of _ "print_token sp @ QUOTE # f @ [QUOTE]"] exI [of _ "[sp, \<lparr>t_include = 0, t_type = TokenString, t_value = f\<rparr>,
       \<lparr>t_include = 0, t_type = TokenEOL, t_value = [LF]\<rparr>] @ new"])
       (simp add: SaveTokens_def print_token_def is_include_stmt_def)
qed

lemma LoadTokenWord_piece:
  assumes lev: "levelled load" and c: "word_char c" and nn: "is_cstr (c # cs)"
    and run: "LoadTokenWord load e 0 toks (c # cs) = Inr (Some (toks', rest))"
  shows "\<exists>u new. c # cs = u @ rest \<and> toks' = toks @ new \<and> piece u rest new"
proof -
  from run obtain b r where s: "scan_while word_char [] (c # cs) = Inr (b, r)" and
    k: "(if r = [] then finish TokenWord 0 toks (b, r)
       else if cstr b = ''include'' then
         bindr (AddToken TokenWord b 0 toks) (\<lambda>toks1. LoadTokenInclude load e 0 toks1 r)
       else if is_bool_word (cstr b) then finish TokenBool 0 toks (b, r)
       else finish TokenWord 0 toks (b, r)) = Inr (Some (toks', rest))"
    by (auto simp: LoadTokenWord_def)
  from scan_while_split [OF s] have sp: "c # cs = b @ r" by auto
  with nn have b: "is_cstr b" "is_cstr r" using is_cstr_parts(1) by metis+
  consider (inc) "b = ''include''"
      "LoadTokenInclude load e 0 (toks @ [\<lparr>t_include = 0, t_type = TokenWord, t_value = b\<rparr>]) r = Inr (Some (toks', rest))"
    | (fin) type where "type \<noteq> TokenString" "type \<noteq> TokenWord \<or> b \<noteq> ''include'' \<or> r = []"
        "finish type 0 toks (b, r) = Inr (Some (toks', rest))"
    using k b by (auto simp: AddToken_Some split: if_splits)
  then show ?thesis
  proof cases
    case inc
    from LoadTokenInclude_piece [OF lev inc(2) b(2)] obtain u new where
      "r = u @ rest" "toks' = (toks @ [\<lparr>t_include = 0, t_type = TokenWord, t_value = b\<rparr>]) @ new"
      "SaveTokens new = u @ [LF]" "new \<noteq> []" "filter is_include_stmt new = []" by blast
    with sp inc(1) show ?thesis
      by (intro exI [of _ "b @ u"] exI [of _ "\<lparr>t_include = 0, t_type = TokenWord, t_value = b\<rparr> # new"])
         (auto simp: piece_def is_include_stmt_def SaveTokens_def print_token_def)
  next
    case fin
    from finish_Some [OF fin(3)] fin(1,2) b sp show ?thesis
      by (intro exI [of _ b] exI [of _ "[\<lparr>t_include = 0, t_type = type, t_value = b\<rparr>]"])
         (auto intro!: piece_single simp: print_token_def)
  qed
qed


lemma AddToken1_piece:
  assumes "AddToken1 type c 0 toks cs = Inr (Some (toks', rest))"
    and "type \<noteq> TokenString" "type \<noteq> TokenWord" "c \<noteq> NUL"
  shows "rest = cs \<and> toks' = toks @ [\<lparr>t_include = 0, t_type = type, t_value = [c]\<rparr>] \<and>
    piece [c] rest [\<lparr>t_include = 0, t_type = type, t_value = [c]\<rparr>]"
  using assms by (auto simp: AddToken1_def cstr_def print_token_def intro!: piece_single dest: finish_Some)

text \<open>\<open>s'\<close> is \<open>s\<close> but for line ends, each a carriage return, alone or with a line feed before or after it, that are a line feed in \<open>s'\<close>.\<close>

inductive line_ends :: "string \<Rightarrow> string \<Rightarrow> bool" where
  line_ends_Nil: "line_ends [] []"
| line_ends_same: "line_ends s s' \<Longrightarrow> line_ends (c # s) (c # s')"
| line_ends_CR: "line_ends s s' \<Longrightarrow> line_ends (CR # s) (LF # s')"
| line_ends_CRLF: "line_ends s s' \<Longrightarrow> line_ends (CR # LF # s) (LF # s')"
| line_ends_LFCR: "line_ends s s' \<Longrightarrow> line_ends (LF # CR # s) (LF # s')"

lemma line_ends_append: "line_ends u u' \<Longrightarrow> line_ends v v' \<Longrightarrow> line_ends (u @ v) (u' @ v')"
  by (induction rule: line_ends.induct) (auto intro: line_ends.intros)

lemma line_ends_refl: "line_ends s s"
  by (induction s) (auto intro: line_ends.intros)

lemma line_ends_plain: "line_ends s s' \<Longrightarrow> CR \<notin> set s \<Longrightarrow> s' = s"
  by (induction rule: line_ends.induct) auto

lemma AddToken1_eol:
  assumes "AddToken1 TokenEOL LF 0 toks (skip_pair c cs) = Inr (Some (toks', rest))" "ch = CR \<and> c = LF \<or> ch = LF \<and> c = CR"
  shows "\<exists>u u' new. ch # cs = u @ rest \<and> line_ends u u' \<and> toks' = toks @ new \<and> piece u' rest new"
proof -
  let ?t = "\<lparr>t_include = 0, t_type = TokenEOL, t_value = [LF]\<rparr>"
  have "rest = skip_pair c cs \<and> toks' = toks @ [?t] \<and> piece [LF] rest [?t]"
    by (rule AddToken1_piece [OF assms(1)]) (simp_all add: NUL_def)
  then have p: "rest = skip_pair c cs" "toks' = toks @ [?t]" "piece [LF] rest [?t]" by blast+
  have "line_ends [LF] [LF]" by (rule line_ends_refl)
  moreover have "line_ends [CR] [LF]" "line_ends [CR, LF] [LF]" "line_ends [LF, CR] [LF]"
    by (intro line_ends.intros)+
  ultimately have "line_ends [ch] [LF]" "line_ends [ch, c] [LF]" using assms(2) by auto
  moreover have "ch # cs = [ch] @ rest \<or> ch # cs = [ch, c] @ rest" by (cases cs) (auto simp: p(1) skip_pair_def)
  ultimately show ?thesis using p(2,3) by blast
qed

lemma next_token_piece:
  assumes lev: "levelled load" and nn: "is_cstr (ch # cs)"
    and run: "next_token load e 0 toks ch cs = Inr (Some (toks', rest))"
  shows "\<exists>u u' new. ch # cs = u @ rest \<and> line_ends u u' \<and> toks' = toks @ new \<and> piece u' rest new"
proof -
  have one: ?thesis if "\<exists>t. toks' = toks @ [t] \<and> t_include t = 0 \<and> t_type t \<noteq> TokenWord \<and> ch # cs = print_token t @ rest"
    using that piece_single line_ends_refl by blast
  have w: ?thesis if "c_isalpha ch" "LoadTokenWord load e 0 toks (ch # cs) = Inr (Some (toks', rest))"
    using LoadTokenWord_piece [OF lev _ nn that(2)] that(1) line_ends_refl by (simp add: word_char_def) blast
  have a: ?thesis if "AddToken1 type ch 0 toks cs = Inr (Some (toks', rest))"
      "type \<noteq> TokenString" "type \<noteq> TokenWord" for type
    using AddToken1_piece [OF that] nn line_ends_refl by (intro exI [of _ "[ch]"]) auto
  consider
      "ch = CHR ''#''" "LoadTokenComment 0 toks (ch # cs) = Inr (Some (toks', rest))"
    | "c_isalpha ch" "LoadTokenWord load e 0 toks (ch # cs) = Inr (Some (toks', rest))"
    | "c_strchr num_chars ch" "LoadTokenNum 0 toks (ch # cs) = Inr (Some (toks', rest))"
    | "c_isblank ch" "LoadTokenSpace 0 toks (ch # cs) = Inr (Some (toks', rest))"
    | "ch = QUOTE" "LoadTokenString 0 toks (ch # cs) = Inr (Some (toks', rest))"
    | type where "AddToken1 type ch 0 toks cs = Inr (Some (toks', rest))"
      "type \<noteq> TokenString" "type \<noteq> TokenWord"
    | c where "AddToken1 TokenEOL LF 0 toks (skip_pair c cs) = Inr (Some (toks', rest))" "ch = CR \<and> c = LF \<or> ch = LF \<and> c = CR"
    using run unfolding next_token_def by (auto split: if_splits)
  then show ?thesis
  proof cases
    case 1 then show ?thesis by (intro one comment.lossless nn)
  next
    case 2 then show ?thesis by (rule w)
  next
    case 3 then show ?thesis by (intro one num.lossless nn)
  next
    case 4 then show ?thesis by (intro one space.lossless nn)
  next
    case 5 then show ?thesis by (intro one str.lossless nn)
  next
    case 6 then show ?thesis by (rule a)
  next
    case 7 then show ?thesis by (rule AddToken1_eol)
  qed
qed

lemma filter_butlast_empty: "filter P xs = [] \<Longrightarrow> filter P (butlast xs) = []"
  by (metis filter_empty_conv in_set_butlastD)

lemma load_loop_prints:
  "levelled load \<Longrightarrow> is_cstr cs \<Longrightarrow> load_loop load e 0 toks cs = Inr (Some toks') \<Longrightarrow>
   \<exists>cs' new. line_ends cs cs' \<and> toks' = toks @ new \<and> (new = [] \<longleftrightarrow> cs = []) \<and> prints_with_breaks cs' new (include_stmts new)"
proof (induction load e "0 :: nat" toks cs arbitrary: toks' rule: load_loop.induct)
  case (1 load e toks)
  then show ?case by (auto simp: prints_empty include_stmts_def intro: line_ends_Nil)
next
  case (2 load e toks ch cs)
  from 2(4) obtain toks1 rest where n: "next_token load e 0 toks ch cs = Inr (Some (toks1, rest))"
    and l: "load_loop load e 0 toks1 rest = Inr (Some toks')" by auto
  from next_token_piece [OF 2(2,3) n] obtain u u' new1 where
    u: "ch # cs = u @ rest" "toks1 = toks @ new1" and le: "line_ends u u'" and pc: "piece u' rest new1" by blast
  have "is_cstr rest" using 2(3) unfolding u by auto
  from 2(1) [OF n refl 2(2) this l] obtain rest' new2 where
    new2: "toks' = toks1 @ new2" "new2 = [] \<longleftrightarrow> rest = []" "prints_with_breaks rest' new2 (include_stmts new2)" "line_ends rest rest'" by blast
  have "prints_with_breaks (u' @ rest') (new1 @ new2) (include_stmts (new1 @ new2))"
  proof (cases "SaveTokens new1 = u'")
    case True
    with pc have "include_stmts (new1 @ new2) = include_stmts new2"
      using new2(2) filter_butlast_empty [of is_include_stmt new1]
      by (auto simp: piece_def include_stmts_def butlast_append length_Suc_conv)
    with prints_plain [OF new2(3) True] show ?thesis by simp
  next
    case False
    with pc have br: "SaveTokens new1 = u' @ [LF]" "include_stmts (new1 @ new2) = Suc (include_stmts new2)"
      by (auto simp: piece_def include_stmts_def butlast_append filter_butlast_empty)
    with prints_break [OF new2(3) br(1)] show ?thesis by simp
  qed
  moreover have "new1 \<noteq> []" using pc by (simp add: piece_def)
  moreover have "line_ends (ch # cs) (u' @ rest')" unfolding u(1) by (rule line_ends_append [OF le new2(4)])
  ultimately show ?case using u(2) new2(1) by (intro exI [of _ "u' @ rest'"] exI [of _ "new1 @ new2"]) auto
qed



definition env1 :: lex_env where
  "env1 = \<lparr>read_file = (\<lambda>p. if p = ''/etc/common.inc'' then Some ''a 1'' else None), cwd = None, self_name = ''/etc/p.cfg''\<rparr>"

definition cfg1 :: string where
  "cfg1 = ''include '' @ [QUOTE] @ ''common.inc'' @ [QUOTE] @ '' #x'' @ [LF] @ ''driver ( k [1 -2.5] )''"

lemmas lex_simps = c_isalpha_def c_isdigit_def c_isblank_def c_strchr_def num_chars_def word_char_def TOKEN_BUF_def
  NUL_def finish_def AddToken_def AddToken1_def is_cstr_def cstr_def next_token_def LoadTokenComment_def
  LoadTokenNum_def LoadTokenSpace_def LoadTokenString_def LoadTokenWord_def LoadTokenInclude_def GetTokenValue_def
  is_bool_word_def skip_pair_def include_path_def is_absolute_def first_char_def dirname_def strip_slashes_def
  in_path_buffer_def PATH_LIMIT_def

definition toks1 :: "token list" where
  "toks1 = [\<lparr>t_include = 0, t_type = TokenWord, t_value = ''include''\<rparr>, \<lparr>t_include = 0, t_type = TokenSpace, t_value = '' ''\<rparr>,
    \<lparr>t_include = 0, t_type = TokenString, t_value = ''common.inc''\<rparr>, \<lparr>t_include = 0, t_type = TokenEOL, t_value = [LF]\<rparr>,
    \<lparr>t_include = 1, t_type = TokenWord, t_value = ''a''\<rparr>, \<lparr>t_include = 1, t_type = TokenSpace, t_value = '' ''\<rparr>,
    \<lparr>t_include = 1, t_type = TokenNum, t_value = ''1''\<rparr>, \<lparr>t_include = 0, t_type = TokenSpace, t_value = '' ''\<rparr>,
    \<lparr>t_include = 0, t_type = TokenComment, t_value = ''#x''\<rparr>, \<lparr>t_include = 0, t_type = TokenEOL, t_value = [LF]\<rparr>,
    \<lparr>t_include = 0, t_type = TokenWord, t_value = ''driver''\<rparr>, \<lparr>t_include = 0, t_type = TokenSpace, t_value = '' ''\<rparr>,
    \<lparr>t_include = 0, t_type = TokenOpenSection, t_value = ''(''\<rparr>, \<lparr>t_include = 0, t_type = TokenSpace, t_value = '' ''\<rparr>,
    \<lparr>t_include = 0, t_type = TokenWord, t_value = ''k''\<rparr>, \<lparr>t_include = 0, t_type = TokenSpace, t_value = '' ''\<rparr>,
    \<lparr>t_include = 0, t_type = TokenOpenTuple, t_value = ''[''\<rparr>, \<lparr>t_include = 0, t_type = TokenNum, t_value = ''1''\<rparr>,
    \<lparr>t_include = 0, t_type = TokenSpace, t_value = '' ''\<rparr>, \<lparr>t_include = 0, t_type = TokenNum, t_value = ''-2.5''\<rparr>,
    \<lparr>t_include = 0, t_type = TokenCloseTuple, t_value = '']''\<rparr>, \<lparr>t_include = 0, t_type = TokenSpace, t_value = '' ''\<rparr>,
    \<lparr>t_include = 0, t_type = TokenCloseSection, t_value = '')''\<rparr>]"

lemma load_cfg1: "LoadTokens 2 env1 0 cfg1 [] = Inr (Some toks1)"
  by (simp add: cfg1_def toks1_def env1_def numeral_2_eq_2 lex_simps)


section \<open>Nesting depth of includes\<close>

text \<open>\<open>T\<close> may include \<open>T'\<close>: a quoted string of \<open>T\<close> names a file with the text \<open>T'\<close>.\<close>

definition includes_file :: "lex_env \<Rightarrow> string \<Rightarrow> string \<Rightarrow> bool" where
  "includes_file e T T' \<longleftrightarrow>
     (\<exists>f p. sublist (QUOTE # f @ [QUOTE]) T \<and> include_path e (cstr f) = Inr p \<and> read_file e p = Some T')"

lemma includes_file_suffix: "includes_file e cs T' \<Longrightarrow> suffix cs T \<Longrightarrow> includes_file e T T'"
  unfolding includes_file_def by (meson sublist_order.order_trans suffix_imp_sublist)

lemma scan_while_fuel [simp]: "scan_while P buf cs \<noteq> Inl OutOfFuel"
  by (induction P buf cs rule: scan_while.induct) auto

lemma AddToken_fuel [simp]: "AddToken t b inc toks \<noteq> Inl OutOfFuel"
  by (auto simp: AddToken_def)

lemma finish_fuel [simp]: "finish t inc toks br \<noteq> Inl OutOfFuel"
  by (cases br) (auto simp: finish_def bindr_Inl)

lemma LoadTokenSpace_fuel [simp]: "LoadTokenSpace inc toks cs \<noteq> Inl OutOfFuel"
  by (auto simp: LoadTokenSpace_def bindo_Inl_iff)

lemma LoadTokenString_fuel [simp]: "LoadTokenString inc toks cs \<noteq> Inl OutOfFuel"
  by (auto simp: LoadTokenString_def bindo_Inl_iff split: list.split)

lemma include_path_fuel [simp]: "include_path e f \<noteq> Inl OutOfFuel"
  by (auto simp: include_path_def in_path_buffer_def split: option.split)

lemma LoadTokenInclude_fuel:
  assumes "LoadTokenInclude load e inc toks cs = Inl OutOfFuel"
  shows "\<exists>T' toks'. includes_file e cs T' \<and> load (inc + 1) T' toks' = Inl OutOfFuel"
proof -
  from assms obtain c cs0 where cs: "cs = c # cs0" "c_isblank c"
    by (cases cs) (auto simp: LoadTokenInclude_def split: if_splits)
  with assms obtain toks1 cs' where sp: "LoadTokenSpace inc toks cs = Inr (Some (toks1, cs'))"
      and k: "(case cs' of [] \<Rightarrow> Inr None
            | ch1 # _ \<Rightarrow>
                if ch1 \<noteq> QUOTE then Inr None
                else bindr (LoadTokenString inc toks1 cs') (\<lambda>(toks2, cs2).
                  bindo (GetTokenValue toks2 (length toks2 - 1)) (\<lambda>filename.
                  bindo (include_path e filename) (\<lambda>fullpath.
                    case read_file e fullpath of
                      None \<Rightarrow> Inr None
                    | Some infile \<Rightarrow>
                        bindr (AddToken TokenEOL [LF] inc toks2) (\<lambda>toks3.
                        bindr (load (inc + 1) infile toks3) (\<lambda>toks4.
                          Inr (Some (toks4, cs2)))))))) = Inl OutOfFuel"
    unfolding LoadTokenInclude_def
    by (simp only: list.case if_False bindr_Inl LoadTokenSpace_fuel not_True_eq_False) auto
  from k obtain cs1 where cs1: "cs' = QUOTE # cs1"
    by (cases cs') (auto split: if_splits)
  with k obtain toks2 rest where st: "LoadTokenString inc toks1 (QUOTE # cs1) = Inr (Some (toks2, rest))"
    and k2: "bindo (GetTokenValue toks2 (length toks2 - 1)) (\<lambda>filename.
                  bindo (include_path e filename) (\<lambda>fullpath.
                    case read_file e fullpath of
                      None \<Rightarrow> Inr None
                    | Some infile \<Rightarrow>
                        bindr (AddToken TokenEOL [LF] inc toks2) (\<lambda>toks3.
                        bindr (load (inc + 1) infile toks3) (\<lambda>toks4.
                          Inr (Some (toks4, rest)))))) = Inl OutOfFuel"
    by (auto simp: bindr_Inl)
  from LoadTokenString_Some [OF st] obtain f where f: "cs1 = f @ QUOTE # rest"
      "toks2 = toks1 @ [\<lparr>t_include = inc, t_type = TokenString, t_value = cstr f\<rparr>]" .
  have "GetTokenValue toks2 (length toks2 - 1) = Inr (cstr f)"
    unfolding f(2) by (simp add: GetTokenValue_def)
  with k2 obtain p infile toks3 where p: "include_path e (cstr f) = Inr p" "read_file e p = Some infile"
      "load (inc + 1) infile toks3 = Inl OutOfFuel"
    by (auto simp: bindo_Inl_iff bindr_Inl split: option.splits)
  from space.rest [of c inc toks cs0] sp cs have "suffix cs' cs"
    by (auto intro: suffix_ConsI)
  moreover have "cs' = (QUOTE # f @ [QUOTE]) @ rest" using cs1 f by simp
  then have "sublist (QUOTE # f @ [QUOTE]) cs'" by (auto intro: prefix_imp_sublist)
  ultimately show ?thesis
    using p unfolding includes_file_def by (meson sublist_order.order_trans suffix_imp_sublist)
qed

lemma LoadTokenWord_fuel:
  assumes "LoadTokenWord load e inc toks cs = Inl OutOfFuel"
  shows "\<exists>T' toks'. includes_file e cs T' \<and> load (inc + 1) T' toks' = Inl OutOfFuel"
proof -
  from assms obtain b r toks1 where s: "scan_while word_char [] cs = Inr (b, r)"
      and i: "LoadTokenInclude load e inc toks1 r = Inl OutOfFuel"
    by (auto simp: LoadTokenWord_def bindo_Inl_iff bindr_Inl split: if_splits)
  from scan_while_split [OF s] have "suffix r cs" by (auto simp: suffix_def)
  with LoadTokenInclude_fuel [OF i] show ?thesis using includes_file_suffix by blast
qed

lemma next_token_fuel:
  assumes "next_token load e inc toks ch cs = Inl OutOfFuel"
  shows "\<exists>T' toks'. includes_file e (ch # cs) T' \<and> load (inc + 1) T' toks' = Inl OutOfFuel"
proof -
  have "LoadTokenWord load e inc toks (ch # cs) = Inl OutOfFuel"
    using assms unfolding next_token_def AddToken1_def
    by (auto simp: LoadTokenComment_def LoadTokenNum_def bindo_Inl_iff split: if_splits)
  then show ?thesis by (rule LoadTokenWord_fuel)
qed

lemma load_loop_fuel:
  "load_loop load e inc toks cs = Inl OutOfFuel \<Longrightarrow>
   \<exists>T' toks'. includes_file e cs T' \<and> load (inc + 1) T' toks' = Inl OutOfFuel"
proof (induction load e inc toks cs rule: load_loop.induct)
  case (2 load e inc toks ch cs)
  note IH = 2(1)
  from 2(2) consider "next_token load e inc toks ch cs = Inl OutOfFuel"
    | toks1 rest where "next_token load e inc toks ch cs = Inr (Some (toks1, rest))"
        "load_loop load e inc toks1 rest = Inl OutOfFuel"
    by (auto simp: bindr_Inl)
  then show ?case
  proof cases
    case 1
    then show ?thesis by (rule next_token_fuel)
  next
    case 2
    from IH [OF this(1) refl this(2)] next_token_rest [OF this(1)] show ?thesis
      by (meson includes_file_suffix suffix_ConsI)
  qed
qed simp

text \<open>C31: Loading ends whenever the include graph has no cycle: if a rank decreases along every possible inclusion, then
  as many nested files as the rank of the loaded text says are enough, so loading returns (with the tokens, with an error,
  or with one of the recorded faults) instead of recursing on.\<close>

theorem LoadTokens_terminates:
  assumes "\<And>T T'. includes_file e T T' \<Longrightarrow> rank T' < rank T" and "rank src < n"
  shows "LoadTokens n e inc src toks \<noteq> Inl OutOfFuel"
  using assms(2)
proof (induction n arbitrary: inc src toks)
  case (Suc n)
  show ?case
  proof
    assume "LoadTokens (Suc n) e inc src toks = Inl OutOfFuel"
    with load_loop_fuel obtain T' toks' where "includes_file e src T'" "LoadTokens n e (inc + 1) T' toks' = Inl OutOfFuel"
      by fastforce
    with Suc.IH [of T' "inc + 1" toks'] Suc.prems assms(1) [of src T'] show False by linarith
  qed
qed simp

lemma env1_includes: "includes_file env1 T T' \<Longrightarrow> T' = ''a 1'' \<and> QUOTE \<in> set T"
  by (auto simp: includes_file_def env1_def sublist_def split: if_splits)

theorem LoadTokens_terminates_witness: "LoadTokens 2 env1 0 cfg1 [] \<noteq> Inl OutOfFuel"
proof (rule LoadTokens_terminates [where rank = "\<lambda>T. if QUOTE \<in> set T then 1 else 0"])
  fix T T' assume "includes_file env1 T T'"
  from env1_includes [OF this] show "(if QUOTE \<in> set T' then 1 else 0 :: nat) < (if QUOTE \<in> set T then 1 else 0)"
    by simp
qed (simp add: cfg1_def)

section \<open>Inputs the tokeniser handles badly\<close>

text \<open>A file that includes itself is opened again at every level: no nesting bound is ever enough.\<close>

definition self_including :: string where
  "self_including = ''include '' @ [QUOTE] @ ''/a'' @ [QUOTE]"

lemma self_include_never_ends:
  assumes "read_file e ''/a'' = Some self_including"
  shows "LoadTokens n e inc self_including toks = Inl OutOfFuel"
proof (induction n arbitrary: inc toks)
  case (Suc n)
  with assms show ?case by (simp add: self_including_def lex_simps nth_append)
qed simp

text \<open>A Boolean word is one only if a character follows it: at the end of the file it is a plain word.\<close>

lemma bool_at_end_of_file:
  "LoadTokens 1 e 0 ''true'' [] = Inr (Some [\<lparr>t_include = 0, t_type = TokenWord, t_value = ''true''\<rparr>])"
  "LoadTokens 1 e 0 ''true '' [] = Inr (Some
     [\<lparr>t_include = 0, t_type = TokenBool, t_value = ''true''\<rparr>, \<lparr>t_include = 0, t_type = TokenSpace, t_value = '' ''\<rparr>])"
  by (simp_all add: lex_simps)

text \<open>The buffer of a token holds 1024 characters; a longer comment is written past its end.\<close>

lemma scan_while_overflow:
  "length buf \<le> TOKEN_BUF \<Longrightarrow> TOKEN_BUF < length buf + length w \<Longrightarrow> \<forall>c \<in> set w. P c \<Longrightarrow>
   scan_while P buf (w @ rest) = Inl BufferOverflow"
proof (induction w arbitrary: buf)
  case (Cons c w)
  then show ?case by (cases "length buf < TOKEN_BUF") auto
qed simp

lemma long_comment_overflows:
  "LoadTokens (Suc n) e inc (CHR ''#'' # replicate 1024 CHR ''x'') toks = Inl BufferOverflow"
proof -
  have "scan_while (\<lambda>c. c \<noteq> LF \<and> c \<noteq> CR) [] ((CHR ''#'' # replicate 1024 CHR ''x'') @ []) = Inl BufferOverflow"
    by (rule scan_while_overflow) (auto simp: TOKEN_BUF_def)
  then show ?thesis by (simp add: next_token_def LoadTokenComment_def)
qed

end
