(* ===== verification/ConfigParser.thy ===== *)
theory ConfigParser
  imports ConfigLexer
begin

text \<open>
  The parser of \<open>libplayercore/configfile.cc\<close>: \<open>ParseTokens\<close> and the \<open>ParseToken...\<close> routines, which
  turn the token list into sections, fields and macros.  A routine that reports an error and returns
  \<open>false\<close> yields \<open>Inr None\<close>.  Names of macros, sections and fields are pointers to the values of word
  tokens, which never change after parsing, so they are modelled by the strings themselves.
\<close>

section \<open>State\<close>

text \<open>The name pointers of a macro are null, and its start -1, if the definition did not give them.\<close>

record cmacro =
  macroname :: "string option"
  sectionname :: "string option"
  mc_line :: nat
  starttoken :: "nat option"
  endtoken :: nat

record csection =
  sc_parent :: int
  sc_type :: string

text \<open>\<open>None\<close> in \<open>fd_values\<close> and \<open>fd_useds\<close> is an element that \<open>realloc\<close> created and nothing has set.\<close>

record cfield =
  fd_section :: int
  fd_name :: string
  fd_values :: "nat option list"
  fd_useds :: "bool option list"
  fd_line :: nat

record cfg =
  tokens :: "token list"
  macros :: "cmacro list"
  sections :: "csection list"
  cfields :: "cfield list"
  plugins :: "string list"
  unit_length :: real
  unit_angle :: real
  default_host :: u32
  default_robot :: u32

section \<open>Macros, sections and fields\<close>

definition ClearSections :: "cfg \<Rightarrow> cfg" where
  "ClearSections c = c\<lparr>sections := []\<rparr>"

definition ClearFields :: "cfg \<Rightarrow> cfg" where
  "ClearFields c = c\<lparr>cfields := []\<rparr>"

definition AddMacro :: "string option \<Rightarrow> string option \<Rightarrow> nat \<Rightarrow> nat option \<Rightarrow> nat \<Rightarrow> cfg \<Rightarrow> cfg" where
  "AddMacro mn sn line st en c =
     c\<lparr>macros := macros c @ [\<lparr>macroname = mn, sectionname = sn, mc_line = line, starttoken = st, endtoken = en\<rparr>]\<rparr>"

text \<open>\<open>strcmp\<close> on the null name of an earlier macro is a fault.\<close>

fun LookupMacro_from :: "nat \<Rightarrow> cmacro list \<Rightarrow> string \<Rightarrow> nat option outcome" where
  "LookupMacro_from i [] name = Inr None"
| "LookupMacro_from i (m # ms) name =
     (case macroname m of
        None \<Rightarrow> Inl NullDeref
      | Some n \<Rightarrow> if n = name then Inr (Some i) else LookupMacro_from (i + 1) ms name)"

definition LookupMacro :: "cfg \<Rightarrow> string \<Rightarrow> nat option outcome" where
  "LookupMacro c name = LookupMacro_from 0 (macros c) name"

definition AddSection :: "int \<Rightarrow> string \<Rightarrow> cfg \<Rightarrow> int \<times> cfg" where
  "AddSection par type c =
     (int (length (sections c)), c\<lparr>sections := sections c @ [\<lparr>sc_parent = par, sc_type = type\<rparr>]\<rparr>)"

definition GetSectionCount :: "cfg \<Rightarrow> nat" where
  "GetSectionCount c = length (sections c)"

definition GetSectionParent :: "cfg \<Rightarrow> int \<Rightarrow> int" where
  "GetSectionParent c s =
     (if s < 0 \<or> int (length (sections c)) \<le> s then -1 else sc_parent (sections c ! nat s))"

definition GetSectionType :: "cfg \<Rightarrow> int \<Rightarrow> string option" where
  "GetSectionType c s =
     (if s < 0 \<or> int (length (sections c)) \<le> s then None else Some (sc_type (sections c ! nat s)))"

definition LookupSection :: "cfg \<Rightarrow> string \<Rightarrow> int" where
  "LookupSection c type =
     (case find_index (\<lambda>s. sc_type s = type) (sections c) of None \<Rightarrow> -1 | Some i \<Rightarrow> int i)"

definition GetField :: "cfg \<Rightarrow> int \<Rightarrow> string \<Rightarrow> nat option" where
  "GetField c sec name = find_index (\<lambda>f. fd_section f = sec \<and> fd_name f = name) (cfields c)"

definition AddField :: "int \<Rightarrow> string \<Rightarrow> nat \<Rightarrow> cfg \<Rightarrow> nat \<times> cfg" where
  "AddField sec name line c =
     (case find_index (\<lambda>f. fd_section f = sec \<and> fd_name f = name) (cfields c) of
        Some i \<Rightarrow> (i, c)
      | None \<Rightarrow> (length (cfields c),
                 c\<lparr>cfields := cfields c @ [\<lparr>fd_section = sec, fd_name = name, fd_values = [], fd_useds = [], fd_line = line\<rparr>]\<rparr>))"

definition grow :: "nat \<Rightarrow> 'a option list \<Rightarrow> 'a option list" where
  "grow n xs = xs @ replicate (n - length xs) None"

definition set_value :: "nat \<Rightarrow> nat \<Rightarrow> cfield \<Rightarrow> cfield" where
  "set_value ix tok f =
     f\<lparr>fd_values := (grow (ix + 1) (fd_values f))[ix := Some tok],
       fd_useds := (grow (ix + 1) (fd_useds f))[ix := Some False]\<rparr>"

definition AddFieldValue :: "nat \<Rightarrow> nat \<Rightarrow> nat \<Rightarrow> cfg \<Rightarrow> cfg outcome" where
  "AddFieldValue f ix tok c =
     (if f < length (cfields c) then Inr (c\<lparr>cfields := (cfields c)[f := set_value ix tok (cfields c ! f)]\<rparr>)
      else Inl OutOfBounds)"

section \<open>Statements\<close>

text \<open>
  Each loop runs over the tokens from position \<open>i\<close> on, which are passed along; the tokens do not
  change while parsing.  The results are the new index, the line counter and the state.
\<close>

fun include_loop :: "nat \<Rightarrow> token list \<Rightarrow> nat option" where
  "include_loop i [] = None"
| "include_loop i (t # ts) = (if t_type t = TokenEOL then Some i else include_loop (i + 1) ts)"

definition ParseTokenInclude :: "nat \<Rightarrow> nat \<Rightarrow> cfg \<Rightarrow> (nat \<times> nat \<times> cfg) option outcome" where
  "ParseTokenInclude index line c =
     (case include_loop (index + 1) (drop (index + 1) (tokens c)) of
        None \<Rightarrow> Inr None
      | Some i \<Rightarrow> Inr (Some (i, line + 1, c)))"

text \<open>\<open>load_plugin\<close>: whether \<open>LoadPlugin\<close> finds and opens the plugin.\<close>

fun plugin_loop :: "(string \<Rightarrow> bool) \<Rightarrow> nat \<Rightarrow> token list \<Rightarrow> cfg \<Rightarrow> (nat \<times> cfg) option" where
  "plugin_loop load_plugin i [] c = None"
| "plugin_loop load_plugin i (t # ts) c =
     (if t_type t = TokenString then
        if load_plugin (t_value t) then plugin_loop load_plugin (i + 1) ts (c\<lparr>plugins := plugins c @ [t_value t]\<rparr>)
        else None
      else if t_type t = TokenEOL then Some (i, c)
      else plugin_loop load_plugin (i + 1) ts c)"

definition ParseTokenPlugin :: "(string \<Rightarrow> bool) \<Rightarrow> nat \<Rightarrow> nat \<Rightarrow> cfg \<Rightarrow> (nat \<times> nat \<times> cfg) option outcome" where
  "ParseTokenPlugin load_plugin index line c =
     (case plugin_loop load_plugin (index + 1) (drop (index + 1) (tokens c)) c of
        None \<Rightarrow> Inr None
      | Some (i, c') \<Rightarrow> Inr (Some (i, line + 1, c')))"

fun define_loop ::
    "nat \<Rightarrow> int \<Rightarrow> string option \<Rightarrow> string option \<Rightarrow> nat option \<Rightarrow> nat \<Rightarrow> token list \<Rightarrow> cfg \<Rightarrow> (nat \<times> cfg) option" where
  "define_loop line cnt mn sn st i [] c = None"
| "define_loop line cnt mn sn st i (t # ts) c =
     (if t_type t = TokenWord then
        if cnt = 0 then
          (if mn = None then define_loop line cnt (Some (t_value t)) sn st (i + 1) ts c
           else if sn = None then define_loop line cnt mn (Some (t_value t)) (Some i) (i + 1) ts c
           else None)
        else if mn = None then None
        else if sn = None then None
        else define_loop line cnt mn sn st (i + 1) ts c
      else if t_type t = TokenOpenSection then define_loop line (cnt + 1) mn sn st (i + 1) ts c
      else if t_type t = TokenCloseSection then
        (if cnt - 1 = 0 then Some (i, AddMacro mn sn line st i c)
         else if cnt - 1 < 0 then None
         else define_loop line (cnt - 1) mn sn st (i + 1) ts c)
      else define_loop line cnt mn sn st (i + 1) ts c)"

definition ParseTokenDefine :: "nat \<Rightarrow> nat \<Rightarrow> cfg \<Rightarrow> (nat \<times> nat \<times> cfg) option outcome" where
  "ParseTokenDefine index line c =
     (case define_loop line 0 None None None (index + 1) (drop (index + 1) (tokens c)) c of
        None \<Rightarrow> Inr None
      | Some (i, c') \<Rightarrow> Inr (Some (i, line, c')))"

section \<open>Fields and tuples\<close>

fun tuple_loop :: "nat \<Rightarrow> nat \<Rightarrow> nat \<Rightarrow> nat \<Rightarrow> token list \<Rightarrow> cfg \<Rightarrow> (nat \<times> cfg) option outcome" where
  "tuple_loop f cnt index i [] c = Inr (Some (index, c))"
| "tuple_loop f cnt index i (t # ts) c =
     (if t_type t = TokenNum \<or> t_type t = TokenString then
        bindo (AddFieldValue f cnt i c) (\<lambda>c'. tuple_loop f (cnt + 1) i (i + 1) ts c')
      else if t_type t = TokenCloseTuple then Inr (Some (i, c))
      else if t_type t = TokenSpace \<or> t_type t = TokenEOL then tuple_loop f cnt index (i + 1) ts c
      else Inr None)"

definition ParseTokenTuple :: "nat \<Rightarrow> nat \<Rightarrow> cfg \<Rightarrow> (nat \<times> cfg) option outcome" where
  "ParseTokenTuple f index c = tuple_loop f 0 index (index + 1) (drop (index + 1) (tokens c)) c"

fun field_loop :: "int \<Rightarrow> nat \<Rightarrow> nat \<Rightarrow> nat \<Rightarrow> token list \<Rightarrow> cfg \<Rightarrow> (nat \<times> cfg) option outcome" where
  "field_loop sec index line i [] c = Inr (Some (index, c))"
| "field_loop sec index line i (t # ts) c =
     (if t_type t = TokenNum \<or> t_type t = TokenString \<or> t_type t = TokenBool then
        bindo (GetTokenValue (tokens c) index) (\<lambda>name.
        let (f, c1) = AddField sec name line c in
        bindo (AddFieldValue f 0 i c1) (\<lambda>c2. Inr (Some (i, c2))))
      else if t_type t = TokenOpenTuple then
        bindo (GetTokenValue (tokens c) index) (\<lambda>name.
        let (f, c1) = AddField sec name line c in ParseTokenTuple f i c1)
      else if t_type t = TokenSpace then field_loop sec index line (i + 1) ts c
      else Inr None)"

definition ParseTokenField :: "int \<Rightarrow> nat \<Rightarrow> nat \<Rightarrow> cfg \<Rightarrow> (nat \<times> nat \<times> cfg) option outcome" where
  "ParseTokenField sec index line c =
     bindr (field_loop sec index line (index + 1) (drop (index + 1) (tokens c)) c)
       (\<lambda>(i, c'). Inr (Some (i, line, c')))"

section \<open>Sections\<close>

text \<open>
  The lookahead of \<open>ParseTokenWord\<close>: whether an opening parenthesis or a value follows the word,
  and the line counter there.
\<close>

fun word_ahead :: "nat \<Rightarrow> token list \<Rightarrow> (bool \<times> nat) option" where
  "word_ahead line [] = None"
| "word_ahead line (t # ts) =
     (case t_type t of
        TokenComment \<Rightarrow> word_ahead line ts
      | TokenSpace \<Rightarrow> word_ahead line ts
      | TokenEOL \<Rightarrow> word_ahead (line + 1) ts
      | TokenOpenSection \<Rightarrow> Some (True, line)
      | TokenNum \<Rightarrow> Some (False, line)
      | TokenString \<Rightarrow> Some (False, line)
      | TokenOpenTuple \<Rightarrow> Some (False, line)
      | TokenBool \<Rightarrow> Some (False, line)
      | _ \<Rightarrow> None)"

text \<open>
  The recursion has a fuel \<open>n\<close>, one unit per call and per token of a section.  \<open>section_loop\<close> is the
  loop of \<open>ParseTokenSection\<close>: \<open>new\<close> is the section name if an opening parenthesis adds a section, and
  \<open>None\<close> in the branch for a macro, where the expansion has added it.
\<close>

function (sequential) ParseTokenWord :: "nat \<Rightarrow> int \<Rightarrow> nat \<Rightarrow> nat \<Rightarrow> cfg \<Rightarrow> (nat \<times> nat \<times> cfg) option outcome"
and ParseTokenSection :: "nat \<Rightarrow> int \<Rightarrow> nat \<Rightarrow> nat \<Rightarrow> cfg \<Rightarrow> (nat \<times> nat \<times> cfg) option outcome"
and section_loop :: "nat \<Rightarrow> string option \<Rightarrow> int \<Rightarrow> nat \<Rightarrow> nat \<Rightarrow> cfg \<Rightarrow> (nat \<times> nat \<times> cfg) option outcome" where
  "ParseTokenWord 0 sec index line c = Inl OutOfFuel"
| "ParseTokenWord (Suc n) sec index line c =
     (case word_ahead line (drop (index + 1) (tokens c)) of
        None \<Rightarrow> Inr None
      | Some (True, line') \<Rightarrow> ParseTokenSection n sec index line' c
      | Some (False, line') \<Rightarrow> ParseTokenField sec index line' c)"
| "ParseTokenSection 0 sec index line c = Inl OutOfFuel"
| "ParseTokenSection (Suc n) sec index line c =
     bindo (GetTokenValue (tokens c) index) (\<lambda>name.
     bindo (LookupMacro c name) (\<lambda>macro.
       case macro of
         Some m \<Rightarrow>
           (case starttoken (macros c ! m) of
              None \<Rightarrow> Inl AssertFailed
            | Some st \<Rightarrow>
                bindr (ParseTokenSection n sec st (mc_line (macros c ! m)) c)
                  (\<lambda>(_, _, c'). section_loop n None (int (length (sections c))) (index + 1) line c'))
       | None \<Rightarrow> section_loop n (Some name) sec (index + 1) line c))"
| "section_loop 0 new sec i line c = Inl OutOfFuel"
| "section_loop (Suc n) new sec i line c =
     (if length (tokens c) \<le> i then Inr None
      else let t = t_type (tokens c ! i) in
        if t = TokenOpenSection then
          (case new of
             None \<Rightarrow> section_loop n new sec (i + 1) line c
           | Some name \<Rightarrow> let (sec', c') = AddSection sec name c in section_loop n new sec' (i + 1) line c')
        else if t = TokenWord then
          bindr (ParseTokenWord n sec i line c) (\<lambda>(i', line', c'). section_loop n new sec (i' + 1) line' c')
        else if t = TokenCloseSection then Inr (Some (i, line, c))
        else if t = TokenComment \<or> t = TokenSpace then section_loop n new sec (i + 1) line c
        else if t = TokenEOL then section_loop n new sec (i + 1) (line + 1) c
        else Inr None)"
  by pat_completeness auto

termination
  by (relation "measure (\<lambda>s. case s of Inl (n, _) \<Rightarrow> n | Inr (Inl (n, _)) \<Rightarrow> n | Inr (Inr (n, _)) \<Rightarrow> n)") auto

section \<open>The whole file\<close>

text \<open>The four kinds of statement of the global level.\<close>

definition parse_word :: "nat \<Rightarrow> (string \<Rightarrow> bool) \<Rightarrow> int \<Rightarrow> string \<Rightarrow> nat \<Rightarrow> nat \<Rightarrow> cfg \<Rightarrow> (nat \<times> nat \<times> cfg) option outcome" where
  "parse_word n lp sec v i line c =
     (if v = ''include'' then ParseTokenInclude i line c
      else if v = ''define'' then ParseTokenDefine i line c
      else if v = ''plugin'' then ParseTokenPlugin lp i line c
      else ParseTokenWord n sec i line c)"

fun parse_loop :: "nat \<Rightarrow> (string \<Rightarrow> bool) \<Rightarrow> int \<Rightarrow> nat \<Rightarrow> nat \<Rightarrow> cfg \<Rightarrow> cfg option outcome" where
  "parse_loop 0 load_plugin sec i line c = Inl OutOfFuel"
| "parse_loop (Suc n) load_plugin sec i line c =
     (if length (tokens c) \<le> i then Inr (Some c)
      else let t = t_type (tokens c ! i); v = t_value (tokens c ! i) in
        if t = TokenWord then
          bindr (parse_word n load_plugin sec v i line c)
            (\<lambda>(i', line', c'). parse_loop n load_plugin sec (i' + 1) line' c')
        else if t = TokenComment \<or> t = TokenSpace then parse_loop n load_plugin sec (i + 1) line c
        else if t = TokenEOL then parse_loop n load_plugin sec (i + 1) (line + 1) c
        else Inr None)"

definition ParseTokens :: "nat \<Rightarrow> (string \<Rightarrow> bool) \<Rightarrow> cfg \<Rightarrow> cfg option outcome" where
  "ParseTokens n load_plugin c =
     (let (sec, c') = AddSection (-1) [] (ClearFields (ClearSections c)) in
      parse_loop n load_plugin sec 0 1 c')"

section \<open>Well-formed states\<close>

definition value_type :: "token_type \<Rightarrow> bool" where
  "value_type t \<longleftrightarrow> t = TokenNum \<or> t = TokenString \<or> t = TokenBool"

text \<open>An opening parenthesis comes before any word or closing parenthesis.\<close>

fun opens :: "token list \<Rightarrow> bool" where
  "opens [] \<longleftrightarrow> False"
| "opens (t # ts) \<longleftrightarrow> t_type t = TokenOpenSection \<or> (t_type t \<noteq> TokenWord \<and> t_type t \<noteq> TokenCloseSection \<and> opens ts)"

definition macro_ok :: "token list \<Rightarrow> cmacro \<Rightarrow> bool" where
  "macro_ok toks m \<longleftrightarrow> (\<forall>st. starttoken m = Some st \<longrightarrow> opens (drop (st + 1) toks))"

definition section_tree :: "csection list \<Rightarrow> bool" where
  "section_tree ss \<longleftrightarrow> ss \<noteq> [] \<and> sc_parent (ss ! 0) = -1 \<and>
     (\<forall>i. 0 < i \<and> i < length ss \<longrightarrow> 0 \<le> sc_parent (ss ! i) \<and> sc_parent (ss ! i) < int i)"

definition field_ok :: "token list \<Rightarrow> nat \<Rightarrow> cfield \<Rightarrow> bool" where
  "field_ok toks ns f \<longleftrightarrow> 0 \<le> fd_section f \<and> fd_section f < int ns \<and>
     length (fd_useds f) = length (fd_values f) \<and>
     (\<forall>u \<in> set (fd_useds f). u \<noteq> None) \<and>
     (\<forall>v \<in> set (fd_values f). \<exists>k < length toks. v = Some k \<and> value_type (t_type (toks ! k)))"

definition unique_fields :: "cfield list \<Rightarrow> bool" where
  "unique_fields fs \<longleftrightarrow> distinct (map (\<lambda>f. (fd_section f, fd_name f)) fs)"

definition cfg_ok :: "cfg \<Rightarrow> bool" where
  "cfg_ok c \<longleftrightarrow> section_tree (sections c) \<and> unique_fields (cfields c) \<and>
     (\<forall>f \<in> set (cfields c). field_ok (tokens c) (length (sections c)) f) \<and>
     (\<forall>m \<in> set (macros c). macro_ok (tokens c) m)"

definition valid_section :: "int \<Rightarrow> cfg \<Rightarrow> bool" where
  "valid_section sec c \<longleftrightarrow> 0 \<le> sec \<and> sec < int (length (sections c))"

text \<open>What no part of the parser of words, sections and fields changes.\<close>

definition extends_cfg :: "cfg \<Rightarrow> cfg \<Rightarrow> bool" where
  "extends_cfg c c' \<longleftrightarrow> tokens c' = tokens c \<and> macros c' = macros c \<and>
     (\<exists>more. sections c' = sections c @ more)"

lemma extends_cfg_refl [simp]: "extends_cfg c c"
  by (simp add: extends_cfg_def)

lemma extends_cfg_trans: "extends_cfg a b \<Longrightarrow> extends_cfg b c \<Longrightarrow> extends_cfg a c"
  by (auto simp: extends_cfg_def)

lemma extends_cfg_facts:
  assumes "extends_cfg c c'"
  shows "tokens c' = tokens c" "macros c' = macros c" "length (sections c) \<le> length (sections c')"
    "valid_section sec c \<Longrightarrow> valid_section sec c'"
  using assms by (auto simp: extends_cfg_def valid_section_def)

lemma AddSection_ok:
  assumes "cfg_ok c" "valid_section sec c" "AddSection sec name c = (sec', c')"
  shows "cfg_ok c'" "extends_cfg c c'" "valid_section sec' c'" "length (sections c) < length (sections c')"
proof -
  have c': "c' = c\<lparr>sections := sections c @ [\<lparr>sc_parent = sec, sc_type = name\<rparr>]\<rparr>" "sec' = int (length (sections c))"
    using assms(3) by (auto simp: AddSection_def)
  then have "section_tree (sections c')"
    using assms(1,2) by (auto simp: cfg_ok_def section_tree_def valid_section_def nth_append less_Suc_eq)
  then show "cfg_ok c'" using assms(1) c' by (auto simp: cfg_ok_def field_ok_def)
qed (use assms in \<open>auto simp: AddSection_def extends_cfg_def valid_section_def\<close>)

lemma AddField_result:
  assumes "AddField sec name line c = (f, c')"
  shows "f < length (cfields c')" "fd_section (cfields c' ! f) = sec" "fd_name (cfields c' ! f) = name"
    "extends_cfg c c'" "length (cfields c) \<le> length (cfields c')"
  using assms by (auto simp: AddField_def extends_cfg_def split: option.splits dest!: find_index_bound)

lemma AddField_ok:
  assumes "cfg_ok c" "valid_section sec c" "AddField sec name line c = (f, c')"
  shows "cfg_ok c'"
  using assms
  by (auto simp: AddField_def cfg_ok_def valid_section_def field_ok_def unique_fields_def find_index_None split: option.splits)

lemma set_grow_update:
  "ix \<le> length xs \<Longrightarrow> set ((grow (ix + 1) xs)[ix := Some y]) \<subseteq> insert (Some y) (set xs)"
  by (cases "ix = length xs") (simp_all add: grow_def set_update_subset_insert)

lemma set_value_ok:
  assumes ok: "field_ok toks ns f" and ix: "ix \<le> length (fd_values f)"
    and k: "k < length toks" "value_type (t_type (toks ! k))"
  shows "field_ok toks ns (set_value ix k f)"
proof -
  have u: "length (fd_useds f) = length (fd_values f)" using ok by (simp add: field_ok_def)
  have vals: "\<exists>k < length toks. v = Some k \<and> value_type (t_type (toks ! k))"
    if "v \<in> set (fd_values (set_value ix k f))" for v
  proof (cases "v = Some k")
    case True
    with k show ?thesis by auto
  next
    case False
    with set_grow_update [OF ix, of k] that have "v \<in> set (fd_values f)" by (auto simp: set_value_def)
    with ok show ?thesis by (simp add: field_ok_def)
  qed
  have useds: "v \<noteq> None" if "v \<in> set (fd_useds (set_value ix k f))" for v
  proof (cases "v = Some False")
    case False
    with set_grow_update [of ix "fd_useds f" False] that ix u have "v \<in> set (fd_useds f)" by (auto simp: set_value_def)
    with ok show ?thesis by (simp add: field_ok_def)
  qed simp
  have "length (fd_useds (set_value ix k f)) = length (fd_values (set_value ix k f))"
    using u by (simp add: set_value_def grow_def)
  moreover have "fd_section (set_value ix k f) = fd_section f" by (simp add: set_value_def)
  ultimately show ?thesis using ok vals useds by (simp add: field_ok_def)
qed

lemma set_value_keys [simp]:
  "fd_section (set_value ix k f) = fd_section f" "fd_name (set_value ix k f) = fd_name f"
  by (simp_all add: set_value_def)

lemma length_set_value [simp]: "length (fd_values (set_value ix k f)) = max (ix + 1) (length (fd_values f))"
  by (simp add: set_value_def grow_def max_def)

lemma map_update_same: "f < length xs \<Longrightarrow> g y = g (xs ! f) \<Longrightarrow> map g (xs[f := y]) = map g xs"
  by (metis list_update_id map_update)

lemma AddFieldValue_ok:
  assumes "cfg_ok c" "AddFieldValue f ix k c = Inr c'" "ix \<le> length (fd_values (cfields c ! f))"
    "k < length (tokens c)" "value_type (t_type (tokens c ! k))"
  shows "cfg_ok c'" "extends_cfg c c'" "ix < length (fd_values (cfields c' ! f))" "length (cfields c') = length (cfields c)"
proof -
  have f: "f < length (cfields c)" and c': "c' = c\<lparr>cfields := (cfields c)[f := set_value ix k (cfields c ! f)]\<rparr>"
    using assms(2) by (auto simp: AddFieldValue_def split: if_splits)
  have "field_ok (tokens c) (length (sections c)) (set_value ix k (cfields c ! f))"
    using assms f by (intro set_value_ok) (auto simp: cfg_ok_def)
  moreover have "unique_fields (cfields c')"
    using assms(1) f c' by (simp add: cfg_ok_def unique_fields_def map_update_same)
  ultimately show "cfg_ok c'"
    using assms(1) f c' by (auto simp: cfg_ok_def dest!: subsetD [OF set_update_subset_insert])
  show "extends_cfg c c'" "ix < length (fd_values (cfields c' ! f))" "length (cfields c') = length (cfields c)"
    using f c' by (auto simp: extends_cfg_def)
qed

section \<open>Every routine keeps the state well-formed\<close>

lemma drop_Cons: "drop i xs = t # ts \<Longrightarrow> i < length xs \<and> xs ! i = t \<and> drop (i + 1) xs = ts"
  by (metis Cons_nth_drop_Suc Suc_eq_plus1 drop_eq_Nil leI list.distinct(1) list.inject)

lemma tuple_loop_ok:
  "tuple_loop f cnt index i ts c = Inr (Some (i', c')) \<Longrightarrow> cfg_ok c \<Longrightarrow> ts = drop i (tokens c) \<Longrightarrow>
   cnt \<le> length (fd_values (cfields c ! f)) \<Longrightarrow> index < i \<Longrightarrow>
   cfg_ok c' \<and> extends_cfg c c' \<and> index \<le> i'"
proof (induction f cnt index i ts c arbitrary: i' c' rule: tuple_loop.induct)
  case (2 f cnt index i t ts c)
  note d = drop_Cons [OF 2(5) [symmetric]]
  show ?case
  proof (cases "t_type t = TokenNum \<or> t_type t = TokenString")
    case True
    with 2(3) obtain c1 where c1: "AddFieldValue f cnt i c = Inr c1"
        "tuple_loop f (cnt + 1) i (i + 1) ts c1 = Inr (Some (i', c'))" by auto
    have v: "i < length (tokens c)" "value_type (t_type (tokens c ! i))"
      using d True by (auto simp: value_type_def)
    note ok = AddFieldValue_ok [OF 2(4) c1(1) 2(6) v]
    have "cfg_ok c' \<and> extends_cfg c1 c' \<and> i \<le> i'"
      using ok d by (intro 2(1) [OF True c1(1) c1(2)]) (auto simp: extends_cfg_facts)
    then show ?thesis using ok(2) 2(7) extends_cfg_trans by fastforce
  next
    case False
    show ?thesis
    proof (cases "t_type t = TokenCloseTuple")
      case True
      with 2(3) have "i' = i" "c' = c" by auto
      with 2(4,7) show ?thesis by simp
    next
      case nclose: False
      with False 2(3) have sp: "t_type t = TokenSpace \<or> t_type t = TokenEOL"
        and run: "tuple_loop f cnt index (i + 1) ts c = Inr (Some (i', c'))" by (auto split: if_splits)
      from d have "ts = drop (i + 1) (tokens c)" by simp
      moreover have "index < i + 1" using 2(7) by simp
      ultimately show ?thesis using 2(2) [OF False nclose sp run 2(4) _ 2(6)] by blast
    qed
  qed
qed auto

lemma ParseTokenTuple_ok:
  assumes "ParseTokenTuple f index c = Inr (Some (i', c'))" "cfg_ok c"
  shows "cfg_ok c'" "extends_cfg c c'" "index \<le> i'"
  using tuple_loop_ok [OF assms(1) [unfolded ParseTokenTuple_def] assms(2)] by auto

lemma field_loop_ok:
  "field_loop sec index line i ts c = Inr (Some (i', c')) \<Longrightarrow> cfg_ok c \<Longrightarrow> valid_section sec c \<Longrightarrow>
   ts = drop i (tokens c) \<Longrightarrow> index < i \<Longrightarrow> cfg_ok c' \<and> extends_cfg c c' \<and> index \<le> i'"
proof (induction sec index line i ts c arbitrary: i' c' rule: field_loop.induct)
  case (2 sec index line i t ts c)
  note d = drop_Cons [OF 2(5) [symmetric]]
  consider (val) "t_type t = TokenNum \<or> t_type t = TokenString \<or> t_type t = TokenBool"
    | (tup) "t_type t = TokenOpenTuple" | (sp) "t_type t = TokenSpace"
    using 2(2) by (auto split: if_splits)
  then show ?case
  proof cases
    case val
    with 2(2) have "bindo (GetTokenValue (tokens c) index) (\<lambda>name.
        let (f, c1) = AddField sec name line c in
        bindo (AddFieldValue f 0 i c1) (\<lambda>c2. Inr (Some (i, c2)))) = Inr (Some (i', c'))" by simp
    then obtain name where nm: "(case AddField sec name line c of (f, c1) \<Rightarrow>
        bindo (AddFieldValue f 0 i c1) (\<lambda>c2. Inr (Some (i, c2)))) = Inr (Some (i', c'))"
      unfolding bindo_Inr_iff Let_def by blast
    obtain f c1 where n1: "AddField sec name line c = (f, c1)" by (cases "AddField sec name line c")
    with nm have n: "AddField sec name line c = (f, c1)" "AddFieldValue f 0 i c1 = Inr c'" "i' = i" by auto
    note ok1 = AddField_ok [OF 2(3,4) n(1)] and r = AddField_result [OF n(1)]
    have "i < length (tokens c1)" "value_type (t_type (tokens c1 ! i))"
      using d val extends_cfg_facts [OF r(4)] by (auto simp: value_type_def)
    from AddFieldValue_ok [OF ok1 n(2) _ this] r(4) n(3) 2(6) show ?thesis
      using extends_cfg_trans by fastforce
  next
    case tup
    with 2(2) have "bindo (GetTokenValue (tokens c) index) (\<lambda>name.
        let (f, c1) = AddField sec name line c in ParseTokenTuple f i c1) = Inr (Some (i', c'))" by simp
    then obtain name where nm: "(case AddField sec name line c of (f, c1) \<Rightarrow> ParseTokenTuple f i c1) = Inr (Some (i', c'))"
      unfolding bindo_Inr_iff Let_def by blast
    obtain f c1 where n1: "AddField sec name line c = (f, c1)" by (cases "AddField sec name line c")
    with nm have n: "AddField sec name line c = (f, c1)" "ParseTokenTuple f i c1 = Inr (Some (i', c'))" by auto
    note ok1 = AddField_ok [OF 2(3,4) n(1)] and r = AddField_result [OF n(1)]
    from ParseTokenTuple_ok [OF n(2) ok1] r(4) 2(6) show ?thesis
      using extends_cfg_trans by fastforce
  next
    case sp
    with 2(2) have run: "field_loop sec index line (i + 1) ts c = Inr (Some (i', c'))" by simp
    from d have "ts = drop (i + 1) (tokens c)" by simp
    from 2(1) [OF _ _ sp run 2(3,4) this] sp 2(6) show ?thesis by simp
  qed
qed auto

lemma ParseTokenField_ok:
  assumes "ParseTokenField sec index line c = Inr (Some (i', line', c'))" "cfg_ok c" "valid_section sec c"
  shows "cfg_ok c'" "extends_cfg c c'" "index \<le> i'"
  using assms field_loop_ok [of sec index line "index + 1" _ c i' c'] by (auto simp: ParseTokenField_def)

lemma word_ahead_opens: "word_ahead line ts = Some (True, line') \<Longrightarrow> opens ts"
  by (induction line ts rule: word_ahead.induct) (auto split: token_type.splits)

lemma LookupMacro_from_index: "LookupMacro_from i ms name = Inr (Some k) \<Longrightarrow> i \<le> k \<and> k < i + length ms"
  by (induction i ms name rule: LookupMacro_from.induct) (force split: option.splits if_splits)+

lemma LookupMacro_in: "LookupMacro c name = Inr (Some k) \<Longrightarrow> macros c ! k \<in> set (macros c)"
  using LookupMacro_from_index by (fastforce simp: LookupMacro_def)

text \<open>A run from index \<open>i\<close> keeps the state well-formed, extends it and does not go back.\<close>

definition goes_on :: "cfg \<Rightarrow> nat \<Rightarrow> (nat \<times> nat \<times> cfg) option outcome \<Rightarrow> bool" where
  "goes_on c i r \<longleftrightarrow> (\<forall>i' line' c'. r = Inr (Some (i', line', c')) \<longrightarrow> cfg_ok c' \<and> extends_cfg c c' \<and> i \<le> i')"

definition adds_section :: "cfg \<Rightarrow> (nat \<times> nat \<times> cfg) option outcome \<Rightarrow> bool" where
  "adds_section c r \<longleftrightarrow>
     (\<forall>i' line' c'. r = Inr (Some (i', line', c')) \<longrightarrow> length (sections c) < length (sections c'))"

definition word_good :: "nat \<Rightarrow> bool" where
  "word_good n \<longleftrightarrow> (\<forall>sec i line c. cfg_ok c \<longrightarrow> valid_section sec c \<longrightarrow> goes_on c i (ParseTokenWord n sec i line c))"

definition section_good :: "nat \<Rightarrow> bool" where
  "section_good n \<longleftrightarrow> (\<forall>sec i line c. cfg_ok c \<longrightarrow> valid_section sec c \<longrightarrow> opens (drop (i + 1) (tokens c)) \<longrightarrow>
     goes_on c i (ParseTokenSection n sec i line c) \<and> adds_section c (ParseTokenSection n sec i line c))"

definition loop_good :: "nat \<Rightarrow> bool" where
  "loop_good n \<longleftrightarrow> (\<forall>new sec i line c. cfg_ok c \<longrightarrow> valid_section sec c \<longrightarrow>
     goes_on c i (section_loop n new sec i line c) \<and>
     (new \<noteq> None \<longrightarrow> opens (drop i (tokens c)) \<longrightarrow> adds_section c (section_loop n new sec i line c)))"

lemma goes_on_fail [simp]:
  "goes_on c i (Inl e)" "goes_on c i (Inr None)" "adds_section c (Inl e)" "adds_section c (Inr None)"
  by (simp_all add: goes_on_def adds_section_def)

lemma goes_on_weaken: "goes_on c i r \<Longrightarrow> j \<le> i \<Longrightarrow> goes_on c j r"
  by (auto simp: goes_on_def)

lemma goes_on_Suc: "goes_on c (i + 1) r \<Longrightarrow> goes_on c i r"
  by (rule goes_on_weaken) auto

lemma goes_on_from: "goes_on c' i r \<Longrightarrow> extends_cfg c c' \<Longrightarrow> goes_on c i r"
  by (auto simp: goes_on_def intro: extends_cfg_trans)

lemma adds_section_from:
  assumes "goes_on c' i r" "length (sections c) < length (sections c')"
  shows "adds_section c r"
  unfolding adds_section_def
proof (intro allI impI)
  fix i' line' d assume "r = Inr (Some (i', line', d))"
  with assms(1) have "extends_cfg c' d" by (simp add: goes_on_def)
  from extends_cfg_facts(3) [OF this] assms(2) show "length (sections c) < length (sections d)" by linarith
qed

lemma goes_on_bindr:
  assumes "goes_on c i m"
    and "\<And>i' line' c'. m = Inr (Some (i', line', c')) \<Longrightarrow> cfg_ok c' \<Longrightarrow> extends_cfg c c' \<Longrightarrow> i \<le> i' \<Longrightarrow>
      goes_on c' j (f (i', line', c'))"
  shows "goes_on c j (bindr m f)"
proof (cases "\<exists>x. m = Inr (Some x)")
  case True
  then obtain i' line' c' where m: "m = Inr (Some (i', line', c'))" by auto
  with assms(1) have "cfg_ok c'" "extends_cfg c c'" "i \<le> i'" by (auto simp: goes_on_def)
  with assms(2) [OF m] m show ?thesis by (auto intro: goes_on_from)
next
  case False
  then show ?thesis by (cases "(m, f)" rule: bindr.cases) auto
qed

lemma adds_section_bindr:
  assumes "\<And>i' line' c'. m = Inr (Some (i', line', c')) \<Longrightarrow> adds_section c (f (i', line', c'))"
  shows "adds_section c (bindr m f)"
  using assms by (cases "(m, f)" rule: bindr.cases) auto

lemma loop_goodD:
  assumes "loop_good n" "cfg_ok c" "valid_section sec c"
  shows "goes_on c i (section_loop n new sec i line c)"
    "new \<noteq> None \<Longrightarrow> opens (drop i (tokens c)) \<Longrightarrow> adds_section c (section_loop n new sec i line c)"
  using assms unfolding loop_good_def by blast+

lemma word_good_step:
  assumes "section_good n"
  shows "word_good (Suc n)"
  unfolding word_good_def
proof (intro allI impI)
  fix sec i line c assume c: "cfg_ok c" "valid_section sec c"
  have f: "goes_on c i (ParseTokenField sec i l c)" for l
    using ParseTokenField_ok [OF _ c] by (auto simp: goes_on_def)
  have s: "goes_on c i (ParseTokenSection n sec i l c)" if "opens (drop (i + 1) (tokens c))" for l
    using assms c that by (simp add: section_good_def)
  show "goes_on c i (ParseTokenWord (Suc n) sec i line c)"
  proof (cases "word_ahead line (drop (i + 1) (tokens c))")
    case (Some p)
    then show ?thesis using f s word_ahead_opens [of line "drop (i + 1) (tokens c)"] by (cases p; cases "fst p") auto
  qed simp
qed

lemma section_good_step:
  assumes sg: "section_good n" and lg: "loop_good n"
  shows "section_good (Suc n)"
  unfolding section_good_def
proof (intro allI impI)
  fix sec i line c assume c: "cfg_ok c" "valid_section sec c" and o: "opens (drop (i + 1) (tokens c))"
  let ?r = "ParseTokenSection (Suc n) sec i line c"
  have plain: "goes_on c i (section_loop n (Some name) sec (i + 1) line c)"
    "adds_section c (section_loop n (Some name) sec (i + 1) line c)" for name
    using loop_goodD [OF lg c, where i = "i + 1"] o goes_on_Suc by blast+
  show "goes_on c i ?r \<and> adds_section c ?r"
  proof (cases "bindo (GetTokenValue (tokens c) i) (LookupMacro c)")
    case (Inl e)
    then show ?thesis by (auto simp: bindo_Inl_iff)
  next
    case (Inr macro)
    then obtain name where nm: "GetTokenValue (tokens c) i = Inr name" "LookupMacro c name = Inr macro" by auto
    show ?thesis
    proof (cases macro)
      case None
      with nm plain show ?thesis by simp
    next
      case (Some m)
      show ?thesis
      proof (cases "starttoken (macros c ! m)")
        case None
        with nm Some show ?thesis by simp
      next
        case st: (Some st)
        let ?e = "ParseTokenSection n sec st (mc_line (macros c ! m)) c"
        have "macro_ok (tokens c) (macros c ! m)"
          using LookupMacro_in nm(2) Some c(1) by (auto simp: cfg_ok_def)
        then have "goes_on c st ?e" "adds_section c ?e"
          using sg c st by (auto simp: section_good_def macro_ok_def)
        moreover have l: "goes_on c' (i + 1) (section_loop n None (int (length (sections c))) (i + 1) line c')"
          if "cfg_ok c'" "length (sections c) < length (sections c')" for c'
          using that by (intro loop_goodD(1) [OF lg]) (auto simp: valid_section_def)
        ultimately have "goes_on c (i + 1) (bindr ?e (\<lambda>(_, _, c'). section_loop n None (int (length (sections c))) (i + 1) line c'))"
          by (intro goes_on_bindr [of c st]) (auto simp: adds_section_def)
        moreover have "adds_section c (bindr ?e (\<lambda>(_, _, c'). section_loop n None (int (length (sections c))) (i + 1) line c'))"
        proof (rule adds_section_bindr)
          fix i' line' c' assume "?e = Inr (Some (i', line', c'))"
          with \<open>goes_on c st ?e\<close> \<open>adds_section c ?e\<close> have "cfg_ok c'" "length (sections c) < length (sections c')"
            by (auto simp: goes_on_def adds_section_def)
          with l [OF this] show "adds_section c ((\<lambda>(_, _, c'). section_loop n None (int (length (sections c))) (i + 1) line c') (i', line', c'))"
            by (auto intro: adds_section_from)
        qed
        ultimately have "goes_on c (i + 1) (bindr ?e (\<lambda>(_, _, c'). section_loop n None (int (length (sections c))) (i + 1) line c'))
          \<and> adds_section c (bindr ?e (\<lambda>(_, _, c'). section_loop n None (int (length (sections c))) (i + 1) line c'))" ..
        with nm Some st goes_on_Suc show ?thesis by auto
      qed
    qed
  qed
qed


lemma loop_good_step:
  assumes wg: "word_good n" and lg: "loop_good n"
  shows "loop_good (Suc n)"
  unfolding loop_good_def
proof (intro allI impI)
  fix new :: "string option" and sec i line c
  assume c: "cfg_ok c" "valid_section sec c"
  let ?r = "section_loop (Suc n) new sec i line c" and ?t = "t_type (tokens c ! i)"
  have nxt: "goes_on c i (section_loop n new sec (i + 1) l c)" for l
    using loop_goodD(1) [OF lg c] by (rule goes_on_Suc)
  have nexta: "adds_section c (section_loop n new sec (i + 1) l c)" if "new \<noteq> None" "opens (drop (i + 1) (tokens c))" for l
    using loop_goodD(2) [OF lg c that] .
  have sect: "goes_on c i (section_loop n new sec' (i + 1) line c') \<and> adds_section c (section_loop n new sec' (i + 1) line c')"
    if "AddSection sec name c = (sec', c')" for name sec' c'
  proof -
    note ok = AddSection_ok [OF c that]
    have "goes_on c' i (section_loop n new sec' (i + 1) line c')"
      using loop_goodD(1) [OF lg ok(1,3)] by (rule goes_on_Suc)
    with ok show ?thesis by (auto intro: goes_on_from adds_section_from)
  qed
  have word: "goes_on c i (bindr (ParseTokenWord n sec i line c) (\<lambda>(i', line', c'). section_loop n new sec (i' + 1) line' c'))"
  proof (rule goes_on_bindr)
    show "goes_on c i (ParseTokenWord n sec i line c)" using wg c by (simp add: word_good_def)
  next
    fix i' line' c' assume "cfg_ok c'" "extends_cfg c c'" "i \<le> i'"
    then have "goes_on c' (i' + 1) (section_loop n new sec (i' + 1) line' c')"
      using c(2) by (intro loop_goodD(1) [OF lg]) (auto intro: extends_cfg_facts)
    from goes_on_weaken [OF this, of i] \<open>i \<le> i'\<close>
    show "goes_on c' i ((\<lambda>(i', line', c'). section_loop n new sec (i' + 1) line' c') (i', line', c'))" by simp
  qed
  have drop: "opens (drop i (tokens c)) \<longleftrightarrow> ?t = TokenOpenSection \<or>
      (?t \<noteq> TokenWord \<and> ?t \<noteq> TokenCloseSection \<and> opens (drop (i + 1) (tokens c)))" if "i < length (tokens c)"
    using that by (simp add: Cons_nth_drop_Suc [symmetric])
  have self: "goes_on c i (Inr (Some (i, line, c)))" using c by (simp add: goes_on_def)
  show "goes_on c i ?r \<and> (new \<noteq> None \<longrightarrow> opens (drop i (tokens c)) \<longrightarrow> adds_section c ?r)"
  proof (cases "i < length (tokens c)")
    case True
    show ?thesis
    proof (cases "?t = TokenOpenSection")
      case open_: True
      show ?thesis
      proof (cases new)
        case None
        with open_ True nxt [of line] show ?thesis by (simp add: Let_def)
      next
        case (Some name)
        obtain sec' c' where a: "AddSection sec name c = (sec', c')" by (cases "AddSection sec name c")
        with sect [OF a] open_ True Some show ?thesis by (simp add: Let_def)
      qed
    next
      case False
      with drop [OF True] True word self nxt nexta show ?thesis by (simp add: Let_def)
    qed
  qed simp
qed

lemma parser_good: "word_good n \<and> section_good n \<and> loop_good n"
proof (induction n)
  case 0
  show ?case by (simp add: word_good_def section_good_def loop_good_def)
next
  case (Suc n)
  then show ?case using word_good_step section_good_step loop_good_step by blast
qed

text \<open>What a macro definition has seen so far: where the body starts, and whether it opens there.\<close>

definition define_inv :: "token list \<Rightarrow> int \<Rightarrow> nat option \<Rightarrow> token list \<Rightarrow> bool" where
  "define_inv toks cnt st ts \<longleftrightarrow> 0 \<le> cnt \<and> (\<forall>s. st = Some s \<longrightarrow>
     (cnt = 0 \<longrightarrow> opens ts \<longrightarrow> opens (drop (s + 1) toks)) \<and> (cnt > 0 \<longrightarrow> opens (drop (s + 1) toks)))"

lemma define_inv_step:
  assumes "define_inv toks cnt st (t # ts)"
  shows "t_type t = TokenWord \<Longrightarrow> cnt \<noteq> 0 \<Longrightarrow> define_inv toks cnt st ts"
    "t_type t = TokenOpenSection \<Longrightarrow> define_inv toks (cnt + 1) st ts"
    "t_type t = TokenCloseSection \<Longrightarrow> cnt - 1 \<noteq> 0 \<Longrightarrow> \<not> cnt - 1 < 0 \<Longrightarrow> define_inv toks (cnt - 1) st ts"
    "t_type t \<noteq> TokenWord \<Longrightarrow> t_type t \<noteq> TokenOpenSection \<Longrightarrow> t_type t \<noteq> TokenCloseSection \<Longrightarrow> define_inv toks cnt st ts"
  using assms by (auto simp: define_inv_def)

lemma define_loop_ok:
  "define_loop line cnt mn sn st i ts c = Some (i', c') \<Longrightarrow> ts = drop i (tokens c) \<Longrightarrow>
   define_inv (tokens c) cnt st ts \<Longrightarrow> (st = None) = (sn = None) \<Longrightarrow> (mn = None \<longrightarrow> sn = None) \<Longrightarrow>
   i \<le> i' \<and> (\<exists>m. c' = c\<lparr>macros := macros c @ [m]\<rparr> \<and> macro_ok (tokens c) m)"
proof (induction line cnt mn sn st i ts c arbitrary: i' c' rule: define_loop.induct)
  case (2 line cnt mn sn st i t ts c)
  note IH = 2(1-6) and run = 2(7) and inv = 2(9) and nm = 2(10,11)
  have ts: "ts = drop (i + 1) (tokens c)" using drop_Cons [OF 2(8) [symmetric]] by simp
  note step = define_inv_step [OF inv]
  consider (mn) "t_type t = TokenWord" "cnt = 0" "mn = None"
    | (sn) "t_type t = TokenWord" "cnt = 0" "mn \<noteq> None" "sn = None"
    | (body) "t_type t = TokenWord" "cnt \<noteq> 0" "mn \<noteq> None" "sn \<noteq> None"
    | (open_) "t_type t = TokenOpenSection"
    | (last) "t_type t = TokenCloseSection" "cnt - 1 = 0"
    | (close) "t_type t = TokenCloseSection" "cnt - 1 \<noteq> 0" "\<not> cnt - 1 < 0"
    | (other) "t_type t \<noteq> TokenWord" "t_type t \<noteq> TokenOpenSection" "t_type t \<noteq> TokenCloseSection"
    using run by (cases "t_type t") (auto split: if_splits)
  then show ?case
  proof cases
    case mn
    then have "define_inv (tokens c) cnt st ts" using inv nm by (auto simp: define_inv_def)
    from IH(1) [OF mn _ ts this] run mn nm show ?thesis by simp
  next
    case sn
    have "define_inv (tokens c) cnt (Some i) ts" using sn ts by (simp add: define_inv_def)
    from IH(2) [OF sn _ ts this] run sn nm show ?thesis by simp
  next
    case body
    from IH(3) [OF body _ ts step(1)] body run nm show ?thesis by auto
  next
    case open_
    from IH(4) [OF _ open_ _ ts step(2)] open_ run nm show ?thesis by simp
  next
    case last
    with run inv show ?thesis by (auto simp: AddMacro_def macro_ok_def define_inv_def)
  next
    case close
    from IH(5) [OF _ _ close _ ts step(3)] close run nm show ?thesis by simp
  next
    case other
    from IH(6) [OF other _ ts step(4)] other run nm show ?thesis by simp
  qed
qed simp

lemma plugin_loop_ok:
  "plugin_loop lp i ts c = Some (i', c') \<Longrightarrow> i \<le> i' \<and> (\<exists>ps. c' = c\<lparr>plugins := ps\<rparr>)"
proof (induction lp i ts c arbitrary: i' c' rule: plugin_loop.induct)
  case (2 lp i t ts c)
  consider (str) "t_type t = TokenString" "lp (t_value t)"
      "plugin_loop lp (i + 1) ts (c\<lparr>plugins := plugins c @ [t_value t]\<rparr>) = Some (i', c')"
    | (eol) "t_type t \<noteq> TokenString" "t_type t = TokenEOL" "i' = i" "c' = c"
    | (other) "t_type t \<noteq> TokenString" "t_type t \<noteq> TokenEOL" "plugin_loop lp (i + 1) ts c = Some (i', c')"
    using 2(3) by (auto split: if_splits)
  then show ?case
  proof cases
    case str
    from 2(1) [OF str] show ?thesis by auto
  next
    case eol
    then show ?thesis by (auto intro: exI [of _ "plugins c"])
  next
    case other
    from 2(2) [OF other] show ?thesis by auto
  qed
qed simp

lemma include_loop_index: "include_loop i ts = Some i' \<Longrightarrow> i \<le> i'"
  by (induction i ts rule: include_loop.induct) (auto split: if_splits dest: Suc_leD)

lemma cfg_ok_keep:
  "cfg_ok c \<Longrightarrow> macro_ok (tokens c) m \<Longrightarrow> cfg_ok (c\<lparr>macros := macros c @ [m]\<rparr>)"
  "cfg_ok c \<Longrightarrow> cfg_ok (c\<lparr>plugins := ps\<rparr>)"
  by (auto simp: cfg_ok_def)

lemma parse_word_ok:
  assumes "parse_word n lp sec v i line c = Inr (Some (i', line', c'))" "cfg_ok c" "valid_section sec c"
  shows "cfg_ok c' \<and> valid_section sec c' \<and> tokens c' = tokens c \<and> i \<le> i'"
proof -
  consider (inc) "ParseTokenInclude i line c = Inr (Some (i', line', c'))"
    | (def) "ParseTokenDefine i line c = Inr (Some (i', line', c'))"
    | (plug) "ParseTokenPlugin lp i line c = Inr (Some (i', line', c'))"
    | (word) "ParseTokenWord n sec i line c = Inr (Some (i', line', c'))"
    using assms(1) by (auto simp: parse_word_def split: if_splits)
  then show ?thesis
  proof cases
    case inc
    then have "include_loop (i + 1) (drop (i + 1) (tokens c)) = Some i'" "c' = c"
      by (auto simp: ParseTokenInclude_def split: option.splits)
    with include_loop_index [OF this(1)] assms show ?thesis by simp
  next
    case def
    then have "define_loop line 0 None None None (i + 1) (drop (i + 1) (tokens c)) c = Some (i', c')"
      by (auto simp: ParseTokenDefine_def split: option.splits)
    from define_loop_ok [OF this] assms(2,3) show ?thesis
      by (auto simp: define_inv_def valid_section_def intro: cfg_ok_keep)
  next
    case plug
    then have "plugin_loop lp (i + 1) (drop (i + 1) (tokens c)) c = Some (i', c')"
      by (auto simp: ParseTokenPlugin_def split: option.splits)
    from plugin_loop_ok [OF this] assms(2,3) show ?thesis
      by (auto simp: valid_section_def intro: cfg_ok_keep)
  next
    case word
    from parser_good [of n] assms(2,3) have "goes_on c i (ParseTokenWord n sec i line c)" by (simp add: word_good_def)
    with word assms(3) show ?thesis by (auto simp: goes_on_def extends_cfg_facts)
  qed
qed

lemma parse_loop_ok:
  "parse_loop n lp sec i line c = Inr (Some c') \<Longrightarrow> cfg_ok c \<Longrightarrow> valid_section sec c \<Longrightarrow>
   cfg_ok c' \<and> tokens c' = tokens c"
proof (induction n lp sec i line c arbitrary: c' rule: parse_loop.induct)
  case (2 n lp sec i line c)
  let ?t = "t_type (tokens c ! i)" and ?v = "t_value (tokens c ! i)"
  consider (fin) "c' = c"
    | (word) i1 line1 c1 where "i < length (tokens c)" "?t = TokenWord"
        "parse_word n lp sec ?v i line c = Inr (Some (i1, line1, c1))"
        "parse_loop n lp sec (i1 + 1) line1 c1 = Inr (Some c')"
    | (skip) "i < length (tokens c)" "?t = TokenComment \<or> ?t = TokenSpace" "parse_loop n lp sec (i + 1) line c = Inr (Some c')"
    | (eol) "i < length (tokens c)" "?t = TokenEOL" "parse_loop n lp sec (i + 1) (line + 1) c = Inr (Some c')"
    using 2(4) by (auto simp: Let_def split: if_splits)
  then show ?case
  proof cases
    case fin
    with 2(5) show ?thesis by simp
  next
    case word
    note ok = parse_word_ok [OF word(3) 2(5,6)]
    from 2(1) [OF _ refl refl word(2) word(3) refl refl word(4)] ok word(1) show ?thesis by simp
  next
    case skip
    from 2(2) [OF _ refl refl _ skip(2,3) 2(5,6)] skip(1,2) show ?thesis by auto
  next
    case eol
    from 2(3) [OF _ refl refl _ _ eol(2,3) 2(5,6)] eol(1,2) show ?thesis by auto
  qed
qed simp

lemma ParseTokens_keeps:
  assumes "ParseTokens n lp c = Inr (Some c')" and "macros c = []"
  shows "cfg_ok c' \<and> tokens c' = tokens c"
proof -
  let ?c = "c\<lparr>cfields := [], sections := [\<lparr>sc_parent = -1, sc_type = []\<rparr>]\<rparr>"
  have "parse_loop n lp 0 0 1 ?c = Inr (Some c')"
    using assms(1) by (simp add: ParseTokens_def AddSection_def ClearFields_def ClearSections_def)
  moreover have "cfg_ok ?c" "valid_section 0 ?c"
    using assms(2) by (auto simp: cfg_ok_def section_tree_def unique_fields_def valid_section_def)
  ultimately show ?thesis using parse_loop_ok by fastforce
qed

text \<open>C32: The parser only builds well-formed databases.  Whatever the tokens and however deep the fuel, if \<open>ParseTokens\<close>
  succeeds then: section 0 is the root and every other section has an earlier section as its parent; every field belongs to
  an existing section, no two fields have the same section and name, and each of their values is the index of a number,
  string or Boolean token; and every macro body opens a section before any other word, so that expanding it adds the section
  its contents go to.  The token list is unchanged.\<close>

theorem ParseTokens_well_formed:
  assumes "ParseTokens n lp c = Inr (Some c')" and "macros c = []"
  shows "cfg_ok c' \<and> tokens c' = tokens c"
  using ParseTokens_keeps [OF assms] .

section \<open>Without macros parsing always returns\<close>

definition returns :: "'a outcome \<Rightarrow> bool" where
  "returns r \<longleftrightarrow> (\<exists>x. r = Inr x)"

lemma returns_Inr [simp]: "returns (Inr x)" and returns_Inl [simp]: "\<not> returns (Inl e)"
  by (simp_all add: returns_def)

lemma returns_bindr:
  "returns m \<Longrightarrow> (\<And>x. m = Inr (Some x) \<Longrightarrow> returns (f x)) \<Longrightarrow> returns (bindr m f)"
  by (cases "(m, f)" rule: bindr.cases) auto

lemma AddFieldValue_returns: "f < length (cfields c) \<Longrightarrow> \<exists>c'. AddFieldValue f ix k c = Inr c' \<and> length (cfields c') = length (cfields c)"
  by (simp add: AddFieldValue_def)

lemma tuple_loop_returns: "f < length (cfields c) \<Longrightarrow> returns (tuple_loop f cnt index i ts c)"
proof (induction f cnt index i ts c rule: tuple_loop.induct)
  case (2 f cnt index i t ts c)
  obtain c' where c': "AddFieldValue f cnt i c = Inr c'" "length (cfields c') = length (cfields c)"
    using AddFieldValue_returns [OF 2(3)] by blast
  with 2(1) [of c'] 2(2,3) show ?case by (simp del: bindo_Inr_iff)
qed simp

lemma AddField_index: "AddField sec name line c = (f, c1) \<Longrightarrow> f < length (cfields c1)"
  by (rule AddField_result)

lemma field_loop_returns: "index < length (tokens c) \<Longrightarrow> returns (field_loop sec index line i ts c)"
proof (induction sec index line i ts c rule: field_loop.induct)
  case (2 sec index line i t ts c)
  let ?name = "t_value (tokens c ! index)"
  obtain f c1 where a: "AddField sec ?name line c = (f, c1)" by (cases "AddField sec ?name line c")
  note f = AddField_index [OF a]
  obtain c2 where c2: "AddFieldValue f 0 i c1 = Inr c2" using AddFieldValue_returns [OF f] by blast
  have g: "GetTokenValue (tokens c) index = Inr ?name" using 2(2) by (simp add: GetTokenValue_def)
  have t: "returns (ParseTokenTuple f i c1)"
    unfolding ParseTokenTuple_def by (rule tuple_loop_returns [OF f])
  show ?case using 2 by (simp add: g a c2 t)
qed simp

lemma ParseTokenField_returns: "i < length (tokens c) \<Longrightarrow> returns (ParseTokenField sec i line c)"
  unfolding ParseTokenField_def by (intro returns_bindr field_loop_returns) auto

text \<open>The fuel each routine needs from index \<open>i\<close> on.\<close>

definition word_ret :: "nat \<Rightarrow> bool" where
  "word_ret n \<longleftrightarrow> (\<forall>sec i line c. cfg_ok c \<longrightarrow> valid_section sec c \<longrightarrow> macros c = [] \<longrightarrow> i < length (tokens c) \<longrightarrow>
     3 * (length (tokens c) - i) \<le> n \<longrightarrow> returns (ParseTokenWord n sec i line c))"

definition section_ret :: "nat \<Rightarrow> bool" where
  "section_ret n \<longleftrightarrow> (\<forall>sec i line c. cfg_ok c \<longrightarrow> valid_section sec c \<longrightarrow> macros c = [] \<longrightarrow> i < length (tokens c) \<longrightarrow>
     3 * (length (tokens c) - i) \<le> n + 1 \<longrightarrow> returns (ParseTokenSection n sec i line c))"

definition loop_ret :: "nat \<Rightarrow> bool" where
  "loop_ret n \<longleftrightarrow> (\<forall>new sec i line c. cfg_ok c \<longrightarrow> valid_section sec c \<longrightarrow> macros c = [] \<longrightarrow>
     3 * (length (tokens c) - i) < n \<longrightarrow> returns (section_loop n new sec i line c))"

lemma word_ret_step: assumes "section_ret n" shows "word_ret (Suc n)"
  unfolding word_ret_def
proof (intro allI impI)
  fix sec i line c
  assume c: "cfg_ok c" "valid_section sec c" "macros c = []" "i < length (tokens c)" "3 * (length (tokens c) - i) \<le> Suc n"
  then have "returns (ParseTokenSection n sec i l c)" "returns (ParseTokenField sec i l c)" for l
    using assms by (simp_all add: section_ret_def ParseTokenField_returns)
  then show "returns (ParseTokenWord (Suc n) sec i line c)"
    by (auto split: option.split prod.split bool.split)
qed

lemma loop_retD:
  "loop_ret n \<Longrightarrow> cfg_ok c \<Longrightarrow> valid_section sec c \<Longrightarrow> macros c = [] \<Longrightarrow> 3 * (length (tokens c) - i) < n \<Longrightarrow>
   returns (section_loop n new sec i line c)"
  by (simp add: loop_ret_def)

lemma section_ret_step: assumes "loop_ret n" shows "section_ret (Suc n)"
  unfolding section_ret_def
proof (intro allI impI)
  fix sec i line c
  assume c: "cfg_ok c" "valid_section sec c" "macros c = []"
    and i: "i < length (tokens c)" "3 * (length (tokens c) - i) \<le> Suc n + 1"
  have "3 * (length (tokens c) - (i + 1)) < n" using i by linarith
  note loop_retD [OF assms c this]
  then show "returns (ParseTokenSection (Suc n) sec i line c)"
    using c i by (simp add: GetTokenValue_def LookupMacro_def)
qed

lemma loop_ret_step: assumes "word_ret n" "loop_ret n" shows "loop_ret (Suc n)"
  unfolding loop_ret_def
proof (intro allI impI)
  fix new :: "string option" and sec i line c
  assume c: "cfg_ok c" "valid_section sec c" "macros c = []" and n: "3 * (length (tokens c) - i) < Suc n"
  show "returns (section_loop (Suc n) new sec i line c)"
  proof (cases "i < length (tokens c)")
    case True
    have n1: "3 * (length (tokens c) - (i + 1)) < n" using n True by linarith
    note nxt = loop_retD [OF assms(2) c n1]
    have sect: "returns (section_loop n new sec' (i + 1) line c')" if "AddSection sec name c = (sec', c')" for name sec' c'
    proof -
      note ok = AddSection_ok [OF c(1,2) that]
      from c(3) n1 show ?thesis
        by (intro loop_retD [OF assms(2) ok(1,3)]) (simp_all add: extends_cfg_facts [OF ok(2)])
    qed
    have word: "returns (bindr (ParseTokenWord n sec i line c) (\<lambda>(i', line', c'). section_loop n new sec (i' + 1) line' c'))"
    proof (rule returns_bindr)
      show "returns (ParseTokenWord n sec i line c)" using assms(1) c n True by (simp add: word_ret_def)
    next
      fix x assume "ParseTokenWord n sec i line c = Inr (Some x)"
      moreover obtain i' line' c' where x: "x = (i', line', c')" by (cases x)
      ultimately have "cfg_ok c'" and e: "extends_cfg c c'" and "i \<le> i'"
        using parser_good [of n] c by (auto simp: word_good_def goes_on_def)
      moreover from this n have "3 * (length (tokens c') - (i' + 1)) < n" using extends_cfg_facts(1) [OF e] True by simp
      ultimately show "returns (case x of (i', line', c') \<Rightarrow> section_loop n new sec (i' + 1) line' c')"
        using c x by (auto intro!: loop_retD [OF assms(2)] simp: extends_cfg_facts [OF e])
    qed
    obtain sec' c' where a: "AddSection sec (the new) c = (sec', c')" by (cases "AddSection sec (the new) c")
    show ?thesis
      using True nxt sect [OF a] word a by (auto simp: Let_def split: option.split)
  qed simp
qed

lemma parser_returns: "word_ret n \<and> section_ret n \<and> loop_ret n"
proof (induction n)
  case 0
  show ?case by (auto simp: word_ret_def section_ret_def loop_ret_def)
next
  case (Suc n)
  then show ?case using word_ret_step section_ret_step loop_ret_step by blast
qed

definition no_define :: "token list \<Rightarrow> bool" where
  "no_define toks \<longleftrightarrow> (\<forall>t \<in> set toks. \<not> (t_type t = TokenWord \<and> t_value t = ''define''))"

lemma parse_word_macros:
  assumes "parse_word n lp sec v i line c = Inr (Some (i', line', c'))" "cfg_ok c" "valid_section sec c" "v \<noteq> ''define''"
  shows "macros c' = macros c"
proof -
  have "goes_on c i (ParseTokenWord n sec i line c)" using parser_good [of n] assms(2,3) by (simp add: word_good_def)
  with assms show ?thesis
    by (auto simp: parse_word_def ParseTokenInclude_def ParseTokenPlugin_def goes_on_def extends_cfg_facts
        split: if_splits option.splits dest!: plugin_loop_ok)
qed

lemma parse_word_returns:
  assumes "cfg_ok c" "valid_section sec c" "macros c = []" "i < length (tokens c)" "3 * (length (tokens c) - i) \<le> n"
  shows "returns (parse_word n lp sec v i line c)"
proof -
  have "returns (ParseTokenWord n sec i line c)" using parser_returns [of n] assms by (simp add: word_ret_def)
  then show ?thesis
    by (auto simp: parse_word_def ParseTokenInclude_def ParseTokenDefine_def ParseTokenPlugin_def split: option.split)
qed

lemma parse_loop_returns:
  "cfg_ok c \<Longrightarrow> valid_section sec c \<Longrightarrow> macros c = [] \<Longrightarrow> no_define (tokens c) \<Longrightarrow>
   3 * (length (tokens c) - i) < n \<Longrightarrow> returns (parse_loop n lp sec i line c)"
proof (induction n arbitrary: i line c)
  case (Suc n)
  let ?t = "tokens c ! i"
  show ?case
  proof (cases "i < length (tokens c)")
    case True
    have n1: "3 * (length (tokens c) - (i + 1)) < n" using Suc.prems(5) True by linarith
    note nxt = Suc.IH [OF Suc.prems(1-4) n1]
    have word: "returns (bindr (parse_word n lp sec (t_value ?t) i line c) (\<lambda>(i', line', c'). parse_loop n lp sec (i' + 1) line' c'))"
      if "t_type ?t = TokenWord"
    proof (rule returns_bindr)
      show "returns (parse_word n lp sec (t_value ?t) i line c)"
        using parse_word_returns [OF Suc.prems(1-3) True] Suc.prems(5) by simp
    next
      fix x assume "parse_word n lp sec (t_value ?t) i line c = Inr (Some x)"
      moreover obtain i' line' c' where x: "x = (i', line', c')" by (cases x)
      ultimately have p: "parse_word n lp sec (t_value ?t) i line c = Inr (Some (i', line', c'))" by simp
      have "t_value ?t \<noteq> ''define''" using Suc.prems(4) True that by (auto simp: no_define_def)
      note m = parse_word_macros [OF p Suc.prems(1,2) this] and ok = parse_word_ok [OF p Suc.prems(1,2)]
      have "length (tokens c') - (i' + 1) \<le> length (tokens c) - (i + 1)" using ok by (simp add: diff_le_mono2)
      then have "3 * (length (tokens c') - (i' + 1)) < n" using n1 by linarith
      then show "returns (case x of (i', line', c') \<Rightarrow> parse_loop n lp sec (i' + 1) line' c')"
        using ok m Suc.prems x by (auto intro!: Suc.IH)
    qed
    show ?thesis using True nxt word by (simp add: Let_def)
  qed simp
qed simp

text \<open>C33: Without macros the parser always returns and runs into no fault.  For tokens without the word \<open>define\<close>, three
  units of fuel per token and one more are enough; then \<open>ParseTokens\<close> either succeeds or reports a syntax error, and it
  never fails an assertion, follows a null pointer or leaves an array, whatever the order of the tokens.\<close>

theorem ParseTokens_returns:
  assumes "no_define (tokens c)" and "macros c = []" and "3 * length (tokens c) < n"
  shows "\<exists>r. ParseTokens n lp c = Inr r"
proof -
  let ?c = "c\<lparr>cfields := [], sections := [\<lparr>sc_parent = -1, sc_type = []\<rparr>]\<rparr>"
  have "cfg_ok ?c" "valid_section 0 ?c"
    using assms(2) by (auto simp: cfg_ok_def section_tree_def unique_fields_def valid_section_def)
  with assms have "returns (parse_loop n lp 0 0 1 ?c)" by (intro parse_loop_returns) simp_all
  then show ?thesis by (simp add: returns_def ParseTokens_def AddSection_def ClearFields_def ClearSections_def)
qed

end
