(* ===== verification/ConfigGrammar.thy ===== *)
theory ConfigGrammar
  imports ConfigParser
begin

text \<open>
  What the parser of \<open>configfile.cc\<close> computes: configuration files as trees, their canonical token
  sequence, the database such a tree stands for, and the proof that \<open>ParseTokens\<close> builds exactly this
  database; then inputs on which the parser misbehaves.
\<close>

section \<open>Configuration trees\<close>

datatype entry =
    EVal string token_type string
  | ETup string "(token_type \<times> string) list"
  | ESec string "entry list"

definition tok :: "token_type \<Rightarrow> string \<Rightarrow> token" where
  "tok ty v = \<lparr>t_include = 0, t_type = ty, t_value = v\<rparr>"

definition blank :: token where "blank = tok TokenSpace '' ''"
definition eol :: token where "eol = tok TokenEOL [LF]"

lemma tok_fields [simp]:
  "t_type (tok ty v) = ty" "t_value (tok ty v) = v"
  "t_type blank = TokenSpace" "t_type eol = TokenEOL"
  by (simp_all add: tok_def blank_def eol_def)

definition print_values :: "(token_type \<times> string) list \<Rightarrow> token list" where
  "print_values vs = concat (map (\<lambda>(ty, v). [blank, tok ty v]) vs)"

fun print_entry :: "entry \<Rightarrow> token list" where
  "print_entry (EVal nm ty v) = [tok TokenWord nm, blank, tok ty v, eol]"
| "print_entry (ETup nm vs) = [tok TokenWord nm, blank, tok TokenOpenTuple ''[''] @ print_values vs @ [tok TokenCloseTuple '']'', eol]"
| "print_entry (ESec nm es) =
     [tok TokenWord nm, tok TokenOpenSection ''('', eol] @ concat (map print_entry es) @ [tok TokenCloseSection '')'', eol]"

definition print_entries :: "entry list \<Rightarrow> token list" where
  "print_entries es = concat (map print_entry es)"

fun elines :: "entry \<Rightarrow> nat" where
  "elines (EVal nm ty v) = 1"
| "elines (ETup nm vs) = 1"
| "elines (ESec nm es) = 2 + sum_list (map elines es)"

fun entry_ok :: "entry \<Rightarrow> bool" where
  "entry_ok (EVal nm ty v) \<longleftrightarrow> value_type ty"
| "entry_ok (ETup nm vs) \<longleftrightarrow> (\<forall>(ty, v) \<in> set vs. ty = TokenNum \<or> ty = TokenString)"
| "entry_ok (ESec nm es) \<longleftrightarrow> (\<forall>e \<in> set es. entry_ok e)"

fun entry_name :: "entry \<Rightarrow> string" where
  "entry_name (EVal nm ty v) = nm"
| "entry_name (ETup nm vs) = nm"
| "entry_name (ESec nm es) = nm"

section \<open>The database of a tree\<close>

definition put_value :: "nat \<Rightarrow> nat \<Rightarrow> nat \<Rightarrow> cfg \<Rightarrow> cfg" where
  "put_value f ix k c = c\<lparr>cfields := (cfields c)[f := set_value ix k (cfields c ! f)]\<rparr>"

fun put_values :: "nat \<Rightarrow> nat \<Rightarrow> nat \<Rightarrow> (token_type \<times> string) list \<Rightarrow> cfg \<Rightarrow> cfg" where
  "put_values f ix k [] c = c"
| "put_values f ix k (v # vs) c = put_values f (ix + 1) (k + 2) vs (put_value f ix k c)"

text \<open>\<open>i\<close>: the index of the first token, \<open>line\<close>: its line.\<close>

fun build_entry :: "int \<Rightarrow> nat \<Rightarrow> nat \<Rightarrow> entry \<Rightarrow> cfg \<Rightarrow> cfg"
and build_entries :: "int \<Rightarrow> nat \<Rightarrow> nat \<Rightarrow> entry list \<Rightarrow> cfg \<Rightarrow> cfg" where
  "build_entry sec i line (EVal nm ty v) c = (let (f, c1) = AddField sec nm line c in put_value f 0 (i + 2) c1)"
| "build_entry sec i line (ETup nm vs) c = (let (f, c1) = AddField sec nm line c in put_values f 0 (i + 4) vs c1)"
| "build_entry sec i line (ESec nm es) c = (let (s, c1) = AddSection sec nm c in build_entries s (i + 3) (line + 1) es c1)"
| "build_entries sec i line [] c = c"
| "build_entries sec i line (e # es) c =
     build_entries sec (i + length (print_entry e)) (line + elines e) es (build_entry sec i line e c)"

section \<open>The parser follows the tree\<close>

text \<open>With enough fuel, \<open>f\<close> returns \<open>r\<close>.\<close>

definition run_to :: "(nat \<Rightarrow> 'a outcome) \<Rightarrow> 'a \<Rightarrow> bool" where
  "run_to f r \<longleftrightarrow> (\<exists>N. \<forall>n \<ge> N. f n = Inr r)"

lemma run_to_const: "f = Inr r \<Longrightarrow> run_to (\<lambda>_. f) r"
  by (simp add: run_to_def)

lemma run_to_step:
  assumes "run_to g r" and "\<And>n. g n = Inr r \<Longrightarrow> f (Suc n) = Inr r"
  shows "run_to f r"
proof -
  from assms(1) obtain N where N: "\<And>n. N \<le> n \<Longrightarrow> g n = Inr r" by (auto simp: run_to_def)
  have "f n = Inr r" if "Suc N \<le> n" for n
  proof -
    from that obtain m where "n = Suc m" "N \<le> m" by (cases n) auto
    with N assms(2) show ?thesis by blast
  qed
  then show ?thesis by (auto simp: run_to_def)
qed

lemma run_to_step2:
  assumes "run_to g r1" "run_to h r2" and "\<And>n. g n = Inr r1 \<Longrightarrow> h n = Inr r2 \<Longrightarrow> f (Suc n) = Inr r2"
  shows "run_to f r2"
proof -
  from assms(1,2) obtain N M where "\<And>n. N \<le> n \<Longrightarrow> g n = Inr r1" "\<And>n. M \<le> n \<Longrightarrow> h n = Inr r2"
    unfolding run_to_def by meson
  then have "run_to (\<lambda>n. if g n = Inr r1 \<and> h n = Inr r2 then Inr r2 else Inl OutOfFuel) r2"
    unfolding run_to_def by (intro exI [of _ "max N M"]) simp
  then show ?thesis by (rule run_to_step) (auto intro: assms(3) split: if_splits)
qed

lemma word_to_section:
  assumes "word_ahead line (drop (i + 1) (tokens c)) = Some (True, line')"
    and "run_to (\<lambda>n. ParseTokenSection n sec i line' c) x"
  shows "run_to (\<lambda>n. ParseTokenWord n sec i line c) x"
  by (rule run_to_step [OF assms(2)]) (use assms(1) in simp)

lemma word_to_field:
  assumes "word_ahead line (drop (i + 1) (tokens c)) = Some (False, line')"
    and "ParseTokenField sec i line' c = Inr x"
  shows "run_to (\<lambda>n. ParseTokenWord n sec i line c) x"
  by (rule run_to_step [OF run_to_const [OF assms(2)]]) (use assms in simp)

lemma section_to_loop:
  assumes "macros c = []" "i < length (tokens c)"
    and "run_to (\<lambda>n. section_loop n (Some (t_value (tokens c ! i))) sec (i + 1) line c) x"
  shows "run_to (\<lambda>n. ParseTokenSection n sec i line c) x"
  by (rule run_to_step [OF assms(3)]) (use assms(1,2) in \<open>simp add: GetTokenValue_def LookupMacro_def\<close>)

lemma loop_open:
  assumes "i < length (tokens c)" "t_type (tokens c ! i) = TokenOpenSection" "AddSection sec name c = (sec', c')"
    and "run_to (\<lambda>n. section_loop n (Some name) sec' (i + 1) line c') x"
  shows "run_to (\<lambda>n. section_loop n (Some name) sec i line c) x"
  by (rule run_to_step [OF assms(4)]) (use assms(1-3) in \<open>simp add: Let_def\<close>)

lemma loop_close:
  assumes "i < length (tokens c)" "t_type (tokens c ! i) = TokenCloseSection"
  shows "run_to (\<lambda>n. section_loop n new sec i line c) (Some (i, line, c))"
  by (rule run_to_step [OF run_to_const [OF refl]]) (use assms in \<open>simp add: Let_def\<close>)

lemma loop_eol:
  assumes "i < length (tokens c)" "t_type (tokens c ! i) = TokenEOL"
    and "j = i + 1" "run_to (\<lambda>n. section_loop n new sec j (line + 1) c) x"
  shows "run_to (\<lambda>n. section_loop n new sec i line c) x"
  by (rule run_to_step [OF assms(4)]) (use assms(1-3) in \<open>simp add: Let_def\<close>)

lemma loop_word:
  assumes "i < length (tokens c)" "t_type (tokens c ! i) = TokenWord"
    and "run_to (\<lambda>n. ParseTokenWord n sec i line c) (Some (i', line', c'))"
    and "run_to (\<lambda>n. section_loop n new sec (i' + 1) line' c') x"
  shows "run_to (\<lambda>n. section_loop n new sec i line c) x"
  by (rule run_to_step2 [OF assms(3,4)]) (use assms(1,2) in \<open>simp add: Let_def\<close>)

text \<open>The tokens of \<open>c\<close> from index \<open>i\<close> on start with \<open>ts\<close>.\<close>

definition reads :: "cfg \<Rightarrow> nat \<Rightarrow> token list \<Rightarrow> bool" where
  "reads c i ts \<longleftrightarrow> i \<le> length (tokens c) \<and> (\<exists>post. drop i (tokens c) = ts @ post)"

lemma reads_Cons: "reads c i (t # ts) \<longleftrightarrow> i < length (tokens c) \<and> tokens c ! i = t \<and> reads c (i + 1) ts"
  unfolding reads_def
  by (auto dest!: drop_Cons simp: Cons_nth_drop_Suc [symmetric])

lemma reads_Nil: "reads c i [] \<longleftrightarrow> i \<le> length (tokens c)"
  by (simp add: reads_def)

lemma reads_append: "reads c i (xs @ ys) \<longleftrightarrow> reads c i xs \<and> reads c (i + length xs) ys"
proof (induction xs arbitrary: i)
  case Nil
  show ?case by (auto simp: reads_Nil) (simp add: reads_def)
next
  case (Cons x xs)
  then show ?case by (auto simp: reads_Cons)
qed

lemma reads_tokens: "reads c i ts \<Longrightarrow> tokens c' = tokens c \<Longrightarrow> reads c' i ts"
  by (simp add: reads_def)

lemma reads_drop: "reads c i (t # ts) \<Longrightarrow> drop i (tokens c) = t # drop (i + 1) (tokens c)"
  by (simp add: reads_Cons Cons_nth_drop_Suc [symmetric])

lemma put_value_tokens [simp]:
  "tokens (put_value f ix k c) = tokens c" "macros (put_value f ix k c) = macros c"
  "length (cfields (put_value f ix k c)) = length (cfields c)"
  by (simp_all add: put_value_def)

lemma put_values_tokens [simp]:
  "tokens (put_values f ix k vs c) = tokens c" "macros (put_values f ix k vs c) = macros c"
  by (induction f ix k vs c rule: put_values.induct) auto

lemma AddField_tokens:
  "AddField sec nm line c = (f, c1) \<Longrightarrow> tokens c1 = tokens c \<and> macros c1 = macros c \<and> f < length (cfields c1)"
  using AddField_result [of sec nm line c f c1] by (auto simp: extends_cfg_facts)

lemma AddFieldValue_put: "f < length (cfields c) \<Longrightarrow> AddFieldValue f ix k c = Inr (put_value f ix k c)"
  by (simp add: AddFieldValue_def put_value_def)

lemma build_entry_tokens:
  "tokens (build_entry sec i line e c) = tokens c \<and> macros (build_entry sec i line e c) = macros c"
  "tokens (build_entries sec i line es c) = tokens c \<and> macros (build_entries sec i line es c) = macros c"
proof (induction sec i line e c and sec i line es c rule: build_entry_build_entries.induct)
  case (1 sec i line nm ty v c)
  then show ?case by (cases "AddField sec nm line c") (use AddField_tokens in fastforce)
next
  case (2 sec i line nm vs c)
  then show ?case by (cases "AddField sec nm line c") (use AddField_tokens in fastforce)
next
  case (3 sec i line nm es c)
  then show ?case by (auto simp: AddSection_def)
qed auto

lemma tuple_loop_values:
  "f < length (cfields c) \<Longrightarrow> \<forall>(ty, v) \<in> set vs. ty = TokenNum \<or> ty = TokenString \<Longrightarrow>
   tuple_loop f ix index i (print_values vs @ tok TokenCloseTuple '']'' # post) c =
     Inr (Some (i + 2 * length vs, put_values f ix (i + 1) vs c))"
proof (induction vs arbitrary: ix index i c)
  case (Cons v vs)
  obtain ty x where v: "v = (ty, x)" by (cases v)
  have "tuple_loop f ix index i (print_values (v # vs) @ tok TokenCloseTuple '']'' # post) c
      = tuple_loop f (ix + 1) (i + 1) (i + 2) (print_values vs @ tok TokenCloseTuple '']'' # post) (put_value f ix (i + 1) c)"
    using Cons.prems v by (auto simp: print_values_def AddFieldValue_put)
  also have "\<dots> = Inr (Some (i + 2 + 2 * length vs, put_values f (ix + 1) (i + 2 + 1) vs (put_value f ix (i + 1) c)))"
    using Cons.prems by (intro Cons.IH) auto
  finally show ?case by simp
qed (simp add: print_values_def)

lemma ParseTokenField_value:
  assumes "reads c i [tok TokenWord nm, blank, tok ty v]" "value_type ty" "AddField sec nm line c = (f, c1)"
  shows "ParseTokenField sec i line c = Inr (Some (i + 2, line, put_value f 0 (i + 2) c1))"
proof -
  have d: "drop (i + 1) (tokens c) = blank # tok ty v # drop (i + 3) (tokens c)"
    using assms(1) by (simp add: reads_Cons Cons_nth_drop_Suc [symmetric] numeral_3_eq_3)
  show ?thesis
    using assms AddField_tokens [OF assms(3)]
    by (simp add: ParseTokenField_def d [simplified] value_type_def reads_Cons GetTokenValue_def AddFieldValue_put)
qed

lemma ParseTokenField_tuple:
  assumes "reads c i ([tok TokenWord nm, blank, tok TokenOpenTuple ''[''] @ print_values vs @ [tok TokenCloseTuple '']''])"
    and "\<forall>(ty, v) \<in> set vs. ty = TokenNum \<or> ty = TokenString" and "AddField sec nm line c = (f, c1)"
  shows "ParseTokenField sec i line c = Inr (Some (i + 3 + 2 * length vs, line, put_values f 0 (i + 4) vs c1))"
proof -
  have d: "drop (i + 1) (tokens c) = blank # tok TokenOpenTuple ''['' # drop (i + 3) (tokens c)"
    using assms(1) by (simp add: reads_Cons Cons_nth_drop_Suc [symmetric] numeral_3_eq_3)
  have "reads c (i + 3) (print_values vs @ [tok TokenCloseTuple '']''])"
    using assms(1) by (simp add: reads_Cons numeral_3_eq_3)
  then obtain post where p: "drop (i + 3) (tokens c) = print_values vs @ tok TokenCloseTuple '']'' # post"
    by (auto simp: reads_def)
  note t = AddField_tokens [OF assms(3)]
  have "ParseTokenTuple f (i + 2) c1 = Inr (Some (i + 3 + 2 * length vs, put_values f 0 (i + 4) vs c1))"
    using tuple_loop_values [of f c1 vs 0 "i + 2" "i + 3" post] t assms(2) p
    by (simp add: ParseTokenTuple_def add.commute numeral_3_eq_3 numeral_eq_Suc)
  then show ?thesis
    using assms(1,3) by (simp add: ParseTokenField_def d [simplified] reads_Cons GetTokenValue_def)
qed

lemma length_print_values [simp]: "length (print_values vs) = 2 * length vs"
  by (induction vs) (auto simp: print_values_def)

text \<open>Each entry is parsed as a word, up to the line end that closes it.\<close>

definition parses :: "entry \<Rightarrow> bool" where
  "parses e \<longleftrightarrow> (\<forall>c i sec line. reads c i (print_entry e) \<longrightarrow> macros c = [] \<longrightarrow> entry_ok e \<longrightarrow>
     run_to (\<lambda>n. ParseTokenWord n sec i line c)
       (Some (i + length (print_entry e) - 2, line + elines e - 1, build_entry sec i line e c)))"

lemma print_entry_shape:
  "\<exists>ts. print_entry e = tok TokenWord (entry_name e) # ts @ [eol]"
  by (cases e) auto

lemma entry_end:
  assumes "reads c i (print_entry e)"
  shows "i < length (tokens c)" "tokens c ! i = tok TokenWord (entry_name e)"
    "i + length (print_entry e) - 1 < length (tokens c)" "tokens c ! (i + length (print_entry e) - 1) = eol"
    "0 < elines e" "2 \<le> length (print_entry e)"
proof -
  obtain ts where ts: "print_entry e = tok TokenWord (entry_name e) # ts @ [eol]" using print_entry_shape by blast
  with assms have r: "reads c i ([tok TokenWord (entry_name e)] @ ts @ [eol])" by simp
  show "i < length (tokens c)" "tokens c ! i = tok TokenWord (entry_name e)"
    using r by (auto simp: reads_append reads_Cons)
  have "reads c (i + 1 + length ts) [eol]" using r unfolding reads_append by simp
  then show "i + length (print_entry e) - 1 < length (tokens c)" "tokens c ! (i + length (print_entry e) - 1) = eol"
    by (auto simp: reads_Cons ts)
  show "0 < elines e" by (cases e) auto
  show "2 \<le> length (print_entry e)" using ts by simp
qed

lemma loop_entry:
  assumes "parses e" "entry_ok e" "reads c i (print_entry e)" "macros c = []"
    and k: "run_to (\<lambda>n. section_loop n new sec (i + length (print_entry e)) (line + elines e) (build_entry sec i line e c)) x"
  shows "run_to (\<lambda>n. section_loop n new sec i line c) x"
proof (rule loop_word)
  note en = entry_end [OF assms(3)]
  let ?c = "build_entry sec i line e c" and ?j = "i + length (print_entry e)"
  show "i < length (tokens c)" "t_type (tokens c ! i) = TokenWord" using en by simp_all
  show "run_to (\<lambda>n. ParseTokenWord n sec i line c) (Some (?j - 2, line + elines e - 1, ?c))"
    using assms(1-4) unfolding parses_def by blast
  have "run_to (\<lambda>n. section_loop n new sec (?j - 1) (line + elines e - 1) ?c) x"
  proof (rule loop_eol [OF _ _ refl])
    show "?j - 1 < length (tokens ?c)" "t_type (tokens ?c ! (?j - 1)) = TokenEOL"
      using en by (simp_all add: build_entry_tokens)
    have "?j - 1 + 1 = ?j" "line + elines e - 1 + 1 = line + elines e" using en(5,6) by linarith+
    then show "run_to (\<lambda>n. section_loop n new sec (?j - 1 + 1) (line + elines e - 1 + 1) ?c) x"
      using k by (simp only:)
  qed
  moreover have "?j - 2 + 1 = ?j - 1" using en by simp
  ultimately show "run_to (\<lambda>n. section_loop n new sec (?j - 2 + 1) (line + elines e - 1) ?c) x" by simp
qed

lemma loop_entries:
  "\<forall>e \<in> set es. parses e \<and> entry_ok e \<Longrightarrow> reads c i (concat (map print_entry es)) \<Longrightarrow> macros c = [] \<Longrightarrow>
   run_to (\<lambda>n. section_loop n new sec (i + length (concat (map print_entry es))) (line + sum_list (map elines es))
     (build_entries sec i line es c)) x \<Longrightarrow>
   run_to (\<lambda>n. section_loop n new sec i line c) x"
proof (induction es arbitrary: i line c)
  case (Cons e es)
  from Cons.prems(2) have r: "reads c i (print_entry e)" "reads c (i + length (print_entry e)) (concat (map print_entry es))"
    by (simp_all add: reads_append)
  let ?c = "build_entry sec i line e c"
  have "run_to (\<lambda>n. section_loop n new sec (i + length (print_entry e)) (line + elines e) ?c) x"
  proof (rule Cons.IH)
    show "reads ?c (i + length (print_entry e)) (concat (map print_entry es))"
      using reads_tokens [OF r(2)] by (simp add: build_entry_tokens)
  qed (use Cons.prems in \<open>simp_all add: build_entry_tokens add.assoc\<close>)
  from loop_entry [OF _ _ r(1) Cons.prems(3) this] Cons.prems(1) show ?case by simp
qed simp

lemma parses_all: "parses e"
proof (induction e)
  case (EVal nm ty v)
  show ?case
    unfolding parses_def
  proof (intro allI impI)
    fix c i sec line
    assume r: "reads c i (print_entry (EVal nm ty v))" and ok: "entry_ok (EVal nm ty v)"
    obtain f c1 where a: "AddField sec nm line c = (f, c1)" by (cases "AddField sec nm line c")
    from r have r3: "reads c i [tok TokenWord nm, blank, tok ty v]" by (simp add: reads_Cons reads_Nil)
    from ParseTokenField_value [OF r3 _ a] ok
    have p: "ParseTokenField sec i line c = Inr (Some (i + 2, line, put_value f 0 (i + 2) c1))" by simp
    have w: "word_ahead line (drop (i + 1) (tokens c)) = Some (False, line)"
      using r ok by (auto simp: reads_Cons Cons_nth_drop_Suc [symmetric] value_type_def)
    from word_to_field [OF w p]
    show "run_to (\<lambda>n. ParseTokenWord n sec i line c) (Some (i + length (print_entry (EVal nm ty v)) - 2,
        line + elines (EVal nm ty v) - 1, build_entry sec i line (EVal nm ty v) c))" by (simp add: a)
  qed
next
  case (ETup nm vs)
  show ?case
    unfolding parses_def
  proof (intro allI impI)
    fix c i sec line
    assume r: "reads c i (print_entry (ETup nm vs))" and ok: "entry_ok (ETup nm vs)"
    obtain f c1 where a: "AddField sec nm line c = (f, c1)" by (cases "AddField sec nm line c")
    from r have r3: "reads c i ([tok TokenWord nm, blank, tok TokenOpenTuple ''[''] @ print_values vs @ [tok TokenCloseTuple '']''])"
      by (simp add: reads_Cons reads_Nil reads_append)
    from ParseTokenField_tuple [OF r3 _ a] ok
    have p: "ParseTokenField sec i line c = Inr (Some (i + 3 + 2 * length vs, line, put_values f 0 (i + 4) vs c1))" by simp
    have w: "word_ahead line (drop (i + 1) (tokens c)) = Some (False, line)"
      using r by (auto simp: reads_Cons Cons_nth_drop_Suc [symmetric])
    from word_to_field [OF w p]
    show "run_to (\<lambda>n. ParseTokenWord n sec i line c) (Some (i + length (print_entry (ETup nm vs)) - 2,
        line + elines (ETup nm vs) - 1, build_entry sec i line (ETup nm vs) c))" by (simp add: a numeral_3_eq_3)
  qed
next
  case (ESec nm es)
  show ?case
    unfolding parses_def
  proof (intro allI impI)
    fix c i sec line
    assume r: "reads c i (print_entry (ESec nm es))" and m: "macros c = []" and ok: "entry_ok (ESec nm es)"
    let ?body = "concat (map print_entry es)" and ?j = "i + 3 + length (concat (map print_entry es))"
    obtain s c1 where a: "AddSection sec nm c = (s, c1)" by (cases "AddSection sec nm c")
    then have c1: "tokens c1 = tokens c" "macros c1 = []" using m by (auto simp: AddSection_def)
    let ?c = "build_entries s (i + 3) (line + 1) es c1" and ?l = "line + 1 + sum_list (map elines es)"
    have c2: "tokens ?c = tokens c" using c1 by (simp add: build_entry_tokens)
    from r have rs: "i < length (tokens c)" "tokens c ! i = tok TokenWord nm" "i + 1 < length (tokens c)"
        "tokens c ! (i + 1) = tok TokenOpenSection ''(''" "i + 2 < length (tokens c)" "tokens c ! (i + 2) = eol"
        "reads c (i + 3) ?body" "?j < length (tokens c)" "tokens c ! ?j = tok TokenCloseSection '')''"
      by (simp_all add: reads_Cons reads_append numeral_3_eq_3)
    have "run_to (\<lambda>n. section_loop n (Some nm) s ?j ?l ?c) (Some (?j, ?l, ?c))"
      using rs c2 by (intro loop_close) simp_all
    then have "run_to (\<lambda>n. section_loop n (Some nm) s (i + 3) (line + 1) c1) (Some (?j, ?l, ?c))"
      using ESec ok rs(7) c1 by (intro loop_entries [of es c1 "i + 3"]) (auto intro: reads_tokens)
    from loop_eol [OF _ _ _ this, of "i + 2"]
    have "run_to (\<lambda>n. section_loop n (Some nm) s (i + 2) line c1) (Some (?j, ?l, ?c))"
      using rs(5,6) c1 by simp
    then have "run_to (\<lambda>n. section_loop n (Some nm) s (i + 1 + 1) line c1) (Some (?j, ?l, ?c))" by (simp only: add.assoc one_add_one)
    from loop_open [OF rs(3) _ a this]
    have "run_to (\<lambda>n. section_loop n (Some nm) sec (i + 1) line c) (Some (?j, ?l, ?c))" by (simp only: rs(4) tok_fields)
    with section_to_loop [OF m rs(1), of sec line]
    have "run_to (\<lambda>n. ParseTokenSection n sec i line c) (Some (?j, ?l, ?c))" by (simp only: rs(2) tok_fields)
    moreover have "word_ahead line (drop (i + 1) (tokens c)) = Some (True, line)"
      using rs by (simp add: Cons_nth_drop_Suc [symmetric])
    ultimately have "run_to (\<lambda>n. ParseTokenWord n sec i line c) (Some (?j, ?l, ?c))" by (intro word_to_section)
    moreover have "i + length (print_entry (ESec nm es)) - 2 = ?j" "line + elines (ESec nm es) - 1 = ?l"
        "build_entry sec i line (ESec nm es) c = ?c" using a by simp_all
    ultimately show "run_to (\<lambda>n. ParseTokenWord n sec i line c) (Some (i + length (print_entry (ESec nm es)) - 2,
        line + elines (ESec nm es) - 1, build_entry sec i line (ESec nm es) c))" by (simp only:)
  qed
qed

section \<open>The whole file\<close>

definition plain_name :: "string \<Rightarrow> bool" where
  "plain_name nm \<longleftrightarrow> nm \<noteq> ''include'' \<and> nm \<noteq> ''define'' \<and> nm \<noteq> ''plugin''"

text \<open>The state on entry to the main loop of \<open>ParseTokens\<close>: the global section and no field.\<close>

definition fresh_db :: "cfg \<Rightarrow> cfg" where
  "fresh_db c = c\<lparr>cfields := [], sections := [\<lparr>sc_parent = -1, sc_type = []\<rparr>]\<rparr>"

lemma file_entry:
  assumes "entry_ok e" "plain_name (entry_name e)" "reads c i (print_entry e)" "macros c = []"
    and k: "run_to (\<lambda>n. parse_loop n lp sec (i + length (print_entry e)) (line + elines e) (build_entry sec i line e c)) x"
  shows "run_to (\<lambda>n. parse_loop n lp sec i line c) x"
proof -
  note en = entry_end [OF assms(3)]
  let ?c = "build_entry sec i line e c" and ?j = "i + length (print_entry e)"
  have w: "run_to (\<lambda>n. ParseTokenWord n sec i line c) (Some (?j - 2, line + elines e - 1, ?c))"
    using parses_all [of e] assms(1,3,4) unfolding parses_def by blast
  have eqs: "?j - 1 + 1 = ?j" "line + elines e - 1 + 1 = line + elines e" "?j - 2 + 1 = ?j - 1" using en(5,6) by linarith+
  have "run_to (\<lambda>n. parse_loop n lp sec (?j - 1) (line + elines e - 1) ?c) x"
    by (rule run_to_step [OF k]) (use en eqs in \<open>simp add: build_entry_tokens Let_def del: One_nat_def\<close>)
  then have l: "run_to (\<lambda>n. parse_loop n lp sec (?j - 2 + 1) (line + elines e - 1) ?c) x" by (simp only: eqs)
  show ?thesis
  proof (rule run_to_step2 [OF w l])
    fix n assume "ParseTokenWord n sec i line c = Inr (Some (?j - 2, line + elines e - 1, ?c))"
      and "parse_loop n lp sec (?j - 2 + 1) (line + elines e - 1) ?c = Inr x"
    with en(1,2) assms(2) show "parse_loop (Suc n) lp sec i line c = Inr x"
      by (simp add: Let_def parse_word_def plain_name_def del: One_nat_def)
  qed
qed

lemma file_entries:
  "\<forall>e \<in> set es. entry_ok e \<and> plain_name (entry_name e) \<Longrightarrow> reads c i (print_entries es) \<Longrightarrow> macros c = [] \<Longrightarrow>
   i + length (print_entries es) = length (tokens c) \<Longrightarrow>
   run_to (\<lambda>n. parse_loop n lp sec i line c) (Some (build_entries sec i line es c))"
proof (induction es arbitrary: i line c)
  case Nil
  then have "run_to (\<lambda>n. parse_loop n lp sec i line c) (Some c)"
    by (intro run_to_step [OF run_to_const [OF refl]]) (simp add: print_entries_def)
  then show ?case by simp
next
  case (Cons e es)
  have p: "print_entries (e # es) = print_entry e @ print_entries es" by (simp add: print_entries_def)
  from Cons.prems(2) have r: "reads c i (print_entry e)" "reads c (i + length (print_entry e)) (print_entries es)"
    by (simp_all add: reads_append p)
  let ?c = "build_entry sec i line e c"
  have "run_to (\<lambda>n. parse_loop n lp sec (i + length (print_entry e)) (line + elines e) ?c)
      (Some (build_entries sec (i + length (print_entry e)) (line + elines e) es ?c))"
    using Cons.prems reads_tokens [OF r(2), of ?c]
    by (intro Cons.IH) (simp_all add: build_entry_tokens p)
  from file_entry [OF _ _ r(1) Cons.prems(3) this] Cons.prems(1) show ?case by simp
qed

text \<open>C9: The parser understands the file.  For every configuration tree, parsing its canonical tokens with enough fuel
  succeeds and yields exactly the database of the tree: its sections numbered in the order in which they open, each under
  the section that encloses it, and each field in the section it is written in with its value tokens in order.\<close>

theorem ParseTokens_builds_tree:
  assumes "tokens c = print_entries es" and "macros c = []"
    and "\<forall>e \<in> set es. entry_ok e \<and> plain_name (entry_name e)"
  shows "\<exists>N. \<forall>n \<ge> N. ParseTokens n lp c = Inr (Some (build_entries 0 0 1 es (fresh_db c)))"
proof -
  have "run_to (\<lambda>n. parse_loop n lp 0 0 1 (fresh_db c)) (Some (build_entries 0 0 1 es (fresh_db c)))"
    using assms by (intro file_entries) (simp_all add: fresh_db_def reads_def)
  then show ?thesis
    by (simp add: run_to_def ParseTokens_def AddSection_def ClearFields_def ClearSections_def fresh_db_def)
qed

section \<open>Examples\<close>

definition new_cfg :: "token list \<Rightarrow> cfg" where
  "new_cfg toks = \<lparr>tokens = toks, macros = [], sections = [], cfields = [], plugins = [], unit_length = 1, unit_angle = pi / 180,
     default_host = 16777343, default_robot = 6665\<rparr>"

definition tree1 :: "entry list" where
  "tree1 = [ESec ''driver'' [EVal ''name'' TokenString ''sick'', ETup ''pose'' [(TokenNum, ''1''), (TokenNum, ''2'')],
      ESec ''geom'' [EVal ''on'' TokenBool ''yes'']], EVal ''unit'' TokenString ''m'']"

lemmas parse_simps = ParseTokens_def AddSection_def ClearFields_def ClearSections_def Let_def parse_word_def
  GetTokenValue_def LookupMacro_def ParseTokenField_def ParseTokenTuple_def AddField_def AddFieldValue_def
  ParseTokenDefine_def AddMacro_def set_value_def grow_def eval_nat_numeral new_cfg_def blank_def eol_def tok_def

definition db1 :: cfg where
  "db1 = (new_cfg (print_entries tree1))
     \<lparr>sections := [\<lparr>sc_parent = -1, sc_type = []\<rparr>, \<lparr>sc_parent = 0, sc_type = ''driver''\<rparr>, \<lparr>sc_parent = 1, sc_type = ''geom''\<rparr>],
      cfields := [\<lparr>fd_section = 1, fd_name = ''name'', fd_values = [Some 5], fd_useds = [Some False], fd_line = 2\<rparr>,
       \<lparr>fd_section = 1, fd_name = ''pose'', fd_values = [Some 11, Some 13], fd_useds = [Some False, Some False], fd_line = 3\<rparr>,
       \<lparr>fd_section = 2, fd_name = ''on'', fd_values = [Some 21], fd_useds = [Some False], fd_line = 5\<rparr>,
       \<lparr>fd_section = 0, fd_name = ''unit'', fd_values = [Some 29], fd_useds = [Some False], fd_line = 8\<rparr>]\<rparr>"

lemma build_tree1: "build_entries 0 0 1 tree1 (fresh_db (new_cfg (print_entries tree1))) = db1"
  by (simp add: tree1_def print_entries_def db1_def fresh_db_def parse_simps print_values_def put_value_def)

theorem ParseTokens_builds_tree_witness:
  "\<exists>N. \<forall>n \<ge> N. ParseTokens n (\<lambda>_. True) (new_cfg (print_entries tree1)) = Inr (Some db1)"
proof -
  have "tokens (new_cfg (print_entries tree1)) = print_entries tree1" "macros (new_cfg (print_entries tree1)) = []"
    by (simp_all add: new_cfg_def)
  moreover have "\<forall>e \<in> set tree1. entry_ok e \<and> plain_name (entry_name e)"
    by (simp add: tree1_def plain_name_def value_type_def)
  ultimately show ?thesis using ParseTokens_builds_tree [of "new_cfg (print_entries tree1)" tree1 "\<lambda>_. True"]
    unfolding build_tree1 by blast
qed

lemma parse_tree1: "ParseTokens 40 (\<lambda>_. True) (new_cfg (print_entries tree1)) = Inr (Some db1)"
  by (simp add: tree1_def print_entries_def db1_def parse_simps print_values_def)

lemma db1_ok: "cfg_ok db1"
  using ParseTokens_keeps [OF parse_tree1] by (simp add: new_cfg_def)

theorem ParseTokens_well_formed_witness: "cfg_ok db1"
  using ParseTokens_well_formed [OF parse_tree1] by (simp add: new_cfg_def)

theorem ParseTokens_returns_witness: "\<exists>r. ParseTokens 100 (\<lambda>_. True) (new_cfg (print_entries tree1)) = Inr r"
  by (rule ParseTokens_returns)
     (simp_all add: new_cfg_def tree1_def print_entries_def no_define_def print_values_def blank_def eol_def tok_def)

section \<open>Inputs the parser handles badly\<close>

text \<open>A macro whose section name is its own name: its expansion looks up the same macro again, for ever.\<close>

lemma macro_self_never_ends:
  assumes "LookupMacro c name = Inr (Some m)" "starttoken (macros c ! m) = Some st"
    and "st < length (tokens c)" "t_value (tokens c ! st) = name"
    and "i < length (tokens c)" "t_value (tokens c ! i) = name"
  shows "ParseTokenSection n sec i line c = Inl OutOfFuel"
  using assms(5,6)
proof (induction n arbitrary: i line)
  case (Suc n)
  from Suc.IH [OF assms(3,4)] Suc.prems assms(1,2) show ?case by (simp add: GetTokenValue_def)
qed simp

lemma macro_self_defined:
  "ParseTokenDefine 0 1 (new_cfg [tok TokenWord ''define'', tok TokenWord ''a'', tok TokenWord ''a'',
      tok TokenOpenSection ''('', tok TokenCloseSection '')'']) =
   Inr (Some (4, 1, (new_cfg [tok TokenWord ''define'', tok TokenWord ''a'', tok TokenWord ''a'',
      tok TokenOpenSection ''('', tok TokenCloseSection '')''])
      \<lparr>macros := [\<lparr>macroname = Some ''a'', sectionname = Some ''a'', mc_line = 1, starttoken = Some 2, endtoken = 4\<rparr>]\<rparr>))"
  by (simp add: parse_simps)

text \<open>A definition without a name is accepted, and every later section runs \<open>strcmp\<close> on its null name; one
  without a section name is accepted, and its use fails an assertion.\<close>

lemma macro_without_names:
  "ParseTokens 20 lp (new_cfg [tok TokenWord ''define'', tok TokenOpenSection ''('', tok TokenCloseSection '')'',
      tok TokenWord ''a'', tok TokenOpenSection ''('', tok TokenCloseSection '')'']) = Inl NullDeref"
  "ParseTokens 20 lp (new_cfg [tok TokenWord ''define'', tok TokenWord ''a'', tok TokenOpenSection ''('', tok TokenCloseSection '')'',
      tok TokenWord ''a'', tok TokenOpenSection ''('', tok TokenCloseSection '')'']) = Inl AssertFailed"
  by (simp_all add: parse_simps)

text \<open>A tuple that the end of the file cuts off is accepted.\<close>

lemma unterminated_tuple_accepted:
  "\<exists>c'. ParseTokens 20 lp (new_cfg [tok TokenWord ''x'', blank, tok TokenOpenTuple ''['', tok TokenNum ''1'']) = Inr (Some c') \<and>
     map fd_values (cfields c') = [[Some 3]]"
  by (simp add: parse_simps)

text \<open>Writing a field a second time replaces only as many elements as the second value has: the field below ends up with
  the elements 4 and 3.\<close>

lemma redefinition_keeps_tail:
  "\<exists>c'. ParseTokens 30 lp (new_cfg (print_entries [ETup ''x'' [(TokenNum, ''2''), (TokenNum, ''3'')], EVal ''x'' TokenNum ''4''])) =
      Inr (Some c') \<and> map (map (\<lambda>v. t_value (tokens c' ! the v)) \<circ> fd_values) (cfields c') = [[''4'', ''3'']]"
  by (simp add: print_entries_def print_values_def parse_simps)

text \<open>The line ends between a word and its opening parenthesis are counted by the lookahead and again by the section: the
  field below stands in line 3 and is recorded in line 4.\<close>

lemma lines_counted_twice:
  "\<exists>c'. ParseTokens 30 lp (new_cfg [tok TokenWord ''s'', eol, tok TokenOpenSection ''('', eol, tok TokenWord ''x'', blank,
      tok TokenNum ''1'', tok TokenCloseSection '')'']) = Inr (Some c') \<and> map fd_line (cfields c') = [4]"
  by (simp add: parse_simps)

end
