(* ===== verification/Registry.thy ===== *)
theory Registry
  imports Prelude
begin

text \<open>
  The contract of the stores of named values in which only existing entries can be written: the
  fields of a configuration file and the properties of a driver.  It says what a read returns after a
  write; the consequence for whole sequences of writes is proved once here.
\<close>

section \<open>Sequences of writes\<close>

fun write_all :: "('k \<Rightarrow> 'v \<Rightarrow> 's \<Rightarrow> 's option) \<Rightarrow> ('k \<times> 'v) list \<Rightarrow> 's \<Rightarrow> 's option" where
  "write_all put [] s = Some s"
| "write_all put (kv # kvs) s =
     (case put (fst kv) (snd kv) s of None \<Rightarrow> None | Some s' \<Rightarrow> write_all put kvs s')"

text \<open>The value the last write to \<open>k\<close> gave it, or the one it had.\<close>

definition last_written :: "('k \<times> 'v) list \<Rightarrow> 'k \<Rightarrow> 'v \<Rightarrow> 'v" where
  "last_written kvs k v = (case map_of (rev kvs) k of None \<Rightarrow> v | Some v' \<Rightarrow> v')"

lemma last_written_Nil [simp]: "last_written [] k v = v"
  by (simp add: last_written_def)

lemma last_written_Cons: "last_written ((k', v') # kvs) k v = last_written kvs k (if k = k' then v' else v)"
  by (auto simp: last_written_def map_add_def split: option.split)

section \<open>The contract\<close>

text \<open>An entry that is not writable keeps its value; a write says so or ignores it.\<close>

locale guarded_store =
  fixes inv :: "'s \<Rightarrow> bool" and writable :: "'s \<Rightarrow> 'k \<Rightarrow> bool"
    and get :: "'s \<Rightarrow> 'k \<Rightarrow> 'v option" and put :: "'k \<Rightarrow> 'v \<Rightarrow> 's \<Rightarrow> 's option"
  assumes put_inv: "inv s \<Longrightarrow> put k v s = Some s' \<Longrightarrow> inv s'"
    and writable_put: "inv s \<Longrightarrow> put k v s = Some s' \<Longrightarrow> writable s' k' = writable s k'"
    and get_put: "inv s \<Longrightarrow> put k v s = Some s' \<Longrightarrow>
      get s' k' = (if k' = k \<and> writable s k \<and> get s k \<noteq> None then Some v else get s k')"
begin

lemma write_all_inv: "inv s \<Longrightarrow> write_all put kvs s = Some s' \<Longrightarrow> inv s'"
  by (induction kvs arbitrary: s) (auto split: option.splits dest: put_inv)

lemma write_all_writable: "inv s \<Longrightarrow> write_all put kvs s = Some s' \<Longrightarrow> writable s' k = writable s k"
  by (induction kvs arbitrary: s) (auto split: option.splits dest: put_inv writable_put)

lemma write_all_get:
  "inv s \<Longrightarrow> write_all put kvs s = Some s' \<Longrightarrow>
   get s' k = map_option (\<lambda>v. if writable s k then last_written kvs k v else v) (get s k)"
proof (induction kvs arbitrary: s)
  case Nil
  then show ?case by (cases "get s' k") simp_all
next
  case (Cons kv kvs)
  obtain k1 v1 where kv: "kv = (k1, v1)" by (cases kv)
  with Cons.prems obtain s1 where p: "put k1 v1 s = Some s1" and r: "write_all put kvs s1 = Some s'"
    by (auto split: option.splits)
  note step = put_inv [OF Cons.prems(1) p] writable_put [OF Cons.prems(1) p, of k]
  from Cons.IH [OF step(1) r] get_put [OF Cons.prems(1) p, of k] show ?case
    by (cases "get s k") (auto simp: kv last_written_Cons step(2))
qed

end

text \<open>A store in which every entry is writable.\<close>

locale overwriting_store =
  fixes inv :: "'s \<Rightarrow> bool" and get :: "'s \<Rightarrow> 'k \<Rightarrow> 'v option" and put :: "'k \<Rightarrow> 'v \<Rightarrow> 's \<Rightarrow> 's option"
  assumes keeps_inv: "inv s \<Longrightarrow> put k v s = Some s' \<Longrightarrow> inv s'"
    and get_after: "inv s \<Longrightarrow> put k v s = Some s' \<Longrightarrow>
      get s' k' = (if k' = k \<and> get s k \<noteq> None then Some v else get s k')"

sublocale overwriting_store \<subseteq> guarded_store inv "\<lambda>s k. True" get put
  by unfold_locales (auto simp: keeps_inv get_after)

text \<open>A store that a write can also extend; \<open>ok\<close> says which keys it can hold.\<close>

locale extending_store =
  fixes inv :: "'s \<Rightarrow> bool" and ok :: "'k \<Rightarrow> bool"
    and get :: "'s \<Rightarrow> 'k \<Rightarrow> 'v option" and put :: "'k \<Rightarrow> 'v \<Rightarrow> 's \<Rightarrow> 's"
  assumes put_inv: "inv s \<Longrightarrow> ok k \<Longrightarrow> inv (put k v s)"
    and get_put: "inv s \<Longrightarrow> ok k \<Longrightarrow> get (put k v s) k' = (if k' = k then Some v else get s k')"
begin

lemma fold_put_inv: "inv s \<Longrightarrow> list_all (ok \<circ> fst) kvs \<Longrightarrow> inv (fold (\<lambda>kv. put (fst kv) (snd kv)) kvs s)"
  by (induction kvs arbitrary: s) (auto dest: put_inv)

lemma fold_put_get:
  "inv s \<Longrightarrow> list_all (ok \<circ> fst) kvs \<Longrightarrow>
   get (fold (\<lambda>kv. put (fst kv) (snd kv)) kvs s) k = (case map_of (rev kvs) k of None \<Rightarrow> get s k | Some v \<Rightarrow> Some v)"
proof (induction kvs arbitrary: s)
  case (Cons kv kvs)
  then have ok: "ok (fst kv)" and kvs: "list_all (ok \<circ> fst) kvs" by (simp_all add: comp_def)
  from Cons.IH [OF put_inv [OF Cons.prems(1) ok] kvs, of "snd kv"] get_put [OF Cons.prems(1) ok, of "snd kv" k]
  show ?case by (cases kv) (auto simp: map_add_def split: option.split)
qed simp

end

text \<open>A store in which the first registration of a key stays.  Keys may be the same without being equal; \<open>valid\<close> says which
  values can be registered in a state.\<close>

locale registering_store =
  fixes inv :: "'s \<Rightarrow> bool" and valid :: "'s \<Rightarrow> 'v \<Rightarrow> bool" and same :: "'k \<Rightarrow> 'k \<Rightarrow> bool"
    and get :: "'s \<Rightarrow> 'k \<Rightarrow> 'v option" and add :: "'k \<Rightarrow> 'v \<Rightarrow> 's \<Rightarrow> 's"
  assumes add_inv: "inv s \<Longrightarrow> valid s v \<Longrightarrow> inv (add k v s)"
    and valid_add: "inv s \<Longrightarrow> valid s v \<Longrightarrow> valid s v' \<Longrightarrow> valid (add k v s) v'"
    and get_same: "inv s \<Longrightarrow> same k k' \<Longrightarrow> get s k = get s k'"
    and get_add: "inv s \<Longrightarrow> valid s v \<Longrightarrow> get (add k v s) k' = (if get s k = None \<and> same k k' then Some v else get s k')"
begin

abbreviation adds :: "('k \<times> 'v) list \<Rightarrow> 's \<Rightarrow> 's" where
  "adds kvs s \<equiv> fold (\<lambda>kv. add (fst kv) (snd kv)) kvs s"

lemma adds_inv:
  "inv s \<Longrightarrow> list_all (\<lambda>kv. valid s (snd kv)) kvs \<Longrightarrow> inv (adds kvs s)"
proof (induction kvs arbitrary: s)
  case (Cons kv kvs)
  then have "list_all (\<lambda>kv'. valid (add (fst kv) (snd kv) s) (snd kv')) kvs" by (auto simp: list_all_iff intro: valid_add)
  with Cons show ?case by (auto intro: add_inv)
qed simp

lemma adds_get:
  "inv s \<Longrightarrow> list_all (\<lambda>kv. valid s (snd kv)) kvs \<Longrightarrow>
   get (adds kvs s) k = (case get s k of Some v \<Rightarrow> Some v | None \<Rightarrow> map_option snd (find (\<lambda>kv. same (fst kv) k) kvs))"
proof (induction kvs arbitrary: s)
  case Nil
  then show ?case by (simp split: option.split)
next
  case (Cons kv kvs)
  let ?s = "add (fst kv) (snd kv) s"
  have v: "valid s (snd kv)" using Cons.prems by simp
  have "list_all (\<lambda>kv'. valid ?s (snd kv')) kvs" using Cons.prems by (auto simp: list_all_iff intro: valid_add)
  with Cons.IH [of ?s] add_inv [OF Cons.prems(1) v]
  have ih: "get (adds (kv # kvs) s) k = (case get ?s k of Some v \<Rightarrow> Some v | None \<Rightarrow> map_option snd (find (\<lambda>kv. same (fst kv) k) kvs))"
    by simp
  have g: "get ?s k = (if get s (fst kv) = None \<and> same (fst kv) k then Some (snd kv) else get s k)"
    by (rule get_add [OF Cons.prems(1) v])
  show ?case
  proof (cases "same (fst kv) k")
    case True
    with get_same [OF Cons.prems(1) True] g ih show ?thesis by (auto split: option.split)
  next
    case False
    with g ih show ?thesis by (auto split: option.split)
  qed
qed

end

end
