(* ===== verification/ConfigAccess.thy ===== *)
theory ConfigAccess
  imports ConfigGrammar Registry
begin

text \<open>
  The query side of \<open>libplayercore/configfile.cc\<close>: \<open>GetField\<close>, \<open>GetFieldValue\<close>, \<open>SetFieldValue\<close> and the
  \<open>Read...\<close> and \<open>Write...\<close> methods for strings, integers, Booleans, file names and tuples,
  \<open>ReadDeviceAddr\<close>, \<open>InsertFieldValue\<close>, \<open>WarnUnused\<close> and \<open>Load\<close>.  A null \<open>const char*\<close> is \<open>None\<close>.
\<close>

section \<open>Values\<close>

type_synonym 'a access = "('a \<times> cfg) outcome"

definition GetFieldValueCount :: "nat \<Rightarrow> cfg \<Rightarrow> nat outcome" where
  "GetFieldValueCount f c =
     (if f < length (cfields c) then Inr (length (fd_values (cfields c ! f))) else Inl OutOfBounds)"

definition mark_used :: "nat \<Rightarrow> nat \<Rightarrow> cfg \<Rightarrow> cfg" where
  "mark_used f ix c =
     c\<lparr>cfields := (cfields c)[f := (cfields c ! f)\<lparr>fd_useds := (fd_useds (cfields c ! f))[ix := Some True]\<rparr>]\<rparr>"

definition GetFieldValue :: "nat \<Rightarrow> int \<Rightarrow> bool \<Rightarrow> cfg \<Rightarrow> string option access" where
  "GetFieldValue f index flag c =
     (if length (cfields c) \<le> f then Inl OutOfBounds
      else if int (length (fd_values (cfields c ! f))) \<le> index then Inr (None, c)
      else if index < 0 then Inl OutOfBounds
      else
        let c1 = (if flag then mark_used f (nat index) c else c) in
        case fd_values (cfields c ! f) ! nat index of
          None \<Rightarrow> Inl Uninitialised
        | Some k \<Rightarrow> bindo (GetTokenValue (tokens c) k) (\<lambda>v. Inr (Some v, c1)))"

definition SetFieldValue :: "nat \<Rightarrow> int \<Rightarrow> string \<Rightarrow> cfg \<Rightarrow> cfg outcome" where
  "SetFieldValue f index v c =
     (if length (cfields c) \<le> f then Inl OutOfBounds
      else if \<not> (0 \<le> index \<and> index < int (length (fd_values (cfields c ! f)))) then Inl AssertFailed
      else
        case fd_values (cfields c ! f) ! nat index of
          None \<Rightarrow> Inl Uninitialised
        | Some k \<Rightarrow> bindo (SetTokenValue k v (tokens c)) (\<lambda>toks. Inr (c\<lparr>tokens := toks\<rparr>)))"

section \<open>Reading and writing fields\<close>

definition ReadString :: "int \<Rightarrow> string \<Rightarrow> string option \<Rightarrow> cfg \<Rightarrow> string option access" where
  "ReadString sec name def c =
     (case GetField c sec name of None \<Rightarrow> Inr (def, c) | Some f \<Rightarrow> GetFieldValue f 0 True c)"

definition WriteString :: "int \<Rightarrow> string \<Rightarrow> string \<Rightarrow> cfg \<Rightarrow> cfg outcome" where
  "WriteString sec name v c =
     (case GetField c sec name of None \<Rightarrow> Inr c | Some f \<Rightarrow> SetFieldValue f 0 v c)"

text \<open>\<open>atoi\<close> and \<open>strcmp\<close> on a null pointer are faults.\<close>

definition ReadInt :: "int \<Rightarrow> string \<Rightarrow> int \<Rightarrow> cfg \<Rightarrow> int access" where
  "ReadInt sec name def c =
     (case GetField c sec name of
        None \<Rightarrow> Inr (def, c)
      | Some f \<Rightarrow> bindo (GetFieldValue f 0 True c) (\<lambda>(v, c').
          case v of None \<Rightarrow> Inl NullDeref | Some s \<Rightarrow> bindo (atoi s) (\<lambda>n. Inr (n, c'))))"

definition WriteInt :: "int \<Rightarrow> string \<Rightarrow> int \<Rightarrow> cfg \<Rightarrow> cfg outcome" where
  "WriteInt sec name v c = WriteString sec name (print_int v) c"

definition ReadBool :: "int \<Rightarrow> string \<Rightarrow> bool \<Rightarrow> cfg \<Rightarrow> bool access" where
  "ReadBool sec name def c =
     (case GetField c sec name of
        None \<Rightarrow> Inr (def, c)
      | Some f \<Rightarrow> bindo (GetFieldValue f 0 True c) (\<lambda>(v, c').
          case v of
            None \<Rightarrow> Inl NullDeref
          | Some s \<Rightarrow>
              Inr (if s = ''yes'' \<or> s = ''true'' \<or> s = ''1'' then True
                   else if s = ''no'' \<or> s = ''false'' \<or> s = ''0'' then False else def, c')))"

definition WriteBool :: "int \<Rightarrow> string \<Rightarrow> bool \<Rightarrow> cfg \<Rightarrow> cfg outcome" where
  "WriteBool sec name v c = WriteString sec name (strncpy_term 4 (if v then ''yes'' else ''no'')) c"

definition WriteBool_Compat :: "int \<Rightarrow> string \<Rightarrow> bool \<Rightarrow> cfg \<Rightarrow> cfg outcome" where
  "WriteBool_Compat sec name v c = WriteString sec name (strncpy_term 2 (if v then ''1'' else ''0'')) c"

text \<open>\<open>lex_env\<close> holds the name of the file and the working directory.\<close>

definition ReadFilename :: "lex_env \<Rightarrow> int \<Rightarrow> string \<Rightarrow> string option \<Rightarrow> cfg \<Rightarrow> string option access" where
  "ReadFilename e sec name def c =
     (case GetField c sec name of
        None \<Rightarrow> Inr (def, c)
      | Some f \<Rightarrow> bindo (GetFieldValue f 0 True c) (\<lambda>(v, c1).
          case v of
            None \<Rightarrow> Inl NullDeref
          | Some filename \<Rightarrow>
              if is_absolute filename then Inr (Some filename, c1)
              else bindo (include_path e filename) (\<lambda>fullpath.
                   bindo (SetFieldValue f 0 fullpath c1) (\<lambda>c2.
                   bindo (GetFieldValue f 0 True c2) (\<lambda>(v', c3).
                     case v' of
                       None \<Rightarrow> Inl NullDeref
                     | Some filename' \<Rightarrow>
                         bindo (c_assert (is_absolute filename')) (\<lambda>_. Inr (Some filename', c3)))))))"

section \<open>Tuples\<close>

definition GetTupleCount :: "int \<Rightarrow> string \<Rightarrow> cfg \<Rightarrow> nat outcome" where
  "GetTupleCount sec name c =
     (case GetField c sec name of None \<Rightarrow> Inr 0 | Some f \<Rightarrow> GetFieldValueCount f c)"

definition ReadTupleString :: "int \<Rightarrow> string \<Rightarrow> int \<Rightarrow> string option \<Rightarrow> cfg \<Rightarrow> string option access" where
  "ReadTupleString sec name index def c =
     (case GetField c sec name of
        None \<Rightarrow> Inr (def, c)
      | Some f \<Rightarrow> bindo (GetFieldValue f index True c) (\<lambda>(v, c').
          case v of None \<Rightarrow> Inr (def, c') | Some s \<Rightarrow> Inr (Some s, c')))"

text \<open>The field number is used without a check: -1 is outside the array.\<close>

definition WriteTupleString :: "int \<Rightarrow> string \<Rightarrow> int \<Rightarrow> string \<Rightarrow> cfg \<Rightarrow> cfg outcome" where
  "WriteTupleString sec name index v c =
     (case GetField c sec name of None \<Rightarrow> Inl OutOfBounds | Some f \<Rightarrow> SetFieldValue f index v c)"

definition ReadTupleInt :: "int \<Rightarrow> string \<Rightarrow> int \<Rightarrow> int \<Rightarrow> cfg \<Rightarrow> int access" where
  "ReadTupleInt sec name index def c =
     (case GetField c sec name of
        None \<Rightarrow> Inr (def, c)
      | Some f \<Rightarrow> bindo (GetFieldValue f index True c) (\<lambda>(v, c').
          case v of None \<Rightarrow> Inr (def, c') | Some s \<Rightarrow> bindo (atoi s) (\<lambda>n. Inr (n, c'))))"

definition WriteTupleInt :: "int \<Rightarrow> string \<Rightarrow> int \<Rightarrow> int \<Rightarrow> cfg \<Rightarrow> cfg outcome" where
  "WriteTupleInt sec name index v c = WriteTupleString sec name index (print_int v) c"

section \<open>Units, insertion, unused fields, loading\<close>

definition length_unit :: "string \<Rightarrow> real \<Rightarrow> real" where
  "length_unit s u = (if s = ''m'' then 1 else if s = ''cm'' then 1 / 100 else if s = ''mm'' then 1 / 1000 else u)"

definition angle_unit :: "string \<Rightarrow> real \<Rightarrow> real" where
  "angle_unit s u = (if s = ''degrees'' then pi / 180 else if s = ''radians'' then 1 else u)"

text \<open>\<open>index\<close> may be any \<open>int\<close>: a negative one is smaller than the count and writes before the array.\<close>

definition InsertFieldValue :: "int \<Rightarrow> string \<Rightarrow> string \<Rightarrow> cfg \<Rightarrow> cfg outcome" where
  "InsertFieldValue index name v c =
     (if name = ''unit_length'' then Inr (c\<lparr>unit_length := length_unit v (unit_length c)\<rparr>)
      else if name = ''unit_angle'' then Inr (c\<lparr>unit_angle := angle_unit v (unit_angle c)\<rparr>)
      else
        let (f, c1) = AddField (-1) name 0 c;
            c2 = c1\<lparr>tokens := tokens c1 @ [\<lparr>t_include = 0, t_type = TokenWord, t_value = v\<rparr>]\<rparr>
        in if index < 0 then Inl OutOfBounds else AddFieldValue f (nat index) (length (tokens c2) - 1) c2)"

text \<open>A field without values has a null array of flags, whose first element is read all the same.\<close>

fun field_unused :: "cfield \<Rightarrow> bool outcome" where
  "field_unused f =
     (if length (fd_values f) = 0 then Inl NullDeref
      else if None \<in> set (fd_useds f) then Inl Uninitialised
      else Inr (\<exists>u \<in> set (fd_useds f). u = Some False))"

fun unused_any :: "cfield list \<Rightarrow> bool outcome" where
  "unused_any [] = Inr False"
| "unused_any (f # fs) = bindo (field_unused f) (\<lambda>b. bindo (unused_any fs) (\<lambda>b'. Inr (b \<or> b')))"

definition WarnUnused :: "cfg \<Rightarrow> bool outcome" where
  "WarnUnused c = unused_any (cfields c)"

text \<open>
  \<open>Load\<close> on a fresh object, \<open>name\<close> being its argument; the two fuels bound the include depth and the
  parser.  \<open>None\<close> is the return value \<open>false\<close>.
\<close>

definition set_units :: "cfg \<Rightarrow> cfg outcome" where
  "set_units c =
     bindo (ReadString 0 ''unit_length'' (Some ''m'') c) (\<lambda>(u, c1).
     bindo (case u of None \<Rightarrow> Inl NullDeref | Some s \<Rightarrow> Inr (c1\<lparr>unit_length := length_unit s (unit_length c1)\<rparr>)) (\<lambda>c2.
     bindo (ReadString 0 ''unit_angle'' (Some ''degrees'') c2) (\<lambda>(u', c3).
     case u' of None \<Rightarrow> Inl NullDeref | Some s \<Rightarrow> Inr (c3\<lparr>unit_angle := angle_unit s (unit_angle c3)\<rparr>))))"

definition Load :: "nat \<Rightarrow> nat \<Rightarrow> lex_env \<Rightarrow> (string \<Rightarrow> bool) \<Rightarrow> cfg \<Rightarrow> cfg option outcome" where
  "Load depth n e lp c =
     (case read_file e (self_name e) of
        None \<Rightarrow> Inr None
      | Some s \<Rightarrow>
          bindr (LoadTokens depth e 0 s []) (\<lambda>toks.
          bindr (ParseTokens n lp (c\<lparr>tokens := toks\<rparr>)) (\<lambda>c1.
          bindo (ReadInt 0 ''test'' 0 c1) (\<lambda>(test, c2).
            if test \<noteq> 0 then Inr None
            else bindo (set_units c2) (\<lambda>c3. Inr (Some c3))))))"

section \<open>The fields as a store\<close>

text \<open>The value a field's first element has; \<open>None\<close> without the field or without a first element.\<close>

definition field_value :: "cfg \<Rightarrow> int \<times> string \<Rightarrow> string option" where
  "field_value c k =
     (case GetField c (fst k) (snd k) of
        None \<Rightarrow> None
      | Some f \<Rightarrow> (case fd_values (cfields c ! f) of Some t # _ \<Rightarrow> Some (t_value (tokens c ! t)) | _ \<Rightarrow> None))"

text \<open>No two elements of fields share a token: two expansions of one macro would.\<close>

definition unshared :: "cfg \<Rightarrow> bool" where
  "unshared c \<longleftrightarrow> distinct (concat (map fd_values (cfields c)))"

definition write_field :: "int \<times> string \<Rightarrow> string \<Rightarrow> cfg \<Rightarrow> cfg option" where
  "write_field k v c = (case WriteString (fst k) (snd k) v c of Inl _ \<Rightarrow> None | Inr c' \<Rightarrow> Some c')"

definition cfg_inv :: "cfg \<Rightarrow> bool" where
  "cfg_inv c \<longleftrightarrow> cfg_ok c \<and> unshared c"

lemma GetField_Some:
  "GetField c sec name = Some f \<Longrightarrow>
   f < length (cfields c) \<and> fd_section (cfields c ! f) = sec \<and> fd_name (cfields c ! f) = name"
  unfolding GetField_def by (drule find_index_bound) simp

lemma cfg_ok_value:
  assumes "cfg_ok c" "f < length (cfields c)" "v \<in> set (fd_values (cfields c ! f))"
  obtains k where "v = Some k" "k < length (tokens c)" "value_type (t_type (tokens c ! k))"
proof -
  have "field_ok (tokens c) (length (sections c)) (cfields c ! f)" using assms(1,2) by (simp add: cfg_ok_def)
  with assms(3) that show ?thesis unfolding field_ok_def by blast
qed

text \<open>Well-formedness depends on the types of the tokens only.\<close>

lemma opens_types: "map t_type xs = map t_type ys \<Longrightarrow> opens xs = opens ys"
proof (induction xs arbitrary: ys)
  case (Cons x xs)
  then obtain y ys' where "ys = y # ys'" "t_type y = t_type x" "map t_type xs = map t_type ys'" by (cases ys) auto
  with Cons.IH [of ys'] show ?case by simp
qed simp

lemma field_ok_types:
  assumes "map t_type toks' = map t_type toks" "field_ok toks n f"
  shows "field_ok toks' n f"
proof -
  have l: "length toks' = length toks" using assms(1) map_eq_imp_length_eq by blast
  have t: "t_type (toks' ! k) = t_type (toks ! k)" if "k < length toks" for k
    using arg_cong [OF assms(1), of "\<lambda>xs. xs ! k"] that l by simp
  have "\<exists>k < length toks'. v = Some k \<and> value_type (t_type (toks' ! k))" if "v \<in> set (fd_values f)" for v
  proof -
    from assms(2) that obtain k where "k < length toks" "v = Some k" "value_type (t_type (toks ! k))"
      by (auto simp: field_ok_def)
    with l t show ?thesis by auto
  qed
  with assms(2) show ?thesis by (simp add: field_ok_def)
qed

lemma macro_ok_types: "map t_type toks' = map t_type toks \<Longrightarrow> macro_ok toks m \<Longrightarrow> macro_ok toks' m"
  unfolding macro_ok_def by (metis drop_map opens_types)

lemma cfg_ok_types:
  assumes "cfg_ok c" "map t_type toks = map t_type (tokens c)"
  shows "cfg_ok (c\<lparr>tokens := toks\<rparr>)"
  using assms field_ok_types [OF assms(2)] macro_ok_types [OF assms(2)] by (simp add: cfg_ok_def)

lemma cfg_ok_set_token:
  assumes "cfg_ok c"
  shows "cfg_ok (c\<lparr>tokens := (tokens c)[k := (tokens c ! k)\<lparr>t_value := v\<rparr>]\<rparr>)"
proof (rule cfg_ok_types [OF assms])
  show "map t_type ((tokens c)[k := (tokens c ! k)\<lparr>t_value := v\<rparr>]) = map t_type (tokens c)"
    by (cases "k < length (tokens c)") (simp_all add: map_update_same list_update_beyond)
qed

lemma SetFieldValue_Inr:
  assumes "SetFieldValue f 0 v c = Inr c'" "cfg_ok c"
  obtains k vs where "f < length (cfields c)" "fd_values (cfields c ! f) = Some k # vs" "k < length (tokens c)"
    "c' = c\<lparr>tokens := (tokens c)[k := (tokens c ! k)\<lparr>t_value := v\<rparr>]\<rparr>"
  using assms
  by (cases "fd_values (cfields c ! f)")
     (auto simp: SetFieldValue_def SetTokenValue_def split: if_splits option.splits)

lemma distinct_concat_nth:
  assumes "distinct (concat xss)" "i < length xss" "j < length xss" "x \<in> set (xss ! i)" "x \<in> set (xss ! j)"
  shows "i = j"
  using assms
proof (induction xss arbitrary: i j)
  case (Cons xs xss)
  note mem = nth_mem [of _ xss]
  show ?case
  proof (cases i)
    case 0
    with Cons.prems mem [of "j - 1"] show ?thesis by (cases j) (auto simp: disjoint_iff)
  next
    case (Suc i')
    with Cons.prems mem [of i'] Cons.IH [of i' "j - 1"] show ?thesis by (cases j) (auto simp: disjoint_iff)
  qed
qed simp

lemma write_field_store:
  assumes inv: "cfg_inv c" and w: "write_field k v c = Some c'"
  shows "cfg_inv c'" "field_value c' k' = (if k' = k \<and> field_value c k \<noteq> None then Some v else field_value c k')"
proof -
  have ok: "cfg_ok c" and un: "unshared c" using inv by (simp_all add: cfg_inv_def)
  have "cfg_inv c' \<and> field_value c' k' = (if k' = k \<and> field_value c k \<noteq> None then Some v else field_value c k')"
  proof (cases "GetField c (fst k) (snd k)")
    case None
    then have "c' = c" "field_value c k = None" using w by (auto simp: write_field_def WriteString_def field_value_def)
    with inv show ?thesis by simp
  next
    case (Some f)
    with w have "SetFieldValue f 0 v c = Inr c'" by (auto simp: write_field_def WriteString_def split: sum.splits)
    then obtain t vs where t: "f < length (cfields c)" "fd_values (cfields c ! f) = Some t # vs" "t < length (tokens c)"
      "c' = c\<lparr>tokens := (tokens c)[t := (tokens c ! t)\<lparr>t_value := v\<rparr>]\<rparr>"
      using SetFieldValue_Inr ok by blast
    have get: "GetField c' = GetField c" by (simp add: t(4) GetField_def fun_eq_iff)
    have tc: "tokens c' = (tokens c)[t := (tokens c ! t)\<lparr>t_value := v\<rparr>]" "cfields c' = cfields c"
      by (simp_all add: t(4))
    have own: "field_value c k = Some (t_value (tokens c ! t))" "field_value c' k = Some v"
      using Some t(1-3) by (simp_all add: field_value_def get tc)
    have other: "field_value c' k' = field_value c k'" if "k' \<noteq> k"
    proof (cases "GetField c (fst k') (snd k')")
      case (Some f')
      note f' = GetField_Some [OF Some]
      with GetField_Some [OF \<open>GetField c (fst k) (snd k) = Some f\<close>] that have "f' \<noteq> f" by (auto simp: prod_eq_iff)
      have "t' \<noteq> t" if "fd_values (cfields c ! f') = Some t' # vs'" for t' vs'
        using distinct_concat_nth [of "map fd_values (cfields c)" f f' "Some t"] un t(1,2) f' that \<open>f' \<noteq> f\<close>
        by (auto simp: unshared_def)
      with Some show ?thesis
        by (auto simp: field_value_def get tc split: list.split option.split)
    qed (simp add: field_value_def get)
    have "cfg_inv c'" using inv cfg_ok_set_token [OF ok] by (simp add: cfg_inv_def unshared_def t(4))
    with own other show ?thesis by auto
  qed
  then show "cfg_inv c'" "field_value c' k' = (if k' = k \<and> field_value c k \<noteq> None then Some v else field_value c k')"
    by blast+
qed

interpretation config: overwriting_store cfg_inv field_value write_field
  by unfold_locales (use write_field_store in blast)+

lemma field_value_Some:
  assumes "field_value c (sec, name) = Some v"
  obtains f t vs where "GetField c sec name = Some f" "fd_values (cfields c ! f) = Some t # vs" "v = t_value (tokens c ! t)"
  using assms by (auto simp: field_value_def split: option.splits list.splits)

lemma GetFieldValue_first:
  assumes "cfg_ok c" "GetField c sec name = Some f" "fd_values (cfields c ! f) = Some t # vs"
  shows "GetFieldValue f 0 True c = Inr (Some (t_value (tokens c ! t)), mark_used f 0 c)"
proof -
  note f = GetField_Some [OF assms(2)]
  have "t < length (tokens c)" using cfg_ok_value [OF assms(1), of f "Some t"] f assms(3) by auto
  with f assms(3) show ?thesis by (simp add: GetFieldValue_def GetTokenValue_def)
qed

lemma ReadString_value:
  "cfg_ok c \<Longrightarrow> field_value c (sec, name) = Some v \<Longrightarrow> \<exists>c'. ReadString sec name def c = Inr (Some v, c')"
  by (elim field_value_Some) (simp add: ReadString_def GetFieldValue_first)

lemma ReadInt_value:
  "cfg_ok c \<Longrightarrow> field_value c (sec, name) = Some v \<Longrightarrow> atoi v = Inr n \<Longrightarrow> \<exists>c'. ReadInt sec name def c = Inr (n, c')"
  by (elim field_value_Some) (simp add: ReadInt_def GetFieldValue_first)

lemma ReadBool_value:
  "cfg_ok c \<Longrightarrow> field_value c (sec, name) = Some v \<Longrightarrow>
   \<exists>c'. ReadBool sec name def c = Inr (if v = ''yes'' \<or> v = ''true'' \<or> v = ''1'' then True
                   else if v = ''no'' \<or> v = ''false'' \<or> v = ''0'' then False else def, c')"
  by (elim field_value_Some) (simp add: ReadBool_def GetFieldValue_first)

lemma WriteString_value:
  assumes inv: "cfg_inv c" and v: "field_value c (sec, name) = Some s"
  obtains c' where "WriteString sec name w c = Inr c'" "cfg_inv c'" "field_value c' (sec, name) = Some w"
proof -
  from v obtain f t vs where f: "GetField c sec name = Some f" "fd_values (cfields c ! f) = Some t # vs"
    by (elim field_value_Some)
  have "t < length (tokens c)"
    using cfg_ok_value [of c f "Some t"] inv GetField_Some [OF f(1)] f(2) by (auto simp: cfg_inv_def)
  with f GetField_Some [OF f(1)] obtain c' where c': "WriteString sec name w c = Inr c'"
    by (simp add: WriteString_def SetFieldValue_def SetTokenValue_def)
  then have "write_field (sec, name) w c = Some c'" by (simp add: write_field_def)
  from that [OF c' config.put_inv [OF inv this]] config.get_put [OF inv this, of "(sec, name)"] v show thesis by simp
qed

text \<open>The configuration database behaves like a map under writes.  If no two fields share a value token, then after any
  sequence of \<open>WriteString\<close> calls every field still reads: the value of the last write to it if there was one, and
  otherwise the value it had, so no write disturbs another field.\<close>

theorem ReadString_after_writes:
  assumes "cfg_inv c" and "write_all write_field kvs c = Some c'" and "field_value c (sec, name) = Some v"
  shows "\<exists>c''. ReadString sec name def c' = Inr (Some (last_written kvs (sec, name) v), c'')"
proof -
  have "cfg_ok c'" using config.write_all_inv [OF assms(1,2)] by (simp add: cfg_inv_def)
  moreover have "field_value c' (sec, name) = Some (last_written kvs (sec, name) v)"
    using config.write_all_get [OF assms(1,2)] assms(3) by simp
  ultimately show ?thesis by (rule ReadString_value)
qed

text \<open>Typed values survive a write and a read: an \<open>int\<close> written with \<open>WriteInt\<close> (the most negative one included) is
  the one \<open>ReadInt\<close> returns, and a Boolean written in either notation is the one \<open>ReadBool\<close> returns.\<close>

theorem Write_then_Read:
  assumes "cfg_inv c" and "field_value c (sec, name) = Some s"
  shows "(int_range i \<longrightarrow> (\<exists>c' c''. WriteInt sec name i c = Inr c' \<and> ReadInt sec name d c' = Inr (i, c''))) \<and>
    (\<exists>c' c''. WriteBool sec name b c = Inr c' \<and> ReadBool sec name e c' = Inr (b, c'')) \<and>
    (\<exists>c' c''. WriteBool_Compat sec name b c = Inr c' \<and> ReadBool sec name e c' = Inr (b, c''))"
proof (intro conjI impI)
  show "\<exists>c' c''. WriteInt sec name i c = Inr c' \<and> ReadInt sec name d c' = Inr (i, c'')" if "int_range i"
    using WriteString_value [OF assms, of "print_int i"] ReadInt_value [OF _ _ atoi_print_int [OF that]]
    unfolding WriteInt_def cfg_inv_def by metis
  have b: "strncpy_term 4 (if b then ''yes'' else ''no'') = (if b then ''yes'' else ''no'')"
    "strncpy_term 2 (if b then ''1'' else ''0'') = (if b then ''1'' else ''0'')" by (simp_all add: strncpy_term_def)
  obtain c' where c': "WriteBool sec name b c = Inr c'" "cfg_inv c'" "field_value c' (sec, name) = Some (if b then ''yes'' else ''no'')"
    unfolding WriteBool_def b using WriteString_value [OF assms] by blast
  then show "\<exists>c' c''. WriteBool sec name b c = Inr c' \<and> ReadBool sec name e c' = Inr (b, c'')"
    using ReadBool_value [of c' sec name _ e] by (fastforce simp: cfg_inv_def)
  obtain c' where c': "WriteBool_Compat sec name b c = Inr c'" "cfg_inv c'" "field_value c' (sec, name) = Some (if b then ''1'' else ''0'')"
    unfolding WriteBool_Compat_def b using WriteString_value [OF assms] by blast
  then show "\<exists>c' c''. WriteBool_Compat sec name b c = Inr c' \<and> ReadBool sec name e c' = Inr (b, c'')"
    using ReadBool_value [of c' sec name _ e] by (fastforce simp: cfg_inv_def)
qed

lemma db1_inv: "cfg_inv db1"
  using db1_ok by (simp add: cfg_inv_def unshared_def db1_def)

lemma tokens_db1: "tokens db1 = print_entries tree1"
  by (simp add: db1_def new_cfg_def)

lemma db1_values:
  "field_value db1 (1, ''name'') = Some ''sick''" "field_value db1 (2, ''on'') = Some ''yes''"
  by (simp_all add: field_value_def GetField_def db1_def new_cfg_def tree1_def print_entries_def print_values_def
      blank_def eol_def tok_def eval_nat_numeral)

theorem ReadString_after_writes_witness:
  "\<exists>c' c''. write_all write_field [((1, ''name''), ''a''), ((2, ''on''), ''no''), ((1, ''name''), ''b'')] db1 = Some c' \<and>
     ReadString 1 ''name'' None c' = Inr (Some ''b'', c'')"
proof -
  obtain c' where w: "write_all write_field [((1, ''name''), ''a''), ((2, ''on''), ''no''), ((1, ''name''), ''b'')] db1 = Some c'"
    by (simp add: write_field_def WriteString_def GetField_def SetFieldValue_def SetTokenValue_def
        db1_def new_cfg_def tree1_def print_entries_def print_values_def)
  from ReadString_after_writes [OF db1_inv w db1_values(1), of None] w show ?thesis by (simp add: last_written_def)
qed

theorem Write_then_Read_witness:
  "\<exists>c' c''. WriteInt 1 ''name'' (- 2147483648) db1 = Inr c' \<and> ReadInt 1 ''name'' 0 c' = Inr (- 2147483648, c'')"
  using Write_then_Read [OF db1_inv db1_values(1), of "- 2147483648"] by (simp add: int_range_def)

section \<open>Inputs the accessors handle badly\<close>

text \<open>An empty tuple: the first value is a null pointer, which \<open>ReadString\<close> returns instead of the default, which
  \<open>ReadInt\<close> and \<open>ReadBool\<close> follow, and whose flag \<open>WarnUnused\<close> follows.\<close>

lemma empty_tuple:
  assumes "GetField c sec name = Some f" "fd_values (cfields c ! f) = []"
  shows "ReadString sec name (Some d) c = Inr (None, c)" "ReadInt sec name i c = Inl NullDeref"
    "ReadBool sec name b c = Inl NullDeref"
    "cfields c = [g] \<Longrightarrow> WarnUnused c = Inl NullDeref"
  using assms GetField_Some [OF assms(1)]
  by (simp_all add: ReadString_def ReadInt_def ReadBool_def GetFieldValue_def WarnUnused_def)

text \<open>A pair inserted for the global section is filed under section -1, where reads of section 0 do not find it.\<close>

definition field_keys :: "cfg \<Rightarrow> (int \<times> string) list" where
  "field_keys c = map (\<lambda>f. (fd_section f, fd_name f)) (cfields c)"

lemma GetField_None: "GetField c sec name = None \<longleftrightarrow> (sec, name) \<notin> set (field_keys c)"
  by (auto simp: GetField_def find_index_None field_keys_def)

lemma AddField_keys: "AddField sec name line c = (f, c') \<Longrightarrow> set (field_keys c') = insert (sec, name) (set (field_keys c))"
  by (auto simp: AddField_def field_keys_def split: option.splits dest!: find_index_bound)

lemma AddFieldValue_keys: "AddFieldValue f ix k c = Inr c' \<Longrightarrow> field_keys c' = field_keys c"
  by (auto simp: AddFieldValue_def field_keys_def map_update_same split: if_splits)

lemma InsertFieldValue_not_global:
  assumes "InsertFieldValue i name v c = Inr c'" "name \<noteq> ''unit_length''" "name \<noteq> ''unit_angle''" "GetField c 0 name = None"
  shows "ReadString 0 name def c' = Inr (def, c')"
proof -
  obtain f c1 where a: "AddField (-1) name 0 c = (f, c1)" by (cases "AddField (-1) name 0 c")
  with assms have "AddFieldValue f (nat i) (length (tokens c1)) (c1\<lparr>tokens := tokens c1 @ [\<lparr>t_include = 0, t_type = TokenWord, t_value = v\<rparr>]\<rparr>) = Inr c'"
    by (auto simp: InsertFieldValue_def Let_def split: if_splits)
  from AddFieldValue_keys [OF this] AddField_keys [OF a] assms(4) have "GetField c' 0 name = None"
    by (simp add: GetField_None) (simp add: field_keys_def)
  then show ?thesis by (simp add: ReadString_def)
qed

text \<open>Two sections made from one macro share its value tokens: a write to one changes the other.\<close>

definition macro_text :: "token list" where
  "macro_text = [tok TokenWord ''define'', blank, tok TokenWord ''m'', blank, tok TokenWord ''s'', tok TokenOpenSection ''('',
     tok TokenWord ''x'', blank, tok TokenNum ''1'', tok TokenCloseSection '')'', eol,
     tok TokenWord ''m'', tok TokenOpenSection ''('', tok TokenCloseSection '')'', eol,
     tok TokenWord ''m'', tok TokenOpenSection ''('', tok TokenCloseSection '')'', eol]"

lemma macro_sections_share:
  "\<exists>c c' c''. ParseTokens 40 lp (new_cfg macro_text) = Inr (Some c) \<and> WriteString 1 ''x'' ''5'' c = Inr c' \<and>
     ReadString 2 ''x'' None c' = Inr (Some ''5'', c'')"
  by (simp add: macro_text_def parse_simps WriteString_def ReadString_def GetField_def SetFieldValue_def SetTokenValue_def
      GetFieldValue_def)

end
