(* ===== verification/ConfigView.thy ===== *)
theory ConfigView
  imports ConfigAccess
begin

text \<open>
  What a program reads from a parsed configuration file: the sections and fields of a configuration
  tree as lists, and the proof that after \<open>ParseTokens\<close> the accessors return these.
\<close>

section \<open>The contents of a tree\<close>

fun n_sections :: "entry \<Rightarrow> nat" where
  "n_sections (ESec nm es) = Suc (sum_list (map n_sections es))"
| "n_sections _ = 0"

text \<open>\<open>sec\<close> is the enclosing section, \<open>k\<close> the number of the next one.\<close>

fun entry_fields :: "int \<Rightarrow> nat \<Rightarrow> entry \<Rightarrow> (int \<times> string \<times> string list) list"
and entries_fields :: "int \<Rightarrow> nat \<Rightarrow> entry list \<Rightarrow> (int \<times> string \<times> string list) list" where
  "entry_fields sec k (EVal nm ty v) = [(sec, nm, [v])]"
| "entry_fields sec k (ETup nm vs) = [(sec, nm, map snd vs)]"
| "entry_fields sec k (ESec nm es) = entries_fields (int k) (k + 1) es"
| "entries_fields sec k [] = []"
| "entries_fields sec k (e # es) = entry_fields sec k e @ entries_fields sec (k + n_sections e) es"

fun entry_sections :: "int \<Rightarrow> nat \<Rightarrow> entry \<Rightarrow> csection list"
and entries_sections :: "int \<Rightarrow> nat \<Rightarrow> entry list \<Rightarrow> csection list" where
  "entry_sections sec k (EVal nm ty v) = []"
| "entry_sections sec k (ETup nm vs) = []"
| "entry_sections sec k (ESec nm es) = \<lparr>sc_parent = sec, sc_type = nm\<rparr> # entries_sections (int k) (k + 1) es"
| "entries_sections sec k [] = []"
| "entries_sections sec k (e # es) = entry_sections sec k e @ entries_sections sec (k + n_sections e) es"

definition field_key :: "int \<times> string \<times> string list \<Rightarrow> int \<times> string" where
  "field_key x = (fst x, fst (snd x))"

section \<open>The contents of a database\<close>

definition view_field :: "token list \<Rightarrow> cfield \<Rightarrow> int \<times> string \<times> string list" where
  "view_field toks f = (fd_section f, fd_name f, map (\<lambda>v. t_value (toks ! the v)) (fd_values f))"

definition view :: "cfg \<Rightarrow> (int \<times> string \<times> string list) list" where
  "view c = map (view_field (tokens c)) (cfields c)"

lemma view_keys: "map field_key (view c) = map (\<lambda>f. (fd_section f, fd_name f)) (cfields c)"
  by (simp add: view_def view_field_def field_key_def)

lemma AddField_fresh:
  assumes "(sec, nm) \<notin> set (map field_key (view c))"
  shows "AddField sec nm line c = (length (cfields c),
    c\<lparr>cfields := cfields c @ [\<lparr>fd_section = sec, fd_name = nm, fd_values = [], fd_useds = [], fd_line = line\<rparr>]\<rparr>)"
proof -
  have "find_index (\<lambda>f. fd_section f = sec \<and> fd_name f = nm) (cfields c) = None"
    using assms unfolding view_keys by (auto simp: find_index_None)
  then show ?thesis by (simp add: AddField_def)
qed

lemma set_value_end:
  "ix = length (fd_values g) \<Longrightarrow> fd_values (set_value ix k g) = fd_values g @ [Some k]"
  by (simp add: set_value_def grow_def)

lemma put_value_last:
  "cfields c = fs @ [g] \<Longrightarrow> cfields (put_value (length fs) ix k c) = fs @ [set_value ix k g]"
  by (simp add: put_value_def)

text \<open>The values of a tuple are appended to the field in order.\<close>

lemma put_values_last:
  "cfields c = fs @ [g] \<Longrightarrow> ix = length (fd_values g) \<Longrightarrow>
   \<exists>g'. cfields (put_values (length fs) ix k vs c) = fs @ [g'] \<and> fd_section g' = fd_section g \<and> fd_name g' = fd_name g \<and>
     fd_values g' = fd_values g @ map (\<lambda>j. Some (k + 2 * j)) [0..<length vs]"
proof (induction vs arbitrary: ix k c g)
  case (Cons v vs)
  let ?g = "set_value ix k g"
  have c: "cfields (put_value (length fs) ix k c) = fs @ [?g]" by (rule put_value_last [OF Cons.prems(1)])
  have vals: "fd_values ?g = fd_values g @ [Some k]" by (rule set_value_end [OF Cons.prems(2)])
  have "ix + 1 = length (fd_values ?g)" using Cons.prems(2) vals by simp
  from Cons.IH [OF c this, of "k + 2"] obtain g' where
    g': "cfields (put_values (length fs) (ix + 1) (k + 2) vs (put_value (length fs) ix k c)) = fs @ [g']"
      "fd_section g' = fd_section ?g" "fd_name g' = fd_name ?g"
      "fd_values g' = fd_values ?g @ map (\<lambda>j. Some (k + 2 + 2 * j)) [0..<length vs]" by blast
  have "map (\<lambda>j. Some (k + 2 * j)) [0..<length (v # vs)] = Some k # map (\<lambda>j. Some (k + 2 + 2 * j)) [0..<length vs]"
    by (simp add: upt_conv_Cons map_Suc_upt [symmetric] del: upt_Suc)
  with g' vals show ?case by (intro exI [of _ g']) simp
qed auto

lemma print_values_nth:
  "j < length vs \<Longrightarrow> print_values vs ! (2 * j + 1) = tok (fst (vs ! j)) (snd (vs ! j))"
proof (induction vs arbitrary: j)
  case (Cons v vs)
  obtain ty x where v: "v = (ty, x)" by (cases v)
  then have p: "print_values (v # vs) = blank # tok ty x # print_values vs" by (simp add: print_values_def)
  show ?case using Cons v by (cases j) (simp_all add: p [unfolded v] v)
qed simp

lemma reads_nth: "reads c i ts \<Longrightarrow> j < length ts \<Longrightarrow> tokens c ! (i + j) = ts ! j"
  by (auto simp: reads_def) (metis nth_append nth_drop)

section \<open>Building a tree adds its contents\<close>

lemma build_view:
  "reads c i (print_entry e) \<Longrightarrow> distinct (map field_key (view c @ entry_fields sec (length (sections c)) e)) \<Longrightarrow>
   view (build_entry sec i line e c) = view c @ entry_fields sec (length (sections c)) e \<and>
   sections (build_entry sec i line e c) = sections c @ entry_sections sec (length (sections c)) e \<and>
   length (entry_sections sec (length (sections c)) e) = n_sections e"
  "reads c i (concat (map print_entry es)) \<Longrightarrow>
   distinct (map field_key (view c @ entries_fields sec (length (sections c)) es)) \<Longrightarrow>
   view (build_entries sec i line es c) = view c @ entries_fields sec (length (sections c)) es \<and>
   sections (build_entries sec i line es c) = sections c @ entries_sections sec (length (sections c)) es \<and>
   length (entries_sections sec (length (sections c)) es) = sum_list (map n_sections es)"
proof (induction sec i line e c and sec i line es c rule: build_entry_build_entries.induct)
  case (1 sec i line nm ty v c)
  then have "(sec, nm) \<notin> set (map field_key (view c))" by (simp add: field_key_def)
  note a = AddField_fresh [OF this, of line]
  have t: "tokens c ! (i + 2) = tok ty v" using reads_nth [OF 1(1), of 2] by (simp add: numeral_2_eq_2)
  show ?case
    using t by (simp add: a put_value_def view_def view_field_def set_value_def grow_def)
next
  case (2 sec i line nm vs c)
  then have "(sec, nm) \<notin> set (map field_key (view c))" by (simp add: field_key_def)
  note a = AddField_fresh [OF this, of line]
  let ?c1 = "c\<lparr>cfields := cfields c @ [\<lparr>fd_section = sec, fd_name = nm, fd_values = [], fd_useds = [], fd_line = line\<rparr>]\<rparr>"
  obtain g' where g': "cfields (put_values (length (cfields c)) 0 (i + 4) vs ?c1) = cfields c @ [g']"
      "fd_section g' = sec" "fd_name g' = nm" "fd_values g' = map (\<lambda>j. Some (i + 4 + 2 * j)) [0..<length vs]"
    using put_values_last [of ?c1 "cfields c" "\<lparr>fd_section = sec, fd_name = nm, fd_values = [], fd_useds = [], fd_line = line\<rparr>" 0 "i + 4" vs]
    by auto
  have "reads c (i + 3) (print_values vs)" using 2(1) by (simp add: reads_Cons reads_append numeral_3_eq_3)
  then have "t_value (tokens c ! (i + 4 + 2 * j)) = snd (vs ! j)" if "j < length vs" for j
    using reads_nth [of c "i + 3" "print_values vs" "2 * j + 1"] print_values_nth [OF that] that
    by (simp add: numeral_eq_Suc)
  then have "map (\<lambda>v. t_value (tokens c ! the v)) (fd_values g') = map snd vs"
    unfolding g'(4) by (intro nth_equalityI) simp_all
  moreover have "sections (put_values f ix k vs d) = sections d" for f ix k d
    by (induction f ix k vs d rule: put_values.induct) (auto simp: put_value_def)
  ultimately show ?case by (simp add: a view_def g' view_field_def)
next
  case (3 sec i line nm es c)
  let ?c1 = "c\<lparr>sections := sections c @ [\<lparr>sc_parent = sec, sc_type = nm\<rparr>]\<rparr>"
  have v: "view ?c1 = view c" by (simp add: view_def)
  have "reads c (i + 3) (concat (map print_entry es))"
    using 3(2) by (simp add: reads_Cons reads_append numeral_3_eq_3)
  then have "reads ?c1 (i + 3) (concat (map print_entry es))" by (rule reads_tokens) simp
  moreover have a: "AddSection sec nm c = (int (length (sections c)), ?c1)" by (simp add: AddSection_def)
  ultimately show ?case using 3(1) [OF a [symmetric] refl] 3(3) by (simp add: a v)
next
  case (4 sec i line c)
  then show ?case by simp
next
  case (5 sec i line e es c)
  have r: "reads c i (print_entry e)" "reads c (i + length (print_entry e)) (concat (map print_entry es))"
    using 5(3) by (simp_all add: reads_append)
  have d: "distinct (map field_key (view c @ entry_fields sec (length (sections c)) e))" using 5(4) by auto
  note e = 5(1) [OF r(1) d]
  have "reads (build_entry sec i line e c) (i + length (print_entry e)) (concat (map print_entry es))"
    using reads_tokens [OF r(2)] build_entry_tokens by blast
  note es = 5(2) [OF this]
  show ?case using e es 5(4) by simp
qed

section \<open>Reading back\<close>

lemma view_lookup:
  assumes "x \<in> set (view c)" "distinct (map field_key (view c))"
  obtains f where "GetField c (fst x) (fst (snd x)) = Some f" "f < length (cfields c)"
    "x = view_field (tokens c) (cfields c ! f)"
proof -
  from assms(1) obtain f where f: "f < length (cfields c)" "x = view_field (tokens c) (cfields c ! f)"
    by (auto simp: view_def in_set_conv_nth)
  have d: "distinct (map (\<lambda>f. (fd_section f, fd_name f)) (cfields c))" using assms(2) by (simp add: view_keys)
  have k: "fd_section (cfields c ! f) = fst x" "fd_name (cfields c ! f) = fst (snd x)"
    using f(2) by (simp_all add: view_field_def)
  have "\<not> (fd_section (cfields c ! j) = fst x \<and> fd_name (cfields c ! j) = fst (snd x))" if "j < f" for j
    using nth_eq_iff_index_eq [OF d, of j f] that f(1) k by auto
  with f(1) k have "GetField c (fst x) (fst (snd x)) = Some f" by (simp add: GetField_def find_index_Some)
  with f that show thesis by blast
qed

lemma ReadTupleString_view:
  assumes "cfg_ok c" "GetField c sec nm = Some f" "view_field (tokens c) (cfields c ! f) = (sec, nm, vs)"
  shows "GetTupleCount sec nm c = Inr (length vs)"
    "j < length vs \<Longrightarrow> \<exists>c'. ReadTupleString sec nm (int j) d c = Inr (Some (vs ! j), c')"
proof -
  note f = GetField_Some [OF assms(2)]
  have vs: "vs = map (\<lambda>v. t_value (tokens c ! the v)) (fd_values (cfields c ! f))"
    using assms(3) by (simp add: view_field_def)
  show "GetTupleCount sec nm c = Inr (length vs)"
    using f assms(2) vs by (simp add: GetTupleCount_def GetFieldValueCount_def)
  show "\<exists>c'. ReadTupleString sec nm (int j) d c = Inr (Some (vs ! j), c')" if "j < length vs"
  proof -
    have j: "j < length (fd_values (cfields c ! f))" using that vs by simp
    then obtain k where "fd_values (cfields c ! f) ! j = Some k" "k < length (tokens c)"
      using cfg_ok_value [OF assms(1), of f "fd_values (cfields c ! f) ! j"] f nth_mem [OF j] by blast
    then show ?thesis
      using f j assms(2) vs by (simp add: ReadTupleString_def GetFieldValue_def GetTokenValue_def)
  qed
qed

text \<open>C28: A program reads what the file says.  Parse, with no macros, the canonical tokens of a configuration tree whose entries
  have proper values and names other than \<open>include\<close>, \<open>define\<close> and \<open>plugin\<close>, and in which no section holds two fields of the same
  name (a field that is given again keeps what it had beyond the new values).  With enough fuel this succeeds; the section
  table is the root followed by the sections of the tree in the order in which they open, each with its name and
  enclosing section; and for every field of the tree \<open>GetTupleCount\<close> gives the number of its values and \<open>ReadTupleString\<close>
  each value as written.\<close>

theorem Read_after_ParseTokens:
  assumes "tokens c = print_entries es" and "macros c = []"
    and "\<forall>e \<in> set es. entry_ok e \<and> plain_name (entry_name e)"
    and "distinct (map field_key (entries_fields 0 1 es))"
  shows "\<exists>N c'. (\<forall>n \<ge> N. ParseTokens n lp c = Inr (Some c')) \<and>
    sections c' = \<lparr>sc_parent = -1, sc_type = []\<rparr> # entries_sections 0 1 es \<and>
    (\<forall>(sec, nm, vs) \<in> set (entries_fields 0 1 es). GetTupleCount sec nm c' = Inr (length vs) \<and>
      (\<forall>j < length vs. \<exists>c''. ReadTupleString sec nm (int j) d c' = Inr (Some (vs ! j), c'')))"
proof -
  let ?c = "fresh_db c" and ?c' = "build_entries 0 0 1 es (fresh_db c)"
  have run: "run_to (\<lambda>n. parse_loop n lp 0 0 1 ?c) (Some ?c')"
    using assms by (intro file_entries) (simp_all add: fresh_db_def reads_def)
  then obtain N where N: "\<forall>n \<ge> N. ParseTokens n lp c = Inr (Some ?c')"
    by (auto simp: run_to_def ParseTokens_def AddSection_def ClearFields_def ClearSections_def fresh_db_def)
  then have ok: "cfg_ok ?c'" using ParseTokens_keeps assms(2) by blast
  have "reads ?c 0 (concat (map print_entry es))"
    using assms(1) by (simp add: fresh_db_def reads_def print_entries_def)
  from build_view(2) [OF this, of 0 1] assms(4)
  have v: "view ?c' = entries_fields 0 1 es" "sections ?c' = \<lparr>sc_parent = -1, sc_type = []\<rparr> # entries_sections 0 1 es"
    by (simp_all add: fresh_db_def view_def)
  have "GetTupleCount sec nm ?c' = Inr (length vs) \<and>
      (\<forall>j < length vs. \<exists>c''. ReadTupleString sec nm (int j) d ?c' = Inr (Some (vs ! j), c''))"
    if "(sec, nm, vs) \<in> set (entries_fields 0 1 es)" for sec nm vs
  proof -
    have "(sec, nm, vs) \<in> set (view ?c')" "distinct (map field_key (view ?c'))"
      unfolding v(1) using that assms(4) by blast+
    from view_lookup [OF this, unfolded fst_conv snd_conv] obtain f where
      "GetField ?c' sec nm = Some f" "(sec, nm, vs) = view_field (tokens ?c') (cfields ?c' ! f)" by blast
    from ReadTupleString_view [OF ok this(1) this(2) [symmetric]] show ?thesis by blast
  qed
  with N v(2) show ?thesis by blast
qed

theorem Read_after_ParseTokens_witness:
  "\<exists>c' c''. (\<exists>N. \<forall>n \<ge> N. ParseTokens n (\<lambda>_. True) (new_cfg (print_entries tree1)) = Inr (Some c')) \<and>
     map sc_type (sections c') = [[], ''driver'', ''geom''] \<and>
     ReadTupleString 1 ''pose'' 1 None c' = Inr (Some ''2'', c'')"
proof -
  have t: "tokens (new_cfg (print_entries tree1)) = print_entries tree1" "macros (new_cfg (print_entries tree1)) = []"
    by (simp_all add: new_cfg_def)
  have ok: "\<forall>e \<in> set tree1. entry_ok e \<and> plain_name (entry_name e)"
    by (simp add: tree1_def plain_name_def value_type_def)
  have fs: "entries_fields 0 1 tree1 = [(1, ''name'', [''sick'']), (1, ''pose'', [''1'', ''2'']), (2, ''on'', [''yes'']), (0, ''unit'', [''m''])]"
    "entries_sections 0 1 tree1 = [\<lparr>sc_parent = 0, sc_type = ''driver''\<rparr>, \<lparr>sc_parent = 1, sc_type = ''geom''\<rparr>]"
    by (simp_all add: tree1_def)
  have "distinct (map field_key (entries_fields 0 1 tree1))" unfolding fs by (simp add: field_key_def)
  from Read_after_ParseTokens [OF t ok this, of "\<lambda>_. True" None] obtain N c' where
    n: "\<forall>n \<ge> N. ParseTokens n (\<lambda>_. True) (new_cfg (print_entries tree1)) = Inr (Some c')"
    and s: "sections c' = \<lparr>sc_parent = -1, sc_type = []\<rparr> # entries_sections 0 1 tree1"
    and f: "\<forall>(sec, nm, vs) \<in> set (entries_fields 0 1 tree1). GetTupleCount sec nm c' = Inr (length vs) \<and>
      (\<forall>j < length vs. \<exists>c''. ReadTupleString sec nm (int j) None c' = Inr (Some (vs ! j), c''))" by blast
  from f have "\<forall>j < 2. \<exists>c''. ReadTupleString 1 ''pose'' (int j) None c' = Inr (Some ([''1'', ''2''] ! j), c'')"
    unfolding fs by (simp add: numeral_2_eq_2)
  then have "\<exists>c''. ReadTupleString 1 ''pose'' (int 1) None c' = Inr (Some ([''1'', ''2''] ! 1), c'')" by (elim allE [of _ 1]) simp
  then obtain c'' where "ReadTupleString 1 ''pose'' 1 None c' = Inr (Some ''2'', c'')" by auto
  moreover have "map sc_type (sections c') = [[], ''driver'', ''geom'']" using s unfolding fs by simp
  ultimately show ?thesis using n by (intro exI [of _ c'] exI [of _ c''] conjI exI [of _ N])
qed

end
