(* ===== verification/DriverTable.thy ===== *)
theory DriverTable
  imports Registry "HOL-Library.List_Lexorder"
begin

text \<open>
  The table of driver classes, \<open>libplayercore/drivertable.cc\<close>.  Names are kept in buffers of 64 characters; an
  initialisation function is a value of type \<open>'f\<close>, \<open>None\<close> for a null pointer.
\<close>

section \<open>The table\<close>

definition DRIVER_STRING_LEN :: nat where
  "DRIVER_STRING_LEN = 64"

record 'f driver_entry =
  de_name :: string
  de_init :: "'f option"

record 'f driver_table =
  entries :: "'f driver_entry list"
  numdrivers :: nat

definition DriverTable_new :: "'f driver_table" where
  "DriverTable_new = \<lparr>entries = [], numdrivers = 0\<rparr>"

definition fill_entry :: "string \<Rightarrow> 'f option \<Rightarrow> 'f driver_entry" where
  "fill_entry name f = \<lparr>de_name = strncpy_term DRIVER_STRING_LEN name, de_init = f\<rparr>"

text \<open>The walk to the entry of that name or to the end; the flag says that an entry was added.\<close>

fun add_entry :: "string \<Rightarrow> 'f option \<Rightarrow> 'f driver_entry list \<Rightarrow> 'f driver_entry list \<times> bool" where
  "add_entry name f [] = ([fill_entry name f], True)"
| "add_entry name f (e # es) =
     (if strncmp_eq DRIVER_STRING_LEN (de_name e) name then (fill_entry name f # es, False)
      else (let (es', added) = add_entry name f es in (e # es', added)))"

definition AddDriver :: "string \<Rightarrow> 'f option \<Rightarrow> 'f driver_table \<Rightarrow> 'f driver_table" where
  "AddDriver name f t =
     (let (es, added) = add_entry name f (entries t)
      in \<lparr>entries = es, numdrivers = numdrivers t + (if added then 1 else 0)\<rparr>)"

fun get_entry :: "string \<Rightarrow> 'f driver_entry list \<Rightarrow> 'f driver_entry option" where
  "get_entry name [] = None"
| "get_entry name (e # es) = (if de_name e = name then Some e else get_entry name es)"

definition GetDriverEntry :: "'f driver_table \<Rightarrow> string \<Rightarrow> 'f driver_entry option" where
  "GetDriverEntry t name = get_entry name (entries t)"

fun driver_name_at :: "int \<Rightarrow> int \<Rightarrow> 'f driver_entry list \<Rightarrow> string option" where
  "driver_name_at i ix [] = None"
| "driver_name_at i ix (e # es) = (if i = ix then Some (de_name e) else driver_name_at (i + 1) ix es)"

definition GetDriverName :: "'f driver_table \<Rightarrow> int \<Rightarrow> string option" where
  "GetDriverName t ix = driver_name_at 0 ix (entries t)"

text \<open>\<open>strcmp\<close> orders by character codes.\<close>

definition driver_strcmp :: "string \<Rightarrow> nat list" where
  "driver_strcmp s = map of_char s"

definition SortDrivers :: "'f driver_table \<Rightarrow> string list outcome" where
  "SortDrivers t =
     (if numdrivers t < length (entries t) then Inl BufferOverflow
      else if length (entries t) < numdrivers t then Inl Uninitialised
      else Inr (sort_key driver_strcmp (map de_name (entries t))))"

section \<open>The table as a store\<close>

definition table_ok :: "'f driver_table \<Rightarrow> bool" where
  "table_ok t \<longleftrightarrow> numdrivers t = length (entries t) \<and> list_all (\<lambda>e. length (de_name e) < DRIVER_STRING_LEN) (entries t)"

definition short_name :: "string \<Rightarrow> bool" where
  "short_name s \<longleftrightarrow> length s < DRIVER_STRING_LEN"

definition driver_init :: "'f driver_table \<Rightarrow> string \<Rightarrow> 'f option option" where
  "driver_init t name = map_option de_init (GetDriverEntry t name)"

lemma strncmp_short: "length a < n \<Longrightarrow> strncmp_eq n a b \<longleftrightarrow> a = b"
  by (auto simp: strncmp_eq_def dest: arg_cong [of _ _ length])

lemma fill_entry_simps [simp]:
  "short_name name \<Longrightarrow> de_name (fill_entry name f) = name" "de_init (fill_entry name f) = f"
  "length (de_name (fill_entry name f)) < DRIVER_STRING_LEN"
  by (simp_all add: fill_entry_def short_name_def length_strncpy_term DRIVER_STRING_LEN_def)

lemma add_entry_ok:
  "add_entry name f es = (es', added) \<Longrightarrow> list_all (\<lambda>e. length (de_name e) < DRIVER_STRING_LEN) es \<Longrightarrow>
   list_all (\<lambda>e. length (de_name e) < DRIVER_STRING_LEN) es' \<and> length es' = length es + (if added then 1 else 0)"
  by (induction es arbitrary: es' added) (auto split: if_splits prod.splits)

lemma add_entry_names:
  "add_entry name f es = (es', added) \<Longrightarrow> list_all (\<lambda>e. length (de_name e) < DRIVER_STRING_LEN) es \<Longrightarrow> short_name name \<Longrightarrow>
   map de_name es' = map de_name es @ (if added then [name] else []) \<and> (added \<longleftrightarrow> name \<notin> de_name ` set es)"
  by (induction es arbitrary: es' added) (auto simp: strncmp_short split: if_splits prod.splits)

lemma add_entry_get:
  "add_entry name f es = (es', added) \<Longrightarrow> list_all (\<lambda>e. length (de_name e) < DRIVER_STRING_LEN) es \<Longrightarrow> short_name name \<Longrightarrow>
   map_option de_init (get_entry n es') = (if n = name then Some f else map_option de_init (get_entry n es))"
  by (induction es arbitrary: es' added) (auto simp: strncmp_short split: if_splits prod.splits)

lemma AddDriver_ok: "table_ok t \<Longrightarrow> table_ok (AddDriver name f t)"
  by (auto simp: table_ok_def AddDriver_def split: prod.split dest: add_entry_ok)

interpretation drivers: extending_store table_ok short_name driver_init AddDriver
proof
  fix t :: "'f driver_table" and k v k'
  assume t: "table_ok t"
  then show "table_ok (AddDriver k v t)" by (rule AddDriver_ok)
  assume "short_name k"
  moreover obtain es' added where e: "add_entry k v (entries t) = (es', added)" by fastforce
  ultimately have "map_option de_init (get_entry k' es') = (if k' = k then Some v else map_option de_init (get_entry k' (entries t)))"
    using add_entry_get [OF e] t by (simp add: table_ok_def)
  then show "driver_init (AddDriver k v t) k' = (if k' = k then Some v else driver_init t k')"
    by (simp add: driver_init_def GetDriverEntry_def AddDriver_def e)
qed

lemma AddDriver_names:
  "table_ok t \<Longrightarrow> short_name name \<Longrightarrow> distinct (map de_name (entries t)) \<Longrightarrow>
   distinct (map de_name (entries (AddDriver name f t))) \<and>
   set (map de_name (entries (AddDriver name f t))) = insert name (set (map de_name (entries t)))"
proof -
  assume t: "table_ok t" and n: "short_name name" and d: "distinct (map de_name (entries t))"
  obtain es' added where e: "add_entry name f (entries t) = (es', added)" by fastforce
  from add_entry_names [OF e] t n d have "map de_name es' = map de_name (entries t) @ (if added then [name] else [])"
    "added \<longleftrightarrow> name \<notin> set (map de_name (entries t))" by (simp_all add: table_ok_def)
  with d show ?thesis by (cases added) (auto simp: AddDriver_def e simp del: set_map)
qed

lemma AddDrivers_names:
  "table_ok t \<Longrightarrow> list_all (short_name \<circ> fst) kvs \<Longrightarrow> distinct (map de_name (entries t)) \<Longrightarrow>
   distinct (map de_name (entries (fold (\<lambda>kv. AddDriver (fst kv) (snd kv)) kvs t))) \<and>
   set (map de_name (entries (fold (\<lambda>kv. AddDriver (fst kv) (snd kv)) kvs t))) = fst ` set kvs \<union> set (map de_name (entries t))"
proof (induction kvs arbitrary: t)
  case (Cons kv kvs)
  with AddDriver_names [of t "fst kv" "snd kv"] AddDriver_ok [of t "fst kv" "snd kv"]
    Cons.IH [of "AddDriver (fst kv) (snd kv) t"] show ?case by auto
qed simp

text \<open>The driver table is a map from names to factory functions.  After any sequence of registrations under names shorter
  than the buffer, a lookup finds exactly the registered names and returns the function registered last, and
  \<open>SortDrivers\<close> returns every registered name once, in increasing order.\<close>

theorem GetDriverEntry_after_AddDrivers:
  assumes "list_all (short_name \<circ> fst) kvs" and "t = fold (\<lambda>kv. AddDriver (fst kv) (snd kv)) kvs DriverTable_new"
  shows "map_option de_init (GetDriverEntry t name) = map_of (rev kvs) name \<and>
    (\<exists>names. SortDrivers t = Inr names \<and> distinct names \<and> set names = fst ` set kvs \<and> sorted (map driver_strcmp names))"
proof -
  have ok: "table_ok (DriverTable_new :: 'a driver_table)" by (simp add: table_ok_def DriverTable_new_def)
  have none: "driver_init (DriverTable_new :: 'a driver_table) name = None"
    by (simp add: driver_init_def GetDriverEntry_def DriverTable_new_def)
  have "map_option de_init (GetDriverEntry t name) = map_of (rev kvs) name"
    using drivers.fold_put_get [OF ok assms(1), of name] none by (simp add: assms(2) driver_init_def split: option.splits)
  moreover have "table_ok t" using drivers.fold_put_inv [OF ok assms(1)] by (simp add: assms(2))
  ultimately show ?thesis
    using AddDrivers_names [OF ok assms(1)] by (auto simp: SortDrivers_def table_ok_def assms(2) DriverTable_new_def)
qed

theorem GetDriverEntry_after_AddDrivers_witness:
  "map_option de_init (GetDriverEntry (AddDriver ''p2os'' (Some (2::nat)) (AddDriver ''p2os'' (Some 1) DriverTable_new)) ''p2os'') = Some (Some 2)"
  using GetDriverEntry_after_AddDrivers [of "[(''p2os'', Some (1::nat)), (''p2os'', Some 2)]" _ "''p2os''"]
  by (simp add: short_name_def DRIVER_STRING_LEN_def)

section \<open>Names that do not fit\<close>

text \<open>A name of 64 characters or more is cut when it is stored, so it is not found again, and a second
  registration of it adds a second entry.\<close>

lemma long_name_lost:
  assumes "DRIVER_STRING_LEN \<le> length name"
  shows "GetDriverEntry (AddDriver name f DriverTable_new) name = None"
    "numdrivers (AddDriver name g (AddDriver name f DriverTable_new)) = 2"
proof -
  have "take 63 name \<noteq> name" "take 64 (take 63 name) \<noteq> take 64 name"
    using assms by (auto simp: DRIVER_STRING_LEN_def dest: arg_cong [of _ _ length])
  then show "GetDriverEntry (AddDriver name f DriverTable_new) name = None"
    "numdrivers (AddDriver name g (AddDriver name f DriverTable_new)) = 2"
    by (simp_all add: GetDriverEntry_def AddDriver_def DriverTable_new_def fill_entry_def strncpy_term_def DRIVER_STRING_LEN_def
        strncmp_eq_def)
qed

end
