(* ===== verification/FileWatcher.thy ===== *)
theory FileWatcher
  imports MessageQueue
begin

text \<open>
  \<open>libplayercore/filewatcher.cc\<close>: queues to wake when a file descriptor has an event.  \<open>select\<close> is a
  parameter; sets of descriptors are lists.  The file watcher unlocks around \<open>select\<close>, so the array that the results are
  matched against may differ from the one the sets were made from.
\<close>

section \<open>State and operations\<close>

record watch =
  w_fd :: int
  w_queue :: qptr
  w_read :: bool
  w_write :: bool
  w_except :: bool

record watcher =
  WatchedFiles :: "watch list"
  ArraySize :: nat

definition FileWatcher_new :: watcher where
  "FileWatcher_new = \<lparr>WatchedFiles = [], ArraySize = 32\<rparr>"

text \<open>\<open>WatchedFiles\<close> is the used part of the array; the rest of the allocated space is zero.\<close>

definition AddFileWatch :: "int \<Rightarrow> qptr \<Rightarrow> bool \<Rightarrow> bool \<Rightarrow> bool \<Rightarrow> watcher \<Rightarrow> watcher" where
  "AddFileWatch fd queue r w e s =
     (let entry = \<lparr>w_fd = fd, w_queue = queue, w_read = r, w_write = w, w_except = e\<rparr> in
      case find_index (\<lambda>x. w_fd x < 0) (WatchedFiles s) of
        Some i \<Rightarrow> s\<lparr>WatchedFiles := (WatchedFiles s)[i := entry]\<rparr>
      | None \<Rightarrow>
          (let size = (if ArraySize s \<le> length (WatchedFiles s) then 2 * ArraySize s else ArraySize s)
           in s\<lparr>WatchedFiles := WatchedFiles s @ [entry], ArraySize := size\<rparr>))"

definition AddFileWatch_noqueue :: "int \<Rightarrow> bool \<Rightarrow> bool \<Rightarrow> bool \<Rightarrow> watcher \<Rightarrow> watcher" where
  "AddFileWatch_noqueue fd r w e s = AddFileWatch fd None r w e s"

definition RemoveFileWatch :: "int \<Rightarrow> qptr \<Rightarrow> bool \<Rightarrow> bool \<Rightarrow> bool \<Rightarrow> watcher \<Rightarrow> int \<times> watcher" where
  "RemoveFileWatch fd queue r w e s =
     (case find_index (\<lambda>x. w_fd x = fd \<and> w_queue x = queue \<and> w_read x = r \<and> w_write x = w \<and> w_except x = e) (WatchedFiles s) of
        Some i \<Rightarrow> (0, s\<lparr>WatchedFiles := (WatchedFiles s)[i := (WatchedFiles s ! i)\<lparr>w_fd := - 1\<rparr>]\<rparr>)
      | None \<Rightarrow> (- 1, s))"

definition RemoveFileWatch_noqueue :: "int \<Rightarrow> bool \<Rightarrow> bool \<Rightarrow> bool \<Rightarrow> watcher \<Rightarrow> int \<times> watcher" where
  "RemoveFileWatch_noqueue fd r w e s = RemoveFileWatch fd None r w e s"

section \<open>Waiting\<close>

record fdsets =
  ReadFds :: "int list"
  WriteFds :: "int list"
  ExceptFds :: "int list"

text \<open>An \<open>fd_set\<close> holds the descriptors below 1024; \<open>FD_SET\<close> beyond that writes past it.\<close>

definition FD_SETSIZE :: int where
  "FD_SETSIZE = 1024"

definition FD_SET_if :: "bool \<Rightarrow> int \<Rightarrow> int list \<Rightarrow> int list outcome" where
  "FD_SET_if b fd l = (if \<not> b then Inr l else if FD_SETSIZE \<le> fd then Inl BufferOverflow else Inr (List.insert fd l))"

fun make_sets :: "watch list \<Rightarrow> int \<Rightarrow> fdsets \<Rightarrow> (int \<times> fdsets) outcome" where
  "make_sets [] maxfd s = Inr (maxfd, s)"
| "make_sets (x # xs) maxfd s =
     (if 0 \<le> w_fd x then
        bindo (FD_SET_if (w_read x) (w_fd x) (ReadFds s)) (\<lambda>r.
        bindo (FD_SET_if (w_write x) (w_fd x) (WriteFds s)) (\<lambda>w.
        bindo (FD_SET_if (w_except x) (w_fd x) (ExceptFds s)) (\<lambda>e.
          make_sets xs (max maxfd (w_fd x)) \<lparr>ReadFds = r, WriteFds = w, ExceptFds = e\<rparr>)))
      else make_sets xs maxfd s)"

definition has_event :: "fdsets \<Rightarrow> watch \<Rightarrow> bool" where
  "has_event ready x \<longleftrightarrow>
     w_read x \<and> w_fd x \<in> set (ReadFds ready) \<or> w_write x \<and> w_fd x \<in> set (WriteFds ready) \<or>
     w_except x \<and> w_fd x \<in> set (ExceptFds ready)"

text \<open>The loop over the entries: the queues told that data is available, the match count and the count of matches without
  a queue.\<close>

fun match_ready :: "int \<Rightarrow> int \<Rightarrow> fdsets \<Rightarrow> watch list \<Rightarrow> int \<Rightarrow> int \<Rightarrow> qid list \<times> int \<times> int" where
  "match_ready ret maxfd ready [] m q = ([], m, q)"
| "match_ready ret maxfd ready (x # xs) m q =
     (if \<not> m < ret then ([], m, q)
      else if 0 < w_fd x \<and> w_fd x \<le> maxfd \<and> has_event ready x then
        (case w_queue x of
           Some i \<Rightarrow> (let (is, r) = match_ready ret maxfd ready xs (m + 1) q in (i # is, r))
         | None \<Rightarrow> match_ready ret maxfd ready xs (m + 1) (q + 1))
      else match_ready ret maxfd ready xs m q)"

text \<open>\<open>s'\<close> is the state of the watcher when \<open>select\<close> has returned \<open>ret\<close> and \<open>ready\<close>.\<close>

definition FileWatcher_Wait :: "(int \<Rightarrow> fdsets \<Rightarrow> int \<times> fdsets) \<Rightarrow> watcher \<Rightarrow> watcher \<Rightarrow> (int \<times> qid list) outcome" where
  "FileWatcher_Wait select s s' =
     (if WatchedFiles s = [] then Inr (0, [])
      else
        bindo (make_sets (WatchedFiles s) 0 \<lparr>ReadFds = [], WriteFds = [], ExceptFds = []\<rparr>) (\<lambda>(maxfd, sets).
          let (ret, ready) = select (maxfd + 1) sets in
          if ret < 0 then Inr (ret, [])
          else if ret = 0 then Inr (0, [])
          else (let (told, m, q) = match_ready ret maxfd ready (WatchedFiles s') 0 0 in Inr (q, told))))"

section \<open>The watches as a multiset\<close>

definition watches :: "watcher \<Rightarrow> watch multiset" where
  "watches s = mset (filter (\<lambda>x. 0 \<le> w_fd x) (WatchedFiles s))"

definition watcher_ok :: "watcher \<Rightarrow> bool" where
  "watcher_ok s \<longleftrightarrow> length (WatchedFiles s) \<le> ArraySize s \<and> 0 < ArraySize s"

lemma AddFileWatch_watches:
  assumes "0 \<le> fd"
  shows "watches (AddFileWatch fd q r w e s) = add_mset \<lparr>w_fd = fd, w_queue = q, w_read = r, w_write = w, w_except = e\<rparr> (watches s)"
proof (cases "find_index (\<lambda>x. w_fd x < 0) (WatchedFiles s)")
  case None
  with assms show ?thesis by (simp add: AddFileWatch_def watches_def Let_def)
next
  case (Some i)
  with mset_filter_update [of i "WatchedFiles s" "\<lambda>x. 0 \<le> w_fd x" "\<lparr>w_fd = fd, w_queue = q, w_read = r, w_write = w, w_except = e\<rparr>"]
    find_index_bound [OF Some] assms show ?thesis by (simp add: AddFileWatch_def watches_def)
qed

lemma AddFileWatch_ok: "watcher_ok s \<Longrightarrow> watcher_ok (AddFileWatch fd q r w e s)"
  by (auto simp: watcher_ok_def AddFileWatch_def Let_def split: option.split)

lemma RemoveFileWatch_watches:
  assumes "0 \<le> fd"
  shows "(let x = \<lparr>w_fd = fd, w_queue = q, w_read = r, w_write = w, w_except = e\<rparr>; (ret, s') = RemoveFileWatch fd q r w e s in
    (if x \<in># watches s then ret = 0 \<and> watches s' = watches s - {#x#} else ret = - 1 \<and> s' = s))"
proof -
  let ?x = "\<lparr>w_fd = fd, w_queue = q, w_read = r, w_write = w, w_except = e\<rparr>"
  let ?P = "\<lambda>x. w_fd x = fd \<and> w_queue x = q \<and> w_read x = r \<and> w_write x = w \<and> w_except x = e"
  have P: "?P y \<longleftrightarrow> y = ?x" for y by (cases y) auto
  show ?thesis
  proof (cases "find_index ?P (WatchedFiles s)")
    case None
    then have "?x \<notin> set (WatchedFiles s)" by (auto simp: find_index_None)
    then have "?x \<notin># watches s" by (simp add: watches_def)
    with None show ?thesis by (simp add: RemoveFileWatch_def)
  next
    case (Some i)
    from find_index_bound [OF Some] have i: "i < length (WatchedFiles s)" "WatchedFiles s ! i = ?x" unfolding P by simp_all
    then have "?x \<in># watches s" using assms nth_mem [OF i(1)] by (simp add: watches_def)
    moreover have "add_mset ?x (watches (snd (RemoveFileWatch fd q r w e s))) = watches s"
      using mset_filter_update [OF i(1), of "\<lambda>x. 0 \<le> w_fd x" "?x\<lparr>w_fd := - 1\<rparr>"] Some i assms
      by (simp add: RemoveFileWatch_def watches_def)
    ultimately show ?thesis using Some by (auto simp: RemoveFileWatch_def split: option.splits) (metis add_mset_remove_trivial)
  qed
qed

text \<open>The file watcher implements a bag of watches.  Adding a watch of a descriptor adds exactly it (in the first freed entry
  or a new one, for which there is room); removing one removes exactly one copy of it and returns 0, or returns -1 and
  changes nothing if there is none.\<close>

theorem FileWatch_refines_bag:
  assumes "watcher_ok s" and "0 \<le> fd" and "x = \<lparr>w_fd = fd, w_queue = q, w_read = r, w_write = w, w_except = e\<rparr>"
  shows "watcher_ok (AddFileWatch fd q r w e s) \<and> watches (AddFileWatch fd q r w e s) = add_mset x (watches s) \<and>
    (let (ret, s') = RemoveFileWatch fd q r w e s in
       watcher_ok s' \<and> (if x \<in># watches s then ret = 0 \<and> watches s' = watches s - {#x#} else ret = - 1 \<and> s' = s))"
proof -
  have "watcher_ok (snd (RemoveFileWatch fd q r w e s))"
    using assms(1) by (auto simp: watcher_ok_def RemoveFileWatch_def split: option.split)
  then show ?thesis
    using AddFileWatch_ok [OF assms(1)] AddFileWatch_watches [OF assms(2)] RemoveFileWatch_watches [OF assms(2), of q r w e s]
    by (simp add: assms(3) Let_def split_beta)
qed

theorem FileWatch_refines_bag_witness:
  "watches (AddFileWatch 5 (Some 1) True False True FileWatcher_new) =
     {#\<lparr>w_fd = 5, w_queue = Some 1, w_read = True, w_write = False, w_except = True\<rparr>#}"
  using FileWatch_refines_bag [of FileWatcher_new 5 _ "Some 1" True False True]
  by (simp add: watcher_ok_def FileWatcher_new_def watches_def)

section \<open>Every event is delivered\<close>

text \<open>\<open>select\<close> when the descriptors in \<open>r\<close> can be read, those in \<open>w\<close> written and those in \<open>e\<close> have an exceptional condition: what
  is left of the sets below the bound, and the number of their elements.\<close>

definition select_of :: "(int \<Rightarrow> bool) \<Rightarrow> (int \<Rightarrow> bool) \<Rightarrow> (int \<Rightarrow> bool) \<Rightarrow> int \<Rightarrow> fdsets \<Rightarrow> int \<times> fdsets" where
  "select_of r w e n sets =
     (let R = filter (\<lambda>f. f < n \<and> r f) (ReadFds sets); W = filter (\<lambda>f. f < n \<and> w f) (WriteFds sets);
          E = filter (\<lambda>f. f < n \<and> e f) (ExceptFds sets)
      in (int (length R + length W + length E), \<lparr>ReadFds = R, WriteFds = W, ExceptFds = E\<rparr>))"

text \<open>An entry is due when one of the events it asks for has happened on its descriptor.\<close>

definition due :: "(int \<Rightarrow> bool) \<Rightarrow> (int \<Rightarrow> bool) \<Rightarrow> (int \<Rightarrow> bool) \<Rightarrow> watch \<Rightarrow> bool" where
  "due r w e x \<longleftrightarrow> 0 \<le> w_fd x \<and> (w_read x \<and> r (w_fd x) \<or> w_write x \<and> w (w_fd x) \<or> w_except x \<and> e (w_fd x))"

definition hit :: "int \<Rightarrow> fdsets \<Rightarrow> watch \<Rightarrow> bool" where
  "hit maxfd ready x \<longleftrightarrow> 0 < w_fd x \<and> w_fd x \<le> maxfd \<and> has_event ready x"

lemma match_ready_all:
  assumes "m + int (length (filter (hit maxfd ready) ws)) \<le> ret"
  shows "\<exists>m'. match_ready ret maxfd ready ws m q =
    (map (\<lambda>x. the (w_queue x)) (filter (\<lambda>x. w_queue x \<noteq> None) (filter (hit maxfd ready) ws)), m',
     q + int (length (filter (\<lambda>x. w_queue x = None) (filter (hit maxfd ready) ws))))"
  using assms
proof (induction ws arbitrary: m q)
  case (Cons x ws)
  show ?case
  proof (cases "m < ret")
    case True
    show ?thesis
    proof (cases "hit maxfd ready x")
      case h: True
      then have x: "0 < w_fd x \<and> w_fd x \<le> maxfd \<and> has_event ready x" by (simp add: hit_def)
      from h Cons.prems have "m + 1 + int (length (filter (hit maxfd ready) ws)) \<le> ret" by simp
      from Cons.IH [OF this, of q] Cons.IH [OF this, of "q + 1"] show ?thesis
        using True x h by (cases "w_queue x") (auto simp del: filter_filter)
    next
      case h: False
      then have x: "\<not> (0 < w_fd x \<and> w_fd x \<le> maxfd \<and> has_event ready x)" by (simp add: hit_def)
      have "match_ready ret maxfd ready (x # ws) m q = match_ready ret maxfd ready ws m q"
        by (simp only: match_ready.simps x True if_False simp_thms if_True)
      with Cons.IH [of m q] Cons.prems h show ?thesis by (simp del: filter_filter match_ready.simps)
    qed
  next
    case False
    with Cons.prems have "int (length (filter (hit maxfd ready) (x # ws))) \<le> 0" by linarith
    then have "filter (hit maxfd ready) (x # ws) = []" by simp
    with False show ?thesis by (simp only: match_ready.simps) simp
  qed
qed simp

text \<open>The sets hold exactly the descriptors of the entries in use that ask for the event.\<close>

lemma make_sets_exact:
  assumes "list_all (\<lambda>x. w_fd x < FD_SETSIZE) ws"
  shows "\<exists>maxfd' s'. make_sets ws maxfd s = Inr (maxfd', s') \<and> maxfd \<le> maxfd' \<and>
    (\<forall>x \<in> set ws. 0 \<le> w_fd x \<longrightarrow> w_fd x \<le> maxfd') \<and>
    set (ReadFds s') = set (ReadFds s) \<union> w_fd ` {x \<in> set ws. 0 \<le> w_fd x \<and> w_read x} \<and>
    set (WriteFds s') = set (WriteFds s) \<union> w_fd ` {x \<in> set ws. 0 \<le> w_fd x \<and> w_write x} \<and>
    set (ExceptFds s') = set (ExceptFds s) \<union> w_fd ` {x \<in> set ws. 0 \<le> w_fd x \<and> w_except x}"
  using assms
proof (induction ws arbitrary: maxfd s)
  case (Cons x ws)
  show ?case
  proof (cases "0 \<le> w_fd x")
    case True
    let ?s = "\<lparr>ReadFds = if w_read x then List.insert (w_fd x) (ReadFds s) else ReadFds s,
      WriteFds = if w_write x then List.insert (w_fd x) (WriteFds s) else WriteFds s,
      ExceptFds = if w_except x then List.insert (w_fd x) (ExceptFds s) else ExceptFds s\<rparr>"
    have step: "make_sets (x # ws) maxfd s = make_sets ws (max maxfd (w_fd x)) ?s"
      using True Cons.prems by (simp add: FD_SET_if_def)
    have part: "w_fd ` {y \<in> set (x # ws). 0 \<le> w_fd y \<and> P y} =
        (if P x then {w_fd x} else {}) \<union> w_fd ` {y \<in> set ws. 0 \<le> w_fd y \<and> P y}" for P
      using True by auto
    obtain maxfd' s' where r: "make_sets ws (max maxfd (w_fd x)) ?s = Inr (maxfd', s')" "max maxfd (w_fd x) \<le> maxfd'"
      "\<forall>x \<in> set ws. 0 \<le> w_fd x \<longrightarrow> w_fd x \<le> maxfd'"
      "set (ReadFds s') = set (ReadFds ?s) \<union> w_fd ` {x \<in> set ws. 0 \<le> w_fd x \<and> w_read x}"
      "set (WriteFds s') = set (WriteFds ?s) \<union> w_fd ` {x \<in> set ws. 0 \<le> w_fd x \<and> w_write x}"
      "set (ExceptFds s') = set (ExceptFds ?s) \<union> w_fd ` {x \<in> set ws. 0 \<le> w_fd x \<and> w_except x}"
      using Cons.IH [of "max maxfd (w_fd x)" ?s] Cons.prems by auto
    have "set (ReadFds ?s) = set (ReadFds s) \<union> (if w_read x then {w_fd x} else {})"
      "set (WriteFds ?s) = set (WriteFds s) \<union> (if w_write x then {w_fd x} else {})"
      "set (ExceptFds ?s) = set (ExceptFds s) \<union> (if w_except x then {w_fd x} else {})" by simp_all
    with r show ?thesis unfolding step part by (intro exI [of _ maxfd'] exI [of _ s']) (simp only: Un_assoc, simp)
  next
    case False
    then have "{y \<in> set (x # ws). 0 \<le> w_fd y \<and> P y} = {y \<in> set ws. 0 \<le> w_fd y \<and> P y}" for P by auto
    with False Cons.IH [of maxfd s] Cons.prems show ?thesis by simp
  qed
qed simp


definition all_ready :: "int \<Rightarrow> fdsets \<Rightarrow> int \<times> fdsets" where
  "all_ready n s = (int (length (ReadFds s) + length (WriteFds s) + length (ExceptFds s)), s)"

definition watcher1 :: watcher where
  "watcher1 = \<lparr>WatchedFiles = [\<lparr>w_fd = 4, w_queue = Some 1, w_read = True, w_write = True, w_except = False\<rparr>,
     \<lparr>w_fd = 7, w_queue = Some 2, w_read = True, w_write = False, w_except = False\<rparr>], ArraySize = 32\<rparr>"


section \<open>Events that are missed\<close>

text \<open>Descriptor 0 is watched but never matched; a descriptor watched twice uses up the count, and the entry after it is
  not told; a descriptor beyond the capacity of the sets overflows them.\<close>

definition two_watchers :: "int \<Rightarrow> int \<Rightarrow> int \<Rightarrow> watcher" where
  "two_watchers a b c = AddFileWatch c (Some 3) True False False (AddFileWatch b (Some 2) True False False
     (AddFileWatch a (Some 1) True False False FileWatcher_new))"

lemma missed_events:
  "FileWatcher_Wait all_ready (two_watchers 0 1 2) (two_watchers 0 1 2) = Inr (0, [2, 3])"
  "FileWatcher_Wait all_ready (two_watchers 5 5 6) (two_watchers 5 5 6) = Inr (0, [1, 2])"
  "FileWatcher_Wait all_ready (two_watchers 1 2 1024) (two_watchers 1 2 1024) = Inl BufferOverflow"
  by (simp_all add: two_watchers_def FileWatcher_Wait_def AddFileWatch_def FileWatcher_new_def FD_SET_if_def FD_SETSIZE_def
      all_ready_def has_event_def)

end
