(* ===== verification/ConfigFloat.thy ===== *)
theory ConfigFloat
  imports ConfigAccess
begin

text \<open>
  The accessors of \<open>libplayercore/configfile.cc\<close> for floating point numbers, lengths, angles and colors.
  A \<open>double\<close> is a real number: rounding to the format, infinities and the spellings \<open>inf\<close>, \<open>nan\<close> and \<open>0x\<close>
  that \<open>atof\<close> also takes are left out.
\<close>

section \<open>Reading a number\<close>

definition minus_first :: "string \<Rightarrow> bool" where
  "minus_first s \<longleftrightarrow> s \<noteq> [] \<and> hd s = CHR ''-''"

definition drop_sign :: "string \<Rightarrow> string" where
  "drop_sign s = (if s \<noteq> [] \<and> (hd s = CHR ''-'' \<or> hd s = CHR ''+'') then tl s else s)"

definition exponent :: "string \<Rightarrow> real" where
  "exponent s =
     (if s \<noteq> [] \<and> (hd s = CHR ''e'' \<or> hd s = CHR ''E'') then
        (let n = read_digits 0 (drop_sign (tl s)) in if minus_first (tl s) then 1 / 10 ^ n else 10 ^ n)
      else 1)"

definition mantissa :: "string \<Rightarrow> real \<times> string" where
  "mantissa s =
     (let ip = takeWhile c_isdigit s; s' = dropWhile c_isdigit s in
      if s' \<noteq> [] \<and> hd s' = CHR ''.'' then
        (let fp = takeWhile c_isdigit (tl s')
         in (real (read_digits 0 (ip @ fp)) / 10 ^ length fp, if ip @ fp = [] then [] else dropWhile c_isdigit (tl s')))
      else (real (read_digits 0 ip), if ip = [] then [] else s'))"

definition atof :: "string \<Rightarrow> real" where
  "atof s =
     (let s0 = dropWhile c_isspace s; (m, r) = mantissa (drop_sign s0)
      in (if minus_first s0 then - 1 else 1) * m * exponent r)"

section \<open>Printing a number\<close>

text \<open>\<open>snprintf(str, 64, "%.3f", v)\<close>: three decimals, ties to even.\<close>

definition round_even :: "real \<Rightarrow> nat" where
  "round_even x =
     (let n = nat \<lfloor>x\<rfloor>; d = x - of_int \<lfloor>x\<rfloor>
      in if d < 1 / 2 \<or> d = 1 / 2 \<and> even n then n else n + 1)"

definition print_fixed3 :: "real \<Rightarrow> string" where
  "print_fixed3 v =
     (let n = round_even (\<bar>v\<bar> * 1000); k = n mod 1000
      in (if v < 0 then ''-'' else []) @ print_nat (n div 1000) @ CHR ''.'' #
         [digit_char (k div 100), digit_char (k div 10 mod 10), digit_char (k mod 10)])"

definition print_float :: "real \<Rightarrow> string" where
  "print_float v = strncpy_term 64 (print_fixed3 v)"

section \<open>The accessors\<close>

definition ReadFloat :: "int \<Rightarrow> string \<Rightarrow> real \<Rightarrow> cfg \<Rightarrow> real access" where
  "ReadFloat sec name def c =
     (case GetField c sec name of
        None \<Rightarrow> Inr (def, c)
      | Some f \<Rightarrow> bindo (GetFieldValue f 0 True c) (\<lambda>(v, c').
          case v of None \<Rightarrow> Inl NullDeref | Some s \<Rightarrow> Inr (atof s, c')))"

definition ReadLength :: "int \<Rightarrow> string \<Rightarrow> real \<Rightarrow> cfg \<Rightarrow> real access" where
  "ReadLength sec name def c =
     (case GetField c sec name of
        None \<Rightarrow> Inr (def, c)
      | Some f \<Rightarrow> bindo (GetFieldValue f 0 True c) (\<lambda>(v, c').
          case v of None \<Rightarrow> Inl NullDeref | Some s \<Rightarrow> Inr (atof s * unit_length c', c')))"

definition WriteLength :: "int \<Rightarrow> string \<Rightarrow> real \<Rightarrow> cfg \<Rightarrow> cfg outcome" where
  "WriteLength sec name v c = WriteString sec name (print_float (v / unit_length c)) c"

definition ReadAngle :: "int \<Rightarrow> string \<Rightarrow> real \<Rightarrow> cfg \<Rightarrow> real access" where
  "ReadAngle sec name def c =
     (case GetField c sec name of
        None \<Rightarrow> Inr (def, c)
      | Some f \<Rightarrow> bindo (GetFieldValue f 0 True c) (\<lambda>(v, c').
          case v of None \<Rightarrow> Inl NullDeref | Some s \<Rightarrow> Inr (atof s * unit_angle c', c')))"

definition ReadTupleFloat :: "int \<Rightarrow> string \<Rightarrow> int \<Rightarrow> real \<Rightarrow> cfg \<Rightarrow> real access" where
  "ReadTupleFloat sec name index def c =
     (case GetField c sec name of
        None \<Rightarrow> Inr (def, c)
      | Some f \<Rightarrow> bindo (GetFieldValue f index True c) (\<lambda>(v, c').
          case v of None \<Rightarrow> Inr (def, c') | Some s \<Rightarrow> Inr (atof s, c')))"

definition WriteTupleFloat :: "int \<Rightarrow> string \<Rightarrow> int \<Rightarrow> real \<Rightarrow> cfg \<Rightarrow> cfg outcome" where
  "WriteTupleFloat sec name index v c = WriteTupleString sec name index (print_float v) c"

definition ReadTupleLength :: "int \<Rightarrow> string \<Rightarrow> int \<Rightarrow> real \<Rightarrow> cfg \<Rightarrow> real access" where
  "ReadTupleLength sec name index def c =
     (case GetField c sec name of
        None \<Rightarrow> Inr (def, c)
      | Some f \<Rightarrow> bindo (GetFieldValue f index True c) (\<lambda>(v, c').
          case v of None \<Rightarrow> Inr (def, c') | Some s \<Rightarrow> Inr (atof s * unit_length c', c')))"

definition WriteTupleLength :: "int \<Rightarrow> string \<Rightarrow> int \<Rightarrow> real \<Rightarrow> cfg \<Rightarrow> cfg outcome" where
  "WriteTupleLength sec name index v c = WriteTupleString sec name index (print_float (v / unit_length c)) c"

definition ReadTupleAngle :: "int \<Rightarrow> string \<Rightarrow> int \<Rightarrow> real \<Rightarrow> cfg \<Rightarrow> real access" where
  "ReadTupleAngle sec name index def c =
     (case GetField c sec name of
        None \<Rightarrow> Inr (def, c)
      | Some f \<Rightarrow> bindo (GetFieldValue f index True c) (\<lambda>(v, c').
          case v of None \<Rightarrow> Inr (def, c') | Some s \<Rightarrow> Inr (atof s * unit_angle c', c')))"

definition WriteTupleAngle :: "int \<Rightarrow> string \<Rightarrow> int \<Rightarrow> real \<Rightarrow> cfg \<Rightarrow> cfg outcome" where
  "WriteTupleAngle sec name index v c = WriteTupleString sec name index (print_float (v / unit_angle c)) c"

section \<open>Colors\<close>

text \<open>\<open>fgets\<close> with room for \<open>n\<close> characters: one line with its end, or a part of it.\<close>

fun c_fgets :: "nat \<Rightarrow> string \<Rightarrow> string \<times> string" where
  "c_fgets 0 s = ([], s)"
| "c_fgets (Suc n) [] = ([], [])"
| "c_fgets (Suc n) (c # cs) =
     (if c = LF then ([c], cs) else (let (l, r) = c_fgets n cs in (c # l, r)))"

lemma c_fgets_append: "c_fgets n s = (l, r) \<Longrightarrow> l @ r = s"
  by (induction n s arbitrary: l r rule: c_fgets.induct) (auto split: if_splits prod.splits)

lemma c_fgets_numeral:
  "c_fgets (numeral k) (c # cs) = (if c = LF then ([c], cs) else (let (l, r) = c_fgets (pred_numeral k) cs in (c # l, r)))"
  by (simp add: numeral_eq_Suc)

lemma c_fgets_shorter: "(l, r) = c_fgets 1023 (c # cs) \<Longrightarrow> length r < Suc (length cs)"
proof -
  assume *: "(l, r) = c_fgets 1023 (c # cs)"
  then have "l \<noteq> []" by (auto simp: numeral_eq_Suc split: if_splits prod.splits)
  with c_fgets_append [OF * [symmetric]] show ?thesis by (cases l) auto
qed

text \<open>\<open>%d\<close> skips white space; the result is the number and what follows it.\<close>

definition scan_int :: "string \<Rightarrow> (int \<times> string) option outcome" where
  "scan_int s =
     (let s0 = dropWhile c_isspace s; ds = takeWhile c_isdigit (drop_sign s0) in
      if ds = [] then Inr None
      else bindo (atoi s0) (\<lambda>n. Inr (Some (n, dropWhile c_isdigit (drop_sign s0)))))"

text \<open>\<open>sscanf(line, "%d %d %d %n", \<dots>)\<close>: \<open>None\<close> if a number is missing.\<close>

definition scan_rgb :: "string \<Rightarrow> ((int \<times> int \<times> int) \<times> string) option outcome" where
  "scan_rgb s =
     bindr (scan_int s) (\<lambda>(r, s1). bindr (scan_int s1) (\<lambda>(g, s2). bindr (scan_int s2) (\<lambda>(b, s3).
       Inr (Some ((r, g, b), dropWhile c_isspace s3)))))"

definition rgb_word :: "int \<Rightarrow> int \<Rightarrow> int \<Rightarrow> u32" where
  "rgb_word r g b =
     or (or (push_bit 16 (word_of_int r)) (push_bit 8 (word_of_int g))) (word_of_int b)"

text \<open>Trimming a line of white space only runs off its beginning.\<close>

definition trim_line :: "string \<Rightarrow> string outcome" where
  "trim_line l =
     (let t = rev (dropWhile (\<lambda>c. c_isblank c \<or> c = LF) (rev l)) in if t = [] then Inl OutOfBounds else Inr t)"

function (sequential) color_loop :: "string option \<Rightarrow> string \<Rightarrow> u32 outcome" where
  "color_loop name [] = Inr 0xFF0000"
| "color_loop name (c # cs) =
     (let (line, rest) = c_fgets 1023 (c # cs) in
      if c = CHR ''!'' \<or> c = CHR ''#'' \<or> c = CHR ''%'' then color_loop name rest
      else
        bindo (trim_line line) (\<lambda>l. bindo (scan_rgb l) (\<lambda>rgb.
        case name of
          None \<Rightarrow> Inl NullDeref
        | Some nm \<Rightarrow>
            (case rgb of
               None \<Rightarrow> if l = nm then Inl Uninitialised else color_loop name rest
             | Some ((r, g, b), nname) \<Rightarrow> if nname = nm then Inr (rgb_word r g b) else color_loop name rest))))"
  by pat_completeness auto
termination
  by (relation "measure (length \<circ> snd)") (auto dest!: c_fgets_shorter)

definition LookupColor :: "string option \<Rightarrow> string option \<Rightarrow> u32 outcome" where
  \<comment> \<open>the database is the contents of the first file found; without one the code closes a null file\<close>
  "LookupColor database name =
     (case database of None \<Rightarrow> Inl NullDeref | Some s \<Rightarrow> color_loop name s)"

definition ReadColor :: "string option \<Rightarrow> int \<Rightarrow> string \<Rightarrow> u32 \<Rightarrow> cfg \<Rightarrow> u32 access" where
  "ReadColor database sec name def c =
     (case GetField c sec name of
        None \<Rightarrow> Inr (def, c)
      | Some f \<Rightarrow> bindo (GetFieldValue f 0 True c) (\<lambda>(v, c').
          bindo (LookupColor database v) (\<lambda>w. Inr (w, c'))))"

definition ReadTupleColor :: "string option \<Rightarrow> int \<Rightarrow> string \<Rightarrow> int \<Rightarrow> u32 \<Rightarrow> cfg \<Rightarrow> u32 access" where
  "ReadTupleColor database sec name index def c =
     (case GetField c sec name of
        None \<Rightarrow> Inr (def, c)
      | Some f \<Rightarrow> bindo (GetFieldValue f index True c) (\<lambda>(v, c').
          case v of None \<Rightarrow> Inr (def, c') | Some s \<Rightarrow> bindo (LookupColor database v) (\<lambda>w. Inr (w, c'))))"

text \<open>Without a database, or past a blank line, a lookup fails.\<close>

lemma LookupColor_faults:
  "LookupColor None name = Inl NullDeref"
  "LookupColor (Some [LF]) name = Inl OutOfBounds"
  by (simp_all add: LookupColor_def trim_line_def numeral_eq_Suc c_isblank_def)

lemma LookupColor_example:
  "LookupColor (Some (''! rgb'' @ [LF] @ ''255 250 250'' @ [TAB, TAB] @ ''snow'' @ [LF] @ ''0 0 128 navy'' @ [LF])) (Some ''navy'') = Inr 128"
  by (simp add: LookupColor_def trim_line_def c_isblank_def scan_rgb_def scan_int_def drop_sign_def atoi_def atoi_value_def
      c_isspace_def c_isdigit_def digit_val_def int_range_def rgb_word_def c_fgets_numeral
      word_of_int_eq_iff)

section \<open>Printing and reading back\<close>

lemma round_even_close: "0 \<le> x \<Longrightarrow> \<bar>real (round_even x) - x\<bar> \<le> 1 / 2"
proof -
  assume "0 \<le> x"
  then have n: "real (nat \<lfloor>x\<rfloor>) = of_int \<lfloor>x\<rfloor>" by simp
  have "0 \<le> x - of_int \<lfloor>x\<rfloor>" "x - of_int \<lfloor>x\<rfloor> < 1" by linarith+
  with n show ?thesis by (auto simp: round_even_def Let_def)
qed

lemma digits3: "(k :: nat) = k div 100 * 100 + k div 10 mod 10 * 10 + k mod 10"
proof -
  have "k mod 100 = 10 * (k div 10 mod 10) + k mod 10" using mod_mult2_eq [of k 10 10] by simp
  then show ?thesis using div_mult_mod_eq [of k 100] by simp
qed

lemma atof_print_fixed3: "atof (print_fixed3 v) = (if v < 0 then - 1 else 1) * real (round_even (\<bar>v\<bar> * 1000)) / 1000"
proof -
  define n where "n = round_even (\<bar>v\<bar> * 1000)"
  define ds where "ds = [digit_char (n mod 1000 div 100), digit_char (n mod 1000 div 10 mod 10), digit_char (n mod 1000 mod 10)]"
  have dot: "\<not> c_isdigit CHR ''.''" by (simp add: c_isdigit_def)
  have lt: "n mod 1000 div 100 < 10" "n mod 1000 div 10 mod 10 < 10" "n mod 1000 mod 10 < 10" by linarith+
  then have d: "\<forall>c \<in> set ds. c_isdigit c" "\<forall>c \<in> set (print_nat (n div 1000)). c_isdigit c"
    by (simp_all add: ds_def print_nat_digits)
  have "1000 * (n div 1000) + 100 * (n mod 1000 div 100) + 10 * (n mod 1000 div 10 mod 10) + n mod 1000 mod 10 = n"
    using digits3 [of "n mod 1000"] div_mult_mod_eq [of n 1000] by linarith
  then have rd: "read_digits (n div 1000) ds = n" using lt by (simp add: ds_def)
  have m: "mantissa (print_nat (n div 1000) @ CHR ''.'' # ds) = (real n / 1000, [])"
  proof -
    have w: "takeWhile c_isdigit ds = ds" "dropWhile c_isdigit ds = []" "length ds = 3" "ds \<noteq> []"
      using d(1) by (simp_all add: takeWhile_eq_all_conv dropWhile_eq_Nil_conv) (simp_all add: ds_def)
    have "read_digits 0 (print_nat (n div 1000) @ ds) = n"
      using d(2) rd by (simp add: read_digits_append read_digits_print_nat)
    with w(3,4) show ?thesis
      by (simp add: mantissa_def scan_append [OF d(2) dot] w(1,2))
  qed
  obtain c cs where p: "print_nat (n div 1000) = c # cs" by (cases "print_nat (n div 1000)") auto
  with d have c: "\<not> c_isspace c" "c \<noteq> CHR ''-''" "c \<noteq> CHR ''+''" using c_isdigit_not [of c] by auto
  have "print_fixed3 v = (if v < 0 then ''-'' else []) @ print_nat (n div 1000) @ CHR ''.'' # ds"
    by (simp add: print_fixed3_def ds_def n_def Let_def)
  then show ?thesis
    using m c by (simp add: atof_def p minus_first_def drop_sign_def exponent_def c_isspace_def n_def [symmetric])
qed

lemma atof_print_close: "\<bar>atof (print_fixed3 v) - v\<bar> \<le> 1 / 2000"
proof -
  have r: "\<bar>real (round_even (\<bar>v\<bar> * 1000)) - \<bar>v\<bar> * 1000\<bar> \<le> 1 / 2" by (rule round_even_close) simp
  show ?thesis
  proof (cases "v < 0")
    case True
    then have v: "\<bar>v\<bar> = - v" by simp
    show ?thesis using r True unfolding atof_print_fixed3 v abs_le_iff by auto
  next
    case False
    then have v: "\<bar>v\<bar> = v" by simp
    show ?thesis using r False unfolding atof_print_fixed3 v abs_le_iff by auto
  qed
qed

text \<open>Numbers below \<open>10 ^ 50\<close> fit the buffer of 64 characters.\<close>

lemma length_print_nat: "n < 10 ^ k \<Longrightarrow> 0 < k \<Longrightarrow> length (print_nat n) \<le> k"
proof (induction k arbitrary: n)
  case (Suc k)
  show ?case
  proof (cases "n < 10")
    case False
    with Suc.prems(1) have "0 < k" by (cases k) auto
    moreover have "n div 10 < 10 ^ k" using Suc.prems(1) by (simp add: less_mult_imp_div_less)
    ultimately show ?thesis using Suc.IH [of "n div 10"] False by (subst print_nat.simps) simp
  qed (subst print_nat.simps, simp)
qed simp

lemma print_float_fits: "\<bar>v\<bar> < 10 ^ 50 \<Longrightarrow> print_float v = print_fixed3 v"
proof -
  assume v: "\<bar>v\<bar> < 10 ^ 50"
  let ?n = "round_even (\<bar>v\<bar> * 1000)"
  have "real ?n \<le> \<bar>v\<bar> * 1000 + 1 / 2" using abs_le_D1 [OF round_even_close [of "\<bar>v\<bar> * 1000"]] by simp
  with v have "real ?n < real (10 ^ 54)" by simp
  then have "?n < 10 ^ 54" by linarith
  then have "?n div 1000 < 10 ^ 51" by (simp add: less_mult_imp_div_less)
  then have "length (print_nat (?n div 1000)) \<le> 51" by (rule length_print_nat) simp
  then have "length (print_fixed3 v) < 64" by (auto simp: print_fixed3_def Let_def split: if_splits)
  then show ?thesis by (simp add: print_float_def)
qed

lemma ReadLength_value:
  "cfg_ok c \<Longrightarrow> field_value c (sec, name) = Some v \<Longrightarrow> \<exists>c'. ReadLength sec name def c = Inr (atof v * unit_length c, c')"
  by (elim field_value_Some) (simp add: ReadLength_def GetFieldValue_first mark_used_def)

lemma WriteString_units: "WriteString sec name v c = Inr c' \<Longrightarrow> unit_length c' = unit_length c"
  by (auto simp: WriteString_def SetFieldValue_def split: option.splits if_splits)

text \<open>A length survives a write and a read up to the three decimals that are written: whatever the unit of the file,
  \<open>ReadLength\<close> after \<open>WriteLength\<close> of \<open>v\<close> is within half a thousandth of a unit of \<open>v\<close>, for every \<open>v\<close> whose text fits
  the buffer.\<close>

theorem WriteLength_then_ReadLength:
  assumes "cfg_inv c" and "field_value c (sec, name) = Some s" and "0 < unit_length c" and "\<bar>v / unit_length c\<bar> < 10 ^ 50"
  shows "\<exists>c' c'' x. WriteLength sec name v c = Inr c' \<and> ReadLength sec name d c' = Inr (x, c'') \<and>
    \<bar>x - v\<bar> \<le> unit_length c / 2000"
proof -
  let ?u = "unit_length c" and ?t = "print_fixed3 (v / unit_length c)"
  obtain c' where c': "WriteString sec name ?t c = Inr c'" "cfg_inv c'" "field_value c' (sec, name) = Some ?t"
    using WriteString_value [OF assms(1,2)] by blast
  then have w: "WriteLength sec name v c = Inr c'" by (simp add: WriteLength_def print_float_fits [OF assms(4)])
  obtain c'' where r: "ReadLength sec name d c' = Inr (atof ?t * ?u, c'')"
    using ReadLength_value [OF _ c'(3), of d] c'(2) WriteString_units [OF c'(1)] by (auto simp: cfg_inv_def)
  have "atof ?t * ?u - v = (atof ?t - v / ?u) * ?u" using assms(3) by (simp add: left_diff_distrib)
  then have "\<bar>atof ?t * ?u - v\<bar> = \<bar>atof ?t - v / ?u\<bar> * ?u" using assms(3) by (simp add: abs_mult)
  also have "\<dots> \<le> 1 / 2000 * ?u" using assms(3) by (intro mult_right_mono atof_print_close) simp
  finally show ?thesis using w r by auto
qed

theorem WriteLength_then_ReadLength_witness:
  "\<exists>c' c'' x. WriteLength 1 ''name'' (1 / 3) (db1\<lparr>unit_length := 1 / 1000\<rparr>) = Inr c' \<and>
     ReadLength 1 ''name'' 0 c' = Inr (x, c'') \<and> \<bar>x - 1 / 3\<bar> \<le> 1 / 2000000"
proof -
  have "cfg_inv (db1\<lparr>unit_length := 1 / 1000\<rparr>)" using db1_inv by (simp add: cfg_inv_def unshared_def cfg_ok_def)
  moreover have "field_value (db1\<lparr>unit_length := 1 / 1000\<rparr>) (1, ''name'') = Some ''sick''"
    using db1_values(1) by (simp add: field_value_def GetField_def cong: option.case_cong list.case_cong)
  ultimately show ?thesis
    using WriteLength_then_ReadLength [of "db1\<lparr>unit_length := 1 / 1000\<rparr>" 1 "''name''" "''sick''" "1 / 3" 0] by simp
qed

end
