(* ===== verification/Property.thy ===== *)
theory Property
  imports ConfigFloat Messages
begin

text \<open>
  Driver properties: the four property classes and the property bag of \<open>libplayercore/property.cpp\<close>, and the
  part of \<open>libplayercore/driver.cc\<close> that registers them and answers the requests for them.  The bag keeps
  pointers to property objects; \<open>objs\<close> is the store of these objects.  Allocation always succeeds.
\<close>

section \<open>Values and requests\<close>

datatype prop_value =
    VBool bool
  | VInt int
  | VDouble real
  | VString "string option"

record property =
  p_key :: "string option"
  p_readonly :: bool
  p_value :: prop_value

text \<open>The request structures: key and value; the Boolean one holds a \<open>char\<close>, the string one a length.\<close>

datatype prop_req =
    BoolReq (req_key: "string option") u8
  | IntReq (req_key: "string option") int
  | DblReq (req_key: "string option") real
  | StrReq (req_key: "string option") u32 "string option"

datatype prop_kind = KBool | KInt | KDbl | KStr

fun value_kind :: "prop_value \<Rightarrow> prop_kind" where
  "value_kind (VBool _) = KBool"
| "value_kind (VInt _) = KInt"
| "value_kind (VDouble _) = KDbl"
| "value_kind (VString _) = KStr"

fun req_kind :: "prop_req \<Rightarrow> prop_kind" where
  "req_kind (BoolReq _ _) = KBool"
| "req_kind (IntReq _ _) = KInt"
| "req_kind (DblReq _ _) = KDbl"
| "req_kind (StrReq _ _ _) = KStr"

section \<open>One property\<close>

definition Property_new :: "property" where
  "Property_new = \<lparr>p_key = None, p_readonly = False, p_value = VString None\<rparr>"

definition BoolProperty :: "string \<Rightarrow> bool \<Rightarrow> bool \<Rightarrow> property" where
  "BoolProperty newKey newValue readOnly = \<lparr>p_key = Some newKey, p_readonly = readOnly, p_value = VBool newValue\<rparr>"

definition IntProperty :: "string \<Rightarrow> int \<Rightarrow> bool \<Rightarrow> property" where
  "IntProperty newKey newValue readOnly = \<lparr>p_key = Some newKey, p_readonly = readOnly, p_value = VInt newValue\<rparr>"

definition DoubleProperty :: "string \<Rightarrow> real \<Rightarrow> bool \<Rightarrow> property" where
  "DoubleProperty newKey newValue readOnly = \<lparr>p_key = Some newKey, p_readonly = readOnly, p_value = VDouble newValue\<rparr>"

definition StringProperty :: "string \<Rightarrow> string option \<Rightarrow> bool \<Rightarrow> property" where
  "StringProperty newKey newValue readOnly = \<lparr>p_key = Some newKey, p_readonly = readOnly, p_value = VString newValue\<rparr>"

definition SetKey :: "string \<Rightarrow> property \<Rightarrow> property" where
  "SetKey newKey p = p\<lparr>p_key := Some newKey\<rparr>"

definition KeyIsEqual :: "string \<Rightarrow> property \<Rightarrow> bool outcome" where
  "KeyIsEqual rhs p = (case p_key p of None \<Rightarrow> Inl NullDeref | Some k \<Rightarrow> Inr (k = rhs))"

text \<open>The methods that set a value and the assignments from a value; only the one of strings heeds \<open>readonly\<close>.\<close>

definition BoolProperty_SetValue :: "bool \<Rightarrow> property \<Rightarrow> property" where
  "BoolProperty_SetValue v p = p\<lparr>p_value := VBool v\<rparr>"

definition IntProperty_SetValue :: "int \<Rightarrow> property \<Rightarrow> property" where
  "IntProperty_SetValue v p = p\<lparr>p_value := VInt v\<rparr>"

definition DoubleProperty_SetValue :: "real \<Rightarrow> property \<Rightarrow> property" where
  "DoubleProperty_SetValue v p = p\<lparr>p_value := VDouble v\<rparr>"

definition StringProperty_SetValue :: "string option \<Rightarrow> property \<Rightarrow> property" where
  "StringProperty_SetValue v p = p\<lparr>p_value := VString v\<rparr>"

definition BoolProperty_assign :: "bool \<Rightarrow> property \<Rightarrow> property" where
  "BoolProperty_assign rhs p = p\<lparr>p_value := VBool rhs\<rparr>"

definition IntProperty_assign :: "int \<Rightarrow> property \<Rightarrow> property" where
  "IntProperty_assign rhs p = p\<lparr>p_value := VInt rhs\<rparr>"

definition DoubleProperty_assign :: "real \<Rightarrow> property \<Rightarrow> property" where
  "DoubleProperty_assign rhs p = p\<lparr>p_value := VDouble rhs\<rparr>"

definition StringProperty_assign :: "string option \<Rightarrow> property \<Rightarrow> property" where
  "StringProperty_assign rhs p = (if p_readonly p then p else p\<lparr>p_value := VString rhs\<rparr>)"

text \<open>\<open>reinterpret_cast\<close> does not check: the wrong structure is read or written as the one the property expects.\<close>

definition BoolProperty_GetValueToMessage :: "bool \<Rightarrow> prop_req \<Rightarrow> prop_req outcome" where
  "BoolProperty_GetValueToMessage v data =
     (case data of BoolReq k _ \<Rightarrow> Inr (BoolReq k (if v then 1 else 0)) | _ \<Rightarrow> Inl TypeConfusion)"

definition IntProperty_GetValueToMessage :: "int \<Rightarrow> prop_req \<Rightarrow> prop_req outcome" where
  "IntProperty_GetValueToMessage v data = (case data of IntReq k _ \<Rightarrow> Inr (IntReq k v) | _ \<Rightarrow> Inl TypeConfusion)"

definition DoubleProperty_GetValueToMessage :: "real \<Rightarrow> prop_req \<Rightarrow> prop_req outcome" where
  "DoubleProperty_GetValueToMessage v data = (case data of DblReq k _ \<Rightarrow> Inr (DblReq k v) | _ \<Rightarrow> Inl TypeConfusion)"

definition StringProperty_GetValueToMessage :: "string option \<Rightarrow> prop_req \<Rightarrow> prop_req outcome" where
  "StringProperty_GetValueToMessage v data =
     (case data of
        StrReq k _ _ \<Rightarrow>
          (case v of None \<Rightarrow> Inl NullDeref | Some s \<Rightarrow> Inr (StrReq k (of_nat (length s) + 1) (Some s)))
      | _ \<Rightarrow> Inl TypeConfusion)"

definition GetValueToMessage :: "property \<Rightarrow> prop_req \<Rightarrow> prop_req outcome" where
  \<comment> \<open>the virtual call\<close>
  "GetValueToMessage p data =
     (case p_value p of
        VBool v \<Rightarrow> BoolProperty_GetValueToMessage v data
      | VInt v \<Rightarrow> IntProperty_GetValueToMessage v data
      | VDouble v \<Rightarrow> DoubleProperty_GetValueToMessage v data
      | VString v \<Rightarrow> StringProperty_GetValueToMessage v data)"

definition BoolProperty_SetValueFromMessage :: "prop_req \<Rightarrow> property \<Rightarrow> property outcome" where
  "BoolProperty_SetValueFromMessage data p =
     (case data of
        BoolReq _ w \<Rightarrow> Inr (if p_readonly p then p else p\<lparr>p_value := VBool (w \<noteq> 0)\<rparr>) | _ \<Rightarrow> Inl TypeConfusion)"

definition IntProperty_SetValueFromMessage :: "prop_req \<Rightarrow> property \<Rightarrow> property outcome" where
  "IntProperty_SetValueFromMessage data p =
     (case data of IntReq _ i \<Rightarrow> Inr (if p_readonly p then p else p\<lparr>p_value := VInt i\<rparr>) | _ \<Rightarrow> Inl TypeConfusion)"

definition DoubleProperty_SetValueFromMessage :: "prop_req \<Rightarrow> property \<Rightarrow> property outcome" where
  "DoubleProperty_SetValueFromMessage data p =
     (case data of DblReq _ x \<Rightarrow> Inr (if p_readonly p then p else p\<lparr>p_value := VDouble x\<rparr>) | _ \<Rightarrow> Inl TypeConfusion)"

definition StringProperty_SetValueFromMessage :: "prop_req \<Rightarrow> property \<Rightarrow> property outcome" where
  "StringProperty_SetValueFromMessage data p =
     (case data of
        StrReq _ _ v \<Rightarrow>
          if p_readonly p then Inr p
          else (case v of None \<Rightarrow> Inl NullDeref | Some s \<Rightarrow> Inr (p\<lparr>p_value := VString (Some s)\<rparr>))
      | _ \<Rightarrow> Inl TypeConfusion)"

definition SetValueFromMessage :: "prop_req \<Rightarrow> property \<Rightarrow> property outcome" where
  \<comment> \<open>the virtual call\<close>
  "SetValueFromMessage data p =
     (case p_value p of
        VBool _ \<Rightarrow> BoolProperty_SetValueFromMessage data p
      | VInt _ \<Rightarrow> IntProperty_SetValueFromMessage data p
      | VDouble _ \<Rightarrow> DoubleProperty_SetValueFromMessage data p
      | VString _ \<Rightarrow> StringProperty_SetValueFromMessage data p)"

text \<open>A value from the configuration file, with the current one as the default.\<close>

definition BoolProperty_ReadConfig :: "int \<Rightarrow> string \<Rightarrow> bool \<Rightarrow> property \<Rightarrow> cfg \<Rightarrow> (property \<times> cfg) outcome" where
  "BoolProperty_ReadConfig sec key v p c = bindo (ReadBool sec key v c) (\<lambda>(v', c'). Inr (p\<lparr>p_value := VBool v'\<rparr>, c'))"

definition IntProperty_ReadConfig :: "int \<Rightarrow> string \<Rightarrow> int \<Rightarrow> property \<Rightarrow> cfg \<Rightarrow> (property \<times> cfg) outcome" where
  "IntProperty_ReadConfig sec key v p c = bindo (ReadInt sec key v c) (\<lambda>(v', c'). Inr (p\<lparr>p_value := VInt v'\<rparr>, c'))"

definition DoubleProperty_ReadConfig :: "int \<Rightarrow> string \<Rightarrow> real \<Rightarrow> property \<Rightarrow> cfg \<Rightarrow> (property \<times> cfg) outcome" where
  "DoubleProperty_ReadConfig sec key v p c = bindo (ReadFloat sec key v c) (\<lambda>(v', c'). Inr (p\<lparr>p_value := VDouble v'\<rparr>, c'))"

definition StringProperty_ReadConfig :: "int \<Rightarrow> string \<Rightarrow> property \<Rightarrow> cfg \<Rightarrow> (property \<times> cfg) outcome" where
  "StringProperty_ReadConfig sec key p c =
     bindo (ReadString sec key None c) (\<lambda>(t, c').
       Inr (case t of None \<Rightarrow> p | Some s \<Rightarrow> p\<lparr>p_value := VString (Some s)\<rparr>, c'))"

definition ReadConfig :: "int \<Rightarrow> property \<Rightarrow> cfg \<Rightarrow> (property \<times> cfg) outcome" where
  \<comment> \<open>the virtual call\<close>
  "ReadConfig sec p c =
     (case p_key p of
        None \<Rightarrow> Inl NullDeref
      | Some key \<Rightarrow>
          (case p_value p of
             VBool v \<Rightarrow> BoolProperty_ReadConfig sec key v p c
           | VInt v \<Rightarrow> IntProperty_ReadConfig sec key v p c
           | VDouble v \<Rightarrow> DoubleProperty_ReadConfig sec key v p c
           | VString v \<Rightarrow> StringProperty_ReadConfig sec key p c))"

lemmas prop_message_defs =
  GetValueToMessage_def BoolProperty_GetValueToMessage_def IntProperty_GetValueToMessage_def
  DoubleProperty_GetValueToMessage_def StringProperty_GetValueToMessage_def
  SetValueFromMessage_def BoolProperty_SetValueFromMessage_def IntProperty_SetValueFromMessage_def
  DoubleProperty_SetValueFromMessage_def StringProperty_SetValueFromMessage_def

declare prop_message_defs [simp]

section \<open>The bag\<close>

type_synonym pid = nat

record props =
  objs :: "pid \<Rightarrow> property option"
  bag :: "(string \<times> pid) list"

definition PropertyBag_new :: "(string \<times> pid) list" where
  "PropertyBag_new = []"

text \<open>The walk to the end of the list; \<open>None\<close> when the key is met on the way.\<close>

fun add_node :: "string \<Rightarrow> pid \<Rightarrow> (string \<times> pid) list \<Rightarrow> (string \<times> pid) list option" where
  "add_node key p [] = Some [(key, p)]"
| "add_node key p (n # ns) = (if fst n = key then None else map_option (Cons n) (add_node key p ns))"

definition AddProperty :: "string option \<Rightarrow> pid \<Rightarrow> props \<Rightarrow> (bool \<times> props) outcome" where
  "AddProperty key p s =
     (case key of
        None \<Rightarrow> Inl NullDeref
      | Some k \<Rightarrow> (case add_node k p (bag s) of None \<Rightarrow> Inr (False, s) | Some b \<Rightarrow> Inr (True, s\<lparr>bag := b\<rparr>)))"

fun GetProperty :: "string option \<Rightarrow> (string \<times> pid) list \<Rightarrow> pid option outcome" where
  "GetProperty key [] = Inr None"
| "GetProperty key (n # ns) =
     (case key of None \<Rightarrow> Inl NullDeref | Some k \<Rightarrow> if fst n = k then Inr (Some (snd n)) else GetProperty key ns)"

text \<open>Assignment between two string properties frees the old value before it copies the new one.\<close>

definition StringProperty_copy :: "pid \<Rightarrow> pid \<Rightarrow> props \<Rightarrow> props outcome" where
  "StringProperty_copy this rhs s =
     (case (objs s this, objs s rhs) of
        (Some p, Some q) \<Rightarrow>
          (case (p_value p, p_value q) of
             (VString v, VString w) \<Rightarrow>
               if v \<noteq> None \<and> this = rhs then Inl UseAfterFree
               else Inr (s\<lparr>objs := (objs s)(this \<mapsto> p\<lparr>p_value := VString w\<rparr>)\<rparr>)
           | _ \<Rightarrow> Inl TypeConfusion)
      | _ \<Rightarrow> Inl UseAfterFree)"

definition RegisterProperty ::
    "string option \<Rightarrow> pid \<Rightarrow> (int \<times> cfg) option \<Rightarrow> props \<Rightarrow> (bool \<times> props \<times> cfg option) outcome" where
  "RegisterProperty key i cf s =
     bindo (AddProperty key i s) (\<lambda>(ok, s1).
       if \<not> ok then Inr (False, s1, map_option snd cf)
       else
         (case cf of
            None \<Rightarrow> Inr (True, s1, None)
          | Some (sec, c) \<Rightarrow>
              (case objs s1 i of
                 None \<Rightarrow> Inl UseAfterFree
               | Some p \<Rightarrow> bindo (ReadConfig sec p c) (\<lambda>(p', c').
                   Inr (True, s1\<lparr>objs := (objs s1)(i \<mapsto> p')\<rparr>, Some c')))))"

definition RegisterProperty_self ::
    "pid \<Rightarrow> (int \<times> cfg) option \<Rightarrow> props \<Rightarrow> (bool \<times> props \<times> cfg option) outcome" where
  "RegisterProperty_self i cf s =
     (case objs s i of None \<Rightarrow> Inl UseAfterFree | Some p \<Rightarrow> RegisterProperty (p_key p) i cf s)"

section \<open>Requests\<close>

abbreviation GET_INTPROP_REQ :: c_int where "GET_INTPROP_REQ \<equiv> 254"
abbreviation SET_INTPROP_REQ :: c_int where "SET_INTPROP_REQ \<equiv> 253"
abbreviation GET_DBLPROP_REQ :: c_int where "GET_DBLPROP_REQ \<equiv> 252"
abbreviation SET_DBLPROP_REQ :: c_int where "SET_DBLPROP_REQ \<equiv> 251"
abbreviation GET_STRPROP_REQ :: c_int where "GET_STRPROP_REQ \<equiv> 250"
abbreviation SET_STRPROP_REQ :: c_int where "SET_STRPROP_REQ \<equiv> 249"
abbreviation GET_BOOLPROP_REQ :: c_int where "GET_BOOLPROP_REQ \<equiv> 248"
abbreviation SET_BOOLPROP_REQ :: c_int where "SET_BOOLPROP_REQ \<equiv> 247"

text \<open>A payload is a property request or the structure of another interface.\<close>

datatype 'e payload = PropData prop_req | OtherData 'e

text \<open>\<open>*reinterpret_cast<player_..prop_req_t*>(data)\<close>.\<close>

definition read_req :: "prop_kind \<Rightarrow> 'e payload option \<Rightarrow> prop_req outcome" where
  "read_req k data =
     (case data of
        None \<Rightarrow> Inl NullDeref
      | Some (PropData r) \<Rightarrow> if req_kind r = k then Inr r else Inl TypeConfusion
      | Some (OtherData _) \<Rightarrow> Inl TypeConfusion)"

text \<open>The result is the return value, the reply to publish (subtype and payload), and the new state.\<close>

type_synonym reply = "(u8 \<times> prop_req option) option"

definition get_request :: "prop_kind \<Rightarrow> c_int \<Rightarrow> 'e payload option \<Rightarrow> props \<Rightarrow> (int \<times> reply \<times> props) outcome" where
  "get_request k sub data s =
     bindo (read_req k data) (\<lambda>req.
     bindo (GetProperty (req_key req) (bag s)) (\<lambda>property.
       case property of
         None \<Rightarrow> Inr (- 1, None, s)
       | Some i \<Rightarrow>
           (case objs s i of
              None \<Rightarrow> Inl UseAfterFree
            | Some p \<Rightarrow> bindo (GetValueToMessage p req) (\<lambda>req'. Inr (0, Some (ucast sub, Some req'), s)))))"

definition set_request :: "prop_kind \<Rightarrow> c_int \<Rightarrow> 'e payload option \<Rightarrow> props \<Rightarrow> (int \<times> reply \<times> props) outcome" where
  "set_request k sub data s =
     bindo (read_req k data) (\<lambda>req.
     bindo (GetProperty (req_key req) (bag s)) (\<lambda>property.
       case property of
         None \<Rightarrow> Inr (- 1, None, s)
       | Some i \<Rightarrow>
           (case objs s i of
              None \<Rightarrow> Inl UseAfterFree
            | Some p \<Rightarrow> bindo (SetValueFromMessage req p) (\<lambda>p'.
                Inr (0, Some (ucast sub, None), s\<lparr>objs := (objs s)(i \<mapsto> p')\<rparr>)))))"

definition ProcessInternalMessages :: "msghdr \<Rightarrow> 'e payload option \<Rightarrow> props \<Rightarrow> (int \<times> reply \<times> props) outcome" where
  "ProcessInternalMessages hdr data s =
     (let req = ucast MSGTYPE_REQ in
      if MatchMessage_any hdr req GET_BOOLPROP_REQ then get_request KBool GET_BOOLPROP_REQ data s
      else if MatchMessage_any hdr req SET_BOOLPROP_REQ then set_request KBool SET_BOOLPROP_REQ data s
      else if MatchMessage_any hdr req GET_INTPROP_REQ then get_request KInt GET_INTPROP_REQ data s
      else if MatchMessage_any hdr req SET_INTPROP_REQ then set_request KInt SET_INTPROP_REQ data s
      else if MatchMessage_any hdr req GET_DBLPROP_REQ then get_request KDbl GET_DBLPROP_REQ data s
      else if MatchMessage_any hdr req SET_DBLPROP_REQ then set_request KDbl SET_DBLPROP_REQ data s
      else if MatchMessage_any hdr req GET_STRPROP_REQ then get_request KStr GET_STRPROP_REQ data s
      else if MatchMessage_any hdr req SET_STRPROP_REQ then set_request KStr SET_STRPROP_REQ data s
      else Inr (- 1, None, s))"

section \<open>Lookups\<close>

lemma GetProperty_map_of: "GetProperty (Some k) b = Inr (map_of b k)"
  by (induction b) auto

lemma add_node_None: "add_node k p b = None \<longleftrightarrow> k \<in> fst ` set b"
  by (induction b) auto

lemma add_node_Some: "add_node k p b = Some b' \<Longrightarrow> b' = b @ [(k, p)] \<and> k \<notin> fst ` set b"
  by (induction b arbitrary: b') (auto split: if_splits)

text \<open>Registrations: the key leads to the property it was first registered for.\<close>

definition add_property :: "string \<Rightarrow> pid \<Rightarrow> props \<Rightarrow> props" where
  "add_property k p s = (case AddProperty (Some k) p s of Inr (_, s') \<Rightarrow> s' | Inl _ \<Rightarrow> s)"

interpretation registrations: registering_store "\<lambda>_ :: props. True" "\<lambda>_ _. True" "(=)" "\<lambda>s :: props. map_of (bag s)" add_property
proof
  fix s :: props and k v k'
  show "map_of (bag (add_property k v s)) k' =
      (if map_of (bag s) k = None \<and> k = k' then Some v else map_of (bag s) k')"
  proof (cases "add_node k v (bag s)")
    case None
    then have "map_of (bag s) k \<noteq> None" by (simp add: add_node_None map_of_eq_None_iff)
    then have "\<not> (map_of (bag s) k = None \<and> k = k')" by simp
    with None show ?thesis by (simp only: if_False) (simp add: add_property_def AddProperty_def)
  next
    case (Some b)
    then have n: "map_of (bag s) k = None" by (auto simp: map_of_eq_None_iff dest: add_node_Some)
    from add_node_Some [OF Some] have "bag (add_property k v s) = bag s @ [(k, v)]"
      by (simp add: add_property_def AddProperty_def Some)
    with n show ?thesis by (cases "k = k'") (auto simp: map_add_def split: option.split)
  qed
qed simp_all

lemma registrations_lookup:
  "GetProperty (Some k) (bag (fold (\<lambda>r. add_property (fst r) (snd r)) rs s)) =
     Inr (case map_of (bag s) k of Some i \<Rightarrow> Some i | None \<Rightarrow> map_option snd (find (\<lambda>r. fst r = k) rs))"
  using registrations.adds_get [where s = s and kvs = rs and k = k] by (simp add: GetProperty_map_of list_all_iff)

section \<open>The properties as a store\<close>

definition prop_at :: "props \<Rightarrow> string \<Rightarrow> property option" where
  "prop_at s k = (case map_of (bag s) k of None \<Rightarrow> None | Some i \<Rightarrow> objs s i)"

definition prop_value_of :: "props \<Rightarrow> string \<Rightarrow> prop_value option" where
  "prop_value_of s k = map_option p_value (prop_at s k)"

definition prop_writable :: "props \<Rightarrow> string \<Rightarrow> bool" where
  "prop_writable s k \<longleftrightarrow> (case prop_at s k of None \<Rightarrow> False | Some p \<Rightarrow> \<not> p_readonly p)"

text \<open>Keys and objects are registered once, the objects exist, and no string is null.\<close>

definition props_ok :: "props \<Rightarrow> bool" where
  "props_ok s \<longleftrightarrow> distinct (map fst (bag s)) \<and> distinct (map snd (bag s)) \<and>
     (\<forall>n \<in> set (bag s). \<exists>p. objs s (snd n) = Some p \<and> p_value p \<noteq> VString None)"

text \<open>The types of the registered properties.\<close>

definition prop_types :: "props \<Rightarrow> string \<Rightarrow> prop_kind option" where
  "prop_types s k = map_option value_kind (prop_value_of s k)"

text \<open>The request that carries a value, and the subtypes of the requests for its kind.\<close>

fun req_of :: "string \<Rightarrow> prop_value \<Rightarrow> prop_req" where
  "req_of k (VBool b) = BoolReq (Some k) (if b then 1 else 0)"
| "req_of k (VInt i) = IntReq (Some k) i"
| "req_of k (VDouble x) = DblReq (Some k) x"
| "req_of k (VString v) = StrReq (Some k) (case v of None \<Rightarrow> 0 | Some s \<Rightarrow> of_nat (length s) + 1) v"

fun get_sub :: "prop_kind \<Rightarrow> u8" where
  "get_sub KBool = 248" | "get_sub KInt = 254" | "get_sub KDbl = 252" | "get_sub KStr = 250"

fun set_sub :: "prop_kind \<Rightarrow> u8" where
  "set_sub KBool = 247" | "set_sub KInt = 253" | "set_sub KDbl = 251" | "set_sub KStr = 249"

lemma internal_get:
  "mtype h = MSGTYPE_REQ \<Longrightarrow> subtype h = get_sub k \<Longrightarrow>
   ProcessInternalMessages h data s = get_request k (ucast (get_sub k)) data s"
  by (cases k) (simp_all add: ProcessInternalMessages_def MatchMessage_any_def neg_code)

lemma internal_set:
  "mtype h = MSGTYPE_REQ \<Longrightarrow> subtype h = set_sub k \<Longrightarrow>
   ProcessInternalMessages h data s = set_request k (ucast (set_sub k)) data s"
  by (cases k) (simp_all add: ProcessInternalMessages_def MatchMessage_any_def neg_code)

lemmas internal_simps =
  internal_get [of _ KBool, unfolded get_sub.simps] internal_get [of _ KInt, unfolded get_sub.simps]
  internal_get [of _ KDbl, unfolded get_sub.simps] internal_get [of _ KStr, unfolded get_sub.simps]
  internal_set [of _ KBool, unfolded set_sub.simps] internal_set [of _ KInt, unfolded set_sub.simps]
  internal_set [of _ KDbl, unfolded set_sub.simps] internal_set [of _ KStr, unfolded set_sub.simps]

lemma internal_other:
  "mtype h \<noteq> MSGTYPE_REQ \<or> subtype h \<notin> range get_sub \<union> range set_sub \<Longrightarrow>
   ProcessInternalMessages h data s = Inr (- 1, None, s)"
proof -
  have "get_sub KBool \<in> range get_sub" "get_sub KInt \<in> range get_sub" "get_sub KDbl \<in> range get_sub" "get_sub KStr \<in> range get_sub"
    "set_sub KBool \<in> range set_sub" "set_sub KInt \<in> range set_sub" "set_sub KDbl \<in> range set_sub" "set_sub KStr \<in> range set_sub"
    by blast+
  moreover assume "mtype h \<noteq> MSGTYPE_REQ \<or> subtype h \<notin> range get_sub \<union> range set_sub"
  ultimately show ?thesis
    by (simp add: ProcessInternalMessages_def MatchMessage_any_def neg_code) metis
qed

section \<open>Effect of the requests\<close>

lemma GetValueToMessage_kind:
  "p_value p \<noteq> VString None \<Longrightarrow> req_kind r = value_kind (p_value p) \<Longrightarrow> req_key r = Some k \<Longrightarrow>
   GetValueToMessage p r = Inr (req_of k (p_value p))"
  by (cases "p_value p"; cases r) auto

lemma GetValueToMessage_confused: "req_kind r \<noteq> value_kind (p_value p) \<Longrightarrow> GetValueToMessage p r = Inl TypeConfusion"
  by (cases "p_value p"; cases r) auto

lemma SetValueFromMessage_confused: "req_kind r \<noteq> value_kind (p_value p) \<Longrightarrow> SetValueFromMessage r p = Inl TypeConfusion"
  by (cases "p_value p"; cases r) auto

lemma SetValueFromMessage_Inr:
  assumes "SetValueFromMessage r p = Inr p'"
  shows "p_key p' = p_key p \<and> p_readonly p' = p_readonly p \<and> value_kind (p_value p') = value_kind (p_value p) \<and>
    req_kind r = value_kind (p_value p) \<and> (p_value p \<noteq> VString None \<longrightarrow> p_value p' \<noteq> VString None) \<and>
    (p_readonly p \<longrightarrow> p' = p)"
  using assms by (cases r; cases "p_value p") (auto split: if_splits option.splits)

lemma SetValueFromMessage_req_of:
  "SetValueFromMessage (req_of k v) p = Inr p' \<Longrightarrow> p_value p' = (if p_readonly p then p_value p else v)"
  by (cases v; cases "p_value p") (auto split: if_splits option.splits)

lemma SetValueFromMessage_ok:
  "req_kind r = value_kind (p_value p) \<Longrightarrow> (\<And>k n. r \<noteq> StrReq k n None) \<Longrightarrow> \<exists>p'. SetValueFromMessage r p = Inr p'"
  by (cases r; cases "p_value p") (auto split: option.split)

declare prop_message_defs [simp del]

lemma prop_at_ok:
  assumes "props_ok s" "map_of (bag s) k = Some i"
  obtains p where "objs s i = Some p" "prop_at s k = Some p" "p_value p \<noteq> VString None"
  using assms map_of_SomeD [OF assms(2)] that by (fastforce simp: props_ok_def prop_at_def)

lemma get_request_prop_at:
  "props_ok s \<Longrightarrow> prop_at s k = Some p \<Longrightarrow> req_key r = Some k \<Longrightarrow> req_kind r = value_kind (p_value p) \<Longrightarrow>
   get_request (req_kind r) sub (Some (PropData r)) s = Inr (0, Some (ucast sub, Some (req_of k (p_value p))), s)"
  by (auto simp: get_request_def read_req_def GetProperty_map_of GetValueToMessage_kind prop_at_def split: option.splits
      elim!: prop_at_ok)

lemma set_request_Inr:
  assumes "set_request knd sub (Some (PropData r)) s = Inr (0, rep, s')" "req_key r = Some k"
  obtains i p p' where "map_of (bag s) k = Some i" "objs s i = Some p" "SetValueFromMessage r p = Inr p'"
    "s' = s\<lparr>objs := (objs s)(i \<mapsto> p')\<rparr>" "req_kind r = knd" "rep = Some (ucast sub, None)"
  using assms by (auto simp: set_request_def read_req_def GetProperty_map_of split: if_splits option.splits)

text \<open>Replacing the object of one key leaves the other keys alone.\<close>

lemma map_of_distinct_snd:
  assumes "distinct (map snd b)" "map_of b k = Some i" "map_of b k' = Some i"
  shows "k = k'"
proof -
  have "inj_on snd (set b)" using assms(1) by (simp add: distinct_map)
  from inj_onD [OF this _ map_of_SomeD [OF assms(2)] map_of_SomeD [OF assms(3)]] show ?thesis by simp
qed

lemma prop_at_update:
  assumes "props_ok s" "map_of (bag s) k = Some i"
  shows "prop_at (s\<lparr>objs := (objs s)(i \<mapsto> p')\<rparr>) k' = (if k' = k then Some p' else prop_at s k')"
proof (cases "map_of (bag s) k'")
  case None
  with assms(2) show ?thesis by (auto simp: prop_at_def)
next
  case (Some j)
  with map_of_distinct_snd [of "bag s" k i k'] assms Some have "j = i \<longleftrightarrow> k' = k"
    by (cases "k' = k") (auto simp: props_ok_def)
  with Some show ?thesis by (simp add: prop_at_def)
qed

lemma props_ok_update:
  "props_ok s \<Longrightarrow> p_value p' \<noteq> VString None \<Longrightarrow> props_ok (s\<lparr>objs := (objs s)(i \<mapsto> p')\<rparr>)"
  by (auto simp: props_ok_def)

lemma set_request_effect:
  assumes "props_ok s" "set_request knd sub (Some (PropData r)) s = Inr (0, rep, s')" "req_key r = Some k"
  shows "props_ok s' \<and> prop_types s' k' = prop_types s k' \<and> prop_writable s' k' = prop_writable s k' \<and>
    bag s' = bag s \<and> (k' \<noteq> k \<longrightarrow> prop_value_of s' k' = prop_value_of s k')"
proof -
  obtain i p p' where i: "map_of (bag s) k = Some i" and p: "objs s i = Some p" and p': "SetValueFromMessage r p = Inr p'"
    and s': "s' = s\<lparr>objs := (objs s)(i \<mapsto> p')\<rparr>"
    by (rule set_request_Inr [OF assms(2,3)]) blast
  have at: "prop_at s k = Some p" "p_value p \<noteq> VString None"
    using prop_at_ok [OF assms(1) i] p by force+
  note p'' = SetValueFromMessage_Inr [OF p']
  with at props_ok_update [OF assms(1)] have "props_ok s'" by (simp add: s')
  with p'' at prop_at_update [OF assms(1) i, of p' k'] show ?thesis
    by (simp add: s' prop_types_def prop_value_of_def prop_writable_def)
qed

text \<open>A \<open>SET\<close> request made from a value; \<open>None\<close> when the driver does not answer it.\<close>

definition put_prop :: "msghdr \<Rightarrow> string \<Rightarrow> prop_value \<Rightarrow> props \<Rightarrow> props option" where
  "put_prop h k v s =
     (case ProcessInternalMessages (h\<lparr>mtype := MSGTYPE_REQ, subtype := set_sub (value_kind v)\<rparr>)
             (Some (PropData (req_of k v) :: unit payload)) s of
        Inr (r, _, s') \<Rightarrow> if r = 0 then Some s' else None
      | Inl _ \<Rightarrow> None)"

lemma req_of_simps [simp]: "req_key (req_of k v) = Some k" "req_kind (req_of k v) = value_kind v"
  by (cases v; simp)+

lemma put_prop_set:
  assumes "put_prop h k v s = Some s'"
  obtains rep where "set_request (value_kind v) (ucast (set_sub (value_kind v))) (Some (PropData (req_of k v) :: unit payload)) s = Inr (0, rep, s')"
  using assms by (auto simp: put_prop_def internal_set split: sum.splits if_splits)

lemma put_prop_value:
  assumes "props_ok s" "put_prop h k v s = Some s'"
  shows "prop_value_of s' k' =
    (if k' = k \<and> prop_writable s k \<and> prop_value_of s k \<noteq> None then Some v else prop_value_of s k')"
proof -
  obtain rep where st: "set_request (value_kind v) (ucast (set_sub (value_kind v))) (Some (PropData (req_of k v) :: unit payload)) s = Inr (0, rep, s')"
    by (rule put_prop_set [OF assms(2)])
  obtain i p p' where i: "map_of (bag s) k = Some i" "objs s i = Some p" and p': "SetValueFromMessage (req_of k v) p = Inr p'"
    and s': "s' = s\<lparr>objs := (objs s)(i \<mapsto> p')\<rparr>"
    by (rule set_request_Inr [OF st req_of_simps(1)]) blast
  then have "prop_at s k = Some p" by (simp add: prop_at_def)
  with SetValueFromMessage_req_of [OF p'] prop_at_update [OF assms(1) i(1), of p' k'] show ?thesis
    by (simp add: s' prop_value_of_def prop_writable_def)
qed

interpretation properties: guarded_store props_ok prop_writable prop_value_of "put_prop h" for h
proof
  fix s k v s' k'
  assume s: "props_ok s" and put: "put_prop h k v s = Some s'"
  obtain rep where "set_request (value_kind v) (ucast (set_sub (value_kind v))) (Some (PropData (req_of k v) :: unit payload)) s = Inr (0, rep, s')"
    by (rule put_prop_set [OF put])
  from set_request_effect [OF s this] show "props_ok s'" "prop_writable s' k' = prop_writable s k'" by simp_all
  show "prop_value_of s' k' =
    (if k' = k \<and> prop_writable s k \<and> prop_value_of s k \<noteq> None then Some v else prop_value_of s k')"
    by (rule put_prop_value [OF s put])
qed

section \<open>Sequences of requests\<close>

text \<open>
  A request that the types allow: a property request carries the structure of its subtype with a key, a registered
  key has that type, and a string to store is not null.
\<close>

definition typed_request :: "(string \<Rightarrow> prop_kind option) \<Rightarrow> msghdr \<times> 'e payload option \<Rightarrow> bool" where
  "typed_request types m \<longleftrightarrow>
     mtype (fst m) = MSGTYPE_REQ \<longrightarrow>
     (\<forall>knd \<in> {KBool, KInt, KDbl, KStr}. subtype (fst m) = get_sub knd \<or> subtype (fst m) = set_sub knd \<longrightarrow>
        (\<exists>r k. snd m = Some (PropData r) \<and> req_kind r = knd \<and> req_key r = Some k \<and>
           (types k = None \<or> types k = Some knd) \<and>
           (subtype (fst m) = set_sub knd \<longrightarrow> (\<forall>n. r \<noteq> StrReq (Some k) n None))))"

fun run_requests :: "(msghdr \<times> 'e payload option) list \<Rightarrow> props \<Rightarrow> ((int \<times> reply) list \<times> props) outcome" where
  "run_requests [] s = Inr ([], s)"
| "run_requests (m # ms) s =
     bindo (ProcessInternalMessages (fst m) (snd m) s) (\<lambda>(r, rep, s1).
     bindo (run_requests ms s1) (\<lambda>(reps, s2). Inr ((r, rep) # reps, s2)))"

text \<open>The specification: a store of a value and a read-only flag for each key.  A request names a kind of value by its subtype.  A
  \<open>GET\<close> for a key of the store is answered with its value; a \<open>SET\<close> is acknowledged, and changes the value unless the key is
  read-only; everything else is not answered, which is the return value -1.\<close>

type_synonym pstore = "string \<Rightarrow> (prop_value \<times> bool) option"

definition prop_store :: "props \<Rightarrow> pstore" where
  "prop_store s k = map_option (\<lambda>p. (p_value p, p_readonly p)) (prop_at s k)"

fun value_sent :: "prop_req \<Rightarrow> prop_value" where
  "value_sent (BoolReq k w) = VBool (w \<noteq> 0)"
| "value_sent (IntReq k i) = VInt i"
| "value_sent (DblReq k x) = VDouble x"
| "value_sent (StrReq k n v) = VString v"

definition spec_request :: "msghdr \<times> 'e payload option \<Rightarrow> pstore \<Rightarrow> (int \<times> reply) \<times> pstore" where
  "spec_request m st =
     (case snd m of
        Some (PropData r) \<Rightarrow>
          (case req_key r of
             None \<Rightarrow> ((- 1, None), st)
           | Some k \<Rightarrow>
               (case st k of
                  None \<Rightarrow> ((- 1, None), st)
                | Some (v, readonly) \<Rightarrow>
                    if mtype (fst m) = MSGTYPE_REQ \<and> subtype (fst m) = get_sub (req_kind r)
                    then ((0, Some (get_sub (req_kind r), Some (req_of k v))), st)
                    else if mtype (fst m) = MSGTYPE_REQ \<and> subtype (fst m) = set_sub (req_kind r)
                    then ((0, Some (set_sub (req_kind r), None)), if readonly then st else st(k \<mapsto> (value_sent r, readonly)))
                    else ((- 1, None), st)))
      | _ \<Rightarrow> ((- 1, None), st))"

fun spec_requests :: "(msghdr \<times> 'e payload option) list \<Rightarrow> pstore \<Rightarrow> (int \<times> reply) list \<times> pstore" where
  "spec_requests [] st = ([], st)"
| "spec_requests (m # ms) st =
     (let (a, st1) = spec_request m st; (as, st2) = spec_requests ms st1 in (a # as, st2))"

lemma get_sub_inj: "get_sub k = get_sub k' \<longleftrightarrow> k = k'" "set_sub k = set_sub k' \<longleftrightarrow> k = k'" "get_sub k \<noteq> set_sub k'" "set_sub k' \<noteq> get_sub k"
  by (cases k; cases k'; simp)+

lemma SetValueFromMessage_sent:
  assumes "SetValueFromMessage r p = Inr p'"
  shows "p_value p' = (if p_readonly p then p_value p else value_sent r)"
  using assms by (cases r; cases "p_value p") (auto simp: prop_message_defs split: if_splits option.splits)

lemma prop_store_update:
  assumes "props_ok s" "map_of (bag s) k = Some i" "objs s i = Some p" "SetValueFromMessage r p = Inr p'"
  shows "prop_store (s\<lparr>objs := (objs s)(i \<mapsto> p')\<rparr>) = (if p_readonly p then prop_store s else (prop_store s)(k \<mapsto> (value_sent r, p_readonly p)))"
proof
  fix k'
  have "prop_at s k = Some p" using assms(2,3) by (simp add: prop_at_def)
  with prop_at_update [OF assms(1,2), of p' k'] SetValueFromMessage_sent [OF assms(4)] SetValueFromMessage_Inr [OF assms(4)]
  show "prop_store (s\<lparr>objs := (objs s)(i \<mapsto> p')\<rparr>) k' =
      (if p_readonly p then prop_store s else (prop_store s)(k \<mapsto> (value_sent r, p_readonly p))) k'"
    by (auto simp: prop_store_def)
qed

lemma request_typed:
  assumes "props_ok s" "typed_request (prop_types s) m"
  shows "\<exists>r rep s'. ProcessInternalMessages (fst m) (snd m) s = Inr (r, rep, s') \<and> props_ok s' \<and>
    prop_types s' = prop_types s \<and> ((r, rep), prop_store s') = spec_request m (prop_store s)"
proof (cases "mtype (fst m) = MSGTYPE_REQ \<and> (\<exists>knd. subtype (fst m) = get_sub knd \<or> subtype (fst m) = set_sub knd)")
  case False
  then have "ProcessInternalMessages (fst m) (snd m) s = Inr (- 1, None, s)" by (intro internal_other) blast
  moreover have "spec_request m (prop_store s) = ((- 1, None), prop_store s)"
    using False by (auto simp: spec_request_def split: option.split payload.split)
  ultimately show ?thesis using assms by simp
next
  case True
  then obtain knd where ty: "mtype (fst m) = MSGTYPE_REQ" and sub: "subtype (fst m) = get_sub knd \<or> subtype (fst m) = set_sub knd"
    by blast
  moreover have "knd \<in> {KBool, KInt, KDbl, KStr}" by (cases knd) simp_all
  ultimately obtain r k where r: "snd m = Some (PropData r)" "req_kind r = knd" "req_key r = Some k"
    "prop_types s k = None \<or> prop_types s k = Some knd" "subtype (fst m) = set_sub knd \<Longrightarrow> \<forall>n. r \<noteq> StrReq (Some k) n None"
    using assms(2) unfolding typed_request_def by blast
  show ?thesis
  proof (cases "map_of (bag s) k")
    case None
    then have "ProcessInternalMessages (fst m) (snd m) s = Inr (- 1, None, s)"
      using sub r by (auto simp: internal_get [OF ty] internal_set [OF ty] get_request_def set_request_def read_req_def GetProperty_map_of)
    moreover have "prop_store s k = None" using None by (simp add: prop_store_def prop_at_def)
    ultimately show ?thesis using assms r(1,3) by (simp add: spec_request_def)
  next
    case (Some i)
    then obtain p where p: "objs s i = Some p" "prop_at s k = Some p" "p_value p \<noteq> VString None"
      by (rule prop_at_ok [OF assms(1)])
    with r(4) have knd: "value_kind (p_value p) = knd" by (auto simp: prop_types_def prop_value_of_def)
    have st: "prop_store s k = Some (p_value p, p_readonly p)" using p(2) by (simp add: prop_store_def)
    from sub show ?thesis
    proof
      assume g: "subtype (fst m) = get_sub knd"
      have "ProcessInternalMessages (fst m) (snd m) s = Inr (0, Some (get_sub knd, Some (req_of k (p_value p))), s)"
        using get_request_prop_at [OF assms(1) p(2) r(3), of "ucast (get_sub knd)"] r(1,2) knd
        by (simp add: internal_get [OF ty g])
      moreover have "spec_request m (prop_store s) = ((0, Some (get_sub knd, Some (req_of k (p_value p)))), prop_store s)"
        using ty g r(1-3) st by (simp add: spec_request_def)
      ultimately show ?thesis using assms by simp
    next
      assume g: "subtype (fst m) = set_sub knd"
      have "r \<noteq> StrReq k' n None" for k' n using r(5) [OF g] r(3) by (cases r) auto
      with SetValueFromMessage_ok [of r p] knd r(2) obtain p' where p': "SetValueFromMessage r p = Inr p'" by auto
      with Some p(1) r(2,3) have set: "set_request knd (ucast (set_sub knd)) (Some (PropData r)) s =
          Inr (0, Some (ucast (ucast (set_sub knd) :: c_int), None), s\<lparr>objs := (objs s)(i \<mapsto> p')\<rparr>)"
        by (simp add: set_request_def read_req_def GetProperty_map_of)
      have "spec_request m (prop_store s) =
          ((0, Some (set_sub knd, None)), prop_store (s\<lparr>objs := (objs s)(i \<mapsto> p')\<rparr>))"
        using ty g r(1-3) st prop_store_update [OF assms(1) Some p(1) p'] by (simp add: spec_request_def get_sub_inj)
      with set set_request_effect [OF assms(1) set r(3)] show ?thesis
        unfolding internal_set [OF ty g] r(1) fun_eq_iff by auto
    qed
  qed
qed


text \<open>A driver's properties behave like a store behind requests.  After any sequence of \<open>SET\<close> requests that the driver
  answered, a \<open>GET\<close> request for a registered key returns the value of the last \<open>SET\<close> to that key (the initial value if there
  was none), and for a read-only property always the initial value, whatever was set elsewhere in between.\<close>

theorem GET_after_SETs:
  assumes "props_ok s" and "write_all (put_prop h) kvs s = Some s'" and "prop_value_of s k = Some v"
    and "mtype g = MSGTYPE_REQ" and "subtype g = get_sub (value_kind v)"
    and "req_key r = Some k" and "req_kind r = value_kind v"
  shows "ProcessInternalMessages g (Some (PropData r)) s' =
    Inr (0, Some (get_sub (value_kind v), Some (req_of k (if prop_writable s k then last_written kvs k v else v))), s')"
proof -
  have types: "prop_types s' k = prop_types s k"
    using assms(1,2)
  proof (induction kvs arbitrary: s)
    case (Cons kv kvs)
    then obtain s1 where s1: "put_prop h (fst kv) (snd kv) s = Some s1" and rest: "write_all (put_prop h) kvs s1 = Some s'"
      by (auto split: option.splits)
    obtain rep where "set_request (value_kind (snd kv)) (ucast (set_sub (value_kind (snd kv))))
        (Some (PropData (req_of (fst kv) (snd kv)) :: unit payload)) s = Inr (0, rep, s1)"
      by (rule put_prop_set [OF s1])
    from set_request_effect [OF Cons.prems(1) this] have "props_ok s1" "prop_types s1 k = prop_types s k" by simp_all
    with Cons.IH [OF _ rest] show ?case by simp
  qed simp
  let ?v = "if prop_writable s k then last_written kvs k v else v"
  have v: "prop_value_of s' k = Some ?v"
    using properties.write_all_get [OF assms(1,2), of k] assms(3) by simp
  then obtain p where p: "prop_at s' k = Some p" "p_value p = ?v" by (auto simp: prop_value_of_def)
  from types v assms(3) have "value_kind ?v = value_kind v" by (simp add: prop_types_def)
  with get_request_prop_at [OF properties.write_all_inv [OF assms(1,2)] p(1) assms(6), of "ucast (get_sub (value_kind v))"] p(2) assms(7)
  show ?thesis by (simp add: internal_get [OF assms(4,5)])
qed

definition props1 :: "props" where
  "props1 = \<lparr>objs = [0 \<mapsto> IntProperty ''gain'' 3 False, 1 \<mapsto> StringProperty ''port'' (Some ''a'') True],
     bag = [(''gain'', 0), (''port'', 1)]\<rparr>"

definition req_hdr :: msghdr where
  "req_hdr = \<lparr>addr = \<lparr>host = 0, robot = 0, interf = 0, idx = 0\<rparr>, mtype = MSGTYPE_REQ, subtype = 250, timestamp = 0, seq = 0, msize = 0\<rparr>"

lemma props1_ok: "props_ok props1"
  by (simp add: props_ok_def props1_def IntProperty_def StringProperty_def)

lemma props1_types: "prop_types props1 ''port'' = Some KStr" "prop_value_of props1 ''port'' = Some (VString (Some ''a''))"
  by (simp_all add: prop_types_def prop_value_of_def prop_at_def props1_def StringProperty_def)


theorem GET_after_SETs_witness:
  "\<exists>s'. write_all (put_prop req_hdr) [(''gain'', VInt 4), (''port'', VString (Some ''b'')), (''gain'', VInt 5)] props1 = Some s' \<and>
     ProcessInternalMessages req_hdr (Some (PropData (StrReq (Some ''port'') 0 None) :: unit payload)) s' =
       Inr (0, Some (250, Some (StrReq (Some ''port'') 2 (Some ''a''))), s')"
proof -
  let ?kvs = "[(''gain'', VInt 4), (''port'', VString (Some ''b'')), (''gain'', VInt 5)]"
  obtain s' where w: "write_all (put_prop req_hdr) ?kvs props1 = Some s'"
    by (simp add: prop_message_defs put_prop_def internal_simps set_request_def read_req_def props1_def req_hdr_def IntProperty_def StringProperty_def)
  have ro: "\<not> prop_writable props1 ''port''" by (simp add: prop_writable_def prop_at_def props1_def StringProperty_def)
  have "mtype req_hdr = MSGTYPE_REQ" "subtype req_hdr = get_sub (value_kind (VString (Some ''a'')))" by (simp_all add: req_hdr_def)
  from GET_after_SETs [OF props1_ok w props1_types(2) this, of "StrReq (Some ''port'') 0 None"] w ro show ?thesis by simp
qed

section \<open>Requests that fault\<close>

text \<open>A request whose structure is not the one of the property it names is not refused.\<close>

lemma mismatched_request_faults:
  assumes "prop_at s k = Some p" "req_key r = Some k" "req_kind r \<noteq> value_kind (p_value p)" "mtype h = MSGTYPE_REQ"
    "subtype h = get_sub (req_kind r) \<or> subtype h = set_sub (req_kind r)"
  shows "ProcessInternalMessages h (Some (PropData r)) s = Inl TypeConfusion"
  using assms
  by (auto simp: internal_get internal_set get_request_def set_request_def read_req_def GetProperty_map_of prop_at_def
      GetValueToMessage_confused SetValueFromMessage_confused split: option.splits)

lemma null_string_faults:
  "prop_at s k = Some p \<Longrightarrow> p_value p = VString None \<Longrightarrow> mtype h = MSGTYPE_REQ \<Longrightarrow> subtype h = 250 \<Longrightarrow>
   ProcessInternalMessages h (Some (PropData (StrReq (Some k) n v))) s = Inl NullDeref"
  by (auto simp: prop_message_defs internal_simps get_request_def read_req_def GetProperty_map_of prop_at_def split: option.splits)

text \<open>A \<open>SET\<close> request for a read-only property is acknowledged although nothing is set.\<close>

lemma readonly_set_acknowledged:
  assumes "prop_at s k = Some p" "p_value p = VInt i" "p_readonly p" "mtype h = MSGTYPE_REQ" "subtype h = 253"
  shows "\<exists>s'. ProcessInternalMessages h (Some (PropData (IntReq (Some k) j))) s = Inr (0, Some (253, None), s') \<and>
    prop_at s' k = Some p"
proof -
  obtain n where "map_of (bag s) k = Some n" "objs s n = Some p"
    using assms(1) by (auto simp: prop_at_def split: option.splits)
  then show ?thesis
    using assms(2-) by (simp add: prop_message_defs internal_simps set_request_def read_req_def GetProperty_map_of prop_at_def)
qed

text \<open>A string property assigned to itself copies the string it has just freed.\<close>

lemma StringProperty_self_assign:
  "objs s i = Some p \<Longrightarrow> p_value p = VString (Some v) \<Longrightarrow> StringProperty_copy i i s = Inl UseAfterFree"
  by (simp add: StringProperty_copy_def)

end
