(* ===== verification/Driver.thy ===== *)
theory Driver
  imports Property MessageQueue
begin

text \<open>
  The state of a driver, \<open>libplayercore/driver.h\<close>, and the part of \<open>libplayercore/driver.cc\<close> that counts its
  subscriptions.  The methods that a driver class overrides are functions on the private state \<open>'s\<close> of the
  class; the ones of the base class are \<open>default_methods\<close>, where \<open>m_Update = None\<close> is \<open>Driver::Update\<close>.  A method may ask for messages to be published, but the model
  gives it no access to other drivers.
\<close>

section \<open>State\<close>

text \<open>\<open>Publish\<close> with a queue, and to all subscribers of the device in the header.\<close>

datatype 'e publication =
    PubTo qptr msghdr "'e payload option" bool
  | PubAll msghdr "'e payload option" bool

record ('s, 'e) methods =
  m_Setup :: "'s \<Rightarrow> int \<times> 's"
  m_Shutdown :: "'s \<Rightarrow> int \<times> 's"
  m_Subscribe :: "qptr \<Rightarrow> devaddr \<Rightarrow> 's \<Rightarrow> int \<times> 's"
  m_Unsubscribe :: "qptr \<Rightarrow> devaddr \<Rightarrow> 's \<Rightarrow> int \<times> 's"
  m_ProcessMessage :: "qptr \<Rightarrow> msghdr \<Rightarrow> 'e payload option \<Rightarrow> 's \<Rightarrow> int \<times> 'e publication list \<times> 's"
  m_Update :: "('s \<Rightarrow> 'e publication list \<times> 's) option"

definition default_methods :: "('s, 'e) methods" where
  "default_methods =
     \<lparr>m_Setup = (\<lambda>s. (0, s)), m_Shutdown = (\<lambda>s. (0, s)), m_Subscribe = (\<lambda>_ _ s. (1, s)), m_Unsubscribe = (\<lambda>_ _ s. (1, s)),
      m_ProcessMessage = (\<lambda>_ _ _ s. (- 1, [], s)), m_Update = None\<rparr>"

record ('s, 'e) driver =
  error :: int
  propertyBag :: props
  subscriptions :: int
  device_addr :: devaddr
  alwayson :: bool
  InQueue :: qptr
  d_methods :: "('s, 'e) methods"
  priv :: 's

definition SetError :: "int \<Rightarrow> ('s, 'e) driver \<Rightarrow> ('s, 'e) driver" where
  "SetError code d = d\<lparr>error := code\<rparr>"

definition GetError :: "('s, 'e) driver \<Rightarrow> int" where
  "GetError d = error d"

definition NO_INTERF :: devaddr where
  "NO_INTERF = \<lparr>host = 0, robot = 0, interf = 0xFFFF, idx = 0\<rparr>"

text \<open>The constructor for drivers with several interfaces; \<open>q\<close> is the queue that is created with it.\<close>

definition Driver_new :: "('s, 'e) methods \<Rightarrow> 's \<Rightarrow> qid \<Rightarrow> ('s, 'e) driver" where
  "Driver_new ms s q =
     \<lparr>error = 0, propertyBag = \<lparr>objs = \<lambda>_. None, bag = PropertyBag_new\<rparr>, subscriptions = 0, device_addr = NO_INTERF,
      alwayson = False, InQueue = Some q, d_methods = ms, priv = s\<rparr>"

section \<open>Subscriptions\<close>

definition HasSubscriptions :: "('s, 'e) driver \<Rightarrow> bool" where
  "HasSubscriptions d \<longleftrightarrow> subscriptions d > 0"

definition Setup :: "('s, 'e) driver \<Rightarrow> int \<times> ('s, 'e) driver" where
  "Setup d = (let (r, s) = m_Setup (d_methods d) (priv d) in (r, d\<lparr>priv := s\<rparr>))"

definition Shutdown :: "('s, 'e) driver \<Rightarrow> int \<times> ('s, 'e) driver" where
  "Shutdown d = (let (r, s) = m_Shutdown (d_methods d) (priv d) in (r, d\<lparr>priv := s\<rparr>))"

definition Subscribe_queue :: "qptr \<Rightarrow> devaddr \<Rightarrow> ('s, 'e) driver \<Rightarrow> int \<times> ('s, 'e) driver" where
  "Subscribe_queue q a d = (let (r, s) = m_Subscribe (d_methods d) q a (priv d) in (r, d\<lparr>priv := s\<rparr>))"

definition Unsubscribe_queue :: "qptr \<Rightarrow> devaddr \<Rightarrow> ('s, 'e) driver \<Rightarrow> int \<times> ('s, 'e) driver" where
  "Unsubscribe_queue q a d = (let (r, s) = m_Unsubscribe (d_methods d) q a (priv d) in (r, d\<lparr>priv := s\<rparr>))"

text \<open>The first subscription starts the driver; it counts only if that succeeds.\<close>

definition Driver_Subscribe :: "('s, 'e) driver \<Rightarrow> int \<times> ('s, 'e) driver" where
  "Driver_Subscribe d =
     (if subscriptions d = 0 then
        (let (setupResult, d1) = Setup d
         in (setupResult, if setupResult = 0 then d1\<lparr>subscriptions := subscriptions d1 + 1\<rparr> else d1))
      else (0, d\<lparr>subscriptions := subscriptions d + 1\<rparr>))"

text \<open>The last one stops it, and is given up whatever \<open>Shutdown\<close> returns.\<close>

definition Driver_Unsubscribe :: "('s, 'e) driver \<Rightarrow> int \<times> ('s, 'e) driver" where
  "Driver_Unsubscribe d =
     (if subscriptions d = 0 then (- 1, d)
      else if subscriptions d = 1 then
        (let (shutdownResult, d1) = Shutdown d in (shutdownResult, d1\<lparr>subscriptions := subscriptions d1 - 1\<rparr>))
      else (0, d\<lparr>subscriptions := subscriptions d - 1\<rparr>))"

definition Terminate :: "('s, 'e) driver \<Rightarrow> ('s, 'e) driver" where
  "Terminate d =
     (if subscriptions d \<noteq> 0 then
        (let (_, d1) = Shutdown d in d1\<lparr>subscriptions := 0, alwayson := False\<rparr>)
      else d)"

lemmas driver_call_defs = Setup_def Shutdown_def Subscribe_queue_def Unsubscribe_queue_def

lemma driver_calls_frame [simp]:
  "subscriptions (snd (Setup d)) = subscriptions d" "subscriptions (snd (Shutdown d)) = subscriptions d"
  "subscriptions (snd (Subscribe_queue q a d)) = subscriptions d"
  "subscriptions (snd (Unsubscribe_queue q a d)) = subscriptions d"
  "d_methods (snd (Setup d)) = d_methods d" "d_methods (snd (Shutdown d)) = d_methods d"
  "d_methods (snd (Subscribe_queue q a d)) = d_methods d"
  "d_methods (snd (Unsubscribe_queue q a d)) = d_methods d"
  by (simp_all add: driver_call_defs split_beta)

lemma driver_subscription_frame [simp]:
  "d_methods (snd (Driver_Subscribe d)) = d_methods d" "d_methods (snd (Driver_Unsubscribe d)) = d_methods d"
  by (simp_all add: Driver_Subscribe_def Driver_Unsubscribe_def split_beta)

end
