(* ===== verification/Device.thy ===== *)
theory Device
  imports Driver
begin

text \<open>
  \<open>libplayercore/device.cc\<close>: the array of subscribed queues of a device, and subscription through the device, which
  also subscribes to the driver behind it.
\<close>

section \<open>The device\<close>

type_synonym did = nat

record device =
  dv_addr :: devaddr
  dv_driver :: "did option"
  drivername :: string
  dv_InQueue :: qptr
  queues :: "qptr list"

text \<open>A device without a driver gets a queue of its own, here \<open>fresh\<close>.\<close>

definition Device_new :: "devaddr \<Rightarrow> (did \<times> ('s, 'e) driver) option \<Rightarrow> qid \<Rightarrow> device \<times> ('s, 'e) driver option" where
  "Device_new a dr fresh =
     (case dr of
        Some (i, d) \<Rightarrow>
          (\<lparr>dv_addr = a, dv_driver = Some i, drivername = [], dv_InQueue = InQueue d, queues = [None, None]\<rparr>,
           Some (d\<lparr>device_addr := a\<rparr>))
      | None \<Rightarrow>
          (\<lparr>dv_addr = a, dv_driver = None, drivername = [], dv_InQueue = Some fresh, queues = [None, None]\<rparr>, None))"

text \<open>The first empty entry, and the array with room for it.\<close>

definition empty_spot :: "qptr list \<Rightarrow> nat" where
  "empty_spot qs = (case find_index (\<lambda>q. q = None) qs of Some i \<Rightarrow> i | None \<Rightarrow> length qs)"

definition make_room :: "qptr list \<Rightarrow> qptr list" where
  "make_room qs = (if empty_spot qs = length qs then qs @ replicate (length qs) None else qs)"

definition Device_Subscribe :: "qptr \<Rightarrow> device \<Rightarrow> ('s, 'e) driver option \<Rightarrow> int \<times> device \<times> ('s, 'e) driver option" where
  "Device_Subscribe sub_queue v dr =
     (let i = empty_spot (queues v);
          qs = make_room (queues v);
          v1 = v\<lparr>queues := qs[i := sub_queue]\<rparr>;
          v0 = v\<lparr>queues := qs[i := None]\<rparr> in
      case dr of
        None \<Rightarrow> (0, v1, None)
      | Some d \<Rightarrow>
          (let (retval, d1) = Subscribe_queue sub_queue (dv_addr v) d in
           if retval < 0 then (retval, v0, Some d1)
           else if retval = 1 then
             (let (retval', d2) = Driver_Subscribe d1
              in if retval' \<noteq> 0 then (retval', v0, Some d2) else (0, v1, Some d2))
           else (0, v1, Some d1)))"

definition remove_queue :: "qptr \<Rightarrow> device \<Rightarrow> int \<times> device" where
  "remove_queue sub_queue v =
     (case find_index (\<lambda>q. q = sub_queue) (queues v) of
        Some i \<Rightarrow> (0, v\<lparr>queues := (queues v)[i := None]\<rparr>)
      | None \<Rightarrow> (- 1, v))"

definition Device_Unsubscribe :: "qptr \<Rightarrow> device \<Rightarrow> ('s, 'e) driver option \<Rightarrow> int \<times> device \<times> ('s, 'e) driver option" where
  "Device_Unsubscribe sub_queue v dr =
     (case dr of
        None \<Rightarrow> (let (r, v1) = remove_queue sub_queue v in (r, v1, None))
      | Some d \<Rightarrow>
          (let (retval, d1) = Unsubscribe_queue sub_queue (dv_addr v) d in
           if retval < 0 then (retval, v, Some d1)
           else if retval = 1 then
             (let (retval', d2) = Driver_Unsubscribe d1 in
              if retval' \<noteq> 0 then (retval', v, Some d2)
              else (let (r, v1) = remove_queue sub_queue v in (r, v1, Some d2)))
           else (let (r, v1) = remove_queue sub_queue v in (r, v1, Some d1))))"

section \<open>The subscribers of a device\<close>

definition subscribers :: "device \<Rightarrow> qid multiset" where
  "subscribers v = mset (map the (filter (\<lambda>q. q \<noteq> None) (queues v)))"

definition device_ok :: "device \<Rightarrow> bool" where
  "device_ok v \<longleftrightarrow> 2 \<le> length (queues v)"

lemma empty_spot_room: "qs \<noteq> [] \<Longrightarrow> empty_spot qs < length (make_room qs) \<and> make_room qs ! empty_spot qs = None"
proof (cases "find_index (\<lambda>q. q = None) qs")
  case (Some i)
  from find_index_bound [OF this] Some show ?thesis by (simp add: empty_spot_def make_room_def)
qed (simp add: empty_spot_def make_room_def nth_append)

lemma filter_make_room: "filter (\<lambda>q. q \<noteq> None) (make_room qs) = filter (\<lambda>q. q \<noteq> None) qs"
  by (simp add: make_room_def)

lemma subscribers_add:
  assumes "device_ok v"
  shows "subscribers (v\<lparr>queues := (make_room (queues v))[empty_spot (queues v) := q]\<rparr>) =
    (case q of None \<Rightarrow> subscribers v | Some i \<Rightarrow> add_mset i (subscribers v))"
    "device_ok (v\<lparr>queues := (make_room (queues v))[empty_spot (queues v) := q]\<rparr>)"
proof -
  have "queues v \<noteq> []" using assms by (auto simp: device_ok_def)
  note room = empty_spot_room [OF this]
  have "mset (filter (\<lambda>q. q \<noteq> None) ((make_room (queues v))[empty_spot (queues v) := q])) =
      mset (filter (\<lambda>q. q \<noteq> None) (queues v)) + (if q \<noteq> None then {#q#} else {#})"
    using mset_filter_update [of "empty_spot (queues v)" "make_room (queues v)" "\<lambda>q. q \<noteq> None" q] room
      arg_cong [OF filter_make_room [of "queues v"], of mset] by simp
  then show "subscribers (v\<lparr>queues := (make_room (queues v))[empty_spot (queues v) := q]\<rparr>) =
    (case q of None \<Rightarrow> subscribers v | Some i \<Rightarrow> add_mset i (subscribers v))"
    by (cases q) (simp_all add: subscribers_def)
  show "device_ok (v\<lparr>queues := (make_room (queues v))[empty_spot (queues v) := q]\<rparr>)"
    using assms by (simp add: device_ok_def make_room_def)
qed

lemma subscribers_remove:
  assumes "device_ok v" "remove_queue (Some q) v = (r, v')"
  shows "device_ok v' \<and> (if q \<in># subscribers v then r = 0 \<and> subscribers v' = subscribers v - {#q#} else r = - 1 \<and> v' = v)"
proof (cases "find_index (\<lambda>x. x = Some q) (queues v)")
  case None
  then have "Some q \<notin> set (queues v)" by (auto simp: find_index_None)
  then have "q \<notin># subscribers v" by (force simp: subscribers_def)
  with None assms show ?thesis by (simp add: remove_queue_def)
next
  case (Some i)
  from find_index_bound [OF Some] have i: "i < length (queues v)" "queues v ! i = Some q" by simp_all
  then have "Some q \<in> set (queues v)" by (metis nth_mem)
  then have "q \<in># subscribers v" by (force simp: subscribers_def)
  moreover have "add_mset (Some q) (mset (filter (\<lambda>q. q \<noteq> None) ((queues v)[i := None]))) = mset (filter (\<lambda>q. q \<noteq> None) (queues v))"
    using mset_filter_update [OF i(1), of "\<lambda>q. q \<noteq> None" None] i(2) by simp
  then have "add_mset q (subscribers (v\<lparr>queues := (queues v)[i := None]\<rparr>)) = subscribers v"
    by (simp add: subscribers_def) (metis image_mset_add_mset option.sel)
  ultimately show ?thesis using Some assms by (auto simp: remove_queue_def device_ok_def) (metis add_mset_remove_trivial)
qed

end
