(* ===== verification/Subscription.thy ===== *)
theory Subscription
  imports Device
begin

text \<open>
  A driver with all its devices: what subscribing and unsubscribing through the devices does to the subscription
  count of the driver, and when the driver is set up and shut down.
\<close>

section \<open>A driver and its devices\<close>

datatype sub_op = Sub nat qid | Unsub nat qid

fun sub_step :: "sub_op \<Rightarrow> device list \<times> ('s, 'e) driver \<Rightarrow> int \<times> device list \<times> ('s, 'e) driver" where
  "sub_step (Sub i q) (vs, d) =
     (let (r, v, dr) = Device_Subscribe (Some q) (vs ! i) (Some d) in (r, vs[i := v], the dr))"
| "sub_step (Unsub i q) (vs, d) =
     (let (r, v, dr) = Device_Unsubscribe (Some q) (vs ! i) (Some d) in (r, vs[i := v], the dr))"

text \<open>The abstract state: the multiset of subscriptions, a pair of the number of a device and a queue each.\<close>

definition abs_subs :: "device list \<Rightarrow> (nat \<times> qid) multiset" where
  "abs_subs vs = (\<Sum>i \<in> {..<length vs}. image_mset (Pair i) (subscribers (vs ! i)))"

definition sub_rep :: "device list \<Rightarrow> ('s, 'e) driver \<Rightarrow> bool" where
  "sub_rep vs d \<longleftrightarrow> list_all device_ok vs \<and> subscriptions d = int (size (abs_subs vs))"

text \<open>The driver class leaves the forms of \<open>Subscribe\<close> with a queue to the base class.\<close>

definition base_subscription :: "('s, 'e) methods \<Rightarrow> bool" where
  "base_subscription ms \<longleftrightarrow> m_Subscribe ms = (\<lambda>_ _ s. (1, s)) \<and> m_Unsubscribe ms = (\<lambda>_ _ s. (1, s))"

lemma abs_subs_update:
  assumes "i < length vs"
  shows "abs_subs (vs[i := v]) + image_mset (Pair i) (subscribers (vs ! i)) = abs_subs vs + image_mset (Pair i) (subscribers v)"
proof -
  have split: "abs_subs us = (\<Sum>j \<in> {..<length us} - {i}. image_mset (Pair j) (subscribers (us ! j))) + image_mset (Pair i) (subscribers (us ! i))"
    if "i < length us" for us
    unfolding abs_subs_def using that by (subst sum.remove [of _ i]) (auto simp: ac_simps)
  have "(\<Sum>j \<in> {..<length vs} - {i}. image_mset (Pair j) (subscribers (vs[i := v] ! j))) =
      (\<Sum>j \<in> {..<length vs} - {i}. image_mset (Pair j) (subscribers (vs ! j)))"
    by (rule sum.cong) auto
  with split [of vs] split [of "vs[i := v]"] assms show ?thesis by (simp add: ac_simps)
qed

lemma abs_subs_mem: "i < length vs \<Longrightarrow> (i, q) \<in># abs_subs vs \<longleftrightarrow> q \<in># subscribers (vs ! i)"
  unfolding abs_subs_def by (subst sum.remove [of _ i]) (auto simp: set_mset_sum)

lemma abs_subs_add:
  "i < length vs \<Longrightarrow> subscribers v = add_mset q (subscribers (vs ! i)) \<Longrightarrow> abs_subs (vs[i := v]) = add_mset (i, q) (abs_subs vs)"
  using abs_subs_update [of i vs v] by simp

lemma abs_subs_same: "i < length vs \<Longrightarrow> subscribers v = subscribers (vs ! i) \<Longrightarrow> abs_subs (vs[i := v]) = abs_subs vs"
  using abs_subs_update [of i vs v] by simp

lemma abs_subs_remove:
  assumes "i < length vs" "q \<in># subscribers (vs ! i)" "subscribers v = subscribers (vs ! i) - {#q#}"
  shows "abs_subs vs = add_mset (i, q) (abs_subs (vs[i := v]))"
proof -
  from assms(2,3) have "subscribers (vs ! i) = add_mset q (subscribers v)" by simp
  with abs_subs_update [OF assms(1), of v] show ?thesis by simp
qed

section \<open>The steps refine the multiset\<close>

lemma list_all_update: "list_all P xs \<Longrightarrow> P y \<Longrightarrow> list_all P (xs[i := y])"
  unfolding list_all_iff by (metis in_set_conv_nth length_list_update nth_list_update_eq nth_list_update_neq)

lemma Sub_refines:
  assumes rep: "sub_rep vs d" and base: "base_subscription (d_methods d)" and i: "i < length vs"
  shows "let (r, vs', d') = sub_step (Sub i q) (vs, d); up = m_Setup (d_methods d) (priv d) in
    sub_rep vs' d' \<and> d_methods d' = d_methods d \<and> length vs' = length vs \<and>
    abs_subs vs' = (if r = 0 then add_mset (i, q) (abs_subs vs) else abs_subs vs) \<and>
    (r, priv d') = (if abs_subs vs = {#} then up else (0, priv d))"
proof -
  have dev: "device_ok (vs ! i)" using rep i by (simp add: sub_rep_def list_all_length)
  let ?v = "\<lambda>q. (vs ! i)\<lparr>queues := (make_room (queues (vs ! i)))[empty_spot (queues (vs ! i)) := q]\<rparr>"
  have yes: "abs_subs (vs[i := ?v (Some q)]) = add_mset (i, q) (abs_subs vs)"
    using subscribers_add(1) [OF dev, of "Some q"] by (intro abs_subs_add [OF i]) simp
  have no: "abs_subs (vs[i := ?v None]) = abs_subs vs"
    using subscribers_add(1) [OF dev, of None] by (intro abs_subs_same [OF i]) simp
  have ok: "list_all device_ok (vs[i := ?v x])" for x
    using rep subscribers_add(2) [OF dev] by (simp add: sub_rep_def list_all_update)
  have sq: "Subscribe_queue (Some q) a d = (1, d)" for a using base by (simp add: Subscribe_queue_def base_subscription_def)
  have empty: "subscriptions d = 0 \<longleftrightarrow> abs_subs vs = {#}" using rep by (simp add: sub_rep_def)
  show ?thesis
  proof (cases "abs_subs vs = {#}")
    case True
    obtain r s where up: "m_Setup (d_methods d) (priv d) = (r, s)" by fastforce
    with True empty have "Driver_Subscribe d = (r, d\<lparr>priv := s, subscriptions := if r = 0 then 1 else 0\<rparr>)"
      by (simp add: Driver_Subscribe_def Setup_def)
    with sq up yes no ok rep True show ?thesis by (simp add: Device_Subscribe_def Let_def sub_rep_def)
  next
    case False
    with empty have "Driver_Subscribe d = (0, d\<lparr>subscriptions := subscriptions d + 1\<rparr>)" by (simp add: Driver_Subscribe_def)
    with sq yes no ok rep False show ?thesis by (simp add: Device_Subscribe_def Let_def sub_rep_def)
  qed
qed

lemma Unsub_refines:
  assumes rep: "sub_rep vs d" and base: "base_subscription (d_methods d)"
    and down: "fst (m_Shutdown (d_methods d) (priv d)) = 0" and i: "i < length vs" and q: "(i, q) \<in># abs_subs vs"
  shows "let (r, vs', d') = sub_step (Unsub i q) (vs, d) in
    r = 0 \<and> sub_rep vs' d' \<and> d_methods d' = d_methods d \<and> length vs' = length vs \<and>
    abs_subs vs' = abs_subs vs - {#(i, q)#} \<and>
    priv d' = (if abs_subs vs' = {#} then snd (m_Shutdown (d_methods d) (priv d)) else priv d)"
proof -
  have dev: "device_ok (vs ! i)" using rep i by (simp add: sub_rep_def list_all_length)
  have qi: "q \<in># subscribers (vs ! i)" using q abs_subs_mem [OF i] by simp
  obtain r v where rm: "remove_queue (Some q) (vs ! i) = (r, v)" by fastforce
  from subscribers_remove [OF dev rm] qi have v: "r = 0" "device_ok v" "subscribers v = subscribers (vs ! i) - {#q#}" by simp_all
  from abs_subs_remove [OF i qi v(3)] have abs: "abs_subs vs = add_mset (i, q) (abs_subs (vs[i := v]))" .
  then have n: "subscriptions d = int (size (abs_subs (vs[i := v]))) + 1" using rep by (simp add: sub_rep_def)
  have ok: "list_all device_ok (vs[i := v])" using rep v(2) by (simp add: sub_rep_def list_all_update)
  have uq: "Unsubscribe_queue (Some q) a d = (1, d)" for a using base by (simp add: Unsubscribe_queue_def base_subscription_def)
  show ?thesis
  proof (cases "abs_subs (vs[i := v]) = {#}")
    case True
    obtain s where dn: "m_Shutdown (d_methods d) (priv d) = (0, s)" using down by (cases "m_Shutdown (d_methods d) (priv d)") simp
    with True n have "Driver_Unsubscribe d = (0, d\<lparr>priv := s, subscriptions := 0\<rparr>)" by (simp add: Driver_Unsubscribe_def Shutdown_def)
    with uq rm v ok abs True dn show ?thesis by (simp add: Device_Unsubscribe_def sub_rep_def)
  next
    case False
    with n have "Driver_Unsubscribe d = (0, d\<lparr>subscriptions := subscriptions d - 1\<rparr>)" by (simp add: Driver_Unsubscribe_def)
    with uq rm v ok abs n False show ?thesis by (simp add: Device_Unsubscribe_def sub_rep_def)
  qed
qed

section \<open>The specification\<close>

text \<open>What subscribing means, on the multiset and the private state: the first subscription sets the driver up and
  counts if that succeeds, the last one to go shuts it down.\<close>

fun spec_step :: "('s, 'e) methods \<Rightarrow> sub_op \<Rightarrow> (nat \<times> qid) multiset \<times> 's \<Rightarrow> int \<times> (nat \<times> qid) multiset \<times> 's" where
  "spec_step ms (Sub i q) (A, s) =
     (if A = {#} then (let (r, s') = m_Setup ms s in (r, if r = 0 then {#(i, q)#} else {#}, s'))
      else (0, add_mset (i, q) A, s))"
| "spec_step ms (Unsub i q) (A, s) =
     (let A' = A - {#(i, q)#} in (0, A', if A' = {#} then snd (m_Shutdown ms s) else s))"

text \<open>A step is allowed on an existing device; a subscription is given up only by its holder.\<close>

fun allowed :: "nat \<Rightarrow> sub_op \<Rightarrow> (nat \<times> qid) multiset \<Rightarrow> bool" where
  "allowed n (Sub i q) A \<longleftrightarrow> i < n"
| "allowed n (Unsub i q) A \<longleftrightarrow> i < n \<and> (i, q) \<in># A"

definition shutdown_succeeds :: "('s, 'e) methods \<Rightarrow> bool" where
  "shutdown_succeeds ms \<longleftrightarrow> (\<forall>s. fst (m_Shutdown ms s) = 0)"

lemma sub_step_sim:
  assumes "sub_rep vs d" "base_subscription (d_methods d)" "shutdown_succeeds (d_methods d)"
    "allowed (length vs) op (abs_subs vs)" "sub_step op (vs, d) = (r, vs', d')"
  shows "sub_rep vs' d' \<and> d_methods d' = d_methods d \<and> length vs' = length vs \<and>
    (r, abs_subs vs', priv d') = spec_step (d_methods d) op (abs_subs vs, priv d)"
proof (cases op)
  case (Sub i q)
  with Sub_refines [OF assms(1,2), of i q] assms(4,5) show ?thesis
    by (cases "abs_subs vs = {#}"; cases "m_Setup (d_methods d) (priv d)") (auto simp: Let_def)
next
  case (Unsub i q)
  with Unsub_refines [OF assms(1,2), of i q] assms(3-5) show ?thesis by (simp add: Let_def shutdown_succeeds_def)
qed

fun run_subs :: "sub_op list \<Rightarrow> device list \<times> ('s, 'e) driver \<Rightarrow> int list \<times> device list \<times> ('s, 'e) driver" where
  "run_subs [] c = ([], c)"
| "run_subs (op # ops) c = (let (r, c1) = sub_step op c; (rs, c2) = run_subs ops c1 in (r # rs, c2))"

fun run_spec :: "('s, 'e) methods \<Rightarrow> sub_op list \<Rightarrow> (nat \<times> qid) multiset \<times> 's \<Rightarrow> int list \<times> (nat \<times> qid) multiset \<times> 's" where
  "run_spec ms [] a = ([], a)"
| "run_spec ms (op # ops) a = (let (r, a1) = spec_step ms op a; (rs, a2) = run_spec ms ops a1 in (r # rs, a2))"

text \<open>Every step of the specification's run is allowed.\<close>

fun allowed_run :: "('s, 'e) methods \<Rightarrow> nat \<Rightarrow> sub_op list \<Rightarrow> (nat \<times> qid) multiset \<times> 's \<Rightarrow> bool" where
  "allowed_run ms n [] a \<longleftrightarrow> True"
| "allowed_run ms n (op # ops) a \<longleftrightarrow> allowed n op (fst a) \<and> allowed_run ms n ops (snd (spec_step ms op a))"

lemma run_subs_sim:
  assumes "sub_rep vs d" "base_subscription (d_methods d)" "shutdown_succeeds (d_methods d)"
    "allowed_run (d_methods d) (length vs) ops (abs_subs vs, priv d)" "run_subs ops (vs, d) = (rs, vs', d')"
  shows "sub_rep vs' d' \<and> d_methods d' = d_methods d \<and> length vs' = length vs \<and>
    (rs, abs_subs vs', priv d') = run_spec (d_methods d) ops (abs_subs vs, priv d)"
  using assms
proof (induction ops arbitrary: vs d rs)
  case (Cons op ops)
  obtain r vs1 d1 where st: "sub_step op (vs, d) = (r, vs1, d1)" by (cases "sub_step op (vs, d)") auto
  obtain rs1 where rn: "run_subs ops (vs1, d1) = (rs1, vs', d')" "rs = r # rs1"
    using Cons.prems(5) st by (cases "run_subs ops (vs1, d1)") auto
  have op: "allowed (length vs) op (abs_subs vs)" using Cons.prems(4) by simp
  note sim = sub_step_sim [OF Cons.prems(1-3) op st]
  then have fr: "sub_rep vs1 d1" "d_methods d1 = d_methods d" "length vs1 = length vs" by simp_all
  have sp: "spec_step (d_methods d) op (abs_subs vs, priv d) = (r, abs_subs vs1, priv d1)" using sim by (elim conjE) (rule sym)
  have al: "allowed_run (d_methods d1) (length vs1) ops (abs_subs vs1, priv d1)"
    using Cons.prems(4) sp fr by simp
  have "base_subscription (d_methods d1)" "shutdown_succeeds (d_methods d1)" using fr Cons.prems(2,3) by simp_all
  from Cons.IH [OF fr(1) this al rn(1)] have "sub_rep vs' d'" "d_methods d' = d_methods d" "length vs' = length vs"
    and "run_spec (d_methods d) ops (abs_subs vs1, priv d1) = (rs1, abs_subs vs', priv d')"
    using fr by (simp_all only: fr)
  with sp rn(2) show ?case by simp
qed simp

text \<open>C18: Subscription through the devices refines the multiset of subscriptions.  Let the driver class keep the base
  class's \<open>Subscribe\<close> and \<open>Unsubscribe\<close>, let its \<open>Shutdown\<close> always succeed, and let \<open>Setup\<close> and \<open>Shutdown\<close> change only the driver's own
  state.  Take any sequence of subscriptions of queues to its devices and of unsubscriptions, each of a subscription that
  exists at that point (\<open>allowed_run\<close>).  It returns the codes the specification gives, leaves exactly the subscriptions it
  gives, runs \<open>Setup\<close> and \<open>Shutdown\<close> exactly when it does, and the driver's count is always the number of subscriptions.\<close>

theorem subscriptions_refine:
  assumes "sub_rep vs d" and "base_subscription (d_methods d)" and "shutdown_succeeds (d_methods d)"
    and "allowed_run (d_methods d) (length vs) ops (abs_subs vs, priv d)"
  shows "let (rs, vs', d') = run_subs ops (vs, d) in
    (rs, abs_subs vs', priv d') = run_spec (d_methods d) ops (abs_subs vs, priv d) \<and>
    subscriptions d' = int (size (abs_subs vs')) \<and> (HasSubscriptions d' \<longleftrightarrow> abs_subs vs' \<noteq> {#})"
proof -
  obtain rs vs' d' where "run_subs ops (vs, d) = (rs, vs', d')" by (cases "run_subs ops (vs, d)") auto
  with run_subs_sim [OF assms this] show ?thesis by (auto simp: sub_rep_def HasSubscriptions_def nonempty_has_size)
qed

text \<open>A class that counts how often it was set up and shut down, and fails to set up the first time.\<close>

definition counting :: "(nat \<times> nat, unit) methods" where
  "counting = default_methods
     \<lparr>m_Setup := \<lambda>(u, d). (if u = 0 then - 1 else 0, u + 1, d), m_Shutdown := \<lambda>(u, d). (0, u, d + 1)\<rparr>"

definition device0 :: device where
  "device0 = \<lparr>dv_addr = NO_INTERF, dv_driver = Some 0, drivername = [], dv_InQueue = Some 0, queues = [None, None]\<rparr>"

lemma counting_class: "base_subscription counting" "shutdown_succeeds counting"
  by (auto simp: base_subscription_def shutdown_succeeds_def counting_def default_methods_def)

lemma fresh_rep: "sub_rep [device0, device0] (Driver_new ms s 0)" "abs_subs [device0, device0] = {#}"
  by (simp_all add: sub_rep_def abs_subs_def device_ok_def device0_def subscribers_def Driver_new_def eval_nat_numeral lessThan_Suc)

theorem subscriptions_refine_witness:
  "let (rs, vs, d) = run_subs [Sub 0 5, Sub 0 5, Sub 1 6, Unsub 0 5, Unsub 1 6, Sub 1 7] ([device0, device0], Driver_new counting (0, 0) 0) in
     rs = [- 1, 0, 0, 0, 0, 0] \<and> priv d = (3, 1) \<and> subscriptions d = 1"
proof -
  let ?ops = "[Sub 0 5, Sub 0 5, Sub 1 6, Unsub 0 5, Unsub 1 6, Sub 1 7]" and ?d = "Driver_new counting (0, 0) 0"
  have m: "d_methods ?d = counting" "priv ?d = (0, 0)" by (simp_all add: Driver_new_def)
  have al: "allowed_run counting 2 ?ops ({#}, (0, 0))" by (simp add: counting_def)
  obtain rs vs d where run: "run_subs ?ops ([device0, device0], ?d) = (rs, vs, d)" by (metis prod_cases3)
  from subscriptions_refine [OF fresh_rep(1), of counting "(0, 0)" ?ops] counting_class m fresh_rep(2) al run
  have "(rs, abs_subs vs, priv d) = run_spec counting ?ops ({#}, (0, 0))" "subscriptions d = int (size (abs_subs vs))"
    by (simp_all del: run_subs.simps run_spec.simps)
  moreover have "run_spec counting ?ops ({#}, (0, 0)) = ([- 1, 0, 0, 0, 0, 0], {#(1, 7)#}, (3, 1))" by (simp add: counting_def)
  ultimately show ?thesis unfolding run by simp
qed

section \<open>Set up and shut down\<close>

text \<open>The driver is up exactly while somebody is subscribed.  If a successful \<open>Setup\<close> brings a driver that is down up, a
  failed one leaves it down, and \<open>Shutdown\<close> brings it down, then along any sequence of subscriptions and unsubscriptions
  the driver is up if there are subscriptions and down if there are none; so it is never set up twice or shut down twice.\<close>

theorem up_iff_subscribed:
  assumes "sub_rep vs d" and "base_subscription (d_methods d)" and "shutdown_succeeds (d_methods d)"
    and "allowed_run (d_methods d) (length vs) ops (abs_subs vs, priv d)"
    and "\<forall>s. \<not> up s \<longrightarrow> (fst (m_Setup (d_methods d) s) = 0 \<longleftrightarrow> up (snd (m_Setup (d_methods d) s)))"
    and "\<forall>s. up s \<longrightarrow> \<not> up (snd (m_Shutdown (d_methods d) s))"
    and "up (priv d) \<longleftrightarrow> HasSubscriptions d"
  shows "let (rs, vs', d') = run_subs ops (vs, d) in up (priv d') \<longleftrightarrow> HasSubscriptions d'"
proof -
  have spec: "up s' \<longleftrightarrow> A' \<noteq> {#}" if "run_spec (d_methods d) ops (A, s) = (rs, A', s')" "up s \<longleftrightarrow> A \<noteq> {#}"
    "allowed_run (d_methods d) (length vs) ops (A, s)" for rs A A' s s'
    using that
  proof (induction ops arbitrary: A s rs)
    case (Cons op ops)
    obtain r A1 s1 where st: "spec_step (d_methods d) op (A, s) = (r, A1, s1)" by (cases "spec_step (d_methods d) op (A, s)") auto
    have "up s1 \<longleftrightarrow> A1 \<noteq> {#}"
    proof (cases op)
      case (Sub i q)
      with st Cons.prems(2) assms(5) show ?thesis by (cases "m_Setup (d_methods d) s") (auto split: if_splits)
    next
      case (Unsub i q)
      with Cons.prems(2,3) have "up s" by auto
      with Unsub st assms(6) show ?thesis by (auto simp: Let_def split: if_splits)
    qed
    moreover obtain rs1 where "run_spec (d_methods d) ops (A1, s1) = (rs1, A', s')"
      using Cons.prems(1) st by (cases "run_spec (d_methods d) ops (A1, s1)") auto
    ultimately show ?case using Cons.IH [of A1 s1 rs1] Cons.prems(3) st by simp
  qed simp
  obtain rs vs' d' where run: "run_subs ops (vs, d) = (rs, vs', d')" by (cases "run_subs ops (vs, d)") auto
  note sim = run_subs_sim [OF assms(1-4) run]
  have "up (priv d) \<longleftrightarrow> abs_subs vs \<noteq> {#}" using assms(1,7) by (simp add: sub_rep_def HasSubscriptions_def nonempty_has_size)
  with spec [OF _ this assms(4)] sim have "up (priv d') \<longleftrightarrow> abs_subs vs' \<noteq> {#}" by metis
  with sim run show ?thesis by (simp add: sub_rep_def HasSubscriptions_def nonempty_has_size)
qed

definition switching :: "(bool, unit) methods" where
  "switching = default_methods\<lparr>m_Setup := \<lambda>s. (0, True), m_Shutdown := \<lambda>s. (0, False)\<rparr>"

theorem up_iff_subscribed_witness:
  "let (rs, vs, d) = run_subs [Sub 0 5, Sub 1 6, Unsub 0 5] ([device0, device0], Driver_new switching False 0) in
     priv d \<longleftrightarrow> HasSubscriptions d"
proof -
  let ?ops = "[Sub 0 5, Sub 1 6, Unsub 0 5]" and ?d = "Driver_new switching False 0"
  have cls: "base_subscription switching" "shutdown_succeeds switching"
    by (simp_all add: base_subscription_def shutdown_succeeds_def switching_def default_methods_def)
  have m: "d_methods ?d = switching" "priv ?d = False" "HasSubscriptions ?d = False" by (simp_all add: Driver_new_def HasSubscriptions_def)
  have "allowed_run switching 2 ?ops ({#}, False)" by (simp add: switching_def)
  with up_iff_subscribed [OF fresh_rep(1), of switching False ?ops "\<lambda>s. s"] cls m fresh_rep(2)
  show ?thesis by (simp add: switching_def del: run_subs.simps)
qed

section \<open>Steps that break the count\<close>

text \<open>Giving up a subscription that does not exist is refused, but takes one from the driver's count all the same: here
  the driver shuts down under a client that is still subscribed.\<close>

lemma unsubscribe_stranger:
  "run_subs [Sub 0 5, Unsub 0 6] ([device0], Driver_new counting (1, 0) 0) =
     ([0, - 1], [device0\<lparr>queues := [Some 5, None]\<rparr>], (Driver_new counting (1, 0) 0)\<lparr>priv := (2, 1)\<rparr>)"
  by (simp add: Device_Subscribe_def Device_Unsubscribe_def Subscribe_queue_def Unsubscribe_queue_def Driver_Subscribe_def
      Driver_Unsubscribe_def Setup_def Shutdown_def counting_def default_methods_def Driver_new_def device0_def remove_queue_def
      empty_spot_def make_room_def)

text \<open>If \<open>Shutdown\<close> fails the count is 0 but the queue stays subscribed.\<close>

lemma failed_shutdown_keeps_queue:
  assumes "base_subscription (d_methods d)" "subscriptions d = 1" "m_Shutdown (d_methods d) (priv d) = (r, s)" "r \<noteq> 0"
  shows "Device_Unsubscribe (Some q) v (Some d) = (r, v, Some (d\<lparr>priv := s, subscriptions := 0\<rparr>))"
  using assms by (simp add: Device_Unsubscribe_def Unsubscribe_queue_def base_subscription_def Driver_Unsubscribe_def Shutdown_def)

end
