(* ===== verification/ConfigAddr.thy ===== *)
theory ConfigAddr
  imports ConfigAccess Messages
begin

text \<open>
  \<open>ReadDeviceAddr\<close> of \<open>libplayercore/configfile.cc\<close>: device addresses written as
  \<open>key:host:robot:interface:index\<close>, of which the leading fields may be missing.  The interface table and
  the host name lookup are parameters.
\<close>

section \<open>Splitting an address\<close>

abbreviation COLON :: char where "COLON \<equiv> CHR '':''"

text \<open>
  The loop runs backwards over the string (given reversed) while fewer than five fields are found;
  \<open>cur\<close> is the field being collected.
\<close>

fun split_back :: "nat \<Rightarrow> string \<Rightarrow> string \<Rightarrow> string list \<Rightarrow> string list" where
  "split_back 0 rs cur found = found"
| "split_back (Suc n) [] cur found = cur # found"
| "split_back (Suc n) (c # rs) cur found =
     (if c = COLON then split_back n rs [] (cur # found) else split_back (Suc n) rs (c # cur) found)"

definition addr_tokens :: "string \<Rightarrow> string option list" where
  "addr_tokens s = (let fs = split_back 5 (rev s) [] [] in replicate (5 - length fs) None @ map Some fs)"

section \<open>One address\<close>

record addr_env =
  lookup_interface :: "string \<Rightarrow> u16 option"
  hostname_to_packedaddr :: "string \<Rightarrow> u32 option"

definition nonempty :: "string option \<Rightarrow> bool" where
  "nonempty t \<longleftrightarrow> t \<noteq> None \<and> t \<noteq> Some []"

definition addr_host :: "addr_env \<Rightarrow> u32 \<Rightarrow> string option \<Rightarrow> u32 option outcome" where
  "addr_host ae def t =
     (if nonempty t then
        (if list_all c_isdigit (the t) then bindo (atoi (the t)) (\<lambda>h. Inr (Some (word_of_int h)))
         else Inr (hostname_to_packedaddr ae (the t)))
      else Inr (Some def))"

definition addr_robot :: "u32 \<Rightarrow> string option \<Rightarrow> u32 outcome" where
  "addr_robot def t =
     (if nonempty t then bindo (atoi (the t)) (\<lambda>r. Inr (word_of_int r)) else Inr def)"

text \<open>The key and the address of one entry; \<open>None\<close> is the error return.\<close>

definition entry_addr :: "addr_env \<Rightarrow> u32 \<Rightarrow> u32 \<Rightarrow> string option list \<Rightarrow> (string option \<times> devaddr) option outcome" where
  "entry_addr ae dhost drobot ts =
     (case (ts ! 3, ts ! 4) of
        (Some s, Some x) \<Rightarrow>
          bindr (addr_host ae dhost (ts ! 1)) (\<lambda>h.
          bindo (addr_robot drobot (ts ! 2)) (\<lambda>r.
          bindo (atoi x) (\<lambda>ind.
            case lookup_interface ae s of
              None \<Rightarrow> Inr None
            | Some code \<Rightarrow> Inr (Some (ts ! 0, \<lparr>host = h, robot = r, interf = code, idx = word_of_int ind\<rparr>)))))
      | _ \<Rightarrow> Inr None)"

definition entry_matches :: "int \<Rightarrow> int \<Rightarrow> string option \<Rightarrow> nat \<Rightarrow> string option \<times> devaddr \<Rightarrow> bool" where
  "entry_matches interf_code index key i = (\<lambda>(k, a).
     \<not> (interf_code > 0 \<and> uint (interf a) \<noteq> interf_code) \<and>
     \<not> (index \<ge> 0 \<and> int i \<noteq> index) \<and>
     \<not> (key \<noteq> None \<and> k = None) \<and>
     \<not> (key \<noteq> None \<and> k \<noteq> None \<and> the key \<noteq> the k))"

section \<open>The search\<close>

text \<open>\<open>char str[128]\<close>; \<open>m\<close> values are left, the next one has number \<open>i\<close>.\<close>

fun addr_loop :: "addr_env \<Rightarrow> int \<Rightarrow> int \<Rightarrow> string option \<Rightarrow> nat \<Rightarrow> nat \<Rightarrow> nat \<Rightarrow> cfg \<Rightarrow> (devaddr \<times> cfg) option outcome" where
  "addr_loop ae interf_code index key f i 0 c = Inr None"
| "addr_loop ae interf_code index key f i (Suc m) c =
     bindo (GetFieldValue f (int i) False c) (\<lambda>(v, _).
       case v of
         None \<Rightarrow> Inl NullDeref
       | Some str \<Rightarrow>
           bindo (c_assert (length str < 128)) (\<lambda>_.
           bindr (entry_addr ae (default_host c) (default_robot c) (addr_tokens str)) (\<lambda>ka.
             if entry_matches interf_code index key i ka
             then bindo (GetFieldValue f (int i) True c) (\<lambda>(_, c'). Inr (Some (snd ka, c')))
             else addr_loop ae interf_code index key f (i + 1) m c)))"

definition ReadDeviceAddr ::
    "addr_env \<Rightarrow> int \<Rightarrow> string \<Rightarrow> int \<Rightarrow> int \<Rightarrow> string option \<Rightarrow> cfg \<Rightarrow> (devaddr \<times> cfg) option outcome" where
  "ReadDeviceAddr ae sec name interf_code index key c =
     (case GetField c sec name of
        None \<Rightarrow> Inr None
      | Some f \<Rightarrow> bindo (GetFieldValueCount f c) (\<lambda>cnt. addr_loop ae interf_code index key f 0 cnt c))"

section \<open>Splitting is the inverse of joining\<close>

fun join_colon :: "string list \<Rightarrow> string" where
  "join_colon [] = []"
| "join_colon [f] = f"
| "join_colon (f # g # fs) = f @ COLON # join_colon (g # fs)"

lemma join_colon_snoc: "fs \<noteq> [] \<Longrightarrow> join_colon (fs @ [f]) = join_colon fs @ COLON # f"
  by (induction fs rule: join_colon.induct) auto

lemma split_back_field:
  "COLON \<notin> set f \<Longrightarrow> split_back (Suc n) (rev f @ rs) cur found = split_back (Suc n) rs (f @ cur) found"
proof (induction f arbitrary: cur rule: rev_induct)
  case (snoc x f)
  then show ?case by auto
qed simp

lemma split_back_join:
  "fs \<noteq> [] \<Longrightarrow> length fs \<le> n \<Longrightarrow> \<forall>f \<in> set fs. COLON \<notin> set f \<Longrightarrow>
   split_back n (rev (join_colon fs)) [] found = fs @ found"
proof (induction fs arbitrary: n found rule: rev_induct)
  case (snoc f fs)
  then obtain m where n: "n = Suc m" by (cases n) auto
  show ?case
  proof (cases "fs = []")
    case True
    then show ?thesis using snoc.prems split_back_field [of f m "[]" "[]" found] by (simp add: n)
  next
    case False
    then have "split_back n (rev (join_colon (fs @ [f]))) [] found = split_back m (rev (join_colon fs)) [] (f # found)"
      using snoc.prems split_back_field [of f m "COLON # rev (join_colon fs)" "[]" found] by (simp add: n join_colon_snoc)
    also have "\<dots> = fs @ f # found" using False snoc by (intro snoc.IH) (auto simp: n)
    finally show ?thesis by simp
  qed
qed simp

lemma addr_tokens_join:
  assumes "fs \<noteq> []" "length fs \<le> 5" "\<forall>f \<in> set fs. COLON \<notin> set f"
  shows "addr_tokens (join_colon fs) = replicate (5 - length fs) None @ map Some fs"
  using split_back_join [OF assms, of "[]"] by (simp add: addr_tokens_def)

section \<open>The first match\<close>

text \<open>The entry that \<open>fs\<close>, the fields from the left, denotes.\<close>

definition denotes :: "addr_env \<Rightarrow> cfg \<Rightarrow> string list \<Rightarrow> string option \<times> devaddr \<Rightarrow> bool" where
  "denotes ae c fs ka \<longleftrightarrow> entry_addr ae (default_host c) (default_robot c) (replicate (5 - length fs) None @ map Some fs) = Inr (Some ka)"

definition addr_entry_ok :: "addr_env \<Rightarrow> cfg \<Rightarrow> nat \<Rightarrow> nat \<Rightarrow> string list \<times> string option \<times> devaddr \<Rightarrow> bool" where
  "addr_entry_ok ae c f i = (\<lambda>(fs, ka).
     fs \<noteq> [] \<and> length fs \<le> 5 \<and> (\<forall>g \<in> set fs. COLON \<notin> set g) \<and> length (join_colon fs) < 128 \<and> denotes ae c fs ka \<and>
     GetFieldValue f (int i) False c = Inr (Some (join_colon fs), c))"

fun first_match :: "(nat \<Rightarrow> 'a \<Rightarrow> bool) \<Rightarrow> nat \<Rightarrow> 'a list \<Rightarrow> (nat \<times> 'a) option" where
  "first_match P i [] = None"
| "first_match P i (x # xs) = (if P i x then Some (i, x) else first_match P (i + 1) xs)"

lemma first_match_Some: "first_match P i xs = Some (j, x) \<Longrightarrow> i \<le> j \<and> j < i + length xs \<and> x = xs ! (j - i) \<and> P j x"
proof (induction P i xs rule: first_match.induct)
  case (2 P i x xs)
  show ?case
  proof (cases "P i x")
    case False
    with 2 have "i + 1 \<le> j \<and> j < i + 1 + length xs \<and> x = x" "xs ! (j - (i + 1)) = (x # xs) ! (j - i)"
      by (auto simp: nth_Cons' Suc_diff_Suc)
    with 2 False show ?thesis by auto
  qed (use 2 in auto)
qed simp

lemma addr_loop_first:
  assumes "\<And>i. i < length es \<Longrightarrow> addr_entry_ok ae c f (i0 + i) (es ! i)"
  shows "addr_loop ae ic index key f i0 (length es) c =
    (case first_match (\<lambda>i e. entry_matches ic index key i (snd e)) i0 es of
       None \<Rightarrow> Inr None
     | Some (i, e) \<Rightarrow> bindo (GetFieldValue f (int i) True c) (\<lambda>(_, c'). Inr (Some (snd (snd e), c'))))"
  using assms
proof (induction es arbitrary: i0)
  case (Cons e es)
  obtain fs ka where e: "e = (fs, ka)" by (cases e)
  have ok: "addr_entry_ok ae c f i0 (fs, ka)" using Cons.prems [of 0] e by simp
  then have "addr_tokens (join_colon fs) = replicate (5 - length fs) None @ map Some fs"
    by (simp add: addr_entry_ok_def addr_tokens_join)
  with ok have step: "addr_loop ae ic index key f i0 (Suc (length es)) c =
      (if entry_matches ic index key i0 ka
       then bindo (GetFieldValue f (int i0) True c) (\<lambda>(_, c'). Inr (Some (snd ka, c')))
       else addr_loop ae ic index key f (i0 + 1) (length es) c)"
    by (simp add: addr_entry_ok_def denotes_def c_assert_def)
  have IH: "addr_loop ae ic index key f (i0 + 1) (length es) c =
    (case first_match (\<lambda>i e. entry_matches ic index key i (snd e)) (i0 + 1) es of
       None \<Rightarrow> Inr None
     | Some (i, e) \<Rightarrow> bindo (GetFieldValue f (int i) True c) (\<lambda>(_, c'). Inr (Some (snd (snd e), c'))))"
  proof (rule Cons.IH)
    fix i assume "i < length es"
    with Cons.prems [of "i + 1"] show "addr_entry_ok ae c f (i0 + 1 + i) (es ! i)" by simp
  qed
  show ?case
  proof (cases "entry_matches ic index key i0 ka")
    case True
    then show ?thesis unfolding list.size(4) add_0_right add_Suc_right step e first_match.simps by simp
  next
    case False
    then show ?thesis unfolding list.size(4) add_0_right add_Suc_right step e first_match.simps IH by simp
  qed
qed simp

lemma GetFieldValue_marks:
  "GetFieldValue f (int i) False c = Inr (Some v, c) \<Longrightarrow> GetFieldValue f (int i) True c = Inr (Some v, mark_used f i c)"
  by (auto simp: GetFieldValue_def split: if_splits option.splits)

text \<open>Over entries given by what they denote.\<close>

lemma ReadDeviceAddr_entries:
  assumes "GetField c sec name = Some f" and "length es = length (fd_values (cfields c ! f))"
    and "\<And>i. i < length es \<Longrightarrow> addr_entry_ok ae c f i (es ! i)"
  shows "ReadDeviceAddr ae sec name ic index key c =
    (case first_match (\<lambda>i e. entry_matches ic index key i (snd e)) 0 es of
       None \<Rightarrow> Inr None
     | Some (i, e) \<Rightarrow> Inr (Some (snd (snd e), mark_used f i c)))"
proof -
  have "ReadDeviceAddr ae sec name ic index key c = addr_loop ae ic index key f 0 (length es) c"
    using assms(1,2) GetField_Some [OF assms(1)] by (simp add: ReadDeviceAddr_def GetFieldValueCount_def)
  also have "\<dots> = (case first_match (\<lambda>i e. entry_matches ic index key i (snd e)) 0 es of
       None \<Rightarrow> Inr None
     | Some (i, e) \<Rightarrow> bindo (GetFieldValue f (int i) True c) (\<lambda>(_, c'). Inr (Some (snd (snd e), c'))))"
    using assms(3) by (intro addr_loop_first) simp
  also have "\<dots> = (case first_match (\<lambda>i e. entry_matches ic index key i (snd e)) 0 es of
       None \<Rightarrow> Inr None
     | Some (i, e) \<Rightarrow> Inr (Some (snd (snd e), mark_used f i c)))"
  proof (cases "first_match (\<lambda>i e. entry_matches ic index key i (snd e)) 0 es")
    case (Some x)
    obtain i e where x: "x = (i, e)" by (cases x)
    with first_match_Some [of _ 0 es i e] Some have "i < length es" "e = es ! i" by auto
    with assms(3) have "addr_entry_ok ae c f i e" by simp
    then have "GetFieldValue f (int i) False c = Inr (Some (join_colon (fst e)), c)"
      by (auto simp: addr_entry_ok_def split: prod.splits)
    from GetFieldValue_marks [OF this] Some x show ?thesis by simp
  qed simp
  finally show ?thesis .
qed

section \<open>Addresses as they are written\<close>

text \<open>What a configuration file says about a device: the key, host and robot may be missing; a host is a packed address or a name.\<close>

datatype host_text = NoHost | PackedHost nat | NamedHost string

record addr_text =
  at_key :: "string option"
  at_host :: host_text
  at_robot :: "int option"
  at_interf :: string
  at_index :: int

fun host_field_text :: "host_text \<Rightarrow> string" where
  "host_field_text NoHost = []"
| "host_field_text (PackedHost n) = print_nat n"
| "host_field_text (NamedHost s) = s"

fun robot_field_text :: "int option \<Rightarrow> string" where
  "robot_field_text None = []"
| "robot_field_text (Some r) = print_int r"

text \<open>The fields, key first; some of the leading ones may be left out if there is nothing to write in them.\<close>

definition written_as :: "addr_text \<Rightarrow> string list \<Rightarrow> bool" where
  "written_as a fs \<longleftrightarrow>
     (case at_key a of
        Some k \<Rightarrow> fs = [k, host_field_text (at_host a), robot_field_text (at_robot a), at_interf a, print_int (at_index a)]
      | None \<Rightarrow>
          fs = [host_field_text (at_host a), robot_field_text (at_robot a), at_interf a, print_int (at_index a)] \<or>
          at_host a = NoHost \<and> fs = [robot_field_text (at_robot a), at_interf a, print_int (at_index a)] \<or>
          at_host a = NoHost \<and> at_robot a = None \<and> fs = [at_interf a, print_int (at_index a)])"

text \<open>Numbers fit an \<open>int\<close>, names can be looked up.\<close>

definition addr_text_ok :: "addr_env \<Rightarrow> addr_text \<Rightarrow> bool" where
  "addr_text_ok ae a \<longleftrightarrow>
     (case at_host a of
        NoHost \<Rightarrow> True
      | PackedHost n \<Rightarrow> int n < 2 ^ 31
      | NamedHost s \<Rightarrow> s \<noteq> [] \<and> \<not> list_all c_isdigit s \<and> hostname_to_packedaddr ae s \<noteq> None) \<and>
     (case at_robot a of None \<Rightarrow> True | Some r \<Rightarrow> int_range r) \<and> int_range (at_index a) \<and> lookup_interface ae (at_interf a) \<noteq> None"

text \<open>The address meant, and whether the entry at position \<open>i\<close> is one that is asked for.\<close>

definition addr_meant :: "addr_env \<Rightarrow> u32 \<Rightarrow> u32 \<Rightarrow> addr_text \<Rightarrow> devaddr" where
  "addr_meant ae dhost drobot a =
     \<lparr>host = (case at_host a of NoHost \<Rightarrow> dhost | PackedHost n \<Rightarrow> of_nat n | NamedHost s \<Rightarrow> the (hostname_to_packedaddr ae s)),
      robot = (case at_robot a of None \<Rightarrow> drobot | Some r \<Rightarrow> word_of_int r),
      interf = the (lookup_interface ae (at_interf a)), idx = word_of_int (at_index a)\<rparr>"

definition asked_for :: "addr_env \<Rightarrow> int \<Rightarrow> int \<Rightarrow> string option \<Rightarrow> nat \<Rightarrow> addr_text \<Rightarrow> bool" where
  "asked_for ae interf_code index key i a \<longleftrightarrow>
     (interf_code \<le> 0 \<or> uint (the (lookup_interface ae (at_interf a))) = interf_code) \<and>
     (index < 0 \<or> index = int i) \<and> (key = None \<or> key = at_key a)"

lemma atoi_print_nat: "int n < 2 ^ 31 \<Longrightarrow> atoi (print_nat n) = Inr (int n)"
  using atoi_print_int [of "int n"] by (simp add: print_int_def int_range_def)

lemma print_int_not_Nil: "print_int v \<noteq> []"
  by (simp add: print_int_def print_nat_not_Nil)

lemma addr_host_text:
  "addr_text_ok ae a \<Longrightarrow> addr_host ae dhost (Some (host_field_text (at_host a))) = Inr (Some (host (addr_meant ae dhost drobot a)))"
  using print_nat_digits
  by (cases "at_host a")
     (auto simp: addr_text_ok_def addr_host_def nonempty_def addr_meant_def atoi_print_nat list_all_iff)

lemma addr_robot_text:
  "addr_text_ok ae a \<Longrightarrow> addr_robot drobot (Some (robot_field_text (at_robot a))) = Inr (robot (addr_meant ae dhost drobot a))"
  by (cases "at_robot a")
     (auto simp: addr_text_ok_def addr_robot_def nonempty_def addr_meant_def atoi_print_int print_int_not_Nil)

lemma denotes_written:
  assumes ok: "addr_text_ok ae a" and w: "written_as a fs"
  shows "denotes ae c fs (at_key a, addr_meant ae (default_host c) (default_robot c) a)"
proof -
  let ?m = "addr_meant ae (default_host c) (default_robot c) a"
  have ix: "atoi (print_int (at_index a)) = Inr (at_index a)" "lookup_interface ae (at_interf a) = Some (interf ?m)"
    "word_of_int (at_index a) = idx ?m" using ok by (auto simp: addr_text_ok_def atoi_print_int addr_meant_def)
  have none: "at_host a = NoHost \<Longrightarrow> addr_host ae (default_host c) None = Inr (Some (host ?m))"
    "at_robot a = None \<Longrightarrow> addr_robot (default_robot c) None = Inr (robot ?m)"
    by (simp_all add: addr_host_def addr_robot_def nonempty_def addr_meant_def)
  note h = addr_host_text [OF ok, of "default_host c" "default_robot c"] and r = addr_robot_text [OF ok, of "default_robot c" "default_host c"]
  have whole: "\<lparr>host = host ?m, robot = robot ?m, interf = interf ?m, idx = idx ?m\<rparr> = ?m" by simp
  show ?thesis
    using w unfolding written_as_def
    by (auto simp: denotes_def entry_addr_def h r ix none whole eval_nat_numeral split: option.splits)
qed

lemma asked_for_matches:
  "addr_text_ok ae a \<Longrightarrow> entry_matches ic index key i (at_key a, addr_meant ae dhost drobot a) = asked_for ae ic index key i a"
  by (cases key; cases "at_key a") (auto simp: entry_matches_def asked_for_def addr_meant_def)

lemma written_as_length: "written_as a fs \<Longrightarrow> fs \<noteq> [] \<and> length fs \<le> 5"
  by (auto simp: written_as_def split: option.splits)

lemma first_match_map:
  "(\<And>k. k < length xs \<Longrightarrow> P (i + k) (g (xs ! k)) = Q (i + k) (xs ! k)) \<Longrightarrow>
   first_match P i (map g xs) = map_option (\<lambda>(j, x). (j, g x)) (first_match Q i xs)"
proof (induction xs arbitrary: i)
  case (Cons x xs)
  have "P i (g x) = Q i x" using Cons.prems [of 0] by simp
  moreover have "first_match P (i + 1) (map g xs) = map_option (\<lambda>(j, x). (j, g x)) (first_match Q (i + 1) xs)"
  proof (rule Cons.IH)
    fix k assume "k < length xs"
    with Cons.prems [of "Suc k"] show "P (i + 1 + k) (g (xs ! k)) = Q (i + 1 + k) (xs ! k)" by simp
  qed
  ultimately show ?case by simp
qed simp

text \<open>C34: \<open>ReadDeviceAddr\<close> takes the first entry that fits.  Let every value of a field be an address as it may be written in a
  configuration file: \<open>key:host:robot:interface:index\<close> with colons in between and none in the fields, shorter than 128
  characters, where host and robot may be empty and leading parts that are missing may be left out altogether, with numbers
  in the range of \<open>int\<close>, an interface that is known and a host that is a number or a name that can be resolved.  Then the
  call goes through the values in order and returns the address that the first one means whose interface, position and key
  are the ones asked for (an interface code that is not positive, a negative position and no key ask for any), with the
  default host and robot for those missing; it marks exactly that value as used.  If no value fits it returns the error.\<close>

theorem ReadDeviceAddr_first_match:
  assumes "GetField c sec name = Some f" and "length es = length (fd_values (cfields c ! f))"
    and "\<And>i fs a. i < length es \<Longrightarrow> es ! i = (fs, a) \<Longrightarrow> written_as a fs \<and> addr_text_ok ae a \<and>
      (\<forall>g \<in> set fs. COLON \<notin> set g) \<and> length (join_colon fs) < 128 \<and> GetFieldValue f (int i) False c = Inr (Some (join_colon fs), c)"
  shows "ReadDeviceAddr ae sec name ic index key c =
    (case first_match (\<lambda>i (fs, a). asked_for ae ic index key i a) 0 es of
       None \<Rightarrow> Inr None
     | Some (i, fs, a) \<Rightarrow> Inr (Some (addr_meant ae (default_host c) (default_robot c) a, mark_used f i c)))"
proof -
  let ?g = "\<lambda>(fs, a). (fs, at_key a, addr_meant ae (default_host c) (default_robot c) a)"
  have ok: "addr_entry_ok ae c f i (map ?g es ! i)" if "i < length es" for i
  proof -
    obtain fs a where e: "es ! i = (fs, a)" by fastforce
    with assms(3) [OF that e] that written_as_length [of a fs] denotes_written [of ae a fs c]
    show ?thesis by (simp add: addr_entry_ok_def)
  qed
  have fit: "entry_matches ic index key (0 + k) (snd (?g (es ! k))) = (case es ! k of (fs, a) \<Rightarrow> asked_for ae ic index key (0 + k) a)"
    if "k < length es" for k
  proof -
    obtain fs a where e: "es ! k = (fs, a)" by fastforce
    with assms(3) [OF that e] asked_for_matches [of ae a] show ?thesis by simp
  qed
  have "first_match (\<lambda>i e. entry_matches ic index key i (snd e)) 0 (map ?g es) =
      map_option (\<lambda>(j, x). (j, ?g x)) (first_match (\<lambda>i (fs, a). asked_for ae ic index key i a) 0 es)"
    by (rule first_match_map) (rule fit)
  moreover have "length (map ?g es) = length (fd_values (cfields c ! f))" using assms(2) by simp
  ultimately show ?thesis using ReadDeviceAddr_entries [OF assms(1), of "map ?g es"] ok
    by (auto split: option.split)
qed

definition ae1 :: addr_env where
  "ae1 = \<lparr>lookup_interface = (\<lambda>s. if s = ''laser'' then Some 6 else if s = ''ptz'' then Some 5 else None),
     hostname_to_packedaddr = (\<lambda>_. None)\<rparr>"

definition cfg2 :: cfg where
  "cfg2 = (new_cfg [tok TokenString ''ptz:1'', tok TokenString ''front:::laser:2''])
     \<lparr>cfields := [\<lparr>fd_section = 1, fd_name = ''provides'', fd_values = [Some 0, Some 1], fd_useds = [Some False, Some False], fd_line = 3\<rparr>]\<rparr>"

definition entries2 :: "(string list \<times> addr_text) list" where
  "entries2 =
     [([''ptz'', ''1''], \<lparr>at_key = None, at_host = NoHost, at_robot = None, at_interf = ''ptz'', at_index = 1\<rparr>),
      ([''front'', [], [], ''laser'', ''2''],
       \<lparr>at_key = Some ''front'', at_host = NoHost, at_robot = None, at_interf = ''laser'', at_index = 2\<rparr>)]"

lemma print_digits: "print_int 1 = ''1''" "print_int 2 = ''2''"
  by (simp_all add: print_int_def print_nat.simps digit_char_def char_of_def bit_iff_odd)

lemma entries2_values:
  "GetFieldValue 0 0 False cfg2 = Inr (Some (join_colon [''ptz'', ''1'']), cfg2)"
  "GetFieldValue 0 1 False cfg2 = Inr (Some (join_colon [''front'', [], [], ''laser'', ''2'']), cfg2)"
  by (simp_all add: GetFieldValue_def GetTokenValue_def cfg2_def new_cfg_def tok_def)

theorem ReadDeviceAddr_first_match_witness:
  "ReadDeviceAddr ae1 1 ''provides'' 6 (-1) (Some ''front'') cfg2 =
     Inr (Some (\<lparr>host = 16777343, robot = 6665, interf = 6, idx = 2\<rparr>, mark_used 0 1 cfg2))"
proof -
  have f: "GetField cfg2 1 ''provides'' = Some 0" "length entries2 = length (fd_values (cfields cfg2 ! 0))"
    by (simp_all add: GetField_def cfg2_def entries2_def)
  have ok: "written_as a fs \<and> addr_text_ok ae1 a \<and> (\<forall>g \<in> set fs. COLON \<notin> set g) \<and> length (join_colon fs) < 128 \<and>
      GetFieldValue 0 (int i) False cfg2 = Inr (Some (join_colon fs), cfg2)"
    if i: "i < length entries2" and e: "entries2 ! i = (fs, a)" for i fs a
  proof -
    from i consider "i = 0" | "i = 1" by (auto simp: entries2_def less_Suc_eq)
    then show ?thesis
      by cases (use e entries2_values in \<open>auto simp: entries2_def written_as_def addr_text_ok_def print_digits int_range_def ae1_def\<close>)
  qed
  have "default_host cfg2 = 16777343" "default_robot cfg2 = 6665" by (simp_all add: cfg2_def new_cfg_def)
  with ReadDeviceAddr_first_match [OF f ok, of 6 "-1" "Some ''front''"]
  show ?thesis by (simp add: entries2_def asked_for_def addr_meant_def ae1_def)
qed

text \<open>A packed host address with its top bit set is read with \<open>atoi\<close>, which is undefined beyond the range of \<open>int\<close>.\<close>

lemma high_packed_host:
  "entry_addr ae1 dh dr (addr_tokens '':3232235777:6665:laser:0'') = Inl IntOverflow"
proof -
  have "join_colon [[], ''3232235777'', ''6665'', ''laser'', ''0''] = '':3232235777:6665:laser:0''" by simp
  with addr_tokens_join [of "[[], ''3232235777'', ''6665'', ''laser'', ''0'']"]
  have "addr_tokens '':3232235777:6665:laser:0'' = [Some [], Some ''3232235777'', Some ''6665'', Some ''laser'', Some ''0'']" by simp
  moreover have "atoi ''3232235777'' = Inl IntOverflow"
    by (simp add: atoi_def atoi_value_def int_range_def c_isspace_def c_isdigit_def digit_val_def)
  ultimately show ?thesis
    by (simp add: entry_addr_def addr_host_def nonempty_def c_isdigit_def)
qed

end
