(* ===== verification/DeviceTable.thy ===== *)
theory DeviceTable
  imports Subscription ConfigAddr
begin

text \<open>
  \<open>libplayercore/devicetable.cc\<close>: the table of devices, in the order they were added, with the store of the
  drivers behind them.  A driver pointer is a number; the driver objects are in \<open>drv\<close>.  A device found is its
  position in the table, from which nothing is removed.
\<close>

section \<open>State\<close>

record ('s, 'e) core =
  drv :: "did \<Rightarrow> ('s, 'e) driver option"
  next_did :: did
  devices :: "device list"
  numdevices :: nat
  remote_driver_fn :: "(devaddr \<Rightarrow> ('s, 'e) driver option) option"
  mq :: "qid \<Rightarrow> 'e payload mqueue option"

definition DeviceTable_new :: "('s, 'e) core" where
  "DeviceTable_new =
     \<lparr>drv = \<lambda>_. None, next_did = 0, devices = [], numdevices = 0, remote_driver_fn = None, mq = \<lambda>_. None\<rparr>"

definition AddRemoteDriverFn :: "(devaddr \<Rightarrow> ('s, 'e) driver option) \<Rightarrow> ('s, 'e) core \<Rightarrow> ('s, 'e) core" where
  "AddRemoteDriverFn rdf c = c\<lparr>remote_driver_fn := Some rdf\<rparr>"

definition find_device :: "devaddr \<Rightarrow> device list \<Rightarrow> nat option" where
  "find_device a vs = find_index (\<lambda>v. MatchDeviceAddress (dv_addr v) a) vs"

text \<open>\<open>None\<close> is the null pointer returned for a duplicate address.\<close>

definition AddDevice :: "devaddr \<Rightarrow> did \<Rightarrow> ('s, 'e) core \<Rightarrow> (nat option \<times> ('s, 'e) core) outcome" where
  "AddDevice a i c =
     (case find_device a (devices c) of
        Some _ \<Rightarrow> Inr (None, c)
      | None \<Rightarrow>
          (case drv c i of
             None \<Rightarrow> Inl UseAfterFree
           | Some d \<Rightarrow>
               (let (v, dr) = Device_new a (Some (i, d)) 0
                in Inr (Some (length (devices c)),
                     c\<lparr>devices := devices c @ [v], drv := (drv c)(i := dr), numdevices := numdevices c + 1\<rparr>))))"

definition AddInterface :: "devaddr \<Rightarrow> did \<Rightarrow> ('s, 'e) core \<Rightarrow> (int \<times> ('s, 'e) core) outcome" where
  "AddInterface a i c =
     bindo (AddDevice a i c) (\<lambda>(v, c'). Inr (case v of None \<Rightarrow> - 1 | Some _ \<Rightarrow> 0, c'))"

text \<open>The form that reads the address from the configuration file; the address is returned as well.\<close>

definition AddInterface_cfg ::
    "addr_env \<Rightarrow> int \<Rightarrow> int \<Rightarrow> string option \<Rightarrow> did \<Rightarrow> cfg \<Rightarrow> ('s, 'e) core
     \<Rightarrow> (int \<times> devaddr option \<times> cfg \<times> ('s, 'e) core) outcome" where
  "AddInterface_cfg ae sec code key i f c =
     bindo (ReadDeviceAddr ae sec ''provides'' code (- 1) key f) (\<lambda>ra.
       case ra of
         None \<Rightarrow> Inr (- 1, None, f, c)
       | Some (a, f') \<Rightarrow> bindo (AddInterface a i c) (\<lambda>(r, c'). Inr (r, Some a, f', c')))"

text \<open>The constructor for drivers with one interface, on the object \<open>d\<close> whose remaining members are as
  \<open>Driver_new\<close> sets them; with an error set \<open>ParseDriver\<close> gives the object up.\<close>

definition Driver_single ::
    "addr_env \<Rightarrow> int \<Rightarrow> int \<Rightarrow> ('s, 'e) driver \<Rightarrow> cfg \<Rightarrow> ('s, 'e) core \<Rightarrow> (did \<times> cfg \<times> ('s, 'e) core) outcome" where
  "Driver_single ae sec code d f c =
     (let i = next_did c; c1 = c\<lparr>next_did := i + 1, drv := (drv c)(i \<mapsto> d)\<rparr> in
      bindo (AddInterface_cfg ae sec code None i f c1) (\<lambda>(r, _, f', c2).
        if r = 0 then Inr (i, f', c2)
        else Inr (i, f', c2\<lparr>drv := (drv c2)(i \<mapsto> SetError (- 1) d)\<rparr>)))"

section \<open>Lookup\<close>

text \<open>A remote driver made for an unknown address gets a new device; the search is then repeated.\<close>

definition GetDevice :: "devaddr \<Rightarrow> bool \<Rightarrow> ('s, 'e) core \<Rightarrow> (nat option \<times> ('s, 'e) core) outcome" where
  "GetDevice a lookup_remote c =
     (if interf a = 0 then Inr (None, c)
      else
        case find_device a (devices c) of
          Some k \<Rightarrow> Inr (Some k, c)
        | None \<Rightarrow>
            if lookup_remote then
              (case remote_driver_fn c of
                 None \<Rightarrow> Inr (None, c)
               | Some rdf \<Rightarrow>
                   (case rdf a of
                      None \<Rightarrow> Inr (None, c)
                    | Some rdriver \<Rightarrow>
                        (let i = next_did c; c1 = c\<lparr>next_did := i + 1, drv := (drv c)(i \<mapsto> rdriver)\<rparr> in
                         bindo (AddDevice a i c1) (\<lambda>(v, c2).
                           case v of
                             None \<Rightarrow> Inr (None, c2\<lparr>drv := (drv c2)(i := None)\<rparr>)
                           | Some _ \<Rightarrow>
                               (case find_device a (devices c2) of
                                  None \<Rightarrow> Inl AssertFailed
                                | Some k \<Rightarrow>
                                    Inr (Some k, c2\<lparr>devices := (devices c2)[k := (devices c2 ! k)\<lparr>drivername := ''remote''\<rparr>]\<rparr>))))))
            else Inr (None, c))"

text \<open>\<open>strrchr(s, ':')\<close>: the parts before and after the last colon.\<close>

definition last_colon :: "string \<Rightarrow> (string \<times> string) option" where
  "last_colon s =
     (if COLON \<in> set s then
        Some (rev (tl (dropWhile (\<lambda>c. c \<noteq> COLON) (rev s))), rev (takeWhile (\<lambda>c. c \<noteq> COLON) (rev s)))
      else None)"

definition str_to_interf :: "addr_env \<Rightarrow> string \<Rightarrow> u16" where
  "str_to_interf ae name = (case lookup_interface ae name of Some code \<Rightarrow> code | None \<Rightarrow> 0xFFFF)"

text \<open>A host name that cannot be resolved leaves the host of the address 0.\<close>

definition host_part :: "addr_env \<Rightarrow> string \<Rightarrow> u32" where
  "host_part ae name = (case hostname_to_packedaddr ae name of Some h \<Rightarrow> h | None \<Rightarrow> 0)"

definition str_host :: "addr_env \<Rightarrow> string \<Rightarrow> u32" where
  "str_host ae s =
     (case last_colon s of
        None \<Rightarrow> if s \<noteq> [] then host_part ae s else 0
      | Some (_, h) \<Rightarrow> host_part ae h)"

definition str_robot :: "string \<Rightarrow> (u32 \<times> string) outcome" where
  "str_robot s =
     (case last_colon s of
        None \<Rightarrow> if s \<noteq> [] then bindo (atoi s) (\<lambda>r. Inr (word_of_int r, [])) else Inr (0, [])
      | Some (s', r) \<Rightarrow> bindo (atoi r) (\<lambda>n. Inr (word_of_int n, s')))"

definition parse_str_addr :: "addr_env \<Rightarrow> string \<Rightarrow> devaddr option outcome" where
  "parse_str_addr ae s =
     (case last_colon s of
        None \<Rightarrow> Inr None
      | Some (s1, ix) \<Rightarrow>
          bindo (atoi ix) (\<lambda>index.
            case last_colon s1 of
              None \<Rightarrow>
                if s1 = [] then Inr None
                else Inr (Some \<lparr>host = 0, robot = 0, interf = str_to_interf ae s1, idx = word_of_int index\<rparr>)
            | Some (s2, i) \<Rightarrow>
                bindo (str_robot s2) (\<lambda>(r, s3).
                  Inr (Some \<lparr>host = str_host ae s3, robot = r, interf = str_to_interf ae i, idx = word_of_int index\<rparr>))))"

definition GetDevice_str :: "addr_env \<Rightarrow> string \<Rightarrow> bool \<Rightarrow> ('s, 'e) core \<Rightarrow> (nat option \<times> ('s, 'e) core) outcome" where
  "GetDevice_str ae s lookup_remote c =
     bindo (parse_str_addr ae s) (\<lambda>a. case a of None \<Rightarrow> Inr (None, c) | Some a \<Rightarrow> GetDevice a lookup_remote c)"

section \<open>Subscription by position, and drivers that are always on\<close>

definition on_device ::
    "(device \<Rightarrow> ('s, 'e) driver option \<Rightarrow> int \<times> device \<times> ('s, 'e) driver option) \<Rightarrow> nat \<Rightarrow> ('s, 'e) core
     \<Rightarrow> (int \<times> ('s, 'e) core) outcome" where
  "on_device f k c =
     (let v = devices c ! k in
      case dv_driver v of
        None \<Rightarrow> (let (r, v', _) = f v None in Inr (r, c\<lparr>devices := (devices c)[k := v']\<rparr>))
      | Some i \<Rightarrow>
          (case drv c i of
             None \<Rightarrow> Inl UseAfterFree
           | Some d \<Rightarrow>
               (let (r, v', dr) = f v (Some d)
                in Inr (r, c\<lparr>devices := (devices c)[k := v'], drv := (drv c)(i := dr)\<rparr>))))"

definition Subscribe_at :: "qptr \<Rightarrow> nat \<Rightarrow> ('s, 'e) core \<Rightarrow> (int \<times> ('s, 'e) core) outcome" where
  "Subscribe_at q k c = on_device (Device_Subscribe q) k c"

definition Unsubscribe_at :: "qptr \<Rightarrow> nat \<Rightarrow> ('s, 'e) core \<Rightarrow> (int \<times> ('s, 'e) core) outcome" where
  "Unsubscribe_at q k c = on_device (Device_Unsubscribe q) k c"

text \<open>The driver of a device of the table; the code follows the pointer without a check.\<close>

definition driver_at :: "nat \<Rightarrow> ('s, 'e) core \<Rightarrow> ('s, 'e) driver outcome" where
  "driver_at k c =
     (case dv_driver (devices c ! k) of
        None \<Rightarrow> Inl NullDeref
      | Some i \<Rightarrow> (case drv c i of None \<Rightarrow> Inl UseAfterFree | Some d \<Rightarrow> Inr d))"

text \<open>The walk over the devices, which ends with -1 at the first failure.\<close>

fun alwayson_loop ::
    "(nat \<Rightarrow> ('s, 'e) core \<Rightarrow> (int \<times> ('s, 'e) core) outcome) \<Rightarrow> nat list \<Rightarrow> ('s, 'e) core \<Rightarrow> (int \<times> ('s, 'e) core) outcome" where
  "alwayson_loop f [] c = Inr (0, c)"
| "alwayson_loop f (k # ks) c =
     bindo (driver_at k c) (\<lambda>d.
       if alwayson d then bindo (f k c) (\<lambda>(r, c'). if r \<noteq> 0 then Inr (- 1, c') else alwayson_loop f ks c')
       else alwayson_loop f ks c)"

definition StartAlwaysonDrivers :: "('s, 'e) core \<Rightarrow> (int \<times> ('s, 'e) core) outcome" where
  "StartAlwaysonDrivers c = alwayson_loop (Subscribe_at None) [0..<length (devices c)] c"

definition StopAlwaysonDrivers :: "('s, 'e) core \<Rightarrow> (int \<times> ('s, 'e) core) outcome" where
  "StopAlwaysonDrivers c = alwayson_loop (Unsubscribe_at None) [0..<length (devices c)] c"

text \<open>The destructor terminates the driver of every device before it deletes the devices.\<close>

fun terminate_loop :: "nat list \<Rightarrow> ('s, 'e) core \<Rightarrow> ('s, 'e) core outcome" where
  "terminate_loop [] c = Inr c"
| "terminate_loop (k # ks) c =
     (case dv_driver (devices c ! k) of
        None \<Rightarrow> Inl NullDeref
      | Some i \<Rightarrow>
          (case drv c i of
             None \<Rightarrow> Inl UseAfterFree
           | Some d \<Rightarrow> terminate_loop ks (c\<lparr>drv := (drv c)(i \<mapsto> Terminate d)\<rparr>)))"

definition DeviceTable_destroy :: "('s, 'e) core \<Rightarrow> ('s, 'e) core outcome" where
  "DeviceTable_destroy c =
     bindo (terminate_loop [0..<length (devices c)] c) (\<lambda>c'.
       Inr (c'\<lparr>devices := [], numdevices := numdevices c' - length (devices c')\<rparr>))"

section \<open>The table as a store\<close>

text \<open>No two devices have the same address, every device has a driver in the store, and driver numbers are not reused.\<close>

definition core_ok :: "('s, 'e) core \<Rightarrow> bool" where
  "core_ok c \<longleftrightarrow>
     numdevices c = length (devices c) \<and>
     sorted_wrt (\<lambda>v w. \<not> MatchDeviceAddress (dv_addr v) (dv_addr w)) (devices c) \<and>
     (\<forall>v \<in> set (devices c). device_ok v \<and> dv_driver v \<noteq> None \<and> drv c (the (dv_driver v)) \<noteq> None) \<and>
     (\<forall>i. next_did c \<le> i \<longrightarrow> drv c i = None)"

definition driver_of :: "('s, 'e) core \<Rightarrow> devaddr \<Rightarrow> did option" where
  "driver_of c a = map_option (\<lambda>k. the (dv_driver (devices c ! k))) (find_device a (devices c))"

definition add_device :: "devaddr \<Rightarrow> did \<Rightarrow> ('s, 'e) core \<Rightarrow> ('s, 'e) core" where
  "add_device a i c = (case AddDevice a i c of Inr (_, c') \<Rightarrow> c' | Inl _ \<Rightarrow> c)"

lemma find_device_same: "MatchDeviceAddress a b \<Longrightarrow> find_device a vs = find_device b vs"
proof -
  assume "MatchDeviceAddress a b"
  then have "MatchDeviceAddress x a = MatchDeviceAddress x b" for x
    by (metis MatchDeviceAddress_sym MatchDeviceAddress_trans)
  then show ?thesis by (simp add: find_device_def)
qed

lemma find_device_Some:
  "find_device a vs = Some k \<Longrightarrow> k < length vs \<and> MatchDeviceAddress (dv_addr (vs ! k)) a"
  unfolding find_device_def by (drule find_index_bound) simp

lemma find_device_unique:
  assumes "core_ok c" "k < length (devices c)" "MatchDeviceAddress (dv_addr (devices c ! k)) a"
  shows "find_device a (devices c) = Some k"
proof -
  have "\<not> MatchDeviceAddress (dv_addr (devices c ! j)) a" if "j < k" for j
  proof
    assume "MatchDeviceAddress (dv_addr (devices c ! j)) a"
    with assms(3) have "MatchDeviceAddress (dv_addr (devices c ! j)) (dv_addr (devices c ! k))"
      by (metis MatchDeviceAddress_sym MatchDeviceAddress_trans)
    with assms(1,2) that show False by (auto simp: core_ok_def sorted_wrt_iff_nth_less)
  qed
  with assms(2,3) show ?thesis by (simp add: find_device_def find_index_Some)
qed

lemma AddDevice_fresh:
  "find_device a (devices c) = None \<Longrightarrow> drv c i = Some d \<Longrightarrow>
   AddDevice a i c = Inr (Some (length (devices c)),
     c\<lparr>devices := devices c @ [\<lparr>dv_addr = a, dv_driver = Some i, drivername = [], dv_InQueue = InQueue d, queues = [None, None]\<rparr>],
       drv := (drv c)(i \<mapsto> d\<lparr>device_addr := a\<rparr>), numdevices := numdevices c + 1\<rparr>)"
  by (simp add: AddDevice_def Device_new_def)

lemma AddDevice_ok:
  assumes "core_ok c" "AddDevice a i c = Inr (r, c')"
  shows "core_ok c' \<and> (\<forall>j. drv c j \<noteq> None \<longrightarrow> drv c' j \<noteq> None) \<and> next_did c' = next_did c \<and>
    find_device a (devices c') \<noteq> None"
proof (cases "find_device a (devices c)")
  case (Some k)
  with assms show ?thesis by (auto simp: AddDevice_def)
next
  case None
  with assms(2) obtain d where d: "drv c i = Some d" by (auto simp: AddDevice_def split: option.splits)
  have new: "\<forall>v \<in> set (devices c). \<not> MatchDeviceAddress (dv_addr v) a"
    using None by (simp add: find_device_def find_index_None)
  from d assms(1) have "i < next_did c" by (metis core_ok_def not_le_imp_less option.distinct(1))
  with assms(1) d new assms(2) AddDevice_fresh [OF None d] show ?thesis
    by (auto simp: core_ok_def sorted_wrt_append device_ok_def find_device_def find_index_append split: option.split)
qed

interpretation table: registering_store core_ok "\<lambda>c i. drv c i \<noteq> None" MatchDeviceAddress driver_of add_device
proof
  fix c :: "('s, 'e) core" and a i b j
  assume c: "core_ok c"
  show "driver_of c a = driver_of c b" if "MatchDeviceAddress a b"
    using find_device_same [OF that] by (simp add: driver_of_def)
  assume "drv c i \<noteq> None"
  then obtain d where d: "drv c i = Some d" by blast
  have keep: "core_ok c' \<and> (\<forall>j. drv c j \<noteq> None \<longrightarrow> drv c' j \<noteq> None)" if "AddDevice a i c = Inr (r, c')" for r c'
    using AddDevice_ok [OF c that] by blast
  with c show "core_ok (add_device a i c)" by (auto simp: add_device_def split: sum.split)
  from keep show "drv (add_device a i c) j \<noteq> None" if "drv c j \<noteq> None"
    using that by (auto simp: add_device_def split: sum.split)
  show "driver_of (add_device a i c) b = (if driver_of c a = None \<and> MatchDeviceAddress a b then Some i else driver_of c b)"
  proof (cases "find_device a (devices c)")
    case (Some k)
    then show ?thesis by (simp add: add_device_def AddDevice_def driver_of_def)
  next
    case None
    have old: "find_device b (devices c) = None" if "MatchDeviceAddress a b"
      using None find_device_same [OF that] by simp
    have "find_device b (devices (add_device a i c)) =
        (case find_device b (devices c) of Some k \<Rightarrow> Some k
         | None \<Rightarrow> if MatchDeviceAddress a b then Some (length (devices c)) else None)"
      using AddDevice_fresh [OF None d] by (auto simp: add_device_def find_device_def find_index_append split: option.split)
    moreover have "devices (add_device a i c) ! k = devices c ! k" if "find_device b (devices c) = Some k" for k
      using AddDevice_fresh [OF None d] find_device_Some [OF that] by (simp add: add_device_def nth_append)
    moreover have "the (dv_driver (devices (add_device a i c) ! length (devices c))) = i"
      using AddDevice_fresh [OF None d] by (simp add: add_device_def)
    ultimately show ?thesis
      using None old by (auto simp: driver_of_def split: option.splits)
  qed
qed

text \<open>C22: The device table is a map from addresses to drivers in which the first registration of an address counts and
  addresses are compared by \<open>MatchDeviceAddress\<close>.  After any sequence of \<open>AddDevice\<close> calls, \<open>GetDevice\<close> finds a device for
  exactly the addresses that match one in the table or one added, at the only position whose address matches; the
  driver behind it is the one registered first; and the number of devices is the length of the table.\<close>

theorem GetDevice_after_AddDevices:
  assumes "core_ok c" and "list_all (\<lambda>r. drv c (snd r) \<noteq> None) rs" and "interf a \<noteq> 0"
  shows "let c' = fold (\<lambda>r. add_device (fst r) (snd r)) rs c;
      want = (case driver_of c a of Some i \<Rightarrow> Some i | None \<Rightarrow> map_option snd (find (\<lambda>r. MatchDeviceAddress (fst r) a) rs)) in
    core_ok c' \<and> numdevices c' = length (devices c') \<and>
    (\<exists>found. GetDevice a False c' = Inr (found, c') \<and> map_option (\<lambda>k. the (dv_driver (devices c' ! k))) found = want \<and>
       (\<forall>k < length (devices c'). found = Some k \<longleftrightarrow> MatchDeviceAddress (dv_addr (devices c' ! k)) a))"
proof -
  let ?c = "fold (\<lambda>r. add_device (fst r) (snd r)) rs c"
  have ok: "core_ok ?c" by (rule table.adds_inv [OF assms(1,2)])
  have "map_option (\<lambda>k. the (dv_driver (devices ?c ! k))) (find_device a (devices ?c)) =
      (case driver_of c a of Some i \<Rightarrow> Some i | None \<Rightarrow> map_option snd (find (\<lambda>r. MatchDeviceAddress (fst r) a) rs))"
    using table.adds_get [OF assms(1,2), of a] by (simp add: driver_of_def)
  moreover have "GetDevice a False ?c = Inr (find_device a (devices ?c), ?c)"
    using assms(3) by (simp add: GetDevice_def split: option.split)
  moreover have "find_device a (devices ?c) = Some k \<longleftrightarrow> MatchDeviceAddress (dv_addr (devices ?c ! k)) a"
    if "k < length (devices ?c)" for k
    using find_device_unique [OF ok that] find_device_Some by blast
  ultimately show ?thesis using ok by (auto simp: Let_def core_ok_def)
qed

definition driver0 :: "(unit, unit) driver" where
  "driver0 = Driver_new default_methods () 0"

definition core1 :: "(unit, unit) core" where
  "core1 = DeviceTable_new\<lparr>drv := [0 \<mapsto> driver0, 1 \<mapsto> driver0], next_did := 2\<rparr>"

lemma core1_ok: "core_ok core1"
  by (simp add: core_ok_def core1_def DeviceTable_new_def)

abbreviation laser_at :: "u32 \<Rightarrow> devaddr" where
  "laser_at h \<equiv> \<lparr>host = h, robot = 6665, interf = 6, idx = 0\<rparr>"

theorem GetDevice_after_AddDevices_witness:
  "\<exists>k c'. GetDevice (laser_at 0) False (add_device (laser_at 0) 1 (add_device (laser_at LOCALHOST_ADDR) 0 core1)) = Inr (Some k, c') \<and>
     dv_driver (devices c' ! k) = Some 0"
proof -
  let ?rs = "[(laser_at LOCALHOST_ADDR, 0), (laser_at 0, 1)]"
  let ?c = "fold (\<lambda>r. add_device (fst r) (snd r)) ?rs core1"
  have v: "list_all (\<lambda>r. drv core1 (snd r) \<noteq> None) ?rs" by (simp add: core1_def)
  have none: "driver_of core1 (laser_at 0) = None" by (simp add: driver_of_def find_device_def core1_def DeviceTable_new_def)
  have m: "MatchDeviceAddress (laser_at LOCALHOST_ADDR) (laser_at 0)" by (simp add: MatchDeviceAddress_def)
  obtain found where f: "GetDevice (laser_at 0) False ?c = Inr (found, ?c)" "core_ok ?c"
    "map_option (\<lambda>k. the (dv_driver (devices ?c ! k))) found = Some 0"
    "\<forall>k < length (devices ?c). found = Some k \<longleftrightarrow> MatchDeviceAddress (dv_addr (devices ?c ! k)) (laser_at 0)"
    using GetDevice_after_AddDevices [OF core1_ok v, of "laser_at 0"] none m by (auto simp: Let_def)
  then obtain k where k: "found = Some k" by auto
  with f(1) have "find_device (laser_at 0) (devices ?c) = Some k" by (simp add: GetDevice_def split: option.splits)
  from find_device_Some [OF this] f(2) have "dv_driver (devices ?c ! k) \<noteq> None" by (simp add: core_ok_def)
  with f(1,3) k show ?thesis by auto
qed

section \<open>Addresses as strings\<close>

lemma last_colon_join:
  "fs \<noteq> [] \<Longrightarrow> COLON \<notin> set f \<Longrightarrow> last_colon (join_colon (fs @ [f])) = Some (join_colon fs, f)"
proof -
  assume fs: "fs \<noteq> []" and f: "COLON \<notin> set f"
  have r: "\<forall>c \<in> set (rev f). c \<noteq> COLON" using f by auto
  have "dropWhile (\<lambda>c. c \<noteq> COLON) (rev f @ COLON # rev (join_colon fs)) = COLON # rev (join_colon fs)"
    "takeWhile (\<lambda>c. c \<noteq> COLON) (rev f @ COLON # rev (join_colon fs)) = rev f"
    by (rule scan_append [OF r], simp)+
  then show ?thesis by (simp add: last_colon_def join_colon_snoc [OF fs])
qed

lemma last_colon_join2: "COLON \<notin> set b \<Longrightarrow> last_colon (join_colon [a, b]) = Some (a, b)"
  using last_colon_join [of "[a]" b] by simp

lemma last_colon_join3: "COLON \<notin> set c \<Longrightarrow> last_colon (join_colon [a, b, c]) = Some (join_colon [a, b], c)"
  using last_colon_join [of "[a, b]" c] by simp

lemma last_colon_join4: "COLON \<notin> set d \<Longrightarrow> last_colon (join_colon [a, b, c, d]) = Some (join_colon [a, b, c], d)"
  using last_colon_join [of "[a, b, c]" d] by simp

lemma last_colon_single: "COLON \<notin> set s \<Longrightarrow> last_colon s = None"
  by (simp add: last_colon_def)

lemma atoi_Inl: "atoi s = Inl e \<Longrightarrow> e = IntOverflow"
  by (simp add: atoi_def split: if_splits)

text \<open>A field that both parsers read as a host: empty, or a name that is no number and can be resolved.\<close>

definition host_field :: "addr_env \<Rightarrow> string \<Rightarrow> bool" where
  "host_field ae h \<longleftrightarrow> h = [] \<or> \<not> list_all c_isdigit h \<and> hostname_to_packedaddr ae h \<noteq> None"

text \<open>The fields of an address from the right: index, interface, robot, host.\<close>

definition addr_fields :: "addr_env \<Rightarrow> string list \<Rightarrow> bool" where
  "addr_fields ae fs \<longleftrightarrow>
     2 \<le> length fs \<and> length fs \<le> 4 \<and> (\<forall>f \<in> set fs. COLON \<notin> set f) \<and>
     fs ! (length fs - 2) \<noteq> [] \<and> lookup_interface ae (fs ! (length fs - 2)) \<noteq> None \<and>
     (length fs = 4 \<longrightarrow> host_field ae (hd fs))"

text \<open>C36: The two parsers of device addresses agree.  Take a text of two to four fields without colons in them: a known interface,
  an index, possibly a robot before them, and possibly before that a host that is empty or a name, not a number, that can
  be resolved.  The string form of \<open>GetDevice\<close> reads from it the same address as the reader of configuration files reads
  from an entry without a key when its default host and robot are 0, or both reject a number that does not fit.\<close>

theorem parse_str_addr_agrees:
  assumes "addr_fields ae fs"
  shows "parse_str_addr ae (join_colon fs) =
    bindr (entry_addr ae 0 0 (addr_tokens (join_colon fs))) (\<lambda>ka. Inr (Some (snd ka)))"
proof -
  have ne: "fs \<noteq> []" "length fs \<le> 5" using assms by (auto simp: addr_fields_def)
  have t: "addr_tokens (join_colon fs) = replicate (5 - length fs) None @ map Some fs"
    using addr_tokens_join [OF ne] assms by (simp add: addr_fields_def)
  have at0: "atoi [] = Inr 0" by (simp add: atoi_def atoi_value_def int_range_def)
  from assms consider (2) i x where "fs = [i, x]" | (3) r i x where "fs = [r, i, x]" | (4) h r i x where "fs = [h, r, i, x]"
    unfolding addr_fields_def
    by (cases fs; cases "tl fs"; cases "tl (tl fs)"; cases "tl (tl (tl fs))"; cases "tl (tl (tl (tl fs)))") auto
  then show ?thesis
  proof cases
    case 2
    with assms have "COLON \<notin> set i" "COLON \<notin> set x" "i \<noteq> []" "lookup_interface ae i \<noteq> None" by (auto simp: addr_fields_def)
    with t 2 show ?thesis
      by (cases "atoi x")
         (auto simp: parse_str_addr_def last_colon_join2 last_colon_single entry_addr_def addr_host_def addr_robot_def nonempty_def
           str_to_interf_def eval_nat_numeral simp del: join_colon.simps)
  next
    case 3
    with assms have *: "COLON \<notin> set r" "COLON \<notin> set i" "COLON \<notin> set x" "i \<noteq> []" "lookup_interface ae i \<noteq> None"
      by (auto simp: addr_fields_def)
    with t 3 show ?thesis
      by (cases "atoi x"; cases "atoi r")
         (auto simp: parse_str_addr_def last_colon_join2 last_colon_join3 last_colon_single entry_addr_def addr_host_def addr_robot_def
           nonempty_def str_to_interf_def str_robot_def str_host_def eval_nat_numeral atoi_def simp del: join_colon.simps split: if_splits)
  next
    case 4
    with assms have *: "COLON \<notin> set h" "COLON \<notin> set r" "COLON \<notin> set i" "COLON \<notin> set x" "i \<noteq> []" "lookup_interface ae i \<noteq> None"
      "host_field ae h" by (auto simp: addr_fields_def)
    with t 4 at0 show ?thesis
      by (cases "atoi x"; cases "atoi r"; cases "r = []"; cases "h = []")
         (auto simp: parse_str_addr_def last_colon_join2 last_colon_join3 last_colon_join4 last_colon_single entry_addr_def addr_host_def
           addr_robot_def nonempty_def str_to_interf_def str_robot_def str_host_def host_part_def host_field_def eval_nat_numeral
           simp del: join_colon.simps dest!: atoi_Inl)
  qed
qed

definition ae0 :: addr_env where
  "ae0 = \<lparr>lookup_interface = (\<lambda>n. if n = ''laser'' then Some 6 else None), hostname_to_packedaddr = (\<lambda>n. Some 16777343)\<rparr>"

theorem parse_str_addr_agrees_witness:
  "parse_str_addr ae0 ''localhost:6665:laser:2'' = Inr (Some \<lparr>host = 16777343, robot = 6665, interf = 6, idx = 2\<rparr>)"
proof -
  let ?fs = "[''localhost'', ''6665'', ''laser'', ''2'']"
  have f: "addr_fields ae0 ?fs" by (simp add: addr_fields_def ae0_def host_field_def c_isdigit_def)
  have t: "addr_tokens (join_colon ?fs) = [None, Some ''localhost'', Some ''6665'', Some ''laser'', Some ''2'']"
    using addr_tokens_join [of ?fs] by simp
  have "parse_str_addr ae0 (join_colon ?fs) = Inr (Some \<lparr>host = 16777343, robot = 6665, interf = 6, idx = 2\<rparr>)"
    unfolding parse_str_addr_agrees [OF f] t
    by (simp add: entry_addr_def addr_host_def addr_robot_def nonempty_def ae0_def c_isdigit_def atoi_def atoi_value_def c_isspace_def
        digit_val_def int_range_def)
  then show ?thesis by simp
qed

section \<open>Starting and stopping the drivers that are always on\<close>

definition bumped :: "int \<Rightarrow> did \<Rightarrow> ('s, 'e) core \<Rightarrow> ('s, 'e) core \<Rightarrow> bool" where
  "bumped n i c c' \<longleftrightarrow>
     map dv_driver (devices c') = map dv_driver (devices c) \<and> (\<forall>j. j \<noteq> i \<longrightarrow> drv c' j = drv c j) \<and>
     (\<exists>d d'. drv c i = Some d \<and> drv c' i = Some d' \<and> subscriptions d' = subscriptions d + n \<and>
        alwayson d' = alwayson d \<and> d_methods d' = d_methods d)"

definition visits :: "nat list \<Rightarrow> ('s, 'e) core \<Rightarrow> did \<Rightarrow> nat" where
  "visits ks c i = length (filter (\<lambda>k. dv_driver (devices c ! k) = Some i) ks)"

text \<open>The drivers after a walk: the count of a driver that is always on has changed by \<open>n\<close> per device visited.\<close>

definition counts_after :: "int \<Rightarrow> nat list \<Rightarrow> ('s, 'e) core \<Rightarrow> ('s, 'e) core \<Rightarrow> bool" where
  "counts_after n ks c c' \<longleftrightarrow>
     map dv_driver (devices c') = map dv_driver (devices c) \<and>
     (\<forall>i. (drv c i = None \<longrightarrow> drv c' i = None) \<and>
        (\<forall>d. drv c i = Some d \<longrightarrow> (\<exists>d'. drv c' i = Some d' \<and> alwayson d' = alwayson d \<and> d_methods d' = d_methods d \<and>
           subscriptions d' = subscriptions d + (if alwayson d then n * int (visits ks c i) else 0))))"

lemma visits_same:
  "map dv_driver (devices c') = map dv_driver (devices c) \<Longrightarrow> set ks \<subseteq> {..<length (devices c)} \<Longrightarrow> visits ks c' i = visits ks c i"
proof -
  assume m: "map dv_driver (devices c') = map dv_driver (devices c)" and ks: "set ks \<subseteq> {..<length (devices c)}"
  have "dv_driver (devices c' ! k) = dv_driver (devices c ! k)" if "k \<in> set ks" for k
    using arg_cong [OF m, of "\<lambda>l. l ! k"] map_eq_imp_length_eq [OF m] that ks by auto
  then show ?thesis unfolding visits_def by (metis (mono_tags, lifting) filter_cong)
qed

lemma counts_after_bumped:
  assumes "bumped n i c c1" "counts_after n ks c1 c2" "dv_driver (devices c ! k) = Some i" "drv c i = Some d" "alwayson d"
    "set ks \<subseteq> {..<length (devices c)}"
  shows "counts_after n (k # ks) c c2"
proof -
  from assms(1) have m: "map dv_driver (devices c1) = map dv_driver (devices c)" by (simp add: bumped_def)
  have v: "visits ks c1 j = visits ks c j" for j by (rule visits_same [OF m assms(6)])
  have vi: "visits (k # ks) c j = visits ks c j + (if j = i then 1 else 0)" for j using assms(3) by (auto simp: visits_def)
  from assms(1,4) obtain d1 where d1: "drv c1 i = Some d1" "subscriptions d1 = subscriptions d + n" "alwayson d1 = alwayson d"
    "d_methods d1 = d_methods d" by (auto simp: bumped_def)
  have o: "drv c1 j = drv c j" if "j \<noteq> i" for j using assms(1) that by (simp add: bumped_def)
  show ?thesis
    unfolding counts_after_def
  proof (intro conjI allI impI)
    show "map dv_driver (devices c2) = map dv_driver (devices c)" using assms(2) m by (simp add: counts_after_def)
    fix j
    show "drv c2 j = None" if "drv c j = None"
      using that assms(2,4) o [of j] by (cases "j = i") (auto simp: counts_after_def)
    fix e assume e: "drv c j = Some e"
    show "\<exists>d'. drv c2 j = Some d' \<and> alwayson d' = alwayson e \<and> d_methods d' = d_methods e \<and>
       subscriptions d' = subscriptions e + (if alwayson e then n * int (visits (k # ks) c j) else 0)"
    proof (cases "j = i")
      case True
      with e assms(4) have "e = d" by simp
      from assms(2) d1(1) obtain d2 where "drv c2 i = Some d2" "alwayson d2 = alwayson d1" "d_methods d2 = d_methods d1"
        "subscriptions d2 = subscriptions d1 + (if alwayson d1 then n * int (visits ks c1 i) else 0)"
        unfolding counts_after_def by blast
      with d1 assms(5) True \<open>e = d\<close> v vi show ?thesis by (simp add: algebra_simps)
    next
      case False
      with o e have "drv c1 j = Some e" by simp
      with assms(2) obtain d2 where "drv c2 j = Some d2" "alwayson d2 = alwayson e" "d_methods d2 = d_methods e"
        "subscriptions d2 = subscriptions e + (if alwayson e then n * int (visits ks c1 j) else 0)"
        unfolding counts_after_def by blast
      with False v vi show ?thesis by simp
    qed
  qed
qed

lemma counts_after_skip:
  assumes "counts_after n ks c c2" "dv_driver (devices c ! k) = Some i" "drv c i = Some d" "\<not> alwayson d"
  shows "counts_after n (k # ks) c c2"
proof -
  have "visits (k # ks) c j = visits ks c j" if "drv c j = Some e" "alwayson e" for j e
    using assms(2-4) that by (auto simp: visits_def)
  note v = this
  show ?thesis
    unfolding counts_after_def
  proof (intro conjI allI impI)
    show "map dv_driver (devices c2) = map dv_driver (devices c)" using assms(1) by (simp add: counts_after_def)
    fix j
    show "drv c2 j = None" if "drv c j = None" using that assms(1) by (simp add: counts_after_def)
    fix e assume e: "drv c j = Some e"
    with assms(1) obtain d2 where "drv c2 j = Some d2" "alwayson d2 = alwayson e" "d_methods d2 = d_methods e"
      "subscriptions d2 = subscriptions e + (if alwayson e then n * int (visits ks c j) else 0)"
      unfolding counts_after_def by blast
    with v [OF e] show "\<exists>d'. drv c2 j = Some d' \<and> alwayson d' = alwayson e \<and> d_methods d' = d_methods e \<and>
       subscriptions d' = subscriptions e + (if alwayson e then n * int (visits (k # ks) c j) else 0)" by auto
  qed
qed

lemma driver_at_Inr: "dv_driver (devices c ! k) = Some i \<Longrightarrow> drv c i = Some d \<Longrightarrow> driver_at k c = Inr d"
  by (simp add: driver_at_def)

lemma alwayson_loop_counts:
  assumes step: "\<And>c k ks i d. P (k # ks) c \<Longrightarrow> k < length (devices c) \<Longrightarrow> dv_driver (devices c ! k) = Some i \<Longrightarrow>
      drv c i = Some d \<Longrightarrow> alwayson d \<Longrightarrow> \<exists>c'. f k c = Inr (0, c') \<and> P ks c' \<and> bumped n i c c'"
    and skip: "\<And>c k ks i d. P (k # ks) c \<Longrightarrow> dv_driver (devices c ! k) = Some i \<Longrightarrow> drv c i = Some d \<Longrightarrow> \<not> alwayson d \<Longrightarrow> P ks c"
    and ok: "\<And>ks c. P ks c \<Longrightarrow> core_ok c"
  shows "P ks c \<Longrightarrow> set ks \<subseteq> {..<length (devices c)} \<Longrightarrow>
    \<exists>c'. alwayson_loop f ks c = Inr (0, c') \<and> P [] c' \<and> counts_after n ks c c'"
proof (induction ks arbitrary: c)
  case Nil
  then show ?case by (auto simp: counts_after_def visits_def)
next
  case (Cons k ks)
  then have k: "k < length (devices c)" "devices c ! k \<in> set (devices c)" by simp_all
  from ok [OF Cons.prems(1)] k(2) obtain i d where i: "dv_driver (devices c ! k) = Some i" and d: "drv c i = Some d"
    by (fastforce simp: core_ok_def)
  show ?case
  proof (cases "alwayson d")
    case True
    from step [OF Cons.prems(1) k(1) i d True] obtain c1 where c1: "f k c = Inr (0, c1)" "P ks c1" "bumped n i c c1" by blast
    then have "length (devices c1) = length (devices c)" by (auto simp: bumped_def dest: map_eq_imp_length_eq)
    with Cons.IH [OF c1(2)] Cons.prems(2) obtain c2 where "alwayson_loop f ks c1 = Inr (0, c2)" "P [] c2" "counts_after n ks c1 c2"
      by auto
    with c1 True driver_at_Inr [OF i d] counts_after_bumped [OF c1(3) _ i d True] Cons.prems(2) show ?thesis by auto
  next
    case False
    from Cons.IH [OF skip [OF Cons.prems(1) i d False]] Cons.prems(2) obtain c2 where
      "alwayson_loop f ks c = Inr (0, c2)" "P [] c2" "counts_after n ks c c2" by auto
    with False driver_at_Inr [OF i d] counts_after_skip [OF _ i d False] show ?thesis by auto
  qed
qed

lemma core_ok_update:
  assumes "core_ok c" "k < length (devices c)" "dv_addr v = dv_addr (devices c ! k)" "dv_driver v = dv_driver (devices c ! k)"
    "device_ok v" "drv c i \<noteq> None"
  shows "core_ok (c\<lparr>devices := (devices c)[k := v], drv := (drv c)(i \<mapsto> d)\<rparr>)"
proof -
  let ?vs = "(devices c)[k := v]"
  have "map dv_addr ?vs = map dv_addr (devices c)"
    using assms(2,3) by (simp add: map_update_same)
  then have srt: "sorted_wrt (\<lambda>v w. \<not> MatchDeviceAddress (dv_addr v) (dv_addr w)) ?vs"
    using assms(1) unfolding core_ok_def sorted_wrt_map [of "\<lambda>a b. \<not> MatchDeviceAddress a b" dv_addr, symmetric] by simp
  have i: "i < next_did c" using assms(1,6) by (metis core_ok_def not_le_imp_less)
  have old: "device_ok w" "dv_driver w \<noteq> None" "drv c (the (dv_driver w)) \<noteq> None" if "w \<in> set (devices c)" for w
    using assms(1) that by (simp_all add: core_ok_def)
  have new: "device_ok w \<and> dv_driver w \<noteq> None \<and> drv c (the (dv_driver w)) \<noteq> None" if "w \<in> set ?vs" for w
  proof -
    from that consider "w = v" | "w \<in> set (devices c)" using set_update_subset_insert by fastforce
    then show ?thesis
    proof cases
      case 1
      with assms(4,5) old(2,3) [OF nth_mem [OF assms(2)]] show ?thesis by simp
    qed (use old in blast)
  qed
  show ?thesis
    unfolding core_ok_def
  proof (intro conjI ballI allI impI)
    fix w assume "w \<in> set (devices (c\<lparr>devices := ?vs, drv := (drv c)(i \<mapsto> d)\<rparr>))"
    with new [of w] show "device_ok w" "dv_driver w \<noteq> None" "drv (c\<lparr>devices := ?vs, drv := (drv c)(i \<mapsto> d)\<rparr>) (the (dv_driver w)) \<noteq> None"
      by simp_all
  qed (use assms(1) srt i in \<open>simp_all add: core_ok_def\<close>)
qed

definition setup_succeeds :: "('s, 'e) methods \<Rightarrow> bool" where
  "setup_succeeds ms \<longleftrightarrow> (\<forall>s. fst (m_Setup ms s) = 0)"

text \<open>The requirements on the drivers that are always on.\<close>

definition startable :: "('s, 'e) core \<Rightarrow> bool" where
  "startable c \<longleftrightarrow> (\<forall>i d. drv c i = Some d \<longrightarrow> alwayson d \<longrightarrow>
     base_subscription (d_methods d) \<and> setup_succeeds (d_methods d) \<and> shutdown_succeeds (d_methods d) \<and> 0 \<le> subscriptions d)"

definition device_alwayson :: "('s, 'e) core \<Rightarrow> nat \<Rightarrow> bool" where
  "device_alwayson c k \<longleftrightarrow> (\<exists>i. dv_driver (devices c ! k) = Some i \<and> (\<exists>d. drv c i = Some d \<and> alwayson d))"

definition has_spot :: "('s, 'e) core \<Rightarrow> nat \<Rightarrow> bool" where
  "has_spot c k \<longleftrightarrow> None \<in> set (queues (devices c ! k))"

lemma startable_bumped:
  assumes "startable c" "bumped n i c c'" "\<And>d. drv c i = Some d \<Longrightarrow> alwayson d \<Longrightarrow> 0 \<le> subscriptions d + n"
  shows "startable c'"
  unfolding startable_def
proof (intro allI impI)
  fix j e assume e: "drv c' j = Some e" "alwayson e"
  show "base_subscription (d_methods e) \<and> setup_succeeds (d_methods e) \<and> shutdown_succeeds (d_methods e) \<and> 0 \<le> subscriptions e"
  proof (cases "j = i")
    case True
    with assms(2) e obtain d where "drv c i = Some d" "subscriptions e = subscriptions d + n" "alwayson e = alwayson d"
      "d_methods e = d_methods d" by (auto simp: bumped_def)
    with assms(1,3) e(2) show ?thesis by (simp add: startable_def)
  next
    case False
    with assms(2) e have "drv c j = Some e" by (simp add: bumped_def)
    with assms(1) e(2) show ?thesis by (simp add: startable_def)
  qed
qed

lemma bumped_alwayson:
  assumes "bumped n i c c'" "k < length (devices c)"
  shows "device_alwayson c' k \<longleftrightarrow> device_alwayson c k"
proof -
  from assms(1) have m: "map dv_driver (devices c') = map dv_driver (devices c)" by (simp add: bumped_def)
  then have "map dv_driver (devices c') ! k = map dv_driver (devices c) ! k" by (simp only:)
  with map_eq_imp_length_eq [OF m] assms(2) have dd: "dv_driver (devices c' ! k) = dv_driver (devices c ! k)" by simp
  have aw: "(\<exists>d. drv c' j = Some d \<and> alwayson d) \<longleftrightarrow> (\<exists>d. drv c j = Some d \<and> alwayson d)" for j
    using assms(1) by (cases "j = i") (auto simp: bumped_def)
  show ?thesis unfolding device_alwayson_def dd aw ..
qed

lemma make_room_spot: "qs \<noteq> [] \<Longrightarrow> None \<in> set ((make_room qs)[empty_spot qs := None])"
  by (metis empty_spot_room set_update_memI)

lemma Subscribe_at_None:
  assumes c: "core_ok c" "startable c" and k: "k < length (devices c)" and i: "dv_driver (devices c ! k) = Some i"
    and d: "drv c i = Some d" "alwayson d"
  shows "\<exists>c'. Subscribe_at None k c = Inr (0, c') \<and> core_ok c' \<and> startable c' \<and> bumped 1 i c c' \<and> has_spot c' k \<and>
    (\<forall>j. j \<noteq> k \<longrightarrow> devices c' ! j = devices c ! j)"
proof -
  let ?v = "devices c ! k"
  let ?w = "?v\<lparr>queues := (make_room (queues ?v))[empty_spot (queues ?v) := None]\<rparr>"
  have dev: "device_ok ?v" using c(1) k by (simp add: core_ok_def)
  then have ne: "queues ?v \<noteq> []" by (auto simp: device_ok_def)
  from c(2) d have r: "base_subscription (d_methods d)" "setup_succeeds (d_methods d)" "0 \<le> subscriptions d" by (auto simp: startable_def)
  have sq: "Subscribe_queue None (dv_addr ?v) d = (1, d)" using r(1) by (simp add: Subscribe_queue_def base_subscription_def)
  have "fst (m_Setup (d_methods d) (priv d)) = 0" using r(2) by (simp add: setup_succeeds_def)
  then obtain d' where d': "Driver_Subscribe d = (0, d')" "subscriptions d' = subscriptions d + 1" "alwayson d' = alwayson d"
    "d_methods d' = d_methods d"
    by (cases "m_Setup (d_methods d) (priv d)"; cases "subscriptions d = 0") (auto simp: Driver_Subscribe_def Setup_def)
  let ?c = "c\<lparr>devices := (devices c)[k := ?w], drv := (drv c)(i \<mapsto> d')\<rparr>"
  have run: "Subscribe_at None k c = Inr (0, ?c)"
    by (simp add: Subscribe_at_def on_device_def i d(1) Device_Subscribe_def sq d'(1) Let_def)
  have ok: "core_ok ?c"
    using subscribers_add(2) [OF dev, of None] d(1) by (intro core_ok_update [OF c(1) k]) simp_all
  have b: "bumped 1 i c ?c" using d' d(1) k by (auto simp: bumped_def map_update_same)
  have "startable ?c" by (rule startable_bumped [OF c(2) b]) (use r(3) d(1) in auto)
  moreover have "has_spot ?c k" using make_room_spot [OF ne] k by (simp add: has_spot_def)
  ultimately show ?thesis using run ok b by auto
qed

lemma Unsubscribe_at_None:
  assumes c: "core_ok c" "startable c" and k: "k < length (devices c)" and i: "dv_driver (devices c ! k) = Some i"
    and d: "drv c i = Some d" "alwayson d" "1 \<le> subscriptions d" and spot: "has_spot c k"
  shows "\<exists>c'. Unsubscribe_at None k c = Inr (0, c') \<and> core_ok c' \<and> startable c' \<and> bumped (- 1) i c c' \<and> devices c' = devices c"
proof -
  let ?v = "devices c ! k"
  have dev: "device_ok ?v" using c(1) k by (simp add: core_ok_def)
  from c(2) d have r: "base_subscription (d_methods d)" "shutdown_succeeds (d_methods d)" by (auto simp: startable_def)
  have uq: "Unsubscribe_queue None (dv_addr ?v) d = (1, d)" using r(1) by (simp add: Unsubscribe_queue_def base_subscription_def)
  have "fst (m_Shutdown (d_methods d) (priv d)) = 0" using r(2) by (simp add: shutdown_succeeds_def)
  then obtain d' where d': "Driver_Unsubscribe d = (0, d')" "subscriptions d' = subscriptions d - 1" "alwayson d' = alwayson d"
    "d_methods d' = d_methods d"
    using d(3) by (cases "m_Shutdown (d_methods d) (priv d)"; cases "subscriptions d = 1") (auto simp: Driver_Unsubscribe_def Shutdown_def)
  from spot obtain j where j: "find_index (\<lambda>q. q = None) (queues ?v) = Some j"
    using find_index_None [of "\<lambda>q. q = None" "queues ?v"] by (auto simp: has_spot_def)
  from find_index_bound [OF j] have "remove_queue None ?v = (0, ?v)" using j by (simp add: remove_queue_def list_update_same_conv)
  then have run: "Unsubscribe_at None k c = Inr (0, c\<lparr>devices := (devices c)[k := ?v], drv := (drv c)(i \<mapsto> d')\<rparr>)"
    by (simp add: Unsubscribe_at_def on_device_def i d(1) Device_Unsubscribe_def uq d'(1))
  have ok: "core_ok (c\<lparr>devices := (devices c)[k := ?v], drv := (drv c)(i \<mapsto> d')\<rparr>)"
    using dev d(1) by (intro core_ok_update [OF c(1) k]) simp_all
  have b: "bumped (- 1) i c (c\<lparr>devices := (devices c)[k := ?v], drv := (drv c)(i \<mapsto> d')\<rparr>)"
    using d' d(1) by (auto simp: bumped_def)
  have "startable (c\<lparr>devices := (devices c)[k := ?v], drv := (drv c)(i \<mapsto> d')\<rparr>)"
    by (rule startable_bumped [OF c(2) b]) (use d in auto)
  with run ok b show ?thesis by auto
qed

text \<open>Both walks, and their composition.\<close>

definition started :: "nat list \<Rightarrow> ('s, 'e) core \<Rightarrow> bool" where
  "started ks c \<longleftrightarrow> core_ok c \<and> startable c \<and>
     (\<forall>k < length (devices c). k \<notin> set ks \<longrightarrow> device_alwayson c k \<longrightarrow> has_spot c k)"

definition stoppable :: "nat list \<Rightarrow> ('s, 'e) core \<Rightarrow> bool" where
  "stoppable ks c \<longleftrightarrow> core_ok c \<and> startable c \<and> set ks \<subseteq> {..<length (devices c)} \<and>
     (\<forall>k \<in> set ks. device_alwayson c k \<longrightarrow> has_spot c k) \<and>
     (\<forall>i d. drv c i = Some d \<longrightarrow> alwayson d \<longrightarrow> int (visits ks c i) \<le> subscriptions d)"

lemma bumped_length: "bumped n i c c' \<Longrightarrow> length (devices c') = length (devices c)"
  by (auto simp: bumped_def dest: map_eq_imp_length_eq)

lemma StartAlwayson_counts:
  assumes "core_ok c" "startable c"
  shows "\<exists>c'. StartAlwaysonDrivers c = Inr (0, c') \<and> started [] c' \<and> counts_after 1 [0..<length (devices c)] c c'"
  unfolding StartAlwaysonDrivers_def
proof (rule alwayson_loop_counts [where P = started])
  fix c :: "('s, 'e) core" and k ks i d
  assume s: "started (k # ks) c" and k: "k < length (devices c)" and i: "dv_driver (devices c ! k) = Some i"
    and d: "drv c i = Some d" "alwayson d"
  from s obtain c' where c': "Subscribe_at None k c = Inr (0, c')" "core_ok c'" "startable c'" "bumped 1 i c c'" "has_spot c' k"
    "\<forall>j. j \<noteq> k \<longrightarrow> devices c' ! j = devices c ! j"
    using Subscribe_at_None [OF _ _ k i d] by (auto simp: started_def)
  have "has_spot c' j" if "j < length (devices c')" "j \<notin> set ks" "device_alwayson c' j" for j
  proof (cases "j = k")
    case False
    with that s bumped_length [OF c'(4)] bumped_alwayson [OF c'(4), of j] have "has_spot c j" by (auto simp: started_def)
    with False c'(6) show ?thesis by (simp add: has_spot_def)
  qed (use c'(5) in simp)
  with c' show "\<exists>c'. Subscribe_at None k c = Inr (0, c') \<and> started ks c' \<and> bumped 1 i c c'"
    by (auto simp: started_def)
next
  fix c :: "('s, 'e) core" and k ks i d
  assume "started (k # ks) c" "dv_driver (devices c ! k) = Some i" "drv c i = Some d" "\<not> alwayson d"
  then show "started ks c" by (auto simp: started_def device_alwayson_def)
qed (use assms in \<open>auto simp: started_def\<close>)

lemma StopAlwayson_counts:
  assumes "stoppable [0..<length (devices c)] c"
  shows "\<exists>c'. StopAlwaysonDrivers c = Inr (0, c') \<and> counts_after (- 1) [0..<length (devices c)] c c'"
proof -
  have "\<exists>c'. alwayson_loop (Unsubscribe_at None) [0..<length (devices c)] c = Inr (0, c') \<and> stoppable [] c' \<and>
      counts_after (- 1) [0..<length (devices c)] c c'"
  proof (rule alwayson_loop_counts [where P = stoppable])
    fix c :: "('s, 'e) core" and k ks i d
    assume s: "stoppable (k # ks) c" and k: "k < length (devices c)" and i: "dv_driver (devices c ! k) = Some i"
      and d: "drv c i = Some d" "alwayson d"
    have "1 \<le> visits (k # ks) c i" using i by (simp add: visits_def)
    with s d have "1 \<le> subscriptions d" by (force simp: stoppable_def)
    moreover have "has_spot c k" using s i d by (auto simp: stoppable_def device_alwayson_def)
    ultimately obtain c' where c': "Unsubscribe_at None k c = Inr (0, c')" "core_ok c'" "startable c'" "bumped (- 1) i c c'"
      "devices c' = devices c"
      using Unsubscribe_at_None [OF _ _ k i d] s by (auto simp: stoppable_def)
    have v: "visits ks c' j + (if j = i then 1 else 0) = visits (k # ks) c j" for j using i c'(5) by (auto simp: visits_def)
    have "int (visits ks c' j) \<le> subscriptions e" if e: "drv c' j = Some e" "alwayson e" for j e
    proof (cases "j = i")
      case True
      with c'(4) e d(1) have "subscriptions e = subscriptions d - 1" by (auto simp: bumped_def)
      with s d v [of i] True show ?thesis by (force simp: stoppable_def)
    next
      case False
      with c'(4) e have "drv c j = Some e" by (simp add: bumped_def)
      with s e(2) v [of j] False show ?thesis by (auto simp: stoppable_def)
    qed
    moreover have "has_spot c' j" if "j \<in> set ks" "device_alwayson c' j" for j
      using that s c'(5) bumped_alwayson [OF c'(4), of j] by (auto simp: stoppable_def has_spot_def)
    ultimately show "\<exists>c'. Unsubscribe_at None k c = Inr (0, c') \<and> stoppable ks c' \<and> bumped (- 1) i c c'"
      using c' s by (auto simp: stoppable_def)
  next
    fix c :: "('s, 'e) core" and k ks i d
    assume s: "stoppable (k # ks) c" "dv_driver (devices c ! k) = Some i" "drv c i = Some d" "\<not> alwayson d"
    then have "visits ks c j = visits (k # ks) c j" if "drv c j = Some e" "alwayson e" for j e
      using that by (auto simp: visits_def)
    with s(1) show "stoppable ks c" by (auto simp: stoppable_def)
  qed (use assms in \<open>auto simp: stoppable_def\<close>)
  then show ?thesis by (auto simp: StopAlwaysonDrivers_def)
qed

text \<open>C37: The drivers that are always on are started and stopped as a whole.  Let the table be well formed, and let each of
  these drivers keep the base class's \<open>Subscribe\<close> and \<open>Unsubscribe\<close>, always succeed in \<open>Setup\<close> and \<open>Shutdown\<close>, and change only its
  own state in them.  Then \<open>StartAlwaysonDrivers\<close> returns 0 and adds to each of them one subscription per device (other
  drivers are not touched), and \<open>StopAlwaysonDrivers\<close>, called directly after it, returns 0 and takes back exactly these.\<close>

theorem Start_then_Stop:
  assumes "core_ok c" and "startable c"
  shows "\<exists>c1 c2. StartAlwaysonDrivers c = Inr (0, c1) \<and> StopAlwaysonDrivers c1 = Inr (0, c2) \<and>
    (\<forall>i d. drv c i = Some d \<longrightarrow>
       (\<exists>d1 d2. drv c1 i = Some d1 \<and> drv c2 i = Some d2 \<and> subscriptions d2 = subscriptions d \<and>
          subscriptions d1 = subscriptions d + (if alwayson d then int (visits [0..<length (devices c)] c i) else 0)))"
proof -
  let ?ks = "[0..<length (devices c)]"
  obtain c1 where c1: "StartAlwaysonDrivers c = Inr (0, c1)" "started [] c1" "counts_after 1 ?ks c c1"
    using StartAlwayson_counts [OF assms] by blast
  from c1(3) have m: "map dv_driver (devices c1) = map dv_driver (devices c)" by (simp add: counts_after_def)
  have len: "length (devices c1) = length (devices c)" by (rule map_eq_imp_length_eq [OF m])
  have v: "visits ?ks c1 i = visits ?ks c i" for i by (rule visits_same [OF m]) auto
  have "int (visits ?ks c1 i) \<le> subscriptions d1" if d1: "drv c1 i = Some d1" "alwayson d1" for i d1
  proof (cases "drv c i")
    case None
    with c1(3) d1 show ?thesis by (auto simp: counts_after_def)
  next
    case (Some d)
    with c1(3) d1 have "subscriptions d1 = subscriptions d + int (visits ?ks c i)" "alwayson d"
      by (force simp: counts_after_def)+
    with assms(2) Some v show ?thesis by (auto simp: startable_def)
  qed
  with c1(2) len have "stoppable [0..<length (devices c1)] c1" by (auto simp: stoppable_def started_def)
  from StopAlwayson_counts [OF this] obtain c2 where c2: "StopAlwaysonDrivers c1 = Inr (0, c2)" "counts_after (- 1) ?ks c1 c2"
    using len by auto
  have "\<exists>d1 d2. drv c1 i = Some d1 \<and> drv c2 i = Some d2 \<and> subscriptions d2 = subscriptions d \<and>
      subscriptions d1 = subscriptions d + (if alwayson d then int (visits ?ks c i) else 0)" if d: "drv c i = Some d" for i d
  proof -
    from c1(3) d obtain d1 where d1: "drv c1 i = Some d1" "alwayson d1 = alwayson d"
      "subscriptions d1 = subscriptions d + (if alwayson d then 1 * int (visits ?ks c i) else 0)"
      unfolding counts_after_def by blast
    from c2(2) d1(1) obtain d2 where "drv c2 i = Some d2"
      "subscriptions d2 = subscriptions d1 + (if alwayson d1 then - 1 * int (visits ?ks c1 i) else 0)"
      unfolding counts_after_def by blast
    with d1 v show ?thesis by auto
  qed
  with c1(1) c2(1) show ?thesis by blast
qed

definition core2 :: "(unit, unit) core" where
  "core2 = DeviceTable_new\<lparr>drv := [0 \<mapsto> driver0\<lparr>alwayson := True\<rparr>], next_did := 1, numdevices := 2,
     devices := [device0\<lparr>dv_addr := laser_at 0\<rparr>, device0\<lparr>dv_addr := (laser_at 0)\<lparr>idx := 1\<rparr>\<rparr>]\<rparr>"

lemma core2_ok: "core_ok core2" "startable core2"
  by (auto simp: core2_def core_ok_def DeviceTable_new_def device0_def device_ok_def MatchDeviceAddress_def startable_def driver0_def
      Driver_new_def default_methods_def base_subscription_def setup_succeeds_def shutdown_succeeds_def)

theorem Start_then_Stop_witness:
  "\<exists>c1 c2 d1 d2. StartAlwaysonDrivers core2 = Inr (0, c1) \<and> StopAlwaysonDrivers c1 = Inr (0, c2) \<and>
     drv c1 0 = Some d1 \<and> subscriptions d1 = 2 \<and> drv c2 0 = Some d2 \<and> subscriptions d2 = 0"
proof -
  have d: "drv core2 0 = Some (driver0\<lparr>alwayson := True\<rparr>)" "subscriptions driver0 = 0"
    by (simp_all add: core2_def driver0_def Driver_new_def)
  have "visits [0..<length (devices core2)] core2 0 = 2"
    by (simp add: visits_def core2_def device0_def upt_rec)
  with Start_then_Stop [OF core2_ok] d show ?thesis by fastforce
qed

section \<open>Where the table goes wrong\<close>

text \<open>An address on the local host written as 0 matches the same address written as 127.0.0.1: \<open>MatchDeviceAddress\<close>
  does not require all four components to be equal.\<close>

lemma match_not_exact: "MatchDeviceAddress (laser_at 0) (laser_at LOCALHOST_ADDR) \<and> laser_at 0 \<noteq> laser_at LOCALHOST_ADDR"
  by (simp add: MatchDeviceAddress_def LOCALHOST_ADDR_def)

text \<open>The null queue of an always-on driver leaves its entry empty, so a client takes it; once the array is full the null
  queue is not found again, and stopping the drivers ends with an error at this device.\<close>

definition full_device :: "(unit, unit) core" where
  "full_device = core2\<lparr>devices := [device0\<lparr>dv_addr := laser_at 0, queues := [Some 1, Some 2]\<rparr>], numdevices := 1,
     drv := [0 \<mapsto> driver0\<lparr>alwayson := True, subscriptions := 3\<rparr>]\<rparr>"

lemma stop_fails_when_full: "\<exists>c. StopAlwaysonDrivers full_device = Inr (- 1, c)"
  by (simp add: StopAlwaysonDrivers_def full_device_def core2_def device0_def driver_at_def Unsubscribe_at_def on_device_def
      Device_Unsubscribe_def Unsubscribe_queue_def driver0_def Driver_new_def default_methods_def Driver_Unsubscribe_def
      remove_queue_def)

text \<open>Two clients that subscribe to a device whose driver is always on fill its array.\<close>

lemma clients_fill:
  "make_room [None, None] = [None, None]" "empty_spot [None, None] = 0" "empty_spot [Some 1, None] = 1"
  by (simp_all add: make_room_def empty_spot_def)

end
