(* ===== verification/Traffic.thy ===== *)
theory Traffic
  imports DeviceTable QueueProps
begin

text \<open>
  Messages between clients, devices and drivers: \<open>Driver::Publish\<close> and \<open>Driver::ProcessMessages\<close> of
  \<open>libplayercore/driver.cc\<close>, \<open>Device::PutMsg\<close> of \<open>device.cc\<close> and \<open>DeviceTable::UpdateDevices\<close> of
  \<open>devicetable.cc\<close>, on the store \<open>mq\<close> of message queues.  The record \<open>e\<close> holds what the queues read from
  outside, \<open>now\<close> is the time that \<open>GlobalTime\<close> returns.
\<close>

section \<open>Publishing\<close>

type_synonym 'e env = "'e payload pop_env"

definition push_to :: "'e payload message \<Rightarrow> qid \<Rightarrow> ('s, 'e) core \<Rightarrow> ('s, 'e) core outcome" where
  "push_to m q c =
     (case mq c q of None \<Rightarrow> Inl UseAfterFree | Some qu \<Rightarrow> Inr (c\<lparr>mq := (mq c)(q \<mapsto> push_q m qu)\<rparr>))"

text \<open>\<open>Publish(queue, hdr, src, copy)\<close> of a driver with input queue \<open>inq\<close>.\<close>

definition Publish_to :: "'e env \<Rightarrow> qptr \<Rightarrow> qptr \<Rightarrow> msghdr \<Rightarrow> 'e payload option \<Rightarrow> bool \<Rightarrow> ('s, 'e) core \<Rightarrow> ('s, 'e) core outcome" where
  "Publish_to e inq queue hdr src copy c =
     (let msg = CreateMessage (env_xdr e) hdr src inq copy in
      case queue of None \<Rightarrow> Inl NullDeref | Some q \<Rightarrow> push_to msg q c)"

fun push_all :: "'e payload message \<Rightarrow> qptr list \<Rightarrow> ('s, 'e) core \<Rightarrow> ('s, 'e) core outcome" where
  "push_all m [] c = Inr c"
| "push_all m (q # qs) c =
     (case q of None \<Rightarrow> push_all m qs c | Some i \<Rightarrow> bindo (push_to m i c) (push_all m qs))"

definition Publish :: "'e env \<Rightarrow> qptr \<Rightarrow> msghdr \<Rightarrow> 'e payload option \<Rightarrow> bool \<Rightarrow> ('s, 'e) core \<Rightarrow> ('s, 'e) core outcome" where
  "Publish e inq hdr src copy c =
     bindo (GetDevice (addr hdr) False c) (\<lambda>(dev, c1).
       case dev of
         None \<Rightarrow> Inr c1
       | Some k \<Rightarrow>
           (let msg = CreateMessage (env_xdr e) hdr src inq copy in push_all msg (queues (devices c1 ! k)) c1))"

text \<open>The forms that build the header.\<close>

definition new_header :: "devaddr \<Rightarrow> u8 \<Rightarrow> u8 \<Rightarrow> real option \<Rightarrow> real \<Rightarrow> msghdr" where
  "new_header a ty sub ts now =
     \<lparr>addr = a, mtype = ty, subtype = sub, timestamp = (case ts of Some t \<Rightarrow> t | None \<Rightarrow> now), seq = 0, msize = 0\<rparr>"

definition Publish_type_to ::
    "'e env \<Rightarrow> real \<Rightarrow> qptr \<Rightarrow> devaddr \<Rightarrow> qptr \<Rightarrow> u8 \<Rightarrow> u8 \<Rightarrow> 'e payload option \<Rightarrow> real option \<Rightarrow> bool \<Rightarrow> ('s, 'e) core
     \<Rightarrow> ('s, 'e) core outcome" where
  "Publish_type_to e now inq a queue ty sub src ts copy c =
     Publish_to e inq queue (new_header a ty sub ts now) src copy c"

definition Publish_type ::
    "'e env \<Rightarrow> real \<Rightarrow> qptr \<Rightarrow> devaddr \<Rightarrow> u8 \<Rightarrow> u8 \<Rightarrow> 'e payload option \<Rightarrow> real option \<Rightarrow> bool \<Rightarrow> ('s, 'e) core
     \<Rightarrow> ('s, 'e) core outcome" where
  "Publish_type e now inq a ty sub src ts copy c = Publish e inq (new_header a ty sub ts now) src copy c"

definition run_publication :: "'e env \<Rightarrow> qptr \<Rightarrow> 'e publication \<Rightarrow> ('s, 'e) core \<Rightarrow> ('s, 'e) core outcome" where
  "run_publication e inq p c =
     (case p of PubTo q h d copy \<Rightarrow> Publish_to e inq q h d copy c | PubAll h d copy \<Rightarrow> Publish e inq h d copy c)"

fun run_publications :: "'e env \<Rightarrow> qptr \<Rightarrow> 'e publication list \<Rightarrow> ('s, 'e) core \<Rightarrow> ('s, 'e) core outcome" where
  "run_publications e inq [] c = Inr c"
| "run_publications e inq (p # ps) c = bindo (run_publication e inq p c) (run_publications e inq ps)"

section \<open>Sending to a device\<close>

definition PutMsg :: "'e env \<Rightarrow> nat \<Rightarrow> qptr \<Rightarrow> msghdr \<Rightarrow> 'e payload option \<Rightarrow> bool \<Rightarrow> ('s, 'e) core \<Rightarrow> ('s, 'e) core outcome" where
  "PutMsg e k resp_queue hdr src copy c =
     (let v = devices c ! k; msg = CreateMessage (env_xdr e) (hdr\<lparr>addr := dv_addr v\<rparr>) src resp_queue copy in
      case dv_InQueue v of None \<Rightarrow> Inl NullDeref | Some q \<Rightarrow> push_to msg q c)"

definition PutMsg_type ::
    "'e env \<Rightarrow> real \<Rightarrow> nat \<Rightarrow> qptr \<Rightarrow> u8 \<Rightarrow> u8 \<Rightarrow> 'e payload option \<Rightarrow> real option \<Rightarrow> ('s, 'e) core \<Rightarrow> ('s, 'e) core outcome" where
  "PutMsg_type e now k resp_queue ty sub src ts c =
     PutMsg e k resp_queue (new_header \<lparr>host = 0, robot = 0, interf = 0, idx = 0\<rparr> ty sub ts now) src True c"

section \<open>Processing messages\<close>

text \<open>Replies of \<open>ProcessInternalMessages\<close> are published with the address of the request.\<close>

definition publish_reply ::
    "'e env \<Rightarrow> real \<Rightarrow> qptr \<Rightarrow> msghdr \<Rightarrow> qptr \<Rightarrow> reply \<Rightarrow> ('s, 'e) core \<Rightarrow> ('s, 'e) core outcome" where
  "publish_reply e now inq hdr resp_queue rep c =
     (case rep of
        None \<Rightarrow> Inr c
      | Some (sub, d) \<Rightarrow>
          Publish_type_to e now inq (addr hdr) resp_queue MSGTYPE_RESP_ACK sub (map_option PropData d) None True c)"

text \<open>The body of the loop for one message of driver \<open>i\<close>, whose object is \<open>d\<close>.\<close>

definition process_one :: "'e env \<Rightarrow> real \<Rightarrow> did \<Rightarrow> ('s, 'e) driver \<Rightarrow> 'e payload message \<Rightarrow> ('s, 'e) core \<Rightarrow> ('s, 'e) core outcome" where
  "process_one e now i d msg c =
     (let hdr = Header msg; data = Data msg; resp = Queue msg;
          (ret, pubs, s) = m_ProcessMessage (d_methods d) resp hdr data (priv d);
          d1 = d\<lparr>priv := s\<rparr> in
      bindo (run_publications e (InQueue d) pubs (c\<lparr>drv := (drv c)(i \<mapsto> d1)\<rparr>)) (\<lambda>c1.
        if ret < 0 then
          bindo (ProcessInternalMessages hdr data (propertyBag d1)) (\<lambda>(r, rep, ps).
          bindo (publish_reply e now (InQueue d) hdr resp rep (c1\<lparr>drv := (drv c1)(i \<mapsto> d1\<lparr>propertyBag := ps\<rparr>)\<rparr>)) (\<lambda>c2.
            if r \<noteq> 0 \<and> mtype hdr = MSGTYPE_REQ then
              Publish_type_to e now (InQueue d) (addr hdr) resp MSGTYPE_RESP_NACK (subtype hdr) None None True c2
            else Inr c2))
        else Inr c1))"

text \<open>\<open>Pop\<close> on the driver's queue.\<close>

definition pop_from :: "'e env \<Rightarrow> qptr \<Rightarrow> ('s, 'e) core \<Rightarrow> ('e payload message option \<times> ('s, 'e) core) outcome" where
  "pop_from e qp c =
     (case qp of
        None \<Rightarrow> Inl NullDeref
      | Some q \<Rightarrow>
          (case mq c q of
             None \<Rightarrow> Inl UseAfterFree
           | Some qu \<Rightarrow> (let (m, qu') = Pop e qu in Inr (m, c\<lparr>mq := (mq c)(q \<mapsto> qu')\<rparr>))))"

text \<open>At most \<open>n\<close> messages.\<close>

fun process_n :: "nat \<Rightarrow> 'e env \<Rightarrow> real \<Rightarrow> did \<Rightarrow> ('s, 'e) core \<Rightarrow> ('s, 'e) core outcome" where
  "process_n 0 e now i c = Inr c"
| "process_n (Suc n) e now i c =
     (case drv c i of
        None \<Rightarrow> Inl UseAfterFree
      | Some d \<Rightarrow>
          bindo (pop_from e (InQueue d) c) (\<lambda>(msg, c1).
            case msg of
              None \<Rightarrow> Inr c1
            | Some m \<Rightarrow> bindo (process_one e now i d m c1) (process_n n e now i)))"

text \<open>Until the queue is empty, which need not happen.\<close>

fun process_until_empty :: "nat \<Rightarrow> 'e env \<Rightarrow> real \<Rightarrow> did \<Rightarrow> ('s, 'e) core \<Rightarrow> ('s, 'e) core outcome" where
  "process_until_empty 0 e now i c = Inl OutOfFuel"
| "process_until_empty (Suc n) e now i c =
     (case drv c i of
        None \<Rightarrow> Inl UseAfterFree
      | Some d \<Rightarrow>
          bindo (pop_from e (InQueue d) c) (\<lambda>(msg, c1).
            case msg of
              None \<Rightarrow> Inr c1
            | Some m \<Rightarrow> bindo (process_one e now i d m c1) (process_until_empty n e now i)))"

definition ProcessMessages :: "nat \<Rightarrow> 'e env \<Rightarrow> real \<Rightarrow> int \<Rightarrow> did \<Rightarrow> ('s, 'e) core \<Rightarrow> ('s, 'e) core outcome" where
  "ProcessMessages fuel e now maxmsgs i c =
     (if maxmsgs < 0 then process_until_empty fuel e now i c
      else if maxmsgs = 0 then
        (case drv c i of
           None \<Rightarrow> Inl UseAfterFree
         | Some d \<Rightarrow>
             (case InQueue d of
                None \<Rightarrow> Inl NullDeref
              | Some q \<Rightarrow> (case mq c q of None \<Rightarrow> Inl UseAfterFree | Some qu \<Rightarrow> process_n (GetLength qu) e now i c)))
      else process_n (nat maxmsgs) e now i c)"

section \<open>Updates\<close>

text \<open>\<open>Update\<close> of the base class processes the pending messages; a class may override it.\<close>

definition Update :: "'e env \<Rightarrow> real \<Rightarrow> did \<Rightarrow> ('s, 'e) core \<Rightarrow> ('s, 'e) core outcome" where
  "Update e now i c =
     (case drv c i of
        None \<Rightarrow> Inl UseAfterFree
      | Some d \<Rightarrow>
          (case m_Update (d_methods d) of
             None \<Rightarrow> ProcessMessages 0 e now 0 i c
           | Some f \<Rightarrow>
               (let (pubs, s) = f (priv d)
                in run_publications e (InQueue d) pubs (c\<lparr>drv := (drv c)(i \<mapsto> d\<lparr>priv := s\<rparr>)\<rparr>))))"

fun update_loop :: "'e env \<Rightarrow> real \<Rightarrow> nat list \<Rightarrow> ('s, 'e) core \<Rightarrow> ('s, 'e) core outcome" where
  "update_loop e now [] c = Inr c"
| "update_loop e now (k # ks) c =
     bindo (driver_at k c) (\<lambda>d.
       if HasSubscriptions d \<or> alwayson d
       then bindo (Update e now (the (dv_driver (devices c ! k))) c) (update_loop e now ks)
       else update_loop e now ks c)"

definition UpdateDevices :: "'e env \<Rightarrow> real \<Rightarrow> ('s, 'e) core \<Rightarrow> ('s, 'e) core outcome" where
  "UpdateDevices e now c = update_loop e now [0..<length (devices c)] c"

section \<open>Publishing reaches the subscribers\<close>

lemma push_to_Some: "mq c q = Some qu \<Longrightarrow> push_to m q c = Inr (c\<lparr>mq := (mq c)(q \<mapsto> push_q m qu)\<rparr>)"
  by (simp add: push_to_def)

lemma push_all_effect:
  "\<forall>q. Some q \<in> set qs \<longrightarrow> mq c q \<noteq> None \<Longrightarrow>
   \<exists>f. push_all m qs c = Inr (c\<lparr>mq := f\<rparr>) \<and> (\<forall>q. f q = map_option (push_q m ^^ count_list qs (Some q)) (mq c q))"
proof (induction qs arbitrary: c)
  case Nil
  show ?case by (intro exI [of _ "mq c"]) (simp add: id_def option.map_ident)
next
  case (Cons x qs)
  show ?case
  proof (cases x)
    case None
    with Cons show ?thesis by simp
  next
    case (Some i)
    with Cons.prems obtain qu where qu: "mq c i = Some qu" by auto
    let ?c = "c\<lparr>mq := (mq c)(i \<mapsto> push_q m qu)\<rparr>"
    have "\<forall>q. Some q \<in> set qs \<longrightarrow> mq ?c q \<noteq> None" using Cons.prems by simp
    from Cons.IH [OF this] obtain f where f: "push_all m qs ?c = Inr (?c\<lparr>mq := f\<rparr>)"
      "\<forall>q. f q = map_option (push_q m ^^ count_list qs (Some q)) (mq ?c q)" by blast
    have "f q = map_option (push_q m ^^ count_list (x # qs) (Some q)) (mq c q)" for q
      using f(2) qu Some funpow_swap1 [of "push_q m" "count_list qs (Some i)" qu] by simp
    moreover have "push_all m (x # qs) c = Inr (c\<lparr>mq := f\<rparr>)" using f(1) Some push_to_Some [OF qu, of m] by simp
    ultimately show ?thesis by blast
  qed
qed

lemma count_subscribers: "count (subscribers v) q = count_list (queues v) (Some q)"
proof -
  have "count (mset (map the (filter (\<lambda>x. x \<noteq> None) qs))) q = count_list qs (Some q)" for qs :: "qptr list"
    by (induction qs) auto
  then show ?thesis by (simp add: subscribers_def)
qed

text \<open>C10: \<open>Publish\<close> broadcasts to the subscribers of the device and to nobody else.  A message published under the address of a
  device of the table is pushed onto each queue as often as the queue is subscribed to that device (so not at all onto
  a queue that is not), with the driver's queue as the place to answer; devices and drivers do not change; and under an address
  with no device nothing happens.\<close>

theorem Publish_to_subscribers:
  assumes "core_ok c" and "interf (addr hdr) \<noteq> 0"
    and "\<forall>v \<in> set (devices c). \<forall>q \<in># subscribers v. mq c q \<noteq> None"
  shows "case find_device (addr hdr) (devices c) of
      None \<Rightarrow> Publish e inq hdr src copy c = Inr c
    | Some k \<Rightarrow> (\<exists>f. Publish e inq hdr src copy c = Inr (c\<lparr>mq := f\<rparr>) \<and>
        (\<forall>q. f q = map_option (push_q (CreateMessage (env_xdr e) hdr src inq copy) ^^ count (subscribers (devices c ! k)) q) (mq c q)))"
proof (cases "find_device (addr hdr) (devices c)")
  case None
  with assms(2) show ?thesis by (simp add: Publish_def GetDevice_def)
next
  case (Some k)
  from find_device_Some [OF Some] have "devices c ! k \<in> set (devices c)" by simp
  with assms(3) have "mq c q \<noteq> None" if "q \<in># subscribers (devices c ! k)" for q using that by blast
  then have "\<forall>q. Some q \<in> set (queues (devices c ! k)) \<longrightarrow> mq c q \<noteq> None"
    by (metis count_list_0_iff count_greater_zero_iff count_subscribers neq0_conv)
  from push_all_effect [OF this] Some assms(2) show ?thesis
    by (simp add: Publish_def GetDevice_def count_subscribers)
qed

section \<open>Every request is answered\<close>

text \<open>A class without a handler of its own.\<close>

definition no_handler :: "('s, 'e) methods \<Rightarrow> bool" where
  "no_handler ms \<longleftrightarrow> m_ProcessMessage ms = (\<lambda>_ _ _ s. (- 1, [], s))"

definition is_request :: "'d message \<Rightarrow> bool" where
  "is_request m \<longleftrightarrow> mtype (Header m) = MSGTYPE_REQ"

text \<open>An answer is a reply with the address and the subtype of the request.\<close>

definition answers :: "'d message \<Rightarrow> 'd message \<Rightarrow> bool" where
  "answers m r \<longleftrightarrow> is_resp (Header r) \<and> addr (Header r) = addr (Header m) \<and> subtype (Header r) = subtype (Header m)"

lemma MatchMessage_any_sub:
  "MatchMessage_any h (ucast t) (numeral n) \<Longrightarrow> \<not> neg (numeral n) \<Longrightarrow> mtype h = t \<and> subtype h = ucast (numeral n :: c_int)"
  by (simp add: MatchMessage_any_def)

lemma get_request_Inr:
  assumes "get_request k sub data s = Inr (r, rep, s')"
  shows "s' = s \<and> (r = - 1 \<and> rep = None \<or> r = 0 \<and> (\<exists>d. rep = Some (ucast sub, Some d)))"
proof -
  from assms obtain req p where "GetProperty (req_key req) (bag s) = Inr p" and
    "(case p of None \<Rightarrow> Inr (- 1, None, s) | Some i \<Rightarrow> (case objs s i of None \<Rightarrow> Inl UseAfterFree
      | Some p \<Rightarrow> bindo (GetValueToMessage p req) (\<lambda>req'. Inr (0, Some (ucast sub, Some req'), s)))) = Inr (r, rep, s')"
    by (auto simp: get_request_def)
  then show ?thesis by (cases p; cases "objs s (the p)") auto
qed

lemma set_request_result:
  assumes "set_request k sub data s = Inr (r, rep, s')"
  shows "r = - 1 \<and> rep = None \<or> r = 0 \<and> rep = Some (ucast sub, None)"
proof -
  from assms obtain req p where "GetProperty (req_key req) (bag s) = Inr p" and
    "(case p of None \<Rightarrow> Inr (- 1, None, s) | Some i \<Rightarrow> (case objs s i of None \<Rightarrow> Inl UseAfterFree
      | Some p \<Rightarrow> bindo (SetValueFromMessage req p) (\<lambda>p'.
          Inr (0, Some (ucast sub, None), s\<lparr>objs := (objs s)(i \<mapsto> p')\<rparr>)))) = Inr (r, rep, s')"
    by (auto simp: set_request_def)
  then show ?thesis by (cases p; cases "objs s (the p)") auto
qed

lemma internal_result:
  assumes "ProcessInternalMessages h data s = Inr (r, rep, s')"
  shows "r = - 1 \<and> rep = None \<or> r = 0 \<and> mtype h = MSGTYPE_REQ \<and> (\<exists>d. rep = Some (subtype h, d))"
proof (cases "mtype h = MSGTYPE_REQ \<and> (\<exists>k. subtype h = get_sub k \<or> subtype h = set_sub k)")
  case False
  then have "ProcessInternalMessages h data s = Inr (- 1, None, s)" by (intro internal_other) blast
  with assms show ?thesis by simp
next
  case True
  then obtain k where t: "mtype h = MSGTYPE_REQ" and k: "subtype h = get_sub k \<or> subtype h = set_sub k" by blast
  from k show ?thesis
  proof
    assume sub: "subtype h = get_sub k"
    from get_request_Inr [OF assms [unfolded internal_get [OF t sub]]] t sub show ?thesis by auto
  next
    assume sub: "subtype h = set_sub k"
    from set_request_result [OF assms [unfolded internal_set [OF t sub]]] t sub show ?thesis by auto
  qed
qed

lemma process_one_request:
  assumes nh: "no_handler (d_methods d)" and ty: "props_ok (propertyBag d)" "typed_request (prop_types (propertyBag d)) (Header m, Data m)"
    and m: "is_request m" "Queue m = Some R" "mq c R = Some ru" and d: "drv c i = Some d"
  shows "\<exists>ps r. process_one e now i d m c = Inr (c\<lparr>drv := (drv c)(i \<mapsto> d\<lparr>propertyBag := ps\<rparr>), mq := (mq c)(R \<mapsto> push_q r ru)\<rparr>) \<and>
    answers m r \<and> props_ok ps \<and> prop_types ps = prop_types (propertyBag d)"
proof -
  obtain ret rep ps where int: "ProcessInternalMessages (Header m) (Data m) (propertyBag d) = Inr (ret, rep, ps)"
    and ps: "props_ok ps" "prop_types ps = prop_types (propertyBag d)"
    using request_typed [OF ty] by auto
  let ?msg = "\<lambda>t s x. CreateMessage (env_xdr e) (new_header (addr (Header m)) t s None now) x (InQueue d) True"
  from internal_result [OF int] consider (no) "ret = - 1" "rep = None" | (yes) x where "ret = 0" "rep = Some (subtype (Header m), x)"
    by blast
  then show ?thesis
  proof cases
    case no
    have "answers m (?msg MSGTYPE_RESP_NACK (subtype (Header m)) None)" by (simp add: answers_def new_header_def)
    moreover have "process_one e now i d m c = Inr (c\<lparr>drv := (drv c)(i \<mapsto> d\<lparr>propertyBag := ps\<rparr>),
        mq := (mq c)(R \<mapsto> push_q (?msg MSGTYPE_RESP_NACK (subtype (Header m)) None) ru)\<rparr>)"
      using no nh m int
      by (simp add: process_one_def no_handler_def is_request_def Publish_type_to_def Publish_to_def push_to_def publish_reply_def Let_def)
    ultimately show ?thesis using ps by blast
  next
    case yes
    have "answers m (?msg MSGTYPE_RESP_ACK (subtype (Header m)) (map_option PropData x))" by (simp add: answers_def new_header_def)
    moreover have "process_one e now i d m c = Inr (c\<lparr>drv := (drv c)(i \<mapsto> d\<lparr>propertyBag := ps\<rparr>),
        mq := (mq c)(R \<mapsto> push_q (?msg MSGTYPE_RESP_ACK (subtype (Header m)) (map_option PropData x)) ru)\<rparr>)"
      using yes nh m int
      by (simp add: process_one_def no_handler_def is_request_def Publish_type_to_def Publish_to_def push_to_def publish_reply_def Let_def)
    ultimately show ?thesis using ps by blast
  qed
qed

lemma process_one_other:
  assumes "no_handler (d_methods d)" "\<not> is_request m"
  shows "process_one e now i d m c = Inr (c\<lparr>drv := (drv c)(i \<mapsto> d)\<rparr>)"
  using assms internal_other [of "Header m" "Data m" "propertyBag d"]
  by (simp add: process_one_def no_handler_def is_request_def publish_reply_def)

text \<open>The replies that go to one queue.\<close>

definition replies_to :: "qid \<Rightarrow> 'd message list \<Rightarrow> 'd message list \<Rightarrow> 'd message list" where
  "replies_to R reqs reps = map snd (filter (\<lambda>(m, r). Queue m = Some R) (zip reqs reps))"

lemma replies_to_Cons [simp]:
  "replies_to R (m # ms) (r # rs) = (if Queue m = Some R then r # replies_to R ms rs else replies_to R ms rs)"
  "replies_to R [] rs = []"
  by (simp_all add: replies_to_def)

lemma Pop_first:
  assumes "elems qu = m # ms" "\<not> pull qu" "\<not> filter_on qu"
  shows "\<exists>qu'. Pop e qu = (Some m, qu') \<and> elems qu' = ms \<and> \<not> pull qu' \<and> \<not> filter_on qu'"
proof -
  have "poppable qu (last_resp qu) m" using assms(2,3) by (simp add: poppable_def)
  from Pop_head [OF assms(1) this, of e] assms show ?thesis by simp
qed

lemma process_n_answers:
  assumes "no_handler (d_methods d)" "InQueue d = Some q" "drv c i = Some d" "mq c q = Some qu" "elems qu = ms"
    "\<not> pull qu" "\<not> filter_on qu" "props_ok (propertyBag d)"
    "\<forall>m \<in> set ms. typed_request (prop_types (propertyBag d)) (Header m, Data m)"
    "\<forall>m \<in> set ms. is_request m \<longrightarrow> (\<exists>R. Queue m = Some R \<and> R \<noteq> q \<and> mq c R \<noteq> None)"
  shows "\<exists>c' reps qu'. process_n (length ms) e now i c = Inr c' \<and> list_all2 answers (filter is_request ms) reps \<and>
    mq c' q = Some qu' \<and> elems qu' = [] \<and>
    (\<forall>R. R \<noteq> q \<longrightarrow> mq c' R = map_option (fold push_q (replies_to R (filter is_request ms) reps)) (mq c R))"
  using assms
proof (induction ms arbitrary: c d qu)
  case Nil
  then show ?case by (intro exI [of _ c] exI [of _ "[]"] exI [of _ qu]) (simp add: id_def option.map_ident)
next
  case (Cons m ms)
  obtain qu1 where pop: "Pop e qu = (Some m, qu1)" and qu1: "elems qu1 = ms" "\<not> pull qu1" "\<not> filter_on qu1"
    using Pop_first [OF Cons.prems(5-7)] by blast
  let ?c1 = "c\<lparr>mq := (mq c)(q \<mapsto> qu1)\<rparr>"
  have step: "process_n (length (m # ms)) e now i c = bindo (process_one e now i d m ?c1) (process_n (length ms) e now i)"
    using Cons.prems(2-4) pop by (simp add: pop_from_def)
  show ?case
  proof (cases "is_request m")
    case True
    with Cons.prems(10) obtain R ru where R: "Queue m = Some R" "R \<noteq> q" "mq ?c1 R = Some ru" by auto
    have ty: "typed_request (prop_types (propertyBag d)) (Header m, Data m)" using Cons.prems(9) by simp
    have d1: "drv ?c1 i = Some d" using Cons.prems(3) by simp
    from process_one_request [OF Cons.prems(1,8) ty True R(1,3) d1] obtain ps r where
      one: "process_one e now i d m ?c1 = Inr (?c1\<lparr>drv := (drv ?c1)(i \<mapsto> d\<lparr>propertyBag := ps\<rparr>), mq := (mq ?c1)(R \<mapsto> push_q r ru)\<rparr>)"
      and r: "answers m r" and ps: "props_ok ps" "prop_types ps = prop_types (propertyBag d)" by blast
    let ?c2 = "?c1\<lparr>drv := (drv ?c1)(i \<mapsto> d\<lparr>propertyBag := ps\<rparr>), mq := (mq ?c1)(R \<mapsto> push_q r ru)\<rparr>"
    have pre: "\<forall>m' \<in> set ms. is_request m' \<longrightarrow> (\<exists>R'. Queue m' = Some R' \<and> R' \<noteq> q \<and> mq ?c2 R' \<noteq> None)"
      using Cons.prems(10) by auto
    have "mq ?c2 q = Some qu1" "drv ?c2 i = Some (d\<lparr>propertyBag := ps\<rparr>)" using R(2) by simp_all
    from Cons.IH [OF _ _ this(2,1) qu1 _ _ pre] Cons.prems(1,2,9) ps obtain c' reps qu' where
      ih: "process_n (length ms) e now i ?c2 = Inr c'" "list_all2 answers (filter is_request ms) reps" "mq c' q = Some qu'" "elems qu' = []"
      "\<forall>R'. R' \<noteq> q \<longrightarrow> mq c' R' = map_option (fold push_q (replies_to R' (filter is_request ms) reps)) (mq ?c2 R')" by auto
    have "mq c' R' = map_option (fold push_q (replies_to R' (filter is_request (m # ms)) (r # reps))) (mq c R')" if "R' \<noteq> q" for R'
      using ih(5) that R True by (cases "R' = R") auto
    with step one ih r True show ?thesis
      by (intro exI [of _ c'] exI [of _ "r # reps"] exI [of _ qu']) simp
  next
    case False
    let ?c2 = "?c1\<lparr>drv := (drv ?c1)(i \<mapsto> d)\<rparr>"
    have one: "process_one e now i d m ?c1 = Inr ?c2" by (rule process_one_other [OF Cons.prems(1) False])
    have pre: "\<forall>m' \<in> set ms. is_request m' \<longrightarrow> (\<exists>R'. Queue m' = Some R' \<and> R' \<noteq> q \<and> mq ?c2 R' \<noteq> None)"
      using Cons.prems(10) by auto
    have "mq ?c2 q = Some qu1" "drv ?c2 i = Some d" by simp_all
    from Cons.IH [OF Cons.prems(1,2) this(2,1) qu1 Cons.prems(8) _ pre] Cons.prems(9) obtain c' reps qu' where
      ih: "process_n (length ms) e now i ?c2 = Inr c'" "list_all2 answers (filter is_request ms) reps" "mq c' q = Some qu'" "elems qu' = []"
      "\<forall>R'. R' \<noteq> q \<longrightarrow> mq c' R' = map_option (fold push_q (replies_to R' (filter is_request ms) reps)) (mq ?c2 R')" by auto
    with step one False show ?thesis
      by (intro exI [of _ c'] exI [of _ reps] exI [of _ qu']) simp
  qed
qed

lemma answers_vital: "answers m r \<Longrightarrow> vital r"
  by (auto simp: answers_def vital_def)

lemma replies_vital: "list_all2 answers ms rs \<Longrightarrow> filter vital (replies_to R ms rs) = replies_to R ms rs"
  by (induction ms rs rule: list_all2_induct) (auto dest: answers_vital)

text \<open>C4: Every request is answered exactly once.  When a driver whose class handles no messages itself processes what is in its
  queue, each queued request (a property request with the structure of its subtype or any other request) yields exactly
  one reply, a positive or negative one with the address and subtype of the request; the replies arrive on the queues that
  the requests name, after what was there and in the order of the requests, and the driver's queue is empty afterwards.\<close>

theorem requests_answered:
  assumes "no_handler (d_methods d)" and "InQueue d = Some q" and "drv c i = Some d" and "mq c q = Some qu"
    and "queue_ok qu" and "\<not> pull qu" and "\<not> filter_on qu" and "props_ok (propertyBag d)"
    and "\<forall>m \<in> set (elems qu). typed_request (prop_types (propertyBag d)) (Header m, Data m)"
    and "\<forall>m \<in> set (elems qu). is_request m \<longrightarrow> (\<exists>R. Queue m = Some R \<and> R \<noteq> q \<and> mq c R \<noteq> None)"
  shows "\<exists>c' reps qu'. ProcessMessages fuel e now 0 i c = Inr c' \<and> mq c' q = Some qu' \<and> elems qu' = [] \<and>
    list_all2 answers (filter is_request (elems qu)) reps \<and>
    (\<forall>R ru. R \<noteq> q \<longrightarrow> mq c R = Some ru \<longrightarrow> spares_vital ru \<longrightarrow>
      (\<exists>ru'. mq c' R = Some ru' \<and>
        filter vital (elems ru') = filter vital (elems ru) @ replies_to R (filter is_request (elems qu)) reps))"
proof -
  obtain c' reps qu' where run: "process_n (length (elems qu)) e now i c = Inr c'" "list_all2 answers (filter is_request (elems qu)) reps"
    "mq c' q = Some qu'" "elems qu' = []"
    and R: "\<forall>R. R \<noteq> q \<longrightarrow> mq c' R = map_option (fold push_q (replies_to R (filter is_request (elems qu)) reps)) (mq c R)"
    using process_n_answers [OF assms(1-4) refl assms(6-10)] by blast
  have "ProcessMessages fuel e now 0 i c = Inr c'"
    using run(1) assms(2-5) by (simp add: ProcessMessages_def GetLength_def queue_ok_def)
  moreover have "\<exists>ru'. mq c' R = Some ru' \<and>
      filter vital (elems ru') = filter vital (elems ru) @ replies_to R (filter is_request (elems qu)) reps"
    if "R \<noteq> q" "mq c R = Some ru" "spares_vital ru" for R ru
    using R that mq.fold_vital [OF that(3)] replies_vital [OF run(2)] by simp
  ultimately show ?thesis using run by blast
qed

definition e0 :: "unit env" where
  "e0 = \<lparr>env_xdr = \<lparr>get_sizeoffunc = \<lambda>_ _ _. None, get_clonefunc = \<lambda>_ _ _. None\<rparr>, stack_time = 0, stack_seq = 0,
     at_drop_count = \<lambda>_. OtherData ()\<rparr>"

definition request0 :: "u8 \<Rightarrow> unit payload message" where
  "request0 sub = \<lparr>Header = new_header (laser_at 0) MSGTYPE_REQ sub None 0, Data = None, Queue = Some 1\<rparr>"

text \<open>A driver with input queue 0 and one device, to which queue 1 is subscribed; a request waits.\<close>

definition core3 :: "(unit, unit) core" where
  "core3 = DeviceTable_new\<lparr>drv := [0 \<mapsto> driver0], next_did := 1, numdevices := 1,
     devices := [device0\<lparr>dv_addr := laser_at 0, queues := [None, Some 1]\<rparr>],
     mq := [0 \<mapsto> push_q (request0 2) (MessageQueue_new fv0 True 10), 1 \<mapsto> MessageQueue_new fv0 True 10]\<rparr>"

lemma core3_ok: "core_ok core3"
  by (simp add: core_ok_def core3_def DeviceTable_new_def device0_def device_ok_def driver0_def)

theorem Publish_to_subscribers_witness:
  "\<exists>c' qu. Publish e0 (Some 0) (new_header (laser_at LOCALHOST_ADDR) MSGTYPE_DATA 1 None 0) None True core3 = Inr c' \<and>
     mq c' 1 = Some qu \<and> length (elems qu) = 1"
proof -
  let ?h = "new_header (laser_at LOCALHOST_ADDR) MSGTYPE_DATA 1 None 0"
  have "interf (addr ?h) \<noteq> 0" "\<forall>v \<in> set (devices core3). \<forall>q \<in># subscribers v. mq core3 q \<noteq> None"
    by (simp_all add: new_header_def core3_def device0_def subscribers_def)
  note pub = Publish_to_subscribers [OF core3_ok this, of e0 "Some 0" None True]
  have f: "find_device (addr ?h) (devices core3) = Some 0"
    by (simp add: find_device_def core3_def device0_def new_header_def MatchDeviceAddress_def)
  have s: "count (subscribers (devices core3 ! 0)) 1 = 1" by (simp add: core3_def device0_def subscribers_def)
  from pub f s show ?thesis
    by (auto simp: core3_def Push_def Let_def CheckReplace_def MessageQueue_new_def new_header_def PushBack_def remove_match_def find_last_def)
qed

theorem requests_answered_witness:
  "\<exists>c' qu r. ProcessMessages 0 e0 0 0 0 core3 = Inr c' \<and> mq c' 1 = Some qu \<and> filter vital (elems qu) = [r] \<and> answers (request0 2) r"
proof -
  let ?qu = "push_q (request0 2) (MessageQueue_new fv0 True 10)"
  have el: "elems ?qu = [request0 2]" "queue_ok ?qu" "\<not> pull ?qu" "\<not> filter_on ?qu"
    by (auto simp: Push_def Let_def CheckReplace_def MessageQueue_new_def request0_def new_header_def PushBack_def queue_ok_def)
  have d: "no_handler (d_methods driver0)" "InQueue driver0 = Some 0" "props_ok (propertyBag driver0)"
    by (simp_all add: no_handler_def driver0_def Driver_new_def default_methods_def props_ok_def PropertyBag_new_def)
  have c: "drv core3 0 = Some driver0" "mq core3 0 = Some ?qu" "mq core3 1 = Some (MessageQueue_new fv0 True 10)"
    by (simp_all add: core3_def)
  have ty: "\<forall>m \<in> set (elems ?qu). typed_request (prop_types (propertyBag driver0)) (Header m, Data m)"
    unfolding el by (simp add: typed_request_def request0_def new_header_def)
  have qs: "\<forall>m \<in> set (elems ?qu). is_request m \<longrightarrow> (\<exists>R. Queue m = Some R \<and> R \<noteq> 0 \<and> mq core3 R \<noteq> None)"
    unfolding el by (simp add: request0_def core3_def)
  from requests_answered [OF d(1,2) c(1,2) el(2-4) d(3) ty qs, of 0 e0 0] obtain c' reps where
    run: "ProcessMessages 0 e0 0 0 0 core3 = Inr c'" and reps: "list_all2 answers (filter is_request [request0 2]) reps"
    and R: "\<And>R ru. R \<noteq> 0 \<Longrightarrow> mq core3 R = Some ru \<Longrightarrow> spares_vital ru \<Longrightarrow>
      \<exists>ru'. mq c' R = Some ru' \<and> filter vital (elems ru') = filter vital (elems ru) @ replies_to R (filter is_request [request0 2]) reps"
    unfolding el by blast
  have req: "is_request (request0 2)" "Queue (request0 2) = Some 1" by (simp_all add: is_request_def request0_def new_header_def)
  with reps obtain r where r: "reps = [r]" "answers (request0 2) r" by (auto simp: list_all2_Cons1)
  have "elems (MessageQueue_new fv0 True 10 :: unit payload mqueue) = []" by (simp add: MessageQueue_new_def)
  with R [OF _ c(3) spares_vital_new] obtain ru' where "mq c' 1 = Some ru'" "filter vital (elems ru') = replies_to 1 [request0 2] [r]"
    using req r(1) by auto
  with run r(2) req show ?thesis by auto
qed

section \<open>A null reply queue\<close>

text \<open>The documentation of \<open>Publish\<close> says that a null queue stands for all interested parties; the code follows the null
  pointer.  So a request without a reply queue that no handler takes ends the server.\<close>

lemma Publish_to_null: "Publish_to e inq None hdr src copy c = Inl NullDeref"
  by (simp add: Publish_to_def)

lemma request_without_queue:
  assumes "no_handler (d_methods d)" "is_request m" "Queue m = None" "subtype (Header m) \<notin> range get_sub \<union> range set_sub"
  shows "process_one e now i d m c = Inl NullDeref"
  using assms internal_other [of "Header m" "Data m" "propertyBag d"]
  by (simp add: process_one_def no_handler_def is_request_def publish_reply_def Publish_type_to_def Publish_to_null)

end
