(* ===== verification/Request.thy ===== *)
theory Request
  imports Traffic
begin

text \<open>
  \<open>Device::TimedRequest\<close> and \<open>Device::Request\<close> of \<open>libplayercore/device.cc\<close>: send a request, set the filter of the
  requester's queue to the reply, and wait for it.  What other threads do while a threaded requester waits is a
  list of steps, one per round, each with the result of \<open>Wait\<close>; for the other kind of requester the times of day
  are a list.  The lists bound the number of rounds.
\<close>

section \<open>Waiting\<close>

datatype 'm wait_result = Got 'm | NoMessage | TimedOut

definition on_queue :: "qptr \<Rightarrow> ('e payload mqueue \<Rightarrow> 'e payload mqueue) \<Rightarrow> ('s, 'e) core \<Rightarrow> ('s, 'e) core outcome" where
  "on_queue qp f c =
     (case qp of
        None \<Rightarrow> Inl NullDeref
      | Some q \<Rightarrow> (case mq c q of None \<Rightarrow> Inl UseAfterFree | Some qu \<Rightarrow> Inr (c\<lparr>mq := (mq c)(q \<mapsto> f qu)\<rparr>)))"

type_synonym ('s, 'e) others = "(bool \<times> (('s, 'e) core \<Rightarrow> ('s, 'e) core)) list"

fun threaded_loop ::
    "'e env \<Rightarrow> nat \<Rightarrow> qptr \<Rightarrow> real \<Rightarrow> ('s, 'e) others \<Rightarrow> ('s, 'e) core
     \<Rightarrow> ('e payload message wait_result \<times> ('s, 'e) core) outcome" where
  "threaded_loop e k qp timeout [] c = Inl OutOfFuel"
| "threaded_loop e k qp timeout (x # xs) c =
     bindo (driver_at k c) (\<lambda>d.
       if \<not> HasSubscriptions d then Inr (NoMessage, c)
       else
         (let c1 = snd x c in
          if 0 < timeout \<and> timeout \<le> 1 \<and> \<not> fst x then
            bindo (on_queue qp ClearFilter c1) (\<lambda>c2. Inr (TimedOut, c2))
          else
            bindo (pop_from e qp c1) (\<lambda>(msg, c2).
              case msg of
                Some m \<Rightarrow> Inr (Got m, c2)
              | None \<Rightarrow> threaded_loop e k qp (if 1 < timeout then timeout - 1 else timeout) xs c2)))"

text \<open>The update of every driver but the requester, which is recognised by its queue.\<close>

fun update_others :: "'e env \<Rightarrow> real \<Rightarrow> qptr \<Rightarrow> nat list \<Rightarrow> ('s, 'e) core \<Rightarrow> ('s, 'e) core outcome" where
  "update_others e now qp [] c = Inr c"
| "update_others e now qp (k # ks) c =
     (case dv_driver (devices c ! k) of
        None \<Rightarrow> update_others e now qp ks c
      | Some i \<Rightarrow>
          if dv_InQueue (devices c ! k) = qp then update_others e now qp ks c
          else
            (case drv c i of
               None \<Rightarrow> Inl UseAfterFree
             | Some d \<Rightarrow>
                 if HasSubscriptions d \<or> alwayson d then bindo (Update e now i c) (update_others e now qp ks)
                 else update_others e now qp ks c))"

fun poll_loop ::
    "'e env \<Rightarrow> qptr \<Rightarrow> real \<Rightarrow> real \<Rightarrow> real list \<Rightarrow> ('s, 'e) core
     \<Rightarrow> ('e payload message wait_result \<times> ('s, 'e) core) outcome" where
  "poll_loop e qp timeout req_time [] c = Inl OutOfFuel"
| "poll_loop e qp timeout req_time (t # ts) c =
     bindo (update_others e t qp [0..<length (devices c)] c) (\<lambda>c1.
     bindo (pop_from e qp c1) (\<lambda>(msg, c2).
       case msg of
         Some m \<Rightarrow> Inr (Got m, c2)
       | None \<Rightarrow>
           if 0 < timeout \<and> req_time + timeout < t then
             bindo (on_queue qp ClearFilter c2) (\<lambda>c3. Inr (TimedOut, c3))
           else poll_loop e qp timeout req_time ts c2))"

section \<open>The request\<close>

text \<open>What becomes of the message: only a positive reply is returned, and the filter goes; without any message it stays.\<close>

definition finish_request ::
    "devaddr \<Rightarrow> u8 \<Rightarrow> qptr \<Rightarrow> 'e payload message wait_result \<times> ('s, 'e) core \<Rightarrow> ('e payload message option \<times> ('s, 'e) core) outcome" where
  "finish_request a sub qp = (\<lambda>(w, c).
     case w of
       Got m \<Rightarrow>
         bindo (on_queue qp ClearFilter c) (\<lambda>c'.
           if MatchMessage (Header m) (ucast MSGTYPE_RESP_ACK) (ucast sub) a then Inr (Some m, c')
           else if MatchMessage (Header m) (ucast MSGTYPE_RESP_NACK) (ucast sub) a then Inr (None, c')
           else Inr (None, c'))
     | NoMessage \<Rightarrow> Inr (None, c)
     | TimedOut \<Rightarrow> Inr (None, c))"

definition TimedRequest ::
    "'e env \<Rightarrow> real \<Rightarrow> nat \<Rightarrow> qptr \<Rightarrow> u8 \<Rightarrow> u8 \<Rightarrow> 'e payload option \<Rightarrow> real \<Rightarrow> real option \<Rightarrow> ('s, 'e) others + real list
     \<Rightarrow> ('s, 'e) core \<Rightarrow> ('e payload message option \<times> ('s, 'e) core) outcome" where
  "TimedRequest e now k resp_queue ty sub src timeout ts world c =
     (let a = dv_addr (devices c ! k) in
      bindo (PutMsg_type e now k resp_queue ty sub src ts c) (\<lambda>c1.
      bindo (on_queue resp_queue (SetFilter (host a) (robot a) (ucast (interf a)) (ucast (idx a)) (- 1) (ucast sub)) c1) (\<lambda>c2.
      bindo (case world of
               Inl xs \<Rightarrow> threaded_loop e k resp_queue timeout xs c2
             | Inr clock \<Rightarrow> poll_loop e resp_queue timeout now clock c2)
        (finish_request a sub resp_queue))))"

definition Request ::
    "'e env \<Rightarrow> real \<Rightarrow> nat \<Rightarrow> qptr \<Rightarrow> u8 \<Rightarrow> u8 \<Rightarrow> 'e payload option \<Rightarrow> real option \<Rightarrow> ('s, 'e) others + real list
     \<Rightarrow> ('s, 'e) core \<Rightarrow> ('e payload message option \<times> ('s, 'e) core) outcome" where
  "Request e now k resp_queue ty sub src ts world c = TimedRequest e now k resp_queue ty sub src 0 ts world c"

section \<open>A reply is delivered\<close>

text \<open>A reply to the request, as the filter sees it.\<close>

definition reply_of :: "devaddr \<Rightarrow> u8 \<Rightarrow> 'd message \<Rightarrow> bool" where
  "reply_of a sub m \<longleftrightarrow> is_resp (Header m) \<and> addr (Header m) = a \<and> subtype (Header m) = sub"

definition waiting_queue :: "devaddr \<Rightarrow> u8 \<Rightarrow> 'd mqueue \<Rightarrow> bool" where
  "waiting_queue a sub qu \<longleftrightarrow> filter_on qu \<and> filter_v qu = filter_v (request_filter a sub qu) \<and> \<not> pull qu"

text \<open>Addresses whose parts the filter keeps apart from \<open>don't care\<close>.\<close>

definition plain_addr :: "devaddr \<Rightarrow> bool" where
  "plain_addr a \<longleftrightarrow> \<not> neg (host a) \<and> \<not> neg (robot a)"

lemma waiting_poppable:
  assumes "waiting_queue a sub qu" "plain_addr a"
  shows "poppable qu (last_resp qu) m \<longleftrightarrow> reply_of a sub m"
proof -
  have "addr (Header m) = a \<longleftrightarrow> host (addr (Header m)) = host a \<and> robot (addr (Header m)) = robot a \<and>
      interf (addr (Header m)) = interf a \<and> idx (addr (Header m)) = idx a"
    by auto
  with assms show ?thesis
    by (auto simp: waiting_queue_def plain_addr_def poppable_def last_resp_def Filter_def SetFilter_def request_filter_def reply_of_def Let_def)
qed

lemma Pop_waiting_none:
  assumes "waiting_queue a sub qu" "plain_addr a" "\<forall>m \<in> set (elems qu). \<not> reply_of a sub m"
  shows "Pop e qu = (None, qu)"
  using assms waiting_poppable [OF assms(1,2)] by (intro Pop_none) (auto simp: waiting_queue_def)

lemma Pop_waiting_reply:
  assumes "waiting_queue a sub qu" "plain_addr a" "elems qu = pre @ r # post" "\<forall>m \<in> set pre. \<not> reply_of a sub m" "reply_of a sub r"
  shows "\<exists>qu'. Pop e qu = (Some r, qu') \<and> elems qu' = pre @ post"
proof -
  have "find_index (poppable qu (last_resp qu)) (elems qu) = Some (length pre)"
    using assms(3-5) by (simp add: waiting_poppable [OF assms(1,2)] find_index_at)
  with assms(3,5) show ?thesis
    by (auto simp: Pop_def Let_def Remove_def remove_nth_split reply_of_def)
qed

text \<open>A round in which nothing for the requester arrives: the driver is still subscribed, and the queue waits on.\<close>

definition quiet_round :: "nat \<Rightarrow> qid \<Rightarrow> devaddr \<Rightarrow> u8 \<Rightarrow> ('s, 'e) core \<Rightarrow> bool" where
  "quiet_round k q a sub c \<longleftrightarrow>
     (\<exists>qu. mq c q = Some qu \<and> waiting_queue a sub qu \<and> (\<forall>m \<in> set (elems qu). \<not> reply_of a sub m)) \<and>
     (\<exists>d. driver_at k c = Inr d \<and> HasSubscriptions d)"

definition rounds :: "('s, 'e) others \<Rightarrow> ('s, 'e) core \<Rightarrow> ('s, 'e) core" where
  "rounds xs c = fold snd xs c"

lemma threaded_loop_delivers:
  assumes "plain_addr a" "\<forall>j < length xs. quiet_round k q a sub (rounds (take (Suc j) xs) c)"
    "\<exists>d. driver_at k c = Inr d \<and> HasSubscriptions d"
    "mq (snd x (rounds xs c)) q = Some qu" "waiting_queue a sub qu" "elems qu = pre @ r # post"
    "\<forall>m \<in> set pre. \<not> reply_of a sub m" "reply_of a sub r"
    "timeout \<le> 0"
  shows "\<exists>c' qu'. threaded_loop e k (Some q) timeout (xs @ x # ys) c = Inr (Got r, c') \<and> mq c' q = Some qu' \<and> elems qu' = pre @ post"
  using assms(2-4)
proof (induction xs arbitrary: c)
  case Nil
  obtain qu' where pop: "Pop e qu = (Some r, qu')" "elems qu' = pre @ post" using Pop_waiting_reply [OF assms(5,1,6-8), of e] by blast
  let ?c = "(snd x c)\<lparr>mq := (mq (snd x c))(q \<mapsto> qu')\<rparr>"
  obtain d where d: "driver_at k c = Inr d" "HasSubscriptions d" using Nil.prems(2) by blast
  have "threaded_loop e k (Some q) timeout ([] @ x # ys) c = Inr (Got r, ?c)"
    using Nil.prems(3) assms(9) pop(1) d by (simp add: rounds_def pop_from_def Let_def)
  moreover have "mq ?c q = Some qu'" by simp
  ultimately show ?case using pop(2) by blast
next
  case (Cons y xs)
  have q0: "quiet_round k q a sub (snd y c)" using Cons.prems(1) by (auto simp: rounds_def dest: spec [of _ 0])
  then obtain qu0 where qu0: "mq (snd y c) q = Some qu0" "waiting_queue a sub qu0" "\<forall>m \<in> set (elems qu0). \<not> reply_of a sub m"
    by (auto simp: quiet_round_def)
  have "pop_from e (Some q) (snd y c) = Inr (None, snd y c)"
    using qu0(1) Pop_waiting_none [OF qu0(2) assms(1) qu0(3), of e] by (simp add: pop_from_def fun_upd_idem)
  moreover have "\<forall>j < length xs. quiet_round k q a sub (rounds (take (Suc j) xs) (snd y c))"
    using Cons.prems(1) by (auto simp: rounds_def dest: spec [of _ "Suc j" for j])
  ultimately show ?case
    using Cons.IH [of "snd y c"] Cons.prems(2,3) q0 assms(9) by (auto simp: rounds_def quiet_round_def Let_def)
qed


definition core4 :: "(unit, unit) core" where
  "core4 = core3\<lparr>drv := [0 \<mapsto> driver0\<lparr>subscriptions := 1\<rparr>],
     mq := [0 \<mapsto> MessageQueue_new fv0 True 10, 1 \<mapsto> MessageQueue_new fv0 True 10]\<rparr>"

definition message_of :: "u8 \<Rightarrow> u8 \<Rightarrow> unit payload message" where
  "message_of ty sub = \<lparr>Header = new_header (laser_at 0) ty sub None 0, Data = None, Queue = Some 0\<rparr>"

text \<open>While the requester waits, data and then the reply arrive on queue 1.\<close>

definition arrivals :: "(unit, unit) core \<Rightarrow> (unit, unit) core" where
  "arrivals c = c\<lparr>mq := (mq c)(1 \<mapsto> push_q (message_of MSGTYPE_RESP_ACK 2) (push_q (message_of MSGTYPE_DATA 1) (the (mq c 1))))\<rparr>"


section \<open>A request that is given up\<close>

text \<open>When the driver loses its last subscription the wait ends with the filter still set, so later \<open>Pop\<close>s of
  the requester pass replies to the lost request only.\<close>

lemma filter_left_behind:
  assumes "mq c q = Some qu" "driver_at k c = Inr d" "\<not> HasSubscriptions d" "waiting_queue a sub qu"
  shows "bindo (threaded_loop e k (Some q) timeout (x # xs) c) (finish_request a sub (Some q)) = Inr (None, c) \<and> filter_on qu"
  using assms by (simp add: finish_request_def waiting_queue_def)

end
