(* ===== verification/Thread.thy ===== *)
theory Thread
  imports Driver
begin

text \<open>
  The thread of a threaded driver, \<open>libplayercore/threaded_driver.cc\<close>: the states of \<open>ThreadState\<close>,
  \<open>StartThread\<close> and \<open>StopThread\<close>, and the life of a thread from \<open>DummyMain\<close> to \<open>DummyMainQuit\<close>.  The
  server's calls and the steps of the threads interleave; a step that holds the driver's lock is atomic, and so is
  \<open>StartThread\<close>, which returns only when the new thread has passed the barrier.  \<open>MainSetup\<close>, \<open>Main\<close> and
  \<open>MainQuit\<close> are the driver class's; the trace records the calls to them.
\<close>

section \<open>State\<close>

datatype thread_state = STOPPED | RUNNING | STOPPING | RESTARTING

text \<open>Where a thread is: in \<open>MainSetup\<close>, in \<open>Main\<close>, before \<open>MainQuit\<close>, or before the lock of \<open>DummyMainQuit\<close>.\<close>

datatype phase = InSetup | InMain | BeforeQuit | BeforeLock

datatype event = SetupOk | SetupFailed | SetupCancelled | QuitCalled

record tdriver =
  ThreadState :: thread_state
  SetupSuccessful :: bool
  driverthread :: "nat option"
  threads :: "nat \<Rightarrow> (phase \<times> bool) option"
  next_thread :: nat
  trace :: "event list"

definition ThreadedDriver_new :: tdriver where
  "ThreadedDriver_new =
     \<lparr>ThreadState = STOPPED, SetupSuccessful = False, driverthread = None, threads = \<lambda>_. None, next_thread = 0, trace = []\<rparr>"

section \<open>Operations\<close>

text \<open>The thread that \<open>pthread_create\<close> makes starts \<open>DummyMain\<close>, which clears \<open>SetupSuccessful\<close> before the barrier.\<close>

definition StartThread :: "tdriver \<Rightarrow> tdriver" where
  "StartThread s =
     (if ThreadState s = STOPPED then
        s\<lparr>ThreadState := RUNNING, SetupSuccessful := False, driverthread := Some (next_thread s),
          threads := (threads s)(next_thread s \<mapsto> (InSetup, False)), next_thread := next_thread s + 1\<rparr>
      else if ThreadState s = STOPPING then s\<lparr>ThreadState := RESTARTING\<rparr>
      else s)"

text \<open>Cancelling a thread that does not exist is a fault.\<close>

definition StopThread :: "tdriver \<Rightarrow> tdriver outcome" where
  "StopThread s =
     (if ThreadState s = RUNNING then
        (case driverthread s of
           None \<Rightarrow> Inl NullDeref
         | Some t \<Rightarrow>
             (case threads s t of
                None \<Rightarrow> Inl UseAfterFree
              | Some (p, _) \<Rightarrow> Inr (s\<lparr>threads := (threads s)(t \<mapsto> (p, True)), ThreadState := STOPPING\<rparr>)))
      else if ThreadState s = RESTARTING then Inr (s\<lparr>ThreadState := STOPPING\<rparr>)
      else Inr s)"

definition log_event :: "event \<Rightarrow> tdriver \<Rightarrow> tdriver" where
  "log_event ev s = s\<lparr>trace := trace s @ [ev]\<rparr>"

definition goto :: "nat \<Rightarrow> phase \<Rightarrow> bool \<Rightarrow> tdriver \<Rightarrow> tdriver" where
  "goto t p cancelled s = s\<lparr>threads := (threads s)(t \<mapsto> (p, cancelled))\<rparr>"

text \<open>\<open>MainSetup\<close> returned: \<open>Main\<close> runs only if it returned 0.\<close>

definition DummyMain_setup :: "nat \<Rightarrow> bool \<Rightarrow> int \<Rightarrow> tdriver \<Rightarrow> tdriver" where
  "DummyMain_setup t cancelled ret s =
     (if ret = 0 then goto t InMain cancelled (log_event SetupOk s\<lparr>SetupSuccessful := True\<rparr>)
      else goto t BeforeQuit cancelled (log_event SetupFailed s))"

definition DummyMainQuit_quit :: "nat \<Rightarrow> bool \<Rightarrow> tdriver \<Rightarrow> tdriver" where
  "DummyMainQuit_quit t cancelled s =
     goto t BeforeLock cancelled (if SetupSuccessful s then log_event QuitCalled s else s)"

text \<open>The rest of \<open>DummyMainQuit\<close>, under the lock; the thread ends with it.\<close>

definition DummyMainQuit_lock :: "nat \<Rightarrow> tdriver \<Rightarrow> tdriver" where
  "DummyMainQuit_lock t s =
     (let s1 = s\<lparr>driverthread := None, threads := (threads s)(t := None)\<rparr> in
      if ThreadState s = RESTARTING then StartThread (s1\<lparr>ThreadState := STOPPED\<rparr>)
      else s1\<lparr>ThreadState := STOPPED\<rparr>)"

section \<open>Steps\<close>

text \<open>A step of the thread \<open>t\<close>.  Cancellation takes effect only at a cancellation point inside \<open>MainSetup\<close> or \<open>Main\<close>.\<close>

inductive thread_step :: "tdriver \<Rightarrow> tdriver \<Rightarrow> bool" where
  setup_returns: "threads s t = Some (InSetup, c) \<Longrightarrow> thread_step s (DummyMain_setup t c ret s)"
| setup_cancelled: "threads s t = Some (InSetup, True) \<Longrightarrow> thread_step s (goto t BeforeQuit True (log_event SetupCancelled s))"
| main_returns: "threads s t = Some (InMain, c) \<Longrightarrow> thread_step s (goto t BeforeQuit c s)"
| main_cancelled: "threads s t = Some (InMain, True) \<Longrightarrow> thread_step s (goto t BeforeQuit True s)"
| quits: "threads s t = Some (BeforeQuit, c) \<Longrightarrow> thread_step s (DummyMainQuit_quit t c s)"
| ends: "threads s t = Some (BeforeLock, c) \<Longrightarrow> thread_step s (DummyMainQuit_lock t s)"

text \<open>\<open>Setup\<close> and \<open>Shutdown\<close> of the driver call \<open>StartThread\<close> and \<open>StopThread\<close> under the lock.\<close>

inductive driver_step :: "tdriver \<Rightarrow> tdriver \<Rightarrow> bool" where
  start: "driver_step s (StartThread s)"
| stop: "StopThread s = Inr s' \<Longrightarrow> driver_step s s'"
| thread: "thread_step s s' \<Longrightarrow> driver_step s s'"

inductive reachable :: "tdriver \<Rightarrow> bool" where
  init: "reachable ThreadedDriver_new"
| step: "reachable s \<Longrightarrow> driver_step s s' \<Longrightarrow> reachable s'"

inductive_cases thread_stepE: "thread_step s s'"
inductive_cases driver_stepE: "driver_step s s'"

section \<open>The invariant\<close>

text \<open>The calls recorded: \<open>None\<close> after a wrong order, else whether \<open>MainSetup\<close> has succeeded without a \<open>MainQuit\<close> since.\<close>

fun is_up :: "event list \<Rightarrow> bool option" where
  "is_up [] = Some False"
| "is_up (QuitCalled # rest) = (if is_up rest = Some True then Some False else None)"
| "is_up (SetupOk # rest) = (if is_up rest = Some False then Some True else None)"
| "is_up (ev # rest) = (if is_up rest = Some False then Some False else None)"

definition calls_up :: "tdriver \<Rightarrow> bool option" where
  "calls_up s = is_up (rev (trace s))"

text \<open>Stopped: no thread.  Otherwise one thread, the one \<open>driverthread\<close> names; once stopping it is cancelled.\<close>

definition thread_inv :: "tdriver \<Rightarrow> bool" where
  "thread_inv s \<longleftrightarrow>
     (if ThreadState s = STOPPED then threads s = (\<lambda>_. None) \<and> driverthread s = None \<and> calls_up s = Some False
      else
        (\<exists>t p c. driverthread s = Some t \<and> threads s = [t \<mapsto> (p, c)] \<and>
           (ThreadState s \<noteq> RUNNING \<longrightarrow> c) \<and> (p \<in> {InSetup, InMain} \<longrightarrow> SetupSuccessful s = (p = InMain)) \<and>
           calls_up s = Some (SetupSuccessful s \<and> p \<noteq> BeforeLock)))"

lemma calls_up_log:
  "calls_up (log_event ev s) = (case ev of
     QuitCalled \<Rightarrow> if calls_up s = Some True then Some False else None
   | SetupOk \<Rightarrow> if calls_up s = Some False then Some True else None
   | _ \<Rightarrow> if calls_up s = Some False then Some False else None)"
  by (cases ev) (simp_all add: calls_up_def log_event_def)

lemma calls_up_frame [simp]:
  "calls_up (s\<lparr>ThreadState := a\<rparr>) = calls_up s" "calls_up (s\<lparr>SetupSuccessful := b\<rparr>) = calls_up s"
  "calls_up (s\<lparr>driverthread := d\<rparr>) = calls_up s" "calls_up (s\<lparr>threads := f\<rparr>) = calls_up s"
  "calls_up (s\<lparr>next_thread := n\<rparr>) = calls_up s" "calls_up (goto t p c s) = calls_up s"
  by (simp_all add: calls_up_def goto_def)

lemma log_event_frame [simp]:
  "ThreadState (log_event ev s) = ThreadState s" "SetupSuccessful (log_event ev s) = SetupSuccessful s"
  "driverthread (log_event ev s) = driverthread s" "threads (log_event ev s) = threads s"
  by (simp_all add: log_event_def)

lemma thread_inv_stopped:
  "ThreadState s = STOPPED \<Longrightarrow> threads s = (\<lambda>_. None) \<Longrightarrow> driverthread s = None \<Longrightarrow> calls_up s = Some False \<Longrightarrow>
   thread_inv s"
  by (simp add: thread_inv_def)

lemma thread_invI:
  assumes "ThreadState s \<noteq> STOPPED" "driverthread s = Some t" "threads s = [t \<mapsto> (p, c)]" "ThreadState s \<noteq> RUNNING \<longrightarrow> c"
    "p \<in> {InSetup, InMain} \<longrightarrow> SetupSuccessful s = (p = InMain)" "calls_up s = Some (SetupSuccessful s \<and> p \<noteq> BeforeLock)"
  shows "thread_inv s"
  unfolding thread_inv_def using assms by (metis (no_types, lifting))

lemma thread_invE:
  assumes "thread_inv s" "ThreadState s \<noteq> STOPPED"
  obtains t p c where "driverthread s = Some t" "threads s = [t \<mapsto> (p, c)]" "ThreadState s \<noteq> RUNNING \<longrightarrow> c"
    "p \<in> {InSetup, InMain} \<longrightarrow> SetupSuccessful s = (p = InMain)" "calls_up s = Some (SetupSuccessful s \<and> p \<noteq> BeforeLock)"
  using assms unfolding thread_inv_def by (auto split: if_splits)

lemma inv_stopped: "thread_inv s \<Longrightarrow> ThreadState s = STOPPED \<Longrightarrow> threads s = (\<lambda>_. None) \<and> driverthread s = None \<and> calls_up s = Some False"
  by (simp add: thread_inv_def)

lemma inv_StartThread:
  assumes inv: "thread_inv s"
  shows "thread_inv (StartThread s)"
proof (cases "ThreadState s = STOPPED")
  case True
  from inv_stopped [OF inv True] True show ?thesis
    by (intro thread_invI [where t = "next_thread s" and p = InSetup and c = False]) (auto simp: StartThread_def)
next
  case False
  from thread_invE [OF inv False] obtain t p c where
    s: "driverthread s = Some t" "threads s = [t \<mapsto> (p, c)]" "ThreadState s \<noteq> RUNNING \<longrightarrow> c"
      "p \<in> {InSetup, InMain} \<longrightarrow> SetupSuccessful s = (p = InMain)" "calls_up s = Some (SetupSuccessful s \<and> p \<noteq> BeforeLock)" .
  show ?thesis
    by (rule thread_invI [where t = t and p = p and c = c]) (use s False in \<open>auto simp: StartThread_def\<close>)
qed

text \<open>With the invariant \<open>StopThread\<close> finds its thread.\<close>

lemma StopThread_result:
  assumes inv: "thread_inv s"
  obtains s' where "StopThread s = Inr s'" "thread_inv s'"
proof (cases "ThreadState s = STOPPED")
  case True
  with inv that [of s] show ?thesis by (simp add: StopThread_def)
next
  case False
  from thread_invE [OF inv False] obtain t p c where
    s: "driverthread s = Some t" "threads s = [t \<mapsto> (p, c)]" "ThreadState s \<noteq> RUNNING \<longrightarrow> c"
      "p \<in> {InSetup, InMain} \<longrightarrow> SetupSuccessful s = (p = InMain)" "calls_up s = Some (SetupSuccessful s \<and> p \<noteq> BeforeLock)" .
  define s' where "s' = s\<lparr>threads := [t \<mapsto> (p, True)], ThreadState := STOPPING\<rparr>"
  have inv': "thread_inv s'"
    by (rule thread_invI [where t = t and p = p and c = True]) (use s in \<open>auto simp: s'_def\<close>)
  show ?thesis
  proof (cases "ThreadState s = RUNNING")
    case True
    with s have "StopThread s = Inr s'" by (simp add: StopThread_def s'_def)
    with inv' show ?thesis by (rule that [rotated])
  next
    case r: False
    have same: "[t \<mapsto> (p, True)] = threads s" using s r by simp
    have s': "s' = s\<lparr>ThreadState := STOPPING\<rparr>" unfolding s'_def same by simp
    show ?thesis
    proof (cases "ThreadState s = RESTARTING")
      case True
      with s' have "StopThread s = Inr s'" by (simp add: StopThread_def)
      with inv' show ?thesis by (rule that [rotated])
    next
      case False
      with r have "StopThread s = Inr s" by (simp add: StopThread_def)
      then show ?thesis using inv by (rule that)
    qed
  qed
qed

lemma one_thread:
  assumes inv: "thread_inv s" and th: "threads s t = Some (p, c)"
  shows "ThreadState s \<noteq> STOPPED" "driverthread s = Some t" "threads s = [t \<mapsto> (p, c)]" "ThreadState s \<noteq> RUNNING \<longrightarrow> c"
    "p \<in> {InSetup, InMain} \<longrightarrow> SetupSuccessful s = (p = InMain)" "calls_up s = Some (SetupSuccessful s \<and> p \<noteq> BeforeLock)"
proof -
  show ns: "ThreadState s \<noteq> STOPPED" using inv_stopped [OF inv] th by auto
  from thread_invE [OF inv ns] obtain t' p' c' where
    s: "driverthread s = Some t'" "threads s = [t' \<mapsto> (p', c')]" "ThreadState s \<noteq> RUNNING \<longrightarrow> c'"
      "p' \<in> {InSetup, InMain} \<longrightarrow> SetupSuccessful s = (p' = InMain)" "calls_up s = Some (SetupSuccessful s \<and> p' \<noteq> BeforeLock)" .
  from th s(2) have eq: "t' = t" "p' = p" "c' = c" by (auto split: if_splits)
  from s show "driverthread s = Some t" "threads s = [t \<mapsto> (p, c)]" "ThreadState s \<noteq> RUNNING \<longrightarrow> c"
    "p \<in> {InSetup, InMain} \<longrightarrow> SetupSuccessful s = (p = InMain)" "calls_up s = Some (SetupSuccessful s \<and> p \<noteq> BeforeLock)"
    unfolding eq by blast+
qed

lemma inv_thread_step: "thread_inv s \<Longrightarrow> thread_step s s' \<Longrightarrow> thread_inv s'"
proof (erule thread_stepE)
  fix t c ret assume inv: "thread_inv s" and s': "s' = DummyMain_setup t c ret s" and t: "threads s t = Some (InSetup, c)"
  show "thread_inv s'"
    by (rule thread_invI [where t = t and p = "if ret = 0 then InMain else BeforeQuit" and c = c])
      (use one_thread [OF inv t] in \<open>auto simp: s' DummyMain_setup_def goto_def calls_up_log\<close>)
next
  fix t assume inv: "thread_inv s" and s': "s' = goto t BeforeQuit True (log_event SetupCancelled s)" and t: "threads s t = Some (InSetup, True)"
  show "thread_inv s'"
    by (rule thread_invI [where t = t and p = BeforeQuit and c = True])
      (use one_thread [OF inv t] in \<open>auto simp: s' goto_def calls_up_log\<close>)
next
  fix t c assume inv: "thread_inv s" and s': "s' = goto t BeforeQuit c s" and t: "threads s t = Some (InMain, c)"
  show "thread_inv s'"
    by (rule thread_invI [where t = t and p = BeforeQuit and c = c]) (use one_thread [OF inv t] in \<open>auto simp: s' goto_def\<close>)
next
  fix t assume inv: "thread_inv s" and s': "s' = goto t BeforeQuit True s" and t: "threads s t = Some (InMain, True)"
  show "thread_inv s'"
    by (rule thread_invI [where t = t and p = BeforeQuit and c = True]) (use one_thread [OF inv t] in \<open>auto simp: s' goto_def\<close>)
next
  fix t c assume inv: "thread_inv s" and s': "s' = DummyMainQuit_quit t c s" and t: "threads s t = Some (BeforeQuit, c)"
  show "thread_inv s'"
    by (rule thread_invI [where t = t and p = BeforeLock and c = c])
      (use one_thread [OF inv t] in \<open>auto simp: s' DummyMainQuit_quit_def goto_def calls_up_log\<close>)
next
  fix t c assume inv: "thread_inv s" and s': "s' = DummyMainQuit_lock t s" and t: "threads s t = Some (BeforeLock, c)"
  have "thread_inv (s\<lparr>driverthread := None, threads := (threads s)(t := None), ThreadState := STOPPED\<rparr>)"
    by (rule thread_inv_stopped) (use one_thread [OF inv t] in \<open>auto simp: fun_eq_iff\<close>)
  then show "thread_inv s'"
    unfolding s' DummyMainQuit_lock_def Let_def by (auto dest: inv_StartThread)
qed

lemma inv_reachable: "reachable s \<Longrightarrow> thread_inv s"
proof (induction rule: reachable.induct)
  case init
  then show ?case by (simp add: thread_inv_def ThreadedDriver_new_def calls_up_def)
next
  case (step s s')
  from step(2) step.IH show ?case
    by (auto elim!: driver_stepE intro: inv_StartThread inv_thread_step elim: StopThread_result)
qed

section \<open>Ending\<close>

text \<open>How far a thread is from its end.\<close>

fun phase_left :: "phase \<Rightarrow> nat" where
  "phase_left InSetup = 4"
| "phase_left InMain = 3"
| "phase_left BeforeQuit = 2"
| "phase_left BeforeLock = 1"

definition steps_left :: "tdriver \<Rightarrow> nat" where
  "steps_left s = (case driverthread s of None \<Rightarrow> 0 | Some t \<Rightarrow> (case threads s t of None \<Rightarrow> 0 | Some (p, _) \<Rightarrow> phase_left p))"

text \<open>A cancelled thread always has a step, and each of its steps brings it nearer to its end.\<close>

lemma thread_goes_on:
  assumes inv: "thread_inv s" and st: "ThreadState s = STOPPING"
  shows "\<exists>s'. thread_step s s'"
proof -
  from st have "ThreadState s \<noteq> STOPPED" by simp
  from thread_invE [OF inv this] obtain t p c where s: "threads s = [t \<mapsto> (p, c)]" by metis
  then have "threads s t = Some (p, c)" by simp
  then show ?thesis by (cases p) (metis thread_step.intros)+
qed

lemma thread_step_progress:
  assumes inv: "thread_inv s" and st: "ThreadState s = STOPPING" and step: "thread_step s s'"
  shows "ThreadState s' \<in> {STOPPING, STOPPED} \<and> steps_left s' < steps_left s"
  using step
proof (rule thread_stepE)
  fix t c ret assume s': "s' = DummyMain_setup t c ret s" and t: "threads s t = Some (InSetup, c)"
  show "ThreadState s' \<in> {STOPPING, STOPPED} \<and> steps_left s' < steps_left s"
    using one_thread(2) [OF inv t] t st by (simp add: s' DummyMain_setup_def goto_def log_event_def steps_left_def)
next
  fix t assume s': "s' = goto t BeforeQuit True (log_event SetupCancelled s)" and t: "threads s t = Some (InSetup, True)"
  show "ThreadState s' \<in> {STOPPING, STOPPED} \<and> steps_left s' < steps_left s"
    using one_thread(2) [OF inv t] t st by (simp add: s' goto_def log_event_def steps_left_def)
next
  fix t c assume s': "s' = goto t BeforeQuit c s" and t: "threads s t = Some (InMain, c)"
  show "ThreadState s' \<in> {STOPPING, STOPPED} \<and> steps_left s' < steps_left s"
    using one_thread(2) [OF inv t] t st by (simp add: s' goto_def log_event_def steps_left_def)
next
  fix t assume s': "s' = goto t BeforeQuit True s" and t: "threads s t = Some (InMain, True)"
  show "ThreadState s' \<in> {STOPPING, STOPPED} \<and> steps_left s' < steps_left s"
    using one_thread(2) [OF inv t] t st by (simp add: s' goto_def log_event_def steps_left_def)
next
  fix t c assume s': "s' = DummyMainQuit_quit t c s" and t: "threads s t = Some (BeforeQuit, c)"
  show "ThreadState s' \<in> {STOPPING, STOPPED} \<and> steps_left s' < steps_left s"
    using one_thread(2) [OF inv t] t st by (simp add: s' DummyMainQuit_quit_def goto_def log_event_def steps_left_def)
next
  fix t c assume s': "s' = DummyMainQuit_lock t s" and t: "threads s t = Some (BeforeLock, c)"
  show "ThreadState s' \<in> {STOPPING, STOPPED} \<and> steps_left s' < steps_left s"
    using one_thread(2) [OF inv t] t st by (simp add: s' DummyMainQuit_lock_def goto_def log_event_def steps_left_def)
qed

lemma stopping_thread_ends:
  assumes "thread_inv s" "ThreadState s = STOPPING"
  shows "\<exists>s'. thread_step\<^sup>*\<^sup>* s s' \<and> thread_inv s' \<and> ThreadState s' = STOPPED"
  using assms
proof (induction "steps_left s" arbitrary: s rule: less_induct)
  case less
  from thread_goes_on [OF less.prems] obtain s1 where s1: "thread_step s s1" ..
  have inv1: "thread_inv s1" using less.prems(1) s1 by (rule inv_thread_step)
  note prog = thread_step_progress [OF less.prems s1]
  show ?case
  proof (cases "ThreadState s1 = STOPPED")
    case True
    with s1 inv1 show ?thesis by blast
  next
    case False
    with prog have "ThreadState s1 = STOPPING" by simp
    from less.hyps [OF _ inv1 this] prog obtain s' where "thread_step\<^sup>*\<^sup>* s1 s'" "thread_inv s'" "ThreadState s' = STOPPED" by blast
    with s1 show ?thesis by (blast intro: converse_rtranclp_into_rtranclp)
  qed
qed

section \<open>Claims\<close>

text \<open>C6: However \<open>Setup\<close>, \<open>Shutdown\<close> and the threads of a threaded driver interleave, the driver has at most one thread,
  none when it is stopped; \<open>StopThread\<close> always finds the thread it cancels; and the calls keep the order that \<open>driver.h\<close>
  promises: \<open>MainSetup\<close> is never entered while an earlier successful setup is still without its \<open>MainQuit\<close>, and
  \<open>MainQuit\<close> runs exactly once after each successful one, before the driver counts as stopped.\<close>

theorem thread_lifecycle:
  assumes "reachable s"
  shows "(if ThreadState s = STOPPED then threads s = (\<lambda>_. None) \<and> is_up (rev (trace s)) = Some False
          else \<exists>t th. driverthread s = Some t \<and> threads s = [t \<mapsto> th]) \<and>
         (\<exists>s'. StopThread s = Inr s') \<and> is_up (rev (trace s)) \<noteq> None"
proof -
  from assms have inv: "thread_inv s" by (rule inv_reachable)
  have stop: "\<exists>s'. StopThread s = Inr s'" using StopThread_result [OF inv] by metis
  show ?thesis
  proof (cases "ThreadState s = STOPPED")
    case True
    with inv_stopped [OF inv] stop show ?thesis by (simp add: calls_up_def)
  next
    case False
    from thread_invE [OF inv False] obtain t p c where "driverthread s = Some t" "threads s = [t \<mapsto> (p, c)]"
      "calls_up s = Some (SetupSuccessful s \<and> p \<noteq> BeforeLock)" .
    with False stop show ?thesis by (auto simp: calls_up_def)
  qed
qed

text \<open>Started, set up, stopped and started again before the first thread has ended: the second thread is set up after the quit of the first.\<close>

definition just_started :: tdriver where "just_started = DummyMain_setup 0 False 0 (StartThread ThreadedDriver_new)"
definition restarting_driver :: tdriver where "restarting_driver = StartThread (goto 0 BeforeQuit True (just_started\<lparr>threads := [0 \<mapsto> (InMain, True)], ThreadState := STOPPING\<rparr>))"
definition restarted_driver :: tdriver where "restarted_driver = DummyMain_setup 1 False 0 (DummyMainQuit_lock 0 (DummyMainQuit_quit 0 True restarting_driver))"

lemmas example_defs = just_started_def restarting_driver_def restarted_driver_def ThreadedDriver_new_def StartThread_def DummyMain_setup_def DummyMainQuit_lock_def
  DummyMainQuit_quit_def goto_def log_event_def

lemma reachable_just_started: "reachable just_started"
  unfolding just_started_def by (rule step [OF step [OF init start] thread, OF setup_returns]) (simp add: example_defs)

lemma stop_just_started: "StopThread just_started = Inr (just_started\<lparr>threads := [0 \<mapsto> (InMain, True)], ThreadState := STOPPING\<rparr>)"
  by (simp add: example_defs StopThread_def)

lemma reachable_restarting: "reachable restarting_driver"
  unfolding restarting_driver_def
  by (rule step [OF step [OF step [OF reachable_just_started stop [OF stop_just_started]] thread, OF main_cancelled] start]) (simp add: example_defs)

lemma reachable_restarted: "reachable restarted_driver"
proof -
  have "reachable (DummyMainQuit_quit 0 True restarting_driver)"
    by (rule step [OF reachable_restarting thread, OF quits]) (simp add: example_defs)
  then have "reachable (DummyMainQuit_lock 0 (DummyMainQuit_quit 0 True restarting_driver))"
    by (rule step [OF _ thread, OF _ ends]) (simp add: example_defs)
  then show ?thesis
    unfolding restarted_driver_def by (rule step [OF _ thread, OF _ setup_returns]) (simp add: example_defs)
qed

theorem thread_lifecycle_witness:
  "trace restarted_driver = [SetupOk, QuitCalled, SetupOk] \<and> ThreadState restarted_driver = RUNNING \<and> (\<exists>t th. driverthread restarted_driver = Some t \<and> threads restarted_driver = [t \<mapsto> th])"
proof -
  have t: "trace restarted_driver = [SetupOk, QuitCalled, SetupOk]" "ThreadState restarted_driver = RUNNING" by (simp_all add: example_defs)
  with thread_lifecycle [OF reachable_restarted] show ?thesis by simp
qed

text \<open>A driver that has been told to stop does stop: from every reachable state that is stopping, the thread's own
  steps lead to a stopped driver, none of them can be refused, and every one of them brings it nearer to its end.\<close>

theorem stopping_driver_stops:
  assumes "reachable s" and "ThreadState s = STOPPING"
  shows "(\<exists>s'. thread_step\<^sup>*\<^sup>* s s' \<and> reachable s' \<and> ThreadState s' = STOPPED) \<and> (\<exists>s'. thread_step s s') \<and>
         (\<forall>s'. thread_step s s' \<longrightarrow> ThreadState s' \<in> {STOPPING, STOPPED} \<and> steps_left s' < steps_left s)"
proof -
  from assms(1) have inv: "thread_inv s" by (rule inv_reachable)
  from stopping_thread_ends [OF inv assms(2)] obtain s' where s': "thread_step\<^sup>*\<^sup>* s s'" "ThreadState s' = STOPPED" by blast
  from s'(1) assms(1) have "reachable s'" by (induction) (blast intro: step thread)+
  with s' thread_goes_on [OF inv assms(2)] thread_step_progress [OF inv assms(2)] show ?thesis by blast
qed

definition stopping_driver :: tdriver where "stopping_driver = just_started\<lparr>threads := [0 \<mapsto> (InMain, True)], ThreadState := STOPPING\<rparr>"

theorem stopping_driver_stops_witness:
  "\<exists>s'. thread_step\<^sup>*\<^sup>* stopping_driver s' \<and> reachable s' \<and> ThreadState s' = STOPPED"
proof -
  have "reachable stopping_driver" unfolding stopping_driver_def by (rule step [OF reachable_just_started stop [OF stop_just_started]])
  moreover have "ThreadState stopping_driver = STOPPING" by (simp add: stopping_driver_def)
  ultimately show ?thesis using stopping_driver_stops by blast
qed

section \<open>Edge cases\<close>

text \<open>A thread whose \<open>MainSetup\<close> fails takes the driver from \<open>RUNNING\<close> to \<open>STOPPED\<close> without \<open>StopThread\<close> having been called.\<close>

lemma failed_setup_stops:
  "ThreadState (DummyMainQuit_lock 0 (DummyMainQuit_quit 0 False (DummyMain_setup 0 False (- 1) (StartThread ThreadedDriver_new)))) = STOPPED"
  by (simp add: example_defs)

end
