(* ===== verification/Tcp.thy ===== *)
theory Tcp
  imports Traffic FileWatcher
begin

text \<open>
  The TCP server, \<open>libplayertcp/playertcp.cc\<close>: its connections and listeners, opening and closing of connections,
  and the removal of those marked for deletion.  A socket is what the kernel holds for it: the chunks that will be
  received, what comes after them, the results that sends will have, and the bytes sent so far.  The functions
  that the build generates from the interface definitions, and zlib, are fields of the parameter \<open>e\<close>.
\<close>

section \<open>Payloads of the player interface\<close>

text \<open>The structures of \<open>interfaces/001_player.def\<close>; those of the other interfaces are left open.\<close>

datatype 'x tcp_data =
    DevReq devaddr u8 u32 string
  | DevList "devaddr list"
  | DriverInfo devaddr u32 string
  | DataMode u8
  | ReplaceRule c_int c_int c_int c_int c_int
  | Interface 'x

type_synonym 'x tcp_payload = "'x tcp_data payload"

datatype 'x packer = Packer (encode_with: "'x tcp_payload \<Rightarrow> nat \<Rightarrow> u8 list option") (decode_with: "u8 list \<Rightarrow> (nat \<times> 'x tcp_payload) option")

record 'x tcp_env =
  te :: "'x tcp_data env"
  te_now :: real
  playerversion :: string
  hdr_pack :: "msghdr \<Rightarrow> u8 list option"
  hdr_unpack :: "u8 list \<Rightarrow> msghdr option"
  get_packfunc :: "u16 \<Rightarrow> u8 \<Rightarrow> u8 \<Rightarrow> 'x packer option"
  map_zip :: "'x tcp_payload \<Rightarrow> 'x tcp_payload option"
  map_unzip :: "'x tcp_payload option \<Rightarrow> 'x tcp_payload option"
  stale_bytes :: "nat \<Rightarrow> u8 list"
  stack_int :: int
  uninit_filter :: filter_vals

abbreviation READBUFFER_SIZE :: nat where "READBUFFER_SIZE \<equiv> 65536"
abbreviation WRITEBUFFER_SIZE :: nat where "WRITEBUFFER_SIZE \<equiv> 65536"
abbreviation MSGHDR_SIZE :: nat where "MSGHDR_SIZE \<equiv> 40"
abbreviation MAX_MESSAGE_SIZE :: nat where "MAX_MESSAGE_SIZE \<equiv> 33554432"
abbreviation DEFAULT_MAXLEN :: nat where "DEFAULT_MAXLEN \<equiv> 1024"
abbreviation IDENT_STRLEN :: nat where "IDENT_STRLEN \<equiv> 32"

section \<open>State\<close>

datatype send_result = Accepted nat | WouldBlock | SendFailed
datatype recv_end = NoMore | RecvFailed

record sock =
  rx :: "u8 list list"
  rx_end :: recv_end
  tx_results :: "send_result list"
  sent :: "u8 list"

text \<open>\<open>readbuffer\<close> and \<open>writebuffer\<close> are the used parts of the buffers.  A device is its position in the device table.\<close>

record conn =
  del :: bool
  valid :: bool
  fd :: int
  c_host :: u32
  c_port :: int
  c_queue :: qptr
  readbuffer :: "u8 list"
  readbuffersize :: nat
  writebuffer :: "u8 list"
  writebuffersize :: nat
  dev_subs :: "nat option list"
  kill_flag :: "nat option"

definition no_conn :: conn where
  "no_conn = \<lparr>del = False, valid = False, fd = 0, c_host = 0, c_port = 0, c_queue = None, readbuffer = [], readbuffersize = 0,
     writebuffer = [], writebuffersize = 0, dev_subs = [], kill_flag = None\<rparr>"

text \<open>The lists \<open>clients\<close> and \<open>client_ufds\<close> are the allocated arrays of \<open>size_clients\<close> entries.\<close>

record ('s, 'x) tcp =
  t_host :: u32
  listeners :: "(int \<times> int) list"
  num_clients :: nat
  clients :: "conn list"
  client_ufds :: "int list"
  kill_flags :: "nat \<Rightarrow> int"
  socks :: "int \<Rightarrow> sock option"
  t_watcher :: watcher
  next_qid :: qid
  t_core :: "('s, 'x tcp_data) core"

definition PlayerTCP_new :: "u32 option \<Rightarrow> (devaddr \<Rightarrow> ('s, 'x tcp_data) driver option) \<Rightarrow> watcher \<Rightarrow> (int \<Rightarrow> sock option) \<Rightarrow> qid
    \<Rightarrow> ('s, 'x tcp_data) core \<Rightarrow> ('s, 'x) tcp" where
  "PlayerTCP_new localhost remote_init w ss q c =
     \<lparr>t_host = (case localhost of Some h \<Rightarrow> h | None \<Rightarrow> 0), listeners = [], num_clients = 0, clients = [], client_ufds = [],
      kill_flags = \<lambda>_. 0, socks = ss, t_watcher = w, next_qid = q, t_core = AddRemoteDriverFn remote_init c\<rparr>"

abbreviation client :: "nat \<Rightarrow> ('s, 'x) tcp \<Rightarrow> conn" where
  "client i t \<equiv> clients t ! i"

definition upd_client :: "nat \<Rightarrow> (conn \<Rightarrow> conn) \<Rightarrow> ('s, 'x) tcp \<Rightarrow> ('s, 'x) tcp" where
  "upd_client i f t = t\<lparr>clients := (clients t)[i := f (client i t)]\<rparr>"

section \<open>Listeners\<close>

text \<open>\<open>bind\<close> gives the descriptor and the port of a new listening socket.  The loop starts at the number of listeners there
  were before and uses the same index for the array of ports.\<close>

fun listen_loop :: "(int \<Rightarrow> (int \<times> int) option) \<Rightarrow> int list \<Rightarrow> nat list \<Rightarrow> ('s, 'x) tcp \<Rightarrow> (int \<times> ('s, 'x) tcp) outcome" where
  "listen_loop bind ports [] t = Inr (0, t)"
| "listen_loop bind ports (i # is) t =
     (if length ports \<le> i then Inl OutOfBounds
      else
        case bind (ports ! i) of
          None \<Rightarrow> Inr (- 1, t\<lparr>listeners := (listeners t)[i := (- 1, snd (listeners t ! i))]\<rparr>)
        | Some (f, p) \<Rightarrow>
            listen_loop bind ports is
              (t\<lparr>listeners := (listeners t)[i := (f, p)], t_watcher := AddFileWatch_noqueue f True False True (t_watcher t)\<rparr>))"

text \<open>\<open>garbage\<close> is what \<open>realloc\<close> leaves in the new entries.\<close>

definition Listen :: "(int \<Rightarrow> (int \<times> int) option) \<Rightarrow> (int \<times> int) \<Rightarrow> int list \<Rightarrow> ('s, 'x) tcp \<Rightarrow> (int \<times> ('s, 'x) tcp) outcome" where
  "Listen bind garbage ports t =
     (let tmp = length (listeners t); n = tmp + length ports
      in listen_loop bind ports [tmp..<n] (t\<lparr>listeners := listeners t @ replicate (length ports) garbage\<rparr>))"

definition Listen_port :: "(int \<Rightarrow> (int \<times> int) option) \<Rightarrow> (int \<times> int) \<Rightarrow> int \<Rightarrow> ('s, 'x) tcp \<Rightarrow> (int \<times> ('s, 'x) tcp) outcome" where
  "Listen_port bind garbage port t = Listen bind garbage [port] t"

definition Listening :: "int \<Rightarrow> ('s, 'x) tcp \<Rightarrow> bool" where
  "Listening port t \<longleftrightarrow> list_ex (\<lambda>l. port = snd l) (listeners t)"

section \<open>Sockets\<close>

text \<open>The result is negative on an error; the flag tells whether it was \<open>EAGAIN\<close>.\<close>

definition c_send :: "int \<Rightarrow> u8 list \<Rightarrow> (int \<Rightarrow> sock option) \<Rightarrow> int \<times> bool \<times> (int \<Rightarrow> sock option)" where
  "c_send f bs ss =
     (case ss f of
        None \<Rightarrow> (- 1, False, ss)
      | Some s \<Rightarrow>
          (case tx_results s of
             [] \<Rightarrow> (- 1, True, ss)
           | Accepted n # rs \<Rightarrow>
               (let k = min n (length bs) in (int k, False, ss(f \<mapsto> s\<lparr>tx_results := rs, sent := sent s @ take k bs\<rparr>)))
           | WouldBlock # rs \<Rightarrow> (- 1, True, ss(f \<mapsto> s\<lparr>tx_results := rs\<rparr>))
           | SendFailed # rs \<Rightarrow> (- 1, False, ss(f \<mapsto> s\<lparr>tx_results := rs\<rparr>))))"

definition c_recv :: "int \<Rightarrow> nat \<Rightarrow> (int \<Rightarrow> sock option) \<Rightarrow> (int \<times> bool \<times> u8 list) \<times> (int \<Rightarrow> sock option)" where
  "c_recv f n ss =
     (case ss f of
        None \<Rightarrow> ((- 1, False, []), ss)
      | Some s \<Rightarrow>
          (case rx s of
             [] \<Rightarrow> ((- 1, rx_end s = NoMore, []), ss)
           | b # bs \<Rightarrow>
               (let got = take n b; left = drop n b
                in ((int (length got), False, got), ss(f \<mapsto> s\<lparr>rx := (if left = [] then bs else left # bs)\<rparr>)))))"

section \<open>Opening connections\<close>

text \<open>The banner: \<open>Player v.\<close> and the version, cut to 30 characters (\<open>snprintf\<close> counts its zero) and filled with zeros.\<close>

definition banner :: "'x tcp_env \<Rightarrow> u8 list" where
  "banner e =
     (let s = take (IDENT_STRLEN - 2) (''Player v.'' @ playerversion e)
      in map (\<lambda>c. of_nat (of_char c)) s @ replicate (IDENT_STRLEN - length s) 0)"

definition AddClient_queue ::
    "'x tcp_env \<Rightarrow> u32 \<Rightarrow> int \<Rightarrow> int \<Rightarrow> bool \<Rightarrow> nat option \<Rightarrow> qptr \<Rightarrow> ('s, 'x) tcp \<Rightarrow> (qptr \<times> ('s, 'x) tcp) outcome" where
  "AddClient_queue e local_host local_port newsock send_banner kf queue t =
     (let j = num_clients t;
          t1 = (if j = length (clients t) then t\<lparr>clients := clients t @ [no_conn], client_ufds := client_ufds t @ [0]\<rparr> else t);
          cl = no_conn\<lparr>valid := True, fd := newsock, c_host := local_host, c_port := local_port, c_queue := queue,
                 readbuffersize := READBUFFER_SIZE, writebuffersize := WRITEBUFFER_SIZE, kill_flag := kf\<rparr>;
          t2 = t1\<lparr>clients := (clients t1)[j := cl], client_ufds := (client_ufds t1)[j := newsock],
                 t_watcher := AddFileWatch_noqueue newsock True False True (t_watcher t1), num_clients := j + 1\<rparr>;
          t3 = (if send_banner then t2\<lparr>socks := snd (snd (c_send newsock (banner e) (socks t2)))\<rparr> else t2)
      in bindo (c_assert (queue \<noteq> None)) (\<lambda>_. Inr (queue, t3)))"

definition AddClient ::
    "'x tcp_env \<Rightarrow> u32 \<Rightarrow> int \<Rightarrow> int \<Rightarrow> bool \<Rightarrow> nat option \<Rightarrow> ('s, 'x) tcp \<Rightarrow> (qptr \<times> ('s, 'x) tcp) outcome" where
  "AddClient e local_host local_port newsock send_banner kf t =
     (let q = next_qid t; c = t_core t;
          t1 = t\<lparr>next_qid := q + 1, t_core := c\<lparr>mq := (mq c)(q \<mapsto> MessageQueue_new (uninit_filter e) False DEFAULT_MAXLEN)\<rparr>\<rparr>
      in AddClient_queue e local_host local_port newsock send_banner kf (Some q) t1)"

text \<open>What \<open>poll\<close>, \<open>accept\<close> and the settings of the new socket give for one listener.\<close>

datatype accept_result = NoConnection | AcceptFailed | SettingFailed | NewConnection int

fun accept_loop :: "'x tcp_env \<Rightarrow> (nat \<times> accept_result) list \<Rightarrow> nat \<Rightarrow> ('s, 'x) tcp \<Rightarrow> (int \<times> ('s, 'x) tcp) outcome" where
  "accept_loop e [] num_accepts t = Inr (0, t)"
| "accept_loop e ((i, r) # rs) num_accepts t =
     (if num_accepts = 0 then Inr (0, t)
      else
        case r of
          NoConnection \<Rightarrow> accept_loop e rs num_accepts t
        | AcceptFailed \<Rightarrow> Inr (- 1, t)
        | SettingFailed \<Rightarrow> Inr (- 1, t)
        | NewConnection s \<Rightarrow>
            bindo (AddClient e (t_host t) (snd (listeners t ! i)) s True None t) (\<lambda>(_, t').
              accept_loop e rs (num_accepts - 1) t'))"

text \<open>The result of \<open>poll\<close> on the listeners: an error other than an interrupt, or one result for each of them.\<close>

definition Accept :: "'x tcp_env \<Rightarrow> accept_result list option \<Rightarrow> ('s, 'x) tcp \<Rightarrow> (int \<times> ('s, 'x) tcp) outcome" where
  "Accept e polled t =
     (case polled of
        None \<Rightarrow> Inr (- 1, t)
      | Some rs \<Rightarrow>
          (let num_accepts = length (filter (\<lambda>r. r \<noteq> NoConnection) rs) in
           if num_accepts = 0 then Inr (0, t)
           else accept_loop e (zip [0..<length (listeners t)] rs) num_accepts t))"

section \<open>Closing connections\<close>

fun unsubscribe_all :: "qptr \<Rightarrow> nat option list \<Rightarrow> ('s, 'e) core \<Rightarrow> ('s, 'e) core outcome" where
  "unsubscribe_all q [] c = Inr c"
| "unsubscribe_all q (None # ks) c = unsubscribe_all q ks c"
| "unsubscribe_all q (Some k # ks) c = bindo (Unsubscribe_at q k c) (\<lambda>(_, c'). unsubscribe_all q ks c')"

text \<open>The buffers and the list of subscriptions are freed; nothing of them is used again.\<close>

definition Close :: "nat \<Rightarrow> ('s, 'x) tcp \<Rightarrow> ('s, 'x) tcp outcome" where
  "Close cli t =
     bindo (c_assert (cli < num_clients t)) (\<lambda>_.
     bindo (unsubscribe_all (c_queue (client cli t)) (dev_subs (client cli t)) (t_core t)) (\<lambda>c.
       let cl = client cli t;
           t1 = t\<lparr>t_core := c, t_watcher := snd (RemoveFileWatch_noqueue (fd cl) True False True (t_watcher t)),
                 socks := (socks t)(fd cl := None)\<rparr>;
           t2 = upd_client cli (\<lambda>cl. cl\<lparr>fd := - 1, valid := False, c_queue := None, readbuffer := [], writebuffer := [], dev_subs := []\<rparr>) t1
       in Inr (case kill_flag cl of None \<Rightarrow> t2 | Some f \<Rightarrow> t2\<lparr>kill_flags := (kill_flags t2)(f := 1)\<rparr>)))"

text \<open>The first loop closes the marked connections, \<open>num_deleted\<close> counts them.\<close>

fun close_loop :: "nat list \<Rightarrow> nat \<Rightarrow> ('s, 'x) tcp \<Rightarrow> (nat \<times> ('s, 'x) tcp) outcome" where
  "close_loop [] num_deleted t = Inr (num_deleted, t)"
| "close_loop (i # is) num_deleted t =
     (if del (client i t)
      then bindo (Close i (upd_client i (\<lambda>cl. cl\<lparr>valid := False\<rparr>) t)) (\<lambda>t'. close_loop is (num_deleted + 1) t')
      else close_loop is num_deleted t)"

text \<open>\<open>memmove\<close> of the entries behind \<open>j\<close> one down; the last entry keeps its old contents.\<close>

definition shift_down :: "nat \<Rightarrow> 'a list \<Rightarrow> 'a list" where
  "shift_down j xs = take j xs @ drop (Suc j) xs @ [last xs]"

fun compact_arrays :: "nat \<Rightarrow> nat \<Rightarrow> conn list \<times> int list \<Rightarrow> conn list \<times> int list" where
  "compact_arrays 0 j s = s"
| "compact_arrays (Suc n) j (cs, us) =
     (if del (cs ! j) then compact_arrays n j (shift_down j cs, shift_down j us) else compact_arrays n (j + 1) (cs, us))"

definition zero_from :: "nat \<Rightarrow> 'a \<Rightarrow> 'a list \<Rightarrow> 'a list" where
  "zero_from n z xs = take n xs @ replicate (length xs - n) z"

definition DeleteClients :: "('s, 'x) tcp \<Rightarrow> ('s, 'x) tcp outcome" where
  "DeleteClients t =
     bindo (close_loop [0..<num_clients t] 0 t) (\<lambda>(num_deleted, t1).
       let n = num_clients t1 - num_deleted;
           (cs, us) = compact_arrays (length (clients t1)) 0 (clients t1, client_ufds t1)
       in bindo (c_assert (n \<le> length (clients t1))) (\<lambda>_.
            Inr (t1\<lparr>num_clients := n, clients := zero_from n no_conn cs, client_ufds := zero_from n 0 us\<rparr>)))"

definition DeleteClient :: "qptr \<Rightarrow> ('s, 'x) tcp \<Rightarrow> ('s, 'x) tcp" where
  "DeleteClient q t =
     (case find_index (\<lambda>cl. c_queue cl = q) (take (num_clients t) (clients t)) of
        None \<Rightarrow> t
      | Some i \<Rightarrow> upd_client i (\<lambda>cl. cl\<lparr>del := True, kill_flag := None\<rparr>) t)"

fun destroy_loop :: "nat list \<Rightarrow> ('s, 'x) tcp \<Rightarrow> ('s, 'x) tcp outcome" where
  "destroy_loop [] t = Inr t"
| "destroy_loop (i # is) t = bindo (Close i t) (destroy_loop is)"

definition PlayerTCP_destroy :: "('s, 'x) tcp \<Rightarrow> ('s, 'x) tcp outcome" where
  "PlayerTCP_destroy t = destroy_loop [0..<num_clients t] t"

section \<open>The arrays after a removal\<close>

lemma length_shift_down [simp]: "j < length xs \<Longrightarrow> length (shift_down j xs) = length xs"
  by (simp add: shift_down_def)

lemma shift_down_parts:
  "length ds = j \<Longrightarrow> shift_down j (ds @ x # rs @ gs) = ds @ rs @ gs @ [last (x # rs @ gs)]"
  by (simp add: shift_down_def)

text \<open>In \<open>n\<close> rounds the loop goes through the next \<open>n\<close> entries of both arrays and keeps those not marked, in order.\<close>

lemma compact_parts:
  "length d1 = j \<Longrightarrow> length d2 = j \<Longrightarrow> length r1 = n \<Longrightarrow> length r2 = n \<Longrightarrow> length g1 = length g2 \<Longrightarrow>
   \<exists>h1 h2. compact_arrays n j (d1 @ r1 @ g1, d2 @ r2 @ g2) =
     (d1 @ filter (\<lambda>cl. \<not> del cl) r1 @ h1, d2 @ map snd (filter (\<lambda>(cl, u). \<not> del cl) (zip r1 r2)) @ h2) \<and>
     length (d1 @ filter (\<lambda>cl. \<not> del cl) r1 @ h1) = length (d1 @ r1 @ g1) \<and>
     length (d2 @ map snd (filter (\<lambda>(cl, u). \<not> del cl) (zip r1 r2)) @ h2) = length (d2 @ r2 @ g2)"
proof (induction n arbitrary: j d1 d2 r1 r2 g1 g2)
  case 0
  then show ?case by simp
next
  case (Suc n)
  then obtain c r1' u r2' where r: "r1 = c # r1'" "r2 = u # r2'" "length r1' = n" "length r2' = n"
    by (metis length_Suc_conv)
  have nth: "(d1 @ (c # r1') @ g1) ! j = c" unfolding Suc.prems(1) [symmetric] by simp
  show ?case
  proof (cases "del c")
    case True
    let ?g1 = "g1 @ [last (c # r1' @ g1)]" and ?g2 = "g2 @ [last (u # r2' @ g2)]"
    have eq: "compact_arrays (Suc n) j (d1 @ r1 @ g1, d2 @ r2 @ g2) = compact_arrays n j (d1 @ r1' @ ?g1, d2 @ r2' @ ?g2)"
      using True nth Suc.prems(1,2) shift_down_parts [of d1 j c r1' g1] shift_down_parts [of d2 j u r2' g2]
      by (simp add: r nth_append)
    have "length ?g1 = length ?g2" using Suc.prems(5) by simp
    from Suc.IH [OF Suc.prems(1,2) r(3,4) this] True show ?thesis
      unfolding eq by (auto simp: r)
  next
    case False
    have eq: "compact_arrays (Suc n) j (d1 @ r1 @ g1, d2 @ r2 @ g2) = compact_arrays n (j + 1) ((d1 @ [c]) @ r1' @ g1, (d2 @ [u]) @ r2' @ g2)"
      using False nth by (simp add: r)
    have "length (d1 @ [c]) = j + 1" "length (d2 @ [u]) = j + 1" using Suc.prems(1,2) by simp_all
    from Suc.IH [OF this r(3,4) Suc.prems(5)] False show ?thesis
      unfolding eq by (auto simp: r)
  qed
qed

lemma compact_filter:
  assumes "length us = length cs"
  obtains cs' us' where "compact_arrays (length cs) 0 (cs, us) = (cs', us')" "length cs' = length cs" "length us' = length cs"
    "take (length (filter (\<lambda>cl. \<not> del cl) cs)) cs' = filter (\<lambda>cl. \<not> del cl) cs"
    "take (length (filter (\<lambda>cl. \<not> del cl) cs)) us' = map snd (filter (\<lambda>(cl, u). \<not> del cl) (zip cs us))"
proof -
  have len: "length (filter (\<lambda>(cl, u). \<not> del cl) (zip cs us)) = length (filter (\<lambda>cl. \<not> del cl) cs)"
    using assms by (induction us cs rule: list_induct2) auto
  from compact_parts [of "[]" 0 "[]" cs "length cs" us "[]" "[]"] assms obtain h1 h2 where
    "compact_arrays (length cs) 0 (cs, us) =
       (filter (\<lambda>cl. \<not> del cl) cs @ h1, map snd (filter (\<lambda>(cl, u). \<not> del cl) (zip cs us)) @ h2)"
    "length (filter (\<lambda>cl. \<not> del cl) cs @ h1) = length cs"
    "length (map snd (filter (\<lambda>(cl, u). \<not> del cl) (zip cs us)) @ h2) = length cs" by auto
  with len show ?thesis
    by (intro that [of "filter (\<lambda>cl. \<not> del cl) cs @ h1" "map snd (filter (\<lambda>(cl, u). \<not> del cl) (zip cs us)) @ h2"]) auto
qed

end
