(* ===== verification/TcpPlayer.thy ===== *)
theory TcpPlayer
  imports Tcp
begin

text \<open>
  \<open>PlayerTCP::HandlePlayerMessage\<close>: the requests that a client sends to the server itself, and the agreement of
  the subscriptions that the server has recorded for its clients with those the devices have.
\<close>

section \<open>Requests to the server\<close>

abbreviation OPEN_MODE :: u8 where "OPEN_MODE \<equiv> 1"
abbreviation CLOSE_MODE :: u8 where "CLOSE_MODE \<equiv> 2"
abbreviation ERROR_MODE :: u8 where "ERROR_MODE \<equiv> 3"
abbreviation DATAMODE_PUSH :: u8 where "DATAMODE_PUSH \<equiv> 1"
abbreviation DATAMODE_PULL :: u8 where "DATAMODE_PULL \<equiv> 2"
abbreviation REQ_DEVLIST :: u8 where "REQ_DEVLIST \<equiv> 1"
abbreviation REQ_DRIVERINFO :: u8 where "REQ_DRIVERINFO \<equiv> 2"
abbreviation REQ_DEV :: u8 where "REQ_DEV \<equiv> 3"
abbreviation REQ_DATA :: u8 where "REQ_DATA \<equiv> 4"
abbreviation REQ_DATAMODE :: u8 where "REQ_DATAMODE \<equiv> 5"
abbreviation REQ_ADD_REPLACE_RULE :: u8 where "REQ_ADD_REPLACE_RULE \<equiv> 10"
abbreviation MAX_DEVICES :: nat where "MAX_DEVICES \<equiv> 4096"
abbreviation MAX_DRIVER_STRING_LEN :: nat where "MAX_DRIVER_STRING_LEN \<equiv> 64"

text \<open>The structure behind a payload pointer.\<close>

definition payload_data :: "'x tcp_payload option \<Rightarrow> 'x tcp_data outcome" where
  "payload_data p =
     (case p of None \<Rightarrow> Inl NullDeref | Some (OtherData d) \<Rightarrow> Inr d | Some (PropData _) \<Rightarrow> Inl TypeConfusion)"

definition on_client_queue :: "nat \<Rightarrow> ('x tcp_payload mqueue \<Rightarrow> 'x tcp_payload mqueue) \<Rightarrow> ('s, 'x) tcp \<Rightarrow> ('s, 'x) tcp outcome" where
  "on_client_queue cli f t =
     (case c_queue (client cli t) of
        None \<Rightarrow> Inl NullDeref
      | Some q \<Rightarrow>
          (case mq (t_core t) q of
             None \<Rightarrow> Inl UseAfterFree
           | Some qu \<Rightarrow> Inr (t\<lparr>t_core := (t_core t)\<lparr>mq := (mq (t_core t))(q \<mapsto> f qu)\<rparr>\<rparr>)))"

definition push_reply :: "'x tcp_env \<Rightarrow> nat \<Rightarrow> msghdr \<Rightarrow> u8 \<Rightarrow> 'x tcp_data option \<Rightarrow> ('s, 'x) tcp \<Rightarrow> ('s, 'x) tcp outcome" where
  "push_reply e cli h ty d t =
     on_client_queue cli (push_q (CreateMessage (env_xdr (te e)) (h\<lparr>mtype := ty\<rparr>) (map_option OtherData d) None True)) t"

definition record_sub :: "nat \<Rightarrow> conn \<Rightarrow> conn" where
  "record_sub k cl =
     cl\<lparr>dev_subs := (case find_index (\<lambda>d. d = None) (dev_subs cl) of
                       Some i \<Rightarrow> (dev_subs cl)[i := Some k]
                     | None \<Rightarrow> dev_subs cl @ [Some k])\<rparr>"

definition record_unsub :: "nat \<Rightarrow> conn \<Rightarrow> conn" where
  "record_unsub k cl =
     cl\<lparr>dev_subs := (case find_index (\<lambda>d. d = Some k) (dev_subs cl) of
                       Some i \<Rightarrow> (dev_subs cl)[i := None]
                     | None \<Rightarrow> dev_subs cl)\<rparr>"

text \<open>The change of subscription for a device that exists; the result is the access granted.\<close>

definition change_access :: "nat \<Rightarrow> nat \<Rightarrow> u8 \<Rightarrow> ('s, 'x) tcp \<Rightarrow> (u8 \<times> ('s, 'x) tcp) outcome" where
  "change_access cli k acc t =
     (if acc = OPEN_MODE then
        bindo (Subscribe_at (c_queue (client cli t)) k (t_core t)) (\<lambda>(r, c).
          let t1 = t\<lparr>t_core := c\<rparr> in
          Inr (if r < 0 then (ERROR_MODE, t1) else (acc, upd_client cli (record_sub k) t1)))
      else if acc = CLOSE_MODE then
        bindo (Unsubscribe_at (c_queue (client cli t)) k (t_core t)) (\<lambda>(r, c).
          let t1 = t\<lparr>t_core := c\<rparr> in
          Inr (if r \<noteq> 0 then (ERROR_MODE, t1) else (acc, upd_client cli (record_unsub k) t1)))
      else Inr (ERROR_MODE, t))"

definition handle_dev :: "'x tcp_env \<Rightarrow> nat \<Rightarrow> msghdr \<Rightarrow> 'x tcp_data \<Rightarrow> ('s, 'x) tcp \<Rightarrow> ('s, 'x) tcp outcome" where
  "handle_dev e cli h req t =
     (case req of
        DevReq a acc cnt nm \<Rightarrow>
          (let a' = a\<lparr>host := t_host t, robot := word_of_int (c_port (client cli t))\<rparr> in
           bindo (GetDevice a' False (t_core t)) (\<lambda>(dev, c).
             let t1 = t\<lparr>t_core := c\<rparr> in
             case dev of
               None \<Rightarrow> push_reply e cli h MSGTYPE_RESP_NACK (Some (DevReq a' ERROR_MODE 0 nm)) t1
             | Some k \<Rightarrow>
                 (let name = strncpy_term MAX_DRIVER_STRING_LEN (drivername (devices c ! k)) in
                  bindo (change_access cli k acc t1) (\<lambda>(granted, t2).
                    push_reply e cli h MSGTYPE_RESP_ACK (Some (DevReq a' granted (of_nat (length name + 1)) name)) t2))))
      | _ \<Rightarrow> Inl TypeConfusion)"

text \<open>The devices of the server on the port of the client, at most 4096.\<close>

definition device_list :: "nat \<Rightarrow> ('s, 'x) tcp \<Rightarrow> devaddr list" where
  "device_list cli t =
     take MAX_DEVICES (filter (\<lambda>a. sint (robot a) = c_port (client cli t) \<and> host a = t_host t) (map dv_addr (devices (t_core t))))"

definition handle_driverinfo :: "'x tcp_env \<Rightarrow> nat \<Rightarrow> msghdr \<Rightarrow> 'x tcp_data \<Rightarrow> ('s, 'x) tcp \<Rightarrow> ('s, 'x) tcp outcome" where
  "handle_driverinfo e cli h req t =
     (case req of
        DriverInfo a cnt nm \<Rightarrow>
          (let a' = a\<lparr>host := t_host t, robot := word_of_int (c_port (client cli t))\<rparr> in
           bindo (GetDevice a' False (t_core t)) (\<lambda>(dev, c).
             let t1 = t\<lparr>t_core := c\<rparr> in
             case dev of
               None \<Rightarrow> push_reply e cli h MSGTYPE_RESP_NACK None t1
             | Some k \<Rightarrow>
                 (let name = drivername (devices c ! k) in
                  push_reply e cli h MSGTYPE_RESP_ACK
                    (Some (DriverInfo a' (of_nat (length name + 1)) (strncpy_term MAX_DRIVER_STRING_LEN name))) t1)))
      | _ \<Rightarrow> Inl TypeConfusion)"

definition handle_replace_rule :: "'x tcp_env \<Rightarrow> nat \<Rightarrow> msghdr \<Rightarrow> 'x tcp_data \<Rightarrow> ('s, 'x) tcp \<Rightarrow> ('s, 'x) tcp outcome" where
  "handle_replace_rule e cli h req t =
     (case req of
        ReplaceRule i ix ty sub rep \<Rightarrow>
          bindo (on_client_queue cli (AddReplaceRule (- 1) (- 1) i ix ty sub rep) t) (push_reply e cli h MSGTYPE_RESP_ACK None)
      | _ \<Rightarrow> Inl TypeConfusion)"

definition handle_datamode :: "'x tcp_env \<Rightarrow> nat \<Rightarrow> msghdr \<Rightarrow> 'x tcp_data \<Rightarrow> ('s, 'x) tcp \<Rightarrow> ('s, 'x) tcp outcome" where
  "handle_datamode e cli h req t =
     (case req of
        DataMode m \<Rightarrow>
          bindo (if m = DATAMODE_PUSH then on_client_queue cli (SetPull False) t
                 else if m = DATAMODE_PULL then on_client_queue cli (SetPull True) t
                 else Inr t)
            (push_reply e cli h MSGTYPE_RESP_ACK None)
      | _ \<Rightarrow> Inl TypeConfusion)"

text \<open>The reply to a request for data goes to the front of the queue.\<close>

definition handle_data :: "'x tcp_env \<Rightarrow> nat \<Rightarrow> msghdr \<Rightarrow> ('s, 'x) tcp \<Rightarrow> ('s, 'x) tcp outcome" where
  "handle_data e cli h t =
     on_client_queue cli
       (SetDataRequested True \<circ> PushFront (CreateMessage (env_xdr (te e)) (h\<lparr>mtype := MSGTYPE_RESP_ACK\<rparr>) None None True)) t"

definition HandlePlayerMessage :: "'x tcp_env \<Rightarrow> nat \<Rightarrow> 'x tcp_payload message \<Rightarrow> ('s, 'x) tcp \<Rightarrow> ('s, 'x) tcp outcome" where
  "HandlePlayerMessage e cli msg t =
     bindo (c_assert (cli < num_clients t)) (\<lambda>_.
       let h = (Header msg)\<lparr>timestamp := te_now e\<rparr>; ty = mtype (Header msg); sub = subtype (Header msg); p = Data msg in
       if ty = MSGTYPE_REQ then
         (if sub = REQ_DEV then bindo (payload_data p) (\<lambda>d. handle_dev e cli h d t)
          else if sub = REQ_DEVLIST then push_reply e cli h MSGTYPE_RESP_ACK (Some (DevList (device_list cli t))) t
          else if sub = REQ_DRIVERINFO then bindo (payload_data p) (\<lambda>d. handle_driverinfo e cli h d t)
          else if sub = REQ_ADD_REPLACE_RULE then bindo (payload_data p) (\<lambda>d. handle_replace_rule e cli h d t)
          else if sub = REQ_DATAMODE then bindo (payload_data p) (\<lambda>d. handle_datamode e cli h d t)
          else if sub = REQ_DATA then handle_data e cli h t
          else push_reply e cli h MSGTYPE_RESP_NACK None t)
       else push_reply e cli h MSGTYPE_RESP_NACK None t)"

lemma GetDevice_local: "GetDevice a False c = Inr (if interf a = 0 then None else find_device a (devices c), c)"
  by (simp add: GetDevice_def split: option.split)

end
