(* ===== verification/Session.thy ===== *)
theory Session
  imports TcpPlayer
begin

text \<open>
  The subscriptions of TCP clients: the list \<open>dev_subs\<close> that \<open>PlayerTCP\<close> keeps for each client agrees with the arrays of
  queues in the devices, through requests, new connections and the removal of connections.
\<close>

section \<open>One device\<close>

text \<open>Driver classes for which a subscription either succeeds or fails with a negative code, and always ends.\<close>

definition served_class :: "('s, 'e) methods \<Rightarrow> bool" where
  "served_class ms \<longleftrightarrow> base_subscription ms \<and> shutdown_succeeds ms \<and> (\<forall>s. fst (m_Setup ms s) \<le> 0)"

definition same_device :: "device \<Rightarrow> device \<Rightarrow> bool" where
  "same_device v v' \<longleftrightarrow> dv_addr v' = dv_addr v \<and> dv_driver v' = dv_driver v \<and> dv_InQueue v' = dv_InQueue v \<and> drivername v' = drivername v"

lemma Device_Subscribe_client:
  assumes v: "device_ok v" and d: "served_class (d_methods d)" "0 \<le> subscriptions d"
  obtains r v' d' where "Device_Subscribe (Some q) v (Some d) = (r, v', Some d')" "r \<le> 0" "device_ok v'" "same_device v v'"
    "subscribers v' = (if r = 0 then add_mset q (subscribers v) else subscribers v)"
    "subscriptions d' = subscriptions d + (if r = 0 then 1 else 0)" "d_methods d' = d_methods d"
proof -
  let ?v = "\<lambda>q. v\<lparr>queues := (make_room (queues v))[empty_spot (queues v) := q]\<rparr>"
  have sq: "Subscribe_queue (Some q) (dv_addr v) d = (1, d)"
    using d(1) by (simp add: Subscribe_queue_def served_class_def base_subscription_def)
  obtain r d' where sub: "Driver_Subscribe d = (r, d')" by fastforce
  have le: "r \<le> 0" and d': "subscriptions d' = subscriptions d + (if r = 0 then 1 else 0)" "d_methods d' = d_methods d"
    using sub d by (auto simp: Driver_Subscribe_def Setup_def served_class_def split: if_splits prod.splits) (metis fst_conv)+
  have run: "Device_Subscribe (Some q) v (Some d) = (r, ?v (if r = 0 then Some q else None), Some d')"
    by (simp add: Device_Subscribe_def sq sub Let_def)
  show ?thesis
    by (rule that [OF run le _ _ _ d']) (use subscribers_add [OF v] in \<open>auto simp: same_device_def\<close>)
qed

lemma Device_Unsubscribe_client:
  assumes v: "device_ok v" and d: "served_class (d_methods d)" "1 \<le> subscriptions d" and q: "q \<in># subscribers v"
  obtains v' d' where "Device_Unsubscribe (Some q) v (Some d) = (0, v', Some d')" "device_ok v'" "same_device v v'"
    "subscribers v' = subscribers v - {#q#}" "subscriptions d' = subscriptions d - 1" "d_methods d' = d_methods d"
proof -
  have uq: "Unsubscribe_queue (Some q) (dv_addr v) d = (1, d)"
    using d(1) by (simp add: Unsubscribe_queue_def served_class_def base_subscription_def)
  obtain r d' where un: "Driver_Unsubscribe d = (r, d')" by fastforce
  have r: "r = 0" and d': "subscriptions d' = subscriptions d - 1" "d_methods d' = d_methods d"
    using un d by (auto simp: Driver_Unsubscribe_def Shutdown_def served_class_def shutdown_succeeds_def split: if_splits prod.splits) (metis fst_conv)
  obtain r' v' where rm: "remove_queue (Some q) v = (r', v')" by fastforce
  from subscribers_remove [OF v rm] q have v': "device_ok v'" "r' = 0" "subscribers v' = subscribers v - {#q#}" by simp_all
  have same: "same_device v v'" using rm by (auto simp: remove_queue_def same_device_def split: option.splits)
  have run: "Device_Unsubscribe (Some q) v (Some d) = (0, v', Some d')"
    by (simp add: Device_Unsubscribe_def uq un r rm v'(2))
  show ?thesis by (rule that [OF run v'(1) same v'(3) d'])
qed

section \<open>The devices of the table\<close>

text \<open>The number of queues subscribed to a driver through its devices; its count is at least that.\<close>

definition load :: "('s, 'e) core \<Rightarrow> did \<Rightarrow> nat" where
  "load c i = (\<Sum>k<length (devices c). if dv_driver (devices c ! k) = Some i then size (subscribers (devices c ! k)) else 0)"

definition subs_ok :: "('s, 'e) core \<Rightarrow> bool" where
  "subs_ok c \<longleftrightarrow> core_ok c \<and> (\<forall>i d. drv c i = Some d \<longrightarrow> served_class (d_methods d) \<and> int (load c i) \<le> subscriptions d)"

text \<open>What a change of subscriptions leaves as it is, and the subscriptions to position \<open>k\<close>.\<close>

definition same_table :: "('s, 'e) core \<Rightarrow> ('s, 'e) core \<Rightarrow> bool" where
  "same_table c c' \<longleftrightarrow> length (devices c') = length (devices c) \<and> (\<forall>k<length (devices c). same_device (devices c ! k) (devices c' ! k)) \<and>
     mq c' = mq c \<and> next_did c' = next_did c"

abbreviation subs_at :: "('s, 'e) core \<Rightarrow> nat \<Rightarrow> qid multiset" where
  "subs_at c k \<equiv> subscribers (devices c ! k)"

lemma same_device_trans: "same_device u v \<Longrightarrow> same_device v w \<Longrightarrow> same_device u w"
  by (simp add: same_device_def)

lemma same_table_refl [simp]: "same_table c c"
  by (simp add: same_table_def same_device_def)

lemma same_table_trans: "same_table c c1 \<Longrightarrow> same_table c1 c2 \<Longrightarrow> same_table c c2"
  by (auto simp: same_table_def intro: same_device_trans)

lemma load_update:
  assumes "k < length (devices c)" "dv_driver v = dv_driver (devices c ! k)"
  shows "load (c\<lparr>devices := (devices c)[k := v], drv := f\<rparr>) i + (if dv_driver v = Some i then size (subs_at c k) else 0) =
    load c i + (if dv_driver v = Some i then size (subscribers v) else 0)"
proof -
  let ?w = "\<lambda>vs j. if dv_driver (vs ! j) = Some i then size (subscribers (vs ! j)) else 0"
  have split: "(\<Sum>j<length vs. ?w vs j) = (\<Sum>j \<in> {..<length vs} - {k}. ?w vs j) + ?w vs k" if "k < length vs" for vs
    using that by (subst sum.remove [of _ k]) auto
  have "(\<Sum>j \<in> {..<length (devices c)} - {k}. ?w ((devices c)[k := v]) j) = (\<Sum>j \<in> {..<length (devices c)} - {k}. ?w (devices c) j)"
    by (rule sum.cong) auto
  with split [of "devices c"] split [of "(devices c)[k := v]"] assms show ?thesis by (simp add: load_def cong: if_cong)
qed

lemma load_member:
  assumes "k < length (devices c)" "dv_driver (devices c ! k) = Some i"
  shows "size (subs_at c k) \<le> load c i"
  unfolding load_def using assms by (subst sum.remove [of _ k]) auto

lemma subs_ok_update:
  assumes c: "subs_ok c" and k: "k < length (devices c)" and i: "dv_driver (devices c ! k) = Some i" "drv c i = Some d"
    and v: "same_device (devices c ! k) v" "device_ok v"
    and d': "d_methods d' = d_methods d" "subscriptions d' - subscriptions d = int (size (subscribers v)) - int (size (subs_at c k))"
  shows "subs_ok (c\<lparr>devices := (devices c)[k := v], drv := (drv c)(i \<mapsto> d')\<rparr>)"
    and "same_table c (c\<lparr>devices := (devices c)[k := v], drv := (drv c)(i \<mapsto> d')\<rparr>)"
proof -
  let ?c = "c\<lparr>devices := (devices c)[k := v], drv := (drv c)(i \<mapsto> d')\<rparr>"
  have same: "dv_driver v = dv_driver (devices c ! k)" "dv_addr v = dv_addr (devices c ! k)" using v(1) by (simp_all add: same_device_def)
  have "core_ok ?c"
    using c k same v(2) i(2) by (intro core_ok_update) (auto simp: subs_ok_def)
  moreover have "served_class (d_methods x) \<and> int (load ?c j) \<le> subscriptions x" if "drv ?c j = Some x" for j x
  proof (cases "j = i")
    case True
    with that have x: "x = d'" by simp
    from c i(2) have "served_class (d_methods d)" "int (load c i) \<le> subscriptions d" by (auto simp: subs_ok_def)
    with load_update [OF k same(1), of "(drv c)(i \<mapsto> d')" i] same(1) i(1) d' show ?thesis unfolding True x by simp
  next
    case False
    with that c have "served_class (d_methods x)" "int (load c j) \<le> subscriptions x" by (auto simp: subs_ok_def)
    with load_update [OF k same(1), of "(drv c)(i \<mapsto> d')" j] same(1) i(1) False show ?thesis by simp
  qed
  ultimately show "subs_ok ?c" by (simp add: subs_ok_def)
  show "same_table c ?c" using v(1) k by (auto simp: same_table_def nth_list_update same_device_def)
qed

lemma subs_ok_device:
  assumes "subs_ok c" "k < length (devices c)"
  obtains i d where "device_ok (devices c ! k)" "dv_driver (devices c ! k) = Some i" "drv c i = Some d" "served_class (d_methods d)"
    "int (size (subs_at c k)) \<le> subscriptions d"
proof -
  from assms have "devices c ! k \<in> set (devices c)" by simp
  with assms(1) obtain i d where i: "device_ok (devices c ! k)" "dv_driver (devices c ! k) = Some i" "drv c i = Some d"
    by (auto simp: subs_ok_def core_ok_def)
  with assms(1) have "served_class (d_methods d)" "int (load c i) \<le> subscriptions d" by (auto simp: subs_ok_def)
  with load_member [OF assms(2) i(2)] i that show ?thesis by simp
qed

lemma Subscribe_at_client:
  assumes c: "subs_ok c" and k: "k < length (devices c)"
  obtains r c' where "Subscribe_at (Some q) k c = Inr (r, c')" "r \<le> 0" "subs_ok c'" "same_table c c'"
    "\<forall>j<length (devices c). subs_at c' j = (if r = 0 \<and> j = k then add_mset q (subs_at c j) else subs_at c j)"
proof -
  from subs_ok_device [OF c k] obtain i d where
    i: "device_ok (devices c ! k)" "dv_driver (devices c ! k) = Some i" "drv c i = Some d" "served_class (d_methods d)"
      "int (size (subs_at c k)) \<le> subscriptions d" .
  then have "0 \<le> subscriptions d" by simp
  from Device_Subscribe_client [OF i(1,4) this] obtain r v' d' where
    st: "Device_Subscribe (Some q) (devices c ! k) (Some d) = (r, v', Some d')" "r \<le> 0" "device_ok v'" "same_device (devices c ! k) v'"
      "subscribers v' = (if r = 0 then add_mset q (subs_at c k) else subs_at c k)"
      "subscriptions d' = subscriptions d + (if r = 0 then 1 else 0)" "d_methods d' = d_methods d" .
  let ?c = "c\<lparr>devices := (devices c)[k := v'], drv := (drv c)(i \<mapsto> d')\<rparr>"
  have run: "Subscribe_at (Some q) k c = Inr (r, ?c)" by (simp add: Subscribe_at_def on_device_def i st(1))
  have "subscriptions d' - subscriptions d = int (size (subscribers v')) - int (size (subs_at c k))" using st(5,6) by simp
  from subs_ok_update [OF c k i(2,3) st(4,3,7) this] have "subs_ok ?c" "same_table c ?c" .
  with st(5) k show ?thesis by (intro that [OF run st(2)]) (auto simp: nth_list_update)
qed

lemma Unsubscribe_at_client:
  assumes c: "subs_ok c" and k: "k < length (devices c)" and q: "q \<in># subs_at c k"
  obtains c' where "Unsubscribe_at (Some q) k c = Inr (0, c')" "subs_ok c'" "same_table c c'"
    "\<forall>j<length (devices c). subs_at c' j = (if j = k then subs_at c j - {#q#} else subs_at c j)"
proof -
  from subs_ok_device [OF c k] obtain i d where
    i: "device_ok (devices c ! k)" "dv_driver (devices c ! k) = Some i" "drv c i = Some d" "served_class (d_methods d)"
      "int (size (subs_at c k)) \<le> subscriptions d" .
  from q obtain A where A: "subs_at c k = add_mset q A" by (metis mset_add)
  with i(5) have "1 \<le> subscriptions d" by simp
  from Device_Unsubscribe_client [OF i(1,4) this q] obtain v' d' where
    st: "Device_Unsubscribe (Some q) (devices c ! k) (Some d) = (0, v', Some d')" "device_ok v'" "same_device (devices c ! k) v'"
      "subscribers v' = subs_at c k - {#q#}" "subscriptions d' = subscriptions d - 1" "d_methods d' = d_methods d" .
  let ?c = "c\<lparr>devices := (devices c)[k := v'], drv := (drv c)(i \<mapsto> d')\<rparr>"
  have run: "Unsubscribe_at (Some q) k c = Inr (0, ?c)" by (simp add: Unsubscribe_at_def on_device_def i st(1))
  have "subscriptions d' - subscriptions d = int (size (subscribers v')) - int (size (subs_at c k))" using st(4,5) A by simp
  from subs_ok_update [OF c k i(2,3) st(3,2,6) this] have "subs_ok ?c" "same_table c ?c" .
  with st(4) k show ?thesis by (intro that [OF run]) (auto simp: nth_list_update)
qed

section \<open>Clients and devices agree\<close>

definition agree :: "('s, 'x tcp_data) core \<Rightarrow> qid \<Rightarrow> conn \<Rightarrow> bool" where
  "agree c fresh cl \<longleftrightarrow> (\<exists>q. c_queue cl = Some q \<and> q < fresh \<and> mq c q \<noteq> None \<and> (\<forall>k. Some k \<in> set (dev_subs cl) \<longrightarrow> k < length (devices c)) \<and>
     (\<forall>k<length (devices c). count (subs_at c k) q = count_list (dev_subs cl) (Some k)))"

text \<open>\<open>S\<close> is the set of the connections that are open.\<close>

definition live :: "nat set \<Rightarrow> ('s, 'x) tcp \<Rightarrow> bool" where
  "live S t \<longleftrightarrow> length (client_ufds t) = length (clients t) \<and> num_clients t \<le> length (clients t) \<and> S \<subseteq> {..<num_clients t} \<and>
     subs_ok (t_core t) \<and> (\<forall>i \<in> S. client_ufds t ! i = fd (client i t)) \<and> inj_on (\<lambda>i. c_queue (client i t)) S \<and> (\<forall>i \<in> S. agree (t_core t) (next_qid t) (client i t)) \<and>
     (\<forall>k<length (devices (t_core t)). \<forall>q \<in># subs_at (t_core t) k. q < next_qid t)"

lemma agreeE:
  assumes "agree c n cl"
  obtains q where "c_queue cl = Some q" "q < n" "mq c q \<noteq> None" "\<And>k. Some k \<in> set (dev_subs cl) \<Longrightarrow> k < length (devices c)"
    "\<And>k. k < length (devices c) \<Longrightarrow> count (subs_at c k) q = count_list (dev_subs cl) (Some k)"
  using assms unfolding agree_def by metis

lemma agree_change:
  assumes "agree c n cl" "c_queue cl' = c_queue cl" "dev_subs cl' = dev_subs cl" "n \<le> n'"
    "length (devices c') = length (devices c)" "\<And>q. mq c q \<noteq> None \<Longrightarrow> mq c' q \<noteq> None"
    "\<And>k q. k < length (devices c) \<Longrightarrow> c_queue cl = Some q \<Longrightarrow> count (subs_at c' k) q = count (subs_at c k) q"
  shows "agree c' n' cl'"
  using assms unfolding agree_def by fastforce

lemma unsubscribe_all_client:
  assumes "subs_ok c" "\<And>k. Some k \<in> set ks \<Longrightarrow> k < length (devices c)"
    "\<And>k. k < length (devices c) \<Longrightarrow> count_list ks (Some k) \<le> count (subs_at c k) q"
  shows "\<exists>c'. unsubscribe_all (Some q) ks c = Inr c' \<and> subs_ok c' \<and> same_table c c' \<and>
    (\<forall>k<length (devices c). \<forall>q'. count (subs_at c' k) q' = count (subs_at c k) q' - (if q' = q then count_list ks (Some k) else 0))"
  using assms
proof (induction ks arbitrary: c)
  case Nil
  then show ?case by auto
next
  case (Cons d ks)
  show ?case
  proof (cases d)
    case None
    have "count_list ks (Some k) \<le> count (subs_at c k) q" if "k < length (devices c)" for k
      using Cons.prems(3) [OF that] by (simp add: None)
    from Cons.IH [OF Cons.prems(1) _ this] Cons.prems(2) obtain c' where "unsubscribe_all (Some q) ks c = Inr c'" "subs_ok c'" "same_table c c'"
      "\<forall>k<length (devices c). \<forall>q'. count (subs_at c' k) q' = count (subs_at c k) q' - (if q' = q then count_list ks (Some k) else 0)" by auto
    then show ?thesis by (simp add: None)
  next
    case (Some k)
    then have k: "k < length (devices c)" using Cons.prems(2) by simp
    from Cons.prems(3) [OF k] have "q \<in># subs_at c k" by (simp add: Some count_greater_zero_iff [symmetric] del: count_greater_zero_iff)
    from Unsubscribe_at_client [OF Cons.prems(1) k this] obtain c1 where
      c1: "Unsubscribe_at (Some q) k c = Inr (0, c1)" "subs_ok c1" "same_table c c1"
        "\<forall>j<length (devices c). subs_at c1 j = (if j = k then subs_at c j - {#q#} else subs_at c j)" .
    have len: "length (devices c1) = length (devices c)" using c1(3) by (simp add: same_table_def)
    have "count_list ks (Some j) \<le> count (subs_at c1 j) q" if "j < length (devices c1)" for j
      using Cons.prems(3) [of j] that c1(4) len by (auto simp: Some split: if_splits)
    from Cons.IH [OF c1(2) _ this] Cons.prems(2) len obtain c2 where
      c2: "unsubscribe_all (Some q) ks c1 = Inr c2" "subs_ok c2" "same_table c1 c2"
        "\<forall>j<length (devices c1). \<forall>q'. count (subs_at c2 j) q' = count (subs_at c1 j) q' - (if q' = q then count_list ks (Some j) else 0)"
      by auto
    have "count (subs_at c2 j) q' = count (subs_at c j) q' - (if q' = q then count_list (d # ks) (Some j) else 0)"
      if "j < length (devices c)" for j q'
      using c2(4) c1(4) that len by (simp add: Some)
    with c1 c2 same_table_trans [OF c1(3) c2(3)] show ?thesis by (simp add: Some)
  qed
qed

section \<open>Removal of connections\<close>

text \<open>What \<open>Close\<close> does to an open connection.\<close>

lemma Close_live:
  assumes t: "live S t" and i: "i \<in> S"
  obtains t' q where "Close i t = Inr t'" "live (S - {i}) t'" "c_queue (client i t) = Some q"
    "num_clients t' = num_clients t" "client_ufds t' = client_ufds t" "map del (clients t') = map del (clients t)"
    "\<forall>j. j \<noteq> i \<longrightarrow> client j t' = client j t" "same_table (t_core t) (t_core t')"
    "\<forall>k<length (devices (t_core t)). \<forall>q'. count (subs_at (t_core t') k) q' = (if q' = q then 0 else count (subs_at (t_core t) k) q')"
    "socks t' = (socks t)(fd (client i t) := None)"
proof -
  have num: "i < num_clients t" "num_clients t \<le> length (clients t)" using t i by (auto simp: live_def)
  from t i have "agree (t_core t) (next_qid t) (client i t)" by (simp add: live_def)
  then obtain q where q: "c_queue (client i t) = Some q" "q < next_qid t"
    "\<And>k. Some k \<in> set (dev_subs (client i t)) \<Longrightarrow> k < length (devices (t_core t))"
    "\<And>k. k < length (devices (t_core t)) \<Longrightarrow> count (subs_at (t_core t) k) q = count_list (dev_subs (client i t)) (Some k)"
    by (rule agreeE) metis
  have "subs_ok (t_core t)" using t by (simp add: live_def)
  from unsubscribe_all_client [OF this, of "dev_subs (client i t)" q] q(3,4) obtain c where
    c: "unsubscribe_all (Some q) (dev_subs (client i t)) (t_core t) = Inr c" "subs_ok c" "same_table (t_core t) c"
      "\<forall>k<length (devices (t_core t)). \<forall>q'. count (subs_at c k) q' =
         count (subs_at (t_core t) k) q' - (if q' = q then count_list (dev_subs (client i t)) (Some k) else 0)" by fastforce
  have counts: "\<forall>k<length (devices (t_core t)). \<forall>q'. count (subs_at c k) q' = (if q' = q then 0 else count (subs_at (t_core t) k) q')"
    using c(4) q(4) by simp
  define cl where "cl = (client i t)\<lparr>fd := - 1, valid := False, c_queue := None, readbuffer := [], writebuffer := [], dev_subs := []\<rparr>"
  define t' where "t' = t\<lparr>t_core := c, t_watcher := snd (RemoveFileWatch_noqueue (fd (client i t)) True False True (t_watcher t)),
    socks := (socks t)(fd (client i t) := None), clients := (clients t)[i := cl],
    kill_flags := (case kill_flag (client i t) of None \<Rightarrow> kill_flags t | Some f \<Rightarrow> (kill_flags t)(f := 1))\<rparr>"
  have run: "Close i t = Inr t'"
    using num c(1) q(1) by (simp add: Close_def c_assert_def upd_client_def t'_def cl_def Let_def split: option.split)
  have len: "length (devices c) = length (devices (t_core t))" "mq c = mq (t_core t)" using c(3) by (simp_all add: same_table_def)
  have other: "client j t' = client j t" if "j \<noteq> i" for j using that by (simp add: t'_def)
  have ag: "agree c (next_qid t) (client j t')" if "j \<in> S - {i}" for j
  proof -
    from t have "inj_on (\<lambda>j. c_queue (client j t)) S" by (simp add: live_def)
    from inj_onD [OF this, of i j] that i q(1) have ne: "c_queue (client j t) \<noteq> Some q" by auto
    have ag: "agree (t_core t) (next_qid t) (client j t)" using t that by (simp add: live_def)
    have o: "client j t' = client j t" using other [of j] that by blast
    show ?thesis unfolding o
    proof (rule agree_change [OF ag refl refl le_refl len(1)])
      fix x show "mq (t_core t) x \<noteq> None \<Longrightarrow> mq c x \<noteq> None" by (simp add: len(2))
    next
      fix k x assume "k < length (devices (t_core t))" "c_queue (client j t) = Some x"
      with counts ne show "count (subs_at c k) x = count (subs_at (t_core t) k) x" by auto
    qed
  qed
  have "inj_on (\<lambda>j. c_queue (client j t')) (S - {i})"
    using t other by (auto simp: live_def inj_on_def)
  moreover have "\<forall>k<length (devices c). \<forall>q \<in># subs_at c k. q < next_qid t"
  proof (intro allI ballI impI)
    fix k x assume k: "k < length (devices c)" and x: "x \<in># subs_at c k"
    then have "count (subs_at c k) x \<noteq> 0" by simp
    with counts k len have "count (subs_at (t_core t) k) x \<noteq> 0" by (metis)
    then have "x \<in># subs_at (t_core t) k" by (metis count_inI)
    with t k len show "x < next_qid t" by (auto simp: live_def)
  qed
  ultimately have "live (S - {i}) t'"
    using t ag c(2) by (auto simp: live_def t'_def)
  moreover have "map del (clients t') = map del (clients t)"
    using num by (simp add: t'_def cl_def map_update list_update_same_conv)
  ultimately show ?thesis
    using run q(1) other c(3) counts by (intro that [of t' q]) (simp_all add: t'_def)
qed

text \<open>The fields of a connection that matter here, and a frame rule for everything else.\<close>

definition same_session :: "conn \<Rightarrow> conn \<Rightarrow> bool" where
  "same_session cl cl' \<longleftrightarrow> c_queue cl' = c_queue cl \<and> dev_subs cl' = dev_subs cl \<and> fd cl' = fd cl"

lemma live_frame:
  assumes t: "live S t"
    and same: "length (clients t') = length (clients t)" "num_clients t' = num_clients t" "client_ufds t' = client_ufds t"
      "t_core t' = t_core t" "next_qid t' = next_qid t" "\<And>i. i \<in> S \<Longrightarrow> same_session (client i t) (client i t')"
  shows "live S t'"
proof -
  have ag: "\<forall>i \<in> S. agree (t_core t') (next_qid t') (client i t')"
  proof
    fix i assume i: "i \<in> S"
    with t have "agree (t_core t) (next_qid t) (client i t)" by (simp add: live_def)
    with same(6) [OF i] show "agree (t_core t') (next_qid t') (client i t')" by (simp add: same same_session_def agree_def)
  qed
  have "inj_on (\<lambda>i. c_queue (client i t)) S" using t by (simp add: live_def)
  then have inj: "inj_on (\<lambda>i. c_queue (client i t')) S"
    using same(6) by (subst inj_on_cong) (simp_all add: same_session_def)
  have "\<forall>i \<in> S. client_ufds t ! i = fd (client i t')" using t same(6) by (simp add: live_def same_session_def)
  with t ag inj show ?thesis by (simp add: live_def same)
qed

lemma live_upd_client:
  assumes "live S t" "\<And>cl. same_session cl (f cl)"
  shows "live S (upd_client i f t)"
proof (rule live_frame [OF assms(1)])
  fix j
  show "same_session (client j t) (client j (upd_client i f t))"
  proof (cases "i < length (clients t) \<and> j = i")
    case True
    then show ?thesis using assms(2) by (simp add: upd_client_def)
  next
    case False
    then have "client j (upd_client i f t) = client j t" by (auto simp: upd_client_def nth_list_update list_update_beyond)
    then show ?thesis by (simp add: same_session_def)
  qed
qed (simp_all add: upd_client_def)

lemma live_invalidate: "live S t \<Longrightarrow> live S (upd_client i (\<lambda>cl. cl\<lparr>valid := False\<rparr>) t)"
  by (rule live_upd_client) (simp_all add: same_session_def)

text \<open>The connections that the loop closes.\<close>

definition closed_of :: "nat list \<Rightarrow> ('s, 'x) tcp \<Rightarrow> nat set" where
  "closed_of is t = {i \<in> set is. del (client i t)}"

lemma closed_of_Cons: "closed_of (i # is) t = (if del (client i t) then insert i (closed_of is t) else closed_of is t)"
  by (auto simp: closed_of_def)

lemma close_loop_live:
  assumes "live S t" "distinct is" "set is \<subseteq> S"
  shows "\<exists>t'. close_loop is n t = Inr (n + length (filter (\<lambda>i. del (client i t)) is), t') \<and> live (S - closed_of is t) t' \<and>
    num_clients t' = num_clients t \<and> client_ufds t' = client_ufds t \<and> map del (clients t') = map del (clients t) \<and>
    (\<forall>j. j \<notin> closed_of is t \<longrightarrow> client j t' = client j t) \<and> same_table (t_core t) (t_core t') \<and>
    (\<forall>k<length (devices (t_core t)). \<forall>q. count (subs_at (t_core t') k) q =
       (if \<exists>i \<in> closed_of is t. c_queue (client i t) = Some q then 0 else count (subs_at (t_core t) k) q))"
  using assms
proof (induction "is" arbitrary: n S t)
  case Nil
  then show ?case by (simp add: closed_of_def)
next
  case (Cons i "is")
  show ?case
  proof (cases "del (client i t)")
    case False
    with Cons.IH [of S t n] Cons.prems show ?thesis by (simp add: closed_of_Cons)
  next
    case True
    let ?t = "upd_client i (\<lambda>cl. cl\<lparr>valid := False\<rparr>) t"
    have i: "i \<in> S" "i < length (clients t)" using Cons.prems by (auto simp: live_def)
    have t0: "client j ?t = (if j = i then (client i t)\<lparr>valid := False\<rparr> else client j t)" for j
      using i by (simp add: upd_client_def nth_list_update)
    have same0: "num_clients ?t = num_clients t" "client_ufds ?t = client_ufds t" "t_core ?t = t_core t" "map del (clients ?t) = map del (clients t)"
      using i by (simp_all add: upd_client_def map_update list_update_same_conv)
    from Close_live [OF live_invalidate [OF Cons.prems(1)] i(1)] obtain t1 q where
      t1: "Close i ?t = Inr t1" "live (S - {i}) t1" "c_queue (client i ?t) = Some q" "num_clients t1 = num_clients ?t"
        "client_ufds t1 = client_ufds ?t" "map del (clients t1) = map del (clients ?t)" "\<forall>j. j \<noteq> i \<longrightarrow> client j t1 = client j ?t"
        "same_table (t_core ?t) (t_core t1)"
        "\<forall>k<length (devices (t_core ?t)). \<forall>q'. count (subs_at (t_core t1) k) q' = (if q' = q then 0 else count (subs_at (t_core ?t) k) q')" .
    have cl1: "client j t1 = client j t" if "j \<noteq> i" for j using that t1(7) t0 by simp
    have "i \<notin> set is" using Cons.prems(2) by simp
    then have d: "del (client j t1) = del (client j t)" if "j \<in> set is" for j using cl1 that by metis
    then have fil: "filter (\<lambda>i. del (client i t1)) is = filter (\<lambda>i. del (client i t)) is" and cof: "closed_of is t1 = closed_of is t"
      by (auto simp: closed_of_def intro: filter_cong)
    have "set is \<subseteq> S - {i}" "distinct is" using Cons.prems by auto
    from Cons.IH [OF t1(2) this(2,1), of "n + 1"] obtain t2 where
      t2: "close_loop is (n + 1) t1 = Inr (n + 1 + length (filter (\<lambda>i. del (client i t)) is), t2)"
        "live (S - {i} - closed_of is t) t2" "num_clients t2 = num_clients t1" "client_ufds t2 = client_ufds t1"
        "map del (clients t2) = map del (clients t1)" "\<forall>j. j \<notin> closed_of is t \<longrightarrow> client j t2 = client j t1" "same_table (t_core t1) (t_core t2)"
        "\<forall>k<length (devices (t_core t1)). \<forall>q. count (subs_at (t_core t2) k) q =
          (if \<exists>i \<in> closed_of is t. c_queue (client i t1) = Some q then 0 else count (subs_at (t_core t1) k) q)"
      unfolding fil cof by auto
    have run: "close_loop (i # is) n t = Inr (n + length (filter (\<lambda>i. del (client i t)) (i # is)), t2)"
      using True t1(1) t2(1) by simp
    have S: "S - {i} - closed_of is t = S - closed_of (i # is) t" using True by (auto simp: closed_of_Cons)
    have others: "\<forall>j. j \<notin> closed_of (i # is) t \<longrightarrow> client j t2 = client j t"
      using t2(6) cl1 True by (simp add: closed_of_Cons)
    have len: "length (devices (t_core t1)) = length (devices (t_core t))" using t1(8) same0 by (simp add: same_table_def)
    have iq: "c_queue (client i t) = Some q" using t1(3) t0 by simp
    have qs: "c_queue (client j t1) = c_queue (client j t)" if "j \<in> closed_of is t" for j
      using that cl1 \<open>i \<notin> set is\<close> by (metis (no_types, lifting) closed_of_def mem_Collect_eq)
    have counts: "count (subs_at (t_core t2) k) x =
        (if \<exists>i \<in> closed_of (i # is) t. c_queue (client i t) = Some x then 0 else count (subs_at (t_core t) k) x)"
      if "k < length (devices (t_core t))" for k x
      using that t2(8) t1(9) len same0(3) qs True iq by (simp add: closed_of_Cons)
    show ?thesis
      using run t2(2) S t2(3-5) t1(4-6) same0 others same_table_trans [OF t1(8) t2(7)] counts by (intro exI [of _ t2]) simp
  qed
qed

text \<open>The connections in use; entries of the array that are not in use are not marked.\<close>

definition conns :: "('s, 'x) tcp \<Rightarrow> conn list" where
  "conns t = take (num_clients t) (clients t)"

definition tcp_ok :: "('s, 'x) tcp \<Rightarrow> bool" where
  "tcp_ok t \<longleftrightarrow> live {..<num_clients t} t \<and> (\<forall>cl \<in> set (drop (num_clients t) (clients t)). \<not> del cl)"

lemma filter_same:
  "length xs = length ys \<Longrightarrow> (\<And>j. j < length ys \<Longrightarrow> P (xs ! j) = P (ys ! j) \<and> (P (ys ! j) \<longrightarrow> xs ! j = ys ! j)) \<Longrightarrow>
   filter P xs = filter P ys"
proof (induction xs ys rule: list_induct2)
  case (Cons x xs y ys)
  from Cons.prems [of 0] Cons.IH Cons.prems [of "Suc j" for j] show ?case by auto
qed simp

lemma map_snd_filter_zip:
  "length us = length cs \<Longrightarrow> (\<And>j. j < length cs \<Longrightarrow> P (cs ! j) \<Longrightarrow> us ! j = f (cs ! j)) \<Longrightarrow>
   map snd (filter (\<lambda>(c, u). P c) (zip cs us)) = map f (filter P cs)"
proof (induction us cs rule: list_induct2)
  case (Cons u us c cs)
  from Cons.prems [of 0] Cons.IH Cons.prems [of "Suc j" for j] show ?case by auto
qed simp

lemma conns_nth: "num_clients t \<le> length (clients t) \<Longrightarrow> i < num_clients t \<Longrightarrow> conns t ! i = client i t"
  by (simp add: conns_def)

text \<open>Agreement stated on the list of connections, independent of their positions.\<close>

lemma tcp_ok_iff:
  "tcp_ok t \<longleftrightarrow> length (client_ufds t) = length (clients t) \<and> num_clients t \<le> length (clients t) \<and> subs_ok (t_core t) \<and>
     take (num_clients t) (client_ufds t) = map fd (conns t) \<and> distinct (map c_queue (conns t)) \<and>
     (\<forall>cl \<in> set (conns t). agree (t_core t) (next_qid t) cl) \<and>
     (\<forall>k<length (devices (t_core t)). \<forall>q \<in># subs_at (t_core t) k. q < next_qid t) \<and>
     (\<forall>cl \<in> set (drop (num_clients t) (clients t)). \<not> del cl)"
proof (cases "length (client_ufds t) = length (clients t) \<and> num_clients t \<le> length (clients t)")
  case True
  have u: "take (num_clients t) (client_ufds t) = map fd (conns t) \<longleftrightarrow> (\<forall>i<num_clients t. client_ufds t ! i = fd (client i t))"
    using True by (auto simp: list_eq_iff_nth_eq conns_def)
  have d: "distinct (map c_queue (conns t)) \<longleftrightarrow> inj_on (\<lambda>i. c_queue (client i t)) {..<num_clients t}"
    using True by (simp add: distinct_conv_nth inj_on_def conns_def) blast
  have a: "(\<forall>cl \<in> set (conns t). P cl) \<longleftrightarrow> (\<forall>i<num_clients t. P (client i t))" for P
    using True by (simp add: conns_def all_set_conv_all_nth)
  show ?thesis using True unfolding u d a by (simp add: tcp_ok_def live_def lessThan_def)
qed (auto simp: tcp_ok_def live_def)

text \<open>The loop of \<open>DeleteClients\<close> over the connections.\<close>

lemma DeleteClients_live:
  assumes t: "tcp_ok t"
  obtains t' where "DeleteClients t = Inr t'" "tcp_ok t'" "conns t' = filter (\<lambda>cl. \<not> del cl) (conns t)"
    "length (clients t') = length (clients t)" "same_table (t_core t) (t_core t')"
    "\<forall>k<length (devices (t_core t)). \<forall>q. count (subs_at (t_core t') k) q =
       (if \<exists>cl \<in> set (conns t). del cl \<and> c_queue cl = Some q then 0 else count (subs_at (t_core t) k) q)"
proof -
  let ?n = "num_clients t"
  have live: "live {..<?n} t" and rest: "\<forall>cl \<in> set (drop ?n (clients t)). \<not> del cl" using t by (simp_all add: tcp_ok_def)
  have n: "?n \<le> length (clients t)" "length (client_ufds t) = length (clients t)" using live by (simp_all add: live_def)
  have sub: "set [0..<?n] \<subseteq> {..<?n}" by auto
  from close_loop_live [OF live distinct_upt sub, of 0] obtain t1 where
    t1: "close_loop [0..<?n] 0 t = Inr (length (filter (\<lambda>i. del (client i t)) [0..<?n]), t1)" "live ({..<?n} - closed_of [0..<?n] t) t1"
      "num_clients t1 = ?n" "client_ufds t1 = client_ufds t" "map del (clients t1) = map del (clients t)"
      "\<forall>j. j \<notin> closed_of [0..<?n] t \<longrightarrow> client j t1 = client j t" "same_table (t_core t) (t_core t1)"
      "\<forall>k<length (devices (t_core t)). \<forall>q. count (subs_at (t_core t1) k) q =
         (if \<exists>i \<in> closed_of [0..<?n] t. c_queue (client i t) = Some q then 0 else count (subs_at (t_core t) k) q)" by auto
  have len: "length (clients t1) = length (clients t)" using map_eq_imp_length_eq [OF t1(5)] .
  have nth: "clients t1 ! j = clients t ! j" if "\<not> del (clients t ! j)" for j using t1(6) that by (simp add: closed_of_def)
  have del1: "del (clients t1 ! j) = del (clients t ! j)" if "j < length (clients t)" for j
    using arg_cong [OF t1(5), of "\<lambda>xs. xs ! j"] that len by simp
  have same: "filter (\<lambda>cl. \<not> del cl) (clients t1) = filter (\<lambda>cl. \<not> del cl) (clients t)"
    using len del1 nth by (intro filter_same) auto
  have samez: "filter (\<lambda>(cl, u). \<not> del cl) (zip (clients t1) (client_ufds t)) = filter (\<lambda>(cl, u). \<not> del cl) (zip (clients t) (client_ufds t))"
    using len del1 nth n by (intro filter_same) auto
  let ?F = "filter (\<lambda>cl. \<not> del cl) (clients t)"
  have "?F = filter (\<lambda>cl. \<not> del cl) (conns t) @ drop ?n (clients t)"
    using rest by (subst append_take_drop_id [of ?n, symmetric], subst filter_append) (simp add: conns_def filter_id_conv)
  then have F: "?F = filter (\<lambda>cl. \<not> del cl) (conns t) @ drop ?n (clients t)" .
  let ?K = "filter (\<lambda>cl. \<not> del cl) (conns t)"
  have cmap: "conns t = map (\<lambda>i. client i t) [0..<?n]" using n by (auto simp: conns_def list_eq_iff_nth_eq)
  have count: "?n - length (filter (\<lambda>i. del (client i t)) [0..<?n]) = length ?K"
  proof -
    show ?thesis
      using sum_length_filter_compl [of "\<lambda>i. del (client i t)" "[0..<?n]"] by (simp add: cmap filter_map comp_def)
  qed
  have "length (client_ufds t1) = length (clients t1)" using t1(4) n len by simp
  from compact_filter [OF this] obtain cs us where
    cu: "compact_arrays (length (clients t1)) 0 (clients t1, client_ufds t1) = (cs, us)" "length cs = length (clients t1)"
      "length us = length (clients t1)" "take (length ?F) cs = ?F"
      "take (length ?F) us = map snd (filter (\<lambda>(cl, u). \<not> del cl) (zip (clients t) (client_ufds t)))"
    unfolding same t1(4) samez by metis
  have K: "take (length ?K) cs = ?K"
  proof -
    have "take (length ?K) cs = take (length ?K) (take (length ?F) cs)" by (simp add: F)
    then show ?thesis unfolding cu(4) by (simp add: F)
  qed
  have ufds: "take (length ?K) us = map fd ?K"
  proof -
    have z: "zip (clients t) (client_ufds t) = zip (conns t) (take ?n (client_ufds t)) @ zip (drop ?n (clients t)) (drop ?n (client_ufds t))"
      using zip_append [of "conns t" "take ?n (client_ufds t)" "drop ?n (clients t)" "drop ?n (client_ufds t)"] n by (simp add: conns_def)
    have "map snd (filter (\<lambda>(cl, u). \<not> del cl) (zip (conns t) (take ?n (client_ufds t)))) = map fd ?K"
      using live n by (intro map_snd_filter_zip) (auto simp: conns_def live_def)
    with cu(5) have "take (length ?F) us = map fd ?K @ map snd (filter (\<lambda>(cl, u). \<not> del cl) (zip (drop ?n (clients t)) (drop ?n (client_ufds t))))"
      by (simp add: z)
    then have "take (length ?K) (take (length ?F) us) = map fd ?K" by simp
    then show ?thesis by (simp add: F)
  qed
  define t' where "t' = t1\<lparr>num_clients := length ?K, clients := zero_from (length ?K) no_conn cs, client_ufds := zero_from (length ?K) 0 us\<rparr>"
  have le: "length ?K \<le> length (clients t)" using n by (simp add: conns_def le_trans [OF length_filter_le])
  have run: "DeleteClients t = Inr t'"
    using t1(1,3) cu(1) le len by (simp add: DeleteClients_def count t'_def c_assert_def Let_def)
  have K': "conns t' = ?K" using K le cu(2) len by (simp add: conns_def t'_def zero_from_def)
  have U': "take (num_clients t') (client_ufds t') = map fd ?K" using ufds le cu(3) len by (simp add: t'_def zero_from_def)
  have lens: "length (clients t') = length (clients t)" "length (client_ufds t') = length (clients t)"
    using cu(2,3) le len by (simp_all add: t'_def zero_from_def)
  have ag: "agree (t_core t1) (next_qid t1) cl" if "cl \<in> set ?K" for cl
  proof -
    from that n obtain i where i: "i < ?n" "cl = client i t" "\<not> del cl" by (auto simp: conns_def in_set_conv_nth)
    then have "i \<in> {..<?n} - closed_of [0..<?n] t" by (auto simp: closed_of_def)
    moreover have "client i t1 = cl" using nth i by simp
    ultimately show ?thesis using t1(2) by (auto simp: live_def)
  qed
  have "distinct (map c_queue (conns t))" using t by (simp add: tcp_ok_iff)
  then have dist: "distinct (map c_queue ?K)" by (rule distinct_map_filter)
  have core: "subs_ok (t_core t1)" "\<forall>k<length (devices (t_core t1)). \<forall>q \<in># subs_at (t_core t1) k. q < next_qid t1"
    using t1(2) by (simp_all add: live_def)
  have "\<forall>cl \<in> set (drop (num_clients t') (clients t')). \<not> del cl"
    using le cu(2) len by (simp add: t'_def zero_from_def no_conn_def)
  note nodel = this
  have c: "t_core t' = t_core t1" "next_qid t' = next_qid t1" by (simp_all add: t'_def)
  have ok: "tcp_ok t'"
    unfolding tcp_ok_iff K' c
  proof (intro conjI)
    show "length (client_ufds t') = length (clients t')" "num_clients t' \<le> length (clients t')" using lens le by (simp_all add: t'_def)
  qed (fact U' dist core nodel | use ag in blast)+
  have members: "(\<exists>cl \<in> set (conns t). del cl \<and> c_queue cl = Some q) = (\<exists>i \<in> closed_of [0..<?n] t. c_queue (client i t) = Some q)" for q
    unfolding cmap closed_of_def by auto
  from run ok K' lens(1) t1(7,8) show ?thesis by (intro that [of t']) (simp_all add: members t'_def)
qed

end
