(* ===== verification/TcpStream.thy ===== *)
theory TcpStream
  imports TcpPlayer
begin

text \<open>
  The byte streams of a connection: \<open>ReadClient\<close>, \<open>ParseBuffer\<close>, \<open>WriteClient\<close>, and \<open>Read\<close>, \<open>Write\<close> and \<open>Update\<close> over all
  connections, of \<open>libplayertcp/playertcp.cc\<close>.
\<close>

section \<open>Parsing\<close>

abbreviation MAP_CODE :: u16 where "MAP_CODE \<equiv> 42"
abbreviation MAP_REQ_GET_DATA :: u8 where "MAP_REQ_GET_DATA \<equiv> 2"

definition is_map_reply :: "msghdr \<Rightarrow> bool" where
  "is_map_reply h \<longleftrightarrow> interf (addr h) = MAP_CODE \<and> mtype h = MSGTYPE_RESP_ACK \<and> subtype h = MAP_REQ_GET_DATA"

text \<open>A decoded message goes to the server or to the device \<open>dev\<close>.\<close>

definition deliver :: "'x tcp_env \<Rightarrow> nat \<Rightarrow> nat option \<Rightarrow> msghdr \<Rightarrow> 'x tcp_payload option \<Rightarrow> ('s, 'x) tcp \<Rightarrow> ('s, 'x) tcp outcome" where
  "deliver e cli dev h data t =
     (let q = c_queue (client cli t) in
      if interf (addr h) = PLAYER_CODE then HandlePlayerMessage e cli (CreateMessage (env_xdr (te e)) h data q True) t
      else
        case dev of
          None \<Rightarrow> Inl NullDeref
        | Some k \<Rightarrow>
            if is_map_reply h then
              (case map_unzip e data of
                 None \<Rightarrow> Inr t
               | Some d \<Rightarrow> bindo (PutMsg (te e) k q h (Some d) True (t_core t)) (\<lambda>c. Inr (t\<lparr>t_core := c\<rparr>)))
            else bindo (PutMsg (te e) k q h data True (t_core t)) (\<lambda>c. Inr (t\<lparr>t_core := c\<rparr>)))"

text \<open>
  One message with header \<open>h\<close> and bytes \<open>bs\<close> behind the header.  \<open>pf\<close> is the variable \<open>packfunc\<close>, which keeps its
  value from one message to the next: the function is looked up only for a message with a payload.
\<close>

definition decode_body :: "'x packer option \<Rightarrow> bool \<Rightarrow> u8 list \<Rightarrow> (nat \<times> 'x tcp_payload option) option outcome" where
  "decode_body pf short bs =
     (case pf of
        None \<Rightarrow> Inr (Some (0, None))
      | Some p \<Rightarrow>
          if short then Inl BufferOverflow
          else Inr (map_option (\<lambda>(n, d). (n, if n \<noteq> 0 then Some d else None)) (decode_with p bs)))"

definition decode_and_deliver ::
    "'x tcp_env \<Rightarrow> nat \<Rightarrow> nat option \<Rightarrow> msghdr \<Rightarrow> 'x packer option \<Rightarrow> bool \<Rightarrow> u8 list \<Rightarrow> ('s, 'x) tcp \<Rightarrow> ('s, 'x) tcp outcome" where
  "decode_and_deliver e cli dev h pf short bs t =
     bindo (decode_body pf short bs) (\<lambda>r.
       case r of None \<Rightarrow> Inr t | Some (n, data) \<Rightarrow> deliver e cli dev (h\<lparr>msize := of_nat n\<rparr>) data t)"

definition handle_frame ::
    "'x tcp_env \<Rightarrow> nat \<Rightarrow> msghdr \<Rightarrow> bool \<Rightarrow> u8 list \<Rightarrow> 'x packer option \<times> ('s, 'x) tcp \<Rightarrow> ('x packer option \<times> ('s, 'x) tcp) outcome" where
  "handle_frame e cli h short bs = (\<lambda>(pf, t).
     let cl = client cli t; a = (addr h)\<lparr>host := c_host cl, robot := word_of_int (c_port cl)\<rparr> in
     bindo (GetDevice a False (t_core t)) (\<lambda>(dev, c).
       let t1 = t\<lparr>t_core := c\<rparr>;
           pf1 = (if msize h > 0 then get_packfunc e (interf a) (mtype h) (subtype h) else pf) in
       if dev = None \<and> interf a \<noteq> PLAYER_CODE then Inr (pf, t1)
       else if msize h > 0 \<and> pf1 = None then Inr (pf1, t1)
       else bindo (decode_and_deliver e cli dev (h\<lparr>addr := a\<rparr>) pf1 short bs t1) (\<lambda>t2. Inr (pf1, t2))))"

text \<open>The length of the message is computed in 32 bits and then limited.\<close>

definition frame_length :: "msghdr \<Rightarrow> int" where
  "frame_length h = min (sint (msize h + 40 :: c_int)) (int MAX_MESSAGE_SIZE)"

definition set_readbuffer :: "nat \<Rightarrow> u8 list \<Rightarrow> ('s, 'x) tcp \<Rightarrow> ('s, 'x) tcp" where
  "set_readbuffer cli bs t = upd_client cli (\<lambda>cl. cl\<lparr>readbuffer := bs\<rparr>) t"

text \<open>\<open>None\<close>: no complete message is in the buffer.\<close>

definition parse_step :: "'x tcp_env \<Rightarrow> nat \<Rightarrow> 'x packer option \<times> ('s, 'x) tcp \<Rightarrow> ('x packer option \<times> ('s, 'x) tcp) option outcome" where
  "parse_step e cli s =
     (let buf = readbuffer (client cli (snd s)) in
      if length buf < MSGHDR_SIZE then Inr None
      else
        case hdr_unpack e (take MSGHDR_SIZE buf) of
          None \<Rightarrow> Inr None
        | Some h \<Rightarrow>
            (let n = frame_length h in
             if n > int (length buf) then Inr None
             else
               bindo (handle_frame e cli h (n < int MSGHDR_SIZE) (drop MSGHDR_SIZE (take (nat n) buf)) s) (\<lambda>(pf, t).
                 if n < 0 then Inl BufferOverflow
                 else Inr (Some (pf, set_readbuffer cli (drop (nat n) buf) t)))))"

fun parse_messages :: "nat \<Rightarrow> 'x tcp_env \<Rightarrow> nat \<Rightarrow> 'x packer option \<times> ('s, 'x) tcp \<Rightarrow> ('s, 'x) tcp outcome" where
  "parse_messages 0 e cli s = Inl OutOfFuel"
| "parse_messages (Suc n) e cli s =
     bindo (parse_step e cli s) (\<lambda>r. case r of None \<Rightarrow> Inr (snd s) | Some s' \<Rightarrow> parse_messages n e cli s')"

definition ParseBuffer :: "nat \<Rightarrow> 'x tcp_env \<Rightarrow> nat \<Rightarrow> ('s, 'x) tcp \<Rightarrow> ('s, 'x) tcp outcome" where
  "ParseBuffer fuel e cli t = bindo (c_assert (cli < num_clients t)) (\<lambda>_. parse_messages fuel e cli (None, t))"

section \<open>Reading\<close>

text \<open>Twice the space when less than a chunk is left, up to the limit.\<close>

definition grow_readbuffer :: "conn \<Rightarrow> conn" where
  "grow_readbuffer cl =
     (if int (readbuffersize cl) - int (length (readbuffer cl)) < int READBUFFER_SIZE
      then cl\<lparr>readbuffersize := min (2 * readbuffersize cl) MAX_MESSAGE_SIZE\<rparr> else cl)"

text \<open>The loop ends with a result below 0, or with 0 when there is nothing left to read or no room.\<close>

fun read_loop :: "nat \<Rightarrow> nat \<Rightarrow> ('s, 'x) tcp \<Rightarrow> (int \<times> ('s, 'x) tcp) outcome" where
  "read_loop 0 cli t = Inl OutOfFuel"
| "read_loop (Suc n) cli t =
     (let t1 = upd_client cli grow_readbuffer t; cl = client cli t1; len = length (readbuffer cl) in
      if readbuffersize cl = len then Inr (0, t1)
      else
        (let ((numread, again, bs), ss) = c_recv (fd cl) (readbuffersize cl - len) (socks t1); t2 = t1\<lparr>socks := ss\<rparr> in
         if numread < 0 then Inr (if again then 0 else - 1, t2)
         else if numread = 0 then Inr (- 1, t2)
         else read_loop n cli (set_readbuffer cli (readbuffer cl @ bs) t2)))"

definition rx_left :: "nat \<Rightarrow> ('s, 'x) tcp \<Rightarrow> nat" where
  "rx_left cli t = (case socks t (fd (client cli t)) of None \<Rightarrow> 0 | Some s \<Rightarrow> sum_list (map length (rx s)))"

definition ReadClient :: "nat \<Rightarrow> 'x tcp_env \<Rightarrow> nat \<Rightarrow> ('s, 'x) tcp \<Rightarrow> (int \<times> ('s, 'x) tcp) outcome" where
  "ReadClient fuel e cli t =
     bindo (c_assert (cli < num_clients t)) (\<lambda>_.
     bindo (read_loop (rx_left cli t + 1) cli t) (\<lambda>(r, t1).
       if r < 0 then Inr (- 1, t1) else bindo (ParseBuffer fuel e cli t1) (\<lambda>t2. Inr (0, t2))))"

definition ReadClient_queue :: "nat \<Rightarrow> 'x tcp_env \<Rightarrow> qptr \<Rightarrow> ('s, 'x) tcp \<Rightarrow> (int \<times> ('s, 'x) tcp) outcome" where
  "ReadClient_queue fuel e q t =
     (case find_index (\<lambda>cl. c_queue cl = q) (take (num_clients t) (clients t)) of
        None \<Rightarrow> Inr (- 1, t)
      | Some cli \<Rightarrow> ReadClient fuel e cli t)"

datatype poll_event = NoEvent | PollError | PollIn

definition mark_deleted :: "nat \<Rightarrow> ('s, 'x) tcp \<Rightarrow> ('s, 'x) tcp" where
  "mark_deleted i t = upd_client i (\<lambda>cl. cl\<lparr>del := True\<rparr>) t"

fun read_clients :: "nat \<Rightarrow> 'x tcp_env \<Rightarrow> (nat \<times> poll_event) list \<Rightarrow> ('s, 'x) tcp \<Rightarrow> ('s, 'x) tcp outcome" where
  "read_clients fuel e [] t = Inr t"
| "read_clients fuel e ((i, NoEvent) # evs) t = read_clients fuel e evs t"
| "read_clients fuel e ((i, PollError) # evs) t = read_clients fuel e evs (mark_deleted i t)"
| "read_clients fuel e ((i, PollIn) # evs) t =
     bindo (ReadClient fuel e i t) (\<lambda>(r, t1). read_clients fuel e evs (if r < 0 then mark_deleted i t1 else t1))"

text \<open>The result of \<open>poll\<close>: an error other than an interrupt, or one event for each connection.\<close>

definition Read :: "nat \<Rightarrow> 'x tcp_env \<Rightarrow> poll_event list option \<Rightarrow> ('s, 'x) tcp \<Rightarrow> (int \<times> ('s, 'x) tcp) outcome" where
  "Read fuel e polled t =
     (if num_clients t = 0 then Inr (0, t)
      else
        case polled of
          None \<Rightarrow> Inr (- 1, t)
        | Some evs \<Rightarrow>
            if list_all (\<lambda>ev. ev = NoEvent) evs then Inr (0, t)
            else bindo (read_clients fuel e (zip [0..<num_clients t] evs) t) (\<lambda>t1. bindo (DeleteClients t1) (\<lambda>t2. Inr (0, t2))))"

section \<open>Writing\<close>

text \<open>The space for a message of \<open>n\<close> bytes of dynamic data; both the bound and the new size are computed in 32 bits.\<close>

definition encode_bound :: "msghdr \<Rightarrow> nat" where
  "encode_bound h = unat (40 + 4 * msize h)"

definition encode_limit :: "msghdr \<Rightarrow> nat" where
  "encode_limit h = nat ((int (encode_bound h) - int MSGHDR_SIZE) mod 2 ^ 64)"

definition grow_writebuffer :: "nat \<Rightarrow> nat \<Rightarrow> nat" where
  "grow_writebuffer maxsize sz =
     (if maxsize > sz then
        (let n = sint (word_of_nat (max (2 * sz) maxsize) :: c_int)
         in if n \<ge> int MAX_MESSAGE_SIZE \<or> n < 0 then MAX_MESSAGE_SIZE else nat n)
      else sz)"

text \<open>
  The next message, encoded into the empty buffer.  \<open>enc\<close> is the variable \<open>encode_msglen\<close>, which is set from the
  body only if there is a function to encode it.  The flag is false if there is nothing to write.
\<close>

definition set_writebuffer :: "nat \<Rightarrow> u8 list \<Rightarrow> ('s, 'x) tcp \<Rightarrow> ('s, 'x) tcp" where
  "set_writebuffer cli bs t = upd_client cli (\<lambda>cl. cl\<lparr>writebuffer := bs\<rparr>) t"

text \<open>\<open>None\<close>: the encoding failed; else the new \<open>encode_msglen\<close> and the bytes after the header.\<close>

definition encode_body :: "'x tcp_env \<Rightarrow> msghdr \<Rightarrow> 'x tcp_payload option \<Rightarrow> nat \<Rightarrow> int \<Rightarrow> (int \<times> u8 list) option outcome" where
  "encode_body e h payload sz enc =
     (case payload of
        None \<Rightarrow> Inr (Some (0, []))
      | Some d \<Rightarrow>
          (case get_packfunc e (interf (addr h)) (mtype h) (subtype h) of
             None \<Rightarrow>
               if enc < 0 \<or> int sz < int MSGHDR_SIZE + enc then Inl BufferOverflow
               else Inr (Some (enc, stale_bytes e (nat enc)))
           | Some p \<Rightarrow>
               (case encode_with p d (encode_limit h) of
                  None \<Rightarrow> Inr None
                | Some bs \<Rightarrow> if sz < MSGHDR_SIZE + length bs then Inl BufferOverflow else Inr (Some (int (length bs), bs)))))"

text \<open>The data of a map is compressed; \<open>None\<close> if that fails.\<close>

definition outgoing_payload :: "'x tcp_env \<Rightarrow> 'x tcp_payload message \<Rightarrow> 'x tcp_payload option option outcome" where
  "outgoing_payload e msg =
     (if is_map_reply (Header msg)
      then (case Data msg of None \<Rightarrow> Inl NullDeref | Some d \<Rightarrow> Inr (map_option Some (map_zip e d)))
      else Inr (Some (Data msg)))"

definition encode_message ::
    "'x tcp_env \<Rightarrow> 'x tcp_payload message \<Rightarrow> nat \<Rightarrow> int \<Rightarrow> (int \<times> u8 list) option outcome" where
  "encode_message e msg sz enc =
     (let h = Header msg in
      bindo (outgoing_payload e msg) (\<lambda>p.
        case p of
          None \<Rightarrow> Inr None
        | Some payload \<Rightarrow>
            bindo (encode_body e h payload sz enc) (\<lambda>b.
              case b of
                None \<Rightarrow> Inr None
              | Some (n, bs) \<Rightarrow>
                  (case hdr_pack e (h\<lparr>msize := word_of_int n\<rparr>) of
                     None \<Rightarrow> Inr None
                   | Some hb \<Rightarrow> Inr (Some (int (length hb), hb @ bs))))))"

definition fill_writebuffer :: "'x tcp_env \<Rightarrow> nat \<Rightarrow> int \<Rightarrow> ('s, 'x) tcp \<Rightarrow> (bool \<times> int \<times> ('s, 'x) tcp) outcome" where
  "fill_writebuffer e cli enc t =
     bindo (pop_from (te e) (c_queue (client cli t)) (t_core t)) (\<lambda>(m, c).
       let t1 = t\<lparr>t_core := c\<rparr> in
       case m of
         None \<Rightarrow> Inr (False, enc, t1)
       | Some msg \<Rightarrow>
           (let sz = grow_writebuffer (encode_bound (Header msg)) (writebuffersize (client cli t1));
                t2 = upd_client cli (\<lambda>cl. cl\<lparr>writebuffersize := sz\<rparr>) t1 in
            bindo (encode_message e msg sz enc) (\<lambda>r.
              case r of
                None \<Rightarrow> Inr (False, enc, set_writebuffer cli [] t2)
              | Some (enc', bs) \<Rightarrow> Inr (True, enc', set_writebuffer cli bs t2))))"

fun write_loop :: "nat \<Rightarrow> 'x tcp_env \<Rightarrow> nat \<Rightarrow> int \<Rightarrow> ('s, 'x) tcp \<Rightarrow> (int \<times> ('s, 'x) tcp) outcome" where
  "write_loop 0 e cli enc t = Inl OutOfFuel"
| "write_loop (Suc n) e cli enc t =
     (let cl = client cli t in
      if writebuffer cl \<noteq> [] then
        (let (numwritten, again, ss) = c_send (fd cl) (take WRITEBUFFER_SIZE (writebuffer cl)) (socks t); t1 = t\<lparr>socks := ss\<rparr> in
         if numwritten < 0 then Inr (if again then 0 else - 1, t1)
         else if numwritten = 0 then Inr (- 1, t1)
         else write_loop n e cli enc (set_writebuffer cli (drop (nat numwritten) (writebuffer cl)) t1))
      else
        bindo (fill_writebuffer e cli enc t) (\<lambda>(more, enc', t1). if more then write_loop n e cli enc' t1 else Inr (0, t1)))"

definition tx_left :: "nat \<Rightarrow> ('s, 'x) tcp \<Rightarrow> nat" where
  "tx_left cli t = (case socks t (fd (client cli t)) of None \<Rightarrow> 0 | Some s \<Rightarrow> length (tx_results s))"

definition WriteClient :: "'x tcp_env \<Rightarrow> nat \<Rightarrow> ('s, 'x) tcp \<Rightarrow> (int \<times> ('s, 'x) tcp) outcome" where
  "WriteClient e cli t = write_loop (2 * tx_left cli t + 2) e cli (stack_int e) t"

fun write_clients :: "'x tcp_env \<Rightarrow> nat list \<Rightarrow> ('s, 'x) tcp \<Rightarrow> ('s, 'x) tcp outcome" where
  "write_clients e [] t = Inr t"
| "write_clients e (i # is) t =
     bindo (WriteClient e i t) (\<lambda>(r, t1). write_clients e is (if r < 0 then mark_deleted i t1 else t1))"

definition Write :: "'x tcp_env \<Rightarrow> ('s, 'x) tcp \<Rightarrow> (int \<times> ('s, 'x) tcp) outcome" where
  "Write e t = bindo (write_clients e [0..<num_clients t] t) (\<lambda>t1. bindo (DeleteClients t1) (\<lambda>t2. Inr (0, t2)))"

definition Update_tcp ::
    "nat \<Rightarrow> 'x tcp_env \<Rightarrow> accept_result list option \<Rightarrow> poll_event list option \<Rightarrow> ('s, 'x) tcp \<Rightarrow> (int \<times> ('s, 'x) tcp) outcome" where
  "Update_tcp fuel e accepts events t =
     bindo (Write e t) (\<lambda>(_, t1).
     bindo (Accept e accepts t1) (\<lambda>(r, t2).
       if r \<noteq> 0 then Inr (r, t2) else Read fuel e events t2))"

end
