(* ===== verification/TcpSample.thy ===== *)
theory TcpSample
  imports Session TcpStream
begin

text \<open>
  A server with one device on port 6665 and an encoding in which the first four bytes of a header count: the inputs on
  which the theorems on the TCP server are applied.
\<close>

definition sample_driver :: "(unit, unit tcp_data) driver" where
  "sample_driver = Driver_new default_methods () 0"

definition sample_core :: "(unit, unit tcp_data) core" where
  "sample_core = DeviceTable_new\<lparr>drv := [0 \<mapsto> sample_driver], next_did := 1, numdevices := 1,
     devices := [device0\<lparr>dv_addr := laser_at 0, drivername := ''sicklms200''\<rparr>], mq := [0 \<mapsto> MessageQueue_new fv0 True 10]\<rparr>"

definition sample_hdr_pack :: "msghdr \<Rightarrow> u8 list option" where
  "sample_hdr_pack h = Some ([ucast (interf (addr h)), mtype h, subtype h, ucast (msize h)] @ replicate 36 0)"

definition sample_hdr_unpack :: "u8 list \<Rightarrow> msghdr option" where
  "sample_hdr_unpack bs =
     Some \<lparr>addr = \<lparr>host = 0, robot = 6665, interf = ucast (bs ! 0), idx = 0\<rparr>, mtype = bs ! 1, subtype = bs ! 2, timestamp = 0, seq = 0,
       msize = ucast (bs ! 3)\<rparr>"

text \<open>Requests for the device with interface code \<open>b\<close> and access \<open>m\<close> are the two bytes \<open>b m\<close>; other payloads are one byte.\<close>

definition dev_packer :: "unit packer" where
  "dev_packer = Packer (\<lambda>_ _. Some [1]) (\<lambda>bs. if length bs \<noteq> 2 then None
     else Some (2, OtherData (DevReq \<lparr>host = 0, robot = 0, interf = ucast (bs ! 0), idx = 0\<rparr> (bs ! 1) 0 [])))"

definition unit_packer :: "unit packer" where
  "unit_packer = Packer (\<lambda>_ _. Some [1]) (\<lambda>bs. if length bs \<noteq> 1 then None else Some (1, OtherData (Interface ())))"

definition sample_env :: "unit tcp_env" where
  "sample_env = \<lparr>te = \<lparr>env_xdr = \<lparr>get_sizeoffunc = \<lambda>_ _ _. None, get_clonefunc = \<lambda>_ _ _. None\<rparr>, stack_time = 0, stack_seq = 0,
       at_drop_count = \<lambda>_. OtherData (Interface ())\<rparr>,
     te_now = 5, playerversion = ''3.1.0'', hdr_pack = sample_hdr_pack, hdr_unpack = sample_hdr_unpack,
     get_packfunc = \<lambda>i ty sub. Some (if i = PLAYER_CODE \<and> ty = MSGTYPE_REQ \<and> sub = 3 then dev_packer else unit_packer),
     map_zip = Some, map_unzip = (\<lambda>d. d), stale_bytes = \<lambda>n. replicate n 0, stack_int = 0, uninit_filter = fv0\<rparr>"

text \<open>No connections yet; the socket with descriptor 7 is there to be accepted.\<close>

definition fresh_sock :: sock where
  "fresh_sock = \<lparr>rx = [], rx_end = NoMore, tx_results = [Accepted 100], sent = []\<rparr>"

definition sample_watcher :: watcher where
  "sample_watcher = FileWatcher_new"

definition sample_server :: "(unit, unit) tcp" where
  "sample_server = \<lparr>t_host = 0, listeners = [(3, 6665)], num_clients = 0, clients = [], client_ufds = [], kill_flags = \<lambda>_. 0,
     socks = [7 \<mapsto> fresh_sock], t_watcher = sample_watcher, next_qid = 1, t_core = sample_core\<rparr>"

lemma sample_server_ok: "tcp_ok sample_server" "conns sample_server = []"
proof -
  have d: "drv sample_core = [0 \<mapsto> sample_driver]" "devices sample_core = [device0\<lparr>dv_addr := laser_at 0, drivername := ''sicklms200''\<rparr>]"
    by (simp_all add: sample_core_def)
  have no_subs: "subscribers (devices sample_core ! 0) = {#}" by (simp add: d device0_def subscribers_def)
  have "core_ok sample_core" by (simp add: core_ok_def sample_core_def DeviceTable_new_def device0_def device_ok_def sample_driver_def)
  moreover have "served_class (d_methods sample_driver)"
    by (simp add: served_class_def sample_driver_def Driver_new_def default_methods_def base_subscription_def shutdown_succeeds_def)
  moreover have "load sample_core i = 0" for i by (simp add: load_def d device0_def subscribers_def)
  ultimately have "subs_ok sample_core" by (simp add: subs_ok_def d sample_driver_def Driver_new_def)
  then show "tcp_ok sample_server" using no_subs by (simp add: tcp_ok_iff sample_server_def conns_def d)
  show "conns sample_server = []" by (simp add: conns_def sample_server_def)
qed

text \<open>One client, which has no subscription, and what it may send.\<close>

definition sample_request :: "u16 \<Rightarrow> u8 \<Rightarrow> unit tcp_payload message" where
  "sample_request i acc =
     \<lparr>Header = new_header \<lparr>host = 0, robot = 0, interf = PLAYER_CODE, idx = 0\<rparr> MSGTYPE_REQ REQ_DEV None 0,
      Data = Some (OtherData (DevReq \<lparr>host = 0, robot = 0, interf = i, idx = 0\<rparr> acc 0 [])), Queue = Some 1\<rparr>"

end
