(* ===== verification/TcpProps.thy ===== *)
theory TcpProps
  imports TcpSample
begin

text \<open>
  What a client may rely on in its session with the TCP server: its requests to the server are answered, and the
  server's record of its subscriptions is the truth, from the request to the end of the connection.
\<close>

section \<open>Changes of a queue\<close>

lemma count_list_update:
  "i < length xs \<Longrightarrow> count_list (xs[i := y]) z + (if xs ! i = z then 1 else 0) = count_list xs z + (if y = z then 1 else 0)"
proof (induction xs arbitrary: i)
  case (Cons x xs)
  from Cons.prems Cons.IH [of "i - 1"] show ?case by (cases i) auto
qed simp

lemma subs_ok_mq: "subs_ok c \<Longrightarrow> subs_ok (c\<lparr>mq := f\<rparr>)"
proof -
  have "load (c\<lparr>mq := f\<rparr>) = load c" by (rule ext) (simp add: load_def cong: if_cong)
  then show "subs_ok c \<Longrightarrow> subs_ok (c\<lparr>mq := f\<rparr>)" by (simp add: subs_ok_def core_ok_def)
qed

lemma agree_mq: "agree c n cl \<Longrightarrow> (\<And>q. mq c q \<noteq> None \<Longrightarrow> f q \<noteq> None) \<Longrightarrow> agree (c\<lparr>mq := f\<rparr>) n cl"
  unfolding agree_def by fastforce

lemma agree_mono: "agree c n cl \<Longrightarrow> n \<le> n' \<Longrightarrow> agree c n' cl"
  unfolding agree_def by (meson less_le_trans)

text \<open>A change of the queues that removes none keeps the sessions.\<close>

lemma tcp_ok_mq:
  assumes "tcp_ok t" "\<And>q. mq (t_core t) q \<noteq> None \<Longrightarrow> f q \<noteq> None"
  shows "tcp_ok (t\<lparr>t_core := (t_core t)\<lparr>mq := f\<rparr>\<rparr>)"
proof -
  let ?c = "(t_core t)\<lparr>mq := f\<rparr>"
  have "agree ?c (next_qid t) cl" if "cl \<in> set (conns t)" for cl
    using assms(1) that by (intro agree_mq assms(2)) (simp_all add: tcp_ok_iff)
  moreover have "conns (t\<lparr>t_core := ?c\<rparr>) = conns t" by (simp add: conns_def)
  ultimately show ?thesis using assms(1) subs_ok_mq [of "t_core t" f] by (simp add: tcp_ok_iff)
qed

text \<open>The queue of a connection in use.\<close>

lemma conn_queue:
  assumes "tcp_ok t" "cli < num_clients t"
  obtains q qu where "c_queue (client cli t) = Some q" "mq (t_core t) q = Some qu" "q < next_qid t"
    "\<And>k. Some k \<in> set (dev_subs (client cli t)) \<Longrightarrow> k < length (devices (t_core t))"
    "\<And>k. k < length (devices (t_core t)) \<Longrightarrow> count (subs_at (t_core t) k) q = count_list (dev_subs (client cli t)) (Some k)"
proof -
  from assms have "agree (t_core t) (next_qid t) (client cli t)" by (simp add: tcp_ok_def live_def)
  then show ?thesis by (rule agreeE) (use that in blast)
qed

text \<open>The message that answers one with header \<open>h\<close>: the payload \<open>d\<close> goes through the copy function of the message type.\<close>

definition reply_message :: "'x tcp_env \<Rightarrow> msghdr \<Rightarrow> u8 \<Rightarrow> 'x tcp_data option \<Rightarrow> 'x tcp_payload message \<Rightarrow> bool" where
  "reply_message e h ty d r \<longleftrightarrow>
     addr (Header r) = addr h \<and> subtype (Header r) = subtype h \<and> seq (Header r) = seq h \<and> timestamp (Header r) = timestamp h \<and>
     mtype (Header r) = ty \<and>
     Data r = (case d of None \<Rightarrow> None
               | Some x \<Rightarrow> (case get_clonefunc (env_xdr (te e)) (interf (addr h)) ty (subtype h) of None \<Rightarrow> None | Some cp \<Rightarrow> cp (OtherData x)))"

text \<open>The content \<open>es'\<close> of a queue with the content \<open>es\<close> after the reply \<open>r\<close>, on which the rules of the queue have the verdict \<open>v\<close>:
  it is put in front, or ignored, or appended in place of the last message of its kind, or appended.\<close>

definition queued :: "bool \<Rightarrow> c_int \<Rightarrow> 'd message \<Rightarrow> 'd message list \<Rightarrow> 'd message list \<Rightarrow> bool" where
  "queued front v r es es' \<longleftrightarrow>
     (if front then es' = r # es
      else if v = RULE_IGNORE then es' = es
      else if v = RULE_REPLACE then
        (\<forall>x \<in> set es. \<not> same_signature (Header x) (Header r)) \<and> es' = es @ [r] \<or>
        (\<exists>xs y ys. es = xs @ y # ys \<and> same_signature (Header y) (Header r) \<and>
           (\<forall>x \<in> set ys. \<not> same_signature (Header x) (Header r)) \<and> es' = xs @ ys @ [r])
      else es' = es @ [r])"

text \<open>A queue but for its content.\<close>

definition settings :: "'d mqueue \<Rightarrow> 'd mqueue" where
  "settings q = q\<lparr>elems := [], Length := 0\<rparr>"

text \<open>The queue \<open>q\<close> has got the reply and the settings that \<open>f\<close> makes; no other queue changes.\<close>

definition replied :: "'x tcp_env \<Rightarrow> msghdr \<Rightarrow> u8 \<Rightarrow> 'x tcp_data option \<Rightarrow> bool \<Rightarrow> ('x tcp_payload mqueue \<Rightarrow> 'x tcp_payload mqueue) \<Rightarrow>
    qid \<Rightarrow> ('s, 'x) tcp \<Rightarrow> ('s, 'x) tcp \<Rightarrow> bool" where
  "replied e h ty d front f q t t' \<longleftrightarrow> (\<forall>q'. q' \<noteq> q \<longrightarrow> mq (t_core t') q' = mq (t_core t) q') \<and>
     (\<exists>qu qu' r. mq (t_core t) q = Some qu \<and> mq (t_core t') q = Some qu' \<and> reply_message e h ty d r \<and>
        settings qu' = settings (f qu) \<and> queued front (CheckReplace qu' (Header r)) r (elems qu) (elems qu'))"

text \<open>Nothing but queues has changed.\<close>

definition only_queues :: "('s, 'x) tcp \<Rightarrow> ('s, 'x) tcp \<Rightarrow> bool" where
  "only_queues t t' \<longleftrightarrow> (\<exists>f. t' = t\<lparr>t_core := (t_core t)\<lparr>mq := f\<rparr>\<rparr>)"

lemma only_queues_mq [simp]: "only_queues t (t\<lparr>t_core := (t_core t)\<lparr>mq := f\<rparr>\<rparr>)"
  unfolding only_queues_def by blast

lemma only_queues_trans: "only_queues t t1 \<Longrightarrow> only_queues t1 t2 \<Longrightarrow> only_queues t t2"
  unfolding only_queues_def by auto

text \<open>No other client and no other subscriber is affected.\<close>

definition others_same :: "qid \<Rightarrow> ('s, 'x) tcp \<Rightarrow> ('s, 'x) tcp \<Rightarrow> bool" where
  "others_same q t t' \<longleftrightarrow> num_clients t' = num_clients t \<and> map c_queue (clients t') = map c_queue (clients t) \<and>
     length (devices (t_core t')) = length (devices (t_core t)) \<and>
     (\<forall>k<length (devices (t_core t)). \<forall>x. x \<noteq> q \<longrightarrow> count (subs_at (t_core t') k) x = count (subs_at (t_core t) k) x)"

lemma others_same_refl [simp]: "others_same q t t"
  by (simp add: others_same_def)

lemma others_same_trans: "others_same q t t1 \<Longrightarrow> others_same q t1 t2 \<Longrightarrow> others_same q t t2"
  by (simp add: others_same_def)

lemma others_same_mq [simp]: "others_same q t (t\<lparr>t_core := (t_core t)\<lparr>mq := f\<rparr>\<rparr>)"
  by (simp add: others_same_def)

definition served :: "'x tcp_env \<Rightarrow> msghdr \<Rightarrow> u8 \<Rightarrow> 'x tcp_data option \<Rightarrow> bool \<Rightarrow> ('x tcp_payload mqueue \<Rightarrow> 'x tcp_payload mqueue) \<Rightarrow>
    qid \<Rightarrow> ('s, 'x) tcp \<Rightarrow> ('s, 'x) tcp \<Rightarrow> bool" where
  "served e h ty d front f q t t' \<longleftrightarrow> tcp_ok t' \<and> replied e h ty d front f q t t' \<and> others_same q t t'"

lemma served_trans:
  "others_same q t t1 \<Longrightarrow> mq (t_core t1) = mq (t_core t) \<Longrightarrow> served e h ty d front f q t1 t2 \<Longrightarrow> served e h ty d front f q t t2"
  by (auto simp: served_def replied_def intro: others_same_trans)

text \<open>A reply that is pushed.\<close>

lemma reply_message_create:
  "reply_message e h ty d (CreateMessage (env_xdr (te e)) (h\<lparr>mtype := ty\<rparr>) (map_option OtherData d) None True)"
  by (auto simp: reply_message_def CreateMessage_def Let_def split: option.splits)

lemma push_q_reply:
  assumes "\<not> is_datacmd (Header r)"
  shows "settings (push_q r qu) = settings qu" "queued False (CheckReplace (push_q r qu) (Header r)) r (elems qu) (elems (push_q r qu))"
proof -
  show "settings (push_q r qu) = settings qu"
    using assms by (simp add: settings_def Push_def PushBack_def Let_def remove_match_def Remove_def split: option.split)
  have "CheckReplace (push_q r qu) (Header r) = CheckReplace qu (Header r)" by (intro CheckReplace_cong) (simp_all add: Push_fields)
  then show "queued False (CheckReplace (push_q r qu) (Header r)) r (elems qu) (elems (push_q r qu))"
    using assms remove_match_elems [of r qu] by (auto simp: queued_def Push_def PushBack_def Let_def)
qed

lemma push_reply_ok:
  assumes t: "tcp_ok t" "cli < num_clients t" and ty: "ty = MSGTYPE_RESP_ACK \<or> ty = MSGTYPE_RESP_NACK"
    and q: "c_queue (client cli t) = Some q"
  shows "\<exists>t'. push_reply e cli h ty d t = Inr t' \<and> served e h ty d False id q t t' \<and> only_queues t t'"
proof -
  obtain q' qu where "c_queue (client cli t) = Some q'" "mq (t_core t) q' = Some qu" by (rule conn_queue [OF t])
  with q have qu: "mq (t_core t) q = Some qu" by simp
  define m where "m = CreateMessage (env_xdr (te e)) (h\<lparr>mtype := ty\<rparr>) (map_option OtherData d) None True"
  let ?f = "(mq (t_core t))(q \<mapsto> push_q m qu)"
  have run: "push_reply e cli h ty d t = Inr (t\<lparr>t_core := (t_core t)\<lparr>mq := ?f\<rparr>\<rparr>)"
    by (simp add: push_reply_def on_client_queue_def q qu m_def)
  have r: "reply_message e h ty d m" unfolding m_def by (rule reply_message_create)
  have "\<not> is_datacmd (Header m)" using ty by (auto simp: m_def)
  note p = push_q_reply [OF this, of qu]
  have "replied e h ty d False id q t (t\<lparr>t_core := (t_core t)\<lparr>mq := ?f\<rparr>\<rparr>)"
    using r p by (simp add: replied_def qu) blast
  with run tcp_ok_mq [OF t(1), of ?f] show ?thesis by (simp add: served_def)
qed

text \<open>The other changes of the client's queue.\<close>

lemma on_client_queue_ok:
  assumes t: "tcp_ok t" "cli < num_clients t" and q: "c_queue (client cli t) = Some q"
  obtains t' qu where "on_client_queue cli f t = Inr t'" "tcp_ok t'" "mq (t_core t) q = Some qu" "num_clients t' = num_clients t"
    "clients t' = clients t" "mq (t_core t') = (mq (t_core t))(q \<mapsto> f qu)" "others_same q t t'" "only_queues t t'"
proof -
  obtain q' qu where "c_queue (client cli t) = Some q'" "mq (t_core t) q' = Some qu" by (rule conn_queue [OF t])
  with q have qu: "mq (t_core t) q = Some qu" by simp
  let ?f = "(mq (t_core t))(q \<mapsto> f qu)"
  have run: "on_client_queue cli f t = Inr (t\<lparr>t_core := (t_core t)\<lparr>mq := ?f\<rparr>\<rparr>)" by (simp add: on_client_queue_def q qu)
  show ?thesis by (rule that [OF run]) (use tcp_ok_mq [OF t(1), of ?f] qu in simp_all)
qed

section \<open>Subscriptions\<close>

lemma record_sub_count:
  "count_list (dev_subs (record_sub k cl)) (Some j) = count_list (dev_subs cl) (Some j) + (if j = k then 1 else 0)"
proof (cases "find_index (\<lambda>d. d = None) (dev_subs cl)")
  case None
  then show ?thesis by (simp add: record_sub_def)
next
  case (Some i)
  from find_index_bound [OF this] have "i < length (dev_subs cl)" "dev_subs cl ! i = None" by simp_all
  from count_list_update [OF this(1), of "Some k" "Some j"] this(2) show ?thesis using Some by (simp add: record_sub_def)
qed

lemma record_unsub_count:
  assumes "Some k \<in> set (dev_subs cl)"
  shows "count_list (dev_subs (record_unsub k cl)) (Some j) = count_list (dev_subs cl) (Some j) - (if j = k then 1 else 0)"
proof (cases "find_index (\<lambda>d. d = Some k) (dev_subs cl)")
  case None
  with assms show ?thesis by (auto simp: find_index_None)
next
  case (Some i)
  from find_index_bound [OF this] have i: "i < length (dev_subs cl)" "dev_subs cl ! i = Some k" by simp_all
  from count_list_update [OF i(1), of None "Some j"] i(2) Some show ?thesis by (auto simp: record_unsub_def)
qed

lemma record_dev_subs:
  "set (dev_subs (record_sub k cl)) \<subseteq> insert (Some k) (set (dev_subs cl))" "set (dev_subs (record_unsub k cl)) \<subseteq> insert None (set (dev_subs cl))"
  by (auto simp: record_sub_def record_unsub_def dest!: subsetD [OF set_update_subset_insert] split: option.splits)

lemma record_frame [simp]:
  "c_queue (record_sub k cl) = c_queue cl" "fd (record_sub k cl) = fd cl" "del (record_sub k cl) = del cl"
  "c_queue (record_unsub k cl) = c_queue cl" "fd (record_unsub k cl) = fd cl" "del (record_unsub k cl) = del cl"
  by (simp_all add: record_sub_def record_unsub_def)

text \<open>A change of the subscriptions of one client to the devices, with the matching change of its record.\<close>

lemma tcp_ok_access:
  assumes t: "tcp_ok t" "cli < num_clients t" and c': "subs_ok c'" "same_table (t_core t) c'" and q: "c_queue (client cli t) = Some q"
    and f: "c_queue (f (client cli t)) = Some q" "fd (f (client cli t)) = fd (client cli t)"
      "\<And>j. Some j \<in> set (dev_subs (f (client cli t))) \<Longrightarrow> j < length (devices (t_core t))"
    and subs: "\<And>j x. j < length (devices (t_core t)) \<Longrightarrow>
      count (subs_at c' j) x = (if x = q then count_list (dev_subs (f (client cli t))) (Some j) else count (subs_at (t_core t) j) x)"
  shows "tcp_ok (upd_client cli f (t\<lparr>t_core := c'\<rparr>)) \<and> others_same q t (upd_client cli f (t\<lparr>t_core := c'\<rparr>))"
proof -
  let ?t = "upd_client cli f (t\<lparr>t_core := c'\<rparr>)"
  have len: "length (devices c') = length (devices (t_core t))" "mq c' = mq (t_core t)" using c'(2) by (simp_all add: same_table_def)
  have n: "num_clients t \<le> length (clients t)" using t(1) by (simp add: tcp_ok_iff)
  have cl: "client j ?t = (if j = cli then f (client cli t) else client j t)" if "j < num_clients t" for j
    using that n by (simp add: upd_client_def nth_list_update)
  obtain q' where q': "c_queue (client cli t) = Some q'" "q' < next_qid t" "mq (t_core t) q' \<noteq> None" by (rule conn_queue [OF t]) auto
  with q have q2: "q < next_qid t" "mq (t_core t) q \<noteq> None" by simp_all
  have inj: "inj_on (\<lambda>j. c_queue (client j t)) {..<num_clients t}" using t(1) by (simp add: tcp_ok_def live_def)
  have ag: "agree c' (next_qid t) (client j ?t)" if j: "j < num_clients t" for j
  proof (cases "j = cli")
    case True
    with cl [OF j] f(1,3) q2 subs len show ?thesis by (auto simp: agree_def)
  next
    case False
    from inj_onD [OF inj, of j cli] False j t(2) q have ne: "c_queue (client j t) \<noteq> Some q" by auto
    have "agree (t_core t) (next_qid t) (client j t)" using t(1) j by (simp add: tcp_ok_def live_def)
    then show ?thesis
    proof (rule agree_change [OF _ _ _ le_refl len(1)])
      show "c_queue (client j ?t) = c_queue (client j t)" "dev_subs (client j ?t) = dev_subs (client j t)" using cl [OF j] False by simp_all
      show "\<And>x. mq (t_core t) x \<noteq> None \<Longrightarrow> mq c' x \<noteq> None" using len by simp
      fix k x assume "k < length (devices (t_core t))" "c_queue (client j t) = Some x"
      with subs ne show "count (subs_at c' k) x = count (subs_at (t_core t) k) x" by auto
    qed
  qed
  have "inj_on (\<lambda>j. c_queue (client j ?t)) {..<num_clients t}"
    using inj cl f(1) q by (subst inj_on_cong) auto
  moreover have "\<forall>j \<in> {..<num_clients t}. client_ufds t ! j = fd (client j ?t)"
    using t(1) cl f(2) by (simp add: tcp_ok_def live_def)
  moreover have "\<forall>k<length (devices c'). \<forall>x \<in># subs_at c' k. x < next_qid t"
  proof (intro allI impI ballI)
    fix k x assume k: "k < length (devices c')" and "x \<in># subs_at c' k"
    then have "count (subs_at c' k) x \<noteq> 0" by simp
    then have "x = q \<or> count (subs_at (t_core t) k) x \<noteq> 0" using subs [of k x] k len by (auto split: if_splits)
    with q2 t(1) k len show "x < next_qid t" by (auto simp: tcp_ok_def live_def)
  qed
  moreover have "drop (num_clients t) (clients ?t) = drop (num_clients t) (clients t)" using t(2) by (simp add: upd_client_def)
  ultimately have "tcp_ok ?t" using t(1) c'(1) ag by (simp add: tcp_ok_def live_def) (simp add: upd_client_def)
  moreover have "map c_queue (clients ?t) = map c_queue (clients t)"
    using t(2) n f(1) q by (simp add: upd_client_def map_update list_update_same_conv)
  then have "others_same q t ?t" using len subs by (simp add: others_same_def) (simp add: upd_client_def)
  ultimately show ?thesis by blast
qed

text \<open>Whether a subscription to device \<open>k\<close> succeeds: its driver is running or its \<open>Setup\<close> starts it.\<close>

definition can_start :: "nat \<Rightarrow> ('s, 'e) core \<Rightarrow> bool" where
  "can_start k c \<longleftrightarrow> (\<exists>i d. dv_driver (devices c ! k) = Some i \<and> drv c i = Some d \<and>
     (subscriptions d \<noteq> 0 \<or> fst (m_Setup (d_methods d) (priv d)) = 0))"

lemma Subscribe_at_starts:
  assumes "subs_ok c" "k < length (devices c)" "Subscribe_at (Some q) k c = Inr (r, c')"
  shows "r = 0 \<longleftrightarrow> can_start k c"
proof -
  from subs_ok_device [OF assms(1,2)] obtain i d where
    i: "device_ok (devices c ! k)" "dv_driver (devices c ! k) = Some i" "drv c i = Some d" "served_class (d_methods d)" .
  have "Subscribe_queue (Some q) (dv_addr (devices c ! k)) d = (1, d)"
    using i(4) by (simp add: Subscribe_queue_def served_class_def base_subscription_def)
  with assms(3) i show ?thesis
    by (auto simp: Subscribe_at_def on_device_def Device_Subscribe_def Driver_Subscribe_def Setup_def can_start_def Let_def split: if_splits prod.splits)
qed

text \<open>The access granted, and what it means for the subscriptions.\<close>

definition access :: "qid \<Rightarrow> nat \<Rightarrow> u8 \<Rightarrow> u8 \<Rightarrow> ('s, 'x) tcp \<Rightarrow> ('s, 'x) tcp \<Rightarrow> bool" where
  "access q k acc granted t t' \<longleftrightarrow>
     granted = (if acc = OPEN_MODE \<and> can_start k (t_core t) then OPEN_MODE else if acc = CLOSE_MODE then CLOSE_MODE else ERROR_MODE) \<and>
     (\<forall>j < length (devices (t_core t)). \<forall>x. int (count (subs_at (t_core t') j) x) = int (count (subs_at (t_core t) j) x) +
        (if j = k \<and> x = q then if granted = OPEN_MODE then 1 else if granted = CLOSE_MODE then - 1 else 0 else 0))"

lemma change_access_ok:
  assumes t: "tcp_ok t" "cli < num_clients t" and k: "k < length (devices (t_core t))"
    and cq: "c_queue (client cli t) = Some q"
    and close: "acc = CLOSE_MODE \<Longrightarrow> Some k \<in> set (dev_subs (client cli t))"
  obtains g t' where "change_access cli k acc t = Inr (g, t')" "tcp_ok t'" "num_clients t' = num_clients t"
    "mq (t_core t') = mq (t_core t)" "c_queue (client cli t') = c_queue (client cli t)"
    "others_same q t t'" "access q k acc g t t'"
proof -
  have q: "c_queue (client cli t) = Some q"
    "\<And>j. Some j \<in> set (dev_subs (client cli t)) \<Longrightarrow> j < length (devices (t_core t))"
    "\<And>j. j < length (devices (t_core t)) \<Longrightarrow> count (subs_at (t_core t) j) q = count_list (dev_subs (client cli t)) (Some j)"
    using conn_queue [OF t] cq by (metis option.inject)+
  have core: "subs_ok (t_core t)" and n: "num_clients t \<le> length (clients t)" using t(1) by (simp_all add: tcp_ok_iff)
  have i: "cli < length (clients t)" using t(2) n by simp
  consider "acc = OPEN_MODE" | "acc = CLOSE_MODE" | "acc \<noteq> OPEN_MODE" "acc \<noteq> CLOSE_MODE" by blast
  then show ?thesis
  proof cases
    case 1
    from Subscribe_at_client [OF core k, of q] obtain r c where
      c: "Subscribe_at (Some q) k (t_core t) = Inr (r, c)" "r \<le> 0" "subs_ok c" "same_table (t_core t) c"
        "\<forall>j<length (devices (t_core t)). subs_at c j = (if r = 0 \<and> j = k then add_mset q (subs_at (t_core t) j) else subs_at (t_core t) j)" .
    define f where "f = (if r < 0 then id else record_sub k)"
    let ?t = "upd_client cli f (t\<lparr>t_core := c\<rparr>)"
    have ac: "access q k acc (if r < 0 then ERROR_MODE else acc) t ?t"
      using 1 c(2,5) Subscribe_at_starts [OF core k c(1)] by (auto simp: access_def upd_client_def)
    have upd: "upd_client cli id (t\<lparr>t_core := c\<rparr>) = t\<lparr>t_core := c\<rparr>" using i by (simp add: upd_client_def)
    have run: "change_access cli k acc t = Inr (if r < 0 then ERROR_MODE else acc, ?t)"
      using 1 c(1) upd by (simp add: change_access_def q(1) f_def Let_def)
    have "tcp_ok ?t \<and> others_same q t ?t"
    proof (rule tcp_ok_access [OF t c(3,4) q(1)])
      show "c_queue (f (client cli t)) = Some q" "fd (f (client cli t)) = fd (client cli t)" using q(1) by (simp_all add: f_def)
      show "\<And>j. Some j \<in> set (dev_subs (f (client cli t))) \<Longrightarrow> j < length (devices (t_core t))"
        using q(2) k record_dev_subs(1) [of k "client cli t"] by (auto simp: f_def split: if_splits)
      show "\<And>j x. j < length (devices (t_core t)) \<Longrightarrow>
          count (subs_at c j) x = (if x = q then count_list (dev_subs (f (client cli t))) (Some j) else count (subs_at (t_core t) j) x)"
        using c(2,5) q(3) by (auto simp: f_def record_sub_count)
    qed
    moreover have "mq c = mq (t_core t)" using c(4) by (simp add: same_table_def)
    ultimately show ?thesis using 1 i ac by (intro that [OF run]) (simp_all add: upd_client_def f_def)
  next
    case 2
    then have mem: "Some k \<in> set (dev_subs (client cli t))" using close by simp
    then have "count (subs_at (t_core t) k) q \<noteq> 0" using q(3) [OF k] by (metis count_list_0_iff)
    then have "q \<in># subs_at (t_core t) k" by (metis count_inI)
    from Unsubscribe_at_client [OF core k this] obtain c where
      c: "Unsubscribe_at (Some q) k (t_core t) = Inr (0, c)" "subs_ok c" "same_table (t_core t) c"
        "\<forall>j<length (devices (t_core t)). subs_at c j = (if j = k then subs_at (t_core t) j - {#q#} else subs_at (t_core t) j)" .
    let ?t = "upd_client cli (record_unsub k) (t\<lparr>t_core := c\<rparr>)"
    have "q \<in># subs_at (t_core t) k" by fact
    then have "int (count (subs_at (t_core t) k - {#q#}) q) = int (count (subs_at (t_core t) k) q) - 1" by simp
    then have ac: "access q k acc acc t ?t" using 2 c(4) by (auto simp: access_def upd_client_def)
    have run: "change_access cli k acc t = Inr (acc, ?t)" using 2 c(1) by (simp add: change_access_def q(1) Let_def)
    have "tcp_ok ?t \<and> others_same q t ?t"
    proof (rule tcp_ok_access [OF t c(2,3) q(1)])
      show "c_queue (record_unsub k (client cli t)) = Some q" "fd (record_unsub k (client cli t)) = fd (client cli t)" using q(1) by simp_all
      show "\<And>j. Some j \<in> set (dev_subs (record_unsub k (client cli t))) \<Longrightarrow> j < length (devices (t_core t))"
        using q(2) record_dev_subs(2) [of k "client cli t"] by auto
      show "\<And>j x. j < length (devices (t_core t)) \<Longrightarrow> count (subs_at c j) x =
          (if x = q then count_list (dev_subs (record_unsub k (client cli t))) (Some j) else count (subs_at (t_core t) j) x)"
        using c(4) q(3) by (simp add: record_unsub_count [OF mem])
    qed
    moreover have "mq c = mq (t_core t)" using c(3) by (simp add: same_table_def)
    ultimately show ?thesis using 2 i ac by (intro that [OF run]) (simp_all add: upd_client_def)
  next
    case 3
    then have "change_access cli k acc t = Inr (ERROR_MODE, t)" by (simp add: change_access_def)
    moreover have "access q k acc ERROR_MODE t t" using 3 by (simp add: access_def)
    ultimately show ?thesis by (intro that) (simp_all add: t(1))
  qed
qed

section \<open>Requests\<close>

text \<open>What the server takes for granted of a request: that the payload is there, and that a client closes only what it has open.\<close>

definition server_addr :: "nat \<Rightarrow> devaddr \<Rightarrow> ('s, 'x) tcp \<Rightarrow> devaddr" where
  "server_addr cli a t = a\<lparr>host := t_host t, robot := word_of_int (c_port (client cli t))\<rparr>"

definition fair_request :: "nat \<Rightarrow> 'x tcp_payload message \<Rightarrow> ('s, 'x) tcp \<Rightarrow> bool" where
  "fair_request cli msg t \<longleftrightarrow>
     (mtype (Header msg) = MSGTYPE_REQ \<longrightarrow>
        (subtype (Header msg) = REQ_DEV \<longrightarrow>
           (\<exists>a acc cnt nm. Data msg = Some (OtherData (DevReq a acc cnt nm)) \<and>
              (acc = CLOSE_MODE \<longrightarrow>
                 (\<forall>k. find_device (server_addr cli a t) (devices (t_core t)) = Some k \<longrightarrow> Some k \<in> set (dev_subs (client cli t)))))) \<and>
        (subtype (Header msg) = REQ_DRIVERINFO \<longrightarrow> (\<exists>a cnt nm. Data msg = Some (OtherData (DriverInfo a cnt nm)))) \<and>
        (subtype (Header msg) = REQ_ADD_REPLACE_RULE \<longrightarrow> (\<exists>i ix ty sub rep. Data msg = Some (OtherData (ReplaceRule i ix ty sub rep)))) \<and>
        (subtype (Header msg) = REQ_DATAMODE \<longrightarrow> (\<exists>m. Data msg = Some (OtherData (DataMode m)))))"

lemma find_device_bound: "find_device a vs = Some k \<Longrightarrow> k < length vs"
  unfolding find_device_def by (drule find_index_bound) simp

text \<open>The device at an address, the first one registered there.\<close>

definition is_device :: "nat \<Rightarrow> devaddr \<Rightarrow> ('s, 'x) tcp \<Rightarrow> bool" where
  "is_device k a t \<longleftrightarrow> interf a \<noteq> 0 \<and> k < length (devices (t_core t)) \<and> MatchDeviceAddress (dv_addr (devices (t_core t) ! k)) a \<and>
     (\<forall>j<k. \<not> MatchDeviceAddress (dv_addr (devices (t_core t) ! j)) a)"

definition no_device :: "devaddr \<Rightarrow> ('s, 'x) tcp \<Rightarrow> bool" where
  "no_device a t \<longleftrightarrow> interf a = 0 \<or> (\<forall>v \<in> set (devices (t_core t)). \<not> MatchDeviceAddress (dv_addr v) a)"

lemma GetDevice_cases:
  obtains k where "is_device k a t" "find_device a (devices (t_core t)) = Some k" "GetDevice a False (t_core t) = Inr (Some k, t_core t)"
  | "no_device a t" "GetDevice a False (t_core t) = Inr (None, t_core t)"
proof (cases "interf a = 0 \<or> find_device a (devices (t_core t)) = None")
  case True
  then have "no_device a t" by (auto simp: no_device_def find_device_def find_index_None)
  moreover have "GetDevice a False (t_core t) = Inr (None, t_core t)" using True by (auto simp: GetDevice_local)
  ultimately show ?thesis by (rule that(2))
next
  case False
  then obtain k where k: "find_device a (devices (t_core t)) = Some k" by blast
  with False have "is_device k a t" by (simp add: is_device_def find_device_def find_index_Some)
  moreover have "GetDevice a False (t_core t) = Inr (Some k, t_core t)" using False k by (simp add: GetDevice_local)
  ultimately show ?thesis using k that(1) by blast
qed

text \<open>The answer that a request is due: the type of the reply, its payload, whether it goes to the front, and what becomes of the
  settings of the client's queue.\<close>

definition asks :: "'x tcp_payload message \<Rightarrow> u8 \<Rightarrow> 'x tcp_data \<Rightarrow> bool" where
  "asks msg sub x \<longleftrightarrow> mtype (Header msg) = MSGTYPE_REQ \<and> subtype (Header msg) = sub \<and> Data msg = Some (OtherData x)"

inductive answer :: "nat \<Rightarrow> 'x tcp_payload message \<Rightarrow> qid \<Rightarrow> ('s, 'x) tcp \<Rightarrow> ('s, 'x) tcp \<Rightarrow> u8 \<Rightarrow> 'x tcp_data option \<Rightarrow> bool \<Rightarrow>
    ('x tcp_payload mqueue \<Rightarrow> 'x tcp_payload mqueue) \<Rightarrow> bool" for cli msg q t t' where
  opened: "asks msg REQ_DEV (DevReq a acc cnt nm) \<Longrightarrow> is_device k (server_addr cli a t) t \<Longrightarrow> access q k acc granted t t' \<Longrightarrow>
    name = take 63 (drivername (devices (t_core t) ! k)) \<Longrightarrow>
    answer cli msg q t t' MSGTYPE_RESP_ACK (Some (DevReq (server_addr cli a t) granted (of_nat (length name + 1)) name)) False id"
| unknown: "asks msg REQ_DEV (DevReq a acc cnt nm) \<Longrightarrow> no_device (server_addr cli a t) t \<Longrightarrow> only_queues t t' \<Longrightarrow>
    answer cli msg q t t' MSGTYPE_RESP_NACK (Some (DevReq (server_addr cli a t) ERROR_MODE 0 nm)) False id"
| listed: "mtype (Header msg) = MSGTYPE_REQ \<Longrightarrow> subtype (Header msg) = REQ_DEVLIST \<Longrightarrow> only_queues t t' \<Longrightarrow>
    as = [dv_addr v. v \<leftarrow> devices (t_core t), host (dv_addr v) = t_host t \<and> sint (robot (dv_addr v)) = c_port (client cli t)] \<Longrightarrow>
    answer cli msg q t t' MSGTYPE_RESP_ACK (Some (DevList (take 4096 as))) False id"
| informed: "asks msg REQ_DRIVERINFO (DriverInfo a cnt nm) \<Longrightarrow> is_device k (server_addr cli a t) t \<Longrightarrow> only_queues t t' \<Longrightarrow>
    name = drivername (devices (t_core t) ! k) \<Longrightarrow>
    answer cli msg q t t' MSGTYPE_RESP_ACK (Some (DriverInfo (server_addr cli a t) (of_nat (length name + 1)) (take 63 name))) False id"
| uninformed: "asks msg REQ_DRIVERINFO (DriverInfo a cnt nm) \<Longrightarrow> no_device (server_addr cli a t) t \<Longrightarrow> only_queues t t' \<Longrightarrow>
    answer cli msg q t t' MSGTYPE_RESP_NACK None False id"
| ruled: "asks msg REQ_ADD_REPLACE_RULE (ReplaceRule i ix ty sub rep) \<Longrightarrow> only_queues t t' \<Longrightarrow>
    answer cli msg q t t' MSGTYPE_RESP_ACK None False
      (\<lambda>qu. qu\<lparr>replaceRules := AddReplaceRule_list (replaceRules qu) (- 1) (- 1) i ix ty sub rep\<rparr>)"
| moded: "asks msg REQ_DATAMODE (DataMode m) \<Longrightarrow> only_queues t t' \<Longrightarrow>
    answer cli msg q t t' MSGTYPE_RESP_ACK None False
      (\<lambda>qu. if m = DATAMODE_PUSH then qu\<lparr>pull := False\<rparr> else if m = DATAMODE_PULL then qu\<lparr>pull := True\<rparr> else qu)"
| data: "mtype (Header msg) = MSGTYPE_REQ \<Longrightarrow> subtype (Header msg) = REQ_DATA \<Longrightarrow> only_queues t t' \<Longrightarrow>
    answer cli msg q t t' MSGTYPE_RESP_ACK None True (\<lambda>qu. qu\<lparr>data_requested := True, data_delivered := False\<rparr>)"
| refused: "mtype (Header msg) \<noteq> MSGTYPE_REQ \<or>
      subtype (Header msg) \<notin> {REQ_DEV, REQ_DEVLIST, REQ_DRIVERINFO, REQ_ADD_REPLACE_RULE, REQ_DATAMODE, REQ_DATA} \<Longrightarrow>
    only_queues t t' \<Longrightarrow> answer cli msg q t t' MSGTYPE_RESP_NACK None False id"

definition answered :: "'x tcp_env \<Rightarrow> nat \<Rightarrow> 'x tcp_payload message \<Rightarrow> qid \<Rightarrow> ('s, 'x) tcp \<Rightarrow> ('s, 'x) tcp \<Rightarrow> bool" where
  "answered e cli msg q t t' \<longleftrightarrow>
     (\<exists>ty d front f. answer cli msg q t t' ty d front f \<and> served e ((Header msg)\<lparr>timestamp := te_now e\<rparr>) ty d front f q t t')"

text \<open>The forms of \<open>push_reply_ok\<close> for the two kinds of reply.\<close>

lemmas ack_ok = push_reply_ok [where ty = MSGTYPE_RESP_ACK, simplified]
lemmas nack_ok = push_reply_ok [where ty = MSGTYPE_RESP_NACK, simplified]

lemma handle_dev_ok:
  fixes e :: "'x tcp_env" and t :: "('s, 'x) tcp"
  assumes t: "tcp_ok t" "cli < num_clients t" and q: "c_queue (client cli t) = Some q" and a: "asks msg REQ_DEV (DevReq a acc cnt nm)"
    and close: "acc = CLOSE_MODE \<Longrightarrow> \<forall>k. find_device (server_addr cli a t) (devices (t_core t)) = Some k \<longrightarrow> Some k \<in> set (dev_subs (client cli t))"
  defines "h \<equiv> (Header msg)\<lparr>timestamp := te_now e\<rparr>"
  shows "\<exists>t'. handle_dev e cli h (DevReq a acc cnt nm) t = Inr t' \<and> answered e cli msg q t t'"
proof (cases rule: GetDevice_cases [of "server_addr cli a t" t])
  case 2
  from nack_ok [OF t q, of e h "Some (DevReq (server_addr cli a t) ERROR_MODE 0 nm)"] obtain t' where
    t': "push_reply e cli h MSGTYPE_RESP_NACK (Some (DevReq (server_addr cli a t) ERROR_MODE 0 nm)) t = Inr t'"
      "served e h MSGTYPE_RESP_NACK (Some (DevReq (server_addr cli a t) ERROR_MODE 0 nm)) False id q t t'" "only_queues t t'" by blast
  have "answered e cli msg q t t'" using answer.unknown [OF a 2(1) t'(3)] t'(2) unfolding answered_def h_def by blast
  with 2(2) t'(1) show ?thesis by (simp add: handle_dev_def server_addr_def [symmetric] Let_def)
next
  case (1 k)
  from close 1(2) have "acc = CLOSE_MODE \<Longrightarrow> Some k \<in> set (dev_subs (client cli t))" by blast
  then obtain g t1 where t1: "change_access cli k acc t = Inr (g, t1)" "tcp_ok t1" "num_clients t1 = num_clients t"
    "mq (t_core t1) = mq (t_core t)" "c_queue (client cli t1) = c_queue (client cli t)" "others_same q t t1" "access q k acc g t t1"
    by (rule change_access_ok [OF t find_device_bound [OF 1(2)] q])
  let ?name = "take 63 (drivername (devices (t_core t) ! k))"
  let ?d = "Some (DevReq (server_addr cli a t) g (of_nat (length ?name + 1)) ?name)"
  have n1: "cli < num_clients t1" and q1: "c_queue (client cli t1) = Some q" using t1(3,5) t(2) q by simp_all
  from ack_ok [OF t1(2) n1 q1, of e h ?d] obtain t' where
    t': "push_reply e cli h MSGTYPE_RESP_ACK ?d t1 = Inr t'" "served e h MSGTYPE_RESP_ACK ?d False id q t1 t'" "only_queues t1 t'" by blast
  have same: "devices (t_core t') = devices (t_core t1)" using t'(3) by (auto simp: only_queues_def)
  have "access q k acc g t t'" using t1(7) unfolding access_def same .
  then have "answered e cli msg q t t'"
    using answer.opened [OF a 1(1) _ refl] served_trans [OF t1(6,4) t'(2)] unfolding answered_def h_def by blast
  with 1(3) t1(1) t'(1) show ?thesis by (simp add: handle_dev_def server_addr_def [symmetric] Let_def strncpy_term_def)
qed

lemma handle_driverinfo_ok:
  fixes e :: "'x tcp_env" and t :: "('s, 'x) tcp"
  assumes t: "tcp_ok t" "cli < num_clients t" and q: "c_queue (client cli t) = Some q" and a: "asks msg REQ_DRIVERINFO (DriverInfo a cnt nm)"
  defines "h \<equiv> (Header msg)\<lparr>timestamp := te_now e\<rparr>"
  shows "\<exists>t'. handle_driverinfo e cli h (DriverInfo a cnt nm) t = Inr t' \<and> answered e cli msg q t t'"
proof (cases rule: GetDevice_cases [of "server_addr cli a t" t])
  case 2
  from nack_ok [OF t q, of e h None] obtain t' where
    t': "push_reply e cli h MSGTYPE_RESP_NACK None t = Inr t'" "served e h MSGTYPE_RESP_NACK None False id q t t'" "only_queues t t'" by blast
  have "answered e cli msg q t t'" using answer.uninformed [OF a 2(1) t'(3)] t'(2) unfolding answered_def h_def by blast
  with 2(2) t'(1) show ?thesis by (simp add: handle_driverinfo_def server_addr_def [symmetric] Let_def)
next
  case (1 k)
  let ?name = "drivername (devices (t_core t) ! k)"
  let ?d = "Some (DriverInfo (server_addr cli a t) (of_nat (length ?name + 1)) (take 63 ?name))"
  from ack_ok [OF t q, of e h ?d] obtain t' where
    t': "push_reply e cli h MSGTYPE_RESP_ACK ?d t = Inr t'" "served e h MSGTYPE_RESP_ACK ?d False id q t t'" "only_queues t t'" by blast
  have "answered e cli msg q t t'" using answer.informed [OF a 1(1) t'(3) refl] t'(2) unfolding answered_def h_def by blast
  with 1(3) t'(1) show ?thesis by (simp add: handle_driverinfo_def server_addr_def [symmetric] Let_def strncpy_term_def)
qed

lemma handle_after_queue_change:
  assumes t: "tcp_ok t" "cli < num_clients t" "c_queue (client cli t) = Some q"
    and f: "\<And>qu. elems (f qu) = elems qu" "\<And>qu. settings (f qu) = settings (g qu)"
  shows "\<exists>t'. bindo (on_client_queue cli f t) (push_reply e cli h MSGTYPE_RESP_ACK None) = Inr t' \<and>
    served e h MSGTYPE_RESP_ACK None False g q t t' \<and> only_queues t t'"
proof -
  obtain t1 qu where t1: "on_client_queue cli f t = Inr t1" "tcp_ok t1" "mq (t_core t) q = Some qu" "num_clients t1 = num_clients t"
    "clients t1 = clients t" "mq (t_core t1) = (mq (t_core t))(q \<mapsto> f qu)" "others_same q t t1" "only_queues t t1" by (rule on_client_queue_ok [OF t])
  have "cli < num_clients t1" "c_queue (client cli t1) = Some q" using t t1 by simp_all
  from ack_ok [OF t1(2) this, of e h None] obtain t' where
    t': "push_reply e cli h MSGTYPE_RESP_ACK None t1 = Inr t'" "served e h MSGTYPE_RESP_ACK None False id q t1 t'" "only_queues t1 t'" by blast
  have "replied e h MSGTYPE_RESP_ACK None False g q t t'" using t'(2) t1(3) f by (auto simp: served_def replied_def t1(6))
  then have "served e h MSGTYPE_RESP_ACK None False g q t t'"
    using t'(2) others_same_trans [OF t1(7)] by (simp add: served_def)
  with t1(1) t'(1) only_queues_trans [OF t1(8) t'(3)] show ?thesis by simp
qed

lemma handle_data_ok:
  assumes t: "tcp_ok t" "cli < num_clients t" "c_queue (client cli t) = Some q"
  shows "\<exists>t'. handle_data e cli h t = Inr t' \<and>
    served e h MSGTYPE_RESP_ACK None True (\<lambda>qu. qu\<lparr>data_requested := True, data_delivered := False\<rparr>) q t t' \<and> only_queues t t'"
proof -
  define m where "m = CreateMessage (env_xdr (te e)) (h\<lparr>mtype := MSGTYPE_RESP_ACK\<rparr>) None None True"
  let ?f = "SetDataRequested True \<circ> PushFront m"
  obtain t1 qu where t1: "on_client_queue cli ?f t = Inr t1" "tcp_ok t1" "mq (t_core t) q = Some qu"
    "num_clients t1 = num_clients t" "clients t1 = clients t"
    "mq (t_core t1) = (mq (t_core t))(q \<mapsto> ?f qu)" "others_same q t t1" "only_queues t t1" by (rule on_client_queue_ok [OF t])
  have "settings (?f qu) = settings (qu\<lparr>data_requested := True, data_delivered := False\<rparr>)" "elems (?f qu) = m # elems qu"
    by (simp_all add: SetDataRequested_def PushFront_def settings_def)
  moreover have "reply_message e h MSGTYPE_RESP_ACK None m"
    unfolding m_def using reply_message_create [of e h MSGTYPE_RESP_ACK None] by simp
  ultimately have "replied e h MSGTYPE_RESP_ACK None True (\<lambda>qu. qu\<lparr>data_requested := True, data_delivered := False\<rparr>) q t t1"
    using t1(3) by (auto simp: replied_def queued_def t1(6))
  with t1(1,2,7,8) show ?thesis by (simp add: handle_data_def m_def served_def)
qed

lemma handle_datamode_ok:
  assumes t: "tcp_ok t" "cli < num_clients t" "c_queue (client cli t) = Some q"
  shows "\<exists>t'. handle_datamode e cli h (DataMode m) t = Inr t' \<and> served e h MSGTYPE_RESP_ACK None False
      (\<lambda>qu. if m = DATAMODE_PUSH then qu\<lparr>pull := False\<rparr> else if m = DATAMODE_PULL then qu\<lparr>pull := True\<rparr> else qu) q t t' \<and> only_queues t t'"
proof -
  let ?g = "\<lambda>qu. if m = DATAMODE_PUSH then qu\<lparr>pull := False\<rparr> else if m = DATAMODE_PULL then qu\<lparr>pull := True\<rparr> else qu"
  consider "m = DATAMODE_PUSH" | "m = DATAMODE_PULL" | "m \<noteq> DATAMODE_PUSH" "m \<noteq> DATAMODE_PULL" by blast
  then show ?thesis
  proof cases
    case 1
    with handle_after_queue_change [OF t, of "SetPull False" ?g e h] show ?thesis by (simp add: handle_datamode_def SetPull_def)
  next
    case 2
    with handle_after_queue_change [OF t, of "SetPull True" ?g e h] show ?thesis by (simp add: handle_datamode_def SetPull_def)
  next
    case 3
    then have "?g = (\<lambda>qu. qu)" by simp
    with 3 ack_ok [OF t, of e h None, unfolded id_def] show ?thesis by (simp only: handle_datamode_def tcp_data.case if_False bindo.simps)
  qed
qed

lemma handle_replace_rule_ok:
  assumes t: "tcp_ok t" "cli < num_clients t" "c_queue (client cli t) = Some q"
  shows "\<exists>t'. handle_replace_rule e cli h (ReplaceRule i ix ty sub rep) t = Inr t' \<and> served e h MSGTYPE_RESP_ACK None False
      (\<lambda>qu. qu\<lparr>replaceRules := AddReplaceRule_list (replaceRules qu) (- 1) (- 1) i ix ty sub rep\<rparr>) q t t' \<and> only_queues t t'"
  using handle_after_queue_change [OF t, of "AddReplaceRule (- 1) (- 1) i ix ty sub rep"
      "\<lambda>qu. qu\<lparr>replaceRules := AddReplaceRule_list (replaceRules qu) (- 1) (- 1) i ix ty sub rep\<rparr>" e h]
  by (simp add: handle_replace_rule_def AddReplaceRule_def)

lemma device_list_eq:
  "device_list cli t = take 4096 [dv_addr v. v \<leftarrow> devices (t_core t), host (dv_addr v) = t_host t \<and> sint (robot (dv_addr v)) = c_port (client cli t)]"
proof -
  have "filter (\<lambda>a. sint (robot a) = c_port (client cli t) \<and> host a = t_host t) (map dv_addr vs) =
    [dv_addr v. v \<leftarrow> vs, host (dv_addr v) = t_host t \<and> sint (robot (dv_addr v)) = c_port (client cli t)]" for vs :: "device list"
    by (induction vs) auto
  then show ?thesis by (simp add: device_list_def)
qed

lemma HandlePlayerMessage_ok:
  assumes t: "tcp_ok t" "cli < num_clients t" "c_queue (client cli t) = Some q" and fair: "fair_request cli msg t"
  shows "\<exists>t'. HandlePlayerMessage e cli msg t = Inr t' \<and> answered e cli msg q t t'"
proof -
  define h where "h = (Header msg)\<lparr>timestamp := te_now e\<rparr>"
  let ?sub = "subtype (Header msg)"
  note def = HandlePlayerMessage_def Let_def h_def [symmetric] c_assert_def payload_data_def
  have by_rule: "\<exists>t'. res = Inr t' \<and> answered e cli msg q t t'"
    if "\<exists>t'. res = Inr t' \<and> served e h ty d front g q t t' \<and> only_queues t t'" "\<And>t'. only_queues t t' \<Longrightarrow> answer cli msg q t t' ty d front g"
    for res :: "('a, 'b) tcp outcome" and ty d front g using that unfolding answered_def h_def by blast
  show ?thesis
  proof (cases "mtype (Header msg) = MSGTYPE_REQ")
    case False
    from by_rule [OF nack_ok [OF t, of e h None] answer.refused] False t(2) show ?thesis by (simp add: def)
  next
    case req: True
    note f = fair [unfolded fair_request_def, rule_format, OF req]
    consider (dev) "?sub = REQ_DEV" | (list) "?sub = REQ_DEVLIST" | (info) "?sub = REQ_DRIVERINFO" | (rule) "?sub = REQ_ADD_REPLACE_RULE"
      | (mode) "?sub = REQ_DATAMODE" | (data) "?sub = REQ_DATA"
      | (other) "?sub \<notin> {REQ_DEV, REQ_DEVLIST, REQ_DRIVERINFO, REQ_ADD_REPLACE_RULE, REQ_DATAMODE, REQ_DATA}" by blast
    then show ?thesis
    proof cases
      case dev
      with f obtain a acc cnt nm where d: "Data msg = Some (OtherData (DevReq a acc cnt nm))"
        "acc = CLOSE_MODE \<Longrightarrow> \<forall>k. find_device (server_addr cli a t) (devices (t_core t)) = Some k \<longrightarrow> Some k \<in> set (dev_subs (client cli t))" by blast
      have "asks msg REQ_DEV (DevReq a acc cnt nm)" using req dev d(1) by (simp add: asks_def)
      from handle_dev_ok [OF t this d(2), of e] req dev d(1) t(2) show ?thesis by (simp add: def)
    next
      case list
      from by_rule [OF ack_ok [OF t, of e h "Some (DevList (device_list cli t))"], unfolded device_list_eq, OF answer.listed [OF req list _ refl]]
        req list t(2) show ?thesis by (simp add: def device_list_eq)
    next
      case info
      with f obtain a cnt nm where d: "Data msg = Some (OtherData (DriverInfo a cnt nm))" by blast
      then have "asks msg REQ_DRIVERINFO (DriverInfo a cnt nm)" using req info by (simp add: asks_def)
      from handle_driverinfo_ok [OF t this, of e] d req info t(2) show ?thesis by (simp add: def)
    next
      case rule
      with f obtain i ix ty sub rep where d: "Data msg = Some (OtherData (ReplaceRule i ix ty sub rep))" by blast
      then have "asks msg REQ_ADD_REPLACE_RULE (ReplaceRule i ix ty sub rep)" using req rule by (simp add: asks_def)
      from by_rule [OF handle_replace_rule_ok [OF t, of e h i ix ty sub rep] answer.ruled [OF this]] d req rule t(2) show ?thesis by (simp add: def)
    next
      case mode
      with f obtain m where d: "Data msg = Some (OtherData (DataMode m))" by blast
      then have "asks msg REQ_DATAMODE (DataMode m)" using req mode by (simp add: asks_def)
      from by_rule [OF handle_datamode_ok [OF t, of e h m] answer.moded [OF this]] d req mode t(2) show ?thesis by (simp add: def)
    next
      case data
      from by_rule [OF handle_data_ok [OF t, of e h] answer.data [OF req data]] req data t(2) show ?thesis by (simp add: def)
    next
      case other
      from by_rule [OF nack_ok [OF t, of e h None] answer.refused] other req t(2) show ?thesis by (simp add: def)
    qed
  qed
qed

section \<open>New and marked connections\<close>

lemma AddClient_ok:
  assumes t: "tcp_ok t"
  obtains t' cl where "AddClient e h p s b kf t = Inr (Some (next_qid t), t')" "tcp_ok t'" "conns t' = conns t @ [cl]"
    "c_queue cl = Some (next_qid t)" "dev_subs cl = []" "devices (t_core t') = devices (t_core t)"
proof -
  let ?n = "num_clients t" and ?q = "next_qid t"
  define cl where "cl = no_conn\<lparr>valid := True, fd := s, c_host := h, c_port := p, c_queue := Some ?q,
    readbuffersize := READBUFFER_SIZE, writebuffersize := WRITEBUFFER_SIZE, kill_flag := kf\<rparr>"
  define c where "c = (t_core t)\<lparr>mq := (mq (t_core t))(?q \<mapsto> MessageQueue_new (uninit_filter e) False DEFAULT_MAXLEN)\<rparr>"
  define cs where "cs = (if ?n = length (clients t) then clients t @ [no_conn] else clients t)"
  define us where "us = (if ?n = length (clients t) then client_ufds t @ [0] else client_ufds t)"
  have ok: "length (client_ufds t) = length (clients t)" "?n \<le> length (clients t)" "subs_ok (t_core t)"
    "take ?n (client_ufds t) = map fd (conns t)" "distinct (map c_queue (conns t))"
    "\<forall>cl \<in> set (conns t). agree (t_core t) ?q cl" "\<forall>k<length (devices (t_core t)). \<forall>q \<in># subs_at (t_core t) k. q < ?q"
    "\<forall>cl \<in> set (drop ?n (clients t)). \<not> del cl" using t by (simp_all add: tcp_ok_iff)
  have cs: "?n < length cs" "take ?n cs = conns t" "length us = length cs" "take ?n us = map fd (conns t)" "\<forall>cl \<in> set (drop ?n cs). \<not> del cl"
    using ok by (auto simp: cs_def us_def conns_def no_conn_def)
  obtain t' where t': "AddClient e h p s b kf t = Inr (Some ?q, t')" "clients t' = cs[?n := cl]" "client_ufds t' = us[?n := s]"
    "num_clients t' = ?n + 1" "t_core t' = c" "next_qid t' = ?q + 1"
    by (simp add: AddClient_def AddClient_queue_def c_assert_def Let_def cl_def c_def cs_def us_def)
  have conns': "conns t' = conns t @ [cl]" using t'(2,4) cs(1,2) by (simp add: conns_def take_Suc_conv_app_nth)
  have ufds': "take (num_clients t') (client_ufds t') = map fd (conns t')"
    using t'(3,4) cs by (simp add: conns' take_Suc_conv_app_nth) (simp add: cl_def)
  have rest': "\<forall>cl \<in> set (drop (num_clients t') (clients t')). \<not> del cl"
  proof -
    have "set (drop (?n + 1) cs) \<subseteq> set (drop ?n cs)" by (rule set_drop_subset_set_drop) simp
    with t'(2,4) cs(5) show ?thesis by auto
  qed
  have new: "count (subs_at (t_core t) k) ?q = 0" if "k < length (devices (t_core t))" for k
    using ok(7) that by (metis count_inI less_irrefl)
  have "c_queue x \<noteq> Some ?q" if "x \<in> set (conns t)" for x using ok(6) that by (auto simp: agree_def)
  then have dist': "distinct (map c_queue (conns t'))" using ok(5) by (force simp: conns' cl_def)
  have "agree c (?q + 1) x" if "x \<in> set (conns t)" for x
  proof -
    have "agree (t_core t) (?q + 1) x" using agree_mono [of "t_core t" ?q x "?q + 1"] ok(6) that by simp
    then show ?thesis unfolding c_def by (rule agree_mq) simp
  qed
  moreover have "agree c (?q + 1) cl" using new by (simp add: agree_def c_def cl_def no_conn_def)
  ultimately have ag': "\<forall>x \<in> set (conns t'). agree (t_core t') (next_qid t') x" by (simp add: conns' t')
  have "\<forall>k<length (devices c). \<forall>q \<in># subs_at c k. q < ?q + 1" using ok(7) by (auto simp: c_def less_Suc_eq)
  then have "tcp_ok t'"
    unfolding tcp_ok_iff using dist' ag' rest' ufds' t' cs(1,3) subs_ok_mq [OF ok(3)] by (simp add: c_def)
  then show ?thesis using t' conns' by (intro that [of t' cl]) (simp_all add: cl_def c_def no_conn_def)
qed

lemma mark_deleted_ok:
  assumes t: "tcp_ok t" "i < num_clients t"
  shows "tcp_ok (mark_deleted i t)" "map c_queue (conns (mark_deleted i t)) = map c_queue (conns t)" "t_core (mark_deleted i t) = t_core t"
proof -
  have "live {..<num_clients t} (mark_deleted i t)"
    unfolding mark_deleted_def by (rule live_upd_client) (use t in \<open>simp_all add: tcp_ok_def same_session_def\<close>)
  moreover have "num_clients (mark_deleted i t) = num_clients t" "drop (num_clients t) (clients (mark_deleted i t)) = drop (num_clients t) (clients t)"
    using t(2) by (simp_all add: mark_deleted_def upd_client_def)
  ultimately show "tcp_ok (mark_deleted i t)" using t(1) by (simp add: tcp_ok_def)
  show "map c_queue (conns (mark_deleted i t)) = map c_queue (conns t)"
  proof -
    have "i < length (clients t)" using t by (simp add: tcp_ok_iff)
    then have "map c_queue (clients (mark_deleted i t)) = map c_queue (clients t)"
      by (simp add: mark_deleted_def upd_client_def map_update list_update_same_conv)
    moreover have "num_clients (mark_deleted i t) = num_clients t" by (simp add: mark_deleted_def upd_client_def)
    ultimately show ?thesis by (simp add: conns_def flip: take_map)
  qed
  show "t_core (mark_deleted i t) = t_core t" by (simp add: mark_deleted_def upd_client_def)
qed

section \<open>Sessions\<close>

text \<open>What happens to the connections, one at a time: one is accepted, a client sends the server a message, one is marked
  after an error, the marked ones are removed.\<close>

datatype 'x session_op = Join u32 int int | Ask nat "'x tcp_payload message" | Mark nat | Sweep

fun session_step :: "'x tcp_env \<Rightarrow> 'x session_op \<Rightarrow> ('s, 'x) tcp \<Rightarrow> ('s, 'x) tcp outcome" where
  "session_step e (Join h p s) t = bindo (AddClient e h p s True None t) (\<lambda>(_, t'). Inr t')"
| "session_step e (Ask cli msg) t = HandlePlayerMessage e cli msg t"
| "session_step e (Mark i) t = Inr (mark_deleted i t)"
| "session_step e Sweep t = DeleteClients t"

fun fair_op :: "'x session_op \<Rightarrow> ('s, 'x) tcp \<Rightarrow> bool" where
  "fair_op (Ask cli msg) t \<longleftrightarrow> cli < num_clients t \<and> fair_request cli msg t"
| "fair_op (Mark i) t \<longleftrightarrow> i < num_clients t"
| "fair_op _ t \<longleftrightarrow> True"

fun run_session :: "'x tcp_env \<Rightarrow> 'x session_op list \<Rightarrow> ('s, 'x) tcp \<Rightarrow> ('s, 'x) tcp outcome" where
  "run_session e [] t = Inr t"
| "run_session e (op # ops) t = bindo (session_step e op t) (run_session e ops)"

fun fair_session :: "'x tcp_env \<Rightarrow> 'x session_op list \<Rightarrow> ('s, 'x) tcp \<Rightarrow> bool" where
  "fair_session e [] t \<longleftrightarrow> True"
| "fair_session e (op # ops) t \<longleftrightarrow> fair_op op t \<and> (case session_step e op t of Inl _ \<Rightarrow> True | Inr t' \<Rightarrow> fair_session e ops t')"

text \<open>Who is subscribed: those subscribed in \<open>c0\<close> and clients that are connected.\<close>

definition session_inv :: "('s, 'x tcp_data) core \<Rightarrow> ('s, 'x) tcp \<Rightarrow> bool" where
  "session_inv c0 t \<longleftrightarrow> tcp_ok t \<and> length (devices (t_core t)) = length (devices c0) \<and>
     (\<forall>k<length (devices c0). \<forall>q \<in># subs_at (t_core t) k. q \<in># subs_at c0 k \<or> Some q \<in> c_queue ` set (conns t))"

lemma session_step_inv:
  assumes inv: "session_inv c0 t" and op: "fair_op op t"
  obtains t' where "session_step e op t = Inr t'" "session_inv c0 t'"
proof (cases op)
  case (Join h p s)
  from inv have t: "tcp_ok t" by (simp add: session_inv_def)
  obtain t' cl where t': "AddClient e h p s True None t = Inr (Some (next_qid t), t')" "tcp_ok t'" "conns t' = conns t @ [cl]"
    "c_queue cl = Some (next_qid t)" "dev_subs cl = []" "devices (t_core t') = devices (t_core t)" by (rule AddClient_ok [OF t])
  with inv Join that show ?thesis by (auto simp: session_inv_def)
next
  case (Ask cli msg)
  with op have cli: "cli < num_clients t" and fair: "fair_request cli msg t" by simp_all
  from inv have t: "tcp_ok t" by (simp add: session_inv_def)
  obtain q where q: "c_queue (client cli t) = Some q" by (rule conn_queue [OF t cli])
  from HandlePlayerMessage_ok [OF t cli q fair, of e] obtain t' where
    t': "HandlePlayerMessage e cli msg t = Inr t'" "tcp_ok t'" "others_same q t t'" by (auto simp: answered_def served_def)
  have "map c_queue (conns t') = map c_queue (conns t)" using t'(3) by (simp add: others_same_def conns_def flip: take_map)
  then have cq: "c_queue ` set (conns t') = c_queue ` set (conns t)" by (metis set_map)
  have "Some q \<in> c_queue ` set (conns t)"
  proof -
    have "num_clients t \<le> length (clients t)" using t by (simp add: tcp_ok_iff)
    then have "conns t ! cli = client cli t" "cli < length (conns t)" using cli by (simp_all add: conns_def)
    then show ?thesis using q by (metis imageI nth_mem)
  qed
  moreover have "x \<in># subs_at (t_core t) k" if "k < length (devices c0)" "x \<in># subs_at (t_core t') k" "x \<noteq> q" for k x
  proof -
    have "length (devices (t_core t)) = length (devices c0)" using inv by (simp add: session_inv_def)
    with t'(3) that(1,3) have "count (subs_at (t_core t') k) x = count (subs_at (t_core t) k) x" by (simp add: others_same_def)
    with that(2) show ?thesis by (metis count_eq_zero_iff)
  qed
  moreover have "length (devices (t_core t')) = length (devices c0)" using inv t'(3) by (simp add: session_inv_def others_same_def)
  ultimately have "session_inv c0 t'"
    using inv t'(2) unfolding session_inv_def cq by blast
  with t'(1) Ask that show ?thesis by simp
next
  case (Mark i)
  with op inv have t: "tcp_ok t" "i < num_clients t" by (simp_all add: session_inv_def)
  have "c_queue ` set (conns (mark_deleted i t)) = c_queue ` set (conns t)" using mark_deleted_ok(2) [OF t] by (metis set_map)
  with mark_deleted_ok [OF t] inv have "session_inv c0 (mark_deleted i t)" by (simp add: session_inv_def)
  with Mark that show ?thesis by simp
next
  case Sweep
  from inv have t: "tcp_ok t" by (simp add: session_inv_def)
  obtain t' where t': "DeleteClients t = Inr t'" "tcp_ok t'" "conns t' = filter (\<lambda>cl. \<not> del cl) (conns t)" "same_table (t_core t) (t_core t')"
    "\<forall>k<length (devices (t_core t)). \<forall>q. count (subs_at (t_core t') k) q =
       (if \<exists>cl \<in> set (conns t). del cl \<and> c_queue cl = Some q then 0 else count (subs_at (t_core t) k) q)" by (rule DeleteClients_live [OF t])
  have len: "length (devices (t_core t)) = length (devices c0)" using inv by (simp add: session_inv_def)
  have "q \<in># subs_at c0 k \<or> Some q \<in> c_queue ` set (conns t')"
    if k: "k < length (devices c0)" and q: "q \<in># subs_at (t_core t') k" for k q
  proof -
    from q have "count (subs_at (t_core t') k) q \<noteq> 0" by simp
    with t'(5) k len have none: "\<not> (\<exists>cl \<in> set (conns t). del cl \<and> c_queue cl = Some q)" and "count (subs_at (t_core t) k) q \<noteq> 0" by metis+
    then have "q \<in># subs_at (t_core t) k" by (metis count_inI)
    with inv k have "q \<in># subs_at c0 k \<or> Some q \<in> c_queue ` set (conns t)" by (simp add: session_inv_def)
    with none show ?thesis by (auto simp: t'(3) image_iff)
  qed
  with t'(2,4) len have "session_inv c0 t'" by (simp add: session_inv_def same_table_def)
  with t'(1) Sweep that show ?thesis by simp
qed

lemma run_session_inv:
  "session_inv c0 t \<Longrightarrow> fair_session e ops t \<Longrightarrow> \<exists>t'. run_session e ops t = Inr t' \<and> session_inv c0 t'"
proof (induction ops arbitrary: t)
  case (Cons op ops)
  then have "fair_op op t" by simp
  with Cons.prems(1) obtain t1 where t1: "session_step e op t = Inr t1" "session_inv c0 t1" by (rule session_step_inv)
  with Cons.prems(2) have "fair_session e ops t1" by simp
  from Cons.IH [OF t1(2) this] t1(1) show ?case by simp
qed simp

section \<open>The properties\<close>

text \<open>C20: 
  \<open>DeleteClients\<close> removes exactly the connections that are marked, keeps the others in their order, and leaves no
  subscription of a removed client in any device; the subscriptions of all others are as before.
\<close>

theorem DeleteClients_removes_marked:
  assumes "tcp_ok t"
  shows "\<exists>t'. DeleteClients t = Inr t' \<and> tcp_ok t' \<and> conns t' = filter (\<lambda>cl. \<not> del cl) (conns t) \<and>
    (\<forall>k<length (devices (t_core t)). \<forall>q. count (subs_at (t_core t') k) q =
       (if \<exists>cl \<in> set (conns t). del cl \<and> c_queue cl = Some q then 0 else count (subs_at (t_core t) k) q))"
proof -
  obtain t' where "DeleteClients t = Inr t'" "tcp_ok t'" "conns t' = filter (\<lambda>cl. \<not> del cl) (conns t)" "same_table (t_core t) (t_core t')"
    "\<forall>k<length (devices (t_core t)). \<forall>q. count (subs_at (t_core t') k) q =
       (if \<exists>cl \<in> set (conns t). del cl \<and> c_queue cl = Some q then 0 else count (subs_at (t_core t) k) q)" by (rule DeleteClients_live [OF assms])
  then show ?thesis by blast
qed

text \<open>C7: A request of a connected client to the server itself is answered with one reply.  Let the request carry the payload of its
  kind and close only what the client has open, and let the drivers keep the base \<open>Subscribe\<close>, shut down without an error, set
  up with a code that is not positive and change only their own state in both (\<open>tcp_ok\<close>).  Then the request is handled as
  \<open>answer\<close> says: an access to a device, if there is one at the address on this server and port, is granted or not and changes
  the client's subscription to that device accordingly, or none if there is no such device; lists, names, rules, data modes and
  requests for data have their replies and effects; all else is refused.  The reply has the address, subtype and sequence number
  of the request; it is put at the front of the client's queue for a request for data, and otherwise treated as the rules
  of that queue say: left out if one ignores it, in place of the last of its kind if one replaces it, else at the end.  No
  other queue changes, nor the subscriptions of another.\<close>

theorem player_request_answered:
  assumes "tcp_ok t" "cli < num_clients t" "c_queue (client cli t) = Some q" "fair_request cli msg t"
  shows "\<exists>t'. HandlePlayerMessage e cli msg t = Inr t' \<and> tcp_ok t' \<and> others_same q t t' \<and>
    (\<exists>ty d front f. answer cli msg q t t' ty d front f \<and> replied e ((Header msg)\<lparr>timestamp := te_now e\<rparr>) ty d front f q t t')"
  using HandlePlayerMessage_ok [OF assms, of e] unfolding answered_def served_def by blast

text \<open>C3: Let clients join a server that has no connection, send it requests, be marked and be swept away, in any order.  Let every
  request carry the payload of its kind and close only what its client has open (\<open>fair_session\<close>), and let the drivers keep the
  base \<open>Subscribe\<close>, shut down without an error, set up with a code that is not positive and change only their own state in both
  (\<open>tcp_ok\<close>).  Then no step fails, each connected client is subscribed to a device as often as the server has recorded for it,
  and nobody else is subscribed but those who were before.\<close>

theorem session_subscriptions:
  assumes "tcp_ok t" "conns t = []" "fair_session e ops t"
  shows "\<exists>t'. run_session e ops t = Inr t' \<and>
    (\<forall>cl \<in> set (conns t'). \<exists>q. c_queue cl = Some q \<and>
       (\<forall>k<length (devices (t_core t)). count (subs_at (t_core t') k) q = count_list (dev_subs cl) (Some k))) \<and>
    (\<forall>k<length (devices (t_core t)). \<forall>q \<in># subs_at (t_core t') k.
       q \<in># subs_at (t_core t) k \<or> (\<exists>cl \<in> set (conns t'). c_queue cl = Some q))"
proof -
  have "session_inv (t_core t) t" using assms(1) by (simp add: session_inv_def)
  from run_session_inv [OF this assms(3)] obtain t' where t': "run_session e ops t = Inr t'" "session_inv (t_core t) t'" by blast
  have "\<exists>q. c_queue cl = Some q \<and> (\<forall>k<length (devices (t_core t)). count (subs_at (t_core t') k) q = count_list (dev_subs cl) (Some k))"
    if "cl \<in> set (conns t')" for cl
  proof -
    from t'(2) that have "agree (t_core t') (next_qid t') cl" and "length (devices (t_core t')) = length (devices (t_core t))"
      by (simp_all add: session_inv_def tcp_ok_iff)
    then show ?thesis by (auto simp: agree_def)
  qed
  moreover have "q \<in># subs_at (t_core t) k \<or> (\<exists>cl \<in> set (conns t'). c_queue cl = Some q)"
    if "k < length (devices (t_core t))" "q \<in># subs_at (t_core t') k" for k q
    using t'(2) that by (auto simp: session_inv_def image_iff) metis
  ultimately show ?thesis using t'(1) by blast
qed

abbreviation sample_ops :: "unit session_op list" where
  "sample_ops \<equiv> [Join 0 6665 7, Ask 0 (sample_request 6 OPEN_MODE), Mark 0, Sweep]"

lemmas eval_server =
  sample_server_def sample_core_def sample_driver_def sample_request_def DeviceTable_new_def device0_def Driver_new_def default_methods_def
  sample_env_def

lemmas eval_session = eval_server
  AddClient_def AddClient_queue_def Let_def c_assert_def c_send_def fresh_sock_def HandlePlayerMessage_def payload_data_def
  handle_dev_def GetDevice_local new_header_def find_device_def MatchDeviceAddress_def change_access_def Subscribe_at_def on_device_def
  Device_Subscribe_def Subscribe_queue_def Driver_Subscribe_def Setup_def make_room_def empty_spot_def push_reply_def on_client_queue_def
  upd_client_def record_sub_def mark_deleted_def

text \<open>The server after the first client has connected.\<close>

definition sample_joined :: "(unit, unit) tcp" where
  "sample_joined = (case session_step sample_env (Join 0 6665 7) sample_server of Inl _ \<Rightarrow> sample_server | Inr t \<Rightarrow> t)"

lemma sample_joined:
  "session_step sample_env (Join 0 6665 7) sample_server = Inr sample_joined" "num_clients sample_joined = 1"
  "c_queue (client 0 sample_joined) = Some 1" "conns sample_joined = [client 0 sample_joined]" "del (client 0 sample_joined) = False"
  by (simp_all add: sample_joined_def conns_def no_conn_def eval_session cong: if_cong)

lemma sample_joined_ok: "tcp_ok sample_joined"
proof -
  obtain t' cl where "AddClient sample_env 0 6665 7 True None sample_server = Inr (Some (next_qid sample_server), t')" "tcp_ok t'"
    by (rule AddClient_ok [OF sample_server_ok(1)])
  with sample_joined(1) show ?thesis by simp
qed

lemma sample_request_fair: "fair_request 0 (sample_request 6 OPEN_MODE) t"
  by (simp add: fair_request_def sample_request_def new_header_def)

theorem DeleteClients_removes_marked_witness:
  "\<exists>t'. DeleteClients (mark_deleted 0 sample_joined) = Inr t' \<and> tcp_ok t' \<and> conns t' = []"
proof -
  have "tcp_ok (mark_deleted 0 sample_joined)" using mark_deleted_ok(1) [OF sample_joined_ok] sample_joined(2) by simp
  from DeleteClients_removes_marked [OF this] obtain t' where
    "DeleteClients (mark_deleted 0 sample_joined) = Inr t'" "tcp_ok t'" "conns t' = filter (\<lambda>cl. \<not> del cl) (conns (mark_deleted 0 sample_joined))"
    by blast
  moreover have "conns (mark_deleted 0 sample_joined) = [(client 0 sample_joined)\<lparr>del := True\<rparr>]"
    using sample_joined(4) by (simp add: mark_deleted_def upd_client_def conns_def sample_joined(2) take_Suc_conv_app_nth [symmetric] take_update_swap)
  ultimately show ?thesis by auto
qed

lemma sample_refused: "\<not> answer 0 (sample_request 6 OPEN_MODE) 1 sample_joined t' MSGTYPE_RESP_NACK d front f"
proof
  assume "answer 0 (sample_request 6 OPEN_MODE) 1 sample_joined t' MSGTYPE_RESP_NACK d front f"
  then show False
    by cases (auto simp: asks_def no_device_def server_addr_def sample_joined_def no_conn_def eval_session cong: if_cong)
qed

theorem player_request_answered_witness:
  "\<exists>t'. HandlePlayerMessage sample_env 0 (sample_request 6 OPEN_MODE) sample_joined = Inr t' \<and> tcp_ok t' \<and>
     (\<exists>ty d front f. ty \<noteq> MSGTYPE_RESP_NACK \<and> answer 0 (sample_request 6 OPEN_MODE) 1 sample_joined t' ty d front f \<and>
       replied sample_env ((Header (sample_request 6 OPEN_MODE))\<lparr>timestamp := 5\<rparr>) ty d front f 1 sample_joined t')"
proof -
  have now: "te_now sample_env = 5" by (simp add: sample_env_def)
  have "0 < num_clients sample_joined" using sample_joined(2) by simp
  from player_request_answered [OF sample_joined_ok this sample_joined(3) sample_request_fair, of sample_env, unfolded now]
  show ?thesis using sample_refused by metis
qed

theorem session_subscriptions_witness:
  "\<exists>t'. run_session sample_env sample_ops sample_server = Inr t' \<and>
     (\<forall>q \<in># subs_at (t_core t') 0. \<exists>cl \<in> set (conns t'). c_queue cl = Some q)"
proof -
  have "fair_op (Ask 0 (sample_request 6 OPEN_MODE)) sample_joined" using sample_joined(2) sample_request_fair by simp
  moreover have "fair_op (Mark 0) t'" if "session_step sample_env (Ask 0 (sample_request 6 OPEN_MODE)) sample_joined = Inr t'" for t'
    using HandlePlayerMessage_ok [OF sample_joined_ok _ sample_joined(3) sample_request_fair, of sample_env] sample_joined(2) that
    by (auto simp: answered_def served_def others_same_def)
  ultimately have fair: "fair_session sample_env sample_ops sample_server" using sample_joined(1) by (auto split: sum.splits)
  have "length (devices (t_core sample_server)) = 1" "subs_at (t_core sample_server) 0 = {#}"
    by (simp_all add: eval_server subscribers_def)
  with session_subscriptions [OF sample_server_ok fair] show ?thesis by fastforce
qed

section \<open>Requests that the server takes on trust\<close>

text \<open>A request whose payload is missing is read through a null pointer.\<close>

lemma request_without_payload:
  assumes "cli < num_clients t" "mtype (Header msg) = MSGTYPE_REQ" "Data msg = None"
    "subtype (Header msg) \<in> {REQ_DEV, REQ_DRIVERINFO, REQ_ADD_REPLACE_RULE, REQ_DATAMODE}"
  shows "HandlePlayerMessage e cli msg t = Inl NullDeref"
  using assms by (auto simp: HandlePlayerMessage_def c_assert_def payload_data_def)

text \<open>A client closes a device that it has never opened: the driver is shut down while the other client stays subscribed.\<close>

lemma close_by_stranger:
  "\<exists>t d. run_session sample_env [Join 0 6665 7, Join 0 6665 8, Ask 0 (sample_request 6 OPEN_MODE), Ask 1 (sample_request 6 CLOSE_MODE)]
     sample_server = Inr t \<and> drv (t_core t) 0 = Some d \<and> subscriptions d = 0 \<and> subs_at (t_core t) 0 = {#1#} \<and> dev_subs (client 0 t) = [Some 0]"
  by (simp add: eval_session no_conn_def Unsubscribe_at_def Device_Unsubscribe_def Unsubscribe_queue_def Driver_Unsubscribe_def Shutdown_def
      remove_queue_def subscribers_def cong: if_cong)

text \<open>A driver whose \<open>Setup\<close> returns 1: the queue is not subscribed, but the server records a subscription and grants the access.\<close>

definition odd_server :: "(unit, unit) tcp" where
  "odd_server = sample_server\<lparr>t_core := sample_core\<lparr>drv := [0 \<mapsto> sample_driver\<lparr>d_methods := default_methods\<lparr>m_Setup := (\<lambda>s. (1, s))\<rparr>\<rparr>]\<rparr>\<rparr>"

lemma positive_setup_recorded:
  "\<exists>t. run_session sample_env [Join 0 6665 7, Ask 0 (sample_request 6 OPEN_MODE)] odd_server = Inr t \<and>
     subs_at (t_core t) 0 = {#} \<and> dev_subs (client 0 t) = [Some 0]"
  by (simp add: odd_server_def eval_session no_conn_def subscribers_def cong: if_cong)

text \<open>Ports given to a second call of \<open>Listen\<close> are looked up behind the end of their array.\<close>

lemma second_Listen:
  assumes "ports \<noteq> []" "length ports \<le> length (listeners t)"
  shows "Listen bind garbage ports t = Inl OutOfBounds"
proof -
  have "[length (listeners t)..<length (listeners t) + length ports] = length (listeners t) # [Suc (length (listeners t))..<length (listeners t) + length ports]"
    using assms(1) by (subst upt_conv_Cons) auto
  with assms(2) show ?thesis by (simp add: Listen_def)
qed

end
