(* ===== verification/TcpWrite.thy ===== *)
theory TcpWrite
  imports TcpProps
begin

text \<open>
  What \<open>WriteClient\<close> writes to the socket of a client: the encodings of the messages popped from its queue, in their order,
  whatever part of them the socket accepts at a time.
\<close>

section \<open>A message on the wire\<close>

text \<open>The bytes of a message; none if it cannot be encoded.\<close>

definition with_header :: "'x tcp_env \<Rightarrow> msghdr \<Rightarrow> u8 list \<Rightarrow> u8 list" where
  "with_header e h bs = (case hdr_pack e (h\<lparr>msize := of_nat (length bs)\<rparr>) of None \<Rightarrow> [] | Some hb \<Rightarrow> hb @ bs)"

definition wire :: "'x tcp_env \<Rightarrow> 'x tcp_payload message \<Rightarrow> u8 list" where
  "wire e m =
     (let h = Header m in
      case outgoing_payload e m of
        Inr (Some None) \<Rightarrow> with_header e h []
      | Inr (Some (Some d)) \<Rightarrow>
          (case get_packfunc e (interf (addr h)) (mtype h) (subtype h) of
             None \<Rightarrow> []
           | Some p \<Rightarrow> (case encode_with p d (4 * unat (msize h)) of None \<Rightarrow> [] | Some bs \<Rightarrow> with_header e h bs))
      | _ \<Rightarrow> [])"

text \<open>
  Messages that the server can send: there is a function for the payload, which keeps to the length that it is given, four
  times the size in the header, and that is within the limit of a message.
\<close>

definition sendable :: "'x tcp_env \<Rightarrow> 'x tcp_payload message \<Rightarrow> bool" where
  "sendable e m \<longleftrightarrow>
     (let h = Header m; n = 4 * unat (msize h) in
      MSGHDR_SIZE + n \<le> MAX_MESSAGE_SIZE \<and> (is_map_reply h \<longrightarrow> Data m \<noteq> None) \<and>
      (\<forall>d. outgoing_payload e m = Inr (Some (Some d)) \<longrightarrow>
         (\<exists>p. get_packfunc e (interf (addr h)) (mtype h) (subtype h) = Some p \<and> (\<forall>bs. encode_with p d n = Some bs \<longrightarrow> length bs \<le> n))))"

definition packs_headers :: "'x tcp_env \<Rightarrow> bool" where
  "packs_headers e \<longleftrightarrow> (\<forall>h hb. hdr_pack e h = Some hb \<longrightarrow> length hb = MSGHDR_SIZE)"

lemma unat_times4:
  assumes "MSGHDR_SIZE + 4 * unat n \<le> MAX_MESSAGE_SIZE"
  shows "unat (40 + 4 * n :: u32) = 40 + 4 * unat n"
proof -
  have "4 * unat n < 2 ^ 32" using assms by simp
  then have "unat (4 * n :: u32) = 4 * unat n" by (subst unat_mult_lem [THEN iffD1]) simp_all
  moreover from this have "unat (40 + 4 * n :: u32) = 40 + unat (4 * n)" using assms by (subst unat_add_lem [THEN iffD1]) simp_all
  ultimately show ?thesis by simp
qed

lemma encode_bounds:
  assumes "MSGHDR_SIZE + 4 * unat (msize h) \<le> MAX_MESSAGE_SIZE"
  shows "encode_bound h = MSGHDR_SIZE + 4 * unat (msize h)" "encode_limit h = 4 * unat (msize h)"
proof -
  show b: "encode_bound h = MSGHDR_SIZE + 4 * unat (msize h)" using unat_times4 [OF assms] by (simp add: encode_bound_def)
  have "int (4 * u) mod 2 ^ 64 = int (4 * u)" if "MSGHDR_SIZE + 4 * u \<le> MAX_MESSAGE_SIZE" for u
    using that by (intro mod_pos_pos_trivial) simp_all
  from this [OF assms] have "int (4 * unat (msize h)) mod 2 ^ 64 = int (4 * unat (msize h))" .
  moreover have "int (encode_bound h) - int MSGHDR_SIZE = int (4 * unat (msize h))" unfolding b by simp
  ultimately show "encode_limit h = 4 * unat (msize h)" by (simp only: encode_limit_def nat_int)
qed

lemma grow_writebuffer_room:
  assumes "need \<le> MAX_MESSAGE_SIZE" "sz \<le> MAX_MESSAGE_SIZE"
  shows "need \<le> grow_writebuffer need sz" "grow_writebuffer need sz \<le> MAX_MESSAGE_SIZE"
proof -
  have "sint (word_of_nat (max (2 * sz) need) :: c_int) = int (max (2 * sz) need)"
  proof -
    have "sint (word_of_int (int (max (2 * sz) need)) :: c_int) = signed_take_bit 31 (int (max (2 * sz) need))"
      by (subst signed_of_int) simp
    also have "\<dots> = int (max (2 * sz) need)" using assms by (intro signed_take_bit_int_eq_self) (simp_all add: max_def)
    finally show ?thesis by simp
  qed
  then show "need \<le> grow_writebuffer need sz" "grow_writebuffer need sz \<le> MAX_MESSAGE_SIZE"
    using assms by (auto simp: grow_writebuffer_def Let_def)
qed

lemma encode_message_wire:
  assumes m: "sendable e m" and sz: "MSGHDR_SIZE + 4 * unat (msize (Header m)) \<le> sz" and hdr: "packs_headers e"
  shows "encode_message e m sz enc = Inr None \<and> wire e m = [] \<or>
    (\<exists>n bs. encode_message e m sz enc = Inr (Some (n, bs)) \<and> bs = wire e m \<and> bs \<noteq> [])"
proof -
  let ?h = "Header m" and ?n = "4 * unat (msize (Header m))"
  have len: "length hb = MSGHDR_SIZE" if "hdr_pack e h = Some hb" for h hb using hdr that by (simp add: packs_headers_def)
  have lim: "encode_limit ?h = ?n" using m by (intro encode_bounds(2)) (simp add: sendable_def Let_def)
  have head: "case hdr_pack e (?h\<lparr>msize := word_of_int (int (length bs))\<rparr>) of None \<Rightarrow> with_header e ?h bs = []
    | Some hb \<Rightarrow> with_header e ?h bs = hb @ bs \<and> hb \<noteq> []" for bs
    using len [of _ "[]"] by (auto simp: with_header_def split: option.split)
  have "\<exists>p. outgoing_payload e m = Inr p" using m by (cases "is_map_reply ?h") (auto simp: outgoing_payload_def sendable_def Let_def)
  then obtain p where p: "outgoing_payload e m = Inr p" ..
  show ?thesis
  proof (cases p)
    case None
    then show ?thesis by (simp add: encode_message_def wire_def p Let_def)
  next
    case (Some payload)
    show ?thesis
    proof (cases payload)
      case None
      with head [of "[]"] Some show ?thesis
        by (cases "hdr_pack e (?h\<lparr>msize := 0\<rparr>)") (simp_all add: encode_message_def wire_def p encode_body_def Let_def)
    next
      case d: (Some d)
      with m p Some obtain pk where pk: "get_packfunc e (interf (addr ?h)) (mtype ?h) (subtype ?h) = Some pk"
        "\<And>bs. encode_with pk d ?n = Some bs \<Longrightarrow> length bs \<le> ?n" by (auto simp: sendable_def Let_def)
      show ?thesis
      proof (cases "encode_with pk d ?n")
        case None
        with p Some d pk(1) lim show ?thesis by (simp add: encode_message_def wire_def encode_body_def Let_def)
      next
        case bs: (Some bs)
        with pk(2) sz have "MSGHDR_SIZE + length bs \<le> sz" by fastforce
        with p Some d pk(1) lim bs have "encode_body e ?h payload sz enc = Inr (Some (int (length bs), bs))" by (simp add: encode_body_def)
        with head [of bs] p Some d pk(1) lim bs show ?thesis
          by (cases "hdr_pack e (?h\<lparr>msize := word_of_int (int (length bs))\<rparr>)") (simp_all add: encode_message_def wire_def Let_def)
      qed
    qed
  qed
qed

section \<open>The bytes of a connection\<close>

text \<open>What has been sent on the socket, and what waits in the buffer.\<close>

definition bytes_out :: "nat \<Rightarrow> ('s, 'x) tcp \<Rightarrow> u8 list" where
  "bytes_out cli t = (case socks t (fd (client cli t)) of None \<Rightarrow> [] | Some s \<Rightarrow> sent s) @ writebuffer (client cli t)"

lemma upd_client_nth: "cli < length (clients t) \<Longrightarrow> client cli (upd_client cli f t) = f (client cli t)"
  by (simp add: upd_client_def)

lemma upd_client_frame [simp]:
  "t_core (upd_client cli f t) = t_core t" "socks (upd_client cli f t) = socks t" "num_clients (upd_client cli f t) = num_clients t"
  "length (clients (upd_client cli f t)) = length (clients t)"
  by (simp_all add: upd_client_def)

lemma set_writebuffer_frame [simp]:
  "t_core (set_writebuffer cli bs t) = t_core t" "socks (set_writebuffer cli bs t) = socks t"
  "length (clients (set_writebuffer cli bs t)) = length (clients t)"
  by (simp_all add: set_writebuffer_def)

lemma set_writebuffer_nth: "cli < length (clients t) \<Longrightarrow> client cli (set_writebuffer cli bs t) = (client cli t)\<lparr>writebuffer := bs\<rparr>"
  by (simp add: set_writebuffer_def upd_client_nth)

text \<open>A send takes a result of the socket and moves bytes from the buffer to it.\<close>

lemma send_step:
  assumes "c_send (fd (client cli t)) (take WRITEBUFFER_SIZE (writebuffer (client cli t))) (socks t) = (n, again, ss)" "cli < length (clients t)"
  shows "n < 0 \<Longrightarrow> bytes_out cli (t\<lparr>socks := ss\<rparr>) = bytes_out cli t"
    and "n = 0 \<Longrightarrow> bytes_out cli (t\<lparr>socks := ss\<rparr>) = bytes_out cli t"
    and "0 < n \<Longrightarrow> bytes_out cli (set_writebuffer cli (drop (nat n) (writebuffer (client cli t))) (t\<lparr>socks := ss\<rparr>)) = bytes_out cli t"
    and "0 < n \<Longrightarrow> tx_left cli t = Suc (tx_left cli (set_writebuffer cli (drop (nat n) (writebuffer (client cli t))) (t\<lparr>socks := ss\<rparr>)))"
  using assms
  by (auto simp: c_send_def bytes_out_def tx_left_def set_writebuffer_nth Let_def min_def split: option.splits list.splits send_result.splits)

text \<open>A pop and the encoding of the message put its bytes into the empty buffer.\<close>

lemma fill_step:
  assumes cli: "cli < length (clients t)" "c_queue (client cli t) = Some q" "mq (t_core t) q = Some qu" "writebuffer (client cli t) = []"
    "writebuffersize (client cli t) \<le> MAX_MESSAGE_SIZE" and hdr: "packs_headers e"
    and pop: "Pop (te e) qu = (m, qu')" and ok: "\<And>msg. m = Some msg \<Longrightarrow> sendable e msg"
  obtains more enc' t' where "fill_writebuffer e cli enc t = Inr (more, enc', t')" "more \<longleftrightarrow> (\<exists>msg. m = Some msg \<and> wire e msg \<noteq> [])"
    "t_core t' = (t_core t)\<lparr>mq := (mq (t_core t))(q \<mapsto> qu')\<rparr>" "socks t' = socks t" "length (clients t') = length (clients t)"
    "writebuffer (client cli t') = (case m of None \<Rightarrow> [] | Some msg \<Rightarrow> wire e msg)"
    "fd (client cli t') = fd (client cli t)" "c_queue (client cli t') = c_queue (client cli t)" "writebuffersize (client cli t') \<le> MAX_MESSAGE_SIZE"
proof (cases m)
  case None
  with cli pop show ?thesis
    by (intro that [of False enc "t\<lparr>t_core := (t_core t)\<lparr>mq := (mq (t_core t))(q \<mapsto> qu')\<rparr>\<rparr>"]) (simp_all add: fill_writebuffer_def pop_from_def)
next
  case (Some msg)
  let ?sz = "grow_writebuffer (encode_bound (Header msg)) (writebuffersize (client cli t))"
  from ok [OF Some] have lim: "MSGHDR_SIZE + 4 * unat (msize (Header msg)) \<le> MAX_MESSAGE_SIZE" by (simp add: sendable_def Let_def)
  have sz: "MSGHDR_SIZE + 4 * unat (msize (Header msg)) \<le> ?sz" "?sz \<le> MAX_MESSAGE_SIZE"
    using grow_writebuffer_room [OF lim cli(5)] encode_bounds(1) [OF lim] by simp_all
  let ?t = "upd_client cli (\<lambda>cl. cl\<lparr>writebuffersize := ?sz\<rparr>) (t\<lparr>t_core := (t_core t)\<lparr>mq := (mq (t_core t))(q \<mapsto> qu')\<rparr>\<rparr>)"
  from encode_message_wire [OF ok [OF Some] sz(1) hdr, of enc] show ?thesis
  proof (elim disjE exE conjE)
    assume "encode_message e msg ?sz enc = Inr None" "wire e msg = []"
    then show ?thesis
      by (intro that [of False enc "set_writebuffer cli [] ?t"])
        (use cli pop sz(2) Some in \<open>simp_all add: fill_writebuffer_def pop_from_def Let_def set_writebuffer_nth upd_client_nth\<close>)
  next
    fix n bs assume "encode_message e msg ?sz enc = Inr (Some (n, bs))" "bs = wire e msg" "bs \<noteq> []"
    then show ?thesis
      by (intro that [of True n "set_writebuffer cli bs ?t"])
        (use cli pop sz(2) Some in \<open>simp_all add: fill_writebuffer_def pop_from_def Let_def set_writebuffer_nth upd_client_nth\<close>)
  qed
qed

section \<open>The loop\<close>

text \<open>Every round either takes a result of the socket or fills the empty buffer.\<close>

lemma write_loop_drains:
  assumes "packs_headers e" "cli < length (clients t)" "c_queue (client cli t) = Some q" "mq (t_core t) q = Some qu"
    "writebuffersize (client cli t) \<le> MAX_MESSAGE_SIZE" "\<And>k msg. msg \<in> set (fst (drain (te e) k qu)) \<Longrightarrow> sendable e msg"
    "2 * tx_left cli t + (if writebuffer (client cli t) = [] then 2 else 1) \<le> n"
  shows "\<exists>r t' k. write_loop n e cli enc t = Inr (r, t') \<and> (r = 0 \<or> r = - 1) \<and>
    t_core t' = (t_core t)\<lparr>mq := (mq (t_core t))(q \<mapsto> snd (drain (te e) k qu))\<rparr> \<and>
    bytes_out cli t' = bytes_out cli t @ concat (map (wire e) (fst (drain (te e) k qu)))"
  using assms
proof (induction n arbitrary: enc t qu)
  case 0
  then show ?case by (simp split: if_splits)
next
  case (Suc n)
  have same: "(t_core t)\<lparr>mq := (mq (t_core t))(q \<mapsto> snd (drain (te e) 0 qu))\<rparr> = t_core t" using Suc.prems(4) by (simp add: fun_upd_idem)
  show ?case
  proof (cases "writebuffer (client cli t) = []")
    case False
    obtain w again ss where send: "c_send (fd (client cli t)) (take WRITEBUFFER_SIZE (writebuffer (client cli t))) (socks t) = (w, again, ss)"
      by (metis prod_cases3)
    note step = send_step [OF send Suc.prems(2)]
    show ?thesis
    proof (cases "0 < w")
      case True
      let ?t = "set_writebuffer cli (drop (nat w) (writebuffer (client cli t))) (t\<lparr>socks := ss\<rparr>)"
      have run: "write_loop (Suc n) e cli enc t = write_loop n e cli enc ?t" using False True send by (simp add: Let_def)
      have "2 * tx_left cli ?t + (if writebuffer (client cli ?t) = [] then 2 else 1) \<le> n"
        using step(4) [OF True] Suc.prems(7) False by simp
      moreover have "client cli ?t = (client cli t)\<lparr>writebuffer := drop (nat w) (writebuffer (client cli t))\<rparr>"
        using Suc.prems(2) by (simp add: set_writebuffer_nth)
      ultimately have "\<exists>r t' k. write_loop n e cli enc ?t = Inr (r, t') \<and> (r = 0 \<or> r = - 1) \<and>
          t_core t' = (t_core ?t)\<lparr>mq := (mq (t_core ?t))(q \<mapsto> snd (drain (te e) k qu))\<rparr> \<and>
          bytes_out cli t' = bytes_out cli ?t @ concat (map (wire e) (fst (drain (te e) k qu)))"
        using Suc.prems by (intro Suc.IH) simp_all
      moreover have "t_core ?t = t_core t" by simp
      ultimately show ?thesis unfolding run step(3) [OF True] by (simp only:)
    next
      case False': False
      then have "\<exists>r. write_loop (Suc n) e cli enc t = Inr (r, t\<lparr>socks := ss\<rparr>) \<and> (r = 0 \<or> r = - 1)"
        using False send by (auto simp: Let_def)
      then obtain r where r: "write_loop (Suc n) e cli enc t = Inr (r, t\<lparr>socks := ss\<rparr>)" "r = 0 \<or> r = - 1" by blast
      have "bytes_out cli (t\<lparr>socks := ss\<rparr>) = bytes_out cli t" using step(1,2) False' by linarith
      moreover have "t_core (t\<lparr>socks := ss\<rparr>) = (t_core t)\<lparr>mq := (mq (t_core t))(q \<mapsto> snd (drain (te e) 0 qu))\<rparr>" unfolding same by simp
      moreover have "fst (drain (te e) 0 qu) = []" by simp
      ultimately show ?thesis
        using r by (intro exI [of _ r] exI [of _ "t\<lparr>socks := ss\<rparr>"] exI [of _ "0 :: nat"] conjI) (simp_all only: list.map concat.simps append_Nil2)
    qed
  next
    case True
    obtain m qu' where pop: "Pop (te e) qu = (m, qu')" by fastforce
    have ok: "sendable e msg" if "m = Some msg" for msg
      using Suc.prems(6) [of msg 1] pop that by (simp split: prod.splits)
    obtain more enc' t1 where fill: "fill_writebuffer e cli enc t = Inr (more, enc', t1)" "more \<longleftrightarrow> (\<exists>msg. m = Some msg \<and> wire e msg \<noteq> [])"
      "t_core t1 = (t_core t)\<lparr>mq := (mq (t_core t))(q \<mapsto> qu')\<rparr>" "socks t1 = socks t" "length (clients t1) = length (clients t)"
      "writebuffer (client cli t1) = (case m of None \<Rightarrow> [] | Some msg \<Rightarrow> wire e msg)"
      "fd (client cli t1) = fd (client cli t)" "c_queue (client cli t1) = c_queue (client cli t)" "writebuffersize (client cli t1) \<le> MAX_MESSAGE_SIZE"
      by (rule fill_step [OF Suc.prems(2-4) True Suc.prems(5,1) pop ok])
    have out: "bytes_out cli t1 = bytes_out cli t @ writebuffer (client cli t1)" using True fill(4,7) by (simp add: bytes_out_def)
    show ?thesis
    proof (cases more)
      case False
      then have "write_loop (Suc n) e cli enc t = Inr (0, t1)" using True fill(1) by (simp add: Let_def)
      moreover have "writebuffer (client cli t1) = concat (map (wire e) (fst (drain (te e) 1 qu)))" "snd (drain (te e) 1 qu) = qu'"
        using False fill(2,6) pop by (cases m; simp)+
      ultimately show ?thesis using out fill(3)
        by (intro exI [of _ "0 :: int"] exI [of _ t1] exI [of _ "1 :: nat"] conjI disjI1 refl) (simp_all only:)
    next
      case More: True
      then obtain msg where msg: "m = Some msg" "wire e msg \<noteq> []" using fill(2) by blast
      have run: "write_loop (Suc n) e cli enc t = write_loop n e cli enc' t1" using True fill(1) More by (simp add: Let_def)
      have dr: "drain (te e) (Suc k) qu = (msg # fst (drain (te e) k qu'), snd (drain (te e) k qu'))" for k
        using pop msg(1) by (simp add: split_beta)
      have "tx_left cli t1 = tx_left cli t" using fill(4,7) by (simp add: tx_left_def)
      then have fuel: "2 * tx_left cli t1 + (if writebuffer (client cli t1) = [] then 2 else 1) \<le> n"
        using Suc.prems(7) True fill(6) msg by simp
      have send': "sendable e x" if "x \<in> set (fst (drain (te e) k qu'))" for k x
        using Suc.prems(6) [of x "Suc k"] that by (simp add: dr del: drain.simps)
      have "\<exists>r t' k. write_loop n e cli enc' t1 = Inr (r, t') \<and> (r = 0 \<or> r = - 1) \<and>
          t_core t' = (t_core t1)\<lparr>mq := (mq (t_core t1))(q \<mapsto> snd (drain (te e) k qu'))\<rparr> \<and>
          bytes_out cli t' = bytes_out cli t1 @ concat (map (wire e) (fst (drain (te e) k qu')))"
        by (rule Suc.IH) (use Suc.prems fill fuel send' in simp_all)
      then obtain r t' k where IH: "write_loop n e cli enc' t1 = Inr (r, t')" "r = 0 \<or> r = - 1"
        "t_core t' = (t_core t1)\<lparr>mq := (mq (t_core t1))(q \<mapsto> snd (drain (te e) k qu'))\<rparr>"
        "bytes_out cli t' = bytes_out cli t1 @ concat (map (wire e) (fst (drain (te e) k qu')))" by blast
      have "t_core t' = (t_core t)\<lparr>mq := (mq (t_core t))(q \<mapsto> snd (drain (te e) (Suc k) qu))\<rparr>"
        unfolding IH(3) fill(3) dr snd_conv by (simp del: fun_upd_apply)
      moreover have "bytes_out cli t' = bytes_out cli t @ concat (map (wire e) (fst (drain (te e) (Suc k) qu)))"
        unfolding IH(4) out fill(6) dr by (simp add: msg)
      ultimately show ?thesis unfolding run using IH(1,2) by blast
    qed
  qed
qed

section \<open>The property\<close>

text \<open>C19: 
  \<open>WriteClient\<close> ends, whatever the socket does; the bytes sent on the socket and left in the buffer are those of before,
  followed by the encodings of the messages that were popped, whole and in the order of the queue.
\<close>

theorem WriteClient_in_order:
  assumes "packs_headers e" "cli < length (clients t)" "c_queue (client cli t) = Some q" "mq (t_core t) q = Some qu"
    "writebuffersize (client cli t) \<le> MAX_MESSAGE_SIZE" "\<forall>k. \<forall>msg \<in> set (fst (drain (te e) k qu)). sendable e msg"
  shows "\<exists>r t' k. WriteClient e cli t = Inr (r, t') \<and> (r = 0 \<or> r = - 1) \<and>
    t_core t' = (t_core t)\<lparr>mq := (mq (t_core t))(q \<mapsto> snd (drain (te e) k qu))\<rparr> \<and>
    bytes_out cli t' = bytes_out cli t @ concat (map (wire e) (fst (drain (te e) k qu)))"
  unfolding WriteClient_def by (rule write_loop_drains [OF assms(1-5)]) (use assms(6) in simp_all)

text \<open>In push mode what is popped is what was queued.\<close>

lemma Pop_push_mode:
  assumes "Pop e q = (Some m, q')" "\<not> pull q"
  shows "m \<in> set (elems q)" "\<not> pull q'" "set (elems q') \<subseteq> set (elems q)"
proof -
  from assms obtain i where i: "find_index (poppable q (last_resp q)) (elems q) = Some i" "m = elems q ! i"
    "q' = Remove i (if data_requested q \<and> mtype (Header m) = MSGTYPE_DATA then q\<lparr>data_delivered := True\<rparr> else q)"
    by (auto simp: Pop_def Let_def split: option.splits)
  from find_index_bound [OF i(1)] i(2) show "m \<in> set (elems q)" by simp
  show "\<not> pull q'" "set (elems q') \<subseteq> set (elems q)"
    using assms(2) i(3) by (auto simp: Remove_def remove_nth_def Let_def dest: in_set_takeD in_set_dropD)
qed

lemma drain_elems: "\<not> pull q \<Longrightarrow> set (fst (drain e k q)) \<subseteq> set (elems q)"
proof (induction k arbitrary: q)
  case (Suc k)
  show ?case
  proof (cases "Pop e q")
    case (Pair m q')
    show ?thesis
    proof (cases m)
      case (Some msg)
      from Pop_push_mode [OF Pair [unfolded Some] Suc.prems] Suc.IH [of q'] show ?thesis by (auto simp: Pair Some split: prod.splits)
    qed (simp add: Pair)
  qed
qed simp

definition sample_message :: "unit tcp_payload message" where
  "sample_message = \<lparr>Header = \<lparr>addr = laser_at 0, mtype = MSGTYPE_DATA, subtype = 1, timestamp = 0, seq = 0, msize = 1\<rparr>,
     Data = Some (OtherData (Interface ())), Queue = None\<rparr>"

definition sample_pending :: "(unit, unit) tcp" where
  "sample_pending = sample_joined\<lparr>t_core := (t_core sample_joined)\<lparr>mq := [1 \<mapsto> PushBack sample_message (MessageQueue_new fv0 False 10)]\<rparr>\<rparr>"

theorem WriteClient_in_order_witness:
  "\<exists>r t' k. WriteClient sample_env 0 sample_pending = Inr (r, t') \<and>
     bytes_out 0 t' = bytes_out 0 sample_pending @ concat (map (wire sample_env) (fst (drain (te sample_env) k
       (PushBack sample_message (MessageQueue_new fv0 False 10)))))"
proof -
  let ?qu = "PushBack sample_message (MessageQueue_new fv0 False 10)"
  have cl: "clients sample_pending = clients sample_joined" "mq (t_core sample_pending) 1 = Some ?qu" by (simp_all add: sample_pending_def)
  have "num_clients sample_joined \<le> length (clients sample_joined)" using sample_joined_ok by (simp add: tcp_ok_iff)
  then have "0 < length (clients sample_pending)" unfolding cl sample_joined(2) by linarith
  moreover have "writebuffersize (client 0 sample_pending) \<le> MAX_MESSAGE_SIZE"
    by (simp add: cl sample_joined_def no_conn_def eval_session cong: if_cong)
  moreover have "packs_headers sample_env" by (auto simp: packs_headers_def sample_env_def sample_hdr_pack_def)
  moreover have "\<forall>k. \<forall>msg \<in> set (fst (drain (te sample_env) k ?qu)). sendable sample_env msg"
  proof (intro allI ballI)
    fix k msg assume "msg \<in> set (fst (drain (te sample_env) k ?qu))"
    moreover have "\<not> pull ?qu" "\<not> filter_on ?qu" "elems ?qu = [sample_message]" by (simp_all add: PushBack_def MessageQueue_new_def)
    ultimately have "msg = sample_message" using drain_elems [of ?qu "te sample_env" k] by (metis empty_iff empty_set insert_iff list.simps(15) subsetD)
    then show "sendable sample_env msg"
      by (simp add: sendable_def sample_message_def sample_env_def unit_packer_def outgoing_payload_def is_map_reply_def Let_def)
  qed
  ultimately show ?thesis
    using WriteClient_in_order [of sample_env 0 sample_pending 1 ?qu] sample_joined(3) cl by (simp only: cl) blast
qed

end
