(* ===== verification/TcpFrames.thy ===== *)
theory TcpFrames
  imports TcpProps
begin

text \<open>
  The messages in a byte stream.  \<open>ParseBuffer\<close> takes the complete messages off the front of the buffer; the result does not
  depend on how the stream was cut on its way, unless a message without a payload ends in the chunk of an earlier one with a payload.
\<close>

section \<open>The buffer is not read by the handlers\<close>

definition omap :: "('a \<Rightarrow> 'b) \<Rightarrow> 'a outcome \<Rightarrow> 'b outcome" where
  "omap f m = (case m of Inl err \<Rightarrow> Inl err | Inr x \<Rightarrow> Inr (f x))"

lemma omap_simps [simp]: "omap f (Inl err) = Inl err" "omap f (Inr x) = Inr (f x)"
  by (simp_all add: omap_def)

lemma omap_bindo: "omap f (bindo m g) = bindo m (\<lambda>x. omap f (g x))"
  by (cases m) simp_all

lemma bindo_omap: "bindo (omap f m) g = bindo m (\<lambda>x. g (f x))"
  by (cases m) simp_all

lemma omap_omap: "omap f (omap g m) = omap (\<lambda>x. f (g x)) m"
  by (cases m) simp_all

lemma client_set_readbuffer:
  "clients (set_readbuffer i b t) ! j = (if j = i \<and> i < length (clients t) then (client j t)\<lparr>readbuffer := b\<rparr> else client j t)"
  by (auto simp: set_readbuffer_def upd_client_def nth_list_update list_update_beyond)

lemma set_readbuffer_frame [simp]:
  "t_core (set_readbuffer i b t) = t_core t" "num_clients (set_readbuffer i b t) = num_clients t"
  "length (clients (set_readbuffer i b t)) = length (clients t)" "t_host (set_readbuffer i b t) = t_host t"
  "c_queue (clients (set_readbuffer i b t) ! j) = c_queue (client j t)" "c_port (clients (set_readbuffer i b t) ! j) = c_port (client j t)"
  "c_host (clients (set_readbuffer i b t) ! j) = c_host (client j t)"
  by (simp_all add: client_set_readbuffer) (simp_all add: set_readbuffer_def upd_client_def)

lemma set_readbuffer_core: "set_readbuffer i b t\<lparr>t_core := c\<rparr> = set_readbuffer i b (t\<lparr>t_core := c\<rparr>)"
  by (simp add: set_readbuffer_def upd_client_def)

lemma set_readbuffer_twice [simp]: "set_readbuffer i b (set_readbuffer i b' t) = set_readbuffer i b t"
  by (cases "i < length (clients t)") (simp_all add: set_readbuffer_def upd_client_def list_update_beyond)

lemma upd_client_set_readbuffer:
  assumes "\<And>cl. f (cl\<lparr>readbuffer := b\<rparr>) = f cl\<lparr>readbuffer := b\<rparr>"
  shows "upd_client j f (set_readbuffer i b t) = set_readbuffer i b (upd_client j f t)"
proof (cases "i = j")
  case True
  then show ?thesis by (cases "i < length (clients t)") (simp_all add: set_readbuffer_def upd_client_def assms list_update_beyond)
next
  case False
  then show ?thesis by (simp add: set_readbuffer_def upd_client_def list_update_swap)
qed

lemma record_readbuffer:
  "record_sub k (cl\<lparr>readbuffer := b\<rparr>) = record_sub k cl\<lparr>readbuffer := b\<rparr>"
  "record_unsub k (cl\<lparr>readbuffer := b\<rparr>) = record_unsub k cl\<lparr>readbuffer := b\<rparr>"
  by (simp_all add: record_sub_def record_unsub_def split: option.split)

lemma on_client_queue_buffer: "on_client_queue cli f (set_readbuffer i b t) = omap (set_readbuffer i b) (on_client_queue cli f t)"
  by (simp add: on_client_queue_def set_readbuffer_core split: option.split)

lemma push_reply_buffer: "push_reply e cli h ty d (set_readbuffer i b t) = omap (set_readbuffer i b) (push_reply e cli h ty d t)"
  by (simp add: push_reply_def on_client_queue_buffer)

lemma change_access_buffer:
  "change_access cli k acc (set_readbuffer i b t) = omap (\<lambda>(g, t'). (g, set_readbuffer i b t')) (change_access cli k acc t)"
  by (cases "Subscribe_at (c_queue (client cli t)) k (t_core t)"; cases "Unsubscribe_at (c_queue (client cli t)) k (t_core t)")
    (auto simp: change_access_def Let_def split_beta set_readbuffer_core upd_client_set_readbuffer record_readbuffer)

lemma handle_dev_buffer: "handle_dev e cli h d (set_readbuffer i b t) = omap (set_readbuffer i b) (handle_dev e cli h d t)"
  by (cases d) (simp_all add: handle_dev_def GetDevice_def omap_bindo Let_def push_reply_buffer change_access_buffer bindo_omap
      set_readbuffer_core split_beta split: option.split)

lemma handle_driverinfo_buffer: "handle_driverinfo e cli h d (set_readbuffer i b t) = omap (set_readbuffer i b) (handle_driverinfo e cli h d t)"
  by (cases d) (simp_all add: handle_driverinfo_def GetDevice_def omap_bindo Let_def push_reply_buffer set_readbuffer_core split: option.split)

lemma handle_queue_buffer:
  "handle_replace_rule e cli h d (set_readbuffer i b t) = omap (set_readbuffer i b) (handle_replace_rule e cli h d t)"
  "handle_datamode e cli h d (set_readbuffer i b t) = omap (set_readbuffer i b) (handle_datamode e cli h d t)"
  "handle_data e cli h (set_readbuffer i b t) = omap (set_readbuffer i b) (handle_data e cli h t)"
  by (cases d; simp add: handle_replace_rule_def handle_datamode_def omap_bindo on_client_queue_buffer bindo_omap push_reply_buffer)+
    (simp add: handle_data_def on_client_queue_buffer)

lemma HandlePlayerMessage_buffer:
  "HandlePlayerMessage e cli msg (set_readbuffer i b t) = omap (set_readbuffer i b) (HandlePlayerMessage e cli msg t)"
proof -
  have list: "device_list cli (set_readbuffer i b t) = device_list cli t" by (simp add: device_list_def)
  show ?thesis
    by (simp add: HandlePlayerMessage_def omap_bindo Let_def list push_reply_buffer handle_dev_buffer handle_driverinfo_buffer handle_queue_buffer)
qed

lemma deliver_buffer: "deliver e cli dev h data (set_readbuffer i b t) = omap (set_readbuffer i b) (deliver e cli dev h data t)"
  by (simp add: deliver_def HandlePlayerMessage_buffer omap_bindo set_readbuffer_core Let_def split: option.split)

lemma decode_and_deliver_buffer:
  "decode_and_deliver e cli dev h pf short bs (set_readbuffer i b t) = omap (set_readbuffer i b) (decode_and_deliver e cli dev h pf short bs t)"
  by (cases "decode_body pf short bs") (auto simp: decode_and_deliver_def deliver_buffer split: option.split)

lemma handle_frame_buffer:
  "handle_frame e cli h short bs (pf, set_readbuffer i b t) = omap (\<lambda>(pf, t'). (pf, set_readbuffer i b t')) (handle_frame e cli h short bs (pf, t))"
  by (auto simp: handle_frame_def GetDevice_local Let_def omap_bindo bindo_omap decode_and_deliver_buffer set_readbuffer_core)

section \<open>Complete messages\<close>

text \<open>A message on the wire: the bytes of the header, which says how many bytes follow, and these.\<close>

type_synonym frame = "u8 list \<times> u8 list"

definition frame_ok :: "'x tcp_env \<Rightarrow> frame \<Rightarrow> bool" where
  "frame_ok e f \<longleftrightarrow> length (fst f) = MSGHDR_SIZE \<and>
     (case hdr_unpack e (fst f) of None \<Rightarrow> False | Some h \<Rightarrow> msize h = of_nat (length (snd f))) \<and>
     MSGHDR_SIZE + length (snd f) \<le> MAX_MESSAGE_SIZE"

abbreviation frame_bytes :: "frame \<Rightarrow> u8 list" where
  "frame_bytes f \<equiv> fst f @ snd f"

abbreviation stream :: "frame list \<Rightarrow> u8 list" where
  "stream fs \<equiv> concat (map frame_bytes fs)"

text \<open>Nothing at the front of the buffer that could be taken off yet.\<close>

definition incomplete :: "'x tcp_env \<Rightarrow> u8 list \<Rightarrow> bool" where
  "incomplete e buf \<longleftrightarrow> length buf < MSGHDR_SIZE \<or>
     (case hdr_unpack e (take MSGHDR_SIZE buf) of None \<Rightarrow> True | Some h \<Rightarrow> frame_length h > int (length buf))"

text \<open>What one message does, and a list of them one after the other.\<close>

definition frame_effect :: "'x tcp_env \<Rightarrow> nat \<Rightarrow> frame \<Rightarrow> ('s, 'x) tcp \<Rightarrow> ('s, 'x) tcp outcome" where
  "frame_effect e cli f t = omap snd (handle_frame e cli (the (hdr_unpack e (fst f))) False (snd f) (None, t))"

fun run_frames :: "'x tcp_env \<Rightarrow> nat \<Rightarrow> frame list \<Rightarrow> ('s, 'x) tcp \<Rightarrow> ('s, 'x) tcp outcome" where
  "run_frames e cli [] t = Inr t"
| "run_frames e cli (f # fs) t = bindo (frame_effect e cli f t) (run_frames e cli fs)"

lemma run_frames_append: "run_frames e cli (fs @ gs) t = bindo (run_frames e cli fs t) (run_frames e cli gs)"
  by (induction fs arbitrary: t) (simp_all add: bindo_assoc cong: bindo_cong)

lemma frame_effect_buffer: "frame_effect e cli f (set_readbuffer i b t) = omap (set_readbuffer i b) (frame_effect e cli f t)"
  by (cases "handle_frame e cli (the (hdr_unpack e (fst f))) False (snd f) (None, t)") (auto simp: frame_effect_def handle_frame_buffer)

lemma run_frames_buffer: "run_frames e cli fs (set_readbuffer i b t) = omap (set_readbuffer i b) (run_frames e cli fs t)"
  by (induction fs arbitrary: t) (simp_all add: frame_effect_buffer bindo_omap omap_bindo)

text \<open>With a payload the function is looked up anew, so the value that \<open>packfunc\<close> has from before does not matter.\<close>

lemma handle_frame_fresh:
  assumes "msize h \<noteq> 0"
  shows "omap snd (handle_frame e cli h short bs (pf, t)) = omap snd (handle_frame e cli h short bs (None, t))"
proof -
  have "msize h > 0" using assms by (simp add: word_gt_0)
  then show ?thesis by (auto simp: handle_frame_def GetDevice_local Let_def omap_bindo)
qed

text \<open>A message without a payload leaves it as it is.\<close>

lemma handle_frame_empty: "msize h = 0 \<Longrightarrow> handle_frame e cli h short bs (None, t) = Inr (pf', t') \<Longrightarrow> pf' = None"
  by (auto simp: handle_frame_def GetDevice_local Let_def split: if_splits)

text \<open>No message without a payload follows one with a payload.\<close>

fun payload_last :: "frame list \<Rightarrow> bool" where
  "payload_last [] \<longleftrightarrow> True"
| "payload_last (f # fs) \<longleftrightarrow> (if snd f = [] then payload_last fs else \<forall>g \<in> set fs. snd g \<noteq> [])"

lemma payload_lastI:
  "(\<And>xs f ys g zs. fs = xs @ f # ys @ g # zs \<Longrightarrow> snd f \<noteq> [] \<Longrightarrow> snd g = [] \<Longrightarrow> False) \<Longrightarrow> payload_last fs"
proof (induction fs)
  case (Cons f fs)
  show ?case
  proof (cases "snd f = []")
    case True
    have "payload_last fs"
    proof (rule Cons.IH)
      fix xs f' ys g zs assume "fs = xs @ f' # ys @ g # zs" "snd f' \<noteq> []" "snd g = []"
      with Cons.prems [of "f # xs" f' ys g zs] show False by simp
    qed
    with True show ?thesis by simp
  next
    case False
    have "snd g \<noteq> []" if "g \<in> set fs" for g
    proof
      assume "snd g = []"
      from split_list [OF that] obtain ys zs where "fs = ys @ g # zs" by blast
      with Cons.prems [of "[]" f ys g zs] False \<open>snd g = []\<close> show False by simp
    qed
    with False show ?thesis by simp
  qed
qed simp

lemma payload_last_all: "\<forall>g \<in> set fs. snd g \<noteq> [] \<Longrightarrow> payload_last fs"
  by (cases fs) simp_all

lemma frame_length_ok:
  assumes "msize h = of_nat n" "MSGHDR_SIZE + n \<le> MAX_MESSAGE_SIZE"
  shows "frame_length h = int (MSGHDR_SIZE + n)"
proof -
  have "(of_nat n + 40 :: c_int) = word_of_int (int n + 40)" by simp
  then have "sint (of_nat n + 40 :: c_int) = sint (word_of_int (int n + 40) :: c_int)" by (rule arg_cong)
  also have "\<dots> = signed_take_bit 31 (int n + 40)" by (subst signed_of_int) simp
  also have "\<dots> = int n + 40" using assms(2) by (intro signed_take_bit_int_eq_self) simp_all
  finally have "sint (of_nat n + 40 :: c_int) = int n + 40" .
  with assms show ?thesis by (simp add: frame_length_def)
qed

text \<open>The handlers keep the number of connections.\<close>

definition keeps :: "('s, 'x) tcp \<Rightarrow> ('s, 'x) tcp \<Rightarrow> bool" where
  "keeps t t' \<longleftrightarrow> num_clients t' = num_clients t \<and> length (clients t') = length (clients t)"

lemma keeps_refl [simp]: "keeps t t"
  by (simp add: keeps_def)

lemma keeps_core [simp]: "keeps t (t\<lparr>t_core := c\<rparr>)" "keeps (t\<lparr>t_core := c\<rparr>) t' \<longleftrightarrow> keeps t t'"
  "keeps t (upd_client i f t)" "keeps t (upd_client i f (t\<lparr>t_core := c\<rparr>))"
  by (simp_all add: keeps_def upd_client_def)

lemma keeps_trans: "keeps t t1 \<Longrightarrow> keeps t1 t2 \<Longrightarrow> keeps t t2"
  by (simp add: keeps_def)

lemma on_client_queue_keeps: "on_client_queue cli f t = Inr t' \<Longrightarrow> keeps t t'"
  by (auto simp: on_client_queue_def split: option.splits)

lemma push_reply_keeps: "push_reply e cli h ty d t = Inr t' \<Longrightarrow> keeps t t'"
  unfolding push_reply_def by (rule on_client_queue_keeps)

lemma change_access_keeps: "change_access cli k acc t = Inr (g, t') \<Longrightarrow> keeps t t'"
  by (auto simp: change_access_def Let_def split: if_splits)

lemma handle_dev_keeps: "handle_dev e cli h d t = Inr t' \<Longrightarrow> keeps t t'"
proof (cases d)
  case (DevReq a acc cnt nm)
  assume run: "handle_dev e cli h d t = Inr t'"
  let ?a = "a\<lparr>host := t_host t, robot := word_of_int (c_port (client cli t))\<rparr>"
  show ?thesis
  proof (cases "if interf ?a = 0 then None else find_device ?a (devices (t_core t))")
    case None
    with run show ?thesis unfolding DevReq handle_dev_def tcp_data.case Let_def GetDevice_local None by (simp add: push_reply_keeps)
  next
    case (Some k)
    from run obtain g t1 where "change_access cli k acc t = Inr (g, t1)" "\<exists>r. push_reply e cli h MSGTYPE_RESP_ACK r t1 = Inr t'"
      unfolding DevReq handle_dev_def tcp_data.case Let_def GetDevice_local Some by auto
    then show ?thesis by (auto dest: change_access_keeps push_reply_keeps intro: keeps_trans)
  qed
qed (simp_all add: handle_dev_def)

lemma handle_driverinfo_keeps: "handle_driverinfo e cli h d t = Inr t' \<Longrightarrow> keeps t t'"
  by (cases d) (auto simp: handle_driverinfo_def Let_def GetDevice_local push_reply_keeps split: if_splits option.splits)

lemma handle_replace_rule_keeps: "handle_replace_rule e cli h d t = Inr t' \<Longrightarrow> keeps t t'"
  by (cases d) (auto simp: handle_replace_rule_def dest!: push_reply_keeps on_client_queue_keeps intro: keeps_trans)

lemma handle_datamode_keeps: "handle_datamode e cli h d t = Inr t' \<Longrightarrow> keeps t t'"
  by (cases d) (auto simp: handle_datamode_def split: if_splits dest!: push_reply_keeps on_client_queue_keeps intro: keeps_trans)

lemma handle_data_keeps: "handle_data e cli h t = Inr t' \<Longrightarrow> keeps t t'"
  unfolding handle_data_def by (rule on_client_queue_keeps)

lemmas handler_keeps =
  handle_dev_keeps handle_driverinfo_keeps handle_replace_rule_keeps handle_datamode_keeps handle_data_keeps push_reply_keeps

lemma HandlePlayerMessage_keeps: "HandlePlayerMessage e cli msg t = Inr t' \<Longrightarrow> keeps t t'"
  by (auto simp: HandlePlayerMessage_def Let_def split: if_splits dest: handler_keeps)

lemma deliver_keeps: "deliver e cli dev h data t = Inr t' \<Longrightarrow> keeps t t'"
  by (auto simp: deliver_def Let_def split: if_splits option.splits dest: HandlePlayerMessage_keeps)

lemma decode_and_deliver_keeps: "decode_and_deliver e cli dev h pf short bs t = Inr t' \<Longrightarrow> keeps t t'"
  by (auto simp: decode_and_deliver_def split: option.splits dest: deliver_keeps)

lemma handle_frame_keeps: "handle_frame e cli h short bs (pf, t) = Inr (pf', t') \<Longrightarrow> keeps t t'"
  by (auto simp: handle_frame_def GetDevice_local Let_def split: if_splits dest!: decode_and_deliver_keeps)

lemma run_frames_keeps: "run_frames e cli fs t = Inr t' \<Longrightarrow> keeps t t'"
proof (induction fs arbitrary: t)
  case (Cons f fs)
  then obtain t1 where t1: "frame_effect e cli f t = Inr t1" "run_frames e cli fs t1 = Inr t'" by auto
  from t1(1) have "keeps t t1"
    by (cases "handle_frame e cli (the (hdr_unpack e (fst f))) False (snd f) (None, t)") (auto simp: frame_effect_def dest: handle_frame_keeps)
  from keeps_trans [OF this Cons.IH [OF t1(2)]] show ?case .
qed simp

section \<open>Parsing takes the messages off in order\<close>

lemma parse_step_frame:
  assumes f: "frame_ok e f" and buf: "readbuffer (client cli t) = frame_bytes f @ rest"
  shows "parse_step e cli (pf, t) = bindo (handle_frame e cli (the (hdr_unpack e (fst f))) False (snd f) (pf, t))
    (\<lambda>(pf', t'). Inr (Some (pf', set_readbuffer cli rest t')))"
proof -
  from f obtain h where h: "hdr_unpack e (fst f) = Some h" "msize h = of_nat (length (snd f))" "length (fst f) = MSGHDR_SIZE"
    "MSGHDR_SIZE + length (snd f) \<le> MAX_MESSAGE_SIZE" by (auto simp: frame_ok_def split: option.splits)
  note len = frame_length_ok [OF h(2,4)]
  have "nat (int (MSGHDR_SIZE + length (snd f))) = MSGHDR_SIZE + length (snd f)" by simp
  with h len buf show ?thesis by (simp add: parse_step_def Let_def)
qed

lemma parse_step_incomplete:
  "incomplete e (readbuffer (client cli t)) \<Longrightarrow> parse_step e cli (pf, t) = Inr None"
  by (auto simp: parse_step_def incomplete_def Let_def split: option.splits)

lemma parse_messages_frames:
  "\<forall>f \<in> set fs. frame_ok e f \<Longrightarrow> incomplete e rest \<Longrightarrow> cli < length (clients t) \<Longrightarrow> length fs < n \<Longrightarrow>
   payload_last fs \<Longrightarrow> (pf \<noteq> None \<Longrightarrow> \<forall>f \<in> set fs. snd f \<noteq> []) \<Longrightarrow>
   parse_messages n e cli (pf, set_readbuffer cli (stream fs @ rest) t) = omap (set_readbuffer cli rest) (run_frames e cli fs t)"
proof (induction fs arbitrary: n pf t)
  case Nil
  then obtain m where m: "n = Suc m" by (cases n) simp_all
  have "readbuffer (clients (set_readbuffer cli rest t) ! cli) = rest" using Nil.prems(3) by (simp add: client_set_readbuffer)
  with Nil.prems(2) show ?case by (simp add: m parse_step_incomplete)
next
  case (Cons f fs)
  then obtain m where m: "n = Suc m" "length fs < m" by (cases n) simp_all
  let ?t = "set_readbuffer cli (stream (f # fs) @ rest) t" and ?h = "the (hdr_unpack e (fst f))"
  have f: "frame_ok e f" and fs: "\<forall>f \<in> set fs. frame_ok e f" using Cons.prems(1) by simp_all
  have size: "msize ?h = 0 \<longleftrightarrow> snd f = []"
  proof -
    from f obtain h where h: "hdr_unpack e (fst f) = Some h" "msize h = of_nat (length (snd f))"
      "MSGHDR_SIZE + length (snd f) \<le> MAX_MESSAGE_SIZE" by (auto simp: frame_ok_def split: option.splits)
    have "unat (of_nat (length (snd f)) :: u32) = length (snd f)" using h(3) by (simp add: unat_of_nat take_bit_nat_eq_self)
    then have "(of_nat (length (snd f)) :: u32) = 0 \<longleftrightarrow> length (snd f) = 0" by (metis unat_eq_zero)
    with h show ?thesis by simp
  qed
  have "readbuffer (client cli ?t) = frame_bytes f @ (stream fs @ rest)" using Cons.prems(3) by (simp add: client_set_readbuffer)
  from parse_step_frame [OF f this, of pf] have step: "parse_step e cli (pf, ?t) =
      bindo (handle_frame e cli ?h False (snd f) (pf, t)) (\<lambda>(pf', t'). Inr (Some (pf', set_readbuffer cli (stream fs @ rest) t')))"
    by (simp add: handle_frame_buffer bindo_omap case_prod_unfold)
  have "parse_messages n e cli (pf, ?t) =
      bindo (handle_frame e cli ?h False (snd f) (pf, t)) (\<lambda>(pf', t'). parse_messages m e cli (pf', set_readbuffer cli (stream fs @ rest) t'))"
    unfolding m(1) parse_messages.simps step by (simp add: bindo_assoc case_prod_unfold)
  also have "\<dots> = bindo (handle_frame e cli ?h False (snd f) (pf, t)) (\<lambda>(pf', t'). omap (set_readbuffer cli rest) (run_frames e cli fs t'))"
  proof (rule bindo_cong [OF refl])
    fix s assume s: "handle_frame e cli ?h False (snd f) (pf, t) = Inr s"
    obtain pf' t' where s': "s = (pf', t')" by fastforce
    from s have "keeps t t'" unfolding s' by (rule handle_frame_keeps)
    then have "cli < length (clients t')" using Cons.prems(3) by (simp add: keeps_def)
    have last: "payload_last fs \<and> (pf' \<noteq> None \<longrightarrow> (\<forall>f \<in> set fs. snd f \<noteq> []))"
    proof (cases "snd f = []")
      case True
      with Cons.prems(6) have "pf = None" by (cases pf) auto
      with handle_frame_empty [of ?h e cli False "snd f" t pf' t'] s size True have "pf' = None" by (simp add: s')
      with Cons.prems(5) True show ?thesis by simp
    next
      case False
      with Cons.prems(5) show ?thesis by (simp add: payload_last_all)
    qed
    from Cons.IH [OF fs Cons.prems(2) \<open>cli < length (clients t')\<close> m(2)] last show "(case s of (pf', t') \<Rightarrow> parse_messages m e cli (pf', set_readbuffer cli (stream fs @ rest) t')) =
        (case s of (pf', t') \<Rightarrow> omap (set_readbuffer cli rest) (run_frames e cli fs t'))" by (simp add: s')
  qed
  also have "\<dots> = bindo (omap snd (handle_frame e cli ?h False (snd f) (pf, t))) (\<lambda>t'. omap (set_readbuffer cli rest) (run_frames e cli fs t'))"
    by (simp add: bindo_omap case_prod_unfold)
  also have "omap snd (handle_frame e cli ?h False (snd f) (pf, t)) = frame_effect e cli f t"
  proof -
    show ?thesis
    proof (cases "snd f = []")
      case True
      with Cons.prems(6) have "pf = None" by (cases pf) auto
      then show ?thesis by (simp add: frame_effect_def)
    next
      case False
      with size have "msize ?h \<noteq> 0" by simp
      from handle_frame_fresh [OF this] show ?thesis by (simp add: frame_effect_def)
    qed
  qed
  finally show ?case by (simp add: omap_bindo)
qed

section \<open>The cut of the stream does not matter\<close>

lemma frame_not_incomplete:
  assumes "frame_ok e f"
  shows "n < length (frame_bytes f) \<Longrightarrow> incomplete e (take n (frame_bytes f))" and "\<not> incomplete e (frame_bytes f @ bs)"
proof -
  from assms obtain h where h: "hdr_unpack e (fst f) = Some h" "msize h = of_nat (length (snd f))" "length (fst f) = MSGHDR_SIZE"
    "MSGHDR_SIZE + length (snd f) \<le> MAX_MESSAGE_SIZE" by (auto simp: frame_ok_def split: option.splits)
  note len = frame_length_ok [OF h(2,4)]
  show "incomplete e (take n (frame_bytes f))" if "n < length (frame_bytes f)"
  proof (cases "n < MSGHDR_SIZE")
    case False
    with h(3) have "take MSGHDR_SIZE (take n (frame_bytes f)) = fst f" by (simp add: min_def)
    moreover have "frame_length h > int (length (take n (frame_bytes f)))" using that h(3) len by simp
    ultimately show ?thesis using h(1) by (simp only: incomplete_def option.case simp_thms)
  next
    case True
    then have "length (take n (frame_bytes f)) < MSGHDR_SIZE" by simp
    then show ?thesis by (simp only: incomplete_def simp_thms)
  qed
  show "\<not> incomplete e (frame_bytes f @ bs)" using h len by (simp add: incomplete_def)
qed

text \<open>A prefix of a stream of messages: some whole messages, and the start of the next.\<close>

lemma stream_split:
  "\<forall>f \<in> set fs. frame_ok e f \<Longrightarrow> stream fs = xs @ ys \<Longrightarrow>
   \<exists>fs1 fs2 rest. fs = fs1 @ fs2 \<and> xs = stream fs1 @ rest \<and> rest @ ys = stream fs2 \<and> incomplete e rest"
proof (induction fs arbitrary: xs)
  case Nil
  then show ?case by (simp add: incomplete_def)
next
  case (Cons f fs)
  then have f: "frame_ok e f" and fs: "\<forall>f \<in> set fs. frame_ok e f" by simp_all
  from Cons.prems(2) have eq: "frame_bytes f @ stream fs = xs @ ys" by simp
  show ?case
  proof (cases "length xs < length (frame_bytes f)")
    case True
    with arg_cong [OF eq, of "take (length xs)"] have "xs = take (length xs) (frame_bytes f)" by simp
    with True frame_not_incomplete(1) [OF f, of "length xs"] have "incomplete e xs" by simp
    with Cons.prems(2) show ?thesis by (intro exI [of _ "[]"] exI [of _ "f # fs"] exI [of _ xs]) simp
  next
    case False
    with eq obtain xs' where xs': "xs = frame_bytes f @ xs'" "stream fs = xs' @ ys" by (auto simp: append_eq_append_conv2)
    from Cons.IH [OF fs xs'(2)] obtain fs1 fs2 rest where
      "fs = fs1 @ fs2 \<and> xs' = stream fs1 @ rest \<and> rest @ ys = stream fs2 \<and> incomplete e rest" by blast
    with xs'(1) show ?thesis by (intro exI [of _ "f # fs1"] exI [of _ fs2] exI [of _ rest]) simp
  qed
qed

text \<open>The stream arrives in chunks; each is put behind what the buffer has, and the buffer is parsed.\<close>

fun parse_chunks :: "nat \<Rightarrow> 'x tcp_env \<Rightarrow> nat \<Rightarrow> u8 list list \<Rightarrow> ('s, 'x) tcp \<Rightarrow> ('s, 'x) tcp outcome" where
  "parse_chunks n e cli [] t = Inr t"
| "parse_chunks n e cli (c # cs) t =
     bindo (ParseBuffer n e cli (set_readbuffer cli (readbuffer (client cli t) @ c) t)) (parse_chunks n e cli cs)"

text \<open>With \<open>k\<close> bytes in the buffer: between the end of a message with a payload and the end of a later one without, a chunk ends.\<close>

definition apart :: "nat \<Rightarrow> u8 list list \<Rightarrow> frame list \<Rightarrow> bool" where
  "apart k chunks fs \<longleftrightarrow>
     (\<forall>xs f ys g zs. fs = xs @ f # ys @ g # zs \<and> snd f \<noteq> [] \<and> snd g = [] \<longrightarrow>
        (\<exists>cs ds. chunks = cs @ ds \<and> length (stream (xs @ [f])) \<le> k + length (concat cs) \<and>
           k + length (concat cs) < length (stream (xs @ f # ys @ [g]))))"

lemma incomplete_short:
  assumes "frame_ok e f" "incomplete e rest" "rest @ bs = frame_bytes f @ ds"
  shows "length rest < length (frame_bytes f)"
proof (rule ccontr)
  assume "\<not> length rest < length (frame_bytes f)"
  then have "take (length (frame_bytes f)) rest = frame_bytes f"
    using arg_cong [OF assms(3), of "take (length (frame_bytes f))"] by simp
  then obtain us where "rest = frame_bytes f @ us" by (metis append_take_drop_id)
  with frame_not_incomplete(2) [OF assms(1), of us] assms(2) show False by simp
qed

text \<open>What it says of the first chunk and of the others.\<close>

lemma apart_chunk:
  assumes ap: "apart (length rest) (c # cs) (fs1 @ fs2)" and ok: "\<forall>f \<in> set (fs1 @ fs2). frame_ok e f" and inc: "incomplete e rest"
    and eq: "rest @ c = stream fs1 @ rest'" "rest @ concat (c # cs) = stream (fs1 @ fs2)"
  shows "payload_last fs1" "apart (length rest') cs fs2"
proof -
  have len: "length rest + length c = length (stream fs1) + length rest'" using arg_cong [OF eq(1), of length] by simp
  have short: "length rest < length (stream (xs @ [f]))" if "fs1 @ fs2 = xs @ f # ws" for xs f ws
  proof (cases xs)
    case Nil
    with that eq(2) ok incomplete_short [of e f rest "concat (c # cs)" "stream ws"] inc show ?thesis by simp
  next
    case (Cons x xs')
    with that eq(2) ok incomplete_short [of e x rest "concat (c # cs)" "stream (xs' @ f # ws)"] inc show ?thesis by simp
  qed
  have ends: "\<exists>cs' ds. cs = cs' @ ds \<and> length (stream (xs @ [f])) \<le> length rest + length c + length (concat cs') \<and>
      length rest + length c + length (concat cs') < length (stream (xs @ f # ys @ [g]))"
    if e: "fs1 @ fs2 = xs @ f # ys @ g # zs" "snd f \<noteq> []" "snd g = []" for xs f ys g zs
  proof -
    from ap e obtain us ds where us: "c # cs = us @ ds" "length (stream (xs @ [f])) \<le> length rest + length (concat us)"
      "length rest + length (concat us) < length (stream (xs @ f # ys @ [g]))" unfolding apart_def by blast
    with short [OF e(1)] obtain us' where "us = c # us'" by (cases us) auto
    with us show ?thesis by (intro exI [of _ us'] exI [of _ ds]) simp
  qed
  show "payload_last fs1"
  proof (rule payload_lastI)
    fix xs f ys g zs assume e: "fs1 = xs @ f # ys @ g # zs" "snd f \<noteq> []" "snd g = []"
    then have "fs1 @ fs2 = xs @ f # ys @ g # (zs @ fs2)" by simp
    from ends [OF this e(2,3)] have "length rest + length c < length (stream (xs @ f # ys @ [g]))" by auto
    with len e(1) show False by simp
  qed
  show "apart (length rest') cs fs2"
    unfolding apart_def
  proof (intro allI impI, elim conjE)
    fix xs f ys g zs assume e: "fs2 = xs @ f # ys @ g # zs" "snd f \<noteq> []" "snd g = []"
    then have "fs1 @ fs2 = (fs1 @ xs) @ f # ys @ g # zs" by simp
    from ends [OF this e(2,3)] obtain cs' ds where "cs = cs' @ ds"
      "length (stream ((fs1 @ xs) @ [f])) \<le> length rest + length c + length (concat cs')"
      "length rest + length c + length (concat cs') < length (stream ((fs1 @ xs) @ f # ys @ [g]))" by blast
    with len show "\<exists>us ds. cs = us @ ds \<and> length (stream (xs @ [f])) \<le> length rest' + length (concat us) \<and>
        length rest' + length (concat us) < length (stream (xs @ f # ys @ [g]))" by (intro exI [of _ cs'] exI [of _ ds]) simp
  qed
qed

lemma parse_chunks_frames:
  "\<forall>f \<in> set fs. frame_ok e f \<Longrightarrow> apart (length rest) cs fs \<Longrightarrow> rest @ concat cs = stream fs \<Longrightarrow> incomplete e rest \<Longrightarrow> length fs < n \<Longrightarrow>
   cli < num_clients t \<Longrightarrow> num_clients t \<le> length (clients t) \<Longrightarrow>
   parse_chunks n e cli cs (set_readbuffer cli rest t) = omap (set_readbuffer cli []) (run_frames e cli fs t)"
proof (induction cs arbitrary: rest fs t)
  case Nil
  have "fs = []"
  proof (cases fs)
    case (Cons f fs')
    with Nil.prems(1) have "\<not> incomplete e (frame_bytes f @ stream fs')" by (intro frame_not_incomplete(2)) simp
    with Nil.prems(3,4) Cons show ?thesis by simp
  qed
  with Nil.prems(3) show ?case by simp
next
  case (Cons c cs)
  from Cons.prems(3) have "stream fs = (rest @ c) @ concat cs" by simp
  from stream_split [OF Cons.prems(1) this] obtain fs1 fs2 rest' where
    fs: "fs = fs1 @ fs2" and r: "rest @ c = stream fs1 @ rest'" "rest' @ concat cs = stream fs2" "incomplete e rest'" by blast
  from fs Cons.prems(1,5) have ok: "\<forall>f \<in> set fs1. frame_ok e f" "\<forall>f \<in> set fs2. frame_ok e f" "length fs1 < n" "length fs2 < n" by auto
  note ap = apart_chunk [OF Cons.prems(2) [unfolded fs] Cons.prems(1) [unfolded fs] Cons.prems(4) r(1) Cons.prems(3) [unfolded fs]]
  from Cons.prems(6,7) have cli: "cli < length (clients t)" by simp
  have "ParseBuffer n e cli (set_readbuffer cli (rest @ c) t) = omap (set_readbuffer cli rest') (run_frames e cli fs1 t)"
    using parse_messages_frames [OF ok(1) r(3) cli ok(3) ap(1), of None] Cons.prems(6) by (simp add: ParseBuffer_def c_assert_def r(1))
  moreover have "parse_chunks n e cli cs (set_readbuffer cli rest' t') = omap (set_readbuffer cli []) (run_frames e cli fs2 t')"
    if "run_frames e cli fs1 t = Inr t'" for t'
    using run_frames_keeps [OF that] Cons.prems(6,7) by (intro Cons.IH [OF ok(2) ap(2) r(2,3) ok(4)]) (simp_all add: keeps_def)
  ultimately show ?case
    using cli by (simp add: client_set_readbuffer bindo_omap fs run_frames_append omap_bindo cong: bindo_cong)
qed

lemma set_readbuffer_same: "set_readbuffer cli (readbuffer (client cli t)) t = t"
proof -
  have "client cli t\<lparr>readbuffer := readbuffer (client cli t)\<rparr> = client cli t" by simp
  then show ?thesis by (simp add: set_readbuffer_def upd_client_def)
qed

text \<open>C5: The cut of the stream does not matter.  Let a stream of complete messages, each no longer than the limit and with its
  size in its header, arrive in chunks at an empty buffer, in any cut by which no message without a payload ends in the same
  chunk as an earlier message with a payload.  (The second would be decoded with the function of the first.)  Then parsing
  after each chunk, with fuel for one step more than there are messages, does what the messages do one after the other,
  errors included, and leaves nothing in the buffer.\<close>

theorem parse_chunks_as_frames:
  assumes "\<forall>f \<in> set fs. frame_ok e f" "apart 0 chunks fs" "concat chunks = stream fs" "length fs < fuel"
    "cli < num_clients t" "num_clients t \<le> length (clients t)" "readbuffer (client cli t) = []"
  shows "parse_chunks fuel e cli chunks t = omap (set_readbuffer cli []) (run_frames e cli fs t)"
  using parse_chunks_frames [OF assms(1) _ _ _ assms(4-6), of "[]" chunks] assms(2,3,7) set_readbuffer_same [of cli t]
  by (simp add: incomplete_def)

text \<open>A request to open the device, as bytes.\<close>

definition sample_frame :: frame where
  "sample_frame = ([1, 3, 3, 2] @ replicate 36 0, [6, 1])"

lemma sample_frame_ok: "frame_ok sample_env sample_frame"
  by (simp add: frame_ok_def sample_frame_def sample_env_def sample_hdr_unpack_def)

theorem parse_chunks_as_frames_witness:
  "parse_chunks 2 sample_env 0 [take 10 (stream [sample_frame]), drop 10 (stream [sample_frame])] sample_joined =
     omap (set_readbuffer 0 []) (run_frames sample_env 0 [sample_frame] sample_joined)"
proof (rule parse_chunks_as_frames)
  show "\<forall>f \<in> set [sample_frame]. frame_ok sample_env f" using sample_frame_ok by simp
  show "apart 0 [take 10 (stream [sample_frame]), drop 10 (stream [sample_frame])] [sample_frame]"
    by (auto simp: apart_def append_eq_Cons_conv)
  show "num_clients sample_joined \<le> length (clients sample_joined)" using sample_joined_ok by (simp add: tcp_ok_iff)
  show "readbuffer (client 0 sample_joined) = []" by (simp add: sample_joined_def no_conn_def eval_session cong: if_cong)
qed (simp_all add: sample_joined(2) sample_frame_def flip: replicate_add)

section \<open>Streams that the parser gets wrong\<close>

text \<open>After a message with a payload an empty one is decoded with the function of that message, fails and is dropped; alone it
  would be answered.\<close>

lemma empty_message_dropped:
  assumes "msize h = 0" "interf (addr h) = PLAYER_CODE" "decode_with p bs = None"
  shows "handle_frame e cli h False bs (Some p, t) = Inr (Some p, t)"
  using assms by (simp add: handle_frame_def GetDevice_local decode_and_deliver_def decode_body_def)

lemma empty_message_alone:
  assumes "msize h = 0" "interf (addr h) = PLAYER_CODE"
  shows "handle_frame e cli h False bs (None, t) =
    omap (\<lambda>t'. (None, t')) (HandlePlayerMessage e cli (CreateMessage (env_xdr (te e))
      (h\<lparr>addr := (addr h)\<lparr>host := c_host (client cli t), robot := word_of_int (c_port (client cli t))\<rparr>, msize := 0\<rparr>) None (c_queue (client cli t)) True) t)"
  using assms by (cases "HandlePlayerMessage e cli (CreateMessage (env_xdr (te e))
      (h\<lparr>addr := (addr h)\<lparr>host := c_host (client cli t), robot := word_of_int (c_port (client cli t))\<rparr>, msize := 0\<rparr>) None (c_queue (client cli t)) True) t")
    (simp_all add: handle_frame_def GetDevice_local decode_and_deliver_def decode_body_def deliver_def Let_def)

text \<open>A size of \<open>2 ^ 32 - 40\<close> in the header of a message to a device that does not exist: the message has length 0, and parsing never ends.\<close>

abbreviation unknown_device :: "nat \<Rightarrow> msghdr \<Rightarrow> ('s, 'x) tcp \<Rightarrow> bool" where
  "unknown_device cli h t \<equiv> interf (addr h) \<noteq> PLAYER_CODE \<and>
     find_device ((addr h)\<lparr>host := c_host (client cli t), robot := word_of_int (c_port (client cli t))\<rparr>) (devices (t_core t)) = None"

lemma handle_frame_unknown: "unknown_device cli h t \<Longrightarrow> handle_frame e cli h short bs (pf, t) = Inr (pf, t)"
  by (simp add: handle_frame_def GetDevice_local Let_def)

lemma parse_never_ends:
  assumes "MSGHDR_SIZE \<le> length (readbuffer (client cli t))" "hdr_unpack e (take MSGHDR_SIZE (readbuffer (client cli t))) = Some h"
    "msize h = - 40" "unknown_device cli h t"
  shows "parse_messages n e cli (pf, t) = Inl OutOfFuel"
proof (induction n)
  case (Suc n)
  have "frame_length h = 0" using assms(3) by (simp add: frame_length_def)
  then have "parse_step e cli (pf, t) = Inr (Some (pf, t))"
    using assms(1,2) handle_frame_unknown [OF assms(4)] by (simp add: parse_step_def Let_def set_readbuffer_same)
  with Suc show ?case by simp
qed simp

text \<open>A size of \<open>2 ^ 31\<close>: the length is negative, and \<open>memmove\<close> reads in front of the buffer.\<close>

lemma parse_negative_length:
  assumes "MSGHDR_SIZE \<le> length (readbuffer (client cli t))" "hdr_unpack e (take MSGHDR_SIZE (readbuffer (client cli t))) = Some h"
    "msize h = 2147483648" "unknown_device cli h t"
  shows "parse_messages (Suc n) e cli (pf, t) = Inl BufferOverflow"
proof -
  have "frame_length h < 0" using assms(3) by (simp add: frame_length_def)
  then show ?thesis using assms(1,2) handle_frame_unknown [OF assms(4)] by (simp add: parse_step_def Let_def)
qed

end
