(* ===== verification/TcpRead.thy ===== *)
theory TcpRead
  imports TcpWrite TcpFrames
begin

text \<open>
  What \<open>ReadClient\<close> takes from the socket of a client: every byte goes to the end of the read buffer, which grows with it
  up to the limit of a message.
\<close>

definition read_ok :: "conn \<Rightarrow> bool" where
  "read_ok cl \<longleftrightarrow> length (readbuffer cl) \<le> readbuffersize cl \<and> 0 < readbuffersize cl \<and> readbuffersize cl \<le> MAX_MESSAGE_SIZE"

text \<open>What has been received and not parsed, and what the socket still holds.\<close>

definition pending :: "nat \<Rightarrow> ('s, 'x) tcp \<Rightarrow> u8 list list" where
  "pending cli t = (case socks t (fd (client cli t)) of None \<Rightarrow> [] | Some s \<Rightarrow> rx s)"

definition bytes_in :: "nat \<Rightarrow> ('s, 'x) tcp \<Rightarrow> u8 list" where
  "bytes_in cli t = readbuffer (client cli t) @ concat (pending cli t)"

lemma rx_left_pending: "rx_left cli t = length (concat (pending cli t))"
  by (simp add: rx_left_def pending_def length_concat split: option.split)

lemma grow_readbuffer_frame [simp]:
  "readbuffer (grow_readbuffer cl) = readbuffer cl" "fd (grow_readbuffer cl) = fd cl" "c_queue (grow_readbuffer cl) = c_queue cl"
  by (simp_all add: grow_readbuffer_def)

lemma grow_readbuffer_ok:
  assumes "read_ok cl"
  shows "read_ok (grow_readbuffer cl)"
    and "readbuffersize (grow_readbuffer cl) = length (readbuffer cl) \<Longrightarrow> length (readbuffer cl) = MAX_MESSAGE_SIZE"
  using assms by (auto simp: read_ok_def grow_readbuffer_def min_def split: if_splits)

text \<open>A receive takes bytes from the front of what the socket holds; a result of 0 is an empty chunk.\<close>

lemma recv_step:
  assumes "c_recv f n ss = ((k, again, bs), ss')" "0 < n" "ss f = Some s"
  shows "k < 0 \<Longrightarrow> ss' = ss \<and> rx s = []"
    and "0 \<le> k \<Longrightarrow> \<exists>s'. ss' = ss(f \<mapsto> s') \<and> concat (rx s) = bs @ concat (rx s') \<and> k = int (length bs) \<and> length bs \<le> n"
  using assms by (auto simp: c_recv_def Let_def split: list.splits if_splits)

text \<open>The loop ends because every round but the last takes a byte; no byte is lost, and their order is kept.\<close>

lemma read_loop_bytes:
  assumes "cli < length (clients t)" "read_ok (client cli t)" "rx_left cli t < n"
  shows "\<exists>r t'. read_loop n cli t = Inr (r, t') \<and> (r = 0 \<or> r = - 1) \<and> read_ok (client cli t') \<and> bytes_in cli t' = bytes_in cli t \<and>
    t_core t' = t_core t \<and> keeps t t' \<and> (r = 0 \<longrightarrow> pending cli t' = [] \<or> length (readbuffer (client cli t')) = MAX_MESSAGE_SIZE)"
  using assms
proof (induction n arbitrary: t)
  case (Suc n)
  let ?t = "upd_client cli grow_readbuffer t"
  let ?cl = "grow_readbuffer (client cli t)" and ?len = "length (readbuffer (client cli t))"
  have cl: "client cli ?t = ?cl" using Suc.prems(1) by (simp add: upd_client_nth)
  have same: "pending cli ?t = pending cli t" "bytes_in cli ?t = bytes_in cli t" by (simp_all add: pending_def bytes_in_def cl)
  note ok = grow_readbuffer_ok [OF Suc.prems(2)]
  show ?case
  proof (cases "readbuffersize ?cl = ?len")
    case True
    then have "read_loop (Suc n) cli t = Inr (0, ?t)" by (simp add: cl Let_def)
    with ok(1) ok(2) [OF True] same cl show ?thesis by simp
  next
    case False
    have room: "0 < readbuffersize ?cl - ?len" using ok(1) False by (simp add: read_ok_def)
    obtain x ss where "c_recv (fd ?cl) (readbuffersize ?cl - ?len) (socks t) = (x, ss)" by fastforce
    moreover obtain k again bs where "x = (k, again, bs)" by (metis prod_cases3)
    ultimately have recv: "c_recv (fd ?cl) (readbuffersize ?cl - ?len) (socks t) = ((k, again, bs), ss)" by simp
    define t2 where "t2 = ?t\<lparr>socks := ss\<rparr>"
    have run: "read_loop (Suc n) cli t =
        (if k < 0 then Inr (if again then 0 else - 1, t2) else if k = 0 then Inr (- 1, t2)
         else read_loop n cli (set_readbuffer cli (readbuffer (client cli t) @ bs) t2))"
      using False recv by (simp add: cl t2_def Let_def)
    have t2: "client cli t2 = ?cl" "t_core t2 = t_core t" "keeps t t2" "socks t2 = ss" "length (clients t2) = length (clients t)"
      using cl by (simp_all add: t2_def keeps_def)
    show ?thesis
    proof (cases "socks t (fd ?cl)")
      case None
      with recv have k: "k = - 1" "\<not> again" "ss = socks t" by (auto simp: c_recv_def)
      then have "bytes_in cli t2 = bytes_in cli t" by (simp add: bytes_in_def pending_def t2)
      with k t2 ok(1) show ?thesis unfolding run by simp
    next
      case (Some s)
      note step = recv_step [OF recv room Some]
      consider "k < 0" | "k = 0" | "0 < k" by linarith
      then show ?thesis
      proof cases
        case 1
        with step(1) have ss: "ss = socks t" "rx s = []" by simp_all
        then have "bytes_in cli t2 = bytes_in cli t" "pending cli t2 = []" using Some by (simp_all add: bytes_in_def pending_def t2)
        with 1 t2 ok(1) show ?thesis unfolding run by simp
      next
        case 2
        with step(2) obtain s' where s': "ss = (socks t)(fd ?cl \<mapsto> s')" "concat (rx s) = concat (rx s')" by auto
        with Some have "bytes_in cli t2 = bytes_in cli t" by (simp add: bytes_in_def pending_def t2)
        with 2 t2 ok(1) show ?thesis unfolding run by simp
      next
        case 3
        with step(2) obtain s' where s': "ss = (socks t)(fd ?cl \<mapsto> s')" "concat (rx s) = bs @ concat (rx s')" "k = int (length bs)"
          "length bs \<le> readbuffersize ?cl - ?len" by auto
        let ?t' = "set_readbuffer cli (readbuffer (client cli t) @ bs) t2"
        have cl': "client cli ?t' = ?cl\<lparr>readbuffer := readbuffer (client cli t) @ bs\<rparr>" using Suc.prems(1) by (simp add: client_set_readbuffer t2)
        have sk: "socks ?t' = ss" by (simp add: set_readbuffer_def upd_client_def t2)
        have b: "bytes_in cli ?t' = bytes_in cli t" "rx_left cli t = length bs + rx_left cli ?t'"
          using s' Some by (simp_all add: bytes_in_def rx_left_pending pending_def cl' sk)
        have "read_ok (client cli ?t')" using ok(1) s'(4) False by (auto simp: cl' read_ok_def)
        from Suc.IH [of ?t', OF _ this] Suc.prems(1,3) b(2) 3 s'(3) obtain r t' where
          "read_loop n cli ?t' = Inr (r, t') \<and> (r = 0 \<or> r = - 1) \<and> read_ok (client cli t') \<and> bytes_in cli t' = bytes_in cli ?t' \<and>
           t_core t' = t_core ?t' \<and> keeps ?t' t' \<and> (r = 0 \<longrightarrow> pending cli t' = [] \<or> length (readbuffer (client cli t')) = MAX_MESSAGE_SIZE)"
          by (auto simp: t2)
        then show ?thesis unfolding run using 3 b(1) t2(2,3) by (auto simp: keeps_def)
      qed
    qed
  qed
qed simp

text \<open>C38: 
  The reading loop of \<open>ReadClient\<close> ends; every byte the socket had is in the buffer or still with the socket, in order; the
  buffer never outgrows its space or the limit; and a result of 0 means that nothing is left or that the buffer is full.
\<close>

theorem ReadClient_loses_nothing:
  assumes "cli < length (clients t)" "read_ok (client cli t)"
  shows "\<exists>r t'. read_loop (rx_left cli t + 1) cli t = Inr (r, t') \<and> (r = 0 \<or> r = - 1) \<and> read_ok (client cli t') \<and>
    bytes_in cli t' = bytes_in cli t \<and> t_core t' = t_core t \<and>
    (r = 0 \<longrightarrow> pending cli t' = [] \<or> length (readbuffer (client cli t')) = MAX_MESSAGE_SIZE)"
proof -
  have "rx_left cli t < rx_left cli t + 1" by simp
  from read_loop_bytes [OF assms this] show ?thesis by blast
qed

definition sample_input :: "(unit, unit) tcp" where
  "sample_input = sample_joined\<lparr>socks := [7 \<mapsto> fresh_sock\<lparr>rx := [[1, 3], [6]]\<rparr>]\<rparr>"

theorem ReadClient_loses_nothing_witness:
  "\<exists>r t'. read_loop (rx_left 0 sample_input + 1) 0 sample_input = Inr (r, t') \<and> bytes_in 0 t' = [1, 3, 6]"
proof -
  have cl: "clients sample_input = clients sample_joined" by (simp add: sample_input_def)
  have "num_clients sample_joined \<le> length (clients sample_joined)" using sample_joined_ok by (simp add: tcp_ok_iff)
  then have "0 < length (clients sample_input)" unfolding cl sample_joined(2) by linarith
  moreover have "read_ok (client 0 sample_input)" "bytes_in 0 sample_input = [1, 3, 6]"
    by (simp_all add: read_ok_def bytes_in_def pending_def sample_input_def sample_joined_def no_conn_def eval_session cong: if_cong)
  ultimately show ?thesis using ReadClient_loses_nothing [of 0 sample_input] by (metis (no_types))
qed

end
