(* ===== verification/FunctionTable.thy ===== *)
theory FunctionTable
  imports Messages Registry
begin

text \<open>
  The table of marshalling functions, \<open>libplayerinterface/functiontable.c\<close>: which pack, copy, clean-up, clone, free and size
  function belongs to a message signature.  The generated functions themselves are values in the rows; a payload is a value of
  type \<open>'d\<close>, a pack function one of type \<open>'p\<close>, and the rows the build generates (\<open>init_ftable\<close>) are an argument of
  \<open>playerxdr_ftable_init\<close>.
\<close>

section \<open>Rows and the table\<close>

text \<open>A null function pointer is \<open>None\<close>.  A copy function takes the destination and the source and gives the new destination
  and the count; a clean-up function gives the payload it leaves, and a free function what is left of the object.\<close>

record ('p, 'd) xdr_function =
  ft_interf :: u16
  ft_type :: u8
  ft_subtype :: u8
  packfunc :: "'p option"
  copyfunc :: "('d \<Rightarrow> 'd \<Rightarrow> 'd \<times> u32) option"
  cleanupfunc :: "('d \<Rightarrow> 'd) option"
  clonefunc :: "('d \<Rightarrow> 'd option) option"
  freefunc :: "('d \<Rightarrow> 'd option) option"
  sizeoffunc :: "('d \<Rightarrow> u32) option"

text \<open>The static pointer \<open>ftable\<close>, null before the first use; \<open>ftable_len\<close> is the length of the list, 0 for the null pointer.\<close>

type_synonym ('p, 'd) ftable = "('p, 'd) xdr_function list option"

definition ft_rows :: "('p, 'd) ftable \<Rightarrow> ('p, 'd) xdr_function list" where
  "ft_rows t = (case t of None \<Rightarrow> [] | Some rows \<Rightarrow> rows)"

text \<open>The list of functions ends at the first row without a pack function.\<close>

fun ft_list :: "('p, 'd) xdr_function list \<Rightarrow> ('p, 'd) xdr_function list" where
  "ft_list [] = []"
| "ft_list (f # fs) = (if packfunc f = None then [] else f # ft_list fs)"

definition playerxdr_ftable_init :: "('p, 'd) xdr_function list \<Rightarrow> ('p, 'd) ftable \<Rightarrow> ('p, 'd) ftable" where
  "playerxdr_ftable_init init_ftable t = (case t of Some rows \<Rightarrow> Some rows | None \<Rightarrow> Some (ft_list init_ftable))"

section \<open>Lookup\<close>

text \<open>One loop over the rows; interface 0 stands for every interface.\<close>

fun ft_scan :: "u16 \<Rightarrow> u8 \<Rightarrow> u8 \<Rightarrow> ('p, 'd) xdr_function list \<Rightarrow> ('p, 'd) xdr_function option" where
  "ft_scan i ty sub [] = None"
| "ft_scan i ty sub (r # rs) =
     (if (ft_interf r = i \<or> ft_interf r = 0) \<and> ft_type r = ty \<and> ft_subtype r = sub then Some r
      else ft_scan i ty sub rs)"

definition playerxdr_get_ftrow :: "('p, 'd) ftable \<Rightarrow> u16 \<Rightarrow> u8 \<Rightarrow> u8 \<Rightarrow> ('p, 'd) xdr_function option" where
  "playerxdr_get_ftrow t i ty sub =
     (if ft_rows t = [] then None
      else
        case ft_scan i ty sub (ft_rows t) of
          Some r \<Rightarrow> Some r
        | None \<Rightarrow>
            (let ty' = (if ty = MSGTYPE_RESP_ACK \<or> ty = MSGTYPE_RESP_NACK then MSGTYPE_REQ else ty)
             in ft_scan i ty' sub (ft_rows t)))"

definition playerxdr_get_packfunc :: "('p, 'd) ftable \<Rightarrow> u16 \<Rightarrow> u8 \<Rightarrow> u8 \<Rightarrow> 'p option" where
  "playerxdr_get_packfunc t i ty sub = (case playerxdr_get_ftrow t i ty sub of Some r \<Rightarrow> packfunc r | None \<Rightarrow> None)"

definition playerxdr_get_copyfunc :: "('p, 'd) ftable \<Rightarrow> u16 \<Rightarrow> u8 \<Rightarrow> u8 \<Rightarrow> ('d \<Rightarrow> 'd \<Rightarrow> 'd \<times> u32) option" where
  "playerxdr_get_copyfunc t i ty sub = (case playerxdr_get_ftrow t i ty sub of Some r \<Rightarrow> copyfunc r | None \<Rightarrow> None)"

definition playerxdr_get_cleanupfunc :: "('p, 'd) ftable \<Rightarrow> u16 \<Rightarrow> u8 \<Rightarrow> u8 \<Rightarrow> ('d \<Rightarrow> 'd) option" where
  "playerxdr_get_cleanupfunc t i ty sub = (case playerxdr_get_ftrow t i ty sub of Some r \<Rightarrow> cleanupfunc r | None \<Rightarrow> None)"

definition playerxdr_get_clonefunc :: "('p, 'd) ftable \<Rightarrow> u16 \<Rightarrow> u8 \<Rightarrow> u8 \<Rightarrow> ('d \<Rightarrow> 'd option) option" where
  "playerxdr_get_clonefunc t i ty sub = (case playerxdr_get_ftrow t i ty sub of Some r \<Rightarrow> clonefunc r | None \<Rightarrow> None)"

definition playerxdr_get_freefunc :: "('p, 'd) ftable \<Rightarrow> u16 \<Rightarrow> u8 \<Rightarrow> u8 \<Rightarrow> ('d \<Rightarrow> 'd option) option" where
  "playerxdr_get_freefunc t i ty sub = (case playerxdr_get_ftrow t i ty sub of Some r \<Rightarrow> freefunc r | None \<Rightarrow> None)"

definition playerxdr_get_sizeoffunc :: "('p, 'd) ftable \<Rightarrow> u16 \<Rightarrow> u8 \<Rightarrow> u8 \<Rightarrow> ('d \<Rightarrow> u32) option" where
  "playerxdr_get_sizeoffunc t i ty sub = (case playerxdr_get_ftrow t i ty sub of Some r \<Rightarrow> sizeoffunc r | None \<Rightarrow> None)"

section \<open>Payload operations\<close>

definition playerxdr_deepcopy_message :: "('p, 'd) ftable \<Rightarrow> 'd \<Rightarrow> 'd \<Rightarrow> u16 \<Rightarrow> u8 \<Rightarrow> u8 \<Rightarrow> 'd \<times> u32" where
  "playerxdr_deepcopy_message t src dest i ty sub =
     (case playerxdr_get_copyfunc t i ty sub of None \<Rightarrow> (dest, 0) | Some copy \<Rightarrow> copy dest src)"

definition playerxdr_clone_message :: "('p, 'd) ftable \<Rightarrow> 'd \<Rightarrow> u16 \<Rightarrow> u8 \<Rightarrow> u8 \<Rightarrow> 'd option" where
  "playerxdr_clone_message t msg i ty sub =
     (case playerxdr_get_clonefunc t i ty sub of None \<Rightarrow> None | Some clone \<Rightarrow> clone msg)"

definition playerxdr_free_message :: "('p, 'd) ftable \<Rightarrow> 'd \<Rightarrow> u16 \<Rightarrow> u8 \<Rightarrow> u8 \<Rightarrow> 'd option" where
  "playerxdr_free_message t msg i ty sub =
     (case playerxdr_get_freefunc t i ty sub of None \<Rightarrow> Some msg | Some free \<Rightarrow> free msg)"

definition playerxdr_cleanup_message :: "('p, 'd) ftable \<Rightarrow> 'd \<Rightarrow> u16 \<Rightarrow> u8 \<Rightarrow> u8 \<Rightarrow> 'd" where
  "playerxdr_cleanup_message t msg i ty sub =
     (case playerxdr_get_cleanupfunc t i ty sub of None \<Rightarrow> msg | Some cleanup \<Rightarrow> cleanup msg)"

section \<open>Registration\<close>

fun ft_replace :: "('p, 'd) xdr_function \<Rightarrow> ('p, 'd) xdr_function list \<Rightarrow> ('p, 'd) xdr_function list option" where
  "ft_replace f [] = None"
| "ft_replace f (r # rs) =
     (if ft_interf r = ft_interf f \<and> ft_subtype r = ft_subtype f \<and> ft_type r = ft_type f then Some (f # rs)
      else map_option ((#) r) (ft_replace f rs))"

definition playerxdr_ftable_add :: "('p, 'd) xdr_function \<Rightarrow> bool \<Rightarrow> ('p, 'd) ftable \<Rightarrow> int \<times> ('p, 'd) ftable" where
  "playerxdr_ftable_add f replace t =
     (if playerxdr_get_packfunc t (ft_interf f) (ft_type f) (ft_subtype f) \<noteq> None then
        (if \<not> replace then (- 1, t)
         else
           case ft_replace f (ft_rows t) of
             Some rows \<Rightarrow> (0, Some rows)
           | None \<Rightarrow> (- 1, t))
      else (0, Some (ft_rows t @ [f])))"

text \<open>The rows before the one that fails stay registered.\<close>

fun playerxdr_ftable_add_multi :: "('p, 'd) xdr_function list \<Rightarrow> bool \<Rightarrow> ('p, 'd) ftable \<Rightarrow> int \<times> ('p, 'd) ftable" where
  "playerxdr_ftable_add_multi [] replace t = (0, t)"
| "playerxdr_ftable_add_multi (f # fs) replace t =
     (if packfunc f = None then (0, t)
      else
        case playerxdr_ftable_add f replace t of (r, t') \<Rightarrow>
          if r < 0 then (- 1, t') else playerxdr_ftable_add_multi fs replace t')"

section \<open>The parameter of the message constructors\<close>

definition table_xdr :: "('p, 'd) ftable \<Rightarrow> 'd xdr" where
  "table_xdr t = \<lparr>get_sizeoffunc = playerxdr_get_sizeoffunc t, get_clonefunc = playerxdr_get_clonefunc t\<rparr>"

section \<open>What a lookup finds\<close>

definition ft_ok :: "('p, 'd) ftable \<Rightarrow> bool" where
  "ft_ok t \<longleftrightarrow> list_all (\<lambda>r. packfunc r \<noteq> None) (ft_rows t)"

abbreviation reply_type :: "u8 \<Rightarrow> bool" where
  "reply_type ty \<equiv> ty = MSGTYPE_RESP_ACK \<or> ty = MSGTYPE_RESP_NACK"

abbreviation request_type :: "u8 \<Rightarrow> u8" where
  "request_type ty \<equiv> (if reply_type ty then MSGTYPE_REQ else ty)"

abbreviation get_own :: "('p, 'd) ftable \<Rightarrow> ('p, 'd) xdr_function \<Rightarrow> ('p, 'd) xdr_function option" where
  "get_own t f \<equiv> playerxdr_get_ftrow t (ft_interf f) (ft_type f) (ft_subtype f)"

lemma ft_rows_simps [simp]: "ft_rows None = []" "ft_rows (Some rows) = rows"
  by (simp_all add: ft_rows_def)

lemma ft_scan_append:
  "ft_scan i ty sub (rs @ rs') = (case ft_scan i ty sub rs of Some r \<Rightarrow> Some r | None \<Rightarrow> ft_scan i ty sub rs')"
  by (induction rs) auto

lemma ft_scan_Some:
  "ft_scan i ty sub rs = Some r \<Longrightarrow> r \<in> set rs \<and> (ft_interf r = i \<or> ft_interf r = 0) \<and> ft_type r = ty \<and> ft_subtype r = sub"
  by (induction rs) (auto split: if_splits)

lemma ft_scan_own: "f \<in> set rs \<Longrightarrow> ft_scan (ft_interf f) (ft_type f) (ft_subtype f) rs \<noteq> None"
  by (induction rs) auto

lemma get_ftrow_scan:
  "playerxdr_get_ftrow t i ty sub =
     (case ft_scan i ty sub (ft_rows t) of Some r \<Rightarrow> Some r | None \<Rightarrow> ft_scan i (request_type ty) sub (ft_rows t))"
  by (auto simp: playerxdr_get_ftrow_def Let_def split: option.split)

lemma get_ftrow_Some:
  "playerxdr_get_ftrow t i ty sub = Some r \<Longrightarrow>
   r \<in> set (ft_rows t) \<and> (ft_interf r = i \<or> ft_interf r = 0) \<and> (ft_type r = ty \<or> ft_type r = request_type ty) \<and> ft_subtype r = sub"
  by (auto simp: get_ftrow_scan dest: ft_scan_Some split: option.splits if_splits)

lemma get_packfunc_None:
  "ft_ok t \<Longrightarrow> playerxdr_get_packfunc t i ty sub = None \<longleftrightarrow> playerxdr_get_ftrow t i ty sub = None"
  by (auto simp: playerxdr_get_packfunc_def ft_ok_def list_all_iff dest: get_ftrow_Some split: option.splits)

text \<open>A reply is handled by the functions of its request.\<close>

lemma get_ftrow_reply:
  "list_all (\<lambda>r. \<not> reply_type (ft_type r)) (ft_rows t) \<Longrightarrow> reply_type ty \<Longrightarrow>
   playerxdr_get_ftrow t i ty sub = playerxdr_get_ftrow t i MSGTYPE_REQ sub"
  by (auto simp: get_ftrow_scan list_all_iff dest: ft_scan_Some split: option.splits)

section \<open>Registration without replacing\<close>

lemma ft_list_packfunc [simp]: "list_all (\<lambda>r. packfunc r \<noteq> None) (ft_list fs)"
  by (induction fs) auto

lemma ftable_init_ok: "ft_ok t \<Longrightarrow> ft_ok (playerxdr_ftable_init fs t)"
  by (cases t) (simp_all add: playerxdr_ftable_init_def ft_ok_def del: not_None_eq)

lemma ft_replace_ok:
  "ft_replace f rs = Some rs' \<Longrightarrow> list_all P rs \<Longrightarrow> P f \<Longrightarrow> list_all P rs'"
  by (induction rs arbitrary: rs') (auto split: if_splits)

lemma ftable_add_ok: "ft_ok t \<Longrightarrow> packfunc f \<noteq> None \<Longrightarrow> ft_ok (snd (playerxdr_ftable_add f replace t))"
  by (auto simp: playerxdr_ftable_add_def ft_ok_def elim: ft_replace_ok split: option.split)

lemma ftable_add_new:
  "ft_ok t \<Longrightarrow> playerxdr_ftable_add f False t = (0, t') \<Longrightarrow> get_own t f = None \<and> t' = Some (ft_rows t @ [f])"
  by (auto simp: playerxdr_ftable_add_def get_packfunc_None split: if_splits)

lemma append_row_keeps:
  assumes g: "playerxdr_get_ftrow t i ty sub = Some r"
    and c: "ft_scan i ty sub (ft_rows t) = Some r \<or> \<not> (ft_interf f = 0 \<and> reply_type (ft_type f))"
    and n: "get_own t f = None"
  shows "playerxdr_get_ftrow (Some (ft_rows t @ [f])) i ty sub = Some r"
proof (cases "ft_scan i ty sub (ft_rows t)")
  case None
  with g have r: "reply_type ty" "ft_scan i (request_type ty) sub (ft_rows t) = Some r"
    by (auto simp: get_ftrow_scan split: if_splits)
  have "ft_scan i ty sub [f] = None"
  proof (rule ccontr)
    assume "ft_scan i ty sub [f] \<noteq> None"
    then have f: "ft_interf f = i \<or> ft_interf f = 0" "ft_type f = ty" "ft_subtype f = sub" by (auto split: if_splits)
    with c None r(1) have "ft_interf f = i" by auto
    with f n g show False by simp
  qed
  with None r show ?thesis by (simp add: get_ftrow_scan ft_scan_append)
next
  case (Some r')
  with g show ?thesis by (simp add: get_ftrow_scan ft_scan_append)
qed

lemma append_row_own: "ft_scan (ft_interf f) (ft_type f) (ft_subtype f) (ft_rows t) = None \<Longrightarrow>
  ft_scan (ft_interf f) (ft_type f) (ft_subtype f) (ft_rows t @ [f]) = Some f"
  by (simp add: ft_scan_append)

lemma get_own_None: "get_own t f = None \<Longrightarrow> ft_scan (ft_interf f) (ft_type f) (ft_subtype f) (ft_rows t) = None"
  by (simp add: get_ftrow_scan split: option.splits)

text \<open>Registering a list of rows: each is what the lookup of its signature finds, and no lookup that succeeded before changes.\<close>

lemma ftable_add_multi_ok:
  "ft_ok t \<Longrightarrow> playerxdr_ftable_add_multi fs False t = (0, t') \<Longrightarrow>
   ft_ok t' \<and> ft_rows t' = ft_rows t @ ft_list fs \<and>
   (\<forall>f \<in> set (ft_list fs). ft_scan (ft_interf f) (ft_type f) (ft_subtype f) (ft_rows t') = Some f) \<and>
   (list_all (\<lambda>f. \<not> (ft_interf f = 0 \<and> reply_type (ft_type f))) (ft_list fs) \<longrightarrow>
     (\<forall>i ty sub r. playerxdr_get_ftrow t i ty sub = Some r \<longrightarrow> playerxdr_get_ftrow t' i ty sub = Some r))"
proof (induction fs arbitrary: t)
  case Nil
  then show ?case by simp
next
  case (Cons f fs)
  show ?case
  proof (cases "packfunc f")
    case None
    with Cons.prems show ?thesis by simp
  next
    case (Some p)
    with Cons.prems(2) obtain t1 where a: "playerxdr_ftable_add f False t = (0, t1)"
      and m: "playerxdr_ftable_add_multi fs False t1 = (0, t')"
      by (auto simp: playerxdr_ftable_add_def split: prod.splits if_splits)
    note new = ftable_add_new [OF Cons.prems(1) a]
    have ok1: "ft_ok t1" using ftable_add_ok [OF Cons.prems(1), of f False] a Some by simp
    note IH = Cons.IH [OF ok1 m]
    have own: "ft_scan (ft_interf f) (ft_type f) (ft_subtype f) (ft_rows t1) = Some f"
      using new append_row_own [OF get_own_None, of t f] by simp
    have "ft_scan (ft_interf f) (ft_type f) (ft_subtype f) (ft_rows t') = Some f"
      using IH own by (simp add: ft_scan_append)
    moreover have "playerxdr_get_ftrow t1 i ty sub = Some r"
      if "playerxdr_get_ftrow t i ty sub = Some r" "\<not> (ft_interf f = 0 \<and> reply_type (ft_type f))" for i ty sub r
      using append_row_keeps [OF that(1)] that(2) new by blast
    ultimately show ?thesis using IH new Some by auto
  qed
qed

section \<open>The table as a store\<close>

text \<open>
  With replacing allowed, the table is a store of the functions of each signature.  It holds the signatures of proper interfaces
  that are no replies; \<open>U\<close> are the types and subtypes whose signatures are the same for every interface.
\<close>

type_synonym signature = "u16 \<times> u8 \<times> u8"
type_synonym ('p, 'd) row_functions =
  "'p \<times> ('d \<Rightarrow> 'd \<Rightarrow> 'd \<times> u32) option \<times> ('d \<Rightarrow> 'd) option \<times> ('d \<Rightarrow> 'd option) option \<times> ('d \<Rightarrow> 'd option) option \<times> ('d \<Rightarrow> u32) option"

fun row_of :: "signature \<Rightarrow> ('p, 'd) row_functions \<Rightarrow> ('p, 'd) xdr_function" where
  "row_of (i, ty, sub) (p, cp, cl, cn, fr, sz) =
     \<lparr>ft_interf = i, ft_type = ty, ft_subtype = sub, packfunc = Some p, copyfunc = cp, cleanupfunc = cl, clonefunc = cn,
      freefunc = fr, sizeoffunc = sz\<rparr>"

definition functions_of :: "('p, 'd) xdr_function \<Rightarrow> ('p, 'd) row_functions" where
  "functions_of r = (the (packfunc r), copyfunc r, cleanupfunc r, clonefunc r, freefunc r, sizeoffunc r)"

fun own_signature :: "(u8 \<Rightarrow> u8 \<Rightarrow> bool) \<Rightarrow> signature \<Rightarrow> bool" where
  "own_signature U (i, ty, sub) \<longleftrightarrow> i \<noteq> 0 \<and> \<not> reply_type ty \<and> \<not> U ty sub"

definition signature_functions :: "(u8 \<Rightarrow> u8 \<Rightarrow> bool) \<Rightarrow> ('p, 'd) ftable \<Rightarrow> signature \<Rightarrow> ('p, 'd) row_functions option" where
  "signature_functions U t k =
     (if own_signature U k then map_option functions_of (case k of (i, ty, sub) \<Rightarrow> playerxdr_get_ftrow t i ty sub) else None)"

definition set_functions :: "signature \<Rightarrow> ('p, 'd) row_functions \<Rightarrow> ('p, 'd) ftable \<Rightarrow> ('p, 'd) ftable" where
  "set_functions k v t = snd (playerxdr_ftable_add (row_of k v) True t)"

definition ft_inv :: "(u8 \<Rightarrow> u8 \<Rightarrow> bool) \<Rightarrow> ('p, 'd) ftable \<Rightarrow> bool" where
  "ft_inv U t \<longleftrightarrow> ft_ok t \<and> list_all (\<lambda>r. ft_interf r = 0 \<longrightarrow> U (ft_type r) (ft_subtype r)) (ft_rows t)"

lemma row_of_simps [simp]:
  "ft_interf (row_of (i, ty, sub) v) = i" "ft_type (row_of (i, ty, sub) v) = ty" "ft_subtype (row_of (i, ty, sub) v) = sub"
  "packfunc (row_of k v) \<noteq> None" "functions_of (row_of k v) = v"
  by (cases v; simp; cases k; simp add: functions_of_def)+

lemma own_scan:
  "list_all (\<lambda>r. ft_interf r = 0 \<longrightarrow> U (ft_type r) (ft_subtype r)) rs \<Longrightarrow> \<not> U ty sub \<Longrightarrow>
   ft_scan i ty sub rs = find (\<lambda>r. ft_interf r = i \<and> ft_type r = ty \<and> ft_subtype r = sub) rs"
  by (induction rs) auto

lemma own_ftrow:
  "ft_inv U t \<Longrightarrow> own_signature U (i, ty, sub) \<Longrightarrow>
   playerxdr_get_ftrow t i ty sub = find (\<lambda>r. ft_interf r = i \<and> ft_type r = ty \<and> ft_subtype r = sub) (ft_rows t)"
  using own_scan [of U "ft_rows t" ty sub i] by (auto simp: get_ftrow_scan ft_inv_def split: option.split)

lemma ft_replace_find:
  "find (\<lambda>r. ft_interf r = ft_interf f \<and> ft_type r = ft_type f \<and> ft_subtype r = ft_subtype f) rs \<noteq> None \<Longrightarrow>
   \<exists>rs'. ft_replace f rs = Some rs' \<and>
     (\<forall>i ty sub. find (\<lambda>r. ft_interf r = i \<and> ft_type r = ty \<and> ft_subtype r = sub) rs' =
       (if i = ft_interf f \<and> ty = ft_type f \<and> sub = ft_subtype f then Some f
        else find (\<lambda>r. ft_interf r = i \<and> ft_type r = ty \<and> ft_subtype r = sub) rs))"
  by (induction rs) (auto split: if_splits)

lemma find_append_one:
  "find P (xs @ [x]) = (case find P xs of Some y \<Rightarrow> Some y | None \<Rightarrow> if P x then Some x else None)"
  by (induction xs) auto

lemma set_functions_ok:
  assumes inv: "ft_inv U t" and k: "own_signature U k"
  shows "ft_inv U (set_functions k v t) \<and>
    signature_functions U (set_functions k v t) k' = (if k' = k then Some v else signature_functions U t k')"
proof -
  obtain i ty sub where kk: "k = (i, ty, sub)" by (cases k)
  obtain i' ty' sub' where kk': "k' = (i', ty', sub')" by (cases k')
  let ?f = "row_of k v"
  let ?find = "\<lambda>i ty sub. find (\<lambda>r. ft_interf r = i \<and> ft_type r = ty \<and> ft_subtype r = sub)"
  have pack: "playerxdr_get_packfunc t i ty sub = None \<longleftrightarrow> ?find i ty sub (ft_rows t) = None"
    using inv k own_ftrow [OF inv, of i ty sub] by (simp add: get_packfunc_None ft_inv_def kk)
  obtain rs where t': "set_functions k v t = Some rs"
    and all: "\<And>P. list_all P (ft_rows t) \<Longrightarrow> P ?f \<Longrightarrow> list_all P rs"
    and find: "\<And>i' ty' sub'. ?find i' ty' sub' rs =
      (if i' = i \<and> ty' = ty \<and> sub' = sub then Some ?f else ?find i' ty' sub' (ft_rows t))"
  proof (cases "?find i ty sub (ft_rows t)")
    case None
    have "set_functions k v t = Some (ft_rows t @ [?f])"
      using None pack by (simp add: set_functions_def playerxdr_ftable_add_def kk)
    then show ?thesis by (rule that) (use None in \<open>auto simp: find_append_one kk split: option.split\<close>)
  next
    case (Some r)
    then obtain rs' where rs': "ft_replace ?f (ft_rows t) = Some rs'"
      and f: "\<And>i' ty' sub'. ?find i' ty' sub' rs' =
        (if i' = i \<and> ty' = ty \<and> sub' = sub then Some ?f else ?find i' ty' sub' (ft_rows t))"
      using ft_replace_find [of ?f "ft_rows t"] by (auto simp: kk)
    have "set_functions k v t = Some rs'"
      using Some pack rs' by (simp add: set_functions_def playerxdr_ftable_add_def kk del: not_None_eq)
    then show ?thesis by (rule that) (use rs' f in \<open>auto elim: ft_replace_ok\<close>)
  qed
  have inv': "ft_inv U (set_functions k v t)"
    using inv k all unfolding ft_inv_def ft_ok_def t' by (simp add: kk del: not_None_eq)
  moreover have "signature_functions U (set_functions k v t) k' = (if k' = k then Some v else signature_functions U t k')"
    using k own_ftrow [OF inv', of i' ty' sub'] own_ftrow [OF inv, of i' ty' sub'] find [of i' ty' sub']
    by (auto simp: signature_functions_def t' [unfolded kk] kk kk')
  ultimately show ?thesis ..
qed

interpretation ftable: extending_store "ft_inv U" "own_signature U" "signature_functions U" set_functions for U
  using set_functions_ok by unfold_locales blast+

section \<open>Properties\<close>

text \<open>A row for the reply of a request that is already registered is refused, with and without replacing.\<close>

lemma ftable_add_reply_refused:
  assumes "ft_ok t" "reply_type (ft_type f)" "ft_scan (ft_interf f) (ft_type f) (ft_subtype f) (ft_rows t) = None"
    and "ft_scan (ft_interf f) MSGTYPE_REQ (ft_subtype f) (ft_rows t) \<noteq> None"
  shows "playerxdr_ftable_add f replace t = (- 1, t)"
proof -
  have "get_own t f \<noteq> None" using assms by (auto simp: get_ftrow_scan)
  then have "playerxdr_get_packfunc t (ft_interf f) (ft_type f) (ft_subtype f) \<noteq> None"
    using assms(1) by (simp add: get_packfunc_None del: not_None_eq)
  moreover have "ft_replace f rs = None" if "ft_scan (ft_interf f) (ft_type f) (ft_subtype f) rs = None" for rs
    using that by (induction rs) (auto split: if_splits)
  ultimately show ?thesis using assms(3) by (simp add: playerxdr_ftable_add_def del: not_None_eq)
qed

text \<open>The messages with the signature of a row are packed, measured and copied by its functions.\<close>

definition served_by :: "('p, 'd) ftable \<Rightarrow> ('p, 'd) xdr_function \<Rightarrow> bool" where
  "served_by t f \<longleftrightarrow>
     playerxdr_get_packfunc t (ft_interf f) (ft_type f) (ft_subtype f) = packfunc f \<and>
     (\<forall>h d q. interf (addr h) = ft_interf f \<longrightarrow> mtype h = ft_type f \<longrightarrow> subtype h = ft_subtype f \<longrightarrow>
       msize (Header (CreateMessage (table_xdr t) h (Some d) q True)) =
         (case sizeoffunc f of Some sz \<Rightarrow> sz d | None \<Rightarrow> msize h) \<and>
       Data (CreateMessage (table_xdr t) h (Some d) q True) =
         (case clonefunc f of Some clone \<Rightarrow> clone d | None \<Rightarrow> None))"

lemma get_ftrow_first: "ft_scan i ty sub (ft_rows t) = Some r \<Longrightarrow> playerxdr_get_ftrow t i ty sub = Some r"
  by (simp add: get_ftrow_scan)

lemma get_own_serves:
  assumes "get_own t f = Some f"
  shows "served_by t f"
proof -
  have "get_sizeoffunc (table_xdr t) (ft_interf f) (ft_type f) (ft_subtype f) = sizeoffunc f"
    "get_clonefunc (table_xdr t) (ft_interf f) (ft_type f) (ft_subtype f) = clonefunc f"
    using assms by (simp_all add: table_xdr_def playerxdr_get_sizeoffunc_def playerxdr_get_clonefunc_def)
  with assms show ?thesis
    by (auto simp: served_by_def playerxdr_get_packfunc_def CreateMessage_def Let_def split: option.split)
qed

text \<open>A row covers the messages of its type and subtype for its interface; interface 0 covers every interface.\<close>

definition covers :: "u16 \<Rightarrow> u8 \<Rightarrow> u8 \<Rightarrow> ('p, 'd) xdr_function \<Rightarrow> bool" where
  "covers i ty sub r \<longleftrightarrow> ft_interf r \<in> {i, 0} \<and> ft_type r = ty \<and> ft_subtype r = sub"

lemma ft_scan_covers: "ft_scan i ty sub rs = find (covers i ty sub) rs"
  by (induction rs) (auto simp: covers_def)

text \<open>C39: Registering without replacing.  When a list of functions has been added to the table with success, the lookup of any
  signature finds the first row, of those that were there followed by those of the list, that covers it; for a reply that no
  row covers it finds the first row that covers the request of that subtype, and else none.  Every row of the list is the one
  found for its own signature: its pack, clone and size functions are the ones of its messages, so a message built with such a
  header has the size the row's size function gives and a copy made by its clone function.  A lookup that found a row before
  still finds the same row, unless the list holds a row for the replies of every interface.\<close>

theorem registered_functions_found:
  assumes "ft_ok t" and "playerxdr_ftable_add_multi fs False t = (0, t')"
  shows "(\<forall>i ty sub. playerxdr_get_ftrow t' i ty sub =
        (case find (covers i ty sub) (ft_rows t @ ft_list fs) of
           Some r \<Rightarrow> Some r
         | None \<Rightarrow> if reply_type ty then find (covers i MSGTYPE_REQ sub) (ft_rows t @ ft_list fs) else None)) \<and>
    list_all (served_by t') (ft_list fs) \<and>
    (list_all (\<lambda>f. \<not> (ft_interf f = 0 \<and> reply_type (ft_type f))) (ft_list fs) \<longrightarrow>
      (\<forall>i ty sub r. playerxdr_get_ftrow t i ty sub = Some r \<longrightarrow> playerxdr_get_ftrow t' i ty sub = Some r))"
proof -
  note ok = ftable_add_multi_ok [OF assms]
  then have "playerxdr_get_ftrow t' i ty sub =
        (case find (covers i ty sub) (ft_rows t @ ft_list fs) of
           Some r \<Rightarrow> Some r
         | None \<Rightarrow> if reply_type ty then find (covers i MSGTYPE_REQ sub) (ft_rows t @ ft_list fs) else None)" for i ty sub
    by (auto simp: get_ftrow_scan ft_scan_covers split: option.split)
  moreover have "list_all (served_by t') (ft_list fs)" unfolding list_all_iff using ok by (intro ballI get_own_serves get_ftrow_first) blast
  ultimately show ?thesis using ok by blast
qed

theorem registered_functions_found_witness:
  "let row = (\<lambda>i ty sub p sz. \<lparr>ft_interf = i, ft_type = ty, ft_subtype = sub, packfunc = Some p, copyfunc = None,
       cleanupfunc = None, clonefunc = Some Some, freefunc = None, sizeoffunc = Some (\<lambda>d. sz)\<rparr> :: (nat, nat) xdr_function);
       t = playerxdr_ftable_init [row 0 3 255 1 8] None;
       t' = snd (playerxdr_ftable_add_multi [row 4 1 1 2 40, row 4 3 1 3 12] False t)
   in playerxdr_get_packfunc t' 4 3 1 = Some 3 \<and> playerxdr_get_packfunc t' 4 4 1 = Some 3 \<and>
      playerxdr_get_packfunc t' 4 4 255 = Some 1 \<and> list_all (served_by t') [row 4 1 1 2 40, row 4 3 1 3 12]"
proof -
  let ?row = "\<lambda>i ty sub p sz. \<lparr>ft_interf = i, ft_type = ty, ft_subtype = sub, packfunc = Some p, copyfunc = None,
       cleanupfunc = None, clonefunc = Some Some, freefunc = None, sizeoffunc = Some (\<lambda>d. sz)\<rparr> :: (nat, nat) xdr_function"
  let ?t = "Some [?row 0 3 255 1 8]" and ?fs = "[?row 4 1 1 2 40, ?row 4 3 1 3 12]"
  have i: "playerxdr_ftable_init [?row 0 3 255 1 8] None = ?t"
    by (simp add: playerxdr_ftable_init_def)
  have ok: "ft_ok ?t" by (simp add: ft_ok_def)
  have a: "playerxdr_ftable_add_multi ?fs False ?t = (0, Some (?row 0 3 255 1 8 # ?fs))"
    by (simp add: playerxdr_ftable_add_def playerxdr_get_packfunc_def get_ftrow_scan)
  from registered_functions_found [OF ok a]
  show ?thesis unfolding Let_def i a by (simp add: playerxdr_get_packfunc_def get_ftrow_scan)
qed

end
