(* ===== verification/InterfaceTable.thy ===== *)
theory InterfaceTable
  imports DeviceTable
begin

text \<open>
  The table of interface names and codes and the names of the message types, \<open>libplayerinterface/interface_util.c\<close>.  The
  array \<open>interfaces\<close>, which the build generates, is an argument of \<open>itable_init\<close>.
\<close>

section \<open>State\<close>

record player_interface =
  pi_interf :: u16
  pi_name :: string

text \<open>The static pointer \<open>itable\<close> and the static \<open>itable_len\<close>, which are set separately: a null pointer, an array, or an array
  that has been freed.\<close>

datatype itable_ptr = NoTable | Entries "player_interface list" | Freed

record interface_table =
  itable :: itable_ptr
  itable_len :: nat

definition itable_unset :: interface_table where
  "itable_unset = \<lparr>itable = NoTable, itable_len = 0\<rparr>"

abbreviation NOINTERF :: u16 where "NOINTERF \<equiv> 0xFFFF"

text \<open>What a loop over all entries reads; without entries the pointer is not followed.\<close>

definition itable_entries :: "interface_table \<Rightarrow> player_interface list outcome" where
  "itable_entries t =
     (if itable_len t = 0 then Inr []
      else
        case itable t of
          NoTable \<Rightarrow> Inl NullDeref
        | Freed \<Rightarrow> Inl UseAfterFree
        | Entries es \<Rightarrow> if itable_len t \<le> length es then Inr (take (itable_len t) es) else Inl OutOfBounds)"

section \<open>Operations\<close>

definition itable_init :: "player_interface list \<Rightarrow> interface_table \<Rightarrow> int \<times> interface_table" where
  "itable_init interfaces t =
     (if itable t \<noteq> NoTable then (0, t)
      else
        (let es = takeWhile (\<lambda>e. pi_interf e \<noteq> 0) interfaces
         in (0, t\<lparr>itable := Entries es, itable_len := length es\<rparr>)))"

text \<open>\<open>snprintf(name, 12, "nointerf%d", ii)\<close>\<close>

fun decimal :: "nat \<Rightarrow> string" where
  "decimal n = (if n < 10 then [char_of (48 + n)] else decimal (n div 10) @ [char_of (48 + n mod 10)])"

declare decimal.simps [simp del]

definition nointerf :: "nat \<Rightarrow> player_interface" where
  "nointerf ii = \<lparr>pi_interf = NOINTERF, pi_name = take 11 (''nointerf'' @ decimal ii)\<rparr>"

text \<open>A size that is not positive becomes 0 or a size no allocation can have: \<open>realloc\<close> returns a null pointer, which replaces
  the table.  Growing from a null pointer that already has a length leaves entries that were never set.\<close>

definition itable_grow :: "int \<Rightarrow> interface_table \<Rightarrow> (int \<times> interface_table) outcome" where
  "itable_grow newSize t =
     (if itable t = Freed then Inl UseAfterFree
      else if newSize \<le> 0 then Inr (- 1, t\<lparr>itable := NoTable\<rparr>)
      else
        case itable t of
          Entries es \<Rightarrow>
            Inr (0, t\<lparr>itable := Entries (take (nat newSize) es @ map nointerf [itable_len t ..< nat newSize]),
                      itable_len := nat newSize\<rparr>)
        | _ \<Rightarrow>
            if itable_len t > 0 then Inl Uninitialised
            else Inr (0, t\<lparr>itable := Entries (map nointerf [0 ..< nat newSize]), itable_len := nat newSize\<rparr>))"

definition itable_destroy :: "interface_table \<Rightarrow> interface_table outcome" where
  "itable_destroy t =
     bindo (itable_entries t) (\<lambda>_.
       case itable t of
         NoTable \<Rightarrow> Inr t
       | Freed \<Rightarrow> Inl UseAfterFree
       | Entries _ \<Rightarrow> Inr (t\<lparr>itable := Freed\<rparr>))"

definition itable_set :: "nat \<Rightarrow> (player_interface \<Rightarrow> player_interface) \<Rightarrow> interface_table \<Rightarrow> interface_table outcome" where
  "itable_set k f t =
     (case itable t of
        NoTable \<Rightarrow> Inl NullDeref
      | Freed \<Rightarrow> Inl UseAfterFree
      | Entries es \<Rightarrow> if k < length es then Inr (t\<lparr>itable := Entries (es[k := f (es ! k)])\<rparr>) else Inl OutOfBounds)"

definition itable_add :: "string \<Rightarrow> u32 \<Rightarrow> bool \<Rightarrow> interface_table \<Rightarrow> (int \<times> interface_table) outcome" where
  "itable_add name code replace t =
     (if unat code < itable_len t then
        (if \<not> replace then Inr (- 1, t)
         else bindo (itable_set (unat code) (pi_name_update (\<lambda>_. name)) t) (\<lambda>t'. Inr (0, t')))
      else
        bindo (itable_grow (sint (code + 1)) t) (\<lambda>(r, t1).
          if r < 0 then Inr (- 1, t1)
          else bindo (itable_set (unat code) (\<lambda>_. \<lparr>pi_interf = ucast code, pi_name = name\<rparr>) t1) (\<lambda>t2. Inr (0, t2))))"

text \<open>The three lookups return the entry they fill in, or its name; \<open>None\<close> stands for -1 and for the null pointer.\<close>

definition itable_lookup :: "string \<Rightarrow> interface_table \<Rightarrow> player_interface option outcome" where
  "itable_lookup name t = bindo (itable_entries t) (\<lambda>es. Inr (find (\<lambda>e. name = pi_name e) es))"

definition itable_lookup_code :: "int \<Rightarrow> interface_table \<Rightarrow> player_interface option outcome" where
  "itable_lookup_code code t = bindo (itable_entries t) (\<lambda>es. Inr (find (\<lambda>e. code = uint (pi_interf e)) es))"

definition itable_lookup_name :: "nat \<Rightarrow> int \<Rightarrow> interface_table \<Rightarrow> string option outcome" where
  "itable_lookup_name startpos code t =
     (if startpos \<ge> itable_len t then Inr None
      else bindo (itable_entries t) (\<lambda>es. Inr (map_option pi_name (find (\<lambda>e. code = uint (pi_interf e)) (drop startpos es)))))"

definition interf_to_str :: "u16 \<Rightarrow> interface_table \<Rightarrow> string outcome" where
  "interf_to_str code t =
     (if unat code < itable_len t then
        bindo (itable_entries t) (\<lambda>es.
          if pi_interf (es ! unat code) \<noteq> NOINTERF then Inr (pi_name (es ! unat code)) else Inr ''unknown'')
      else Inr ''unknown'')"

definition itable_str_to_interf :: "string \<Rightarrow> interface_table \<Rightarrow> u16 outcome" where
  "itable_str_to_interf name t =
     bindo (itable_entries t) (\<lambda>es.
       Inr (case find (\<lambda>e. name = pi_name e) es of Some e \<Rightarrow> pi_interf e | None \<Rightarrow> NOINTERF))"

section \<open>Message types\<close>

definition msgTypeStrTable :: "string list" where
  "msgTypeStrTable = ['''', ''data'', ''command'', ''request'', ''resp_ack'', ''sync'', ''resp_nack'']"

definition msgtype_to_str :: "u8 \<Rightarrow> string" where
  "msgtype_to_str code = (if code > 0 \<and> code < 7 then msgTypeStrTable ! unat code else ''unknown'')"

definition str_to_msgtype :: "string \<Rightarrow> u8" where
  "str_to_msgtype name =
     (case find (\<lambda>ii. name = msgTypeStrTable ! ii) [1 ..< 7] of Some ii \<Rightarrow> of_nat ii | None \<Rightarrow> 0xFF)"

lemma msgtype_roundtrip: "0 < code \<Longrightarrow> code < 7 \<Longrightarrow> str_to_msgtype (msgtype_to_str code) = code"
proof -
  assume c: "0 < code" "code < 7"
  have n: "[Suc 0 ..< 7] = [1, 2, 3, 4, 5, 6]" by (simp add: upt_rec)
  from c have "unat code \<in> set [1, 2, 3, 4, 5, 6]" by (simp add: word_less_nat_alt) arith
  then have "(word_of_nat (unat code) :: u8) \<in> word_of_nat ` set [1, 2, 3, 4, 5, 6]" by (rule imageI)
  then have "code \<in> {1, 2, 3, 4, 5, 6}" by simp
  then show ?thesis by (auto simp: msgtype_to_str_def str_to_msgtype_def msgTypeStrTable_def n)
qed

section \<open>Well-formed tables\<close>

text \<open>The entry of an interface is at the position of its code; the other positions hold fillers.\<close>

definition itable_ok :: "interface_table \<Rightarrow> bool" where
  "itable_ok t \<longleftrightarrow>
     (case itable t of
        Entries es \<Rightarrow> itable_len t = length es \<and>
          (\<forall>k < length es. pi_interf (es ! k) = of_nat k \<and> k < 65535 \<or> pi_interf (es ! k) = NOINTERF)
      | _ \<Rightarrow> False)"

abbreviation the_entries :: "interface_table \<Rightarrow> player_interface list" where
  "the_entries t \<equiv> (case itable t of Entries es \<Rightarrow> es | _ \<Rightarrow> [])"

lemma itable_okE:
  assumes "itable_ok t"
  obtains es where "itable t = Entries es" "itable_len t = length es" "itable_entries t = Inr es"
    "\<And>k. k < length es \<Longrightarrow> pi_interf (es ! k) = of_nat k \<and> k < 65535 \<or> pi_interf (es ! k) = NOINTERF"
  using assms by (cases "itable t") (auto simp: itable_ok_def itable_entries_def)

definition known :: "interface_table \<Rightarrow> nat \<Rightarrow> bool" where
  "known t k \<longleftrightarrow> k < length (the_entries t) \<and> pi_interf (the_entries t ! k) \<noteq> NOINTERF"

lemma itable_init_ok:
  assumes "\<forall>k < length es. pi_interf (es ! k) = of_nat k \<and> 0 < k \<and> k < 65535 \<or> pi_interf (es ! k) = NOINTERF"
    and "pi_interf e = 0"
  shows "itable_ok (snd (itable_init (es @ e # es') itable_unset))"
    and "the_entries (snd (itable_init (es @ e # es') itable_unset)) = es"
proof -
  have z: "(of_nat k :: u16) \<noteq> 0" if "0 < k" "k < 65535" for k
    using that by (simp add: word_of_nat_eq_0_iff) (auto dest: dvd_imp_le)
  have "pi_interf x \<noteq> 0" if "x \<in> set es" for x
    using assms(1) z that by (fastforce simp: in_set_conv_nth)
  then have "takeWhile (\<lambda>e. pi_interf e \<noteq> 0) (es @ e # es') = es"
    using assms(2) by (simp add: takeWhile_tail takeWhile_append2)
  then show "itable_ok (snd (itable_init (es @ e # es') itable_unset))"
    "the_entries (snd (itable_init (es @ e # es') itable_unset)) = es"
    using assms(1) by (auto simp: itable_init_def itable_unset_def itable_ok_def Let_def)
qed

lemma nointerf_interf [simp]: "pi_interf (nointerf k) = NOINTERF"
  by (simp add: nointerf_def)

text \<open>Adding an interface past the end of the table: fillers up to its position, then its entry.\<close>

lemma itable_add_new:
  assumes ok: "itable_ok t" and code: "itable_len t \<le> unat code" "unat code < 65535"
  shows "\<exists>t'. itable_add name code replace t = Inr (0, t') \<and> itable_ok t' \<and>
    the_entries t' = the_entries t @ map nointerf [length (the_entries t) ..< unat code] @
      [\<lparr>pi_interf = ucast code, pi_name = name\<rparr>]"
proof -
  obtain es where es: "itable t = Entries es" using ok by (auto simp: itable_ok_def split: itable_ptr.splits)
  with ok have es: "itable t = Entries es" "itable_len t = length es"
    and k: "\<forall>k < length es. pi_interf (es ! k) = of_nat k \<and> k < 65535 \<or> pi_interf (es ! k) = NOINTERF"
    by (simp_all add: itable_ok_def)
  define n where "n = unat code"
  note c = code [folded n_def]
  have "sint (word_of_nat (Suc m) :: u32) = int (Suc m)" if "m < 65535" for m
    using that by (simp only: signed_of_nat) (simp add: signed_take_bit_int_eq_self)
  from this [OF c(2)] have s: "sint (code + 1) = int (Suc n)" by (simp add: add.commute n_def)
  let ?es = "es @ map nointerf [length es ..< Suc n]"
  have g: "itable_grow (sint (code + 1)) t = Inr (0, t\<lparr>itable := Entries ?es, itable_len := Suc n\<rparr>)"
    unfolding itable_grow_def s nat_int using c es by (simp del: upt_Suc)
  have up: "?es[n := x] = es @ map nointerf [length es ..< n] @ [x]" for x
    using c es by (simp add: list_update_append)
  have u: "(ucast code :: u16) = of_nat n" by (simp add: n_def)
  let ?t' = "t\<lparr>itable := Entries (es @ map nointerf [length es ..< n] @ [\<lparr>pi_interf = ucast code, pi_name = name\<rparr>]), itable_len := Suc n\<rparr>"
  have "itable_set n (\<lambda>_. \<lparr>pi_interf = ucast code, pi_name = name\<rparr>) (t\<lparr>itable := Entries ?es, itable_len := Suc n\<rparr>) = Inr ?t'"
    using c es by (simp add: itable_set_def up del: upt_Suc)
  then have "itable_add name code replace t = Inr (0, ?t')"
    using c es by (simp add: itable_add_def g n_def [symmetric])
  moreover have "itable_ok ?t'"
    using c es k by (auto simp: itable_ok_def nth_append u less_Suc_eq)
  ultimately show ?thesis using es by (simp add: n_def)
qed

section \<open>Lookups\<close>

lemma lookups_simps:
  assumes "itable_ok t"
  shows "itable_lookup name t = Inr (find (\<lambda>e. name = pi_name e) (the_entries t))"
    and "itable_lookup_code c t = Inr (find (\<lambda>e. c = uint (pi_interf e)) (the_entries t))"
    and "interf_to_str code t = Inr (if known t (unat code) then pi_name (the_entries t ! unat code) else ''unknown'')"
    and "itable_str_to_interf name t =
      Inr (case find (\<lambda>e. name = pi_name e) (the_entries t) of Some e \<Rightarrow> pi_interf e | None \<Rightarrow> NOINTERF)"
  by (rule itable_okE [OF assms];
      auto simp: itable_lookup_def itable_lookup_code_def interf_to_str_def itable_str_to_interf_def known_def)+

lemma find_fillers: "find (\<lambda>e. c = uint (pi_interf e)) (map nointerf ks) = (if c = 65535 \<and> ks \<noteq> [] then Some (nointerf (hd ks)) else None)"
  by (cases ks) (auto simp: find_None_iff)

lemma find_append: "find P (xs @ ys) = (case find P xs of Some x \<Rightarrow> Some x | None \<Rightarrow> find P ys)"
  by (induction xs) auto

text \<open>With distinct names the two directions agree on the known interfaces.\<close>

lemma itable_names_roundtrip:
  assumes ok: "itable_ok t" and d: "distinct (map pi_name (the_entries t))" and k: "known t (unat code)"
  shows "bindo (interf_to_str code t) (\<lambda>name. itable_str_to_interf name t) = Inr code"
proof -
  let ?es = "the_entries t"
  have b: "unat code < length ?es" using k by (simp add: known_def)
  have "pi_interf (?es ! unat code) = code"
    using ok k by (auto simp: itable_ok_def known_def split: itable_ptr.splits)
  moreover have "find (\<lambda>e. pi_name (?es ! unat code) = pi_name e) ?es = Some (?es ! unat code)"
    using b d by (subst find_Some_iff) (auto simp: nth_eq_iff_index_eq distinct_conv_nth)
  ultimately show ?thesis using k by (simp add: lookups_simps [OF ok])
qed

text \<open>The configuration file reads interface names through this table.\<close>

lemma str_to_interf_table:
  assumes "itable_ok t" and "\<And>name. lookup_interface ae name = map_option pi_interf (find (\<lambda>e. name = pi_name e) (the_entries t))"
  shows "itable_str_to_interf name t = Inr (str_to_interf ae name)"
  using assms by (simp add: lookups_simps str_to_interf_def split: option.split)

section \<open>Adding an interface\<close>

text \<open>A position below the length that holds no interface: without replacing the interface is refused as present, with replacing
  it is reported as added and stays unknown in both directions.\<close>

lemma itable_add_gap:
  assumes ok: "itable_ok t" and c: "unat code < length (the_entries t)" "\<not> known t (unat code)" "unat code < 65536"
    and n: "name \<notin> pi_name ` set (the_entries t)"
  shows "itable_add name code False t = Inr (- 1, t)"
    and "\<exists>t'. itable_add name code True t = Inr (0, t') \<and> interf_to_str (ucast code) t' = Inr ''unknown'' \<and>
      itable_str_to_interf name t' = Inr NOINTERF"
proof -
  obtain es where "itable t = Entries es" using ok by (auto simp: itable_ok_def split: itable_ptr.splits)
  with ok have es: "itable t = Entries es" "itable_len t = length es"
    and k: "\<forall>k < length es. pi_interf (es ! k) = of_nat k \<and> k < 65535 \<or> pi_interf (es ! k) = NOINTERF"
    by (simp_all add: itable_ok_def)
  from c es have f: "pi_interf (es ! unat code) = NOINTERF" "unat code < length es" by (simp_all add: known_def)
  show "itable_add name code False t = Inr (- 1, t)" using c es by (simp add: itable_add_def)
  let ?e = "pi_name_update (\<lambda>_. name) (es ! unat code)"
  let ?t = "t\<lparr>itable := Entries (es[unat code := ?e])\<rparr>"
  have a: "itable_add name code True t = Inr (0, ?t)"
    using c es f by (simp add: itable_add_def itable_set_def)
  have ok': "itable_ok ?t" using es k f by (auto simp: itable_ok_def nth_list_update)
  have "pi_interf e = NOINTERF" if "find (\<lambda>e. name = pi_name e) (es[unat code := ?e]) = Some e" for e
  proof -
    from that have e: "e \<in> set (es[unat code := ?e])" "pi_name e = name" by (auto simp: find_Some_iff)
    then have "e = ?e" using n es set_update_subset_insert by fastforce
    with f show ?thesis by simp
  qed
  then have "itable_str_to_interf name ?t = Inr NOINTERF"
    by (auto simp: lookups_simps [OF ok'] split: option.split)
  moreover have "\<not> known ?t (unat (ucast code :: u16))"
  proof -
    have "unat (ucast code :: u16) = unat code" using c(3) by (simp add: unsigned_ucast_eq take_bit_nat_eq_self)
    with f show ?thesis by (simp add: known_def)
  qed
  then have "interf_to_str (ucast code) ?t = Inr ''unknown''" by (simp add: lookups_simps [OF ok'])
  ultimately show "\<exists>t'. itable_add name code True t = Inr (0, t') \<and> interf_to_str (ucast code) t' = Inr ''unknown'' \<and>
      itable_str_to_interf name t' = Inr NOINTERF" using a by blast
qed

text \<open>An interface past the end of the table.\<close>

lemma itable_add_new_ok:
  assumes ok: "itable_ok t" and c: "itable_len t \<le> unat code" "unat code < 65535"
    and n: "name \<notin> pi_name ` set (the_entries t)" "\<And>k. name \<noteq> pi_name (nointerf k)"
  shows "\<exists>t'. itable_add name code replace t = Inr (0, t') \<and> itable_ok t' \<and>
    interf_to_str (ucast code) t' = Inr name \<and> itable_str_to_interf name t' = Inr (ucast code) \<and>
    itable_lookup_code (uint code) t' = Inr (Some \<lparr>pi_interf = ucast code, pi_name = name\<rparr>) \<and>
    (\<forall>c'. unat c' \<noteq> unat code \<longrightarrow> interf_to_str c' t' = interf_to_str c' t) \<and>
    (\<forall>name'. name' \<noteq> name \<longrightarrow> itable_str_to_interf name' t' = itable_str_to_interf name' t)"
proof -
  let ?x = "\<lparr>pi_interf = ucast code, pi_name = name\<rparr>" and ?es = "the_entries t"
  let ?fill = "map nointerf [length ?es ..< unat code]"
  obtain t' where a: "itable_add name code replace t = Inr (0, t')" and ok': "itable_ok t'"
    and es': "the_entries t' = ?es @ ?fill @ [?x]"
    using itable_add_new [OF ok c] by blast
  have len: "itable_len t = length ?es" and
    k: "\<And>k. k < length ?es \<Longrightarrow> pi_interf (?es ! k) = of_nat k \<and> k < 65535 \<or> pi_interf (?es ! k) = NOINTERF"
    using ok by (auto simp: itable_ok_def split: itable_ptr.splits)
  have u: "unat (ucast code :: u16) = unat code" using c(2) by (simp add: unsigned_ucast_eq take_bit_nat_eq_self)
  have ne1: "(ucast code :: u16) \<noteq> NOINTERF"
  proof
    assume "(ucast code :: u16) = NOINTERF"
    then have "unat (ucast code :: u16) = 65535" by simp
    with u c(2) show False by linarith
  qed
  have ne2: "uint (ucast code :: u16) = uint code" using u by (simp only: uint_nat)
  note ne = ne1 ne2
  have nx: "known t' j \<longleftrightarrow> known t j \<or> j = unat code" for j
    using c ne len by (auto simp: known_def es' nth_append)
  have other: "interf_to_str c' t' = interf_to_str c' t" if "unat c' \<noteq> unat code" for c'
    using that nx [of "unat c'"] by (auto simp: lookups_simps [OF ok] lookups_simps [OF ok'] es' nth_append known_def)
  have none: "find (\<lambda>e. name = pi_name e) ?es = None" "find (\<lambda>e. name = pi_name e) ?fill = None"
    using n by (auto simp: find_None_iff)
  have "pi_interf e \<noteq> ucast code" if "e \<in> set ?es \<union> set ?fill" for e
  proof (cases "e \<in> set ?es")
    case True
    then obtain j where j: "j < length ?es" "e = ?es ! j" unfolding in_set_conv_nth by metis
    from k [OF j(1)] show ?thesis
    proof
      assume "pi_interf (?es ! j) = of_nat j \<and> j < 65535"
      then have "unat (pi_interf e) = j" using j(2) by (simp add: unat_of_nat take_bit_nat_eq_self)
      with u j(1) c(1) len show ?thesis by auto
    qed (use ne j in auto)
  qed (use that ne in auto)
  then have "\<forall>e \<in> set (?es @ ?fill). uint code \<noteq> uint (pi_interf e)"
    unfolding ne2 [symmetric] word_uint_eq_iff [symmetric] set_append by metis
  then have "find (\<lambda>e. uint code = uint (pi_interf e)) (?es @ ?fill) = None"
    unfolding find_None_iff by blast
  then have "find (\<lambda>e. uint code = uint (pi_interf e)) (the_entries t') = Some ?x"
    unfolding es' append_assoc [symmetric] by (subst find_append) (simp add: ne)
  moreover have "itable_str_to_interf name' t' = itable_str_to_interf name' t" if "name' \<noteq> name" for name'
  proof -
    have "pi_interf e = NOINTERF" if "find (\<lambda>e. name' = pi_name e) ?fill = Some e" for e
      using that by (auto simp: find_Some_iff)
    with that show ?thesis
      by (auto simp: lookups_simps [OF ok] lookups_simps [OF ok'] es' find_append split: option.split)
  qed
  moreover have "interf_to_str (ucast code) t' = Inr name"
    using nx c len u by (simp add: lookups_simps [OF ok'] es' nth_append)
  moreover have "itable_str_to_interf name t' = Inr (ucast code)"
    using none by (simp add: lookups_simps [OF ok'] es' find_append)
  ultimately show ?thesis using a ok' other by (auto simp: lookups_simps [OF ok'])
qed

text \<open>A replacing addition under a new name renames the interface that has the code.\<close>

lemma itable_rename_ok:
  assumes ok: "itable_ok t" and k: "known t (unat code)" and n: "name \<notin> pi_name ` set (the_entries t)"
  shows "\<exists>t'. itable_add name code True t = Inr (0, t') \<and> itable_ok t' \<and>
    interf_to_str (ucast code) t' = Inr name \<and> itable_str_to_interf name t' = Inr (ucast code) \<and>
    itable_lookup_code (uint code) t' = Inr (Some \<lparr>pi_interf = ucast code, pi_name = name\<rparr>) \<and>
    (\<forall>c'. unat c' \<noteq> unat code \<longrightarrow> interf_to_str c' t' = interf_to_str c' t) \<and>
    (\<forall>name'. name' \<noteq> name \<longrightarrow> name' \<noteq> pi_name (the_entries t ! unat code) \<longrightarrow>
       itable_str_to_interf name' t' = itable_str_to_interf name' t)"
proof -
  obtain es where it: "itable t = Entries es" using ok by (auto simp: itable_ok_def split: itable_ptr.splits)
  let ?es = es and ?k = "unat code" and ?x = "\<lparr>pi_interf = ucast code, pi_name = name\<rparr>"
  have te: "the_entries t = ?es" by (simp add: it)
  from ok it have es: "itable_len t = length ?es"
    and pos: "\<And>j. j < length ?es \<Longrightarrow> pi_interf (?es ! j) = of_nat j \<and> j < 65535 \<or> pi_interf (?es ! j) = NOINTERF"
    by (simp_all add: itable_ok_def)
  note n = n [unfolded te]
  from k have b: "?k < length ?es" "pi_interf (?es ! ?k) \<noteq> NOINTERF" by (simp_all add: known_def te)
  with pos [of ?k] have p: "pi_interf (?es ! ?k) = of_nat ?k" "?k < 65535" by auto
  have u: "unat (ucast code :: u16) = ?k" using p(2) by (simp add: unsigned_ucast_eq take_bit_nat_eq_self)
  have pc: "pi_interf (?es ! ?k) = ucast code" using p(1) by simp
  let ?t = "t\<lparr>itable := Entries (?es[?k := ?x])\<rparr>"
  have "pi_name_update (\<lambda>_. name) (?es ! ?k) = ?x" using pc by (cases "?es ! ?k") simp
  then have a: "itable_add name code True t = Inr (0, ?t)" using it es b by (simp add: itable_add_def itable_set_def)
  have "pi_interf (?es[?k := ?x] ! j) = pi_interf (?es ! j)" if "j < length ?es" for j
    using that pc by (cases "j = ?k") simp_all
  then have ok': "itable_ok ?t" using es pos by (simp add: itable_ok_def)
  have kn: "known ?t j = known t j" for j using b pc by (cases "j = ?k") (auto simp: known_def te)
  have split: "?es = take ?k ?es @ ?es ! ?k # drop (Suc ?k) ?es" by (rule id_take_nth_drop [OF b(1)])
  have upd: "?es[?k := ?x] = take ?k ?es @ ?x # drop (Suc ?k) ?es" by (rule upd_conv_take_nth_drop [OF b(1)])
  have str: "interf_to_str c' ?t = Inr (if unat c' = ?k then name else if known t (unat c') then pi_name (?es ! unat c') else ''unknown'')" for c'
    using k b(2) [unfolded pc] by (auto simp: lookups_simps [OF ok'] kn nth_list_update known_def te)
  have "find (\<lambda>e. name = pi_name e) (take ?k ?es) = None" using n by (auto simp: find_None_iff dest: in_set_takeD)
  then have nm: "itable_str_to_interf name ?t = Inr (ucast code)"
    unfolding lookups_simps [OF ok'] by (simp add: upd find_append)
  have "uint code \<noteq> uint (pi_interf e)" if "e \<in> set (take ?k ?es)" for e
  proof -
    from that obtain j where j: "j < length (take ?k ?es)" "take ?k ?es ! j = e" unfolding in_set_conv_nth by blast
    then have j': "j < ?k" "j < length ?es" "e = ?es ! j" using b(1) by simp_all
    have "unat (pi_interf (?es ! j)) \<noteq> ?k"
      using pos [OF j'(2)]
    proof
      assume "pi_interf (?es ! j) = of_nat j \<and> j < 65535"
      with j'(1) show ?thesis by (simp add: unat_of_nat take_bit_nat_eq_self)
    next
      assume "pi_interf (?es ! j) = NOINTERF"
      with p(2) show ?thesis by simp
    qed
    then show ?thesis unfolding j'(3) by (metis nat_uint_eq)
  qed
  then have "find (\<lambda>e. uint code = uint (pi_interf e)) (take ?k ?es) = None" by (auto simp: find_None_iff)
  moreover have "uint (ucast code :: u16) = uint code" using u by (simp only: uint_nat)
  ultimately have lc: "itable_lookup_code (uint code) ?t = Inr (Some ?x)"
    unfolding lookups_simps [OF ok'] by (simp add: upd find_append)
  have "find P (?es[?k := ?x]) = find P ?es" if "\<not> P ?x" "\<not> P (?es ! ?k)" for P
  proof -
    have "find P (?es[?k := ?x]) = find P (take ?k ?es @ drop (Suc ?k) ?es)"
      unfolding upd using that(1) by (simp only: find_append find.simps if_False)
    also have "\<dots> = find P (take ?k ?es @ ?es ! ?k # drop (Suc ?k) ?es)"
      using that(2) by (simp only: find_append find.simps if_False)
    finally show ?thesis unfolding split [symmetric] .
  qed
  then have oth: "itable_str_to_interf name' ?t = itable_str_to_interf name' t"
    if "name' \<noteq> name" "name' \<noteq> pi_name (?es ! ?k)" for name'
    using that by (simp add: lookups_simps [OF ok, unfolded te] lookups_simps [OF ok'])
  have oc: "interf_to_str c' ?t = interf_to_str c' t" if "unat c' \<noteq> ?k" for c'
    using that by (simp add: str lookups_simps [OF ok, unfolded te])
  show ?thesis unfolding te using a ok' str [of "ucast code"] u nm lc oth oc by (intro exI [of _ ?t]) simp
qed

text \<open>C40: An interface can be added under a new name, not that of a placeholder, if its code lies past the end of the table and below 65535, and it can be
  renamed, by adding it with the flag that allows replacing, if the table knows its code.  Then its code is printed as its
  name, its name is read as its code and the lookup by code finds it.  Every other code prints as before, every name but the
  new one and the one it replaces is read as before, and the table stays in the order of the codes.  (A code below the length
  that no interface has cannot be added.)\<close>

theorem itable_add_roundtrip:
  assumes ok: "itable_ok t"
    and c: "itable_len t \<le> unat code \<and> unat code < 65535 \<or> replace \<and> known t (unat code)"
    and n: "name \<notin> pi_name ` set (the_entries t)" "\<And>k. name \<noteq> pi_name (nointerf k)"
  shows "\<exists>t'. itable_add name code replace t = Inr (0, t') \<and> itable_ok t' \<and>
    interf_to_str (ucast code) t' = Inr name \<and> itable_str_to_interf name t' = Inr (ucast code) \<and>
    itable_lookup_code (uint code) t' = Inr (Some \<lparr>pi_interf = ucast code, pi_name = name\<rparr>) \<and>
    (\<forall>c'. unat c' \<noteq> unat code \<longrightarrow> interf_to_str c' t' = interf_to_str c' t) \<and>
    (\<forall>name'. name' \<noteq> name \<longrightarrow> \<not> (known t (unat code) \<and> name' = pi_name (the_entries t ! unat code)) \<longrightarrow>
       itable_str_to_interf name' t' = itable_str_to_interf name' t)"
proof (cases "known t (unat code)")
  case True
  with ok c have "replace" by (auto simp: known_def itable_ok_def split: itable_ptr.splits)
  with itable_rename_ok [OF ok True n(1)] True show ?thesis by auto
next
  case False
  with c have "itable_len t \<le> unat code" "unat code < 65535" by auto
  from itable_add_new_ok [OF ok this n, of replace] False show ?thesis by auto
qed

theorem itable_add_roundtrip_witness:
  "let t = snd (itable_init [nointerf 0, \<lparr>pi_interf = 1, pi_name = ''player''\<rparr>, \<lparr>pi_interf = 2, pi_name = ''power''\<rparr>,
         \<lparr>pi_interf = 0, pi_name = []\<rparr>] itable_unset)
   in \<exists>t'. itable_add ''eyes'' 4 False t = Inr (0, t') \<and> interf_to_str 4 t' = Inr ''eyes'' \<and>
     itable_str_to_interf ''eyes'' t' = Inr 4 \<and> interf_to_str 3 t' = Inr ''unknown'' \<and> interf_to_str 2 t' = Inr ''power''"
proof -
  let ?es = "[nointerf 0, \<lparr>pi_interf = 1, pi_name = ''player''\<rparr>, \<lparr>pi_interf = 2, pi_name = ''power''\<rparr>]"
  define t where "t = itable_unset\<lparr>itable := Entries ?es, itable_len := 3\<rparr>"
  have i: "snd (itable_init (?es @ [\<lparr>pi_interf = 0, pi_name = []\<rparr>]) itable_unset) = t"
    by (simp add: itable_init_def itable_unset_def t_def)
  have ok: "itable_ok t" by (auto simp: t_def itable_ok_def less_Suc_eq numeral_3_eq_3)
  have "''eyes'' \<noteq> pi_name (nointerf k)" for k by (simp add: nointerf_def)
  with itable_add_roundtrip [OF ok, where code = 4 and name = "''eyes''" and replace = False]
  obtain t' where t': "itable_add ''eyes'' 4 False t = Inr (0, t')" "interf_to_str 4 t' = Inr ''eyes''"
    "itable_str_to_interf ''eyes'' t' = Inr 4" "\<forall>c'. unat c' \<noteq> 4 \<longrightarrow> interf_to_str c' t' = interf_to_str c' t"
    by (auto simp: t_def nointerf_def)
  have "interf_to_str 3 t = Inr ''unknown''" "interf_to_str 2 t = Inr ''power''"
    by (simp_all add: lookups_simps [OF ok] known_def) (simp_all add: t_def)
  with t' i show ?thesis by (auto simp: Let_def intro!: exI [of _ t'])
qed

text \<open>The table that \<open>itable_destroy\<close> leaves cannot be initialised again.\<close>

lemma itable_init_after_destroy:
  assumes "itable_ok t" "0 < itable_len t" "itable_destroy t = Inr t1" "itable_init es t1 = (r, t2)"
  shows "r = 0 \<and> itable_lookup name t2 = Inl UseAfterFree"
  using assms by (auto simp: itable_ok_def itable_destroy_def itable_init_def itable_lookup_def itable_entries_def
      bindo_Inl_iff split: itable_ptr.splits)

end
