(* ===== verification/PlanHeap.thy ===== *)
theory PlanHeap
  imports Prelude
begin

text \<open>
  The priority queue of the wavefront planner, \<open>server/drivers/planner/wavefront/heap.c\<close>: a binary heap in two arrays, with
  the largest key on top.  The element after \<open>i\<close> levels is not where the literature puts it: the children of position \<open>i\<close> are
  \<open>2 i\<close> and \<open>2 i + 1\<close> in arrays that start at 0, so position 0 has the single child 1.
\<close>

section \<open>The interface of a priority queue\<close>

text \<open>What the planner needs of its queue: \<open>put\<close> adds an item, \<open>get\<close> takes out one whose key no other exceeds.\<close>

locale max_queue =
  fixes ok :: "'q \<Rightarrow> bool" and items :: "'q \<Rightarrow> (real \<times> 'd) multiset"
    and put :: "real \<Rightarrow> 'd \<Rightarrow> 'q \<Rightarrow> 'q outcome" and get :: "'q \<Rightarrow> ('d \<times> 'q) outcome"
  assumes put_ok: "ok q \<Longrightarrow> \<exists>q'. put k d q = Inr q' \<and> ok q' \<and> items q' = add_mset (k, d) (items q)"
    and get_ok: "ok q \<Longrightarrow> items q \<noteq> {#} \<Longrightarrow>
      \<exists>k d q'. get q = Inr (d, q') \<and> ok q' \<and> items q = add_mset (k, d) (items q') \<and> (\<forall>(k', d') \<in># items q. k' \<le> k)"
begin

lemma put_Inr: "ok q \<Longrightarrow> put k d q = Inr q' \<Longrightarrow> ok q' \<and> items q' = add_mset (k, d) (items q)"
  using put_ok [of q k d] by auto

lemma get_Inr:
  assumes "ok q" "items q \<noteq> {#}" "get q = Inr (d, q')"
  obtains k where "ok q'" "items q = add_mset (k, d) (items q')" "\<And>k' d'. (k', d') \<in># items q' \<Longrightarrow> k' \<le> k"
  using get_ok [OF assms(1,2)] assms(3) by fastforce

end

section \<open>The heap\<close>

text \<open>The used parts of the arrays \<open>A\<close> and \<open>data\<close>, side by side; \<open>len\<close> is their length, \<open>heap_size\<close> the length of the arrays.\<close>

record 'd heap =
  elts :: "(real \<times> 'd) list"
  heap_size :: nat

abbreviation HEAP_PARENT :: "nat \<Rightarrow> nat" where "HEAP_PARENT i \<equiv> i div 2"
abbreviation HEAP_LEFT :: "nat \<Rightarrow> nat" where "HEAP_LEFT i \<equiv> 2 * i"
abbreviation HEAP_RIGHT :: "nat \<Rightarrow> nat" where "HEAP_RIGHT i \<equiv> 2 * i + 1"

definition heap_alloc :: "nat \<Rightarrow> 'd heap" where
  "heap_alloc n = \<lparr>elts = [], heap_size = n\<rparr>"

definition swap_elts :: "nat \<Rightarrow> nat \<Rightarrow> 'a list \<Rightarrow> 'a list" where
  "swap_elts i j es = es[i := es ! j, j := es ! i]"

definition larger_child :: "nat \<Rightarrow> (real \<times> 'd) list \<Rightarrow> nat" where
  "larger_child i es =
     (let l = HEAP_LEFT i; r = HEAP_RIGHT i;
          largest = (if l < length es \<and> fst (es ! l) > fst (es ! i) then l else i)
      in if r < length es \<and> fst (es ! r) > fst (es ! largest) then r else largest)"

lemma larger_child_bounds: "larger_child i es \<noteq> i \<Longrightarrow> i < larger_child i es \<and> larger_child i es < length es"
  by (cases i) (auto simp: larger_child_def Let_def split: if_splits)

function heap_heapify :: "nat \<Rightarrow> (real \<times> 'd) list \<Rightarrow> (real \<times> 'd) list" where
  "heap_heapify i es =
     (let largest = larger_child i es
      in if largest \<noteq> i then heap_heapify largest (swap_elts i largest es) else es)"
  by auto
termination
  by (relation "measure (\<lambda>(i, es). length es - i)") (auto simp: swap_elts_def dest: larger_child_bounds)

declare heap_heapify.simps [simp del]

definition heap_empty :: "'d heap \<Rightarrow> bool" where
  "heap_empty h \<longleftrightarrow> length (elts h) = 0"

definition heap_extract_max :: "'d heap \<Rightarrow> ('d \<times> 'd heap) outcome" where
  "heap_extract_max h =
     bindo (c_assert (length (elts h) > 0)) (\<lambda>_.
       let n = length (elts h) - 1; es = take n ((elts h)[0 := elts h ! n])
       in Inr (snd (elts h ! 0), h\<lparr>elts := heap_heapify 0 es\<rparr>))"

fun sift_up :: "real \<Rightarrow> nat \<Rightarrow> (real \<times> 'd) list \<Rightarrow> nat \<times> (real \<times> 'd) list" where
  "sift_up key i es =
     (if i > 0 \<and> fst (es ! HEAP_PARENT i) < key
      then sift_up key (HEAP_PARENT i) (es[i := es ! HEAP_PARENT i])
      else (i, es))"

declare sift_up.simps [simp del]

text \<open>An array of size 0 never grows.  The new last position holds anything until the loop writes it.\<close>

definition heap_insert :: "real \<Rightarrow> 'd \<Rightarrow> 'd heap \<Rightarrow> 'd heap outcome" where
  "heap_insert key d h =
     (let n = (if length (elts h) = heap_size h then heap_size h * 2 else heap_size h)
      in if n \<le> length (elts h) then Inl BufferOverflow
         else
           (let (i, es) = sift_up key (length (elts h)) (elts h @ [(key, d)])
            in Inr \<lparr>elts = es[i := (key, d)], heap_size = n\<rparr>))"

definition heap_valid :: "'d heap \<Rightarrow> bool" where
  "heap_valid h \<longleftrightarrow> list_all (\<lambda>i. \<not> fst (elts h ! HEAP_PARENT i) < fst (elts h ! i)) [1 ..< length (elts h)]"

definition heap_reset :: "'d heap \<Rightarrow> 'd heap" where
  "heap_reset h = h\<lparr>elts := []\<rparr>"

text \<open>The elements in the order in which \<open>heap_free\<close> hands them to the function that frees them.\<close>

fun heap_drain :: "nat \<Rightarrow> 'd heap \<Rightarrow> 'd list outcome" where
  "heap_drain 0 h = (if heap_empty h then Inr [] else Inl OutOfFuel)"
| "heap_drain (Suc n) h =
     (if heap_empty h then Inr []
      else bindo (heap_extract_max h) (\<lambda>(d, h'). bindo (heap_drain n h') (\<lambda>ds. Inr (d # ds))))"

definition heap_free :: "bool \<Rightarrow> 'd heap \<Rightarrow> 'd list outcome" where
  "heap_free has_free_fn h = (if has_free_fn then heap_drain (length (elts h)) h else Inr [])"

section \<open>Heap order\<close>

definition ordered_at :: "(real \<times> 'd) list \<Rightarrow> nat \<Rightarrow> bool" where
  "ordered_at es j \<longleftrightarrow> fst (es ! j) \<le> fst (es ! HEAP_PARENT j)"

definition heap_ordered :: "(real \<times> 'd) list \<Rightarrow> bool" where
  "heap_ordered es \<longleftrightarrow> (\<forall>j. 0 < j \<and> j < length es \<longrightarrow> ordered_at es j)"

lemma heap_valid_iff: "heap_valid h \<longleftrightarrow> heap_ordered (elts h)"
  by (force simp: heap_valid_def heap_ordered_def ordered_at_def list_all_iff Suc_le_eq not_less)

lemma heap_ordered_top: "heap_ordered es \<Longrightarrow> j < length es \<Longrightarrow> fst (es ! j) \<le> fst (es ! 0)"
proof (induction j rule: less_induct)
  case (less j)
  show ?case
  proof (cases "j = 0")
    case False
    then have "HEAP_PARENT j < j" by simp
    with less have "fst (es ! HEAP_PARENT j) \<le> fst (es ! 0)" by simp
    moreover have "fst (es ! j) \<le> fst (es ! HEAP_PARENT j)"
      using less False by (simp add: heap_ordered_def ordered_at_def)
    ultimately show ?thesis by simp
  qed simp
qed

lemma length_swap_elts [simp]: "length (swap_elts i j es) = length es"
  by (simp add: swap_elts_def)

lemma nth_swap_elts:
  "i < length es \<Longrightarrow> j < length es \<Longrightarrow>
   swap_elts i j es ! k = (if k = i then es ! j else if k = j then es ! i else es ! k)"
  by (auto simp: swap_elts_def nth_list_update)

lemma mset_swap_elts [simp]: "i < length es \<Longrightarrow> j < length es \<Longrightarrow> mset (swap_elts i j es) = mset es"
  by (simp add: swap_elts_def mset_swap)

text \<open>Everything is in order but the children of \<open>i\<close>, which are not above the parent of \<open>i\<close>.\<close>

definition sinking :: "nat \<Rightarrow> (real \<times> 'd) list \<Rightarrow> bool" where
  "sinking i es \<longleftrightarrow>
     (\<forall>j. 0 < j \<and> j < length es \<longrightarrow>
       (if HEAP_PARENT j = i then 0 < i \<longrightarrow> fst (es ! j) \<le> fst (es ! HEAP_PARENT i) else ordered_at es j))"

lemma heapify_step:
  assumes s: "sinking i es" and l: "larger_child i es \<noteq> i"
  shows "sinking (larger_child i es) (swap_elts i (larger_child i es) es)"
proof -
  let ?c = "larger_child i es"
  have c: "i < ?c" "?c < length es" using larger_child_bounds [OF l] by simp_all
  have p: "HEAP_PARENT ?c = i" and big: "fst (es ! i) < fst (es ! ?c)"
    and max: "\<And>j. 0 < j \<Longrightarrow> j < length es \<Longrightarrow> HEAP_PARENT j = i \<Longrightarrow> fst (es ! j) \<le> fst (es ! ?c)"
  proof -
    show "HEAP_PARENT ?c = i" "fst (es ! i) < fst (es ! ?c)"
      using l by (auto simp: larger_child_def Let_def split: if_splits)
    fix j assume j: "0 < j" "j < length es" "HEAP_PARENT j = i"
    then have "j = HEAP_LEFT i \<or> j = HEAP_RIGHT i" by linarith
    then show "fst (es ! j) \<le> fst (es ! ?c)"
      using l j by (auto simp: larger_child_def Let_def split: if_splits)
  qed
  have il: "i < length es" using c by simp
  show ?thesis
    unfolding sinking_def
  proof (intro allI impI)
    fix j assume j: "0 < j \<and> j < length (swap_elts i ?c es)"
    then have j: "0 < j" "j < length es" by simp_all
    note nth = nth_swap_elts [OF il c(2)]
    have sj: "if HEAP_PARENT j = i then 0 < i \<longrightarrow> fst (es ! j) \<le> fst (es ! HEAP_PARENT i) else ordered_at es j"
      using s j by (simp add: sinking_def)
    show "if HEAP_PARENT j = ?c then 0 < ?c \<longrightarrow> fst (swap_elts i ?c es ! j) \<le> fst (swap_elts i ?c es ! HEAP_PARENT ?c)
      else ordered_at (swap_elts i ?c es) j"
    proof (cases "HEAP_PARENT j = ?c")
      case True
      with c p have "j \<noteq> i" "j \<noteq> ?c" "HEAP_PARENT j \<noteq> i" by auto
      with True sj show ?thesis by (simp add: nth p ordered_at_def)
    next
      case False
      have ci: "fst (es ! ?c) \<le> fst (es ! HEAP_PARENT i)" if "0 < i"
        using s that c p by (auto simp: sinking_def)
      show ?thesis
      proof (cases "j = i")
        case True
        with j ci c sj False show ?thesis by (auto simp: nth ordered_at_def)
      next
        case ji: False
        show ?thesis
        proof (cases "j = ?c")
          case True
          with big p c show ?thesis by (simp add: nth ordered_at_def)
        next
          case False
          show ?thesis
          proof (cases "HEAP_PARENT j = i")
            case True
            with max [OF j True] False ji \<open>HEAP_PARENT j \<noteq> ?c\<close> show ?thesis by (simp add: nth ordered_at_def)
          next
            case pj: False
            with sj False ji \<open>HEAP_PARENT j \<noteq> ?c\<close> show ?thesis by (simp add: nth ordered_at_def)
          qed
        qed
      qed
    qed
  qed
qed

lemma heapify_stop: "sinking i es \<Longrightarrow> larger_child i es = i \<Longrightarrow> i < length es \<or> es = [] \<Longrightarrow> heap_ordered es"
  unfolding heap_ordered_def
proof (intro allI impI)
  fix j assume s: "sinking i es" and l: "larger_child i es = i" and i: "i < length es \<or> es = []" and j: "0 < j \<and> j < length es"
  show "ordered_at es j"
  proof (cases "HEAP_PARENT j = i")
    case True
    with j have "j = HEAP_LEFT i \<or> j = HEAP_RIGHT i" by linarith
    with l j True show ?thesis
      by (auto simp: larger_child_def ordered_at_def Let_def split: if_splits)
  next
    case False
    with s j show ?thesis by (simp add: sinking_def)
  qed
qed

lemma heap_heapify_ok:
  "sinking i es \<Longrightarrow> i < length es \<or> es = [] \<Longrightarrow>
   heap_ordered (heap_heapify i es) \<and> mset (heap_heapify i es) = mset es \<and> length (heap_heapify i es) = length es"
proof (induction i es rule: heap_heapify.induct)
  case (1 i es)
  show ?case
  proof (cases "larger_child i es = i")
    case True
    with 1 show ?thesis by (simp add: heap_heapify.simps [of i es] heapify_stop)
  next
    case False
    note b = larger_child_bounds [OF False]
    from 1(1) [OF refl False heapify_step [OF 1(2) False]] b False show ?thesis
      by (simp add: heap_heapify.simps [of i es] Let_def)
  qed
qed

text \<open>Everything is in order but \<open>i\<close> itself, and the children of \<open>i\<close> are not above its parent.\<close>

definition rising :: "nat \<Rightarrow> (real \<times> 'd) list \<Rightarrow> bool" where
  "rising i es \<longleftrightarrow>
     (\<forall>j. 0 < j \<and> j < length es \<and> j \<noteq> i \<longrightarrow>
       ordered_at es j \<and> (HEAP_PARENT j = i \<longrightarrow> 0 < i \<longrightarrow> fst (es ! j) \<le> fst (es ! HEAP_PARENT i)))"

lemma rising_step:
  assumes r: "rising i es" and i: "0 < i" "i < length es" and less: "fst (es ! HEAP_PARENT i) < fst (es ! i)"
  shows "rising (HEAP_PARENT i) (swap_elts i (HEAP_PARENT i) es)"
  unfolding rising_def
proof (intro allI impI)
  let ?p = "HEAP_PARENT i"
  fix j assume j': "0 < j \<and> j < length (swap_elts i ?p es) \<and> j \<noteq> ?p"
  then have j: "0 < j" "j < length es" "j \<noteq> ?p" by simp_all
  have p: "?p < i" "?p < length es" using i by simp_all
  note nth = nth_swap_elts [OF i(2) p(2)]
  have up: "ordered_at es ?p" if "0 < ?p" using r that p by (simp add: rising_def)
  have oth: "ordered_at es k" "HEAP_PARENT k = i \<longrightarrow> fst (es ! k) \<le> fst (es ! ?p)" if "0 < k" "k < length es" "k \<noteq> i" for k
    using r that i by (simp_all add: rising_def)
  show "ordered_at (swap_elts i ?p es) j \<and>
    (HEAP_PARENT j = ?p \<longrightarrow> 0 < ?p \<longrightarrow> fst (swap_elts i ?p es ! j) \<le> fst (swap_elts i ?p es ! HEAP_PARENT ?p))"
  proof (cases "j = i")
    case True
    have "HEAP_PARENT ?p \<noteq> i" "0 < ?p \<longrightarrow> HEAP_PARENT ?p \<noteq> ?p" using p by auto
    with True less up p show ?thesis by (auto simp: nth ordered_at_def)
  next
    case False
    have "HEAP_PARENT ?p \<noteq> i" "0 < ?p \<longrightarrow> HEAP_PARENT ?p \<noteq> ?p" "HEAP_PARENT j \<noteq> j" using p j by auto
    with False j oth [OF j(1,2) False] up less p show ?thesis by (auto simp: nth ordered_at_def)
  qed
qed

lemma rising_stop:
  "rising i es \<Longrightarrow> \<not> (0 < i \<and> fst (es ! HEAP_PARENT i) < fst (es ! i)) \<Longrightarrow> heap_ordered es"
  by (auto simp: heap_ordered_def rising_def ordered_at_def not_less)

lemma sift_up_ok:
  "sift_up key i es = (i', es') \<Longrightarrow> i < length es \<Longrightarrow> rising i (es[i := (key, d)]) \<Longrightarrow>
   heap_ordered (es'[i' := (key, d)]) \<and> mset (es'[i' := (key, d)]) = mset (es[i := (key, d)])"
proof (induction key i es arbitrary: i' es' rule: sift_up.induct)
  case (1 key i es)
  let ?p = "HEAP_PARENT i" and ?x = "(key, d)"
  show ?case
  proof (cases "0 < i \<and> fst (es ! ?p) < key")
    case True
    then have p: "?p \<noteq> i" by auto
    then have swap: "es[i := es ! ?p, ?p := ?x] = swap_elts i ?p (es[i := ?x])"
      using 1(3) by (simp add: swap_elts_def)
    have "rising ?p (swap_elts i ?p (es[i := ?x]))"
      using rising_step [OF 1(4)] True 1(3) p by simp
    with 1(1) [OF True, of i' es'] 1(2,3) True swap show ?thesis
      by (simp add: sift_up.simps [of key i es])
  next
    case False
    with 1(2) have "i' = i" "es' = es" by (auto simp: sift_up.simps [of key i es] split: if_splits)
    moreover have "heap_ordered (es[i := ?x])"
      using rising_stop [OF 1(4)] False 1(3) by (cases "i = 0") auto
    ultimately show ?thesis by simp
  qed
qed

section \<open>The heap is a priority queue\<close>

definition heap_ok :: "'d heap \<Rightarrow> bool" where
  "heap_ok h \<longleftrightarrow> heap_ordered (elts h) \<and> 0 < heap_size h \<and> length (elts h) \<le> heap_size h"

definition heap_items :: "'d heap \<Rightarrow> (real \<times> 'd) multiset" where
  "heap_items h = mset (elts h)"

lemma heap_insert_ok:
  assumes "heap_ok h"
  shows "\<exists>h'. heap_insert key d h = Inr h' \<and> heap_ok h' \<and> heap_items h' = add_mset (key, d) (heap_items h)"
proof -
  let ?es = "elts h @ [(key, d)]" and ?n = "length (elts h)"
  obtain i es where s: "sift_up key ?n ?es = (i, es)" by (cases "sift_up key ?n ?es")
  have "rising ?n (?es[?n := (key, d)])"
    using assms by (auto simp: rising_def heap_ok_def heap_ordered_def ordered_at_def nth_append)
  with sift_up_ok [OF s] have ok: "heap_ordered (es[i := (key, d)])" "mset (es[i := (key, d)]) = mset ?es" by simp_all
  have len: "length (es[i := (key, d)]) = Suc ?n" using mset_eq_length [OF ok(2)] by simp
  define n where "n = (if ?n = heap_size h then heap_size h * 2 else heap_size h)"
  have n: "?n < n" using assms by (auto simp: n_def heap_ok_def)
  have "heap_insert key d h = Inr \<lparr>elts = es[i := (key, d)], heap_size = n\<rparr>"
    using n by (simp add: heap_insert_def n_def [symmetric] s del: list_update_append)
  with ok len n show ?thesis by (simp add: heap_ok_def heap_items_def)
qed

lemma heap_extract_max_ok:
  assumes "heap_ok h" "heap_items h \<noteq> {#}"
  shows "\<exists>k d h'. heap_extract_max h = Inr (d, h') \<and> heap_ok h' \<and> heap_items h = add_mset (k, d) (heap_items h') \<and>
    (\<forall>(k', d') \<in># heap_items h. k' \<le> k)"
proof -
  let ?es = "elts h" and ?n = "length (elts h) - 1"
  have ne: "?es \<noteq> []" using assms(2) by (simp add: heap_items_def)
  obtain k d where kd: "?es ! 0 = (k, d)" by fastforce
  let ?fs = "take ?n (?es[0 := ?es ! ?n])"
  have ord: "heap_ordered ?es" using assms(1) by (simp add: heap_ok_def)
  have "sinking 0 ?fs"
    using ord by (auto simp: sinking_def heap_ordered_def ordered_at_def nth_list_update)
  moreover have "0 < length ?fs \<or> ?fs = []" by auto
  ultimately have f: "heap_ordered (heap_heapify 0 ?fs)" "mset (heap_heapify 0 ?fs) = mset ?fs"
    "length (heap_heapify 0 ?fs) = length ?fs" using heap_heapify_ok by blast+
  have m: "mset ?es = add_mset (k, d) (mset ?fs)"
  proof (cases "tl ?es" rule: rev_cases)
    case Nil
    then have "?es = [(k, d)]" using ne kd by (cases ?es) auto
    then show ?thesis by simp
  next
    case (snoc ys y)
    then have "?es = (k, d) # ys @ [y]" using ne kd by (cases ?es) auto
    then show ?thesis by simp
  qed
  have "heap_extract_max h = Inr (d, h\<lparr>elts := heap_heapify 0 ?fs\<rparr>)"
    using ne kd by (simp add: heap_extract_max_def c_assert_def Let_def)
  moreover have "\<forall>(k', d') \<in># heap_items h. k' \<le> k"
  proof
    fix e assume "e \<in># heap_items h"
    then obtain j where "j < length ?es" "?es ! j = e" by (auto simp: heap_items_def in_set_conv_nth)
    with heap_ordered_top [OF ord, of j] kd show "case e of (k', d') \<Rightarrow> k' \<le> k" by auto
  qed
  moreover have "heap_ok (h\<lparr>elts := heap_heapify 0 ?fs\<rparr>)"
    using assms(1) f by (auto simp: heap_ok_def)
  moreover have "heap_items h = add_mset (k, d) (heap_items (h\<lparr>elts := heap_heapify 0 ?fs\<rparr>))"
    using m f by (simp add: heap_items_def)
  ultimately show ?thesis by blast
qed

interpretation heap: max_queue heap_ok heap_items heap_insert heap_extract_max
  by unfold_locales (erule heap_insert_ok, erule (1) heap_extract_max_ok)

lemma heap_alloc_ok [simp]: "0 < n \<Longrightarrow> heap_ok (heap_alloc n)" "heap_items (heap_alloc n) = {#}"
  by (simp_all add: heap_ok_def heap_alloc_def heap_ordered_def heap_items_def)

lemma heap_reset_ok [simp]: "heap_ok h \<Longrightarrow> heap_ok (heap_reset h)" "heap_items (heap_reset h) = {#}"
  by (simp_all add: heap_ok_def heap_reset_def heap_ordered_def heap_items_def)

lemma heap_empty_iff: "heap_empty h \<longleftrightarrow> heap_items h = {#}"
  by (simp add: heap_empty_def heap_items_def)

section \<open>Properties\<close>

fun insert_all :: "(real \<times> 'd) list \<Rightarrow> 'd heap \<Rightarrow> 'd heap outcome" where
  "insert_all [] h = Inr h"
| "insert_all ((k, d) # es) h = bindo (heap_insert k d h) (insert_all es)"

lemma insert_all_ok:
  "heap_ok h \<Longrightarrow> \<exists>h'. insert_all es h = Inr h' \<and> heap_ok h' \<and> heap_items h' = heap_items h + mset es"
proof (induction es arbitrary: h)
  case (Cons e es)
  obtain k d where e: "e = (k, d)" by (cases e)
  obtain h1 where "heap_insert k d h = Inr h1" "heap_ok h1" "heap_items h1 = add_mset (k, d) (heap_items h)"
    using heap_insert_ok [OF Cons.prems] by blast
  with Cons.IH [of h1] e show ?case by auto
qed simp

lemma heap_drain_ok:
  "heap_ok h \<Longrightarrow> size (heap_items h) \<le> n \<Longrightarrow>
   \<exists>es. heap_drain n h = Inr (map snd es) \<and> mset es = heap_items h \<and> sorted_wrt (\<ge>) (map fst es)"
proof (induction n arbitrary: h)
  case 0
  then show ?case by (auto simp: heap_empty_iff intro: exI [of _ "[]"])
next
  case (Suc n)
  show ?case
  proof (cases "heap_items h = {#}")
    case True
    then show ?thesis by (auto simp: heap_empty_iff intro: exI [of _ "[]"])
  next
    case False
    then obtain k d h' where h': "heap_extract_max h = Inr (d, h')" "heap_ok h'"
      "heap_items h = add_mset (k, d) (heap_items h')" "\<forall>(k', d') \<in># heap_items h. k' \<le> k"
      using heap_extract_max_ok [OF Suc.prems(1)] by blast
    with Suc obtain es where es: "heap_drain n h' = Inr (map snd es)" "mset es = heap_items h'" "sorted_wrt (\<ge>) (map fst es)"
      by fastforce
    have "\<forall>e \<in> set es. fst e \<le> k"
      using h'(3,4) by (auto simp flip: set_mset_mset simp: es(2))
    with h' es False show ?thesis
      by (auto simp: heap_empty_iff intro!: exI [of _ "(k, d) # es"])
  qed
qed

text \<open>C15: The heap sorts: whatever is inserted into a new heap of a positive size comes out completely and in the order of
  falling keys, and after every insertion \<open>heap_valid\<close> holds.\<close>

theorem heap_insert_then_drain:
  assumes "0 < n"
  shows "\<exists>h es'. insert_all es (heap_alloc n) = Inr h \<and> heap_valid h \<and> heap_free True h = Inr (map snd es') \<and>
    mset es' = mset es \<and> sorted_wrt (\<ge>) (map fst es')"
proof -
  obtain h where h: "insert_all es (heap_alloc n) = Inr h" "heap_ok h" "heap_items h = mset es"
    using insert_all_ok [of "heap_alloc n" es] assms by auto
  have "size (heap_items h) \<le> length (elts h)" by (simp add: heap_items_def)
  with heap_drain_ok [OF h(2)] h show ?thesis
    by (auto simp: heap_free_def heap_valid_iff heap_ok_def)
qed

theorem heap_insert_then_drain_witness:
  "\<exists>h es'. insert_all [(2, ''b''), (3, ''c''), (1, ''a'')] (heap_alloc 1) = Inr h \<and> heap_free True h = Inr (map snd es') \<and>
    mset es' = {#(1 :: real, ''a''), (2, ''b''), (3, ''c'')#} \<and> sorted_wrt (\<ge>) (map fst es')"
  using heap_insert_then_drain [of 1 "[(2, ''b''), (3, ''c''), (1, ''a'')]"] by (auto simp: add_mset_commute)

text \<open>A heap that was allocated with size 0 never gets room.\<close>

lemma heap_size_0: "heap_insert k d (heap_alloc 0) = Inl BufferOverflow"
  by (simp add: heap_insert_def heap_alloc_def)

end
