(* ===== verification/Plan.thy ===== *)
theory Plan
  imports PlanHeap CText
begin

text \<open>
  The map of the wavefront planner, \<open>server/drivers/planner/wavefront/plan.c\<close> and \<open>plan.h\<close>: the grid of cells, the bounds of the
  search, the distances to obstacles.  A pointer to a cell is its position in \<open>cells\<close>.  Reals stand for \<open>float\<close> and
  \<open>double\<close>; a conversion to \<open>int\<close> checks its range.
\<close>

section \<open>State\<close>

text \<open>\<open>ci\<close> and \<open>cj\<close> are unsigned shorts.  The states are -1 for free, 0 for unknown, 1 for occupied.\<close>

record plan_cell =
  ci :: int
  cj :: int
  occ_state :: int
  occ_state_dyn :: int
  occ_dist :: real
  occ_dist_dyn :: real
  plan_cost :: real
  mark :: bool
  lpathmark :: bool
  plan_next :: "nat option"

text \<open>The lists \<open>path\<close>, \<open>lpath\<close> and \<open>waypoints\<close> are the used parts of their arrays, which grow by doubling.\<close>

record plan =
  size_x :: int
  size_y :: int
  min_x :: int
  min_y :: int
  max_x :: int
  max_y :: int
  origin_x :: real
  origin_y :: real
  scale :: real
  des_min_radius :: real
  abs_min_radius :: real
  max_radius :: real
  dist_penalty :: real
  hysteresis_factor :: real
  cells :: "plan_cell list"
  dist_kernel :: "real list"
  dist_kernel_width :: int
  dist_kernel_3x3 :: "real list"
  plan_heap :: "nat heap"
  path :: "nat list"
  path_size :: nat
  lpath :: "nat list"
  lpath_size :: nat
  waypoints :: "nat list"
  waypoint_size :: nat

abbreviation PLAN_MAX_COST :: real where "PLAN_MAX_COST \<equiv> 1000000000"

text \<open>Conversion of a \<open>double\<close> to \<open>int\<close>: towards zero, undefined out of range.\<close>

definition to_int :: "real \<Rightarrow> int outcome" where
  "to_int x = (let n = (if x < 0 then \<lceil>x\<rceil> else \<lfloor>x\<rfloor>) in if int_range n then Inr n else Inl IntOverflow)"

definition PLAN_WXGX :: "plan \<Rightarrow> int \<Rightarrow> real" where
  "PLAN_WXGX p i = origin_x p + of_int i * scale p"

definition PLAN_WYGY :: "plan \<Rightarrow> int \<Rightarrow> real" where
  "PLAN_WYGY p j = origin_y p + of_int j * scale p"

definition PLAN_GXWX :: "plan \<Rightarrow> real \<Rightarrow> int outcome" where
  "PLAN_GXWX p x = to_int ((x - origin_x p) / scale p + 1 / 2)"

definition PLAN_GYWY :: "plan \<Rightarrow> real \<Rightarrow> int outcome" where
  "PLAN_GYWY p y = to_int ((y - origin_y p) / scale p + 1 / 2)"

definition PLAN_VALID :: "plan \<Rightarrow> int \<Rightarrow> int \<Rightarrow> bool" where
  "PLAN_VALID p i j \<longleftrightarrow> 0 \<le> i \<and> i < size_x p \<and> 0 \<le> j \<and> j < size_y p"

definition PLAN_VALID_BOUNDS :: "plan \<Rightarrow> int \<Rightarrow> int \<Rightarrow> bool" where
  "PLAN_VALID_BOUNDS p i j \<longleftrightarrow> min_x p \<le> i \<and> i \<le> max_x p \<and> min_y p \<le> j \<and> j \<le> max_y p"

definition PLAN_INDEX :: "plan \<Rightarrow> int \<Rightarrow> int \<Rightarrow> int" where
  "PLAN_INDEX p i j = i + j * size_x p"

section \<open>Cells and loops\<close>

definition cell_at :: "int \<Rightarrow> plan \<Rightarrow> plan_cell outcome" where
  "cell_at k p = (if 0 \<le> k \<and> k < int (length (cells p)) then Inr (cells p ! nat k) else Inl OutOfBounds)"

definition upd_cell :: "int \<Rightarrow> (plan_cell \<Rightarrow> plan_cell) \<Rightarrow> plan \<Rightarrow> plan outcome" where
  "upd_cell k f p =
     (if 0 \<le> k \<and> k < int (length (cells p))
      then Inr (p\<lparr>cells := (cells p)[nat k := f (cells p ! nat k)]\<rparr>) else Inl OutOfBounds)"

fun foldo :: "('a \<Rightarrow> 's \<Rightarrow> 's outcome) \<Rightarrow> 'a list \<Rightarrow> 's \<Rightarrow> 's outcome" where
  "foldo f [] s = Inr s"
| "foldo f (x # xs) s = bindo (f x s) (foldo f xs)"

section \<open>Making a planner\<close>

definition plan_alloc :: "real \<Rightarrow> real \<Rightarrow> real \<Rightarrow> real \<Rightarrow> real \<Rightarrow> plan" where
  "plan_alloc abs_min des_min max_r penalty hysteresis =
     \<lparr>size_x = 0, size_y = 0, min_x = 0, min_y = 0, max_x = 0, max_y = 0, origin_x = 0, origin_y = 0, scale = 0,
      des_min_radius = des_min, abs_min_radius = abs_min, max_radius = max_r, dist_penalty = penalty,
      hysteresis_factor = hysteresis, cells = [], dist_kernel = [], dist_kernel_width = 0,
      dist_kernel_3x3 = replicate 9 0, plan_heap = heap_alloc 1000, path = [], path_size = 1000, lpath = [],
      lpath_size = 100, waypoints = [], waypoint_size = 100\<rparr>"

text \<open>\<open>half w\<close> is \<open>w / 2\<close> of C; \<open>offsets\<close> lists the offsets of a kernel in the order of its entries, \<open>(di, dj)\<close>.\<close>

definition half :: "int \<Rightarrow> int" where
  "half w = (if w < 0 then - ((- w) div 2) else w div 2)"

definition offsets :: "int \<Rightarrow> (int \<times> int) list" where
  "offsets h = concat (map (\<lambda>dj. map (\<lambda>di. (di, dj)) [- h .. h]) [- h .. h])"

definition kernel_entry :: "real \<Rightarrow> int \<times> int \<Rightarrow> real" where
  "kernel_entry s = (\<lambda>(i, j). sqrt (of_int (i * i + j * j)) * s)"

definition plan_compute_dist_kernel :: "plan \<Rightarrow> plan outcome" where
  "plan_compute_dist_kernel p =
     bindo (to_int (of_int \<lceil>max_radius p / scale p\<rceil>)) (\<lambda>c.
       let w = 1 + 2 * c
       in Inr (p\<lparr>dist_kernel_width := w, dist_kernel := map (kernel_entry (scale p)) (offsets (half w)),
                 dist_kernel_3x3 := map (kernel_entry (scale p)) (offsets 1)\<rparr>))"

definition plan_set_bounds :: "int \<Rightarrow> int \<Rightarrow> int \<Rightarrow> int \<Rightarrow> plan \<Rightarrow> plan outcome" where
  "plan_set_bounds x0 y0 x1 y1 p =
     (let x0 = min (size_x p - 1) (max 0 x0); y0 = min (size_y p - 1) (max 0 y0);
          x1 = min (size_x p - 1) (max 0 x1); y1 = min (size_y p - 1) (max 0 y1)
      in bindo (c_assert (x0 \<le> x1)) (\<lambda>_. bindo (c_assert (y0 \<le> y1)) (\<lambda>_.
           Inr (p\<lparr>min_x := x0, min_y := y0, max_x := x1, max_y := y1\<rparr>))))"

text \<open>\<open>cell++\<close> runs through the cells row by row; a \<open>ushort\<close> keeps 16 bits.\<close>

definition init_cell :: "plan \<Rightarrow> nat \<Rightarrow> plan_cell \<Rightarrow> plan_cell" where
  "init_cell p n c =
     (let d = (if occ_state c \<ge> 0 then 0 else max_radius p)
      in c\<lparr>ci := (int n mod size_x p) mod 65536, cj := (int n div size_x p) mod 65536, occ_state_dyn := occ_state c,
           occ_dist_dyn := d, occ_dist := d, plan_cost := PLAN_MAX_COST, plan_next := None, lpathmark := False\<rparr>)"

definition init_cells :: "plan \<Rightarrow> plan outcome" where
  "init_cells p =
     (let n = nat (size_x p) * nat (size_y p)
      in if length (cells p) < n then Inl OutOfBounds
         else Inr (p\<lparr>cells := map (\<lambda>(k, c). init_cell p k c) (zip [0 ..< n] (take n (cells p))) @ drop n (cells p)\<rparr>))"

definition plan_init :: "plan \<Rightarrow> plan outcome" where
  "plan_init p =
     bindo (init_cells p) (\<lambda>p.
     bindo (plan_compute_dist_kernel (p\<lparr>waypoints := []\<rparr>)) (\<lambda>p.
     plan_set_bounds 0 0 (size_x p - 1) (size_y p - 1) p))"

text \<open>The rows and columns of the bounds, in the order of the loops.\<close>

definition bound_cells :: "plan \<Rightarrow> (int \<times> int) list" where
  "bound_cells p = concat (map (\<lambda>j. map (\<lambda>i. (i, j)) [min_x p .. max_x p]) [min_y p .. max_y p])"

definition plan_reset :: "plan \<Rightarrow> plan outcome" where
  "plan_reset p =
     bindo (foldo (\<lambda>(i, j). upd_cell (PLAN_INDEX p i j) (\<lambda>c. c\<lparr>plan_cost := PLAN_MAX_COST, plan_next := None, mark := False\<rparr>))
              (bound_cells p) p) (\<lambda>p. Inr (p\<lparr>waypoints := []\<rparr>))"

text \<open>The data that \<open>plan_copy\<close> takes over; the cells it allocates hold anything before (\<open>fresh\<close>).\<close>

definition copy_cell :: "plan_cell \<Rightarrow> plan_cell \<Rightarrow> plan_cell" where
  "copy_cell c c' =
     c'\<lparr>occ_dist := occ_dist c, occ_state := occ_state c, occ_state_dyn := occ_state_dyn c, occ_dist_dyn := occ_dist_dyn c\<rparr>"

definition plan_copy :: "(nat \<Rightarrow> plan_cell) \<Rightarrow> plan \<Rightarrow> plan outcome" where
  "plan_copy fresh p =
     (let r = plan_alloc (abs_min_radius p) (des_min_radius p) (max_radius p) (dist_penalty p) (hysteresis_factor p);
          n = nat (size_x p) * nat (size_y p)
      in bindo (plan_init (r\<lparr>scale := scale p, size_x := size_x p, size_y := size_y p, origin_x := origin_x p,
                             origin_y := origin_y p, cells := map fresh [0 ..< n]\<rparr>)) (\<lambda>r.
         if length (cells p) < n then Inl OutOfBounds
         else Inr (r\<lparr>cells := map (\<lambda>(c, c'). copy_cell c c') (zip (take n (cells p)) (cells r))\<rparr>)))"

section \<open>Bounds of the search\<close>

definition plan_check_inbounds :: "real \<Rightarrow> real \<Rightarrow> plan \<Rightarrow> bool outcome" where
  "plan_check_inbounds x y p =
     bindo (PLAN_GXWX p x) (\<lambda>gx. bindo (PLAN_GYWY p y) (\<lambda>gy. Inr (PLAN_VALID_BOUNDS p gx gy)))"

text \<open>Growing a range \<open>lo .. hi\<close> to the length \<open>g\<close> within \<open>0 .. n\<close>.\<close>

fun grow_range :: "nat \<Rightarrow> int \<Rightarrow> int \<Rightarrow> int \<Rightarrow> int \<Rightarrow> (int \<times> int) outcome" where
  "grow_range fuel g n lo hi =
     (if hi - lo < g then
        (case fuel of
           0 \<Rightarrow> Inl OutOfFuel
         | Suc f \<Rightarrow>
             (let d = \<lceil>real_of_int (g - (hi - lo)) / 2\<rceil>
              in grow_range f g n (max (lo - d) 0) (min (hi + d) n)))
      else Inr (lo, hi))"

declare grow_range.simps [simp del]

definition plan_set_bbox :: "real \<Rightarrow> real \<Rightarrow> real \<Rightarrow> real \<Rightarrow> real \<Rightarrow> real \<Rightarrow> plan \<Rightarrow> plan outcome" where
  "plan_set_bbox padding min_size x0 y0 x1 y1 p =
     bindo (PLAN_GXWX p x0) (\<lambda>gx0. bindo (PLAN_GYWY p y0) (\<lambda>gy0.
     bindo (PLAN_GXWX p x1) (\<lambda>gx1. bindo (PLAN_GYWY p y1) (\<lambda>gy1.
     bindo (to_int (of_int \<lceil>min_size / scale p\<rceil>)) (\<lambda>gs.
     bindo (to_int (of_int \<lceil>padding / scale p\<rceil>)) (\<lambda>gp.
       let nx = size_x p - 1; ny = size_y p - 1; g = min gs (min nx ny);
           lx = max (min gx0 gx1 - half gp) 0; hx = min (max gx0 gx1 + half gp) nx;
           ly = max (min gy0 gy1 - half gp) 0; hy = min (max gy0 gy1 + half gp) ny
       in bindo (grow_range (nat lx + nat (nx - hx) + 1) g nx lx hx) (\<lambda>(lx, hx).
          bindo (grow_range (nat ly + nat (ny - hy) + 1) g ny ly hy) (\<lambda>(ly, hy).
            plan_set_bounds lx ly hx hy p))))))))"

section \<open>Distances to obstacles\<close>

text \<open>One obstacle spreads its distances over the kernel around it; \<open>base\<close> is the position of the obstacle's cell, \<open>(i, j)\<close> the
  coordinates that are checked against the bounds.\<close>

definition spread :: "(real \<Rightarrow> plan_cell \<Rightarrow> plan_cell) \<Rightarrow> int \<Rightarrow> int \<Rightarrow> int \<Rightarrow> plan \<Rightarrow> plan outcome" where
  "spread f base i j p =
     (let h = half (dist_kernel_width p); ofs = offsets h
      in if length (dist_kernel p) < length ofs then Inl OutOfBounds
         else foldo (\<lambda>((di, dj), d) p.
                if PLAN_VALID_BOUNDS p (i + di) (j + dj) then upd_cell (base + di + dj * size_x p) (f d) p else Inr p)
              (zip ofs (dist_kernel p)) p)"

text \<open>The pointer starts at column 0 of each row, whatever \<open>min_x\<close> is.\<close>

definition plan_compute_cspace :: "plan \<Rightarrow> plan outcome" where
  "plan_compute_cspace p =
     foldo (\<lambda>(i, j) p.
       let k = PLAN_INDEX p 0 j + (i - min_x p)
       in bindo (cell_at k p) (\<lambda>c.
            if occ_state c < 0 then Inr p
            else spread (\<lambda>d n. if d < occ_dist n then n\<lparr>occ_dist := d, occ_dist_dyn := d\<rparr> else n) k i j p))
       (bound_cells p) p"

definition plan_set_obstacles :: "(real \<times> real) list \<Rightarrow> plan \<Rightarrow> plan outcome" where
  "plan_set_obstacles obs p =
     (let n = nat (size_x p * size_y p)
      in if length (cells p) < n then Inl OutOfBounds
         else
           foldo (\<lambda>(x, y) p.
             bindo (PLAN_GXWX p x) (\<lambda>gx. bindo (PLAN_GYWY p y) (\<lambda>gy.
               if \<not> PLAN_VALID p gx gy then Inr p
               else bindo (cell_at (PLAN_INDEX p gx gy) p) (\<lambda>c.
                 if mark c then Inr p
                 else
                   bindo (upd_cell (PLAN_INDEX p gx gy) (\<lambda>c. c\<lparr>mark := True, occ_state_dyn := 1, occ_dist_dyn := 0\<rparr>) p) (\<lambda>p.
                   spread (\<lambda>d n. if d < occ_dist_dyn n then n\<lparr>occ_dist_dyn := d\<rparr> else n) (PLAN_INDEX p gx gy) (ci c) (cj c) p)))))
             obs
             (p\<lparr>cells := map (\<lambda>c. c\<lparr>occ_state_dyn := occ_state c, occ_dist_dyn := occ_dist c, mark := False\<rparr>)
                              (take n (cells p)) @ drop n (cells p)\<rparr>))"

section \<open>Loops\<close>

lemma foldo_inv:
  "(\<And>x s. x \<in> set xs \<Longrightarrow> I s \<Longrightarrow> \<exists>s'. f x s = Inr s' \<and> I s') \<Longrightarrow> I s \<Longrightarrow> \<exists>s'. foldo f xs s = Inr s' \<and> I s'"
proof (induction xs arbitrary: s)
  case (Cons x xs)
  then obtain s1 where "f x s = Inr s1" "I s1" by (meson list.set_intros(1))
  with Cons show ?case by simp
qed simp

lemma foldo_append: "foldo f (xs @ ys) s = bindo (foldo f xs s) (foldo f ys)"
proof (induction xs arbitrary: s)
  case (Cons x xs)
  then have "foldo f (xs @ ys) = (\<lambda>s. bindo (foldo f xs s) (foldo f ys))" by (rule ext)
  then show ?case by (simp add: bindo_assoc)
qed simp

lemma foldo_prefix_inv:
  assumes "\<And>ys x zs s. xs = ys @ x # zs \<Longrightarrow> I ys s \<Longrightarrow> \<exists>s'. f x s = Inr s' \<and> I (ys @ [x]) s'" and "I [] s"
  shows "\<exists>s'. foldo f xs s = Inr s' \<and> I xs s'"
proof -
  have "\<exists>s'. foldo f ys s = Inr s' \<and> I ys s'" if "\<exists>zs. xs = ys @ zs" for ys
    using that
  proof (induction ys rule: rev_induct)
    case Nil
    with assms(2) show ?case by simp
  next
    case (snoc y ys)
    then obtain zs where xs: "xs = ys @ y # zs" by auto
    with snoc.IH obtain s1 where s1: "foldo f ys s = Inr s1" "I ys s1" by auto
    from assms(1) [OF xs s1(2)] s1(1) show ?case by (auto simp: foldo_append)
  qed
  then show ?thesis by simp
qed

section \<open>Well-formed maps\<close>

definition grid_ok :: "plan \<Rightarrow> bool" where
  "grid_ok p \<longleftrightarrow> 0 < size_x p \<and> size_x p \<le> 65536 \<and> 0 < size_y p \<and> size_y p \<le> 65536 \<and>
     int (length (cells p)) = size_x p * size_y p"

definition bounds_ok :: "plan \<Rightarrow> bool" where
  "bounds_ok p \<longleftrightarrow> 0 \<le> min_x p \<and> min_x p \<le> max_x p \<and> max_x p < size_x p \<and>
     0 \<le> min_y p \<and> min_y p \<le> max_y p \<and> max_y p < size_y p"

definition coords_ok :: "plan \<Rightarrow> bool" where
  "coords_ok p \<longleftrightarrow> (\<forall>k < length (cells p). ci (cells p ! k) = int k mod size_x p \<and> cj (cells p ! k) = int k div size_x p)"

definition plan_ok :: "plan \<Rightarrow> bool" where
  "plan_ok p \<longleftrightarrow> grid_ok p \<and> bounds_ok p \<and> coords_ok p \<and> heap_ok (plan_heap p)"

text \<open>The cell at a pair of coordinates.\<close>

definition cell_of :: "plan \<Rightarrow> int \<times> int \<Rightarrow> plan_cell" where
  "cell_of p = (\<lambda>(i, j). cells p ! nat (PLAN_INDEX p i j))"

definition on_map :: "plan \<Rightarrow> (int \<times> int) set" where
  "on_map p = {0 ..< size_x p} \<times> {0 ..< size_y p}"

definition in_bounds :: "plan \<Rightarrow> (int \<times> int) set" where
  "in_bounds p = {min_x p .. max_x p} \<times> {min_y p .. max_y p}"

lemma valid_iff: "PLAN_VALID p i j \<longleftrightarrow> (i, j) \<in> on_map p"
  by (auto simp: PLAN_VALID_def on_map_def)

lemma valid_bounds_iff: "PLAN_VALID_BOUNDS p i j \<longleftrightarrow> (i, j) \<in> in_bounds p"
  by (auto simp: PLAN_VALID_BOUNDS_def in_bounds_def)

lemma set_bound_cells [simp]: "set (bound_cells p) = in_bounds p"
  by (auto simp: bound_cells_def in_bounds_def)

lemma bounds_on_map: "bounds_ok p \<Longrightarrow> in_bounds p \<subseteq> on_map p"
  by (auto simp: bounds_ok_def in_bounds_def on_map_def)

lemma index_range:
  assumes "grid_ok p" "(i, j) \<in> on_map p"
  shows "0 \<le> PLAN_INDEX p i j" "PLAN_INDEX p i j < int (length (cells p))"
    "PLAN_INDEX p i j mod size_x p = i" "PLAN_INDEX p i j div size_x p = j"
proof -
  have b: "0 \<le> i" "i < size_x p" "0 \<le> j" "j < size_y p" using assms(2) by (auto simp: on_map_def)
  then show "0 \<le> PLAN_INDEX p i j" by (simp add: PLAN_INDEX_def)
  have "i + j * size_x p < size_x p + j * size_x p" using b by simp
  also have "\<dots> = (j + 1) * size_x p" by (simp add: algebra_simps)
  also have "\<dots> \<le> size_y p * size_x p" using b by (intro mult_right_mono) auto
  finally show "PLAN_INDEX p i j < int (length (cells p))"
    using assms(1) by (simp add: PLAN_INDEX_def grid_ok_def mult.commute)
  show "PLAN_INDEX p i j mod size_x p = i" "PLAN_INDEX p i j div size_x p = j"
    using b by (simp_all add: PLAN_INDEX_def)
qed

lemma index_inj: "grid_ok p \<Longrightarrow> x \<in> on_map p \<Longrightarrow> y \<in> on_map p \<Longrightarrow>
  PLAN_INDEX p (fst x) (snd x) = PLAN_INDEX p (fst y) (snd y) \<Longrightarrow> x = y"
  using index_range(3,4) [of p "fst x" "snd x"] index_range(3,4) [of p "fst y" "snd y"]
  by (metis prod.collapse)

lemma nat_index_inj:
  assumes "grid_ok p" "(i, j) \<in> on_map p" "(i', j') \<in> on_map p"
  shows "nat (PLAN_INDEX p i j) = nat (PLAN_INDEX p i' j') \<longleftrightarrow> i = i' \<and> j = j'"
  using index_inj [OF assms(1), of "(i, j)" "(i', j')"] assms index_range(1) by (auto simp: nat_eq_iff2)

lemma cell_coords: "grid_ok p \<Longrightarrow> coords_ok p \<Longrightarrow> (i, j) \<in> on_map p \<Longrightarrow> ci (cell_of p (i, j)) = i \<and> cj (cell_of p (i, j)) = j"
  using index_range [of p i j] by (simp add: coords_ok_def cell_of_def nat_less_iff)

lemma cell_at_map: "grid_ok p \<Longrightarrow> (i, j) \<in> on_map p \<Longrightarrow> cell_at (PLAN_INDEX p i j) p = Inr (cell_of p (i, j))"
  using index_range [of p i j] by (simp add: cell_at_def cell_of_def)

definition put_cell :: "int \<times> int \<Rightarrow> plan_cell \<Rightarrow> plan \<Rightarrow> plan" where
  "put_cell x c p = p\<lparr>cells := (cells p)[nat (PLAN_INDEX p (fst x) (snd x)) := c]\<rparr>"

lemma upd_cell_map: "grid_ok p \<Longrightarrow> (i, j) \<in> on_map p \<Longrightarrow>
  upd_cell (PLAN_INDEX p i j) f p = Inr (put_cell (i, j) (f (cell_of p (i, j))) p)"
  using index_range [of p i j] by (simp add: upd_cell_def put_cell_def cell_of_def)

text \<open>Two maps that differ in the contents of their cells only.\<close>

definition same_frame :: "plan \<Rightarrow> plan \<Rightarrow> bool" where
  "same_frame p p' \<longleftrightarrow> (\<exists>cs. p' = p\<lparr>cells := cs\<rparr> \<and> length cs = length (cells p))"

lemma same_frame_refl [simp]: "same_frame p p"
  by (auto simp: same_frame_def intro: exI [of _ "cells p"])

lemma same_frame_trans: "same_frame p q \<Longrightarrow> same_frame q r \<Longrightarrow> same_frame p r"
  by (auto simp: same_frame_def)

lemma same_frame_put [simp]: "same_frame p (put_cell x c p)"
  by (auto simp: same_frame_def put_cell_def)

lemma same_frameD:
  assumes "same_frame p p'"
  shows "size_x p' = size_x p" "size_y p' = size_y p" "min_x p' = min_x p" "max_x p' = max_x p" "min_y p' = min_y p"
    "max_y p' = max_y p" "dist_kernel p' = dist_kernel p" "dist_kernel_width p' = dist_kernel_width p"
    "grid_ok p' = grid_ok p" "bounds_ok p' = bounds_ok p" "in_bounds p' = in_bounds p" "on_map p' = on_map p"
    "PLAN_INDEX p' = PLAN_INDEX p" "bound_cells p' = bound_cells p" "length (cells p') = length (cells p)"
    "PLAN_VALID_BOUNDS p' = PLAN_VALID_BOUNDS p"
  using assms
  by (auto simp: same_frame_def grid_ok_def bounds_ok_def in_bounds_def on_map_def PLAN_INDEX_def bound_cells_def
      PLAN_VALID_BOUNDS_def fun_eq_iff)

lemma cell_of_put:
  "grid_ok p \<Longrightarrow> x \<in> on_map p \<Longrightarrow> y \<in> on_map p \<Longrightarrow> cell_of (put_cell x c p) y = (if y = x then c else cell_of p y)"
  using index_range(2) [of p "fst x" "snd x"] index_range(1) [of p "fst x" "snd x"]
    nat_index_inj [of p "fst x" "snd x" "fst y" "snd y"]
  by (cases x; cases y) (auto simp: cell_of_def put_cell_def PLAN_INDEX_def nat_less_iff)

section \<open>Spreading distances\<close>

definition kernel_ok :: "plan \<Rightarrow> bool" where
  "kernel_ok p \<longleftrightarrow> dist_kernel p = map (kernel_entry (scale p)) (offsets (half (dist_kernel_width p)))"

lemma set_offsets: "set (offsets h) = {- h .. h} \<times> {- h .. h}"
  by (auto simp: offsets_def)

lemma distinct_offsets: "distinct (offsets h)"
proof -
  have "distinct (concat (map (\<lambda>dj. map (\<lambda>di. (di, dj)) is) js))" if "distinct is" "distinct js" for "is" js :: "int list"
    using that(2) by (induction js) (auto simp: that(1) distinct_map inj_on_def)
  then show ?thesis by (simp add: offsets_def)
qed

lemma zip_map_self: "zip xs (map f xs) = map (\<lambda>x. (x, f x)) xs"
  by (induction xs) auto

text \<open>What one obstacle at \<open>(i, j)\<close> does to the cell at \<open>x\<close>.\<close>

definition spread_cell :: "(real \<Rightarrow> plan_cell \<Rightarrow> plan_cell) \<Rightarrow> plan \<Rightarrow> int \<times> int \<Rightarrow> int \<times> int \<Rightarrow> plan_cell \<Rightarrow> plan_cell" where
  "spread_cell f p c x n =
     (let d = (fst x - fst c, snd x - snd c); h = half (dist_kernel_width p)
      in if x \<in> in_bounds p \<and> d \<in> {- h .. h} \<times> {- h .. h} then f (kernel_entry (scale p) d) n else n)"

lemma spread_ok:
  assumes g: "grid_ok p" and b: "bounds_ok p" and k: "kernel_ok p"
  shows "\<exists>p'. spread f (PLAN_INDEX p i j) i j p = Inr p' \<and> same_frame p p' \<and>
    (\<forall>x \<in> on_map p. cell_of p' x = spread_cell f p (i, j) x (cell_of p x))"
proof -
  let ?h = "half (dist_kernel_width p)"
  let ?xs = "map (\<lambda>o'. (o', kernel_entry (scale p) o')) (offsets ?h)"
  let ?step = "\<lambda>((di, dj), d) p'. if PLAN_VALID_BOUNDS p' (i + di) (j + dj)
    then upd_cell (PLAN_INDEX p i j + di + dj * size_x p') (f d) p' else Inr p'"
  let ?I = "\<lambda>ys p'. same_frame p p' \<and> (\<forall>x \<in> on_map p. cell_of p' x =
    (if x \<in> in_bounds p \<and> (fst x - i, snd x - j) \<in> fst ` set ys
     then f (kernel_entry (scale p) (fst x - i, snd x - j)) (cell_of p x) else cell_of p x))"
  have "\<exists>p'. foldo ?step ?xs p = Inr p' \<and> ?I ?xs p'"
  proof (rule foldo_prefix_inv)
    fix ys x zs q
    assume xs: "?xs = ys @ x # zs" and I: "?I ys q"
    have "x \<in> set ?xs" unfolding xs by simp
    then obtain di dj where x: "x = ((di, dj), kernel_entry (scale p) (di, dj))" by auto
    have "distinct (map fst ?xs)" by (simp add: comp_def distinct_offsets)
    then have new: "(di, dj) \<notin> fst ` set ys" unfolding xs by (auto simp: x)
    note F = same_frameD [OF conjunct1 [OF I]]
    show "\<exists>q'. ?step x q = Inr q' \<and> ?I (ys @ [x]) q'"
    proof (cases "(i + di, j + dj) \<in> in_bounds p")
      case False
      with I x show ?thesis by (auto simp: valid_bounds_iff F)
    next
      case True
      let ?y = "(i + di, j + dj)"
      have y: "?y \<in> on_map p" using True bounds_on_map [OF b] by blast
      have idx: "PLAN_INDEX p i j + di + dj * size_x p = PLAN_INDEX p (i + di) (j + dj)"
        by (simp add: PLAN_INDEX_def algebra_simps)
      let ?q = "put_cell ?y (f (kernel_entry (scale p) (di, dj)) (cell_of q ?y)) q"
      have "?step x q = Inr ?q"
        using True upd_cell_map [of q "i + di" "j + dj"] g y by (simp add: x valid_bounds_iff F idx)
      moreover have "same_frame p ?q" using I same_frame_trans same_frame_put by blast
      moreover have "cell_of ?q z = (if z = ?y then f (kernel_entry (scale p) (di, dj)) (cell_of q ?y) else cell_of q z)"
        if "z \<in> on_map p" for z
        using that g y by (intro cell_of_put) (simp_all add: F)
      ultimately show ?thesis
        using I True y new by (auto simp: x)
    qed
  qed simp
  moreover have "length (dist_kernel p) = length (offsets ?h)" using k by (simp add: kernel_ok_def)
  ultimately obtain p' where "spread f (PLAN_INDEX p i j) i j p = Inr p'" "?I ?xs p'"
    using k by (auto simp: spread_def Let_def kernel_ok_def zip_map_self)
  then show ?thesis
    by (intro exI [of _ p']) (auto simp: spread_cell_def Let_def set_offsets image_image)
qed

section \<open>The configuration space\<close>

lemma spread_cell_frame: "same_frame p q \<Longrightarrow> scale q = scale p \<Longrightarrow> spread_cell f q = spread_cell f p"
  by (simp add: spread_cell_def fun_eq_iff same_frameD Let_def cong: if_cong)

lemma same_frame_scale: "same_frame p q \<Longrightarrow> scale q = scale p \<and> max_radius q = max_radius p"
  by (auto simp: same_frame_def)

lemma same_frame_kernel: "same_frame p q \<Longrightarrow> kernel_ok q = kernel_ok p"
  by (auto simp: same_frame_def kernel_ok_def)

definition cell_distance :: "plan \<Rightarrow> int \<times> int \<Rightarrow> int \<times> int \<Rightarrow> real" where
  "cell_distance p x y = kernel_entry (scale p) (fst x - fst y, snd x - snd y)"

definition near_kernel :: "plan \<Rightarrow> int \<times> int \<Rightarrow> int \<times> int \<Rightarrow> bool" where
  "near_kernel p x y \<longleftrightarrow> (let h = half (dist_kernel_width p) in (fst x - fst y, snd x - snd y) \<in> {- h .. h} \<times> {- h .. h})"

text \<open>The distances after the obstacles in \<open>ys\<close> have been spread.\<close>

definition spread_from :: "plan \<Rightarrow> (int \<times> int) set \<Rightarrow> plan \<Rightarrow> bool" where
  "spread_from p Y q \<longleftrightarrow> same_frame p q \<and>
     (\<forall>x \<in> on_map p.
       occ_state (cell_of q x) = occ_state (cell_of p x) \<and> occ_dist_dyn (cell_of q x) = occ_dist (cell_of q x) \<and>
       occ_dist (cell_of q x) \<le> occ_dist (cell_of p x) \<and>
       (\<forall>y \<in> Y. near_kernel p x y \<longrightarrow> occ_dist (cell_of q x) \<le> cell_distance p x y) \<and>
       (occ_dist (cell_of q x) = occ_dist (cell_of p x) \<or> (\<exists>y \<in> Y. occ_dist (cell_of q x) = cell_distance p x y)))"

abbreviation lower_dist :: "real \<Rightarrow> plan_cell \<Rightarrow> plan_cell" where
  "lower_dist d n \<equiv> (if d < occ_dist n then n\<lparr>occ_dist := d, occ_dist_dyn := d\<rparr> else n)"

lemma spread_from_step:
  assumes s: "spread_from p Y q" and full: "in_bounds p = on_map p"
    and q': "same_frame q q'" "\<forall>x \<in> on_map p. cell_of q' x = spread_cell lower_dist p y x (cell_of q x)"
  shows "spread_from p (insert y Y) q'"
proof -
  have "same_frame p q'" using s q'(1) same_frame_trans by (auto simp: spread_from_def)
  moreover have "occ_state (cell_of q' x) = occ_state (cell_of p x) \<and> occ_dist_dyn (cell_of q' x) = occ_dist (cell_of q' x) \<and>
       occ_dist (cell_of q' x) \<le> occ_dist (cell_of p x) \<and>
       (\<forall>y \<in> insert y Y. near_kernel p x y \<longrightarrow> occ_dist (cell_of q' x) \<le> cell_distance p x y) \<and>
       (occ_dist (cell_of q' x) = occ_dist (cell_of p x) \<or> (\<exists>y \<in> insert y Y. occ_dist (cell_of q' x) = cell_distance p x y))"
    if x: "x \<in> on_map p" for x
  proof -
    have q: "cell_of q' x = (if near_kernel p x y then lower_dist (cell_distance p x y) (cell_of q x) else cell_of q x)"
      using q'(2) x full by (simp add: spread_cell_def near_kernel_def cell_distance_def Let_def)
    have s': "occ_state (cell_of q x) = occ_state (cell_of p x)" "occ_dist_dyn (cell_of q x) = occ_dist (cell_of q x)"
      "occ_dist (cell_of q x) \<le> occ_dist (cell_of p x)"
      "\<forall>y \<in> Y. near_kernel p x y \<longrightarrow> occ_dist (cell_of q x) \<le> cell_distance p x y"
      "occ_dist (cell_of q x) = occ_dist (cell_of p x) \<or> (\<exists>y \<in> Y. occ_dist (cell_of q x) = cell_distance p x y)"
      using s x by (simp_all add: spread_from_def)
    show ?thesis
    proof (cases "near_kernel p x y \<and> cell_distance p x y < occ_dist (cell_of q x)")
      case True
      with s' show ?thesis by (fastforce simp: q)
    next
      case False
      with s' show ?thesis by (auto simp: q)
    qed
  qed
  ultimately show ?thesis by (simp add: spread_from_def)
qed

lemma compute_cspace_spreads:
  assumes g: "grid_ok p" and b: "bounds_ok p" and k: "kernel_ok p" and full: "in_bounds p = on_map p" "min_x p = 0"
    and dyn: "\<forall>x \<in> on_map p. occ_dist_dyn (cell_of p x) = occ_dist (cell_of p x)"
  shows "\<exists>q. plan_compute_cspace p = Inr q \<and> spread_from p {y \<in> on_map p. 0 \<le> occ_state (cell_of p y)} q"
proof -
  let ?occ = "\<lambda>ys. {y \<in> set ys. 0 \<le> occ_state (cell_of p y)}"
  let ?step = "\<lambda>(i, j) q. let k = PLAN_INDEX q 0 j + (i - min_x q)
    in bindo (cell_at k q) (\<lambda>c. if occ_state c < 0 then Inr q else spread lower_dist k i j q)"
  have "\<exists>q. foldo ?step (bound_cells p) p = Inr q \<and> spread_from p (?occ (bound_cells p)) q"
  proof (rule foldo_prefix_inv)
    fix ys x zs q
    assume xs: "bound_cells p = ys @ x # zs" and I: "spread_from p (?occ ys) q"
    obtain i j where x: "x = (i, j)" by (cases x)
    have "x \<in> set (bound_cells p)" unfolding xs by simp
    then have m: "(i, j) \<in> on_map p" using full by (simp add: x)
    have fr: "same_frame p q" using I by (simp add: spread_from_def)
    note F = same_frameD [OF fr]
    have idx: "PLAN_INDEX p 0 j + i = PLAN_INDEX p i j" by (simp add: PLAN_INDEX_def)
    have at: "cell_at (PLAN_INDEX p i j) q = Inr (cell_of q (i, j))"
      using cell_at_map [of q i j] g m by (simp add: F)
    have st: "occ_state (cell_of q (i, j)) = occ_state (cell_of p (i, j))" using I m by (simp add: spread_from_def)
    show "\<exists>q'. ?step x q = Inr q' \<and> spread_from p (?occ (ys @ [x])) q'"
    proof (cases "occ_state (cell_of p (i, j)) < 0")
      case True
      then have "?occ (ys @ [x]) = ?occ ys" by (auto simp: x)
      with True I at st show ?thesis by (simp add: x F full idx)
    next
      case False
      have "grid_ok q" "bounds_ok q" "kernel_ok q" using g b k same_frame_kernel [OF fr] by (simp_all add: F)
      from spread_ok [OF this, of lower_dist i j] obtain q' where q': "spread lower_dist (PLAN_INDEX p i j) i j q = Inr q'"
        "same_frame q q'" "\<forall>x \<in> on_map p. cell_of q' x = spread_cell lower_dist p (i, j) x (cell_of q x)"
        using spread_cell_frame [OF fr] same_frame_scale [OF fr] by (auto simp: F)
      have "?occ (ys @ [x]) = insert (i, j) (?occ ys)" using False by (auto simp: x)
      with spread_from_step [OF I full(1) q'(2,3)] q'(1) False at st show ?thesis
        by (simp add: x F full idx)
    qed
  next
    show "spread_from p (?occ []) p" using dyn by (simp add: spread_from_def)
  qed
  moreover have "?occ (bound_cells p) = {y \<in> on_map p. 0 \<le> occ_state (cell_of p y)}" by (simp add: full(1))
  ultimately show ?thesis by (simp add: plan_compute_cspace_def)
qed

lemma half_odd: "0 \<le> c \<Longrightarrow> half (1 + 2 * c) = c"
  by (simp add: half_def)

lemma far_distance:
  assumes "\<not> near_kernel p x y" "half (dist_kernel_width p) = \<lceil>max_radius p / scale p\<rceil>" "0 < scale p"
  shows "max_radius p \<le> cell_distance p x y"
proof -
  let ?h = "\<lceil>max_radius p / scale p\<rceil>" and ?dx = "fst x - fst y" and ?dy = "snd x - snd y"
  have "?h < \<bar>?dx\<bar> \<or> ?h < \<bar>?dy\<bar>" using assms(1,2) by (auto simp: near_kernel_def Let_def)
  then have "real_of_int ?h \<le> sqrt (of_int (?dx * ?dx + ?dy * ?dy))"
  proof
    assume "?h < \<bar>?dx\<bar>"
    then have "real_of_int ?h \<le> \<bar>of_int ?dx\<bar>" by linarith
    also have "\<dots> = sqrt ((of_int ?dx)\<^sup>2)" by simp
    also have "\<dots> \<le> sqrt (of_int (?dx * ?dx + ?dy * ?dy))" by (intro real_sqrt_le_mono) (simp add: power2_eq_square)
    finally show ?thesis .
  next
    assume "?h < \<bar>?dy\<bar>"
    then have "real_of_int ?h \<le> \<bar>of_int ?dy\<bar>" by linarith
    also have "\<dots> = sqrt ((of_int ?dy)\<^sup>2)" by simp
    also have "\<dots> \<le> sqrt (of_int (?dx * ?dx + ?dy * ?dy))" by (intro real_sqrt_le_mono) (simp add: power2_eq_square)
    finally show ?thesis .
  qed
  moreover have "max_radius p / scale p \<le> real_of_int ?h" by simp
  ultimately have "max_radius p / scale p \<le> sqrt (of_int (?dx * ?dx + ?dy * ?dy))" by linarith
  then have "max_radius p \<le> sqrt (of_int (?dx * ?dx + ?dy * ?dy)) * scale p" using assms(3) by (simp add: pos_divide_le_eq)
  then show ?thesis by (simp add: cell_distance_def kernel_entry_def)
qed

section \<open>Initialisation\<close>

lemma to_int_of_int: "to_int (of_int n) = Inr m \<longleftrightarrow> m = n \<and> int_range n"
  by (auto simp: to_int_def)

lemma init_cells_grid:
  assumes "grid_ok p"
  shows "init_cells p = Inr (p\<lparr>cells := map (\<lambda>k. init_cell p k (cells p ! k)) [0 ..< length (cells p)]\<rparr>)"
proof -
  have "int (nat (size_x p) * nat (size_y p)) = int (length (cells p))" using assms by (simp add: grid_ok_def)
  then have n: "nat (size_x p) * nat (size_y p) = length (cells p)" by linarith
  show ?thesis
    by (simp add: init_cells_def n Let_def) (rule arg_cong [where f = "\<lambda>cs. p\<lparr>cells := cs\<rparr>"], rule nth_equalityI, auto)
qed

lemma plan_init_ok:
  assumes g: "grid_ok p" and i: "plan_init p = Inr q"
  shows "q = p\<lparr>cells := map (\<lambda>k. init_cell p k (cells p ! k)) [0 ..< length (cells p)], waypoints := [],
      dist_kernel_width := 1 + 2 * \<lceil>max_radius p / scale p\<rceil>,
      dist_kernel := map (kernel_entry (scale p)) (offsets (half (1 + 2 * \<lceil>max_radius p / scale p\<rceil>))),
      dist_kernel_3x3 := map (kernel_entry (scale p)) (offsets 1),
      min_x := 0, min_y := 0, max_x := size_x p - 1, max_y := size_y p - 1\<rparr>"
  using i g
  by (auto simp: plan_init_def init_cells_grid plan_compute_dist_kernel_def to_int_of_int plan_set_bounds_def Let_def
      grid_ok_def min_def max_def)

lemma init_on_map:
  assumes g: "grid_ok p" and i: "plan_init p = Inr q"
  shows "grid_ok q" "bounds_ok q" "kernel_ok q" "coords_ok q" "in_bounds q = on_map q" "on_map q = on_map p" "min_x q = 0"
    "scale q = scale p" "max_radius q = max_radius p" "dist_kernel_width q = 1 + 2 * \<lceil>max_radius p / scale p\<rceil>"
    "PLAN_INDEX q = PLAN_INDEX p"
proof -
  note q = plan_init_ok [OF assms]
  show "grid_ok q" "bounds_ok q" "kernel_ok q" "in_bounds q = on_map q" "on_map q = on_map p" "min_x q = 0"
    "scale q = scale p" "max_radius q = max_radius p" "dist_kernel_width q = 1 + 2 * \<lceil>max_radius p / scale p\<rceil>"
    "PLAN_INDEX q = PLAN_INDEX p"
    using g by (auto simp: q grid_ok_def bounds_ok_def kernel_ok_def in_bounds_def on_map_def PLAN_INDEX_def fun_eq_iff)
  show "coords_ok q"
  proof (unfold coords_ok_def, intro allI impI)
    fix k assume "k < length (cells q)"
    then have k: "k < length (cells p)" by (simp add: q)
    have "int k < size_y p * size_x p" using g k by (simp add: grid_ok_def mult.commute)
    have "int k div size_x p < size_y p"
    proof (rule ccontr)
      assume "\<not> int k div size_x p < size_y p"
      then have "size_y p * size_x p \<le> (int k div size_x p) * size_x p"
        using g by (intro mult_right_mono) (simp_all add: grid_ok_def)
      also have "\<dots> \<le> int k" using g by (simp add: grid_ok_def flip: minus_mod_eq_div_mult)
      finally show False using \<open>int k < size_y p * size_x p\<close> by simp
    qed
    moreover have "0 \<le> int k div size_x p" using g by (simp add: grid_ok_def pos_imp_zdiv_nonneg_iff)
    moreover have "int k mod size_x p < size_x p" "0 \<le> int k mod size_x p" using g by (simp_all add: grid_ok_def)
    ultimately show "ci (cells q ! k) = int k mod size_x q \<and> cj (cells q ! k) = int k div size_x q"
      using k g by (simp add: q init_cell_def Let_def grid_ok_def)
  qed
qed

lemma init_cell_of:
  assumes g: "grid_ok p" and i: "plan_init p = Inr q" and x: "x \<in> on_map p"
  shows "occ_state (cell_of q x) = occ_state (cell_of p x)"
    "occ_dist (cell_of q x) = (if occ_state (cell_of p x) \<ge> 0 then 0 else max_radius p)"
    "occ_dist_dyn (cell_of q x) = occ_dist (cell_of q x)"
proof -
  obtain a b where ab: "x = (a, b)" by (cases x)
  from index_range [OF g, of a b] x ab have "nat (PLAN_INDEX p a b) < length (cells p)" by (simp add: nat_less_iff)
  then have "cell_of q x = init_cell p (nat (PLAN_INDEX p a b)) (cell_of p x)"
    using init_on_map [OF g i] by (simp add: ab cell_of_def plan_init_ok [OF g i])
  then show "occ_state (cell_of q x) = occ_state (cell_of p x)"
    "occ_dist (cell_of q x) = (if occ_state (cell_of p x) \<ge> 0 then 0 else max_radius p)"
    "occ_dist_dyn (cell_of q x) = occ_dist (cell_of q x)"
    by (simp_all add: init_cell_def Let_def)
qed

text \<open>C17: After \<open>plan_init\<close> and \<open>plan_compute_cspace\<close> the distance of every cell is the distance to the nearest cell that is not
  free, cut off at \<open>max_radius\<close>: no larger than \<open>max_radius\<close> and the distance to any such cell, and equal to one of these.\<close>

theorem cspace_is_distance:
  assumes g: "grid_ok p" and sc: "0 < scale p" and mr: "0 \<le> max_radius p" and i: "plan_init p = Inr p1"
  shows "\<exists>q. plan_compute_cspace p1 = Inr q \<and>
    (\<forall>x \<in> on_map p. let d = occ_dist (cell_of q x); obstacles = {y \<in> on_map p. 0 \<le> occ_state (cell_of p y)} in
       d \<le> max_radius p \<and> (\<forall>y \<in> obstacles. d \<le> cell_distance p x y) \<and>
       (d = max_radius p \<or> (\<exists>y \<in> obstacles. d = cell_distance p x y)) \<and> occ_dist_dyn (cell_of q x) = d)"
proof -
  note I = init_on_map [OF g i] and C = init_cell_of [OF g i]
  have cd: "cell_distance p1 = cell_distance p" by (simp add: cell_distance_def fun_eq_iff I)
  have c: "0 \<le> \<lceil>max_radius p / scale p\<rceil>" using sc mr by (simp add: zero_le_ceiling less_le_trans [of "-1" 0])
  let ?O = "{y \<in> on_map p. 0 \<le> occ_state (cell_of p y)}"
  obtain q where q: "plan_compute_cspace p1 = Inr q" "spread_from p1 ?O q"
  proof -
    have "{y \<in> on_map p1. 0 \<le> occ_state (cell_of p1 y)} = ?O" by (auto simp: I C)
    then show ?thesis using that compute_cspace_spreads [of p1] I C(3) by auto
  qed
  have "let d = occ_dist (cell_of q x) in d \<le> max_radius p \<and> (\<forall>y \<in> ?O. d \<le> cell_distance p x y) \<and>
       (d = max_radius p \<or> (\<exists>y \<in> ?O. d = cell_distance p x y)) \<and> occ_dist_dyn (cell_of q x) = d" if x: "x \<in> on_map p" for x
  proof -
    have s: "occ_dist_dyn (cell_of q x) = occ_dist (cell_of q x)"
      "occ_dist (cell_of q x) \<le> (if occ_state (cell_of p x) \<ge> 0 then 0 else max_radius p)"
      "\<forall>y \<in> ?O. near_kernel p1 x y \<longrightarrow> occ_dist (cell_of q x) \<le> cell_distance p x y"
      "occ_dist (cell_of q x) = (if occ_state (cell_of p x) \<ge> 0 then 0 else max_radius p) \<or>
        (\<exists>y \<in> ?O. occ_dist (cell_of q x) = cell_distance p x y)"
      using q(2) x C by (simp_all add: spread_from_def I cd)
    have m: "occ_dist (cell_of q x) \<le> max_radius p" using s(2) mr by (auto split: if_splits)
    moreover have "occ_dist (cell_of q x) \<le> cell_distance p x y" if "y \<in> ?O" for y
    proof (cases "near_kernel p1 x y")
      case True
      with s(3) that show ?thesis by blast
    next
      case False
      from far_distance [OF False] c sc m show ?thesis by (simp add: I half_odd cd)
    qed
    moreover have "occ_dist (cell_of q x) = max_radius p \<or> (\<exists>y \<in> ?O. occ_dist (cell_of q x) = cell_distance p x y)"
    proof (cases "0 \<le> occ_state (cell_of p x)")
      case True
      have "cell_distance p x x = 0" by (simp add: cell_distance_def kernel_entry_def)
      with True x have "\<exists>y \<in> ?O. 0 = cell_distance p x y" by (intro bexI [of _ x]) simp_all
      moreover have "occ_dist (cell_of q x) = 0 \<or> (\<exists>y \<in> ?O. occ_dist (cell_of q x) = cell_distance p x y)"
        using s(4) True by (simp only: if_True)
      ultimately show ?thesis by metis
    next
      case False
      with s(4) show ?thesis by (simp only: if_False)
    qed
    ultimately show ?thesis using s(1) by (simp only: Let_def) blast
  qed
  with q(1) show ?thesis by (simp add: Let_def)
qed

definition cell0 :: "int \<Rightarrow> plan_cell" where
  "cell0 s = \<lparr>ci = 0, cj = 0, occ_state = s, occ_state_dyn = 0, occ_dist = 0, occ_dist_dyn = 0, plan_cost = 0, mark = False,
     lpathmark = False, plan_next = None\<rparr>"

definition plan3 :: plan where
  "plan3 = (plan_alloc (1 / 2) (1 / 2) 2 1 1)\<lparr>size_x := 3, size_y := 1, scale := 1, cells := [cell0 (- 1), cell0 (- 1), cell0 1]\<rparr>"

theorem cspace_is_distance_witness:
  "\<exists>p1 q. plan_init plan3 = Inr p1 \<and> plan_compute_cspace p1 = Inr q \<and> occ_dist (cell_of q (0, 0)) = 2 \<and>
     occ_dist (cell_of q (1, 0)) = 1 \<and> occ_dist (cell_of q (2, 0)) = 0"
proof -
  have g: "grid_ok plan3" by (simp add: grid_ok_def plan3_def)
  obtain p1 where i: "plan_init plan3 = Inr p1"
    using init_cells_grid [OF g]
    by (auto simp: plan_init_def plan_compute_dist_kernel_def to_int_def int_range_def plan_set_bounds_def plan3_def plan_alloc_def Let_def)
  have s: "0 < scale plan3" "0 \<le> max_radius plan3" by (simp_all add: plan3_def plan_alloc_def)
  have m: "on_map plan3 = {(0, 0), (1, 0), (2, 0)}" by (auto simp: on_map_def plan3_def)
  have o: "{y \<in> on_map plan3. 0 \<le> occ_state (cell_of plan3 y)} = {(2, 0)}"
    unfolding m by (auto simp: cell_of_def PLAN_INDEX_def plan3_def cell0_def)
  from cspace_is_distance [OF g s i] obtain q where "plan_compute_cspace p1 = Inr q"
    "\<forall>x \<in> on_map plan3. let d = occ_dist (cell_of q x) in d \<le> 2 \<and> d \<le> cell_distance plan3 x (2, 0) \<and>
       (d = 2 \<or> d = cell_distance plan3 x (2, 0))"
    unfolding o by (auto simp: Let_def plan3_def plan_alloc_def)
  with i show ?thesis
    unfolding m by (auto simp: Let_def cell_distance_def kernel_entry_def plan3_def plan_alloc_def real_sqrt_abs2)
qed

text \<open>With bounds that do not start at column 0 the loop looks at the wrong cells: the obstacle at the right end of \<open>plan3\<close> is not seen.\<close>

lemma cspace_shifted:
  "plan_compute_cspace (plan3\<lparr>min_x := 1, max_x := 2\<rparr>) = Inr (plan3\<lparr>min_x := 1, max_x := 2\<rparr>)"
proof -
  have "bound_cells (plan3\<lparr>min_x := 1, max_x := 2\<rparr>) = [(1, 0), (2, 0)]"
    by (simp add: bound_cells_def plan3_def plan_alloc_def upto.simps)
  then show ?thesis
    by (simp add: plan_compute_cspace_def PLAN_INDEX_def cell_at_def Let_def) (simp add: plan3_def cell0_def)
qed

end
