(* ===== verification/PlanSearch.thy ===== *)
theory PlanSearch
  imports Plan
begin

text \<open>
  Planning, \<open>server/drivers/planner/wavefront/plan_plan.c\<close>: costs spread from the goal over the cells within the bounds, cheapest
  cell first; every cell reached points to the cell it was reached from.  The path follows these pointers from the robot.
\<close>

section \<open>The queue of cells\<close>

definition plan_push :: "nat \<Rightarrow> plan \<Rightarrow> plan outcome" where
  "plan_push k p =
     bindo (cell_at (int k) p) (\<lambda>c.
     bindo (c_assert (PLAN_MAX_COST - plan_cost c > 0)) (\<lambda>_.
     bindo (upd_cell (int k) (\<lambda>c. c\<lparr>mark := True\<rparr>) p) (\<lambda>p.
     bindo (heap_insert (PLAN_MAX_COST - plan_cost c) k (plan_heap p)) (\<lambda>h. Inr (p\<lparr>plan_heap := h\<rparr>)))))"

definition plan_pop :: "plan \<Rightarrow> (nat option \<times> plan) outcome" where
  "plan_pop p =
     (if heap_empty (plan_heap p) then Inr (None, p)
      else bindo (heap_extract_max (plan_heap p)) (\<lambda>(k, h). Inr (Some k, p\<lparr>plan_heap := h\<rparr>)))"

section \<open>Spreading the costs\<close>

text \<open>The cost of a step into \<open>ncell\<close> over the kernel distance \<open>d\<close>: cheaper on the last local path, dearer near obstacles.\<close>

definition step_cost :: "plan \<Rightarrow> plan_cell \<Rightarrow> real \<Rightarrow> real" where
  "step_cost p ncell d =
     (if lpathmark ncell then d * hysteresis_factor p else d) +
     (if occ_dist_dyn ncell < max_radius p then dist_penalty p * (max_radius p - occ_dist_dyn ncell) else 0)"

text \<open>One neighbour of the cell \<open>k\<close> at \<open>(oi, oj)\<close>; \<open>ncell\<close> starts at \<open>di = -1\<close>.\<close>

fun relax :: "nat \<Rightarrow> int \<Rightarrow> int \<Rightarrow> (int \<times> int) \<times> real \<Rightarrow> plan \<Rightarrow> plan outcome" where
  "relax k oi oj ((di, dj), d) p =
     (if di = 0 \<and> dj = 0 then Inr p
      else if \<not> PLAN_VALID_BOUNDS p (oi + di) (oj + dj) then Inr p
      else
        (let n = PLAN_INDEX p (oi - 1) (oj + dj) + (di + 1) in
         bindo (cell_at n p) (\<lambda>nc.
           if mark nc then Inr p
           else if occ_dist_dyn nc < abs_min_radius p then Inr p
           else
             bindo (cell_at (int k) p) (\<lambda>c.
               let cost = plan_cost c + step_cost p nc d in
               if cost < plan_cost nc
               then bindo (upd_cell n (\<lambda>c. c\<lparr>plan_cost := cost, plan_next := Some k\<rparr>) p) (plan_push (nat n))
               else Inr p))))"

fun search :: "nat \<Rightarrow> plan \<Rightarrow> plan outcome" where
  "search 0 p = (if heap_empty (plan_heap p) then Inr p else Inl OutOfFuel)"
| "search (Suc n) p =
     bindo (plan_pop p) (\<lambda>(ko, p).
       case ko of
         None \<Rightarrow> Inr p
       | Some k \<Rightarrow>
           bindo (cell_at (int k) p) (\<lambda>c.
           bindo (foldo (relax k (ci c) (cj c)) (zip (offsets 1) (dist_kernel_3x3 p)) p) (search n)))"

text \<open>When robot and goal are in the same cell the routine returns before it restores the cell.\<close>

definition plan_update_plan :: "real \<Rightarrow> real \<Rightarrow> real \<Rightarrow> real \<Rightarrow> plan \<Rightarrow> (int \<times> plan) outcome" where
  "plan_update_plan lx ly gx gy p =
     (let p = p\<lparr>plan_heap := heap_reset (plan_heap p)\<rparr> in
      bindo (PLAN_GXWX p gx) (\<lambda>gi. bindo (PLAN_GYWY p gy) (\<lambda>gj.
      bindo (PLAN_GXWX p lx) (\<lambda>li. bindo (PLAN_GYWY p ly) (\<lambda>lj.
        if \<not> PLAN_VALID_BOUNDS p gi gj then Inr (- 1, p)
        else if \<not> PLAN_VALID_BOUNDS p li lj then Inr (- 1, p)
        else
          bindo (cell_at (PLAN_INDEX p li lj) p) (\<lambda>old.
          bindo (upd_cell (PLAN_INDEX p li lj) (\<lambda>c. c\<lparr>occ_state_dyn := - 1, occ_dist_dyn := max_radius p\<rparr>) p) (\<lambda>p.
          bindo (upd_cell (PLAN_INDEX p gi gj) (\<lambda>c. c\<lparr>plan_cost := 0\<rparr>) p) (\<lambda>p.
            if li = gi \<and> lj = gj then Inr (0, p)
            else
              bindo (plan_push (nat (PLAN_INDEX p gi gj)) p) (\<lambda>p.
              bindo (search (length (cells p) + 1) p) (\<lambda>p.
              bindo (upd_cell (PLAN_INDEX p li lj)
                       (\<lambda>c. c\<lparr>occ_state_dyn := occ_state_dyn old, occ_dist_dyn := occ_dist_dyn old\<rparr>) p) (\<lambda>p.
              bindo (cell_at (PLAN_INDEX p li lj) p) (\<lambda>c.
                Inr (if plan_next c = None then - 1 else 0, p)))))))))))))"

section \<open>Global and local plans\<close>

definition grown :: "nat \<Rightarrow> nat \<Rightarrow> nat" where
  "grown n used = (if n \<le> used then n * 2 else n)"

text \<open>The loop over the pointers from a cell, which ends at a null pointer.\<close>

fun cache_path :: "nat \<Rightarrow> nat option \<Rightarrow> plan \<Rightarrow> plan outcome" where
  "cache_path fuel None p = Inr p"
| "cache_path 0 (Some k) p = Inl OutOfFuel"
| "cache_path (Suc n) (Some k) p =
     bindo (cell_at (int k) p) (\<lambda>c.
       cache_path n (plan_next c) (p\<lparr>path := path p @ [k], path_size := grown (path_size p) (length (path p))\<rparr>))"

definition plan_do_global :: "real \<Rightarrow> real \<Rightarrow> real \<Rightarrow> real \<Rightarrow> plan \<Rightarrow> (int \<times> plan) outcome" where
  "plan_do_global lx ly gx gy p =
     bindo (plan_set_bounds 0 0 (size_x p - 1) (size_y p - 1) p) (\<lambda>p.
     bindo (plan_reset p) (\<lambda>p.
     bindo (plan_update_plan lx ly gx gy (p\<lparr>path := []\<rparr>)) (\<lambda>(r, p).
       if r < 0 then Inr (- 1, p)
       else
         bindo (PLAN_GXWX p lx) (\<lambda>li. bindo (PLAN_GYWY p ly) (\<lambda>lj.
         bindo (cache_path (length (cells p) + 1) (Some (nat (PLAN_INDEX p li lj))) p) (\<lambda>p. Inr (0, p)))))))"

text \<open>\<open>squared_d\<close> is computed in \<open>int\<close>; the first of the closest cells is taken.\<close>

fun closest :: "int \<Rightarrow> int \<Rightarrow> nat list \<Rightarrow> nat \<Rightarrow> (nat \<times> int) option \<Rightarrow> plan \<Rightarrow> nat option outcome" where
  "closest li lj [] c best p = Inr (map_option fst best)"
| "closest li lj (k # ks) c best p =
     bindo (cell_at (int k) p) (\<lambda>cell.
       let dx = ci cell - li; dy = cj cell - lj in
       if \<not> (int_range (dx * dx) \<and> int_range (dy * dy) \<and> int_range (dx * dx + dy * dy)) then Inl IntOverflow
       else
         (let d = dx * dx + dy * dy in
          closest li lj ks (c + 1) (case best of None \<Rightarrow> Some (c, d) | Some (b, m) \<Rightarrow> if d < m then Some (c, d) else Some (b, m)) p))"

text \<open>The number of cells of the list that lie within the bounds before the first that does not.\<close>

fun inside_run :: "nat list \<Rightarrow> plan \<Rightarrow> nat outcome" where
  "inside_run [] p = Inr 0"
| "inside_run (k # ks) p =
     bindo (cell_at (int k) p) (\<lambda>cell.
       if ci cell < min_x p \<or> ci cell > max_x p \<or> cj cell < min_y p \<or> cj cell > max_y p then Inr 0
       else bindo (inside_run ks p) (\<lambda>n. Inr (n + 1)))"

definition plan_find_local_goal :: "real \<Rightarrow> real \<Rightarrow> plan \<Rightarrow> (real \<times> real) option outcome" where
  "plan_find_local_goal lx ly p =
     (if path p = [] then Inr None
      else
        bindo (PLAN_GXWX p lx) (\<lambda>li. bindo (PLAN_GYWY p ly) (\<lambda>lj.
        bindo (c_assert (PLAN_VALID_BOUNDS p li lj)) (\<lambda>_.
        bindo (closest li lj (path p) 0 None p) (\<lambda>best.
          case best of
            None \<Rightarrow> Inl AssertFailed
          | Some c_min \<Rightarrow>
              bindo (inside_run (drop c_min (path p)) p) (\<lambda>n.
                if n = 0 then Inr None
                else
                  bindo (cell_at (int (path p ! (c_min + n - 1))) p) (\<lambda>cell.
                    Inr (Some (PLAN_WXGX p (ci cell), PLAN_WYGY p (cj cell))))))))))"

fun cache_lpath :: "nat \<Rightarrow> nat option \<Rightarrow> plan \<Rightarrow> plan outcome" where
  "cache_lpath fuel None p = Inr p"
| "cache_lpath 0 (Some k) p = Inl OutOfFuel"
| "cache_lpath (Suc n) (Some k) p =
     bindo (upd_cell (int k) (\<lambda>c. c\<lparr>lpathmark := True\<rparr>) (p\<lparr>lpath := lpath p @ [k], lpath_size := grown (lpath_size p) (length (lpath p))\<rparr>)) (\<lambda>p.
     bindo (cell_at (int k) p) (\<lambda>c. cache_lpath n (plan_next c) p))"

definition plan_do_local :: "real \<Rightarrow> real \<Rightarrow> real \<Rightarrow> plan \<Rightarrow> (int \<times> plan) outcome" where
  "plan_do_local lx ly halfwidth p =
     bindo (PLAN_GXWX p (lx - halfwidth)) (\<lambda>x0. bindo (PLAN_GYWY p (ly - halfwidth)) (\<lambda>y0.
     bindo (PLAN_GXWX p (lx + halfwidth)) (\<lambda>x1. bindo (PLAN_GYWY p (ly + halfwidth)) (\<lambda>y1.
     bindo (plan_set_bounds x0 y0 x1 y1 p) (\<lambda>p.
     bindo (plan_reset p) (\<lambda>p.
     bindo (plan_find_local_goal lx ly p) (\<lambda>g.
       case g of
         None \<Rightarrow> Inr (- 1, p)
       | Some (gx, gy) \<Rightarrow>
           bindo (plan_update_plan lx ly gx gy (p\<lparr>lpath := []\<rparr>)) (\<lambda>(r, p).
             if r \<noteq> 0 then Inr (- 1, p)
             else
               bindo (PLAN_GXWX p lx) (\<lambda>li. bindo (PLAN_GYWY p ly) (\<lambda>lj.
                 let n = nat (size_x p * size_y p) in
                 if length (cells p) < n then Inl OutOfBounds
                 else
                   bindo (cache_lpath (length (cells p) + 1) (Some (nat (PLAN_INDEX p li lj)))
                     (p\<lparr>cells := map (\<lambda>c. c\<lparr>lpathmark := False\<rparr>) (take n (cells p)) @ drop n (cells p)\<rparr>)) (\<lambda>p.
                   Inr (0, p))))))))))))"

section \<open>The graph of the grid\<close>

definition adjacent :: "int \<times> int \<Rightarrow> int \<times> int \<Rightarrow> bool" where
  "adjacent x y \<longleftrightarrow> x \<noteq> y \<and> \<bar>fst x - fst y\<bar> \<le> 1 \<and> \<bar>snd x - snd y\<bar> \<le> 1"

definition traversable :: "plan \<Rightarrow> int \<times> int \<Rightarrow> bool" where
  "traversable p x \<longleftrightarrow> abs_min_radius p \<le> occ_dist_dyn (cell_of p x)"

text \<open>The cost of the step from \<open>x\<close> to its neighbour \<open>y\<close>.\<close>

definition edge :: "plan \<Rightarrow> int \<times> int \<Rightarrow> int \<times> int \<Rightarrow> real" where
  "edge p x y = step_cost p (cell_of p y) (kernel_entry (scale p) (fst y - fst x, snd y - snd x))"

definition pos_of :: "plan \<Rightarrow> int \<times> int \<Rightarrow> nat" where
  "pos_of p x = nat (PLAN_INDEX p (fst x) (snd x))"

text \<open>A map on which costs stay below the maximum: every step costs more than 0 and at most \<open>C\<close>.\<close>

definition searchable :: "plan \<Rightarrow> real \<Rightarrow> bool" where
  "searchable p C \<longleftrightarrow> plan_ok p \<and> dist_kernel_3x3 p = map (kernel_entry (scale p)) (offsets 1) \<and> 0 \<le> C \<and>
     (\<forall>x \<in> in_bounds p. \<forall>y \<in> in_bounds p. adjacent x y \<longrightarrow> 0 < edge p x y \<and> edge p x y \<le> C) \<and>
     C * real (card (in_bounds p)) < PLAN_MAX_COST"

lemma adjacent_sym: "adjacent x y \<longleftrightarrow> adjacent y x"
  by (auto simp: adjacent_def abs_minus_commute)

lemma adjacent_offset: "adjacent (i, j) (i + di, j + dj) \<longleftrightarrow> (di, dj) \<in> set (offsets 1) \<and> \<not> (di = 0 \<and> dj = 0)"
  by (auto simp: adjacent_def set_offsets)

lemma finite_in_bounds [simp]: "finite (in_bounds p)"
  by (simp add: in_bounds_def)

lemma finite_on_map [simp]: "finite (on_map p)"
  by (simp add: on_map_def)

lemma card_on_map: "grid_ok p \<Longrightarrow> card (on_map p) = length (cells p)"
proof -
  assume g: "grid_ok p"
  have "int (card (on_map p)) = size_x p * size_y p" using g by (simp add: on_map_def grid_ok_def card_cartesian_product)
  with g show ?thesis by (simp add: grid_ok_def)
qed

text \<open>A search changes only the marks, costs and pointers of cells, and the queue.\<close>

definition search_frame :: "plan \<Rightarrow> plan \<Rightarrow> bool" where
  "search_frame p q \<longleftrightarrow> (\<exists>cs h. q = p\<lparr>cells := cs, plan_heap := h\<rparr> \<and> length cs = length (cells p)) \<and>
     (\<forall>x \<in> on_map p. \<exists>m c n. cell_of q x = (cell_of p x)\<lparr>mark := m, plan_cost := c, plan_next := n\<rparr>)"

lemma search_frameD:
  assumes "search_frame p q"
  shows "size_x q = size_x p" "size_y q = size_y p" "min_x q = min_x p" "max_x q = max_x p" "min_y q = min_y p"
    "max_y q = max_y p" "grid_ok q = grid_ok p" "bounds_ok q = bounds_ok p" "in_bounds q = in_bounds p" "on_map q = on_map p"
    "PLAN_INDEX q = PLAN_INDEX p" "length (cells q) = length (cells p)" "PLAN_VALID_BOUNDS q = PLAN_VALID_BOUNDS p"
    "dist_kernel_3x3 q = dist_kernel_3x3 p" "scale q = scale p" "abs_min_radius q = abs_min_radius p"
    "max_radius q = max_radius p" "dist_penalty q = dist_penalty p" "hysteresis_factor q = hysteresis_factor p"
    "step_cost q = step_cost p" "pos_of q = pos_of p" "PLAN_GXWX q = PLAN_GXWX p" "PLAN_GYWY q = PLAN_GYWY p" "path q = path p"
    "PLAN_WXGX q = PLAN_WXGX p" "PLAN_WYGY q = PLAN_WYGY p"
  using assms
  by (auto simp: search_frame_def grid_ok_def bounds_ok_def in_bounds_def on_map_def PLAN_INDEX_def PLAN_VALID_BOUNDS_def
      step_cost_def pos_of_def PLAN_GXWX_def PLAN_GYWY_def PLAN_WXGX_def PLAN_WYGY_def fun_eq_iff)

lemma search_frame_cell:
  assumes "search_frame p q" "x \<in> on_map p"
  shows "ci (cell_of q x) = ci (cell_of p x)" "cj (cell_of q x) = cj (cell_of p x)"
    "occ_dist_dyn (cell_of q x) = occ_dist_dyn (cell_of p x)" "occ_state_dyn (cell_of q x) = occ_state_dyn (cell_of p x)"
    "step_cost p (cell_of q x) d = step_cost p (cell_of p x) d"
proof -
  obtain m c n where "cell_of q x = (cell_of p x)\<lparr>mark := m, plan_cost := c, plan_next := n\<rparr>"
    using assms by (auto simp: search_frame_def)
  then show "ci (cell_of q x) = ci (cell_of p x)" "cj (cell_of q x) = cj (cell_of p x)"
    "occ_dist_dyn (cell_of q x) = occ_dist_dyn (cell_of p x)" "occ_state_dyn (cell_of q x) = occ_state_dyn (cell_of p x)"
    "step_cost p (cell_of q x) d = step_cost p (cell_of p x) d"
    by (simp_all add: step_cost_def)
qed

lemma search_frame_refl: "search_frame p p"
proof -
  have "p = p\<lparr>cells := cells p, plan_heap := plan_heap p\<rparr>" by simp
  moreover have "cell_of p x = (cell_of p x)\<lparr>mark := mark (cell_of p x), plan_cost := plan_cost (cell_of p x),
    plan_next := plan_next (cell_of p x)\<rparr>" for x by simp
  ultimately show ?thesis unfolding search_frame_def by metis
qed

lemma search_frame_heap: "search_frame p q \<Longrightarrow> search_frame p (q\<lparr>plan_heap := h\<rparr>)"
  by (auto simp: search_frame_def cell_of_def PLAN_INDEX_def split: prod.splits)

lemma search_frame_put:
  assumes f: "search_frame p q" and g: "grid_ok p" and x: "x \<in> on_map p"
    and c: "c = (cell_of q x)\<lparr>mark := m, plan_cost := v, plan_next := n\<rparr>"
  shows "search_frame p (put_cell x c q)"
proof -
  from f obtain cs h where q: "q = p\<lparr>cells := cs, plan_heap := h\<rparr>" "length cs = length (cells p)" by (auto simp: search_frame_def)
  have "\<exists>cs' h'. put_cell x c q = p\<lparr>cells := cs', plan_heap := h'\<rparr> \<and> length cs' = length (cells p)"
    using q by (intro exI [of _ "cs[nat (PLAN_INDEX q (fst x) (snd x)) := c]"] exI [of _ h]) (simp add: put_cell_def)
  moreover have "\<exists>m c' n. cell_of (put_cell x c q) y = (cell_of p y)\<lparr>mark := m, plan_cost := c', plan_next := n\<rparr>"
    if y: "y \<in> on_map p" for y
  proof -
    have "cell_of (put_cell x c q) y = (if y = x then c else cell_of q y)"
      using cell_of_put [of q x y c] g x y by (simp add: search_frameD [OF f])
    moreover obtain m' c' n' where "cell_of q y = (cell_of p y)\<lparr>mark := m', plan_cost := c', plan_next := n'\<rparr>"
      using f y by (auto simp: search_frame_def)
    ultimately show ?thesis using c by (cases "y = x") auto
  qed
  ultimately show ?thesis by (simp add: search_frame_def)
qed

section \<open>The invariant of the search\<close>

abbreviation marked :: "plan \<Rightarrow> (int \<times> int) set" where
  "marked q \<equiv> {x \<in> in_bounds q. mark (cell_of q x)}"

abbreviation cost_of :: "plan \<Rightarrow> int \<times> int \<Rightarrow> real" where
  "cost_of q x \<equiv> plan_cost (cell_of q x)"

text \<open>\<open>P\<close> are the cells taken from the queue; of the cell \<open>a\<close> among them only the neighbours at the offsets \<open>D\<close> have been looked at.\<close>

definition reached_by :: "plan \<Rightarrow> plan \<Rightarrow> (int \<times> int) set \<Rightarrow> int \<times> int \<Rightarrow> bool" where
  "reached_by p q P x \<longleftrightarrow> traversable p x \<and> (\<exists>y \<in> P. plan_next (cell_of q x) = Some (pos_of p y) \<and> adjacent y x \<and>
     cost_of q x = cost_of q y + edge p y x \<and> (\<forall>z \<in> P. adjacent z x \<longrightarrow> cost_of q y \<le> cost_of q z))"

definition search_inv :: "plan \<Rightarrow> real \<Rightarrow> int \<times> int \<Rightarrow> (int \<times> int) set \<Rightarrow> (int \<times> int) \<Rightarrow> (int \<times> int) set \<Rightarrow> plan \<Rightarrow> bool" where
  "search_inv p C g P a D q \<longleftrightarrow>
     search_frame p q \<and> heap_ok (plan_heap q) \<and> P \<subseteq> marked q \<and> g \<in> marked q \<and>
     cost_of q g = 0 \<and> plan_next (cell_of q g) = None \<and>
     heap_items (plan_heap q) = image_mset (\<lambda>x. (PLAN_MAX_COST - cost_of q x, pos_of p x)) (mset_set (marked q - P)) \<and>
     (\<forall>x \<in> in_bounds p - marked q. cost_of q x = PLAN_MAX_COST \<and> plan_next (cell_of q x) = None) \<and>
     (\<forall>x \<in> marked q - {g}. reached_by p q P x) \<and>
     (\<forall>x \<in> P. \<forall>y \<in> marked q - P. cost_of q x \<le> cost_of q y) \<and>
     (\<forall>x \<in> P. \<forall>y \<in> in_bounds p. adjacent x y \<longrightarrow> (x = a \<longrightarrow> y \<in> D) \<longrightarrow> y \<in> marked q \<or> \<not> traversable p y) \<and>
     (\<forall>x \<in> marked q. 0 \<le> cost_of q x \<and> cost_of q x \<le> C * (real (card (marked q)) - 1))"

lemma search_inv_costs:
  "search_inv p C g P a D q \<Longrightarrow> x \<in> marked q \<Longrightarrow> 0 \<le> cost_of q x \<and> cost_of q x \<le> C * (real (card (marked q)) - 1)"
  unfolding search_inv_def by blast

lemma search_inv_sets: "search_inv p C g P a D q \<Longrightarrow> search_frame p q \<and> heap_ok (plan_heap q) \<and> P \<subseteq> marked q"
  unfolding search_inv_def by blast

lemma search_inv_items: "search_inv p C g P a D q \<Longrightarrow>
  heap_items (plan_heap q) = image_mset (\<lambda>x. (PLAN_MAX_COST - cost_of q x, pos_of p x)) (mset_set (marked q - P))"
  unfolding search_inv_def by blast

lemma search_inv_unmarked: "search_inv p C g P a D q \<Longrightarrow> x \<in> in_bounds p \<Longrightarrow> x \<notin> marked q \<Longrightarrow>
  cost_of q x = PLAN_MAX_COST \<and> plan_next (cell_of q x) = None"
  unfolding search_inv_def by blast

lemma search_inv_goal: "search_inv p C g P a D q \<Longrightarrow> g \<in> marked q \<and> cost_of q g = 0 \<and> plan_next (cell_of q g) = None"
  unfolding search_inv_def by blast

lemma search_inv_reached: "search_inv p C g P a D q \<Longrightarrow> x \<in> marked q \<Longrightarrow> x \<noteq> g \<Longrightarrow> reached_by p q P x"
  unfolding search_inv_def by blast

lemma search_inv_order: "search_inv p C g P a D q \<Longrightarrow> x \<in> P \<Longrightarrow> y \<in> marked q \<Longrightarrow> y \<notin> P \<Longrightarrow> cost_of q x \<le> cost_of q y"
  unfolding search_inv_def by blast

lemma search_inv_closed: "search_inv p C g P a D q \<Longrightarrow> x \<in> P \<Longrightarrow> y \<in> in_bounds p \<Longrightarrow> adjacent x y \<Longrightarrow> (x = a \<Longrightarrow> y \<in> D) \<Longrightarrow>
  y \<in> marked q \<or> \<not> traversable p y"
  unfolding search_inv_def by blast

lemma pos_of_inj: "grid_ok p \<Longrightarrow> x \<in> on_map p \<Longrightarrow> y \<in> on_map p \<Longrightarrow> pos_of p x = pos_of p y \<longleftrightarrow> x = y"
  using nat_index_inj [of p "fst x" "snd x" "fst y" "snd y"] by (auto simp: pos_of_def prod_eq_iff)

lemma pos_of_int: "grid_ok p \<Longrightarrow> x \<in> on_map p \<Longrightarrow> int (pos_of p x) = PLAN_INDEX p (fst x) (snd x)"
  using index_range(1) [of p "fst x" "snd x"] by (simp add: pos_of_def)

lemma cell_at_pos: "grid_ok q \<Longrightarrow> x \<in> on_map q \<Longrightarrow> cell_at (int (pos_of q x)) q = Inr (cell_of q x)"
  using cell_at_map [of q "fst x" "snd x"] by (simp add: pos_of_int)

lemma upd_cell_pos: "grid_ok q \<Longrightarrow> x \<in> on_map q \<Longrightarrow> upd_cell (int (pos_of q x)) f q = Inr (put_cell x (f (cell_of q x)) q)"
  using upd_cell_map [of q "fst x" "snd x"] by (simp add: pos_of_int)

lemma plan_push_ok:
  assumes "grid_ok q" "x \<in> on_map q" "cost_of q x < PLAN_MAX_COST" "heap_ok (plan_heap q)"
  shows "\<exists>h. plan_push (pos_of q x) q = Inr ((put_cell x ((cell_of q x)\<lparr>mark := True\<rparr>) q)\<lparr>plan_heap := h\<rparr>) \<and> heap_ok h \<and>
    heap_items h = add_mset (PLAN_MAX_COST - cost_of q x, pos_of q x) (heap_items (plan_heap q))"
proof -
  from heap.put_ok [OF assms(4)] obtain h where h: "heap_insert (PLAN_MAX_COST - cost_of q x) (pos_of q x) (plan_heap q) = Inr h"
    "heap_ok h" "heap_items h = add_mset (PLAN_MAX_COST - cost_of q x, pos_of q x) (heap_items (plan_heap q))" by blast
  have "plan_heap (put_cell x c q) = plan_heap q" for c by (simp add: put_cell_def)
  with h assms show ?thesis
    by (intro exI [of _ h]) (simp add: plan_push_def cell_at_pos upd_cell_pos c_assert_def)
qed

lemma put_cell_twice: "put_cell x c (put_cell x c' q) = put_cell x c q"
  by (simp add: put_cell_def PLAN_INDEX_def)

lemma on_map_bounds: "plan_ok p \<Longrightarrow> x \<in> in_bounds p \<Longrightarrow> x \<in> on_map p"
  using bounds_on_map [of p] by (auto simp: plan_ok_def)

text \<open>A new cell is reached from the cell taken last.\<close>

lemma search_inv_add:
  assumes S: "searchable p C" and I: "search_inv p C g P a D q" and a: "a \<in> P" and L: "\<forall>z \<in> P. cost_of q z \<le> cost_of q a"
    and y: "y \<in> in_bounds p" "y \<notin> marked q" "traversable p y" "adjacent a y"
    and cst: "v = cost_of q a + edge p a y"
    and q': "search_frame p q'" "heap_ok (plan_heap q')"
      "heap_items (plan_heap q') = add_mset (PLAN_MAX_COST - v, pos_of p y) (heap_items (plan_heap q))"
    and cells: "\<forall>z \<in> on_map p. cell_of q' z = (if z = y then c' else cell_of q z)"
    and c': "mark c'" "plan_cost c' = v" "plan_next c' = Some (pos_of p a)"
  shows "search_inv p C g P a (insert y D) q' \<and> (\<forall>z \<in> P. cost_of q' z \<le> cost_of q' a)"
proof -
  have ok: "plan_ok p" and C0: "0 \<le> C" using S by (simp_all add: searchable_def)
  have Fq: "search_frame p q" using search_inv_sets [OF I] by blast
  note F = search_frameD [OF Fq] and F' = search_frameD [OF q'(1)]
  have om: "x \<in> on_map p" if "x \<in> in_bounds p" for x using on_map_bounds [OF ok that] .
  have cell': "cell_of q' z = (if z = y then c' else cell_of q z)" if "z \<in> in_bounds p" for z
    using cells om [OF that] by blast
  have M': "marked q' = insert y (marked q)"
    using y(1) c'(1) cell' by (auto simp: F F')
  have PM: "P \<subseteq> marked q" using search_inv_sets [OF I] by blast
  then have PB: "P \<subseteq> in_bounds p" and yP: "y \<notin> P" using y(2) by (auto simp: F)
  have fin: "finite (marked q)" by simp
  have card': "card (marked q') = Suc (card (marked q))" unfolding M' using fin y(2) by simp
  have keep: "cell_of q' z = cell_of q z" if "z \<in> marked q" for z
    using that cell' y(2) by (auto simp: F)
  have keepP: "cell_of q' z = cell_of q z" if "z \<in> P" for z
    using that PM keep by blast
  have aB: "a \<in> in_bounds p" using a PB by blast
  have e: "0 < edge p a y" "edge p a y \<le> C" using S aB y(1,4) by (auto simp: searchable_def)
  have ca: "0 \<le> cost_of q a" "cost_of q a \<le> C * (real (card (marked q)) - 1)"
    using search_inv_costs [OF I] a PM by blast+
  have v: "0 \<le> v" "v \<le> C * real (card (marked q))"
    using ca e by (simp_all add: cst algebra_simps)
  have g: "g \<in> marked q" "cost_of q g = 0" "plan_next (cell_of q g) = None" using search_inv_goal [OF I] by blast+
  have r: "reached_by p q' P x" if "x \<in> marked q' - {g}" for x
  proof (cases "x = y")
    case True
    have only: "z = a" if "z \<in> P" "adjacent z y" for z
      using search_inv_closed [OF I that(1) y(1) that(2)] y(2,3) by auto
    have "cell_of q' y = c'" using cell' [OF y(1)] by simp
    then have "plan_next (cell_of q' y) = Some (pos_of p a)" "cost_of q' y = cost_of q' a + edge p a y"
      using c' keepP [OF a] by (simp_all add: cst)
    moreover have "\<forall>z \<in> P. adjacent z y \<longrightarrow> cost_of q' a \<le> cost_of q' z" using only by auto
    ultimately show ?thesis unfolding True reached_by_def using a y(3,4) by blast
  next
    case False
    with that have x: "x \<in> marked q" "x \<noteq> g" unfolding M' by simp_all
    have "reached_by p q P x" "cell_of q' x = cell_of q x" using search_inv_reached [OF I x] keep [OF x(1)] by blast+
    then show ?thesis using keepP by (auto simp: reached_by_def)
  qed
  have items: "heap_items (plan_heap q') =
    image_mset (\<lambda>x. (PLAN_MAX_COST - cost_of q' x, pos_of p x)) (mset_set (marked q' - P))"
  proof -
    have "marked q' - P = insert y (marked q - P)" using M' yP by auto
    moreover have "mset_set (insert y (marked q - P)) = add_mset y (mset_set (marked q - P))"
      by (rule mset_set.insert) (use fin y(2) in blast)+
    ultimately have "mset_set (marked q' - P) = add_mset y (mset_set (marked q - P))" by (simp only:)
    moreover have "image_mset (\<lambda>x. (PLAN_MAX_COST - cost_of q' x, pos_of p x)) (mset_set (marked q - P)) =
      image_mset (\<lambda>x. (PLAN_MAX_COST - cost_of q x, pos_of p x)) (mset_set (marked q - P))"
      by (rule image_mset_cong) (simp add: keep)
    moreover have "cost_of q' y = v" using cell' [OF y(1)] c'(2) by simp
    ultimately show ?thesis using search_inv_items [OF I] q'(3) by simp
  qed
  have um: "cost_of q' x = PLAN_MAX_COST \<and> plan_next (cell_of q' x) = None" if "x \<in> in_bounds p - marked q'" for x
    using that search_inv_unmarked [OF I, of x] cell' [of x] unfolding M' by auto
  have ord: "cost_of q' x \<le> cost_of q' z" if "x \<in> P" "z \<in> marked q' - P" for x z
  proof (cases "z = y")
    case True
    have "cost_of q x \<le> cost_of q a" using L that by blast
    with True e keepP [OF that(1)] cell' [OF y(1)] c'(2) show ?thesis by (simp add: cst)
  next
    case False
    with that have z: "z \<in> marked q - P" unfolding M' by simp
    then have "cost_of q x \<le> cost_of q z" using search_inv_order [OF I that(1)] by blast
    with keepP [OF that(1)] keep [of z] z show ?thesis by simp
  qed
  have cl: "z \<in> marked q' \<or> \<not> traversable p z"
    if "x \<in> P" "z \<in> in_bounds p" "adjacent x z" "x = a \<longrightarrow> z \<in> insert y D" for x z
  proof (cases "z = y")
    case True
    then show ?thesis unfolding M' by simp
  next
    case False
    with that search_inv_closed [OF I that(1-3)] show ?thesis unfolding M' by auto
  qed
  have bnd: "0 \<le> cost_of q' x \<and> cost_of q' x \<le> C * (real (card (marked q')) - 1)" if "x \<in> marked q'" for x
  proof (cases "x = y")
    case True
    with v cell' [OF y(1)] c'(2) show ?thesis by (simp add: card')
  next
    case False
    with that have x: "x \<in> marked q" unfolding M' by simp
    then have "0 \<le> cost_of q x" "cost_of q x \<le> C * (real (card (marked q)) - 1)" using search_inv_costs [OF I] by blast+
    moreover have "C * (real (card (marked q)) - 1) \<le> C * real (card (marked q))" using C0 by (simp add: algebra_simps)
    ultimately show ?thesis using keep [OF x] by (simp add: card')
  qed
  have "P \<subseteq> marked q'" "g \<in> marked q'" "cost_of q' g = 0" "plan_next (cell_of q' g) = None"
    using PM g keep [OF g(1)] unfolding M' by auto
  moreover have "\<forall>z \<in> P. cost_of q' z \<le> cost_of q' a" using L keepP a by simp
  ultimately show ?thesis
    unfolding search_inv_def using q'(1,2) items um r ord cl bnd by blast
qed

lemma search_inv_mono:
  "search_inv p C g P a D q \<Longrightarrow> z \<in> in_bounds p \<and> adjacent a z \<Longrightarrow> z \<in> marked q \<or> \<not> traversable p z \<Longrightarrow>
   search_inv p C g P a (insert z D) q"
  unfolding search_inv_def by blast

lemma search_inv_skip:
  "search_inv p C g P a D q \<Longrightarrow> z \<notin> in_bounds p \<or> \<not> adjacent a z \<Longrightarrow> search_inv p C g P a (insert z D) q"
  unfolding search_inv_def by blast

lemma card_marked_less:
  assumes "search_frame p q" "y \<in> in_bounds p" "y \<notin> marked q"
  shows "card (marked q) < card (in_bounds p)"
  using assms by (intro psubset_card_mono) (auto simp: search_frameD)

text \<open>One neighbour of the cell that was taken last.\<close>

lemma relax_inv:
  assumes S: "searchable p C" and I: "search_inv p C g P a D q" and a: "a \<in> P" and L: "\<forall>z \<in> P. cost_of q z \<le> cost_of q a"
    and d: "(di, dj) \<in> set (offsets 1)"
  shows "\<exists>q'. relax (pos_of p a) (fst a) (snd a) ((di, dj), kernel_entry (scale p) (di, dj)) q = Inr q' \<and>
    search_inv p C g P a (insert (fst a + di, snd a + dj) D) q' \<and> (\<forall>z \<in> P. cost_of q' z \<le> cost_of q' a)"
proof -
  let ?y = "(fst a + di, snd a + dj)" and ?d = "kernel_entry (scale p) (di, dj)"
  have ok: "plan_ok p" and g: "grid_ok p" using S by (simp_all add: searchable_def plan_ok_def)
  note J = search_inv_sets [OF I]
  note F = search_frameD [OF conjunct1 [OF J]]
  have PB: "P \<subseteq> in_bounds p" using J by (auto simp: F)
  have aM: "a \<in> on_map p" using a PB on_map_bounds [OF ok] by blast
  consider (centre) "di = 0 \<and> dj = 0" | (out) "\<not> (di = 0 \<and> dj = 0)" "?y \<notin> in_bounds p"
    | (isin) "\<not> (di = 0 \<and> dj = 0)" "?y \<in> in_bounds p" by blast
  then show ?thesis
  proof cases
    case centre
    then have "\<not> adjacent a ?y" by (simp add: adjacent_def)
    with centre search_inv_skip [OF I, of ?y] L show ?thesis by auto
  next
    case out
    then have "relax (pos_of p a) (fst a) (snd a) ((di, dj), ?d) q = Inr q" by (auto simp: valid_bounds_iff F)
    with out search_inv_skip [OF I, of ?y] L show ?thesis by auto
  next
    case isin
    have yM: "?y \<in> on_map p" using isin(2) on_map_bounds [OF ok] by blast
    have adj: "adjacent a ?y" using isin(1) d adjacent_offset [of "fst a" "snd a" di dj] by simp
    have n: "PLAN_INDEX q (fst a - 1) (snd a + dj) + (di + 1) = int (pos_of q ?y)"
      using pos_of_int [OF g yM] by (simp add: PLAN_INDEX_def F)
    have at: "cell_at (int (pos_of q ?y)) q = Inr (cell_of q ?y)" "cell_at (int (pos_of q a)) q = Inr (cell_of q a)"
      using cell_at_pos [of q] g yM aM by (simp_all add: F)
    have tr: "occ_dist_dyn (cell_of q ?y) < abs_min_radius q \<longleftrightarrow> \<not> traversable p ?y"
      using search_frame_cell(3) [OF conjunct1 [OF J] yM] by (simp add: traversable_def F not_le)
    have st: "step_cost q (cell_of q ?y) ?d = edge p a ?y"
      using search_frame_cell(5) [OF conjunct1 [OF J] yM] by (simp add: edge_def F)
    show ?thesis
    proof (cases "?y \<in> marked q \<or> \<not> traversable p ?y")
      case True
      have "relax (pos_of p a) (fst a) (snd a) ((di, dj), ?d) q = Inr q"
        using True isin n at tr by (auto simp: valid_bounds_iff F Let_def cong: if_cong)
      with search_inv_mono [OF I _ True] isin adj L show ?thesis by blast
    next
      case False
      then have um: "?y \<notin> marked q" "traversable p ?y" by blast+
      define v where "v = cost_of q a + edge p a ?y"
      have e: "0 < edge p a ?y" "edge p a ?y \<le> C" "C * real (card (in_bounds p)) < PLAN_MAX_COST" "0 \<le> C"
        using S PB a isin adj by (auto simp: searchable_def)
      have "cost_of q a \<le> C * (real (card (marked q)) - 1)" using search_inv_costs [OF I, of a] J a by blast
      with e have "v \<le> C * real (card (marked q))" by (simp add: v_def algebra_simps)
      also have "\<dots> \<le> C * real (card (in_bounds p))"
        using e card_marked_less [OF conjunct1 [OF J] isin(2) um(1)] by (intro mult_left_mono) simp_all
      finally have v: "v < PLAN_MAX_COST" using e by simp
      have old: "cost_of q ?y = PLAN_MAX_COST" using search_inv_unmarked [OF I isin(2) um(1)] by simp
      define c1 where "c1 = (cell_of q ?y)\<lparr>plan_cost := v, plan_next := Some (pos_of p a)\<rparr>"
      define q1 where "q1 = put_cell ?y c1 q"
      have u: "upd_cell (int (pos_of q ?y)) (\<lambda>c. c\<lparr>plan_cost := v, plan_next := Some (pos_of p a)\<rparr>) q = Inr q1"
        using upd_cell_pos [of q ?y] g yM by (simp add: F q1_def c1_def)
      have fr1: "search_frame p q1"
        unfolding q1_def by (rule search_frame_put [OF conjunct1 [OF J] g yM, where m = "mark (cell_of q ?y)" and v = v and n = "Some (pos_of p a)"])
          (simp add: c1_def)
      note F1 = search_frameD [OF fr1]
      have cell1: "cell_of q1 z = (if z = ?y then c1 else cell_of q z)" if "z \<in> on_map p" for z
        using cell_of_put [of q ?y z c1] g yM that by (simp add: F q1_def)
      have h1: "plan_heap q1 = plan_heap q" by (simp add: q1_def put_cell_def)
      define c2 where "c2 = c1\<lparr>mark := True\<rparr>"
      have "cell_of q1 ?y = c1" using cell1 [OF yM] by simp
      with plan_push_ok [of q1 ?y] g yM v J obtain h where
        h: "plan_push (pos_of q1 ?y) q1 = Inr ((put_cell ?y c2 q1)\<lparr>plan_heap := h\<rparr>)" "heap_ok h"
          "heap_items h = add_mset (PLAN_MAX_COST - v, pos_of p ?y) (heap_items (plan_heap q))"
        by (auto simp: F1 h1 c1_def c2_def)
      define q2 where "q2 = (put_cell ?y c2 q1)\<lparr>plan_heap := h\<rparr>"
      have "relax (pos_of p a) (fst a) (snd a) ((di, dj), ?d) q = plan_push (pos_of q1 ?y) q1"
        using isin um n at tr st old v u by (auto simp: valid_bounds_iff F F1 v_def Let_def cong: if_cong)
      then have rel: "relax (pos_of p a) (fst a) (snd a) ((di, dj), ?d) q = Inr q2" using h(1) by (simp add: q2_def)
      have "search_frame p (put_cell ?y c2 q1)"
        by (rule search_frame_put [OF fr1 g yM, where m = True and v = v and n = "Some (pos_of p a)"])
          (simp add: c2_def cell1 [OF yM] c1_def)
      then have fr2: "search_frame p q2" unfolding q2_def by (rule search_frame_heap)
      have "cell_of q2 z = (if z = ?y then c2 else cell_of q z)" if "z \<in> on_map p" for z
      proof -
        have "cell_of q2 z = cell_of (put_cell ?y c2 q1) z"
          by (cases z) (simp add: q2_def cell_of_def PLAN_INDEX_def)
        with cell_of_put [of q1 ?y z c2] g yM that cell1 [OF that] show ?thesis by (simp add: F1)
      qed
      then have "search_inv p C g P a (insert ?y D) q2 \<and> (\<forall>z \<in> P. cost_of q2 z \<le> cost_of q2 a)"
        using search_inv_add [OF S I a L isin(2) um(1,2) adj v_def fr2, where c' = c2] h by (simp add: q2_def c2_def c1_def)
      with rel show ?thesis by blast
    qed
  qed
qed

section \<open>The whole search\<close>

lemma search_inv_any: "search_inv p C g P a UNIV q \<Longrightarrow> search_inv p C g P b UNIV q"
  unfolding search_inv_def by blast

lemma search_inv_complete:
  assumes "search_inv p C g P a D q" "\<And>y. y \<in> in_bounds p \<Longrightarrow> adjacent a y \<Longrightarrow> y \<in> D"
  shows "search_inv p C g P a UNIV q"
proof -
  have "\<forall>x \<in> P. \<forall>y \<in> in_bounds p. adjacent x y \<longrightarrow> y \<in> marked q \<or> \<not> traversable p y"
    using search_inv_closed [OF assms(1)] assms(2) by blast
  with assms(1) show ?thesis unfolding search_inv_def by blast
qed

text \<open>The cell taken from the queue is a cheapest one.\<close>

lemma plan_pop_inv:
  assumes S: "searchable p C" and I: "search_inv p C g P a UNIV q"
  shows "plan_pop q = Inr (None, q) \<and> marked q = P \<or>
    (\<exists>b h. b \<in> in_bounds p \<and> b \<notin> P \<and> plan_pop q = Inr (Some (pos_of p b), q\<lparr>plan_heap := h\<rparr>) \<and>
      search_inv p C g (insert b P) b {} (q\<lparr>plan_heap := h\<rparr>) \<and>
      (\<forall>z \<in> insert b P. cost_of (q\<lparr>plan_heap := h\<rparr>) z \<le> cost_of (q\<lparr>plan_heap := h\<rparr>) b))"
proof (cases "marked q - P = {}")
  note J = search_inv_sets [OF I]
  case True
  then have "heap_items (plan_heap q) = {#}" using search_inv_items [OF I] by (simp only: mset_set.empty image_mset_empty)
  then have "heap_empty (plan_heap q)" by (simp add: heap_empty_iff)
  moreover have "marked q = P" using True J by blast
  ultimately show ?thesis by (simp add: plan_pop_def)
next
  note J = search_inv_sets [OF I]
  note F = search_frameD [OF conjunct1 [OF J]]
  case False
  let ?f = "\<lambda>x. (PLAN_MAX_COST - cost_of q x, pos_of p x)"
  have it: "heap_items (plan_heap q) = image_mset ?f (mset_set (marked q - P))" using search_inv_items [OF I] .
  have fin: "finite (marked q - P)" by simp
  have ne: "heap_items (plan_heap q) \<noteq> {#}"
  proof
    assume "heap_items (plan_heap q) = {#}"
    then have "mset_set (marked q - P) = {#}" unfolding it by simp
    with False fin show False by (metis mset_set_empty_iff)
  qed
  from heap.get_ok [OF conjunct1 [OF conjunct2 [OF J]] ne] obtain k d h where
    h: "heap_extract_max (plan_heap q) = Inr (d, h)" "heap_ok h" "heap_items (plan_heap q) = add_mset (k, d) (heap_items h)"
      "\<forall>(k', d') \<in># heap_items (plan_heap q). k' \<le> k" by blast
  have "(k, d) \<in># heap_items (plan_heap q)" unfolding h(3) by simp
  then obtain b where b: "b \<in> marked q" "b \<notin> P" "k = PLAN_MAX_COST - cost_of q b" "d = pos_of p b"
    using fin by (auto simp: it)
  have less: "cost_of q b \<le> cost_of q y" if "y \<in> marked q - P" for y
  proof -
    have "?f y \<in># heap_items (plan_heap q)" unfolding it using that fin by (auto intro!: imageI)
    with h(4) have "PLAN_MAX_COST - cost_of q y \<le> k" by blast
    with b(3) show ?thesis by simp
  qed
  let ?q = "q\<lparr>plan_heap := h\<rparr>"
  have cells: "cell_of ?q = cell_of q" by (simp add: cell_of_def PLAN_INDEX_def fun_eq_iff)
  have mk: "marked ?q = marked q" unfolding cells by (simp add: in_bounds_def)
  have bB: "b \<in> in_bounds p" using b(1) by (simp add: F)
  have items': "heap_items h = image_mset ?f (mset_set (marked q - insert b P))"
  proof -
    have "marked q - P = insert b (marked q - insert b P)" using b by blast
    moreover have "mset_set (insert b (marked q - insert b P)) = add_mset b (mset_set (marked q - insert b P))"
      by (rule mset_set.insert) (use fin in auto)
    ultimately have "mset_set (marked q - P) = add_mset b (mset_set (marked q - insert b P))" by (simp only:)
    then have "add_mset (k, d) (heap_items h) = add_mset (?f b) (image_mset ?f (mset_set (marked q - insert b P)))"
      using h(3) it by (simp only: image_mset_add_mset)
    then show ?thesis using b(3,4) by (simp only: add_mset_add_mset_same_iff)
  qed
  have reach: "reached_by p ?q (insert b P) x" if "x \<in> marked q" "x \<noteq> g" for x
  proof -
    from search_inv_reached [OF I that] obtain y where y: "y \<in> P" "traversable p x" "plan_next (cell_of q x) = Some (pos_of p y)"
      "adjacent y x" "cost_of q x = cost_of q y + edge p y x" "\<forall>z \<in> P. adjacent z x \<longrightarrow> cost_of q y \<le> cost_of q z"
      unfolding reached_by_def by blast
    moreover have "cost_of q y \<le> cost_of q b" using search_inv_order [OF I y(1) b(1,2)] .
    ultimately show ?thesis unfolding reached_by_def cells by blast
  qed
  have "search_inv p C g (insert b P) b {} ?q"
    unfolding search_inv_def
  proof (intro conjI)
    show "search_frame p ?q" using J search_frame_heap by blast
    show "heap_ok (plan_heap ?q)" using h(2) by simp
    show "insert b P \<subseteq> marked ?q" unfolding mk using b(1) J by blast
    show "g \<in> marked ?q" "cost_of ?q g = 0" "plan_next (cell_of ?q g) = None"
      unfolding mk unfolding cells using search_inv_goal [OF I] by blast+
    show "heap_items (plan_heap ?q) = image_mset (\<lambda>x. (PLAN_MAX_COST - cost_of ?q x, pos_of p x)) (mset_set (marked ?q - insert b P))"
      unfolding mk unfolding cells using items' by simp
    show "\<forall>x \<in> in_bounds p - marked ?q. cost_of ?q x = PLAN_MAX_COST \<and> plan_next (cell_of ?q x) = None"
      unfolding mk unfolding cells using search_inv_unmarked [OF I] by blast
    show "\<forall>x \<in> marked ?q - {g}. reached_by p ?q (insert b P) x" unfolding mk using reach by blast
    show "\<forall>x \<in> insert b P. \<forall>y \<in> marked ?q - insert b P. cost_of ?q x \<le> cost_of ?q y"
      unfolding mk unfolding cells using less search_inv_order [OF I] by blast
    show "\<forall>x \<in> insert b P. \<forall>y \<in> in_bounds p. adjacent x y \<longrightarrow> (x = b \<longrightarrow> y \<in> {}) \<longrightarrow> y \<in> marked ?q \<or> \<not> traversable p y"
      unfolding mk using search_inv_closed [OF I] by blast
    show "\<forall>x \<in> marked ?q. 0 \<le> cost_of ?q x \<and> cost_of ?q x \<le> C * (real (card (marked ?q)) - 1)"
      unfolding mk unfolding cells using search_inv_costs [OF I] by blast
  qed
  moreover have "\<forall>z \<in> insert b P. cost_of ?q z \<le> cost_of ?q b"
    unfolding cells using search_inv_order [OF I _ b(1,2)] by blast
  moreover have "plan_pop q = Inr (Some (pos_of p b), ?q)"
    using h(1) ne b(4) by (simp add: plan_pop_def heap_empty_iff)
  ultimately show ?thesis using bB b(2) by blast
qed

lemma relax_all_inv:
  assumes S: "searchable p C" and I: "search_inv p C g P a {} q" and a: "a \<in> P" and L: "\<forall>z \<in> P. cost_of q z \<le> cost_of q a"
  shows "\<exists>q'. foldo (relax (pos_of p a) (fst a) (snd a)) (zip (offsets 1) (dist_kernel_3x3 p)) q = Inr q' \<and>
    search_inv p C g P a UNIV q'"
proof -
  let ?xs = "map (\<lambda>d. (d, kernel_entry (scale p) d)) (offsets 1)"
  let ?D = "\<lambda>ys. (\<lambda>d. (fst a + fst (fst d), snd a + snd (fst d))) ` set ys"
  obtain q' where q': "foldo (relax (pos_of p a) (fst a) (snd a)) ?xs q = Inr q'" "search_inv p C g P a (?D ?xs) q'"
  proof -
  have "\<exists>q'. foldo (relax (pos_of p a) (fst a) (snd a)) ?xs q = Inr q' \<and>
    (search_inv p C g P a (?D ?xs) q' \<and> (\<forall>z \<in> P. cost_of q' z \<le> cost_of q' a))"
  proof (rule foldo_prefix_inv)
    fix ys x zs q1
    assume xs: "?xs = ys @ x # zs" and J: "search_inv p C g P a (?D ys) q1 \<and> (\<forall>z \<in> P. cost_of q1 z \<le> cost_of q1 a)"
    have "x \<in> set ?xs" unfolding xs by simp
    then obtain di dj where x: "x = ((di, dj), kernel_entry (scale p) (di, dj))" "(di, dj) \<in> set (offsets 1)" by auto
    have "?D (ys @ [x]) = insert (fst a + di, snd a + dj) (?D ys)" by (simp add: x)
    with relax_inv [OF S conjunct1 [OF J] a conjunct2 [OF J] x(2)]
    show "\<exists>q'. relax (pos_of p a) (fst a) (snd a) x q1 = Inr q' \<and>
      (search_inv p C g P a (?D (ys @ [x])) q' \<and> (\<forall>z \<in> P. cost_of q' z \<le> cost_of q' a))"
      by (simp only: x(1))
  qed (use I L in simp)
  then show ?thesis using that by blast
  qed
  moreover have "zip (offsets 1) (dist_kernel_3x3 p) = ?xs" using S by (simp add: searchable_def zip_map_self)
  moreover have "y \<in> ?D ?xs" if "adjacent a y" for y
  proof -
    have "(fst y - fst a, snd y - snd a) \<in> set (offsets 1)"
      using that adjacent_offset [of "fst a" "snd a" "fst y - fst a" "snd y - snd a"] by simp
    then show ?thesis by (force simp: image_iff)
  qed
  ultimately show ?thesis using search_inv_complete [OF q'(2)] by auto
qed

lemma search_ok:
  assumes S: "searchable p C"
  shows "search_inv p C g P a UNIV q \<Longrightarrow> card (in_bounds p) \<le> n + card P \<Longrightarrow>
    \<exists>q'. search n q = Inr q' \<and> search_inv p C g (marked q') a UNIV q'"
proof (induction n arbitrary: P q)
  case 0
  note J = search_inv_sets [OF 0(1)]
  note F = search_frameD [OF conjunct1 [OF J]]
  have "P = in_bounds p" using 0(2) J by (intro card_seteq) (auto simp: F)
  then have m: "marked q = P" using J by (auto simp: F)
  then have "heap_items (plan_heap q) = {#}" using search_inv_items [OF 0(1)] by simp
  with m 0(1) show ?case by (simp add: heap_empty_iff)
next
  case (Suc n)
  note J = search_inv_sets [OF Suc.prems(1)]
  note F = search_frameD [OF conjunct1 [OF J]]
  from plan_pop_inv [OF S Suc.prems(1)] show ?case
  proof (elim disjE exE conjE)
    assume "plan_pop q = Inr (None, q)" and m: "marked q = P"
    with Suc.prems(1) show ?thesis by (auto simp: m)
  next
    fix b h
    let ?q = "q\<lparr>plan_heap := h\<rparr>"
    assume b: "b \<in> in_bounds p" "b \<notin> P" and pop: "plan_pop q = Inr (Some (pos_of p b), ?q)"
      and I: "search_inv p C g (insert b P) b {} ?q" and L: "\<forall>z \<in> insert b P. cost_of ?q z \<le> cost_of ?q b"
    have ok: "plan_ok p" "grid_ok p" "coords_ok p" using S by (simp_all add: searchable_def plan_ok_def)
    have bM: "b \<in> on_map p" using b on_map_bounds [OF ok(1)] by blast
    note F' = search_frameD [OF conjunct1 [OF search_inv_sets [OF I]]]
    have at: "cell_at (int (pos_of p b)) ?q = Inr (cell_of ?q b)"
      using cell_at_pos [of ?q b] ok bM by (simp only: F')
    have co: "ci (cell_of ?q b) = fst b" "cj (cell_of ?q b) = snd b"
      using search_frame_cell(1,2) [OF conjunct1 [OF search_inv_sets [OF I]] bM] cell_coords [OF ok(2,3), of "fst b" "snd b"] bM
      by simp_all
    from relax_all_inv [OF S I _ L] obtain q1 where
      q1: "foldo (relax (pos_of p b) (fst b) (snd b)) (zip (offsets 1) (dist_kernel_3x3 p)) ?q = Inr q1"
        "search_inv p C g (insert b P) b UNIV q1" by blast
    have "finite P" using J finite_subset [of P "in_bounds p"] by (auto simp: F)
    with b(2) Suc.prems(2) have "card (in_bounds p) \<le> n + card (insert b P)" by simp
    from Suc.IH [OF search_inv_any [OF q1(2)] this] obtain q' where "search n q1 = Inr q'" "search_inv p C g (marked q') a UNIV q'"
      by blast
    moreover have "search (Suc n) q = search n q1"
      using pop at co q1(1) by (simp add: F' del: select_convs update_convs)
    ultimately show ?thesis by metis
  qed
qed

end
