(* ===== verification/PlanRoute.thy ===== *)
theory PlanRoute
  imports PlanSearch
begin

text \<open>
  What the planner of \<open>plan_plan.c\<close> finds: a path whenever there is a route between the cells, and the path it stores is
  such a route that goes down in cost from each cell to its cheapest neighbour.
\<close>

section \<open>Routes and parameters\<close>

text \<open>A route keeps off the cells near obstacles; its first and last cell are not looked at.\<close>

definition route :: "plan \<Rightarrow> (int \<times> int) set \<Rightarrow> (int \<times> int) list \<Rightarrow> bool" where
  "route p A xs \<longleftrightarrow> xs \<noteq> [] \<and> set xs \<subseteq> A \<and> successively adjacent xs \<and> (\<forall>x \<in> set (butlast (tl xs)). traversable p x)"

definition max_step :: "plan \<Rightarrow> real" where
  "max_step p = sqrt 2 * scale p * max 1 (hysteresis_factor p) + dist_penalty p * max_radius p"

definition planner_ok :: "plan \<Rightarrow> bool" where
  "planner_ok p \<longleftrightarrow> plan_ok p \<and> dist_kernel_3x3 p = map (kernel_entry (scale p)) (offsets 1) \<and>
     0 < scale p \<and> 0 < hysteresis_factor p \<and> 0 \<le> dist_penalty p \<and> 0 \<le> max_radius p \<and> abs_min_radius p \<le> max_radius p \<and>
     (\<forall>x \<in> on_map p. 0 \<le> occ_dist_dyn (cell_of p x)) \<and>
     max_step p * real (length (cells p)) < PLAN_MAX_COST"

lemma kernel_step: "adjacent x y \<Longrightarrow> 0 < s \<Longrightarrow>
  0 < kernel_entry s (fst y - fst x, snd y - snd x) \<and> kernel_entry s (fst y - fst x, snd y - snd x) \<le> sqrt 2 * s"
proof -
  assume a: "adjacent x y" and s: "0 < s"
  let ?i = "fst y - fst x" and ?j = "snd y - snd x"
  have b: "\<bar>?i\<bar> \<le> 1" "\<bar>?j\<bar> \<le> 1" "?i \<noteq> 0 \<or> ?j \<noteq> 0"
    using a by (auto simp: adjacent_def prod_eq_iff)
  then have "?i \<in> {-1, 0, 1}" "?j \<in> {-1, 0, 1}" by auto
  define n where "n = ?i * ?i + ?j * ?j"
  have "n = 1 \<or> n = 2" using \<open>?i \<in> {-1, 0, 1}\<close> \<open>?j \<in> {-1, 0, 1}\<close> b(3) by (auto simp: n_def)
  then have "0 < sqrt (of_int n) * s" "sqrt (of_int n) * s \<le> sqrt 2 * s" using s by auto
  then show ?thesis by (simp only: kernel_entry_def n_def prod.case)
qed

lemma edge_bounds:
  assumes k: "0 < scale p" "0 < hysteresis_factor p" "0 \<le> dist_penalty p" "0 \<le> max_radius p"
    and o: "0 \<le> occ_dist_dyn (cell_of p y)" and a: "adjacent x y"
  shows "0 < edge p x y \<and> edge p x y \<le> max_step p"
proof -
  let ?d = "kernel_entry (scale p) (fst y - fst x, snd y - snd x)" and ?c = "cell_of p y"
  let ?h = "if lpathmark ?c then ?d * hysteresis_factor p else ?d"
  let ?o = "if occ_dist_dyn ?c < max_radius p then dist_penalty p * (max_radius p - occ_dist_dyn ?c) else 0"
  have d: "0 < ?d" "?d \<le> sqrt 2 * scale p" using kernel_step [OF a k(1)] by simp_all
  have "?h \<le> ?d * max 1 (hysteresis_factor p)" using d by (simp add: mult_left_mono)
  also have "\<dots> \<le> sqrt 2 * scale p * max 1 (hysteresis_factor p)" using d by (intro mult_right_mono) auto
  finally have h: "?h \<le> sqrt 2 * scale p * max 1 (hysteresis_factor p)" .
  have "?o \<le> dist_penalty p * max_radius p" using k o by (auto intro!: mult_left_mono)
  moreover have "0 < ?h" using d k by simp
  moreover have "0 \<le> ?o" using k by simp
  ultimately show ?thesis using h by (simp add: edge_def step_cost_def max_step_def)
qed

lemma card_in_bounds_le: "grid_ok p \<Longrightarrow> bounds_ok p \<Longrightarrow> card (in_bounds p) \<le> length (cells p)"
  using card_mono [OF finite_on_map bounds_on_map] card_on_map by metis

lemma planner_searchable: "planner_ok p \<Longrightarrow> searchable p (max_step p)"
proof -
  assume p: "planner_ok p"
  then have ok: "plan_ok p" "grid_ok p" "bounds_ok p" by (simp_all add: planner_ok_def plan_ok_def)
  have e: "0 < edge p x y \<and> edge p x y \<le> max_step p" if "y \<in> in_bounds p" "adjacent x y" for x y
    using edge_bounds [of p y x] p that on_map_bounds [OF ok(1)] by (auto simp: planner_ok_def)
  have m: "0 \<le> max_step p" using p by (simp add: planner_ok_def max_step_def)
  have "max_step p * real (card (in_bounds p)) \<le> max_step p * real (length (cells p))"
    using card_in_bounds_le [OF ok(2,3)] m by (intro mult_left_mono) simp_all
  with p e m show ?thesis by (auto simp: searchable_def planner_ok_def)
qed

section \<open>Reset\<close>

definition reset_cell :: "plan_cell \<Rightarrow> plan_cell" where
  "reset_cell c = c\<lparr>plan_cost := PLAN_MAX_COST, plan_next := None, mark := False\<rparr>"

lemma distinct_bound_cells: "distinct (bound_cells p)"
proof -
  have "distinct (concat (map (\<lambda>j. map (\<lambda>i. (i, j)) is) js))" if "distinct is" "distinct js" for "is" js :: "int list"
    using that(2) by (induction js) (auto simp: that(1) distinct_map inj_on_def)
  then show ?thesis by (simp add: bound_cells_def)
qed

lemma plan_reset_ok:
  assumes g: "grid_ok p" and b: "bounds_ok p"
  shows "\<exists>q. plan_reset p = Inr (q\<lparr>waypoints := []\<rparr>) \<and> same_frame p q \<and>
    (\<forall>x \<in> on_map p. cell_of q x = (if x \<in> in_bounds p then reset_cell (cell_of p x) else cell_of p x))"
proof -
  let ?step = "\<lambda>(i, j). upd_cell (PLAN_INDEX p i j) (\<lambda>c. c\<lparr>plan_cost := PLAN_MAX_COST, plan_next := None, mark := False\<rparr>)"
  have "\<exists>q. foldo ?step (bound_cells p) p = Inr q \<and> (same_frame p q \<and>
    (\<forall>x \<in> on_map p. cell_of q x = (if x \<in> set (bound_cells p) then reset_cell (cell_of p x) else cell_of p x)))"
  proof (rule foldo_prefix_inv)
    fix ys x zs q
    assume xs: "bound_cells p = ys @ x # zs"
      and I: "same_frame p q \<and> (\<forall>x \<in> on_map p. cell_of q x = (if x \<in> set ys then reset_cell (cell_of p x) else cell_of p x))"
    have "x \<in> set (bound_cells p)" unfolding xs by simp
    then have x: "x \<in> on_map p" using bounds_on_map [OF b] by auto
    have new: "x \<notin> set ys" using distinct_bound_cells [of p] unfolding xs by auto
    obtain i j where ij: "x = (i, j)" by (cases x)
    note F = same_frameD [OF conjunct1 [OF I]]
    let ?q = "put_cell x (reset_cell (cell_of q x)) q"
    have "?step x q = Inr ?q"
      using upd_cell_map [of q i j] g x by (simp add: ij F reset_cell_def)
    moreover have "same_frame p ?q" using I same_frame_trans same_frame_put by blast
    moreover have "cell_of ?q y = (if y = x then reset_cell (cell_of q x) else cell_of q y)" if "y \<in> on_map p" for y
      using cell_of_put [of q x y] g x that by (simp add: F)
    ultimately show "\<exists>q'. ?step x q = Inr q' \<and> (same_frame p q' \<and>
      (\<forall>y \<in> on_map p. cell_of q' y = (if y \<in> set (ys @ [x]) then reset_cell (cell_of p y) else cell_of p y)))"
      using I x new by auto
  qed simp
  then obtain q where q: "foldo ?step (bound_cells p) p = Inr q" "same_frame p q"
    "\<forall>x \<in> on_map p. cell_of q x = (if x \<in> in_bounds p then reset_cell (cell_of p x) else cell_of p x)" by auto
  have "plan_reset p = Inr (q\<lparr>waypoints := []\<rparr>)" using q(1) by (simp add: plan_reset_def)
  with q show ?thesis by blast
qed

definition fresh_map :: "plan \<Rightarrow> bool" where
  "fresh_map p \<longleftrightarrow> (\<forall>x \<in> in_bounds p. \<not> mark (cell_of p x) \<and> plan_cost (cell_of p x) = PLAN_MAX_COST \<and> plan_next (cell_of p x) = None)"

section \<open>One update\<close>

text \<open>The pointer of \<open>x\<close> leads to the neighbour \<open>y\<close>, which has lower cost and is a cheapest neighbour.\<close>

definition leads_to :: "plan \<Rightarrow> plan \<Rightarrow> int \<times> int \<Rightarrow> int \<times> int \<Rightarrow> bool" where
  "leads_to p q x y \<longleftrightarrow> plan_next (cell_of q x) = Some (pos_of p y) \<and> adjacent y x \<and> cost_of q y < cost_of q x \<and>
     (\<forall>z \<in> marked q. adjacent z x \<longrightarrow> cost_of q y \<le> cost_of q z)"

definition descends :: "plan \<Rightarrow> plan \<Rightarrow> int \<times> int \<Rightarrow> bool" where
  "descends p q x \<longleftrightarrow> (\<exists>y \<in> marked q. leads_to p q x y)"

text \<open>The result of a search from \<open>G\<close> with the obstacle state of \<open>L\<close> cleared.\<close>

definition plan_result :: "plan \<Rightarrow> int \<times> int \<Rightarrow> int \<times> int \<Rightarrow> plan \<Rightarrow> bool" where
  "plan_result p L G q \<longleftrightarrow> search_frame p q \<and> G \<in> marked q \<and> plan_next (cell_of q G) = None \<and> cost_of q G = 0 \<and>
     (\<forall>x \<in> marked q - {G}. (x = L \<or> traversable p x) \<and> descends p q x) \<and>
     (\<forall>x \<in> marked q. \<forall>y \<in> in_bounds p. adjacent x y \<longrightarrow> y \<in> marked q \<or> (y \<noteq> L \<and> \<not> traversable p y)) \<and>
     (\<forall>x \<in> in_bounds p - marked q. plan_next (cell_of q x) = None)"

lemma plan_resultD:
  assumes "plan_result p L G q"
  shows "search_frame p q" "G \<in> marked q" "plan_next (cell_of q G) = None"
    "\<And>x. x \<in> marked q \<Longrightarrow> x \<noteq> G \<Longrightarrow> x = L \<or> traversable p x" "\<And>x. x \<in> marked q \<Longrightarrow> x \<noteq> G \<Longrightarrow> descends p q x"
    "\<And>x y. x \<in> marked q \<Longrightarrow> y \<in> in_bounds p \<Longrightarrow> adjacent x y \<Longrightarrow> y \<in> marked q \<or> (y \<noteq> L \<and> \<not> traversable p y)"
    "\<And>x. x \<in> in_bounds p \<Longrightarrow> x \<notin> marked q \<Longrightarrow> plan_next (cell_of q x) = None" "cost_of q G = 0"
  using assms unfolding plan_result_def by blast+

abbreviation latched :: "plan_cell \<Rightarrow> plan \<Rightarrow> plan_cell" where
  "latched c p \<equiv> c\<lparr>occ_state_dyn := - 1, occ_dist_dyn := max_radius p\<rparr>"

lemma nth_update_same: "(\<And>c. f (u c) = f c) \<Longrightarrow> f (xs[m := u (xs ! m)] ! k) = f (xs ! k)"
  by (cases "m = k"; cases "m < length xs") (auto simp: list_update_beyond)

lemma latch_ok:
  assumes p: "planner_ok p" and L: "L \<in> on_map p"
  shows "planner_ok (put_cell L (latched (cell_of p L) p) p)"
    and "x \<in> on_map p \<Longrightarrow> traversable (put_cell L (latched (cell_of p L) p) p) x \<longleftrightarrow> x = L \<or> traversable p x"
proof -
  have g: "grid_ok p" and c: "coords_ok p" using p by (simp_all add: planner_ok_def plan_ok_def)
  let ?q = "put_cell L (latched (cell_of p L) p) p"
  note F = same_frameD [OF same_frame_put [of p L "latched (cell_of p L) p"]]
  have cell: "cell_of ?q y = (if y = L then latched (cell_of p L) p else cell_of p y)" if "y \<in> on_map p" for y
    using cell_of_put [OF g L that] by simp
  have same: "scale ?q = scale p" "hysteresis_factor ?q = hysteresis_factor p" "dist_penalty ?q = dist_penalty p"
    "max_radius ?q = max_radius p" "abs_min_radius ?q = abs_min_radius p" "dist_kernel_3x3 ?q = dist_kernel_3x3 p"
    "plan_heap ?q = plan_heap p" "max_step ?q = max_step p"
    by (simp_all add: put_cell_def max_step_def)
  have "ci ((cells p)[m := latched (cells p ! m) p] ! k) = ci (cells p ! k)"
    "cj ((cells p)[m := latched (cells p ! m) p] ! k) = cj (cells p ! k)" for m k
    by (rule nth_update_same, simp)+
  then have "coords_ok ?q"
    using c by (cases L) (simp add: coords_ok_def put_cell_def cell_of_def)
  with p have "plan_ok ?q" by (simp add: planner_ok_def plan_ok_def F same)
  with p show "planner_ok ?q" by (auto simp: planner_ok_def F same cell)
  show "traversable ?q x \<longleftrightarrow> x = L \<or> traversable p x" if "x \<in> on_map p"
    using p cell [OF that] by (auto simp: traversable_def same planner_ok_def)
qed

lemma search_inv_start:
  assumes S: "searchable p C" and f: "fresh_map p" and G: "G \<in> in_bounds p" and h0: "heap_items (plan_heap p) = {#}"
  shows "\<exists>q. bindo (upd_cell (int (pos_of p G)) (\<lambda>c. c\<lparr>plan_cost := 0\<rparr>) p) (plan_push (pos_of p G)) = Inr q \<and>
    search_inv p C G {} G UNIV q"
proof -
  have ok: "plan_ok p" "grid_ok p" "heap_ok (plan_heap p)" using S by (simp_all add: searchable_def plan_ok_def)
  have Gm: "G \<in> on_map p" using on_map_bounds [OF ok(1) G] .
  define c1 where "c1 = (cell_of p G)\<lparr>plan_cost := 0\<rparr>"
  define q1 where "q1 = put_cell G c1 p"
  have u: "upd_cell (int (pos_of p G)) (\<lambda>c. c\<lparr>plan_cost := 0\<rparr>) p = Inr q1"
    using upd_cell_pos [OF ok(2) Gm] by (simp add: q1_def c1_def)
  have fr1: "search_frame p q1"
    unfolding q1_def by (rule search_frame_put [OF search_frame_refl ok(2) Gm, where m = "mark (cell_of p G)" and v = 0 and n = "plan_next (cell_of p G)"])
      (simp add: c1_def)
  note F1 = search_frameD [OF fr1]
  have cell1: "cell_of q1 z = (if z = G then c1 else cell_of p z)" if "z \<in> on_map p" for z
    using cell_of_put [OF ok(2) Gm that] by (simp add: q1_def)
  have h1: "plan_heap q1 = plan_heap p" by (simp add: q1_def put_cell_def)
  define c2 where "c2 = c1\<lparr>mark := True\<rparr>"
  have "cell_of q1 G = c1" using cell1 [OF Gm] by simp
  with plan_push_ok [of q1 G] ok Gm obtain h where
    h: "plan_push (pos_of p G) q1 = Inr ((put_cell G c2 q1)\<lparr>plan_heap := h\<rparr>)" "heap_ok h"
      "heap_items h = {#(PLAN_MAX_COST, pos_of p G)#}"
    by (auto simp: F1 h1 c1_def c2_def h0)
  define q2 where "q2 = (put_cell G c2 q1)\<lparr>plan_heap := h\<rparr>"
  have "search_frame p (put_cell G c2 q1)"
    by (rule search_frame_put [OF fr1 ok(2) Gm, where m = True and v = 0 and n = "plan_next (cell_of p G)"])
      (simp add: c2_def cell1 [OF Gm] c1_def)
  then have fr2: "search_frame p q2" unfolding q2_def by (rule search_frame_heap)
  note F2 = search_frameD [OF fr2]
  have cell2: "cell_of q2 z = (if z = G then c2 else cell_of p z)" if "z \<in> on_map p" for z
  proof -
    have "cell_of q2 z = cell_of (put_cell G c2 q1) z"
      by (cases z) (simp add: q2_def cell_of_def PLAN_INDEX_def)
    with cell_of_put [of q1 G z c2] ok Gm that cell1 [OF that] show ?thesis by (simp add: F1)
  qed
  have cellB: "cell_of q2 z = (if z = G then c2 else cell_of p z)" if "z \<in> in_bounds p" for z
    using cell2 on_map_bounds [OF ok(1) that] by blast
  have mk: "marked q2 = {G}" using f G by (auto simp: F2 cellB fresh_map_def c2_def split: if_splits)
  have hq: "plan_heap q2 = h" by (simp add: q2_def)
  have cG: "cell_of q2 G = c2" using cellB [OF G] by simp
  have "search_inv p C G {} G UNIV q2"
    unfolding search_inv_def mk
  proof (intro conjI)
    show "search_frame p q2" by (rule fr2)
    show "heap_ok (plan_heap q2)" "heap_items (plan_heap q2) = image_mset (\<lambda>x. (PLAN_MAX_COST - cost_of q2 x, pos_of p x)) (mset_set ({G} - {}))"
      unfolding hq using h by (simp_all add: cG c2_def c1_def)
    show "cost_of q2 G = 0" "plan_next (cell_of q2 G) = None" using f G by (simp_all add: cG c2_def c1_def fresh_map_def)
    show "\<forall>x \<in> in_bounds p - {G}. cost_of q2 x = PLAN_MAX_COST \<and> plan_next (cell_of q2 x) = None"
      using f cellB by (simp add: fresh_map_def)
    show "\<forall>x \<in> {G}. 0 \<le> cost_of q2 x \<and> cost_of q2 x \<le> C * (real (card {G}) - 1)"
      by (simp add: cG c2_def c1_def)
  qed auto
  with u h(1) show ?thesis by (simp add: q2_def)
qed

lemma heap_update_simps [simp]:
  "cell_of (p\<lparr>plan_heap := h\<rparr>) = cell_of p" "on_map (p\<lparr>plan_heap := h\<rparr>) = on_map p"
  "in_bounds (p\<lparr>plan_heap := h\<rparr>) = in_bounds p" "grid_ok (p\<lparr>plan_heap := h\<rparr>) = grid_ok p"
  "bounds_ok (p\<lparr>plan_heap := h\<rparr>) = bounds_ok p" "coords_ok (p\<lparr>plan_heap := h\<rparr>) = coords_ok p"
  "PLAN_INDEX (p\<lparr>plan_heap := h\<rparr>) = PLAN_INDEX p" "PLAN_GXWX (p\<lparr>plan_heap := h\<rparr>) = PLAN_GXWX p"
  "PLAN_GYWY (p\<lparr>plan_heap := h\<rparr>) = PLAN_GYWY p" "traversable (p\<lparr>plan_heap := h\<rparr>) = traversable p"
  "max_step (p\<lparr>plan_heap := h\<rparr>) = max_step p" "pos_of (p\<lparr>plan_heap := h\<rparr>) = pos_of p"
  "PLAN_VALID_BOUNDS (p\<lparr>plan_heap := h\<rparr>) = PLAN_VALID_BOUNDS p"
  by (simp_all add: cell_of_def PLAN_INDEX_def fun_eq_iff on_map_def in_bounds_def grid_ok_def bounds_ok_def coords_ok_def
      PLAN_GXWX_def PLAN_GYWY_def traversable_def max_step_def pos_of_def PLAN_VALID_BOUNDS_def)

lemma put_frame:
  "PLAN_GXWX (put_cell x c p) = PLAN_GXWX p" "PLAN_GYWY (put_cell x c p) = PLAN_GYWY p" "plan_heap (put_cell x c p) = plan_heap p"
  "pos_of (put_cell x c p) = pos_of p"
  by (simp_all add: put_cell_def PLAN_GXWX_def PLAN_GYWY_def pos_of_def PLAN_INDEX_def fun_eq_iff)

text \<open>Clearing a cell, searching and restoring the cell is a search of the whole.\<close>

lemma latched_search_frame:
  assumes g: "grid_ok p" and L: "L \<in> on_map p" and f: "search_frame (put_cell L (latched (cell_of p L) p) p) q"
  shows "search_frame p (put_cell L ((cell_of q L)\<lparr>occ_state_dyn := occ_state_dyn (cell_of p L), occ_dist_dyn := occ_dist_dyn (cell_of p L)\<rparr>) q)"
    (is "search_frame p (put_cell L ?c q)")
proof -
  let ?p = "put_cell L (latched (cell_of p L) p) p"
  note P = same_frameD [OF same_frame_put [of p L "latched (cell_of p L) p"]]
  note F = search_frameD [OF f]
  obtain cs h where q: "q = ?p\<lparr>cells := cs, plan_heap := h\<rparr>" "length cs = length (cells ?p)" using f by (auto simp: search_frame_def)
  have "\<exists>cs' h'. put_cell L ?c q = p\<lparr>cells := cs', plan_heap := h'\<rparr> \<and> length cs' = length (cells p)"
    using q by (intro exI [of _ "cs[nat (PLAN_INDEX q (fst L) (snd L)) := ?c]"] exI [of _ h]) (simp add: put_cell_def)
  moreover have "\<exists>m c n. cell_of (put_cell L ?c q) x = (cell_of p x)\<lparr>mark := m, plan_cost := c, plan_next := n\<rparr>"
    if x: "x \<in> on_map p" for x
  proof -
    have 1: "cell_of (put_cell L ?c q) x = (if x = L then ?c else cell_of q x)"
      using cell_of_put [of q L x ?c] g L x by (simp add: F P)
    have 2: "cell_of ?p x = (if x = L then latched (cell_of p L) p else cell_of p x)"
      using cell_of_put [OF g L x] by simp
    obtain m c n where "cell_of q x = (cell_of ?p x)\<lparr>mark := m, plan_cost := c, plan_next := n\<rparr>"
      using f x by (auto simp: search_frame_def P)
    with 1 2 show ?thesis
      by (intro exI [of _ m] exI [of _ c] exI [of _ n]) (cases "cell_of p x"; auto)
  qed
  ultimately show ?thesis by (simp add: search_frame_def)
qed

lemma search_result:
  assumes p: "planner_ok p" and L: "L \<in> in_bounds p" and I: "search_inv (put_cell L (latched (cell_of p L) p) p) C G (marked q) a UNIV q"
    and q': "q' = put_cell L ((cell_of q L)\<lparr>occ_state_dyn := occ_state_dyn (cell_of p L), occ_dist_dyn := occ_dist_dyn (cell_of p L)\<rparr>) q"
    and S: "searchable (put_cell L (latched (cell_of p L) p) p) C"
  shows "plan_result p L G q' \<and> marked q' = marked q \<and> plan_next (cell_of q' L) = plan_next (cell_of q L)"
proof -
  let ?p = "put_cell L (latched (cell_of p L) p) p"
  have ok: "plan_ok p" "grid_ok p" using p by (simp_all add: planner_ok_def plan_ok_def)
  have Lm: "L \<in> on_map p" using on_map_bounds [OF ok(1) L] .
  note P = same_frameD [OF same_frame_put [of p L "latched (cell_of p L) p"]] and H = search_inv_sets [OF I]
  note F = search_frameD [OF conjunct1 [OF H]]
  have fr: "search_frame p q'" unfolding q' by (rule latched_search_frame [OF ok(2) Lm conjunct1 [OF H]])
  note F' = search_frameD [OF fr]
  have cell: "mark (cell_of q' x) = mark (cell_of q x)" "plan_cost (cell_of q' x) = plan_cost (cell_of q x)"
    "plan_next (cell_of q' x) = plan_next (cell_of q x)" if "x \<in> in_bounds p" for x
    using cell_of_put [of q L x "(cell_of q L)\<lparr>occ_state_dyn := occ_state_dyn (cell_of p L), occ_dist_dyn := occ_dist_dyn (cell_of p L)\<rparr>"]
      ok(2) Lm on_map_bounds [OF ok(1) that] by (simp_all add: q' F P)
  have mk: "marked q' = marked q" using cell by (auto simp: F F' P)
  have mB: "x \<in> in_bounds p" if "x \<in> marked q" for x using that by (simp add: F P)
  have tr: "traversable ?p x \<longleftrightarrow> x = L \<or> traversable p x" if "x \<in> in_bounds p" for x
    using latch_ok(2) [OF p Lm on_map_bounds [OF ok(1) that]] .
  have "plan_result p L G q'"
    unfolding plan_result_def mk
  proof (intro conjI ballI impI)
    show "search_frame p q'" by (rule fr)
    show G: "G \<in> marked q" using search_inv_goal [OF I] by blast
    from search_inv_goal [OF I] cell(3) [OF mB [OF G]] show "plan_next (cell_of q' G) = None" by simp
    from search_inv_goal [OF I] cell(2) [OF mB [OF G]] show "cost_of q' G = 0" by simp
  next
    fix x assume x: "x \<in> marked q - {G}"
    then have r: "reached_by ?p q (marked q) x" using search_inv_reached [OF I] by blast
    with tr mB x show "x = L \<or> traversable p x" unfolding reached_by_def by blast
    from r obtain y where y: "y \<in> marked q" "plan_next (cell_of q x) = Some (pos_of p y)" "adjacent y x"
      "cost_of q x = cost_of q y + edge ?p y x" "\<forall>z \<in> marked q. adjacent z x \<longrightarrow> cost_of q y \<le> cost_of q z"
      unfolding reached_by_def put_frame by blast
    have "0 < edge ?p y x" using S y(1,3) x mB by (auto simp: searchable_def P)
    with y(4) have "cost_of q y < cost_of q x" by simp
    with y x mB cell show "descends p q' x"
      unfolding descends_def leads_to_def mk by (intro bexI [OF _ y(1)]) (simp add: cell mB)
  next
    fix x y assume "x \<in> marked q" "y \<in> in_bounds p" "adjacent x y"
    with search_inv_closed [OF I, of x y] tr [of y] show "y \<in> marked q \<or> (y \<noteq> L \<and> \<not> traversable p y)" by (auto simp: P)
  next
    fix x assume x: "x \<in> in_bounds p - marked q"
    with search_inv_unmarked [OF I, of x] cell(3) [of x] show "plan_next (cell_of q' x) = None" by (simp add: P)
  qed
  with mk cell(3) [OF L] show ?thesis by blast
qed

lemma update_plan_ok:
  assumes p: "planner_ok p" and f: "fresh_map p" and L: "L \<in> in_bounds p" and G: "G \<in> in_bounds p" and LG: "L \<noteq> G"
    and conv: "PLAN_GXWX p lx = Inr (fst L)" "PLAN_GYWY p ly = Inr (snd L)" "PLAN_GXWX p gx = Inr (fst G)" "PLAN_GYWY p gy = Inr (snd G)"
  shows "\<exists>q. plan_update_plan lx ly gx gy p = Inr (if L \<in> marked q then 0 else - 1, q) \<and> plan_result p L G q"
proof -
  define p1 where "p1 = p\<lparr>plan_heap := heap_reset (plan_heap p)\<rparr>"
  have ok: "plan_ok p" "grid_ok p" "bounds_ok p" "heap_ok (plan_heap p)" using p by (simp_all add: planner_ok_def plan_ok_def)
  have p1: "planner_ok p1" using p by (simp add: planner_ok_def plan_ok_def p1_def)
  have Lm: "L \<in> on_map p" and Gm: "G \<in> on_map p" using on_map_bounds [OF ok(1)] L G by blast+
  define p2 where "p2 = put_cell L (latched (cell_of p1 L) p1) p1"
  note P2 = same_frameD [OF same_frame_put [of p1 L "latched (cell_of p1 L) p1"], folded p2_def]
  have pl2: "planner_ok p2" using latch_ok(1) [OF p1] Lm by (simp add: p2_def p1_def)
  note S = planner_searchable [OF pl2]
  have cell2: "cell_of p2 x = (if x = L then latched (cell_of p1 L) p1 else cell_of p1 x)" if "x \<in> on_map p" for x
    using cell_of_put [of p1 L x] ok(2) Lm that by (simp add: p2_def p1_def)
  have f2: "fresh_map p2"
    using f cell2 on_map_bounds [OF ok(1)] by (auto simp: fresh_map_def P2 p1_def)
  have h2: "heap_items (plan_heap p2) = {#}" by (simp add: p2_def put_frame p1_def)
  have u1: "upd_cell (PLAN_INDEX p (fst L) (snd L)) (\<lambda>c. c\<lparr>occ_state_dyn := - 1, occ_dist_dyn := max_radius p1\<rparr>) p1 = Inr p2"
    using upd_cell_map [of p1 "fst L" "snd L"] ok(2) Lm by (simp add: p2_def p1_def)
  from search_inv_start [OF S f2 _ h2, of G] obtain q1 where
    q1: "bindo (upd_cell (int (pos_of p2 G)) (\<lambda>c. c\<lparr>plan_cost := 0\<rparr>) p2) (plan_push (pos_of p2 G)) = Inr q1"
      "search_inv p2 (max_step p2) G {} G UNIV q1" using G by (auto simp: P2 p1_def)
  note Q1 = search_frameD [OF conjunct1 [OF search_inv_sets [OF q1(2)]]]
  have "card (in_bounds p2) \<le> (length (cells q1) + 1) + card ({} :: (int \<times> int) set)"
    using card_in_bounds_le [OF ok(2,3)] by (simp add: Q1 P2 p1_def)
  from search_ok [OF S q1(2) this] obtain q2 where q2: "search (length (cells q1) + 1) q1 = Inr q2"
    "search_inv p2 (max_step p2) G (marked q2) G UNIV q2" by blast
  note Q2 = search_frameD [OF conjunct1 [OF search_inv_sets [OF q2(2)]]]
  define q where "q = put_cell L ((cell_of q2 L)\<lparr>occ_state_dyn := occ_state_dyn (cell_of p1 L), occ_dist_dyn := occ_dist_dyn (cell_of p1 L)\<rparr>) q2"
  have Lp: "L \<in> in_bounds p1" using L by (simp add: p1_def)
  from search_result [OF p1 Lp q2(2) [unfolded p2_def] q_def S [unfolded p2_def]]
  have R: "plan_result p1 L G q" "marked q = marked q2" "plan_next (cell_of q L) = plan_next (cell_of q2 L)" by blast+
  have "plan_result p L G q"
  proof -
    from plan_resultD(1) [OF R(1)] have "search_frame p1 q" .
    then have "search_frame p q" by (auto simp: search_frame_def p1_def)
    with R(1) show ?thesis by (simp add: plan_result_def p1_def descends_def leads_to_def)
  qed
  note PR = this
  have nx: "plan_next (cell_of q L) = None \<longleftrightarrow> L \<notin> marked q"
  proof (cases "L \<in> marked q")
    case True
    then have "descends p q L" using plan_resultD(5) [OF PR _ LG] by blast
    with True show ?thesis by (auto simp: descends_def leads_to_def)
  next
    case False
    then show ?thesis using plan_resultD(7) [OF PR L] by simp
  qed
  have at1: "cell_at (PLAN_INDEX p (fst L) (snd L)) p1 = Inr (cell_of p1 L)"
    using cell_at_map [of p1 "fst L" "snd L"] ok(2) Lm by (simp add: p1_def)
  have u3: "upd_cell (PLAN_INDEX p (fst L) (snd L)) (\<lambda>c. c\<lparr>occ_state_dyn := occ_state_dyn (cell_of p1 L), occ_dist_dyn := occ_dist_dyn (cell_of p1 L)\<rparr>) q2 = Inr q"
    using upd_cell_map [of q2 "fst L" "snd L"] ok(2) Lm by (simp add: Q2 P2 p1_def q_def)
  have Qf: "PLAN_INDEX q = PLAN_INDEX p" "grid_ok q" "on_map q = on_map p"
    using search_frameD [OF plan_resultD(1) [OF PR]] ok(2) by simp_all
  have at4: "cell_at (PLAN_INDEX p (fst L) (snd L)) q = Inr (cell_of q L)"
    using cell_at_map [of q "fst L" "snd L"] Lm by (simp add: Qf)
  have posG: "int (pos_of p2 G) = PLAN_INDEX p (fst G) (snd G)"
    using pos_of_int [OF ok(2) Gm] by (simp add: p2_def put_frame p1_def)
  have posG': "pos_of p2 G = nat (PLAN_INDEX p (fst G) (snd G))" using posG by simp
  have "bindo (upd_cell (PLAN_INDEX p (fst G) (snd G)) (\<lambda>c. c\<lparr>plan_cost := 0\<rparr>) p2) (plan_push (pos_of p2 G)) = Inr q1"
    using q1(1) by (simp only: posG)
  then obtain p3 where p3: "upd_cell (PLAN_INDEX p (fst G) (snd G)) (\<lambda>c. c\<lparr>plan_cost := 0\<rparr>) p2 = Inr p3"
    "plan_push (nat (PLAN_INDEX p (fst G) (snd G))) p3 = Inr q1" using posG' by auto
  have I3: "PLAN_INDEX p3 = PLAN_INDEX p"
    using p3(1) by (auto simp: upd_cell_def PLAN_INDEX_def fun_eq_iff P2 p1_def split: if_splits)
  have vb: "PLAN_VALID_BOUNDS p1 (fst G) (snd G)" "PLAN_VALID_BOUNDS p1 (fst L) (snd L)"
    using L G by (simp_all add: valid_bounds_iff p1_def)
  have idx: "PLAN_INDEX p1 = PLAN_INDEX p" "PLAN_INDEX p2 = PLAN_INDEX p" "PLAN_INDEX q1 = PLAN_INDEX p" "PLAN_INDEX q2 = PLAN_INDEX p"
    by (simp_all add: P2 Q1 Q2 p1_def)
  have cv: "PLAN_GXWX p1 = PLAN_GXWX p" "PLAN_GYWY p1 = PLAN_GYWY p" by (simp_all add: p1_def)
  have ne: "\<not> (fst L = fst G \<and> snd L = snd G)" using LG by (simp add: prod_eq_iff)
  have "plan_update_plan lx ly gx gy p = Inr (if plan_next (cell_of q L) = None then - 1 else 0, q)"
    unfolding plan_update_plan_def p1_def [symmetric] Let_def cv conv bindo.simps
    by (simp only: ne vb idx at1 u1 p3 I3 q2(1) u3 Qf(1) at4 bindo.simps not_True_eq_False if_False)
  with PR nx show ?thesis by (intro exI [of _ q]) auto
qed

text \<open>When the robot is in the cell of the goal the obstacle state of the cell stays cleared.\<close>

lemma update_plan_same:
  assumes ok: "plan_ok p" and L: "L \<in> in_bounds p"
    and conv: "PLAN_GXWX p lx = Inr (fst L)" "PLAN_GYWY p ly = Inr (snd L)" "PLAN_GXWX p gx = Inr (fst L)" "PLAN_GYWY p gy = Inr (snd L)"
  shows "\<exists>q. plan_update_plan lx ly gx gy p = Inr (0, q) \<and>
    cell_of q L = (cell_of p L)\<lparr>occ_state_dyn := - 1, occ_dist_dyn := max_radius p, plan_cost := 0\<rparr> \<and>
    grid_ok q \<and> on_map q = on_map p \<and> PLAN_INDEX q = PLAN_INDEX p \<and> pos_of q = pos_of p \<and> PLAN_GXWX q = PLAN_GXWX p \<and>
    PLAN_GYWY q = PLAN_GYWY p \<and> path q = path p"
proof -
  define c where "c = (cell_of p L)\<lparr>occ_state_dyn := - 1, occ_dist_dyn := max_radius p\<rparr>"
  define q0 where "q0 = p\<lparr>plan_heap := heap_reset (plan_heap p)\<rparr>"
  define q1 where "q1 = put_cell L c q0"
  define q2 where "q2 = put_cell L (c\<lparr>plan_cost := 0\<rparr>) q1"
  have g: "grid_ok p" using ok by (simp add: plan_ok_def)
  have Lm: "L \<in> on_map p" using on_map_bounds [OF ok L] .
  have i0: "PLAN_INDEX q0 = PLAN_INDEX p" "grid_ok q0" "on_map q0 = on_map p" "cell_of q0 = cell_of p" "max_radius q0 = max_radius p"
    "pos_of q0 = pos_of p" using g by (simp_all add: q0_def)
  note Q1 = same_frameD [OF same_frame_put [of q0 L c], folded q1_def]
  note Q2 = same_frameD [OF same_frame_put [of q1 L "c\<lparr>plan_cost := 0\<rparr>"], folded q2_def]
  have c1: "cell_of q1 L = c" using cell_of_put [of q0 L L c] i0 Lm by (simp add: q1_def)
  have c2: "cell_of q2 L = c\<lparr>plan_cost := 0\<rparr>" using cell_of_put [of q1 L L "c\<lparr>plan_cost := 0\<rparr>"] i0 Lm by (simp add: q2_def Q1)
  have at0: "cell_at (PLAN_INDEX p (fst L) (snd L)) q0 = Inr (cell_of p L)"
    using cell_at_map [of q0 "fst L" "snd L"] i0 Lm by simp
  have u0: "upd_cell (PLAN_INDEX p (fst L) (snd L)) (\<lambda>c. c\<lparr>occ_state_dyn := - 1, occ_dist_dyn := max_radius q0\<rparr>) q0 = Inr q1"
    using upd_cell_map [of q0 "fst L" "snd L"] i0 Lm by (simp add: q1_def c_def)
  have u1: "upd_cell (PLAN_INDEX p (fst L) (snd L)) (\<lambda>c. c\<lparr>plan_cost := 0\<rparr>) q1 = Inr q2"
    using upd_cell_map [of q1 "fst L" "snd L"] i0 Lm c1 by (simp add: q2_def Q1)
  have cv0: "PLAN_GXWX q0 = PLAN_GXWX p" "PLAN_GYWY q0 = PLAN_GYWY p" by (simp_all add: q0_def)
  have vb: "PLAN_VALID_BOUNDS q0 (fst L) (snd L)" using L by (simp add: q0_def valid_bounds_iff)
  have "plan_update_plan lx ly gx gy p = Inr (0, q2)"
    unfolding plan_update_plan_def q0_def [symmetric] Let_def cv0 conv bindo.simps
    by (simp only: vb i0(1) at0 u0 u1 Q1 bindo.simps not_True_eq_False if_False if_True simp_thms)
  moreover have "path q2 = path p" by (simp add: q2_def q1_def put_cell_def q0_def)
  moreover have "PLAN_GXWX q2 = PLAN_GXWX p" "PLAN_GYWY q2 = PLAN_GYWY p" "pos_of q2 = pos_of p"
    by (simp_all add: q2_def q1_def put_frame cv0 i0)
  ultimately show ?thesis using c2 i0 by (simp add: Q1 Q2 c_def)
qed

section \<open>The path\<close>

lemma successively_butlast: "successively P xs \<Longrightarrow> x \<in> set (butlast xs) \<Longrightarrow> \<exists>y \<in> set xs. P x y"
  by (induction P xs rule: successively.induct) auto

lemma path_simps [simp]:
  "cell_of (p\<lparr>path := ps, path_size := n\<rparr>) = cell_of p" "cells (p\<lparr>path := ps, path_size := n\<rparr>) = cells p"
  "cell_at k (p\<lparr>path := ps, path_size := n\<rparr>) = cell_at k p"
  by (simp_all add: cell_of_def PLAN_INDEX_def fun_eq_iff cell_at_def)

lemma cache_path_ok:
  assumes R: "plan_result p L G q" and g: "grid_ok p" and b: "bounds_ok p"
  shows "x \<in> marked q \<Longrightarrow> card {z \<in> marked q. cost_of q z < cost_of q x} < fuel \<Longrightarrow>
    \<exists>xs m. cache_path fuel (Some (pos_of p x)) (q\<lparr>path := ps, path_size := n\<rparr>) =
        Inr (q\<lparr>path := ps @ map (pos_of p) xs, path_size := m\<rparr>) \<and>
      xs \<noteq> [] \<and> hd xs = x \<and> last xs = G \<and> set xs \<subseteq> marked q \<and> successively (leads_to p q) xs"
proof (induction fuel arbitrary: x ps n)
  case (Suc fuel)
  note F = search_frameD [OF plan_resultD(1) [OF R]]
  have xm: "x \<in> on_map p" using Suc.prems(1) bounds_on_map [OF b] by (auto simp: F)
  have at: "cell_at (int (pos_of p x)) q = Inr (cell_of q x)" using cell_at_pos [of q x] g xm by (simp add: F)
  show ?case
  proof (cases "x = G")
    case True
    with at plan_resultD(2,3) [OF R] show ?thesis by (intro exI [of _ "[x]"]) auto
  next
    case False
    from plan_resultD(5) [OF R Suc.prems(1) False] obtain y where y: "y \<in> marked q" "leads_to p q x y" by (auto simp: descends_def)
    have less: "cost_of q y < cost_of q x" using y(2) by (simp add: leads_to_def)
    have "{z \<in> marked q. cost_of q z < cost_of q y} \<subset> {z \<in> marked q. cost_of q z < cost_of q x}"
      using y(1) less by force
    then have "card {z \<in> marked q. cost_of q z < cost_of q y} < card {z \<in> marked q. cost_of q z < cost_of q x}"
      by (intro psubset_card_mono) simp_all
    with Suc.prems(2) have "card {z \<in> marked q. cost_of q z < cost_of q y} < fuel" by simp
    from Suc.IH [OF y(1) this, where ps = "ps @ [pos_of p x]" and n = "grown n (length ps)"] obtain xs m where
      xs: "cache_path fuel (Some (pos_of p y)) (q\<lparr>path := ps @ [pos_of p x], path_size := grown n (length ps)\<rparr>) =
        Inr (q\<lparr>path := (ps @ [pos_of p x]) @ map (pos_of p) xs, path_size := m\<rparr>)"
      "xs \<noteq> []" "hd xs = y" "last xs = G" "set xs \<subseteq> marked q" "successively (leads_to p q) xs" by blast
    have "plan_next (cell_of q x) = Some (pos_of p y)" using y(2) by (simp add: leads_to_def)
    with at xs(1) have "cache_path (Suc fuel) (Some (pos_of p x)) (q\<lparr>path := ps, path_size := n\<rparr>) =
        Inr (q\<lparr>path := ps @ map (pos_of p) (x # xs), path_size := m\<rparr>)" by simp
    moreover have "successively (leads_to p q) (x # xs)" using xs y(2) by (cases xs) auto
    ultimately show ?thesis using xs Suc.prems(1) by (intro exI [of _ "x # xs"] exI [of _ m]) auto
  qed
qed simp

lemma descent_distinct: "successively (leads_to p q) xs \<Longrightarrow> distinct xs"
proof -
  assume "successively (leads_to p q) xs"
  then have "successively (\<lambda>x y. cost_of q y < cost_of q x) xs" by (rule successively_mono) (simp add: leads_to_def)
  then have "sorted_wrt (\<lambda>x y. cost_of q y < cost_of q x) xs" by (subst (asm) successively_conv_sorted_wrt) (auto intro: transpI)
  then show ?thesis by (induction xs) auto
qed

lemma descent_route:
  assumes R: "plan_result p L G q" and xs: "xs \<noteq> []" "hd xs = L" "set xs \<subseteq> marked q" "successively (leads_to p q) xs"
  shows "route p (in_bounds p) xs"
  unfolding route_def
proof (intro conjI ballI)
  note F = search_frameD [OF plan_resultD(1) [OF R]]
  show "xs \<noteq> []" by (rule xs)
  show "set xs \<subseteq> in_bounds p" using xs(3) by (auto simp: F)
  show "successively adjacent xs"
    using xs(4) by (rule successively_mono) (simp add: leads_to_def adjacent_sym)
  fix x assume x: "x \<in> set (butlast (tl xs))"
  then have b: "x \<in> set (butlast xs)" and t: "x \<in> set (tl xs)"
    by (cases xs; auto dest: in_set_butlastD split: if_splits)+
  from successively_butlast [OF xs(4) b] obtain y where "leads_to p q x y" by blast
  then have "x \<noteq> G" using plan_resultD(3) [OF R] by (auto simp: leads_to_def)
  moreover have "x \<noteq> L" using descent_distinct [OF xs(4)] t xs(1,2) by (cases xs) auto
  moreover have "x \<in> marked q" using in_set_butlastD [OF b] xs(3) by blast
  ultimately show "traversable p x" using plan_resultD(4) [OF R] by blast
qed

lemma route_marked:
  assumes R: "plan_result p L G q" and xs: "route p (in_bounds p) xs" "hd xs = L" "last xs = G"
  shows "L \<in> marked q"
proof -
  have "zs \<noteq> [] \<Longrightarrow> xs = ys @ zs \<Longrightarrow> hd zs \<in> marked q" for ys zs
  proof (induction zs arbitrary: ys)
    case (Cons z zs)
    show ?case
    proof (cases zs)
      case Nil
      with Cons.prems xs(3) plan_resultD(2) [OF R] show ?thesis by simp
    next
      case (Cons z' zs')
      have z': "z' \<in> marked q" using Cons.IH [of "ys @ [z]"] Cons Cons.prems by simp
      have "successively adjacent (ys @ z # z' # zs')" using xs(1) Cons Cons.prems by (simp add: route_def)
      then have "adjacent z' z" by (simp add: successively_append_iff adjacent_sym)
      moreover have "z \<in> in_bounds p" using xs(1) Cons.prems by (auto simp: route_def)
      moreover have "z = L \<or> traversable p z"
      proof (cases ys)
        case Nil
        then show ?thesis using xs(2) Cons.prems by simp
      next
        case (Cons y ys')
        then have "z \<in> set (butlast (tl xs))" using Cons.prems \<open>zs = z' # zs'\<close> by (simp add: butlast_append)
        then show ?thesis using xs(1) by (simp add: route_def)
      qed
      ultimately show ?thesis using plan_resultD(6) [OF R z', of z] by auto
    qed
  qed simp
  from this [of xs "[]"] show ?thesis using xs(1,2) by (simp add: route_def)
qed

section \<open>Bounds and reset keep the map\<close>

lemma plan_set_bounds_ok:
  assumes "grid_ok p" "x0 \<le> x1" "y0 \<le> y1"
  shows "\<exists>a b c d. plan_set_bounds x0 y0 x1 y1 p = Inr (p\<lparr>min_x := a, min_y := b, max_x := c, max_y := d\<rparr>) \<and>
    bounds_ok (p\<lparr>min_x := a, min_y := b, max_x := c, max_y := d\<rparr>) \<and>
    a = min (size_x p - 1) (max 0 x0) \<and> b = min (size_y p - 1) (max 0 y0) \<and>
    c = min (size_x p - 1) (max 0 x1) \<and> d = min (size_y p - 1) (max 0 y1)"
  using assms by (auto simp: plan_set_bounds_def bounds_ok_def grid_ok_def c_assert_def Let_def min_def max_def)

text \<open>A range grows to the size asked for within the map, and the loop ends.\<close>

lemma grow_range_ok:
  assumes g: "g \<le> n" and n: "0 \<le> n"
  shows "0 \<le> lo \<Longrightarrow> hi \<le> n \<Longrightarrow> nat lo + nat (n - hi) \<le> fuel \<Longrightarrow>
    \<exists>lo' hi'. grow_range fuel g n lo hi = Inr (lo', hi') \<and> 0 \<le> lo' \<and> lo' \<le> lo \<and> hi \<le> hi' \<and> hi' \<le> n \<and> g \<le> hi' - lo'"
proof (induction fuel arbitrary: lo hi)
  case 0
  then show ?case using g by (simp add: grow_range.simps)
next
  case (Suc fuel)
  show ?case
  proof (cases "hi - lo < g")
    case False
    then show ?thesis using Suc.prems by (simp add: grow_range.simps)
  next
    case True
    define d where "d = \<lceil>real_of_int (g - (hi - lo)) / 2\<rceil>"
    have d: "1 \<le> d" using True by (simp add: d_def)
    let ?lo = "max (lo - d) 0" and ?hi = "min (hi + d) n"
    have le: "0 \<le> ?lo" "?hi \<le> n" "?lo \<le> lo" "hi \<le> ?hi" using d Suc.prems by auto
    have "?lo < lo \<or> hi < ?hi" using True g d Suc.prems by auto
    then have "nat ?lo + nat (n - ?hi) < nat lo + nat (n - hi)" using le by (auto simp: nat_less_eq_zless)
    then have "nat ?lo + nat (n - ?hi) \<le> fuel" using Suc.prems(3) by linarith
    from Suc.IH [OF le(1,2) this] obtain lo' hi' where "grow_range fuel g n ?lo ?hi = Inr (lo', hi')"
      "0 \<le> lo'" "lo' \<le> ?lo" "?hi \<le> hi'" "hi' \<le> n" "g \<le> hi' - lo'" by blast
    moreover have "grow_range (Suc fuel) g n lo hi = grow_range fuel g n ?lo ?hi"
      using True by (subst grow_range.simps) (simp add: d_def Let_def)
    ultimately show ?thesis using le(3,4) by (intro exI [of _ lo'] exI [of _ hi']) auto
  qed
qed

text \<open>The bounds set around two points on the map contain both and have the size asked for, as far as the map allows.\<close>

lemma plan_set_bbox_ok:
  assumes g: "grid_ok p" and conv: "PLAN_GXWX p x0 = Inr (fst P)" "PLAN_GYWY p y0 = Inr (snd P)" "PLAN_GXWX p x1 = Inr (fst Q)" "PLAN_GYWY p y1 = Inr (snd Q)"
    and size: "to_int (of_int \<lceil>min_size / scale p\<rceil>) = Inr gs" "to_int (of_int \<lceil>padding / scale p\<rceil>) = Inr gp" "0 \<le> gp"
    and on: "P \<in> on_map p" "Q \<in> on_map p"
  shows "\<exists>q. plan_set_bbox padding min_size x0 y0 x1 y1 p = Inr q \<and> bounds_ok q \<and> P \<in> in_bounds q \<and> Q \<in> in_bounds q \<and>
    min gs (min (size_x p - 1) (size_y p - 1)) \<le> max_x q - min_x q \<and> min gs (min (size_x p - 1) (size_y p - 1)) \<le> max_y q - min_y q"
proof -
  let ?nx = "size_x p - 1" and ?ny = "size_y p - 1" and ?h = "half gp"
  let ?g = "min gs (min ?nx ?ny)"
  let ?lx = "max (min (fst P) (fst Q) - ?h) 0" and ?hx = "min (max (fst P) (fst Q) + ?h) ?nx"
  let ?ly = "max (min (snd P) (snd Q) - ?h) 0" and ?hy = "min (max (snd P) (snd Q) + ?h) ?ny"
  have n: "0 \<le> ?nx" "0 \<le> ?ny" "?g \<le> ?nx" "?g \<le> ?ny" and h: "0 \<le> ?h" using g size(3) by (auto simp: grid_ok_def half_def)
  have b: "0 \<le> fst P" "fst P \<le> ?nx" "0 \<le> snd P" "snd P \<le> ?ny" "0 \<le> fst Q" "fst Q \<le> ?nx" "0 \<le> snd Q" "snd Q \<le> ?ny"
    using on by (auto simp: on_map_def)
  have pre: "0 \<le> ?lx" "?hx \<le> ?nx" "nat ?lx + nat (?nx - ?hx) \<le> nat ?lx + nat (?nx - ?hx) + 1"
    "0 \<le> ?ly" "?hy \<le> ?ny" "nat ?ly + nat (?ny - ?hy) \<le> nat ?ly + nat (?ny - ?hy) + 1" by simp_all
  obtain a b' where x: "grow_range (nat ?lx + nat (?nx - ?hx) + 1) ?g ?nx ?lx ?hx = Inr (a, b')" "0 \<le> a" "a \<le> ?lx" "?hx \<le> b'" "b' \<le> ?nx" "?g \<le> b' - a"
    using grow_range_ok [OF n(3,1) pre(1-3)] by blast
  obtain c d where y: "grow_range (nat ?ly + nat (?ny - ?hy) + 1) ?g ?ny ?ly ?hy = Inr (c, d)" "0 \<le> c" "c \<le> ?ly" "?hy \<le> d" "d \<le> ?ny" "?g \<le> d - c"
    using grow_range_ok [OF n(4,2) pre(4-6)] by blast
  have ix: "a \<le> fst P" "fst P \<le> b'" "a \<le> fst Q" "fst Q \<le> b'" "a \<le> b'" using x(3,4) b h by linarith+
  have iy: "c \<le> snd P" "snd P \<le> d" "c \<le> snd Q" "snd Q \<le> d" "c \<le> d" using y(3,4) b h by linarith+
  let ?q = "p\<lparr>min_x := a, min_y := c, max_x := b', max_y := d\<rparr>"
  have "plan_set_bbox padding min_size x0 y0 x1 y1 p = plan_set_bounds a c b' d p"
    by (simp only: plan_set_bbox_def conv size bindo.simps Let_def x(1) y(1) prod.case)
  also have "\<dots> = Inr ?q"
    using x(2,5) y(2,5) ix(5) iy(5) by (simp add: plan_set_bounds_def Let_def min_def max_def c_assert_def)
  finally have q: "plan_set_bbox padding min_size x0 y0 x1 y1 p = Inr ?q" .
  have bq: "bounds_ok ?q" using x(2,5) y(2,5) ix(5) iy(5) by (simp add: bounds_ok_def)
  have on': "P \<in> in_bounds ?q" "Q \<in> in_bounds ?q" using ix iy by (simp_all add: in_bounds_def mem_Times_iff)
  have f: "max_x ?q = b'" "min_x ?q = a" "max_y ?q = d" "min_y ?q = c" by simp_all
  have sz: "?g \<le> max_x ?q - min_x ?q" "?g \<le> max_y ?q - min_y ?q" unfolding f by (rule x(6), rule y(6))
  show ?thesis by (rule exI, intro conjI, rule q, rule bq, rule on'(1), rule on'(2), rule sz(1), rule sz(2))
qed

lemma coords_okI:
  assumes g: "grid_ok p" and c: "\<And>x. x \<in> on_map p \<Longrightarrow> ci (cell_of p x) = fst x \<and> cj (cell_of p x) = snd x"
  shows "coords_ok p"
  unfolding coords_ok_def
proof (intro allI impI)
  fix k assume k: "k < length (cells p)"
  let ?i = "int k mod size_x p" and ?j = "int k div size_x p"
  have pos: "0 < size_x p" using g by (simp add: grid_ok_def)
  have "int k < size_y p * size_x p" using g k by (simp add: grid_ok_def mult.commute)
  moreover have "?j * size_x p \<le> int k" using pos by (simp flip: minus_mod_eq_div_mult)
  ultimately have "?j * size_x p < size_y p * size_x p" by linarith
  then have "?j < size_y p" using pos by (simp add: mult_less_cancel_right)
  then have "(?i, ?j) \<in> on_map p" using pos by (simp add: on_map_def pos_imp_zdiv_nonneg_iff)
  moreover have "nat (PLAN_INDEX p ?i ?j) = k" by (simp add: PLAN_INDEX_def)
  ultimately show "ci (cells p ! k) = ?i \<and> cj (cells p ! k) = ?j"
    using c [of "(?i, ?j)"] by (simp add: cell_of_def)
qed

text \<open>Planning changes marks, costs, pointers, bounds and paths, nothing else of the map.\<close>

definition keeps_map :: "plan \<Rightarrow> plan \<Rightarrow> bool" where
  "keeps_map p q \<longleftrightarrow> size_x q = size_x p \<and> size_y q = size_y p \<and> origin_x q = origin_x p \<and> origin_y q = origin_y p \<and>
     scale q = scale p \<and> dist_penalty q = dist_penalty p \<and> max_radius q = max_radius p \<and> abs_min_radius q = abs_min_radius p \<and>
     length (cells q) = length (cells p) \<and>
     (\<forall>x \<in> on_map p. ci (cell_of q x) = ci (cell_of p x) \<and> cj (cell_of q x) = cj (cell_of p x) \<and>
        occ_dist (cell_of q x) = occ_dist (cell_of p x) \<and> occ_dist_dyn (cell_of q x) = occ_dist_dyn (cell_of p x))"

lemma keeps_map_on_map: "keeps_map p q \<Longrightarrow> on_map q = on_map p"
  by (simp add: keeps_map_def on_map_def)

lemma keeps_map_trans:
  assumes "keeps_map p q" "keeps_map q r"
  shows "keeps_map p r"
  using assms(2) unfolding keeps_map_def keeps_map_on_map [OF assms(1)]
  using assms(1) unfolding keeps_map_def by simp

lemma keeps_map_search: "search_frame p q \<Longrightarrow> keeps_map p q"
  by (auto simp: search_frame_def keeps_map_def)

lemma keeps_map_path: "keeps_map p (q\<lparr>path := ps, path_size := n\<rparr>) = keeps_map p q" "keeps_map p (q\<lparr>path := ps\<rparr>) = keeps_map p q"
  by (simp_all add: keeps_map_def cell_of_def PLAN_INDEX_def split_beta)

text \<open>The same map with other bounds, its cells within the bounds reset.\<close>

definition ready_map :: "plan \<Rightarrow> plan \<Rightarrow> bool" where
  "ready_map p q \<longleftrightarrow> planner_ok q \<and> fresh_map q \<and> on_map q = on_map p \<and> pos_of q = pos_of p \<and>
     PLAN_GXWX q = PLAN_GXWX p \<and> PLAN_GYWY q = PLAN_GYWY p \<and> PLAN_INDEX q = PLAN_INDEX p \<and>
     (\<forall>x \<in> on_map p. traversable q x = traversable p x) \<and> path q = path p \<and> path_size q = path_size p \<and>
     PLAN_WXGX q = PLAN_WXGX p \<and> PLAN_WYGY q = PLAN_WYGY p \<and> keeps_map p q"

lemma bounds_then_reset:
  assumes p: "planner_ok p" and q: "q = p\<lparr>min_x := a, min_y := b, max_x := c, max_y := d\<rparr>" "bounds_ok q"
  shows "\<exists>q'. plan_reset q = Inr q' \<and> ready_map p q' \<and> in_bounds q' = in_bounds q \<and> path q' = path p"
proof -
  have ok: "grid_ok p" "coords_ok p" "heap_ok (plan_heap p)" using p by (simp_all add: planner_ok_def plan_ok_def)
  have gq: "grid_ok q" using ok(1) by (simp add: q(1) grid_ok_def)
  from plan_reset_ok [OF gq q(2)] obtain r where r: "plan_reset q = Inr (r\<lparr>waypoints := []\<rparr>)" "same_frame q r"
    "\<And>x. x \<in> on_map q \<Longrightarrow> cell_of r x = (if x \<in> in_bounds q then reset_cell (cell_of q x) else cell_of q x)" by blast
  let ?r = "r\<lparr>waypoints := []\<rparr>"
  have cellr: "cell_of ?r = cell_of r" by (simp add: cell_of_def PLAN_INDEX_def fun_eq_iff)
  have cellq: "cell_of q = cell_of p" by (simp add: q(1) cell_of_def PLAN_INDEX_def fun_eq_iff)
  have omq: "on_map q = on_map p" by (simp add: q(1) on_map_def)
  have cell: "cell_of ?r x = (if x \<in> in_bounds q then reset_cell (cell_of p x) else cell_of p x)" if "x \<in> on_map p" for x
    using r(3) that by (simp add: cellr cellq omq)
  note F = same_frameD [OF r(2)]
  have st: "grid_ok ?r" "bounds_ok ?r" "in_bounds ?r = in_bounds q" "on_map ?r = on_map p"
    using gq q(2) by (simp_all add: grid_ok_def bounds_ok_def in_bounds_def on_map_def F omq [unfolded on_map_def, simplified])
  obtain cs where cs: "r = q\<lparr>cells := cs\<rparr>" "length cs = length (cells q)" using r(2) by (auto simp: same_frame_def)
  have same: "plan_heap ?r = plan_heap p" "dist_kernel_3x3 ?r = dist_kernel_3x3 p" "scale ?r = scale p"
    "hysteresis_factor ?r = hysteresis_factor p" "dist_penalty ?r = dist_penalty p" "max_radius ?r = max_radius p"
    "abs_min_radius ?r = abs_min_radius p" "length (cells ?r) = length (cells p)" "path ?r = path p" "path_size ?r = path_size p"
    "size_x ?r = size_x p" "size_y ?r = size_y p"
    "origin_x ?r = origin_x p" "origin_y ?r = origin_y p" using cs by (simp_all add: q(1))
  have same2: "max_step ?r = max_step p" "pos_of ?r = pos_of p" "PLAN_GXWX ?r = PLAN_GXWX p" "PLAN_GYWY ?r = PLAN_GYWY p" "PLAN_INDEX ?r = PLAN_INDEX p"
    "PLAN_WXGX ?r = PLAN_WXGX p" "PLAN_WYGY ?r = PLAN_WYGY p"
    by (simp_all only: max_step_def pos_of_def PLAN_GXWX_def PLAN_GYWY_def PLAN_WXGX_def PLAN_WYGY_def PLAN_INDEX_def fun_eq_iff same) simp_all
  have occ: "occ_dist_dyn (cell_of ?r x) = occ_dist_dyn (cell_of p x)" "ci (cell_of ?r x) = ci (cell_of p x)"
    "cj (cell_of ?r x) = cj (cell_of p x)" if "x \<in> on_map p" for x
    using cell [OF that] by (simp_all add: reset_cell_def)
  have "coords_ok ?r"
    using coords_okI [OF st(1)] occ cell_coords [OF ok(1,2)] by (force simp: st(4))
  with st ok same have "plan_ok ?r" by (simp add: plan_ok_def)
  with p have pl: "planner_ok ?r" unfolding planner_ok_def same same2 st(4) using occ(1) by auto
  have "fresh_map ?r"
    unfolding fresh_map_def st(3)
  proof
    fix x assume x: "x \<in> in_bounds q"
    then have "x \<in> on_map p" using bounds_on_map [OF q(2)] omq by blast
    with x show "\<not> mark (cell_of ?r x) \<and> cost_of ?r x = PLAN_MAX_COST \<and> plan_next (cell_of ?r x) = None"
      by (simp add: cell reset_cell_def)
  qed
  moreover have "keeps_map p ?r"
    unfolding keeps_map_def same using occ cell by (auto simp: reset_cell_def)
  ultimately have "ready_map p ?r"
    using pl by (simp add: ready_map_def st(4) same2 same traversable_def occ(1))
  with r(1) st(3) same(9) show ?thesis by blast
qed

section \<open>The global plan\<close>

lemma path_update:
  "planner_ok (p\<lparr>path := ps\<rparr>) = planner_ok p" "fresh_map (p\<lparr>path := ps\<rparr>) = fresh_map p" "in_bounds (p\<lparr>path := ps\<rparr>) = in_bounds p"
  "PLAN_GXWX (p\<lparr>path := ps\<rparr>) = PLAN_GXWX p" "PLAN_GYWY (p\<lparr>path := ps\<rparr>) = PLAN_GYWY p" "pos_of (p\<lparr>path := ps\<rparr>) = pos_of p"
  "traversable (p\<lparr>path := ps\<rparr>) = traversable p" "PLAN_INDEX (p\<lparr>path := ps\<rparr>) = PLAN_INDEX p" "on_map (p\<lparr>path := ps\<rparr>) = on_map p"
  "cell_of (p\<lparr>path := ps\<rparr>) = cell_of p"
  by (simp_all add: planner_ok_def plan_ok_def grid_ok_def bounds_ok_def coords_ok_def on_map_def in_bounds_def cell_of_def
      PLAN_INDEX_def fun_eq_iff PLAN_GXWX_def PLAN_GYWY_def pos_of_def traversable_def fresh_map_def max_step_def)

lemma path_update_twice: "q\<lparr>path := ps, path_size := path_size q\<rparr> = q\<lparr>path := ps\<rparr>"
  by simp

lemma plan_do_global_ok:
  assumes p: "planner_ok p"
    and conv: "PLAN_GXWX p lx = Inr (fst L)" "PLAN_GYWY p ly = Inr (snd L)" "PLAN_GXWX p gx = Inr (fst G)" "PLAN_GYWY p gy = Inr (snd G)"
  shows "\<exists>r q. plan_do_global lx ly gx gy p = Inr (r, q) \<and>
    (r = 0 \<longleftrightarrow> (\<exists>xs. route p (on_map p) xs \<and> hd xs = L \<and> last xs = G)) \<and> (r \<noteq> 0 \<longrightarrow> r = - 1 \<and> path q = []) \<and>
    (r = 0 \<longrightarrow> (\<exists>xs. path q = map (pos_of p) xs \<and> route p (on_map p) xs \<and> hd xs = L \<and> last xs = G \<and>
      (L \<noteq> G \<longrightarrow> set xs \<subseteq> marked q) \<and> successively (leads_to p q) xs)) \<and>
    (r = 0 \<and> L \<noteq> G \<longrightarrow> keeps_map p q \<and> plan_next (cell_of q G) = None \<and> cost_of q G = 0)"
proof -
  have g: "grid_ok p" using p by (simp add: planner_ok_def plan_ok_def)
  have sz: "(0 :: int) \<le> size_x p - 1" "(0 :: int) \<le> size_y p - 1" using g by (simp_all add: grid_ok_def)
  define p1 where "p1 = p\<lparr>min_x := 0, min_y := 0, max_x := size_x p - 1, max_y := size_y p - 1\<rparr>"
  have b1: "plan_set_bounds 0 0 (size_x p - 1) (size_y p - 1) p = Inr p1" "bounds_ok p1"
    using plan_set_bounds_ok [OF g sz] sz by (auto simp: p1_def)
  have ib: "in_bounds p1 = on_map p" by (auto simp: p1_def in_bounds_def on_map_def)
  from bounds_then_reset [OF p p1_def b1(2)] obtain p2 where p2: "plan_reset p1 = Inr p2" "ready_map p p2" "in_bounds p2 = on_map p"
    using ib by auto
  define p3 where "p3 = p2\<lparr>path := []\<rparr>"
  note U = path_update [where p = p2 and ps = "[]", folded p3_def]
  have ok3: "planner_ok p3" "fresh_map p3" "in_bounds p3 = on_map p" "pos_of p3 = pos_of p" "path p3 = []" "on_map p3 = on_map p"
    and cv3: "PLAN_GXWX p3 = PLAN_GXWX p" "PLAN_GYWY p3 = PLAN_GYWY p" "PLAN_INDEX p3 = PLAN_INDEX p"
    and tr3: "\<forall>x \<in> on_map p. traversable p3 x = traversable p x"
    using p2 by (simp_all add: ready_map_def U) (simp add: p3_def)
  have ok3': "grid_ok p3" "bounds_ok p3" "plan_ok p3" using ok3(1) by (simp_all add: planner_ok_def plan_ok_def)
  have rt: "route p3 (on_map p) xs = route p (on_map p) xs" for xs
  proof -
    have "(\<forall>x \<in> set (butlast (tl xs)). traversable p3 x) = (\<forall>x \<in> set (butlast (tl xs)). traversable p x)" if "set xs \<subseteq> on_map p"
    proof (rule ball_cong [OF refl])
      fix x assume "x \<in> set (butlast (tl xs))"
      then have "x \<in> set xs" by (cases xs) (auto dest: in_set_butlastD)
      with that tr3 show "traversable p3 x = traversable p x" by blast
    qed
    then show ?thesis by (auto simp: route_def)
  qed
  have split: "plan_do_global lx ly gx gy p = bindo (plan_update_plan lx ly gx gy p3) (\<lambda>(r, q).
      if r < 0 then Inr (- 1, q)
      else bindo (PLAN_GXWX q lx) (\<lambda>li. bindo (PLAN_GYWY q ly) (\<lambda>lj.
        bindo (cache_path (length (cells q) + 1) (Some (nat (PLAN_INDEX q li lj))) q) (\<lambda>q. Inr (0, q)))))"
    by (simp only: plan_do_global_def b1 bindo.simps p2(1) p3_def)
  have cvL: "PLAN_GXWX p3 lx = Inr (fst L)" "PLAN_GYWY p3 ly = Inr (snd L)" "PLAN_GXWX p3 gx = Inr (fst G)" "PLAN_GYWY p3 gy = Inr (snd G)"
    using conv by (simp_all add: cv3)
  show ?thesis
  proof (cases "L \<in> on_map p \<and> G \<in> on_map p")
    case False
    then have "\<not> (PLAN_VALID_BOUNDS p3 (fst G) (snd G) \<and> PLAN_VALID_BOUNDS p3 (fst L) (snd L))"
      by (auto simp: valid_bounds_iff ok3)
    then have "plan_update_plan lx ly gx gy p3 = Inr (- 1, p3\<lparr>plan_heap := heap_reset (plan_heap p3)\<rparr>)"
      by (auto simp: plan_update_plan_def Let_def cvL)
    moreover have "\<not> (\<exists>xs. route p (on_map p) xs \<and> hd xs = L \<and> last xs = G)"
    proof
      assume "\<exists>xs. route p (on_map p) xs \<and> hd xs = L \<and> last xs = G"
      then obtain xs where "xs \<noteq> []" "set xs \<subseteq> on_map p" "hd xs = L" "last xs = G" by (auto simp: route_def)
      then have "L \<in> on_map p" "G \<in> on_map p" using hd_in_set last_in_set by blast+
      with False show False by blast
    qed
    ultimately show ?thesis by (simp add: split ok3)
  next
    case True
    then have Lm: "L \<in> on_map p" and Gm: "G \<in> on_map p" by blast+
    have posL: "nat (PLAN_INDEX p (fst L) (snd L)) = pos_of p L" by (simp add: pos_of_def)
    show ?thesis
    proof (cases "L = G")
      case eq: True
      have LB: "L \<in> in_bounds p3" using Lm by (simp add: ok3)
      from update_plan_same [OF ok3'(3) LB] cvL eq obtain q2 where
        q2: "plan_update_plan lx ly gx gy p3 = Inr (0, q2)"
          "cell_of q2 L = (cell_of p3 L)\<lparr>occ_state_dyn := - 1, occ_dist_dyn := max_radius p3, plan_cost := 0\<rparr>"
          "grid_ok q2" "on_map q2 = on_map p3" "PLAN_INDEX q2 = PLAN_INDEX p3" "pos_of q2 = pos_of p3" "PLAN_GXWX q2 = PLAN_GXWX p3"
          "PLAN_GYWY q2 = PLAN_GYWY p3" "path q2 = path p3" by blast
      have "plan_next (cell_of q2 L) = None" using ok3(2) Lm by (simp add: q2(2) fresh_map_def ok3(3))
      moreover have "cell_at (int (pos_of p L)) q2 = Inr (cell_of q2 L)"
        using cell_at_pos [of q2 L] q2(3) Lm by (simp add: q2(4,6) ok3)
      ultimately have "cache_path (length (cells q2) + 1) (Some (pos_of p L)) q2 =
          Inr (q2\<lparr>path := [pos_of p L], path_size := grown (path_size q2) 0\<rparr>)" using q2(9) ok3 by simp
      then have "\<exists>q. plan_do_global lx ly gx gy p = Inr (0, q) \<and> path q = [pos_of p L]"
        by (simp add: split q2(1,5,7,8) cv3 conv posL del: cache_path.simps)
      moreover have "route p (on_map p) [L]" using Lm by (simp add: route_def)
      ultimately show ?thesis using eq by (auto intro!: exI [of _ "[L]"])
    next
      case False
      have LB: "L \<in> in_bounds p3" "G \<in> in_bounds p3" using Lm Gm by (simp_all add: ok3)
      from update_plan_ok [OF ok3(1,2) LB False cvL] obtain q where
        q: "plan_update_plan lx ly gx gy p3 = Inr (if L \<in> marked q then 0 else - 1, q)" "plan_result p3 L G q" by blast
      note F = search_frameD [OF plan_resultD(1) [OF q(2)]]
      have pq: "path q = []" "PLAN_GXWX q = PLAN_GXWX p" "PLAN_GYWY q = PLAN_GYWY p" "PLAN_INDEX q = PLAN_INDEX p"
        "length (cells q) = length (cells p3)" by (simp_all add: F ok3 cv3)
      show ?thesis
      proof (cases "L \<in> marked q")
        case False
        have "\<not> (\<exists>xs. route p (on_map p) xs \<and> hd xs = L \<and> last xs = G)"
          using route_marked [OF q(2)] False rt by (auto simp: ok3)
        moreover have "plan_update_plan lx ly gx gy p3 = Inr (- 1, q)" using q(1) False by (simp only: if_False)
        ultimately show ?thesis using pq(1) by (simp add: split)
      next
        case mk: True
        have "card {z \<in> marked q. cost_of q z < cost_of q L} \<le> card (in_bounds p3)" by (intro card_mono) (auto simp: F)
        also have "\<dots> < length (cells q) + 1" using card_in_bounds_le [OF ok3'(1,2)] by (simp add: pq)
        finally have fuel: "card {z \<in> marked q. cost_of q z < cost_of q L} < length (cells q) + 1" .
        note C = cache_path_ok [OF q(2) ok3'(1,2) mk fuel, where ps = "[]" and n = "path_size q"]
        obtain xs m where
          xs: "cache_path (length (cells q) + 1) (Some (pos_of p L)) q = Inr (q\<lparr>path := map (pos_of p) xs, path_size := m\<rparr>)"
            "xs \<noteq> []" "hd xs = L" "last xs = G" "set xs \<subseteq> marked q" "successively (leads_to p3 q) xs"
        proof -
          have "q\<lparr>path := [], path_size := path_size q\<rparr> = q" using pq(1) by simp
          with C show ?thesis using that by (simp only: ok3 append_Nil) blast
        qed
        let ?q = "q\<lparr>path := map (pos_of p) xs, path_size := m\<rparr>"
        have "plan_do_global lx ly gx gy p = Inr (0, ?q)"
          using q(1) [unfolded if_P [OF mk]] xs(1) by (simp add: split pq conv posL del: cache_path.simps)
        moreover have r: "route p (on_map p) xs" using descent_route [OF q(2) xs(2,3,5,6)] rt by (simp add: ok3)
        moreover have "leads_to p ?q = leads_to p3 q"
          by (simp add: leads_to_def fun_eq_iff ok3 in_bounds_def)
        moreover have "marked ?q = marked q" by (simp add: in_bounds_def)
        then have "set xs \<subseteq> marked ?q" using xs(5) by blast
        moreover have "keeps_map p ?q" unfolding keeps_map_path
          using keeps_map_trans [OF _ keeps_map_search [OF plan_resultD(1) [OF q(2)]]] p2(2) by (simp add: ready_map_def p3_def keeps_map_path)
        moreover have "plan_next (cell_of ?q G) = None" "cost_of ?q G = 0" using plan_resultD(3,8) [OF q(2)] by simp_all
        ultimately show ?thesis using xs(3,4,6) by (intro exI [of _ "0 :: int"] exI [of _ ?q]) auto
      qed
    qed
  qed
qed

text \<open>C2: \<open>plan_do_global\<close> always returns.  It returns 0 exactly when some route on the map leads from the robot's cell to the
  goal's cell, -1 with an empty path otherwise.  The path it stores is such a route, and along it each cell is followed by its
  cheapest neighbour, with falling costs.\<close>

theorem plan_do_global_finds_route:
  assumes p: "planner_ok p"
    and conv: "PLAN_GXWX p lx = Inr (fst L)" "PLAN_GYWY p ly = Inr (snd L)" "PLAN_GXWX p gx = Inr (fst G)" "PLAN_GYWY p gy = Inr (snd G)"
  shows "\<exists>r q. plan_do_global lx ly gx gy p = Inr (r, q) \<and>
    (r = 0 \<longleftrightarrow> (\<exists>xs. route p (on_map p) xs \<and> hd xs = L \<and> last xs = G)) \<and> (r \<noteq> 0 \<longrightarrow> r = - 1 \<and> path q = []) \<and>
    (r = 0 \<longrightarrow> (\<exists>xs. path q = map (pos_of p) xs \<and> route p (on_map p) xs \<and> hd xs = L \<and> last xs = G \<and>
      (L \<noteq> G \<longrightarrow> set xs \<subseteq> marked q) \<and> successively (leads_to p q) xs))"
  using plan_do_global_ok [OF assms] by blast

section \<open>Examples and edge cases\<close>

definition free_cell :: "int \<Rightarrow> int \<Rightarrow> plan_cell" where
  "free_cell i j = \<lparr>ci = i, cj = j, occ_state = - 1, occ_state_dyn = - 1, occ_dist = 2, occ_dist_dyn = 2, plan_cost = 0, mark = True,
     lpathmark = False, plan_next = Some 0\<rparr>"

definition plan2 :: plan where
  "plan2 = (plan_alloc (1 / 2) (1 / 2) 2 1 (1 / 10))\<lparr>size_x := 2, size_y := 2, scale := 1, max_x := 1, max_y := 1,
     cells := [free_cell 0 0, (free_cell 1 0)\<lparr>lpathmark := True\<rparr>, free_cell 0 1, free_cell 1 1],
     dist_kernel_3x3 := map (kernel_entry 1) (offsets 1)\<rparr>"

lemma on_map_plan2: "on_map plan2 = {(0, 0), (1, 0), (0, 1), (1, 1)}"
proof -
  have "{0 ..< 2 :: int} = {0, 1}" by auto
  then show ?thesis by (auto simp: on_map_def plan2_def)
qed

lemma cell_plan2:
  "cell_of plan2 (0, 0) = free_cell 0 0" "cell_of plan2 (1, 0) = (free_cell 1 0)\<lparr>lpathmark := True\<rparr>"
  "cell_of plan2 (0, 1) = free_cell 0 1" "cell_of plan2 (1, 1) = free_cell 1 1"
  by (simp_all add: cell_of_def PLAN_INDEX_def plan2_def nat_eq_iff)

lemma planner_ok_plan2: "planner_ok plan2"
proof -
  have g: "grid_ok plan2" by (simp add: grid_ok_def plan2_def)
  have "coords_ok plan2"
    by (rule coords_okI [OF g]) (unfold on_map_plan2, auto simp: cell_plan2, simp_all add: free_cell_def)
  moreover have "\<forall>x \<in> on_map plan2. 0 \<le> occ_dist_dyn (cell_of plan2 x)"
    unfolding on_map_plan2 by (simp add: cell_plan2) (simp add: free_cell_def)
  moreover have "sqrt 2 * 4 + 8 < (1000000000 :: real)"
    using real_sqrt_less_iff [of 2 4] by simp
  then have "max_step plan2 * real (length (cells plan2)) < PLAN_MAX_COST"
    by (simp add: max_step_def plan2_def plan_alloc_def algebra_simps)
  ultimately show ?thesis
    using g by (simp add: planner_ok_def plan_ok_def) (simp add: plan2_def plan_alloc_def bounds_ok_def heap_ok_def heap_alloc_def heap_ordered_def)
qed

lemma conv_plan2: "PLAN_GXWX plan2 0 = Inr 0" "PLAN_GXWX plan2 1 = Inr 1" "PLAN_GYWY plan2 0 = Inr 0" "PLAN_GYWY plan2 1 = Inr 1"
  by (simp_all add: PLAN_GXWX_def PLAN_GYWY_def plan2_def plan_alloc_def to_int_def int_range_def floor_eq_iff Let_def)

theorem plan_do_global_finds_route_witness:
  "\<exists>q. plan_do_global 1 1 0 0 plan2 = Inr (0, q) \<and> hd (path q) = 3 \<and> last (path q) = 0"
proof -
  obtain r q where q: "plan_do_global 1 1 0 0 plan2 = Inr (r, q)"
    "r = 0 \<longleftrightarrow> (\<exists>xs. route plan2 (on_map plan2) xs \<and> hd xs = (1, 1) \<and> last xs = (0, 0))"
    "r = 0 \<longrightarrow> (\<exists>xs. path q = map (pos_of plan2) xs \<and> route plan2 (on_map plan2) xs \<and> hd xs = (1, 1) \<and> last xs = (0, 0))"
    using plan_do_global_finds_route [OF planner_ok_plan2, of 1 "(1, 1)" 1 0 "(0, 0)" 0] conv_plan2 by auto
  have "route plan2 (on_map plan2) [(1, 1), (0, 0)]" by (simp add: route_def on_map_plan2 adjacent_def)
  then have "r = 0" using q(2) by force
  with q obtain xs where "path q = map (pos_of plan2) xs" "xs \<noteq> []" "hd xs = (1, 1)" "last xs = (0, 0)" by (auto simp: route_def)
  then have "hd (path q) = pos_of plan2 (1, 1)" "last (path q) = pos_of plan2 (0, 0)" by (simp_all add: hd_map last_map)
  with q(1) \<open>r = 0\<close> show ?thesis by (simp add: pos_of_def PLAN_INDEX_def plan2_def)
qed

text \<open>A cell next to the goal always leads straight to it.\<close>

lemma next_to_goal:
  assumes "xs \<noteq> []" "successively (leads_to p q) xs" "set xs \<subseteq> marked q" "adjacent (hd xs) (last xs)"
  shows "xs = [hd xs, last xs]"
proof (cases xs)
  case Nil
  with assms(1) show ?thesis by simp
next
  case (Cons x ys)
  have "ys \<noteq> []" using assms(4) Cons by (auto simp: adjacent_def)
  then obtain y zs where ys: "ys = y # zs" by (cases ys) auto
  have "zs = []"
  proof (rule ccontr)
    assume z: "zs \<noteq> []"
    have "successively (\<lambda>x y. cost_of q y < cost_of q x) (y # zs)"
      by (rule successively_mono [of "leads_to p q"]) (use assms(2) Cons ys in \<open>auto simp: leads_to_def\<close>)
    then have "sorted_wrt (\<lambda>x y. cost_of q y < cost_of q x) (y # zs)"
      by (subst (asm) successively_conv_sorted_wrt) (auto intro: transpI)
    then have "cost_of q (last zs) < cost_of q y" using z by simp
    moreover have "leads_to p q x y" using assms(2) Cons ys by simp
    moreover have "last zs \<in> marked q" "adjacent (last zs) x"
      using assms(3,4) Cons ys z by (auto simp: adjacent_sym dest: subsetD [OF _ last_in_set])
    ultimately have "cost_of q y \<le> cost_of q (last zs)" unfolding leads_to_def by blast
    with \<open>cost_of q (last zs) < cost_of q y\<close> show False by simp
  qed
  with Cons ys show ?thesis by simp
qed

fun route_cost :: "plan \<Rightarrow> (int \<times> int) list \<Rightarrow> real" where
  "route_cost p (x # y # xs) = edge p y x + route_cost p (y # xs)"
| "route_cost p xs = 0"

text \<open>The path need not be the cheapest: a cell is labelled by the first neighbour that is taken from the queue and never again.\<close>

lemma not_cheapest:
  "\<exists>q. plan_do_global 1 1 0 0 plan2 = Inr (0, q) \<and> path q = map (pos_of plan2) [(1, 1), (0, 0)] \<and>
     route plan2 (on_map plan2) [(1, 1), (1, 0), (0, 0)] \<and>
     route_cost plan2 [(1, 1), (1, 0), (0, 0)] < route_cost plan2 [(1, 1), (0, 0)]"
proof -
  obtain r q where q: "plan_do_global 1 1 0 0 plan2 = Inr (r, q)"
    "r = 0 \<longleftrightarrow> (\<exists>xs. route plan2 (on_map plan2) xs \<and> hd xs = (1, 1) \<and> last xs = (0, 0))"
    "r = 0 \<longrightarrow> (\<exists>xs. path q = map (pos_of plan2) xs \<and> route plan2 (on_map plan2) xs \<and> hd xs = (1, 1) \<and> last xs = (0, 0) \<and>
      set xs \<subseteq> marked q \<and> successively (leads_to plan2 q) xs)"
    using plan_do_global_ok [OF planner_ok_plan2, of 1 "(1, 1)" 1 0 "(0, 0)" 0] conv_plan2 by auto
  have "route plan2 (on_map plan2) [(1, 1), (0, 0)]" by (simp add: route_def on_map_plan2 adjacent_def)
  then have r0: "r = 0" using q(2) by force
  with q obtain xs where xs: "path q = map (pos_of plan2) xs" "xs \<noteq> []" "hd xs = (1, 1)" "last xs = (0, 0)"
    "set xs \<subseteq> marked q" "successively (leads_to plan2 q) xs" by (auto simp: route_def)
  have "xs = [(1, 1), (0, 0)]" using next_to_goal [OF xs(2,6,5)] xs(3,4) by (simp add: adjacent_def)
  moreover have "route plan2 (on_map plan2) [(1, 1), (1, 0), (0, 0)]"
    by (simp add: route_def on_map_plan2 adjacent_def traversable_def cell_plan2) (simp add: free_cell_def plan2_def plan_alloc_def)
  moreover have "route_cost plan2 [(1, 1), (1, 0), (0, 0)] = 11 / 10" "route_cost plan2 [(1, 1), (0, 0)] = sqrt 2"
    by (simp_all add: edge_def step_cost_def kernel_entry_def cell_plan2) (simp_all add: free_cell_def plan2_def plan_alloc_def)
  moreover have "11 / 10 < sqrt (2 :: real)" by (rule real_less_rsqrt) (simp add: power2_eq_square)
  ultimately show ?thesis using q(1) xs(1) r0 by (intro exI [of _ q]) (simp only:)
qed

section \<open>The local goal\<close>

lemma closest_ok:
  assumes "\<And>k. k \<in> set ks \<Longrightarrow> \<exists>c. cell_at (int k) p = Inr c \<and> 0 \<le> ci c \<and> ci c < 32768 \<and> 0 \<le> cj c \<and> cj c < 32768"
    and "0 \<le> li" "li < 32768" "0 \<le> lj" "lj < 32768"
    and "\<And>b m. best = Some (b, m) \<Longrightarrow> b < n"
  shows "\<exists>r. closest li lj ks n best p = Inr r \<and> (best \<noteq> None \<or> ks \<noteq> [] \<longrightarrow> (\<exists>b. r = Some b \<and> b < n + length ks))"
  using assms(1,6)
proof (induction ks arbitrary: n best)
  case Nil
  then show ?case by (cases best) auto
next
  case (Cons k ks)
  obtain c where c: "cell_at (int k) p = Inr c" "0 \<le> ci c" "ci c < 32768" "0 \<le> cj c" "cj c < 32768"
    using Cons.prems(1) [of k] by auto
  have sq: "0 \<le> a * a \<and> a * a \<le> 1073676289" if "\<bar>a\<bar> \<le> 32767" for a :: int
  proof -
    have "\<bar>a\<bar> * \<bar>a\<bar> \<le> 32767 * 32767" using that by (intro mult_mono) auto
    then show ?thesis by (simp add: abs_mult_self_eq)
  qed
  have d: "\<bar>ci c - li\<bar> \<le> 32767" "\<bar>cj c - lj\<bar> \<le> 32767" using c assms(2-5) by linarith+
  have ir: "int_range x" "int_range y" "int_range (x + y)" if "0 \<le> x \<and> x \<le> 1073676289" "0 \<le> y \<and> y \<le> 1073676289" for x y
    using that by (simp_all add: int_range_def)
  note r = ir [OF sq [OF d(1)] sq [OF d(2)]]
  define d2 where "d2 = (ci c - li) * (ci c - li) + (cj c - lj) * (cj c - lj)"
  define best' where "best' = (case best of None \<Rightarrow> Some (n, d2) | Some (b, m) \<Rightarrow> if d2 < m then Some (n, d2) else Some (b, m))"
  have "closest li lj (k # ks) n best p = closest li lj ks (n + 1) best' p"
    unfolding best'_def d2_def using r by (simp add: c(1) Let_def)
  moreover have "b < n + 1" if "best' = Some (b, m)" for b m
    using that Cons.prems(2) by (auto simp: best'_def split: option.splits if_splits prod.splits)
  moreover have "best' \<noteq> None" by (auto simp: best'_def split: option.splits prod.splits)
  ultimately show ?case using Cons.IH [of best' "n + 1"] Cons.prems(1) by fastforce
qed

lemma inside_run_ok:
  assumes "\<And>k. k \<in> set ks \<Longrightarrow> \<exists>c. cell_at (int k) p = Inr c"
  shows "\<exists>n \<le> length ks. inside_run ks p = Inr n \<and>
    (\<forall>k \<in> set (take n ks). \<exists>c. cell_at (int k) p = Inr c \<and> min_x p \<le> ci c \<and> ci c \<le> max_x p \<and> min_y p \<le> cj c \<and> cj c \<le> max_y p)"
  using assms
proof (induction ks)
  case (Cons k ks)
  obtain c where c: "cell_at (int k) p = Inr c" using Cons.prems [of k] by auto
  obtain n where n: "n \<le> length ks" "inside_run ks p = Inr n"
    "\<forall>k \<in> set (take n ks). \<exists>c. cell_at (int k) p = Inr c \<and> min_x p \<le> ci c \<and> ci c \<le> max_x p \<and> min_y p \<le> cj c \<and> cj c \<le> max_y p"
    using Cons.IH Cons.prems by auto
  show ?case
  proof (cases "ci c < min_x p \<or> ci c > max_x p \<or> cj c < min_y p \<or> cj c > max_y p")
    case True
    then show ?thesis using c by (intro exI [of _ 0]) auto
  next
    case False
    then show ?thesis using c n by (intro exI [of _ "Suc n"]) auto
  qed
qed simp

text \<open>The local goal is the position of a cell of the path inside the local window, whenever there is one.\<close>

lemma plan_find_local_goal_ok:
  assumes "\<And>k. k \<in> set (path p) \<Longrightarrow> \<exists>c. cell_at (int k) p = Inr c \<and> 0 \<le> ci c \<and> ci c < 32768 \<and> 0 \<le> cj c \<and> cj c < 32768"
    and l: "PLAN_GXWX p lx = Inr li" "PLAN_GYWY p ly = Inr lj" "PLAN_VALID_BOUNDS p li lj"
    and w: "0 \<le> min_x p" "max_x p < 32768" "0 \<le> min_y p" "max_y p < 32768"
  shows "plan_find_local_goal lx ly p = Inr None \<or>
    (\<exists>k c. k \<in> set (path p) \<and> cell_at (int k) p = Inr c \<and> PLAN_VALID_BOUNDS p (ci c) (cj c) \<and>
       plan_find_local_goal lx ly p = Inr (Some (PLAN_WXGX p (ci c), PLAN_WYGY p (cj c))))"
proof (cases "path p = []")
  case False
  have b: "0 \<le> li" "li < 32768" "0 \<le> lj" "lj < 32768" using l(3) w by (auto simp: PLAN_VALID_BOUNDS_def)
  obtain m where m: "closest li lj (path p) 0 None p = Inr (Some m)" "m < length (path p)"
    using closest_ok [of "path p" p li lj None 0] assms(1) b False by fastforce
  obtain n where n: "n \<le> length (drop m (path p))" "inside_run (drop m (path p)) p = Inr n"
    "\<forall>k \<in> set (take n (drop m (path p))). \<exists>c. cell_at (int k) p = Inr c \<and> min_x p \<le> ci c \<and> ci c \<le> max_x p \<and> min_y p \<le> cj c \<and> cj c \<le> max_y p"
    using inside_run_ok [of "drop m (path p)" p] assms(1) by (meson in_set_dropD)
  show ?thesis
  proof (cases "n = 0")
    case True
    then show ?thesis using False l m n by (simp add: plan_find_local_goal_def)
  next
    case n0: False
    define k where "k = path p ! (m + n - 1)"
    have "k = drop m (path p) ! (n - 1)" using n n0 m by (simp add: k_def)
    then have "k \<in> set (take n (drop m (path p)))" using n(1) n0 by (auto simp: in_set_conv_nth intro!: exI [of _ "n - 1"])
    then obtain c where c: "k \<in> set (path p)" "cell_at (int k) p = Inr c" "PLAN_VALID_BOUNDS p (ci c) (cj c)"
      using n(3) unfolding PLAN_VALID_BOUNDS_def by (meson in_set_takeD in_set_dropD)
    have "plan_find_local_goal lx ly p = Inr (Some (PLAN_WXGX p (ci c), PLAN_WYGY p (cj c)))"
      using False l m n(2) n0 c(2) by (simp add: plan_find_local_goal_def k_def)
    with c show ?thesis by blast
  qed
qed (simp add: plan_find_local_goal_def)

end
