(* ===== verification/PlanControl.thy ===== *)
theory PlanControl
  imports PlanRoute
begin

text \<open>
  Following the path, \<open>server/drivers/planner/wavefront/plan_control.c\<close>: the carrot ahead on the path that a straight line
  reaches, and the velocities that steer a differential drive towards it.  The parameters of \<open>plan_compute_diffdrive_cmds\<close>
  that do not change are a record.
\<close>

section \<open>Angles\<close>

text \<open>\<open>atan2\<close> of the C library, without signed zeros.\<close>

definition atan2 :: "real \<Rightarrow> real \<Rightarrow> real" where
  "atan2 y x =
     (if x > 0 then arctan (y / x)
      else if x < 0 then (if y \<ge> 0 then arctan (y / x) + pi else arctan (y / x) - pi)
      else if y > 0 then pi / 2 else if y < 0 then - pi / 2 else 0)"

definition ANG_NORM :: "real \<Rightarrow> real" where
  "ANG_NORM a = atan2 (sin a) (cos a)"

definition angle_diff :: "real \<Rightarrow> real \<Rightarrow> real" where
  "angle_diff a b =
     (let d1 = ANG_NORM a - ANG_NORM b; d2 = 2 * pi - \<bar>d1\<bar>; d2 = (if d1 > 0 then - d2 else d2)
      in if \<bar>d1\<bar> < \<bar>d2\<bar> then d1 else d2)"

definition plan_check_done :: "real \<Rightarrow> real \<Rightarrow> real \<Rightarrow> real \<Rightarrow> real \<Rightarrow> real \<Rightarrow> real \<Rightarrow> real \<Rightarrow> bool" where
  "plan_check_done lx ly la gx gy ga goal_d goal_a \<longleftrightarrow>
     sqrt ((gx - lx) * (gx - lx) + (gy - ly) * (gy - ly)) < goal_d \<and> \<bar>angle_diff ga la\<bar> < goal_a"

section \<open>Straight lines\<close>

text \<open>The cost of one cell of a line; \<open>None\<close> when the cell is too near an obstacle.\<close>

definition ray_cost :: "bool \<Rightarrow> int \<Rightarrow> int \<Rightarrow> plan \<Rightarrow> int option outcome" where
  "ray_cost steep x y p =
     bindo (cell_at (if steep then PLAN_INDEX p y x else PLAN_INDEX p x y) p) (\<lambda>c.
       if occ_dist_dyn c < abs_min_radius p then Inr None
       else if occ_dist_dyn c < max_radius p then
         bindo (to_int (dist_penalty p * (max_radius p - occ_dist_dyn c))) (\<lambda>n. Inr (Some n))
       else Inr (Some 0))"

record ray =
  steep :: bool
  xstep :: int
  ystep :: int
  deltax :: int
  deltay :: int

fun ray_loop :: "nat \<Rightarrow> ray \<Rightarrow> int \<Rightarrow> int \<Rightarrow> int \<Rightarrow> int \<Rightarrow> int \<Rightarrow> plan \<Rightarrow> int outcome" where
  "ray_loop fuel r xend x y err obscost p =
     (if x = xend then Inr obscost
      else
        (case fuel of
           0 \<Rightarrow> Inl OutOfFuel
         | Suc f \<Rightarrow>
             (let x = x + xstep r; err = err + deltay r;
                  (y, err) = (if 2 * err \<ge> deltax r then (y + ystep r, err - deltax r) else (y, err))
              in bindo (ray_cost (steep r) x y p) (\<lambda>c.
                   case c of
                     None \<Rightarrow> Inr (- 1)
                   | Some n \<Rightarrow> if int_range (obscost + n) then ray_loop f r xend x y err (obscost + n) p else Inl IntOverflow))))"

declare ray_loop.simps [simp del]

text \<open>The loop makes one step more than \<open>deltax\<close>.\<close>

definition ray_between :: "bool \<Rightarrow> int \<times> int \<Rightarrow> int \<times> int \<Rightarrow> ray" where
  "ray_between st s g =
     \<lparr>steep = st, xstep = (if fst s < fst g then 1 else - 1), ystep = (if snd s < snd g then 1 else - 1),
      deltax = \<bar>fst g - fst s\<bar>, deltay = \<bar>snd g - snd s\<bar>\<rparr>"

definition plan_check_path :: "plan_cell \<Rightarrow> plan_cell \<Rightarrow> plan \<Rightarrow> int outcome" where
  "plan_check_path s g p =
     (let st = \<bar>cj g - cj s\<bar> > \<bar>ci g - ci s\<bar>;
          (x0, y0) = (if st then (cj s, ci s) else (ci s, cj s));
          (x1, y1) = (if st then (cj g, ci g) else (ci g, cj g));
          r = ray_between st (x0, y0) (x1, y1)
      in bindo (ray_cost st x0 y0 p) (\<lambda>c.
           case c of
             None \<Rightarrow> Inr (- 1)
           | Some n \<Rightarrow> ray_loop (nat (deltax r) + 1) r (x1 + xstep r) x0 y0 0 n p))"

section \<open>The carrot\<close>

text \<open>The cell a distance ahead on the path, each pointer counting as one \<open>scale\<close>.\<close>

fun ahead :: "nat \<Rightarrow> real \<Rightarrow> real \<Rightarrow> nat \<Rightarrow> plan \<Rightarrow> nat outcome" where
  "ahead fuel d far k p =
     bindo (cell_at (int k) p) (\<lambda>c.
       case plan_next c of
         None \<Rightarrow> Inr k
       | Some n \<Rightarrow>
           if d < far then (case fuel of 0 \<Rightarrow> Inl OutOfFuel | Suc f \<Rightarrow> ahead f (d + scale p) far n p) else Inr k)"

declare ahead.simps [simp del]

fun carrot_loop ::
    "nat \<Rightarrow> nat \<Rightarrow> real \<Rightarrow> real \<Rightarrow> real \<Rightarrow> (real \<times> real) option \<Rightarrow> plan \<Rightarrow> (real \<times> (real \<times> real) option) outcome" where
  "carrot_loop fuel k w far best pt p =
     (if far < scale p then Inr (best, pt)
      else
        (case fuel of
           0 \<Rightarrow> Inl OutOfFuel
         | Suc f \<Rightarrow>
             bindo (ahead (nat \<lceil>far / scale p\<rceil>) (scale p) far k p) (\<lambda>n.
             bindo (cell_at (int k) p) (\<lambda>s. bindo (cell_at (int n) p) (\<lambda>g.
             bindo (plan_check_path s g p) (\<lambda>c.
               if c < 0 then carrot_loop f k w (far - scale p) best pt p
               else
                 (let cost = of_int c + w * (1 / (far * far))
                  in if best < 0 \<or> cost < best
                     then carrot_loop f k w (far - scale p) cost (Some (PLAN_WXGX p (ci g), PLAN_WYGY p (cj g))) p
                     else carrot_loop f k w (far - scale p) best pt p)))))))"

declare carrot_loop.simps [simp del]

text \<open>The position is written only when there is a carrot.\<close>

definition plan_get_carrot :: "real \<Rightarrow> real \<Rightarrow> real \<Rightarrow> real \<Rightarrow> plan \<Rightarrow> (real \<times> (real \<times> real) option \<times> plan) outcome" where
  "plan_get_carrot lx ly maxdist distweight p =
     bindo (PLAN_GXWX p lx) (\<lambda>li. bindo (PLAN_GYWY p ly) (\<lambda>lj.
       let k = PLAN_INDEX p li lj in
       bindo (cell_at k p) (\<lambda>c.
       bindo (upd_cell k (\<lambda>c. c\<lparr>occ_state_dyn := - 1, occ_dist_dyn := max_radius p\<rparr>) p) (\<lambda>q.
       bindo (carrot_loop (nat \<lfloor>maxdist / scale p\<rfloor> + 1) (nat k) distweight maxdist (- 1) None q) (\<lambda>(best, pt).
       bindo (upd_cell k (\<lambda>c'. c'\<lparr>occ_state_dyn := occ_state_dyn c, occ_dist_dyn := occ_dist_dyn c\<rparr>) q) (\<lambda>q.
         Inr (best, pt, q)))))))"

section \<open>Velocities\<close>

record control =
  goal_d :: real
  goal_a :: real
  maxd :: real
  dweight :: real
  tvmin :: real
  tvmax :: real
  avmin :: real
  avmax :: real
  amin :: real
  amax :: real

text \<open>The result, the velocities when they are written, \<open>*rotate_dir\<close>, and the map.\<close>

definition plan_compute_diffdrive_cmds ::
    "control \<Rightarrow> int \<Rightarrow> real \<Rightarrow> real \<Rightarrow> real \<Rightarrow> real \<Rightarrow> real \<Rightarrow> real \<Rightarrow> plan \<Rightarrow> (int \<times> (real \<times> real) option \<times> int \<times> plan) outcome" where
  "plan_compute_diffdrive_cmds a dir lx ly la gx gy ga p =
     (if plan_check_done lx ly la gx gy ga (goal_d a) (goal_a a) then Inr (0, Some (0, 0), dir, p)
      else if sqrt ((gx - lx) * (gx - lx) + (gy - ly) * (gy - ly)) < goal_d a then
        (let ad = angle_diff ga la; dir = (if dir = 0 then (if ad < 0 then - 1 else 1) else dir)
         in Inr (0, Some (0, of_int dir * (avmin a + (\<bar>ad\<bar> / pi) * (avmax a - avmin a))), dir, p))
      else
        bindo (plan_get_carrot lx ly (maxd a) (dweight a) p) (\<lambda>(best, pt, q).
          if best < 0 then Inr (- 1, None, 0, q)
          else
            (case pt of
               None \<Rightarrow> Inl Uninitialised
             | Some (cx, cy) \<Rightarrow>
                 (let d = sqrt ((lx - cx) * (lx - cx) + (ly - cy) * (ly - cy)); b = atan2 (cy - ly) (cx - lx);
                      am = amin a + (d / maxd a) * (amax a - amin a); ad = angle_diff b la;
                      vx = (if \<bar>ad\<bar> > am then 0 else tvmin a + (d / maxd a) * (tvmax a - tvmin a));
                      va = avmin a + (\<bar>ad\<bar> / pi) * (avmax a - avmin a)
                  in Inr (0, Some (vx, if ad < 0 then - va else va), 0, q)))))"

section \<open>Angles are normalised\<close>

lemma atan2_ok:
  assumes r: "x \<noteq> 0 \<or> y \<noteq> 0"
  shows "cos (atan2 y x) = x / sqrt (x * x + y * y)" "sin (atan2 y x) = y / sqrt (x * x + y * y)"
    "- pi < atan2 y x" "atan2 y x \<le> pi"
proof -
  have root: "sqrt (1 + (y / x)\<^sup>2) = sqrt (x * x + y * y) / \<bar>x\<bar>" if "x \<noteq> 0"
  proof -
    have "1 + (y / x)\<^sup>2 = (x * x + y * y) / x\<^sup>2" using that by (simp add: field_simps power2_eq_square)
    then show ?thesis by (simp add: real_sqrt_divide)
  qed
  have a: "- (pi / 2) < arctan (y / x)" "arctan (y / x) < pi / 2" using arctan_bounded by blast+
  consider "x > 0" | "x < 0" | "x = 0" "y > 0" | "x = 0" "y < 0" using r by linarith
  then have "cos (atan2 y x) = x / sqrt (x * x + y * y) \<and> sin (atan2 y x) = y / sqrt (x * x + y * y) \<and>
    - pi < atan2 y x \<and> atan2 y x \<le> pi"
  proof cases
    case 1
    then show ?thesis using a root pi_gt_zero by (simp add: atan2_def cos_arctan sin_arctan field_simps)
  next
    case 2
    have y: "y \<ge> 0 \<Longrightarrow> arctan (y / x) \<le> 0" "y < 0 \<Longrightarrow> 0 < arctan (y / x)"
      using 2 by (simp_all add: divide_nonneg_neg divide_neg_neg)
    show ?thesis using 2 a y root pi_gt_zero
      by (cases "y \<ge> 0") (simp_all add: atan2_def cos_arctan sin_arctan cos_diff sin_diff)
  next
    case 3
    then show ?thesis using pi_gt_zero by (simp add: atan2_def real_sqrt_mult)
  next
    case 4
    then have "sqrt (y * y) = - y" by simp
    then show ?thesis using 4 by (simp add: atan2_def) (insert pi_gt_zero, linarith)
  qed
  then show "cos (atan2 y x) = x / sqrt (x * x + y * y)" "sin (atan2 y x) = y / sqrt (x * x + y * y)"
    "- pi < atan2 y x" "atan2 y x \<le> pi" by simp_all
qed

lemma ANG_NORM_ok: "- pi < ANG_NORM a" "ANG_NORM a \<le> pi" "\<exists>n :: int. a = ANG_NORM a + 2 * pi * of_int n"
proof -
  have nz: "cos a \<noteq> 0 \<or> sin a \<noteq> 0" using sin_zero_norm_cos_one [of a] by auto
  note A = atan2_ok [OF nz, folded ANG_NORM_def]
  show "- pi < ANG_NORM a" "ANG_NORM a \<le> pi" by (fact A)+
  have "sqrt (cos a * cos a + sin a * sin a) = 1" by (simp add: sin_cos_squared_add3)
  with A have "sin a = sin (ANG_NORM a) \<and> cos a = cos (ANG_NORM a)" by simp
  then show "\<exists>n :: int. a = ANG_NORM a + 2 * pi * of_int n" unfolding sin_cos_eq_iff .
qed

text \<open>The difference of two angles is the short way round.\<close>

lemma angle_diff_ok: "\<bar>angle_diff a b\<bar> \<le> pi \<and> (\<exists>n :: int. a - b = angle_diff a b + 2 * pi * of_int n)"
proof -
  obtain m n :: int where mn: "a = ANG_NORM a + 2 * pi * of_int m" "b = ANG_NORM b + 2 * pi * of_int n"
    using ANG_NORM_ok(3) by meson
  define d where "d = ANG_NORM a - ANG_NORM b"
  have d: "\<bar>d\<bar> < 2 * pi" using ANG_NORM_ok(1,2) [of a] ANG_NORM_ok(1,2) [of b] by (simp add: d_def abs_less_iff)
  have ab: "a - b = d + 2 * pi * of_int (m - n)" using mn by (simp add: d_def algebra_simps)
  have e: "angle_diff a b = (if \<bar>d\<bar> < 2 * pi - \<bar>d\<bar> then d else if d > 0 then d - 2 * pi else 2 * pi + d)"
    using d by (auto simp: angle_diff_def Let_def simp flip: d_def)
  have "\<bar>d\<bar> < pi \<or> pi \<le> d \<or> d \<le> - pi" by linarith
  then consider "angle_diff a b = d" "\<bar>d\<bar> < pi" | "angle_diff a b = d - 2 * pi" "pi \<le> d" | "angle_diff a b = d + 2 * pi" "d \<le> - pi"
    unfolding e using d pi_gt_zero by (auto simp: abs_if split: if_splits)
  then show ?thesis
  proof cases
    case 1
    then show ?thesis using ab by (intro conjI exI [of _ "m - n"]) auto
  next
    case 2
    have "a - b = angle_diff a b + 2 * pi * of_int (m - n + 1)" using ab 2 by (simp add: algebra_simps)
    with 2 d show ?thesis by (intro conjI exI [of _ "m - n + 1"]) auto
  next
    case 3
    have "a - b = angle_diff a b + 2 * pi * of_int (m - n - 1)" using ab 3 by (simp add: algebra_simps)
    with 3 d show ?thesis by (intro conjI exI [of _ "m - n - 1"]) auto
  qed
qed

section \<open>Lines are straight\<close>

text \<open>After \<open>k\<close> steps along the longer side the line has gone the share of the shorter side that is due, rounded.\<close>

definition line_steps :: "ray \<Rightarrow> int \<Rightarrow> int" where
  "line_steps r k = (if deltax r = 0 then k else (2 * k * deltay r + deltax r) div (2 * deltax r))"

definition line_cell :: "ray \<Rightarrow> int \<times> int \<Rightarrow> int \<Rightarrow> int \<times> int" where
  "line_cell r s k =
     (let x = fst s + k * xstep r; y = snd s + line_steps r k * ystep r in if steep r then (y, x) else (x, y))"

text \<open>The cells from \<open>S\<close> to \<open>G\<close> and one beyond.\<close>

definition ray_of :: "int \<times> int \<Rightarrow> int \<times> int \<Rightarrow> ray" where
  "ray_of S G =
     (if \<bar>snd G - snd S\<bar> > \<bar>fst G - fst S\<bar> then ray_between True (prod.swap S) (prod.swap G) else ray_between False S G)"

definition line_cells :: "int \<times> int \<Rightarrow> int \<times> int \<Rightarrow> (int \<times> int) list" where
  "line_cells S G =
     (let r = ray_of S G in map (line_cell r (if steep r then prod.swap S else S)) [0 .. deltax r + 1])"

definition cell_penalty :: "plan \<Rightarrow> int \<times> int \<Rightarrow> int" where
  "cell_penalty p x =
     (if occ_dist_dyn (cell_of p x) < max_radius p then \<lfloor>dist_penalty p * (max_radius p - occ_dist_dyn (cell_of p x))\<rfloor> else 0)"

definition line_cost :: "plan \<Rightarrow> (int \<times> int) list \<Rightarrow> int" where
  "line_cost p xs = (if \<forall>x \<in> set xs. traversable p x then sum_list (map (cell_penalty p) xs) else - 1)"

lemma line_steps_0: "0 \<le> deltax r \<Longrightarrow> line_steps r 0 = 0"
  by (simp add: line_steps_def)

lemma line_steps_end: "0 \<le> deltax r \<Longrightarrow> deltay r \<le> deltax r \<Longrightarrow> 0 \<le> deltay r \<Longrightarrow> line_steps r (deltax r) = deltay r"
proof (cases "deltax r = 0")
  case False
  assume "0 \<le> deltax r"
  have "(2 * deltax r * deltay r + deltax r) div (2 * deltax r) = deltay r"
    by (rule int_div_pos_eq [where r = "deltax r"]) (use False \<open>0 \<le> deltax r\<close> in auto)
  with False show ?thesis by (simp add: line_steps_def)
qed (simp add: line_steps_def)

lemma line_steps_Suc:
  assumes "0 \<le> deltay r" "deltay r \<le> deltax r" "0 \<le> k"
  shows "line_steps r (k + 1) =
    line_steps r k + (if 2 * (k * deltay r - line_steps r k * deltax r + deltay r) \<ge> deltax r then 1 else 0)"
proof (cases "deltax r = 0")
  case True
  then show ?thesis using assms by (simp add: line_steps_def)
next
  case False
  let ?dx = "deltax r" and ?dy = "deltay r"
  define m where "m = (2 * k * ?dy + ?dx) div (2 * ?dx)"
  have dx: "0 < ?dx" using False assms by simp
  have m: "2 * ?dx * m \<le> 2 * k * ?dy + ?dx" "2 * k * ?dy + ?dx < 2 * ?dx * m + 2 * ?dx"
    using dx pos_mod_bound [of "2 * ?dx" "2 * k * ?dy + ?dx"] pos_mod_sign [of "2 * ?dx" "2 * k * ?dy + ?dx"]
      mult_div_mod_eq [of "2 * ?dx" "2 * k * ?dy + ?dx"] unfolding m_def by linarith+
  let ?c = "2 * (k * ?dy - m * ?dx + ?dy) \<ge> ?dx"
  have "(2 * (k + 1) * ?dy + ?dx) div (2 * ?dx) = m + (if ?c then 1 else 0)"
  proof (cases ?c)
    case True
    show ?thesis
      by (rule int_div_pos_eq [where r = "2 * (k + 1) * ?dy + ?dx - 2 * ?dx * (m + 1)"])
        (use True m assms dx in \<open>auto simp: algebra_simps\<close>)
  next
    case False
    show ?thesis
      by (rule int_div_pos_eq [where r = "2 * (k + 1) * ?dy + ?dx - 2 * ?dx * m"])
        (use False m assms dx in \<open>auto simp: algebra_simps\<close>)
  qed
  then show ?thesis using False by (simp add: line_steps_def m_def)
qed

lemma ray_cost_ok:
  assumes g: "grid_ok p" and x: "line_cell r s k \<in> on_map p" and pos: "0 \<le> dist_penalty p" "0 \<le> occ_dist_dyn (cell_of p (line_cell r s k))"
    and B: "dist_penalty p * max_radius p \<le> 2147483647"
  shows "ray_cost (steep r) (fst s + k * xstep r) (snd s + line_steps r k * ystep r) p =
    Inr (if traversable p (line_cell r s k) then Some (cell_penalty p (line_cell r s k)) else None)"
    "0 \<le> cell_penalty p (line_cell r s k)" "real_of_int (cell_penalty p (line_cell r s k)) \<le> max 0 (dist_penalty p * max_radius p)"
proof -
  let ?x = "line_cell r s k"
  let ?c = "cell_of p ?x"
  have c: "cell_at (if steep r then PLAN_INDEX p (snd s + line_steps r k * ystep r) (fst s + k * xstep r)
      else PLAN_INDEX p (fst s + k * xstep r) (snd s + line_steps r k * ystep r)) p = Inr ?c"
    using cell_at_map [OF g, of "fst ?x" "snd ?x"] x by (auto simp: line_cell_def Let_def)
  have b: "0 \<le> dist_penalty p * (max_radius p - occ_dist_dyn ?c) \<and>
      dist_penalty p * (max_radius p - occ_dist_dyn ?c) \<le> dist_penalty p * max_radius p" if "occ_dist_dyn ?c < max_radius p"
    using that pos by (auto intro!: mult_left_mono)
  have i: "to_int (dist_penalty p * (max_radius p - occ_dist_dyn ?c)) = Inr (cell_penalty p ?x)" if "occ_dist_dyn ?c < max_radius p"
  proof -
    have "\<lfloor>dist_penalty p * (max_radius p - occ_dist_dyn ?c)\<rfloor> \<le> 2147483647" using b [OF that] B by (simp add: floor_le_iff)
    moreover have "0 \<le> \<lfloor>dist_penalty p * (max_radius p - occ_dist_dyn ?c)\<rfloor>" using b [OF that] by simp
    ultimately show ?thesis using that b [OF that] by (simp add: to_int_def int_range_def cell_penalty_def Let_def)
  qed
  show "ray_cost (steep r) (fst s + k * xstep r) (snd s + line_steps r k * ystep r) p =
    Inr (if traversable p ?x then Some (cell_penalty p ?x) else None)"
    using i by (auto simp: ray_cost_def c traversable_def) (simp add: cell_penalty_def)
  show "0 \<le> cell_penalty p ?x" using b by (simp add: cell_penalty_def)
  show "real_of_int (cell_penalty p ?x) \<le> max 0 (dist_penalty p * max_radius p)"
    using b by (auto simp: cell_penalty_def le_max_iff_disj intro: order_trans [OF of_int_floor_le])
qed

text \<open>A map on which the costs of a line do not overflow.\<close>

definition penalty_ok :: "plan \<Rightarrow> bool" where
  "penalty_ok p \<longleftrightarrow> grid_ok p \<and> 0 \<le> dist_penalty p \<and> 0 \<le> max_radius p \<and> (\<forall>x \<in> on_map p. 0 \<le> occ_dist_dyn (cell_of p x)) \<and>
     65537 * (dist_penalty p * max_radius p) \<le> 2147483647"

lemma penalty_okD:
  assumes "penalty_ok p"
  shows "grid_ok p" "0 \<le> dist_penalty p" "\<And>x. x \<in> on_map p \<Longrightarrow> 0 \<le> occ_dist_dyn (cell_of p x)"
    "dist_penalty p * max_radius p \<le> 2147483647" "0 \<le> dist_penalty p * max_radius p"
    "n \<le> 65537 \<Longrightarrow> 0 \<le> n \<Longrightarrow> n * (dist_penalty p * max_radius p) \<le> 2147483647"
proof -
  let ?B = "dist_penalty p * max_radius p"
  show B: "0 \<le> ?B" using assms by (simp add: penalty_ok_def)
  show "grid_ok p" "0 \<le> dist_penalty p" "\<And>x. x \<in> on_map p \<Longrightarrow> 0 \<le> occ_dist_dyn (cell_of p x)"
    using assms by (simp_all add: penalty_ok_def)
  have C: "65537 * ?B \<le> 2147483647" using assms by (simp add: penalty_ok_def)
  then show "?B \<le> 2147483647" using B by linarith
  assume "n \<le> 65537" "0 \<le> n"
  then have "n * ?B \<le> 65537 * ?B" using B by (intro mult_right_mono) auto
  with C show "n * ?B \<le> 2147483647" by linarith
qed

lemma int_upto_Cons: "(k :: int) \<le> n \<Longrightarrow> [k .. n] = k # [k + 1 .. n]"
  by (rule upto_rec1)

lemma ray_loop_ok:
  assumes p: "penalty_ok p" and r: "0 \<le> deltay r" "deltay r \<le> deltax r" "deltax r \<le> 65535" "xstep r \<noteq> 0"
    and on: "\<And>k. 0 \<le> k \<Longrightarrow> k \<le> deltax r + 1 \<Longrightarrow> line_cell r s k \<in> on_map p"
  shows "int n = deltax r + 1 - k \<Longrightarrow> 0 \<le> k \<Longrightarrow> n \<le> fuel \<Longrightarrow> 0 \<le> c0 \<Longrightarrow>
    real_of_int c0 \<le> real_of_int (k + 1) * (dist_penalty p * max_radius p) \<Longrightarrow>
    ray_loop fuel r (fst s + (deltax r + 1) * xstep r) (fst s + k * xstep r) (snd s + line_steps r k * ystep r)
      (k * deltay r - line_steps r k * deltax r) c0 p =
    Inr (let xs = map (line_cell r s) [k + 1 .. deltax r + 1]
         in if \<forall>x \<in> set xs. traversable p x then c0 + sum_list (map (cell_penalty p) xs) else - 1)"
proof (induction n arbitrary: k fuel c0)
  case 0
  then have "k = deltax r + 1" by simp
  then show ?case by (simp add: ray_loop.simps)
next
  case (Suc n)
  let ?k = "k + 1"
  let ?x = "line_cell r s ?k"
  let ?B = "dist_penalty p * max_radius p"
  have k: "?k \<le> deltax r + 1" "0 \<le> ?k" using Suc.prems by auto
  obtain f where f: "fuel = Suc f" "n \<le> f" using Suc.prems(3) by (cases fuel) auto
  note pd = penalty_okD [OF p]
  note C = ray_cost_ok [OF pd(1) on [OF k(2,1)] pd(2) pd(3) [OF on [OF k(2,1)]] pd(4)]
  have ne: "fst s + k * xstep r \<noteq> fst s + (deltax r + 1) * xstep r" using r(4) k by simp
  have x1: "fst s + k * xstep r + xstep r = fst s + ?k * xstep r" by (simp add: algebra_simps)
  define e where "e = k * deltay r - line_steps r k * deltax r"
  have S: "line_steps r ?k = line_steps r k + (if 2 * (e + deltay r) \<ge> deltax r then 1 else 0)"
    using line_steps_Suc [OF r(1,2) Suc.prems(2)] by (simp add: e_def)
  have step: "(if 2 * (e + deltay r) \<ge> deltax r then (snd s + line_steps r k * ystep r + ystep r, e + deltay r - deltax r)
      else (snd s + line_steps r k * ystep r, e + deltay r)) =
    (snd s + line_steps r ?k * ystep r, ?k * deltay r - line_steps r ?k * deltax r)"
    unfolding S by (simp add: e_def algebra_simps)
  have loop: "ray_loop fuel r (fst s + (deltax r + 1) * xstep r) (fst s + k * xstep r) (snd s + line_steps r k * ystep r) e c0 p =
    (if traversable p ?x then
       (if int_range (c0 + cell_penalty p ?x)
        then ray_loop f r (fst s + (deltax r + 1) * xstep r) (fst s + ?k * xstep r) (snd s + line_steps r ?k * ystep r)
               (?k * deltay r - line_steps r ?k * deltax r) (c0 + cell_penalty p ?x) p
        else Inl IntOverflow)
     else Inr (- 1))"
    by (subst ray_loop.simps) (simp only: f(1) ne if_False nat.case Let_def x1 step prod.case C(1) bindo.simps option.case split: if_splits, simp)
  have cells: "map (line_cell r s) [?k .. deltax r + 1] = ?x # map (line_cell r s) [?k + 1 .. deltax r + 1]"
    using int_upto_Cons [OF k(1)] by simp
  show ?case
  proof (cases "traversable p ?x")
    case False
    then show ?thesis by (simp only: loop [unfolded e_def] if_False cells) simp
  next
    case True
    have b: "real_of_int (c0 + cell_penalty p ?x) \<le> real_of_int (?k + 1) * ?B"
      using Suc.prems(5) C(3) pd(5) by (simp add: algebra_simps)
    moreover have "real_of_int (?k + 1) * ?B \<le> 2147483647" using k r(3) by (intro pd(6)) simp_all
    ultimately have "c0 + cell_penalty p ?x \<le> 2147483647" by linarith
    moreover have c: "0 \<le> c0 + cell_penalty p ?x" using Suc.prems(4) C(2) by simp
    ultimately have ir: "int_range (c0 + cell_penalty p ?x)" by (simp add: int_range_def)
    have n: "int n = deltax r + 1 - ?k" using Suc.prems(1) by simp
    show ?thesis
      by (simp only: loop [unfolded e_def] True if_True ir Suc.IH [OF n k(2) f(2) c b] cells) (simp add: True Let_def add.assoc)
  qed
qed

lemma line_cells_props:
  shows "deltay (ray_of S G) \<le> deltax (ray_of S G)" "0 \<le> deltay (ray_of S G)" "xstep (ray_of S G) \<noteq> 0"
    "deltax (ray_of S G) = max \<bar>fst G - fst S\<bar> \<bar>snd G - snd S\<bar>"
  by (auto simp: ray_of_def ray_between_def)

text \<open>A line stays in the box of its ends, which may be one cell larger at the end of \<open>G\<close>.\<close>

lemma plan_check_path_ok:
  assumes p: "penalty_ok p" and c: "ci (cell_of p S) = fst S" "cj (cell_of p S) = snd S" "ci (cell_of p G) = fst G" "cj (cell_of p G) = snd G"
    and on: "set (line_cells S G) \<subseteq> on_map p" "G \<in> on_map p" "S \<in> on_map p"
  shows "plan_check_path (cell_of p S) (cell_of p G) p = Inr (line_cost p (line_cells S G))"
proof -
  define r where "r = ray_of S G"
  define s where "s = (if steep r then prod.swap S else S)"
  have g: "size_x p \<le> 65536" "size_y p \<le> 65536" using penalty_okD(1) [OF p] by (simp_all add: grid_ok_def)
  have r: "0 \<le> deltay r" "deltay r \<le> deltax r" "deltax r \<le> 65535" "xstep r \<noteq> 0"
    using line_cells_props [of S G] on(2,3) g by (auto simp: r_def on_map_def)
  have l: "line_cells S G = map (line_cell r s) [0 .. deltax r + 1]" by (simp add: line_cells_def r_def s_def Let_def)
  have lc: "line_cell r s k \<in> on_map p" if "0 \<le> k" "k \<le> deltax r + 1" for k
    using on(1) that by (auto simp: l)
  have m0: "line_steps r 0 = 0" using r by (intro line_steps_0) linarith
  note pd = penalty_okD [OF p]
  have l0: "line_cell r s 0 \<in> on_map p" using lc r by simp
  note C0 = ray_cost_ok [OF pd(1) l0 pd(2) pd(3) [OF l0] pd(4), simplified m0 mult_zero_left add_0_right]
  have split: "plan_check_path (cell_of p S) (cell_of p G) p =
    bindo (ray_cost (steep r) (fst s) (snd s) p) (\<lambda>c.
      case c of None \<Rightarrow> Inr (- 1) | Some n \<Rightarrow> ray_loop (nat (deltax r) + 1) r (fst s + (deltax r + 1) * xstep r) (fst s) (snd s) 0 n p)"
  proof (cases "\<bar>snd G - snd S\<bar> > \<bar>fst G - fst S\<bar>")
    case True
    then have r: "r = ray_between True (snd S, fst S) (snd G, fst G)" by (simp add: r_def ray_of_def prod.swap_def)
    have e: "steep r = True" "fst s = snd S" "snd s = fst S" by (simp_all add: s_def r ray_between_def)
    have x: "snd S + (deltax r + 1) * xstep r = snd G + xstep r"
      by (simp add: r ray_between_def algebra_simps)
    show ?thesis unfolding e x unfolding plan_check_path_def c Let_def r by (simp only: True if_True prod.case)
  next
    case False
    then have r: "r = ray_between False (fst S, snd S) (fst G, snd G)" by (simp add: r_def ray_of_def)
    have e: "steep r = False" "fst s = fst S" "snd s = snd S" by (simp_all add: s_def r ray_between_def)
    have x: "fst S + (deltax r + 1) * xstep r = fst G + xstep r"
      by (simp add: r ray_between_def algebra_simps)
    show ?thesis unfolding e x unfolding plan_check_path_def c Let_def r by (simp only: False if_False prod.case)
  qed
  have cells: "[0 .. deltax r + 1] = 0 # [1 .. deltax r + 1]" using int_upto_Cons [of 0 "deltax r + 1"] r by simp
  show ?thesis
  proof (cases "traversable p (line_cell r s 0)")
    case False
    then show ?thesis by (simp add: split C0(1) line_cost_def l cells)
  next
    case True
    have b: "real_of_int (cell_penalty p (line_cell r s 0)) \<le> real_of_int (0 + 1) * (dist_penalty p * max_radius p)"
      using C0(3) pd(5) by simp
    have n: "int (nat (deltax r) + 1) = deltax r + 1 - 0" using r by simp
    note L = ray_loop_ok [OF p r lc, OF _ _ n _ order_refl C0(2) b, simplified m0 mult_zero_left add_0_right diff_0_right]
    show ?thesis
      using True L by (simp add: split C0(1) line_cost_def l cells Let_def)
  qed
qed

lemma line_steps_bounds:
  assumes r: "0 \<le> deltay r" "deltay r \<le> deltax r" and k: "0 \<le> k" "k \<le> deltax r + 1"
  shows "0 \<le> line_steps r k" "line_steps r k \<le> deltay r + 1" "2 * \<bar>k * deltay r - line_steps r k * deltax r\<bar> \<le> deltax r"
proof -
  have "0 \<le> line_steps r k \<and> line_steps r k \<le> deltay r + 1 \<and> 2 * \<bar>k * deltay r - line_steps r k * deltax r\<bar> \<le> deltax r"
  proof (cases "deltax r = 0")
    case True
    then show ?thesis using r k by (auto simp: line_steps_def)
  next
    case False
    let ?n = "2 * k * deltay r + deltax r" and ?d = "2 * deltax r"
    have dx: "0 < deltax r" using False r by linarith
    have m: "line_steps r k = ?n div ?d" using False by (simp add: line_steps_def)
    have n: "0 \<le> k * deltay r" using r k by simp
    have "k * deltay r \<le> (deltax r + 1) * deltay r" using r k by (intro mult_right_mono) auto
    then have "?n \<le> ?d * (deltay r + 1) + deltax r" using r by (simp add: algebra_simps)
    then have "?n div ?d \<le> (?d * (deltay r + 1) + deltax r) div ?d" using dx by (intro zdiv_mono1) auto
    moreover have "(?d * (deltay r + 1) + deltax r) div ?d = deltay r + 1"
      by (rule int_div_pos_eq [where r = "deltax r"]) (use dx in auto)
    ultimately have "?n div ?d \<le> deltay r + 1" by simp
    moreover have "0 \<le> ?n div ?d" using n dx by (simp add: pos_imp_zdiv_nonneg_iff)
    moreover
    define D where "D = ?n div ?d"
    have "?d * D \<le> ?n" "?n < ?d * D + ?d"
      unfolding D_def using dx pos_mod_bound [of ?d ?n] pos_mod_sign [of ?d ?n] mult_div_mod_eq [of ?d ?n] by linarith+
    then have "2 * (D * deltax r) \<le> 2 * (k * deltay r) + deltax r" "2 * (k * deltay r) + deltax r < 2 * (D * deltax r) + 2 * deltax r"
      by (simp_all add: algebra_simps)
    then have "2 * \<bar>k * deltay r - D * deltax r\<bar> \<le> deltax r" by (simp only: abs_if split: if_splits) auto
    then have "2 * \<bar>k * deltay r - (?n div ?d) * deltax r\<bar> \<le> deltax r" unfolding D_def .
    ultimately show ?thesis unfolding m by blast
  qed
  then show "0 \<le> line_steps r k" "line_steps r k \<le> deltay r + 1" "2 * \<bar>k * deltay r - line_steps r k * deltax r\<bar> \<le> deltax r"
    by blast+
qed

lemma line_cell_start: "fst (line_cell (ray_of S G) (if steep (ray_of S G) then prod.swap S else S) 0) = fst S"
  "snd (line_cell (ray_of S G) (if steep (ray_of S G) then prod.swap S else S) 0) = snd S"
  using line_steps_0 [of "ray_of S G"] line_cells_props(4) [of S G]
  by (auto simp: line_cell_def Let_def)

lemma between_ends:
  assumes "r = ray_between st s g" "deltay r \<le> deltax r"
  shows "line_cell r s (deltax r) = (if st then prod.swap g else g)"
    "0 \<le> k \<Longrightarrow> k \<le> deltax r + 1 \<Longrightarrow> min (fst s) (fst g) - 1 \<le> fst s + k * xstep r \<and> fst s + k * xstep r \<le> max (fst s) (fst g) + 1 \<and>
      min (snd s) (snd g) - 1 \<le> snd s + line_steps r k * ystep r \<and> snd s + line_steps r k * ystep r \<le> max (snd s) (snd g) + 1"
    "0 \<le> k \<Longrightarrow> k \<le> deltax r + 1 \<Longrightarrow>
      2 * \<bar>(k * xstep r) * (snd g - snd s) - (line_steps r k * ystep r) * (fst g - fst s)\<bar> \<le> deltax r"
proof -
  have d: "0 \<le> deltax r" "0 \<le> deltay r" using assms(1) by (simp_all add: ray_between_def)
  have g: "fst g - fst s = deltax r * xstep r" "snd g - snd s = deltay r * ystep r"
    and st: "steep r = st" and xy: "xstep r = 1 \<or> xstep r = - 1" "ystep r = 1 \<or> ystep r = - 1"
    using assms(1) by (auto simp: ray_between_def)
  show "line_cell r s (deltax r) = (if st then prod.swap g else g)"
    using g line_steps_end [OF d(1) assms(2) d(2)] by (cases g) (auto simp: line_cell_def Let_def st algebra_simps)
  assume k: "0 \<le> k" "k \<le> deltax r + 1"
  note B = line_steps_bounds [OF d(2) assms(2) k]
  show "min (fst s) (fst g) - 1 \<le> fst s + k * xstep r \<and> fst s + k * xstep r \<le> max (fst s) (fst g) + 1 \<and>
      min (snd s) (snd g) - 1 \<le> snd s + line_steps r k * ystep r \<and> snd s + line_steps r k * ystep r \<le> max (snd s) (snd g) + 1"
    using xy g k B(1,2) by (auto simp: min_def max_def)
  have "(k * xstep r) * (snd g - snd s) - (line_steps r k * ystep r) * (fst g - fst s) =
    (xstep r * ystep r) * (k * deltay r - line_steps r k * deltax r)" by (simp add: g algebra_simps)
  moreover have "\<bar>xstep r * ystep r\<bar> = 1" using xy by auto
  ultimately show "2 * \<bar>(k * xstep r) * (snd g - snd s) - (line_steps r k * ystep r) * (fst g - fst s)\<bar> \<le> deltax r"
    using B(3) by (simp add: abs_mult)
qed

text \<open>The cells of a line: from \<open>S\<close> through \<open>G\<close>, each within half a cell of the straight line.\<close>

lemma line_cells_ok:
  fixes S G :: "int \<times> int"
  defines "n \<equiv> nat (max \<bar>fst G - fst S\<bar> \<bar>snd G - snd S\<bar>)"
  shows "length (line_cells S G) = n + 2" "line_cells S G ! 0 = S" "line_cells S G ! n = G"
    "(x, y) \<in> set (line_cells S G) \<Longrightarrow>
      2 * \<bar>(x - fst S) * (snd G - snd S) - (y - snd S) * (fst G - fst S)\<bar> \<le> max \<bar>fst G - fst S\<bar> \<bar>snd G - snd S\<bar> \<and>
      min (fst S) (fst G) - 1 \<le> x \<and> x \<le> max (fst S) (fst G) + 1 \<and> min (snd S) (snd G) - 1 \<le> y \<and> y \<le> max (snd S) (snd G) + 1"
proof -
  define r where "r = ray_of S G"
  define s where "s = (if steep r then prod.swap S else S)"
  define g where "g = (if steep r then prod.swap G else G)"
  have l: "line_cells S G = map (line_cell r s) [0 .. deltax r + 1]" by (simp add: line_cells_def r_def s_def Let_def)
  have d: "deltax r = max \<bar>fst G - fst S\<bar> \<bar>snd G - snd S\<bar>" "deltay r \<le> deltax r" "0 \<le> deltax r"
    using line_cells_props [of S G] by (simp_all add: r_def)
  have r: "r = ray_between (steep r) s g" by (auto simp: r_def s_def g_def ray_of_def ray_between_def)
  note E = between_ends [OF r d(2)]
  have n: "n = nat (deltax r)" by (simp only: n_def d(1))
  show "length (line_cells S G) = n + 2" using d(3) by (simp add: l n)
  show "line_cells S G ! 0 = S"
    using d(3) line_cell_start [of S G] by (simp add: l prod_eq_iff flip: r_def s_def)
  show "line_cells S G ! n = G" using d(3) E(1) by (simp add: l n g_def)
  assume "(x, y) \<in> set (line_cells S G)"
  then obtain k where k: "(x, y) = line_cell r s k" "0 \<le> k" "k \<le> deltax r + 1" by (auto simp: l)
  have "2 * \<bar>(x - fst S) * (snd G - snd S) - (y - snd S) * (fst G - fst S)\<bar> \<le> deltax r"
    using E(3) [OF k(2,3)] k(1) by (cases "steep r") (simp_all add: line_cell_def Let_def s_def g_def abs_minus_commute mult.commute)
  moreover have "min (fst S) (fst G) - 1 \<le> x \<and> x \<le> max (fst S) (fst G) + 1 \<and> min (snd S) (snd G) - 1 \<le> y \<and> y \<le> max (snd S) (snd G) + 1"
    using E(2) [OF k(2,3)] k(1) by (cases "steep r") (simp_all add: line_cell_def Let_def s_def g_def)
  ultimately show "2 * \<bar>(x - fst S) * (snd G - snd S) - (y - snd S) * (fst G - fst S)\<bar> \<le> max \<bar>fst G - fst S\<bar> \<bar>snd G - snd S\<bar> \<and>
      min (fst S) (fst G) - 1 \<le> x \<and> x \<le> max (fst S) (fst G) + 1 \<and> min (snd S) (snd G) - 1 \<le> y \<and> y \<le> max (snd S) (snd G) + 1"
    using d(1) by simp
qed

definition interior :: "plan \<Rightarrow> (int \<times> int) set" where
  "interior p = {1 ..< size_x p - 1} \<times> {1 ..< size_y p - 1}"

lemma interior_on_map: "interior p \<subseteq> on_map p"
  by (auto simp: interior_def on_map_def)

lemma line_cells_on_map:
  assumes "S \<in> interior p" "G \<in> interior p"
  shows "set (line_cells S G) \<subseteq> on_map p"
proof
  fix x assume "x \<in> set (line_cells S G)"
  then have "min (fst S) (fst G) - 1 \<le> fst x \<and> fst x \<le> max (fst S) (fst G) + 1 \<and>
      min (snd S) (snd G) - 1 \<le> snd x \<and> snd x \<le> max (snd S) (snd G) + 1"
    using line_cells_ok(4) [of "fst x" "snd x" S G] by simp
  with assms show "x \<in> on_map p" by (auto simp: interior_def on_map_def mem_Times_iff)
qed

text \<open>The cells come one after the other: each step goes one cell along the longer side, and none or one along the shorter.\<close>

lemma line_cells_steps:
  fixes S G :: "int \<times> int"
  defines "along \<equiv> if \<bar>snd G - snd S\<bar> > \<bar>fst G - fst S\<bar> then snd else fst"
    and "across \<equiv> if \<bar>snd G - snd S\<bar> > \<bar>fst G - fst S\<bar> then fst else snd"
  assumes k: "k < length (line_cells S G)"
  shows "along (line_cells S G ! k) = along S + (if along S < along G then int k else - int k)"
    "0 < k \<Longrightarrow> \<bar>across (line_cells S G ! k) - across (line_cells S G ! (k - 1))\<bar> \<le> 1"
proof -
  define r where "r = ray_of S G"
  define s where "s = (if steep r then prod.swap S else S)"
  have l: "line_cells S G = map (line_cell r s) [0 .. deltax r + 1]" by (simp add: line_cells_def r_def s_def Let_def)
  have d: "deltay r \<le> deltax r" "0 \<le> deltay r" "0 \<le> deltax r"
    using line_cells_props [of S G] by (simp_all add: r_def)
  have at: "line_cells S G ! m = line_cell r s (int m)" if "m \<le> k" for m using k d(3) that by (simp add: l)
  have st: "steep r \<longleftrightarrow> \<bar>snd G - snd S\<bar> > \<bar>fst G - fst S\<bar>" by (simp add: r_def ray_of_def ray_between_def)
  have ax: "along S = fst s" "xstep r = (if along S < along G then 1 else - 1)" "\<bar>ystep r\<bar> = 1"
    by (auto simp: along_def s_def st) (auto simp: r_def ray_of_def ray_between_def)
  have x: "along (line_cell r s m) = fst s + m * xstep r" "across (line_cell r s m) = snd s + line_steps r m * ystep r" for m
    by (auto simp: along_def across_def line_cell_def Let_def st)
  show "along (line_cells S G ! k) = along S + (if along S < along G then int k else - int k)"
    by (simp add: at x ax)
  assume "0 < k"
  then have k1: "int (k - 1) = int k - 1" "k - 1 \<le> k" by auto
  have "line_steps r (int k - 1) \<le> line_steps r (int k) \<and> line_steps r (int k) \<le> line_steps r (int k - 1) + 1"
    using line_steps_Suc [OF d(2,1), of "int k - 1"] \<open>0 < k\<close> by simp
  then have "\<bar>line_steps r (int k) - line_steps r (int k - 1)\<bar> \<le> 1" by linarith
  then have "\<bar>(line_steps r (int k) - line_steps r (int k - 1)) * ystep r\<bar> \<le> 1" by (simp add: abs_mult ax)
  then show "\<bar>across (line_cells S G ! k) - across (line_cells S G ! (k - 1))\<bar> \<le> 1"
    unfolding at [OF order_refl] at [OF k1(2)] k1(1) x by (simp add: left_diff_distrib)
qed

text \<open>C13: Let both ends lie off the border of the map, the cells know their places, and the penalties be so small that their sum
  stays in the range of \<open>int\<close>.  Then \<open>plan_check_path\<close> looks at the cells of the straight line from \<open>S\<close> to \<open>G\<close> and at one
  beyond \<open>G\<close>, all of them on the map: the cell number \<open>k\<close> is \<open>k\<close> cells away from \<open>S\<close> along the longer side, the next one is at
  most one off along the shorter side, and none is more than half a cell off the line.  It returns -1 exactly when one of these
  cells is blocked, and the sum of their penalties otherwise.\<close>

theorem plan_check_path_follows_line:
  assumes p: "penalty_ok p" and c: "coords_ok p" and S: "S \<in> interior p" and G: "G \<in> interior p"
  shows "\<exists>n xs. int n = max \<bar>fst G - fst S\<bar> \<bar>snd G - snd S\<bar> \<and> length xs = n + 2 \<and> xs ! 0 = S \<and> xs ! n = G \<and> set xs \<subseteq> on_map p \<and>
    (\<forall>(x, y) \<in> set xs. 2 * \<bar>(x - fst S) * (snd G - snd S) - (y - snd S) * (fst G - fst S)\<bar> \<le> int n) \<and>
    (let (along, across) = if \<bar>snd G - snd S\<bar> > \<bar>fst G - fst S\<bar> then (snd, fst) else (fst, snd)
     in \<forall>k < n + 2. along (xs ! k) = along S + (if along S < along G then int k else - int k) \<and>
       (0 < k \<longrightarrow> \<bar>across (xs ! k) - across (xs ! (k - 1))\<bar> \<le> 1)) \<and>
    plan_check_path (cell_of p S) (cell_of p G) p =
      Inr (if \<forall>x \<in> set xs. traversable p x then sum_list (map (cell_penalty p) xs) else - 1)"
proof (intro exI conjI)
  let ?n = "nat (max \<bar>fst G - fst S\<bar> \<bar>snd G - snd S\<bar>)"
  show n: "int ?n = max \<bar>fst G - fst S\<bar> \<bar>snd G - snd S\<bar>" by (simp add: le_max_iff_disj)
  show len: "length (line_cells S G) = ?n + 2" and "line_cells S G ! 0 = S" "line_cells S G ! ?n = G"
    by (fact line_cells_ok(1-3))+
  show "\<forall>(x, y) \<in> set (line_cells S G). 2 * \<bar>(x - fst S) * (snd G - snd S) - (y - snd S) * (fst G - fst S)\<bar> \<le> int ?n"
    using line_cells_ok(4) [where S = S and G = G] unfolding n by auto
  show "set (line_cells S G) \<subseteq> on_map p" by (rule line_cells_on_map [OF S G])
  show "let (along, across) = if \<bar>snd G - snd S\<bar> > \<bar>fst G - fst S\<bar> then (snd, fst) else (fst, snd)
     in \<forall>k < ?n + 2. along (line_cells S G ! k) = along S + (if along S < along G then int k else - int k) \<and>
       (0 < k \<longrightarrow> \<bar>across (line_cells S G ! k) - across (line_cells S G ! (k - 1))\<bar> \<le> 1)"
    using line_cells_steps [of _ S G, unfolded len] by (cases "\<bar>snd G - snd S\<bar> > \<bar>fst G - fst S\<bar>") (simp_all add: Let_def)
  have on: "S \<in> on_map p" "G \<in> on_map p" using S G interior_on_map by blast+
  note cc = cell_coords [OF penalty_okD(1) [OF p] c]
  show "plan_check_path (cell_of p S) (cell_of p G) p =
      Inr (if \<forall>x \<in> set (line_cells S G). traversable p x then sum_list (map (cell_penalty p) (line_cells S G)) else - 1)"
    using plan_check_path_ok [OF p _ _ _ _ line_cells_on_map [OF S G] on(2,1)] cc [of "fst S" "snd S"] cc [of "fst G" "snd G"] on
    by (simp add: line_cost_def)
qed

section \<open>Pointers along the path\<close>

text \<open>From each cell of \<open>A\<close> the pointer leads to a neighbour in \<open>A\<close>, or it is null.\<close>

definition links_ok :: "plan \<Rightarrow> (int \<times> int) set \<Rightarrow> bool" where
  "links_ok p A \<longleftrightarrow> (\<forall>x \<in> A. plan_next (cell_of p x) = None \<or> (\<exists>y \<in> A. plan_next (cell_of p x) = Some (pos_of p y) \<and> adjacent x y))"

definition followable :: "plan \<Rightarrow> (int \<times> int) set \<Rightarrow> bool" where
  "followable p A \<longleftrightarrow> penalty_ok p \<and> coords_ok p \<and> 0 < scale p \<and> A \<subseteq> interior p \<and> links_ok p A"

lemma followableD:
  assumes "followable p A"
  shows "penalty_ok p" "coords_ok p" "0 < scale p" "A \<subseteq> interior p" "A \<subseteq> on_map p" "links_ok p A" "grid_ok p"
  using assms interior_on_map [of p] penalty_okD(1) [of p] unfolding followable_def by blast+

lemma ahead_ok:
  assumes p: "followable p A"
  shows "x \<in> A \<Longrightarrow> far \<le> d + real fuel * scale p \<Longrightarrow>
    \<exists>y \<in> A. \<exists>n. ahead fuel d far (pos_of p x) p = Inr (pos_of p y) \<and> \<bar>fst y - fst x\<bar> \<le> int n \<and> \<bar>snd y - snd x\<bar> \<le> int n \<and>
      (n = 0 \<or> d + (real n - 1) * scale p < far)"
proof (induction fuel arbitrary: x d)
  case (0 x d)
  have c: "cell_at (int (pos_of p x)) p = Inr (cell_of p x)"
    using cell_at_pos [OF followableD(7) [OF p]] followableD(5) [OF p] 0(1) by blast
  have "ahead 0 d far (pos_of p x) p = Inr (pos_of p x)"
    using 0 by (subst ahead.simps) (simp add: c split: option.split)
  with 0(1) show ?case by (intro bexI [of _ x] exI [of _ 0]) simp_all
next
  case (Suc fuel x d)
  have c: "cell_at (int (pos_of p x)) p = Inr (cell_of p x)"
    using cell_at_pos [OF followableD(7) [OF p]] followableD(5) [OF p] Suc.prems(1) by blast
  show ?case
  proof (cases "plan_next (cell_of p x) = None \<or> \<not> d < far")
    case True
    then have "ahead (Suc fuel) d far (pos_of p x) p = Inr (pos_of p x)"
      by (subst ahead.simps) (auto simp: c split: option.split)
    with Suc.prems(1) show ?thesis by (intro bexI [of _ x] exI [of _ 0]) simp_all
  next
    case False
    then obtain y where y: "y \<in> A" "plan_next (cell_of p x) = Some (pos_of p y)" "adjacent x y"
      using followableD(6) [OF p] Suc.prems(1) by (auto simp: links_ok_def)
    have step: "ahead (Suc fuel) d far (pos_of p x) p = ahead fuel (d + scale p) far (pos_of p y) p"
      using False by (subst ahead.simps) (simp add: c y(2))
    have "far \<le> (d + scale p) + real fuel * scale p" using Suc.prems(2) by (simp add: algebra_simps)
    from Suc.IH [OF y(1) this] obtain z n where z: "z \<in> A" "ahead fuel (d + scale p) far (pos_of p y) p = Inr (pos_of p z)"
      "\<bar>fst z - fst y\<bar> \<le> int n" "\<bar>snd z - snd y\<bar> \<le> int n" "n = 0 \<or> d + scale p + (real n - 1) * scale p < far" by blast
    have "\<bar>fst z - fst x\<bar> \<le> int (Suc n)" "\<bar>snd z - snd x\<bar> \<le> int (Suc n)"
      using z(3,4) y(3) by (auto simp: adjacent_def)
    moreover have "d + (real (Suc n) - 1) * scale p < far" using z(5) False by (auto simp: algebra_simps)
    ultimately show ?thesis using z(1,2) step by (intro bexI [of _ z] exI [of _ "Suc n"]) simp_all
  qed
qed

text \<open>The carrot is a cell of the path whose coordinates differ from those of the robot's cell by at most \<open>far / scale\<close>.\<close>

definition carrot_at :: "plan \<Rightarrow> (int \<times> int) set \<Rightarrow> int \<times> int \<Rightarrow> real \<Rightarrow> real \<Rightarrow> (real \<times> real) option \<Rightarrow> bool" where
  "carrot_at p A x far best pt \<longleftrightarrow> pt = None \<and> best < 0 \<or>
     (\<exists>y \<in> A. pt = Some (PLAN_WXGX p (fst y), PLAN_WYGY p (snd y)) \<and>
       real_of_int \<bar>fst y - fst x\<bar> * scale p \<le> far \<and> real_of_int \<bar>snd y - snd x\<bar> * scale p \<le> far)"

lemma carrot_loop_ok:
  assumes p: "followable p A" and x: "x \<in> A"
  shows "far < real (fuel + 1) * scale p \<Longrightarrow> far \<le> max_far \<Longrightarrow> carrot_at p A x max_far best pt \<Longrightarrow>
    \<exists>best' pt'. carrot_loop fuel (pos_of p x) w far best pt p = Inr (best', pt') \<and> carrot_at p A x max_far best' pt'"
proof (induction fuel arbitrary: far best pt)
  case 0
  then show ?case by (simp add: carrot_loop.simps)
next
  case (Suc fuel)
  note F = followableD [OF p]
  show ?case
  proof (cases "far < scale p")
    case True
    with Suc.prems(3) show ?thesis by (simp add: carrot_loop.simps)
  next
    case False
    have "far / scale p \<le> real (nat \<lceil>far / scale p\<rceil>)" using False F(3) by (simp add: real_nat_ceiling_ge)
    then have "far \<le> scale p + real (nat \<lceil>far / scale p\<rceil>) * scale p"
      using F(3) by (simp add: divide_le_eq)
    from ahead_ok [OF p x this] obtain y n where y: "y \<in> A"
      "ahead (nat \<lceil>far / scale p\<rceil>) (scale p) far (pos_of p x) p = Inr (pos_of p y)"
      "\<bar>fst y - fst x\<bar> \<le> int n" "\<bar>snd y - snd x\<bar> \<le> int n" "n = 0 \<or> scale p + (real n - 1) * scale p < far" by blast
    have xm: "x \<in> on_map p" "y \<in> on_map p" using x y(1) F(5) by blast+
    have int: "x \<in> interior p" "y \<in> interior p" using x y(1) F(4) by blast+
    note cx = cell_at_pos [OF F(7) xm(1)] and cy = cell_at_pos [OF F(7) xm(2)]
    have co: "ci (cell_of p z) = fst z \<and> cj (cell_of p z) = snd z" if "z \<in> on_map p" for z
      using cell_coords [OF F(7,2), of "fst z" "snd z"] that by simp
    obtain c where c: "plan_check_path (cell_of p x) (cell_of p y) p = Inr c"
      using plan_check_path_ok [OF F(1) _ _ _ _ line_cells_on_map [OF int] xm(2,1)] co [OF xm(1)] co [OF xm(2)] by blast
    have nf: "real n * scale p \<le> far" using y(5) False F(3) by (auto simp: algebra_simps)
    have "real_of_int \<bar>fst y - fst x\<bar> \<le> real n" "real_of_int \<bar>snd y - snd x\<bar> \<le> real n" using y(3,4) by linarith+
    then have "real_of_int \<bar>fst y - fst x\<bar> * scale p \<le> real n * scale p" "real_of_int \<bar>snd y - snd x\<bar> * scale p \<le> real n * scale p"
      using F(3) by (auto intro!: mult_right_mono)
    then have new: "carrot_at p A x max_far b (Some (PLAN_WXGX p (ci (cell_of p y)), PLAN_WYGY p (cj (cell_of p y))))" for b
      using y(1) nf Suc.prems(2) co [OF xm(2)] unfolding carrot_at_def by (intro disjI2 bexI [of _ y]) auto
    have fuel: "far - scale p < real (fuel + 1) * scale p" "far - scale p \<le> max_far"
      using Suc.prems(1,2) F(3) by (auto simp: algebra_simps)
    have "\<exists>b pt'. carrot_loop (Suc fuel) (pos_of p x) w far best pt p = carrot_loop fuel (pos_of p x) w (far - scale p) b pt' p \<and>
      carrot_at p A x max_far b pt'"
      using False new Suc.prems(3)
      by (subst carrot_loop.simps) (auto simp: y(2) cx cy c Let_def)
    with Suc.IH [OF fuel] show ?thesis by metis
  qed
qed

section \<open>Commands\<close>

lemma followable_latched:
  assumes p: "followable p A" and x: "x \<in> A"
  shows "followable (put_cell x (latched (cell_of p x) p) p) A"
proof -
  let ?q = "put_cell x (latched (cell_of p x) p) p"
  note F = followableD [OF p]
  have xm: "x \<in> on_map p" using x F(5) by blast
  note D = same_frameD [OF same_frame_put [of p x "latched (cell_of p x) p"]]
  have cell: "cell_of ?q y = (if y = x then latched (cell_of p x) p else cell_of p y)" if "y \<in> on_map p" for y
    using cell_of_put [OF F(7) xm that] .
  have same: "dist_penalty ?q = dist_penalty p" "max_radius ?q = max_radius p" "scale ?q = scale p" "pos_of ?q = pos_of p"
    "interior ?q = interior p"
    by (simp_all add: put_cell_def pos_of_def PLAN_INDEX_def fun_eq_iff interior_def)
  have "0 \<le> occ_dist_dyn (cell_of ?q y)" if "y \<in> on_map p" for y
    using penalty_okD(3) [OF F(1)] that F(1) by (simp add: cell penalty_ok_def)
  then have "penalty_ok ?q" using F(1) by (simp add: penalty_ok_def D same)
  moreover have "coords_ok ?q"
    using coords_okI [of ?q] F(7) cell cell_coords [OF F(7,2)] by (force simp: D)
  moreover have "links_ok ?q A"
    unfolding links_ok_def same
  proof
    fix y assume y: "y \<in> A"
    then have "plan_next (cell_of ?q y) = plan_next (cell_of p y)" using cell [OF subsetD [OF F(5)]] by simp
    then show "plan_next (cell_of ?q y) = None \<or> (\<exists>z \<in> A. plan_next (cell_of ?q y) = Some (pos_of p z) \<and> adjacent y z)"
      using F(6) y by (simp add: links_ok_def)
  qed
  ultimately show ?thesis using F by (simp add: followable_def same)
qed

lemma plan_get_carrot_ok:
  assumes p: "followable p A" and x: "L \<in> A" and conv: "PLAN_GXWX p lx = Inr (fst L)" "PLAN_GYWY p ly = Inr (snd L)"
  shows "\<exists>best pt. plan_get_carrot lx ly far w p = Inr (best, pt, p) \<and> carrot_at p A L far best pt"
proof -
  note F = followableD [OF p]
  have L: "L \<in> on_map p" using x F(5) by blast
  let ?q = "put_cell L (latched (cell_of p L) p) p"
  note D = same_frameD [OF same_frame_put [of p L "latched (cell_of p L) p"]]
  note k = pos_of_int [OF F(7) L]
  have c: "cell_at (PLAN_INDEX p (fst L) (snd L)) p = Inr (cell_of p L)"
    and u: "upd_cell (PLAN_INDEX p (fst L) (snd L)) f p = Inr (put_cell L (f (cell_of p L)) p)" for f
    using cell_at_pos [OF F(7) L] upd_cell_pos [OF F(7) L] by (simp_all add: k)
  have same: "pos_of ?q = pos_of p" "scale ?q = scale p" "PLAN_WXGX ?q = PLAN_WXGX p" "PLAN_WYGY ?q = PLAN_WYGY p"
    by (simp_all add: put_cell_def pos_of_def PLAN_INDEX_def PLAN_WXGX_def PLAN_WYGY_def fun_eq_iff)
  have "far < real (nat \<lfloor>far / scale p\<rfloor> + 1 + 1) * scale p"
  proof -
    have "far / scale p < real (nat \<lfloor>far / scale p\<rfloor> + 1)" by linarith
    then show ?thesis using F(3) by (simp add: divide_less_eq algebra_simps)
  qed
  then obtain best pt where l: "carrot_loop (nat \<lfloor>far / scale p\<rfloor> + 1) (pos_of p L) w far (- 1) None ?q = Inr (best, pt)"
    "carrot_at ?q A L far best pt"
    using carrot_loop_ok [OF followable_latched [OF p x] x, of far "nat \<lfloor>far / scale p\<rfloor> + 1" far "- 1" None w]
    by (auto simp: same carrot_at_def)
  have restored: "upd_cell (PLAN_INDEX p (fst L) (snd L)) (\<lambda>c'. c'\<lparr>occ_state_dyn := occ_state_dyn (cell_of p L), occ_dist_dyn := occ_dist_dyn (cell_of p L)\<rparr>) ?q
    = Inr p"
  proof -
    have "L \<in> on_map ?q" using L by (simp add: D)
    from upd_cell_pos [of ?q L] F(7) this have "upd_cell (PLAN_INDEX p (fst L) (snd L)) f ?q = Inr (put_cell L (f (cell_of ?q L)) ?q)" for f
      by (simp add: D same k)
    moreover have "cell_of ?q L = latched (cell_of p L) p" using cell_of_put [OF F(7) L L] by simp
    moreover have "put_cell L (cell_of p L) p = p" by (simp add: put_cell_def cell_of_def split_beta)
    ultimately show ?thesis by (simp add: put_cell_twice)
  qed
  have "plan_get_carrot lx ly far w p = Inr (best, pt, p)"
    using l(1) restored by (simp add: plan_get_carrot_def conv Let_def c u pos_of_def [symmetric])
  with l(2) show ?thesis by (auto simp: carrot_at_def same)
qed

lemma conv_near:
  assumes "to_int ((x - o') / s + 1 / 2) = Inr i" "0 < s" "1 \<le> i"
  shows "\<bar>x - (o' + of_int i * s)\<bar> \<le> s / 2"
proof -
  let ?t = "(x - o') / s + 1 / 2"
  have "\<not> ?t < 0"
  proof
    assume "?t < 0"
    with assms(1) have "i = \<lceil>?t\<rceil>" by (simp add: to_int_def Let_def split: if_splits)
    with \<open>?t < 0\<close> assms(3) show False by linarith
  qed
  with assms(1) have "i = \<lfloor>?t\<rfloor>" by (simp add: to_int_def Let_def split: if_splits)
  then have "\<bar>(x - o') / s - of_int i\<bar> \<le> 1 / 2" by linarith
  then have "\<bar>(x - o') / s - of_int i\<bar> * s \<le> 1 / 2 * s" using assms(2) by (intro mult_right_mono) auto
  moreover have "\<bar>(x - o') / s - of_int i\<bar> * s = \<bar>((x - o') / s - of_int i) * s\<bar>" using assms(2) by (simp add: abs_mult)
  moreover have "((x - o') / s - of_int i) * s = x - (o' + of_int i * s)" using assms(2) by (simp add: field_simps)
  ultimately show ?thesis by simp
qed

text \<open>The distance to the carrot: the path may run diagonally, so it can be longer than \<open>maxd\<close>.\<close>

lemma carrot_distance:
  assumes p: "followable p A" and x: "L \<in> A" and conv: "PLAN_GXWX p lx = Inr (fst L)" "PLAN_GYWY p ly = Inr (snd L)"
    and c: "carrot_at p A L far best (Some (cx, cy))"
  shows "sqrt ((lx - cx) * (lx - cx) + (ly - cy) * (ly - cy)) \<le> sqrt 2 * (far + scale p / 2)"
proof -
  note F = followableD [OF p]
  have int: "1 \<le> fst L" "1 \<le> snd L" using x F(4) by (auto simp: interior_def)
  obtain y where y: "cx = PLAN_WXGX p (fst y)" "cy = PLAN_WYGY p (snd y)"
    "real_of_int \<bar>fst y - fst L\<bar> * scale p \<le> far" "real_of_int \<bar>snd y - snd L\<bar> * scale p \<le> far"
    using c by (auto simp: carrot_at_def)
  let ?B = "far + scale p / 2"
  have near: "\<bar>u - (o' + of_int j * scale p)\<bar> \<le> ?B"
    if "\<bar>u - (o' + of_int i * scale p)\<bar> \<le> scale p / 2" "real_of_int \<bar>j - i\<bar> * scale p \<le> far" for u o' i j
  proof -
    have "\<bar>of_int i * scale p - of_int j * scale p\<bar> = real_of_int \<bar>j - i\<bar> * scale p"
      using F(3) by (simp add: abs_mult abs_minus_commute flip: left_diff_distrib)
    with that show ?thesis by linarith
  qed
  have "\<bar>lx - cx\<bar> \<le> ?B" "\<bar>ly - cy\<bar> \<le> ?B"
    using near [OF conv_near [OF conv(1) [unfolded PLAN_GXWX_def] F(3) int(1)] y(3)]
      near [OF conv_near [OF conv(2) [unfolded PLAN_GYWY_def] F(3) int(2)] y(4)]
    by (simp_all add: y(1,2) PLAN_WXGX_def PLAN_WYGY_def)
  then have "(lx - cx)\<^sup>2 \<le> ?B\<^sup>2" "(ly - cy)\<^sup>2 \<le> ?B\<^sup>2" and B: "0 \<le> ?B" by (simp_all add: abs_le_square_iff [symmetric])
  then have "(lx - cx)\<^sup>2 + (ly - cy)\<^sup>2 \<le> 2 * ?B\<^sup>2" by simp
  then have "sqrt ((lx - cx)\<^sup>2 + (ly - cy)\<^sup>2) \<le> sqrt (2 * ?B\<^sup>2)" by (rule real_sqrt_le_mono)
  also have "\<dots> = sqrt 2 * ?B" using B by (simp add: real_sqrt_mult)
  finally show ?thesis by (simp add: power2_eq_square)
qed

lemma turn_bound: "0 \<le> lo \<Longrightarrow> lo \<le> hi \<Longrightarrow> \<bar>a\<bar> \<le> pi \<Longrightarrow> 0 \<le> lo + (\<bar>a\<bar> / pi) * (hi - lo) \<and> lo + (\<bar>a\<bar> / pi) * (hi - lo) \<le> hi" for a lo hi :: real
proof -
  assume "0 \<le> lo" "lo \<le> hi" "\<bar>a\<bar> \<le> pi"
  then have "0 \<le> (\<bar>a\<bar> / pi) * (hi - lo)" "(\<bar>a\<bar> / pi) * (hi - lo) \<le> 1 * (hi - lo)"
    by (intro mult_nonneg_nonneg mult_right_mono; simp)+
  with \<open>0 \<le> lo\<close> show ?thesis by simp
qed

text \<open>C16: On a path away from the border \<open>plan_compute_diffdrive_cmds\<close> always returns and leaves the map as it was.  It gives
  velocities, the turn within \<open>avmax\<close> and the speed within \<open>sqrt 2\<close> times the range up to \<open>tvmax\<close> and half a cell, or it
  returns -1 and gives none.\<close>

theorem diffdrive_cmds_bounded:
  assumes p: "followable p A" and L: "L \<in> A" and conv: "PLAN_GXWX p lx = Inr (fst L)" "PLAN_GYWY p ly = Inr (snd L)"
    and a: "0 \<le> avmin a" "avmin a \<le> avmax a" "0 \<le> tvmin a" "tvmin a \<le> tvmax a" "0 < maxd a" and dir: "dir \<in> {- 1, 0, 1}"
  shows "\<exists>r v dir'. plan_compute_diffdrive_cmds a dir lx ly la gx gy ga p = Inr (r, v, dir', p) \<and> dir' \<in> {- 1, 0, 1} \<and>
    (r = - 1 \<and> v = None \<or>
     r = 0 \<and> (\<exists>vx va. v = Some (vx, va) \<and> \<bar>va\<bar> \<le> avmax a \<and> 0 \<le> vx \<and>
       vx \<le> tvmin a + sqrt 2 * (1 + scale p / (2 * maxd a)) * (tvmax a - tvmin a)))"
proof -
  let ?V = "tvmin a + sqrt 2 * (1 + scale p / (2 * maxd a)) * (tvmax a - tvmin a)"
  have V0: "0 \<le> ?V" using a followableD(3) [OF p] by (intro add_nonneg_nonneg mult_nonneg_nonneg) auto
  show ?thesis
  proof (cases "plan_check_done lx ly la gx gy ga (goal_d a) (goal_a a)")
    case True
    then show ?thesis using dir V0 a by (simp add: plan_compute_diffdrive_cmds_def)
  next
    case False
    show ?thesis
    proof (cases "sqrt ((gx - lx) * (gx - lx) + (gy - ly) * (gy - ly)) < goal_d a")
      case True
      define ad where "ad = angle_diff ga la"
      define dir' :: int where "dir' = (if dir = 0 then (if ad < 0 then - 1 else 1) else dir)"
      have d': "dir' \<in> {- 1, 0, 1}" "\<bar>real_of_int dir'\<bar> \<le> 1" using dir by (auto simp: dir'_def)
      have T: "0 \<le> avmin a + (\<bar>ad\<bar> / pi) * (avmax a - avmin a)" "avmin a + (\<bar>ad\<bar> / pi) * (avmax a - avmin a) \<le> avmax a"
        using turn_bound [OF a(1,2)] angle_diff_ok [of ga la] by (simp_all add: ad_def)
      have "\<bar>of_int dir' * (avmin a + (\<bar>ad\<bar> / pi) * (avmax a - avmin a))\<bar> \<le> 1 * (avmin a + (\<bar>ad\<bar> / pi) * (avmax a - avmin a))"
        unfolding abs_mult using d'(2) T(1) by (intro mult_mono) auto
      then show ?thesis using False True d'(1) T(2) V0
        by (simp add: plan_compute_diffdrive_cmds_def Let_def flip: ad_def dir'_def)
    next
      case far: False
      obtain best pt where g: "plan_get_carrot lx ly (maxd a) (dweight a) p = Inr (best, pt, p)" "carrot_at p A L (maxd a) best pt"
        using plan_get_carrot_ok [OF p L conv] by blast
      show ?thesis
      proof (cases "best < 0")
        case True
        then show ?thesis using False far by (simp add: plan_compute_diffdrive_cmds_def g(1))
      next
        case nn: False
        then obtain cx cy where pt: "pt = Some (cx, cy)" using g(2) by (auto simp: carrot_at_def)
        define d where "d = sqrt ((lx - cx) * (lx - cx) + (ly - cy) * (ly - cy))"
        define ad where "ad = angle_diff (atan2 (cy - ly) (cx - lx)) la"
        have d: "0 \<le> d" "d \<le> sqrt 2 * (maxd a + scale p / 2)"
          using carrot_distance [OF p L conv g(2) [unfolded pt]] by (simp_all add: d_def)
        have T: "0 \<le> avmin a + (\<bar>ad\<bar> / pi) * (avmax a - avmin a)" "avmin a + (\<bar>ad\<bar> / pi) * (avmax a - avmin a) \<le> avmax a"
          using turn_bound [OF a(1,2)] angle_diff_ok by (simp_all add: ad_def)
        have "d / maxd a \<le> sqrt 2 * (maxd a + scale p / 2) / maxd a" using d(2) a(5) by (intro divide_right_mono) auto
        also have "\<dots> = sqrt 2 * (1 + scale p / (2 * maxd a))" using a(5) by (simp add: field_simps)
        finally have "(d / maxd a) * (tvmax a - tvmin a) \<le> sqrt 2 * (1 + scale p / (2 * maxd a)) * (tvmax a - tvmin a)"
          using a(4) by (intro mult_right_mono) auto
        moreover have "0 \<le> (d / maxd a) * (tvmax a - tvmin a)" using d(1) a by simp
        ultimately show ?thesis using False far nn T V0 a(3)
          by (cases "ad < 0") (simp_all add: plan_compute_diffdrive_cmds_def g(1) pt Let_def flip: d_def ad_def)
      qed
    qed
  qed
qed

section \<open>After planning\<close>

text \<open>When obstacles keep the planner off the border, the path it has found can be followed.\<close>

lemma route_interior:
  assumes "route p (on_map p) xs" "hd xs \<in> interior p" "last xs \<in> interior p"
    and walled: "\<forall>x \<in> on_map p. traversable p x \<longrightarrow> x \<in> interior p"
  shows "set xs \<subseteq> interior p"
proof
  fix x assume x: "x \<in> set xs"
  have r: "xs \<noteq> []" "set xs \<subseteq> on_map p" "\<forall>x \<in> set (butlast (tl xs)). traversable p x" using assms(1) by (auto simp: route_def)
  then obtain y ys where ys: "xs = y # ys" by (cases xs) auto
  consider "x = hd xs" | "x = last xs" | "x \<in> set (butlast (tl xs))"
    using x ys by (cases ys rule: rev_cases) auto
  then show "x \<in> interior p" using assms(2,3) walled r x by cases auto
qed

lemma planned_followable:
  assumes p: "planner_ok p" "65537 * (dist_penalty p * max_radius p) \<le> 2147483647"
    and conv: "PLAN_GXWX p lx = Inr (fst L)" "PLAN_GYWY p ly = Inr (snd L)" "PLAN_GXWX p gx = Inr (fst G)" "PLAN_GYWY p gy = Inr (snd G)"
    and LG: "L \<noteq> G" "L \<in> interior p" "G \<in> interior p" and walled: "\<forall>x \<in> on_map p. traversable p x \<longrightarrow> x \<in> interior p"
    and found: "plan_do_global lx ly gx gy p = Inr (0, q)"
  shows "\<exists>A. L \<in> A \<and> followable q A \<and> PLAN_GXWX q lx = Inr (fst L) \<and> PLAN_GYWY q ly = Inr (snd L)"
proof -
  obtain xs where xs: "route p (on_map p) xs" "hd xs = L" "last xs = G" "successively (leads_to p q) xs"
    and k: "keeps_map p q" "plan_next (cell_of q G) = None"
    using plan_do_global_ok [OF p(1) conv] found LG(1) by auto
  have ne: "xs \<noteq> []" using xs(1) by (simp add: route_def)
  have g: "grid_ok p" "coords_ok p" using p(1) by (simp_all add: planner_ok_def plan_ok_def)
  have K: "size_x q = size_x p" "size_y q = size_y p" "scale q = scale p" "dist_penalty q = dist_penalty p" "max_radius q = max_radius p"
    "length (cells q) = length (cells p)" "origin_x q = origin_x p" "origin_y q = origin_y p" and om: "on_map q = on_map p"
    using k(1) keeps_map_on_map [OF k(1)] by (simp_all add: keeps_map_def)
  have cell: "ci (cell_of q x) = ci (cell_of p x) \<and> cj (cell_of q x) = cj (cell_of p x) \<and> occ_dist_dyn (cell_of q x) = occ_dist_dyn (cell_of p x)"
    if "x \<in> on_map p" for x using k(1) that by (simp add: keeps_map_def)
  have gq: "grid_ok q" using g(1) by (simp add: grid_ok_def K)
  have pos: "pos_of q = pos_of p" "PLAN_GXWX q = PLAN_GXWX p" "PLAN_GYWY q = PLAN_GYWY p" "interior q = interior p"
    by (simp_all add: pos_of_def PLAN_INDEX_def PLAN_GXWX_def PLAN_GYWY_def interior_def fun_eq_iff K)
  have "penalty_ok q" using p cell by (simp add: penalty_ok_def gq K om planner_ok_def)
  moreover have "coords_ok q" using coords_okI [OF gq] cell cell_coords [OF g] by (force simp: om)
  moreover have "links_ok q (set xs)"
    unfolding links_ok_def
  proof
    fix x assume x: "x \<in> set xs"
    show "plan_next (cell_of q x) = None \<or> (\<exists>y \<in> set xs. plan_next (cell_of q x) = Some (pos_of q y) \<and> adjacent x y)"
    proof (cases "x \<in> set (butlast xs)")
      case True
      then obtain y where "y \<in> set xs" "leads_to p q x y" using successively_butlast [OF xs(4)] by blast
      then show ?thesis unfolding leads_to_def pos using adjacent_sym [of x] by blast
    next
      case False
      then have "x = last xs" using x ne by (metis append_butlast_last_id in_set_conv_decomp_last set_ConsD rotate1.simps(2) set_rotate1)
      then show ?thesis using k(2) xs(3) by simp
    qed
  qed
  moreover have "set xs \<subseteq> interior p" using route_interior [OF xs(1) _ _ walled] xs(2,3) LG by simp
  moreover have "0 < scale p" using p(1) by (simp add: planner_ok_def)
  ultimately have "followable q (set xs)" by (simp add: followable_def K pos)
  moreover have "L \<in> set xs" using ne xs(2) by force
  ultimately show ?thesis using conv by (auto simp: pos)
qed

section \<open>Examples and edge cases\<close>

definition drive_cell :: "nat \<Rightarrow> plan_cell" where
  "drive_cell k = (free_cell (int k mod 4) (int k div 4))\<lparr>plan_next := if k = 5 then Some 10 else None\<rparr>"

definition drive_map :: plan where
  "drive_map = (plan_alloc (1 / 2) (1 / 2) 2 1 (1 / 10))\<lparr>size_x := 4, size_y := 4, scale := 1, max_x := 3, max_y := 3,
     cells := map drive_cell [0 ..< 16]\<rparr>"

definition drive_control :: control where
  "drive_control = \<lparr>goal_d = 1 / 10, goal_a = 1, maxd = 11 / 10, dweight = 1, tvmin = 0, tvmax = 1, avmin = 0, avmax = 1, amin = 1, amax = 1\<rparr>"

lemma drive_map_simps:
  "size_x drive_map = 4" "size_y drive_map = 4" "scale drive_map = 1" "dist_penalty drive_map = 1" "max_radius drive_map = 2"
  "abs_min_radius drive_map = 1 / 2" "origin_x drive_map = 0" "origin_y drive_map = 0" "length (cells drive_map) = 16"
  by (simp_all add: drive_map_def plan_alloc_def)

lemma drive_map_cell: "x \<in> on_map drive_map \<Longrightarrow> cell_of drive_map x = drive_cell (pos_of drive_map x)"
proof -
  assume "x \<in> on_map drive_map"
  then have "pos_of drive_map x < 16" by (auto simp: on_map_def pos_of_def PLAN_INDEX_def drive_map_simps)
  then show ?thesis by (simp add: cell_of_def split_beta flip: pos_of_def) (simp add: drive_map_def)
qed

lemma drive_cell_occ: "occ_dist_dyn (drive_cell k) = 2"
  by (simp add: drive_cell_def free_cell_def)

lemma drive_map_ok: "followable drive_map {(1, 1), (2, 2)}"
proof -
  have g: "grid_ok drive_map" by (simp add: grid_ok_def drive_map_simps)
  have c: "coords_ok drive_map"
    unfolding coords_ok_def drive_map_simps by (simp add: drive_map_def drive_cell_def free_cell_def)
  have "penalty_ok drive_map"
    by (simp add: penalty_ok_def g drive_map_simps drive_map_cell drive_cell_occ)
  moreover have on: "(1, 1) \<in> on_map drive_map" "(2, 2) \<in> on_map drive_map" by (simp_all add: on_map_def drive_map_simps)
  then have "links_ok drive_map {(1, 1), (2, 2)}"
    by (simp add: links_ok_def drive_map_cell drive_cell_def pos_of_def PLAN_INDEX_def drive_map_simps adjacent_def)
  ultimately show ?thesis using c by (simp add: followable_def drive_map_simps interior_def)
qed

lemma drive_conv: "PLAN_GXWX drive_map 1 = Inr 1" "PLAN_GYWY drive_map 1 = Inr 1"
  by (simp_all add: PLAN_GXWX_def PLAN_GYWY_def drive_map_simps to_int_def int_range_def floor_eq_iff Let_def)

theorem plan_check_path_follows_line_witness:
  "plan_check_path (cell_of drive_map (1, 1)) (cell_of drive_map (2, 2)) drive_map = Inr 0"
proof -
  note F = followableD [OF drive_map_ok]
  have i: "(1, 1) \<in> interior drive_map" "(2, 2) \<in> interior drive_map" by (simp_all add: interior_def drive_map_simps)
  obtain xs where xs: "set xs \<subseteq> on_map drive_map" "plan_check_path (cell_of drive_map (1, 1)) (cell_of drive_map (2, 2)) drive_map =
      Inr (if \<forall>x \<in> set xs. traversable drive_map x then sum_list (map (cell_penalty drive_map) xs) else - 1)"
    using plan_check_path_follows_line [OF F(1,2) i] by blast
  have "traversable drive_map x \<and> cell_penalty drive_map x = 0" if "x \<in> on_map drive_map" for x
    using that by (simp add: traversable_def cell_penalty_def drive_map_cell drive_cell_occ drive_map_simps)
  then have all: "\<And>x. x \<in> set xs \<Longrightarrow> traversable drive_map x" "\<And>x. x \<in> set xs \<Longrightarrow> cell_penalty drive_map x = 0"
    using xs(1) by blast+
  then have "map (cell_penalty drive_map) xs = map (\<lambda>_. 0) xs" by simp
  with xs(2) all(1) show ?thesis by simp
qed

theorem diffdrive_cmds_bounded_witness:
  "\<exists>r v dir. plan_compute_diffdrive_cmds drive_control 0 1 1 0 2 2 0 drive_map = Inr (r, v, dir, drive_map) \<and> dir \<in> {- 1, 0, 1} \<and>
    (r = - 1 \<and> v = None \<or> r = 0 \<and> (\<exists>vx va. v = Some (vx, va) \<and> \<bar>va\<bar> \<le> 1 \<and> 0 \<le> vx \<and> vx \<le> sqrt 2 * (1 + 5 / 11)))"
proof -
  have a: "0 \<le> avmin drive_control" "avmin drive_control \<le> avmax drive_control" "0 \<le> tvmin drive_control"
    "tvmin drive_control \<le> tvmax drive_control" "0 < maxd drive_control" by (simp_all add: drive_control_def)
  have L: "(1, 1) \<in> {(1, 1), (2, 2) :: int \<times> int}" "PLAN_GXWX drive_map 1 = Inr (fst (1 :: int, 1 :: int))"
    "PLAN_GYWY drive_map 1 = Inr (snd (1 :: int, 1 :: int))" by (simp_all add: drive_conv)
  from diffdrive_cmds_bounded [OF drive_map_ok L a, of 0 0 2 2 0]
  show ?thesis by (simp add: drive_map_simps) (simp add: drive_control_def)
qed

text \<open>A line that ends next to the border looks at a cell in front of the map.\<close>

lemma check_path_beyond_map:
  "plan_check_path (cell_of drive_map (1, 0)) (cell_of drive_map (0, 0)) drive_map = Inl OutOfBounds"
proof -
  have c: "cell_of drive_map (1, 0) = drive_cell 1" "cell_of drive_map (0, 0) = drive_cell 0"
    using drive_map_cell [of "(1, 0)"] drive_map_cell [of "(0, 0)"]
    by (simp_all add: on_map_def pos_of_def PLAN_INDEX_def drive_map_simps)
  have k: "ci (drive_cell (Suc 0)) = 1" "cj (drive_cell (Suc 0)) = 0" "ci (drive_cell 0) = 0" "cj (drive_cell 0) = 0"
    by (simp_all add: drive_cell_def free_cell_def)
  have r: "ray_cost False 1 0 drive_map = Inr (Some 0)" "ray_cost False 0 0 drive_map = Inr (Some 0)"
    "ray_cost False (- 1) 0 drive_map = Inl OutOfBounds"
    using drive_cell_occ by (simp_all add: ray_cost_def cell_at_def PLAN_INDEX_def drive_map_simps) (simp_all add: drive_map_def)
  show ?thesis
    by (simp add: plan_check_path_def c k ray_between_def r ray_loop.simps int_range_def Let_def)
qed

text \<open>The line from a cell to itself also looks at the cell diagonally before it.\<close>

lemma line_cells_same: "line_cells (i, j) (i, j) = [(i, j), (i - 1, j - 1)]"
  by (simp add: line_cells_def ray_of_def ray_between_def line_cell_def line_steps_def Let_def upto.simps)

text \<open>A carrot one diagonal step ahead is farther than \<open>maxd\<close>, and the robot is told to go faster than \<open>tvmax\<close>.\<close>

lemma drive_carrot: "plan_get_carrot 1 1 (11 / 10) 1 drive_map = Inr (100 / 121, Some (2, 2), drive_map)"
proof -
  note F = followableD [OF drive_map_ok]
  let ?c = "latched (drive_cell 5) drive_map"
  define q where "q = put_cell (1, 1) (latched (cell_of drive_map (1, 1)) drive_map) drive_map"
  have on: "(1, 1) \<in> on_map drive_map" "(2, 2) \<in> on_map drive_map" by (simp_all add: on_map_def drive_map_simps)
  have pos: "pos_of drive_map (1, 1) = 5" "pos_of drive_map (2, 2) = 10" by (simp_all add: pos_of_def PLAN_INDEX_def drive_map_simps)
  have Q: "followable q {(1, 1), (2, 2)}" unfolding q_def by (rule followable_latched [OF drive_map_ok]) simp
  note FQ = followableD [OF Q]
  have same: "on_map q = on_map drive_map" "pos_of q = pos_of drive_map" "scale q = 1" "PLAN_WXGX q 2 = 2" "PLAN_WYGY q 2 = 2"
    "abs_min_radius q = 1 / 2" "max_radius q = 2"
    by (simp_all add: q_def put_cell_def on_map_def pos_of_def PLAN_INDEX_def fun_eq_iff PLAN_WXGX_def PLAN_WYGY_def drive_map_simps)
  have cell: "cell_of q x = (if x = (1, 1) then ?c else drive_cell (pos_of drive_map x))" if "x \<in> on_map drive_map" for x
    using cell_of_put [OF F(7) on(1) that] that on(1) by (simp add: q_def drive_map_cell pos)
  have c5: "cell_at (int 5) q = Inr ?c" using cell_at_pos [OF FQ(7), of "(1, 1)"] on(1) cell [OF on(1)] by (simp only: same pos) simp
  have c10: "cell_at (int 10) q = Inr (drive_cell 10)"
    using cell_at_pos [OF FQ(7), of "(2, 2)"] on(2) cell [OF on(2)] by (simp only: same pos) simp
  have nx: "plan_next ?c = Some 10" "plan_next (drive_cell 10) = None" by (simp_all add: drive_cell_def)
  have a10: "ahead 1 (1 + 1) (11 / 10) 10 q = Inr 10"
    by (subst ahead.simps) (simp only: c10 bindo.simps nx option.case)
  have ah: "ahead (Suc 1) 1 (11 / 10) 5 q = Inr 10"
    by (subst ahead.simps) (simp only: c5 bindo.simps nx option.case same nat.case a10, simp)
  then have ah2: "ahead 2 1 (11 / 10) 5 q = Inr 10" by (simp only: numeral_2_eq_2 One_nat_def)
  have path: "plan_check_path ?c (drive_cell 10) q = Inr 0"
  proof -
    have occ: "occ_dist_dyn (cell_of q x) = 2" if "x \<in> on_map drive_map" for x
      using cell [OF that] by (simp add: drive_cell_occ drive_map_simps)
    have i: "(1, 1) \<in> interior q" "(2, 2) \<in> interior q" using FQ(4) by auto
    have "traversable q x" "cell_penalty q x = 0" if "x \<in> set (line_cells (1, 1) (2, 2))" for x
    proof -
      have "x \<in> on_map drive_map" using line_cells_on_map [OF i] that same(1) by blast
      then show "traversable q x" "cell_penalty q x = 0" using occ by (simp_all add: traversable_def cell_penalty_def same)
    qed
    then have "line_cost q (line_cells (1, 1) (2, 2)) = sum_list (map (\<lambda>_. 0) (line_cells (1, 1) (2, 2)))"
      unfolding line_cost_def by (simp cong: map_cong)
    then show ?thesis
      using plan_check_path_ok [of q "(1, 1)" "(2, 2)", OF FQ(1)] line_cells_on_map [OF i] on cell [OF on(1)] cell [OF on(2)]
      by (simp add: same pos drive_cell_def free_cell_def)
  qed
  have n: "nat \<lceil>11 / 10 :: real\<rceil> = 2" "nat \<lfloor>11 / 10 :: real\<rfloor> = 1" by (simp_all add: ceiling_eq_iff floor_eq_iff nat_eq_iff)
  have g: "ci (drive_cell 10) = 2" "cj (drive_cell 10) = 2" by (simp_all add: drive_cell_def free_cell_def)
  have stop: "carrot_loop 1 5 1 (11 / 10 - 1) b pt q = Inr (b, pt)" for b pt
    by (subst carrot_loop.simps) (simp add: same)
  have loop: "carrot_loop (1 + 1) 5 1 (11 / 10) (- 1) None q = Inr (100 / 121, Some (2, 2))"
    by (subst carrot_loop.simps)
      (simp del: bindo_Inr_iff add: same n ah2 path c5 [simplified] c10 [simplified] g stop [simplified] Let_def)
  have L: "(1, 1) \<in> {(1, 1), (2, 2) :: int \<times> int}" "PLAN_GXWX drive_map 1 = Inr (fst (1 :: int, 1 :: int))"
    "PLAN_GYWY drive_map 1 = Inr (snd (1 :: int, 1 :: int))" by (simp_all add: drive_conv)
  obtain best pt where b: "plan_get_carrot 1 1 (11 / 10) 1 drive_map = Inr (best, pt, drive_map)"
    using plan_get_carrot_ok [OF drive_map_ok L] by blast
  have idx: "PLAN_INDEX drive_map 1 1 = 5" "nat 5 = 5" by (simp_all add: PLAN_INDEX_def drive_map_simps)
  have c: "cell_at 5 drive_map = Inr (drive_cell 5)"
    using cell_at_pos [OF F(7) on(1)] drive_map_cell [OF on(1)] by (simp add: pos)
  have u: "upd_cell 5 (\<lambda>c. c\<lparr>occ_state_dyn := - 1, occ_dist_dyn := max_radius drive_map\<rparr>) drive_map = Inr q"
    using upd_cell_pos [OF F(7) on(1)] by (simp add: pos q_def)
  have "\<exists>r. plan_get_carrot 1 1 (11 / 10) 1 drive_map = bindo r (\<lambda>q. Inr (100 / 121, Some (2, 2), q))"
    by (simp only: plan_get_carrot_def drive_conv bindo.simps Let_def idx c u, simp only: drive_map_simps div_by_1 n loop bindo.simps prod.case)
      (rule exI, rule refl)
  then obtain r where "plan_get_carrot 1 1 (11 / 10) 1 drive_map = bindo r (\<lambda>q. Inr (100 / 121, Some (2, 2), q))" ..
  with b show ?thesis by (cases r) auto
qed

lemma faster_than_tvmax:
  "\<exists>vx va. plan_compute_diffdrive_cmds drive_control 0 1 1 (pi / 4) 10 10 0 drive_map = Inr (0, Some (vx, va), 0, drive_map) \<and>
    tvmax drive_control < vx"
proof -
  have s: "\<not> sqrt 162 < (1 / 10 :: real)" using real_sqrt_ge_1_iff [of 162] by linarith
  have e: "atan2 1 1 = pi / 4" by (simp add: atan2_def arctan_one)
  have "angle_diff (atan2 1 1) (pi / 4) = 0" unfolding e by (simp add: angle_diff_def Let_def)
  then have "\<exists>va. plan_compute_diffdrive_cmds drive_control 0 1 1 (pi / 4) 10 10 0 drive_map =
      Inr (0, Some (sqrt 2 / (11 / 10), va), 0, drive_map)"
    using s by (simp add: plan_compute_diffdrive_cmds_def plan_check_done_def drive_control_def drive_carrot [simplified] Let_def)
  moreover have "11 / 10 < sqrt (2 :: real)" by (rule real_less_rsqrt) (simp add: power2_eq_square)
  then have "tvmax drive_control < sqrt 2 / (11 / 10)" by (simp add: drive_control_def)
  ultimately show ?thesis by blast
qed

end
