(* ===== verification/PlanWaypoint.thy ===== *)
theory PlanWaypoint
  imports PlanControl "HOL-Library.Sublist"
begin

text \<open>
  Waypoints, \<open>server/drivers/planner/wavefront/plan_waypoint.c\<close>: the path cut down to the cells between which a straight line
  is free.
\<close>

section \<open>Reachability in a straight line\<close>

fun reach_loop :: "nat \<Rightarrow> real \<Rightarrow> real \<Rightarrow> plan_cell \<Rightarrow> int \<Rightarrow> int \<Rightarrow> real \<Rightarrow> real \<Rightarrow> plan \<Rightarrow> bool outcome" where
  "reach_loop fuel costh sinth b lasti lastj i j p =
     (if lasti = ci b \<and> lastj = cj b then Inr True
      else
        (case fuel of
           0 \<Rightarrow> Inl OutOfFuel
         | Suc f \<Rightarrow>
             bindo
               (if lasti \<noteq> \<lfloor>i\<rfloor> \<or> lastj \<noteq> \<lfloor>j\<rfloor> then
                  (if \<not> PLAN_VALID p \<lfloor>i\<rfloor> \<lfloor>j\<rfloor> then Inr False
                   else bindo (cell_at (PLAN_INDEX p \<lfloor>i\<rfloor> \<lfloor>j\<rfloor>) p) (\<lambda>c. Inr (\<not> occ_dist c < abs_min_radius p)))
                else Inr True)
               (\<lambda>free.
                 if \<not> free then Inr False
                 else reach_loop f costh sinth b \<lfloor>i\<rfloor> \<lfloor>j\<rfloor> (if \<lfloor>i\<rfloor> \<noteq> ci b then i + costh else i)
                        (if \<lfloor>j\<rfloor> \<noteq> cj b then j + sinth else j) p)))"

declare reach_loop.simps [simp del]

definition plan_test_reachable :: "plan_cell \<Rightarrow> plan_cell \<Rightarrow> plan \<Rightarrow> bool outcome" where
  "plan_test_reachable a b p =
     (let theta = atan2 (of_int (cj b - cj a)) (of_int (ci b - ci a))
      in reach_loop (nat \<bar>ci b - ci a\<bar> + nat \<bar>cj b - cj a\<bar> + 2) (cos theta) (sin theta) b (- 1) (- 1) (of_int (ci a)) (of_int (cj a)) p)"

section \<open>Cutting the path\<close>

text \<open>The last cell on the path from \<open>n\<close> that the straight line from \<open>a\<close> reaches; the first half metre is not tested.\<close>

fun farthest :: "nat \<Rightarrow> real \<Rightarrow> plan_cell \<Rightarrow> nat \<Rightarrow> plan \<Rightarrow> nat outcome" where
  "farthest fuel d a n p =
     bindo (cell_at (int n) p) (\<lambda>c.
       case plan_next c of
         None \<Rightarrow> Inr n
       | Some m \<Rightarrow>
           bindo (if d > 1 / 2 then bindo (cell_at (int m) p) (\<lambda>b. plan_test_reachable a b p) else Inr True) (\<lambda>free.
             if \<not> free then Inr n
             else (case fuel of 0 \<Rightarrow> Inl OutOfFuel | Suc f \<Rightarrow> farthest f (d + scale p) a m p)))"

declare farthest.simps [simp del]

fun waypoint_loop :: "nat \<Rightarrow> nat \<Rightarrow> plan \<Rightarrow> (nat \<times> plan) outcome" where
  "waypoint_loop fuel k p =
     (let p = p\<lparr>waypoints := waypoints p @ [k], waypoint_size := grown (waypoint_size p) (length (waypoints p))\<rparr>
      in bindo (cell_at (int k) p) (\<lambda>c.
           if plan_next c = None then Inr (k, p)
           else
             bindo (farthest (length (cells p)) 0 c k p) (\<lambda>n.
               if n = k then Inr (k, p)
               else (case fuel of 0 \<Rightarrow> Inl OutOfFuel | Suc f \<Rightarrow> waypoint_loop f n p))))"

declare waypoint_loop.simps [simp del]

definition plan_update_waypoints :: "real \<Rightarrow> real \<Rightarrow> plan \<Rightarrow> plan outcome" where
  "plan_update_waypoints px py p =
     bindo (PLAN_GXWX p px) (\<lambda>ni. bindo (PLAN_GYWY p py) (\<lambda>nj.
       if \<not> PLAN_VALID p ni nj then Inr (p\<lparr>waypoints := []\<rparr>)
       else
         bindo (waypoint_loop (length (cells p)) (nat (PLAN_INDEX p ni nj)) (p\<lparr>waypoints := []\<rparr>)) (\<lambda>(k, p).
         bindo (cell_at (int k) p) (\<lambda>c.
           Inr (if plan_cost c > 0 then p\<lparr>waypoints := []\<rparr> else p)))))"

definition plan_get_waypoint :: "int \<Rightarrow> plan \<Rightarrow> (real \<times> real) option outcome" where
  "plan_get_waypoint i p =
     (if i < 0 \<or> i \<ge> int (length (waypoints p)) then Inr None
      else bindo (cell_at (int (waypoints p ! nat i)) p) (\<lambda>c. Inr (Some (PLAN_WXGX p (ci c), PLAN_WYGY p (cj c)))))"

definition plan_convert_waypoint :: "nat \<Rightarrow> plan \<Rightarrow> (real \<times> real) outcome" where
  "plan_convert_waypoint k p = bindo (cell_at (int k) p) (\<lambda>c. Inr (PLAN_WXGX p (ci c), PLAN_WYGY p (cj c)))"

section \<open>One coordinate of the line\<close>

text \<open>One coordinate after \<open>n\<close> steps: in the cell of its end, or still on the way.\<close>

definition on_the_way :: "int \<Rightarrow> int \<Rightarrow> real \<Rightarrow> nat \<Rightarrow> real \<Rightarrow> bool" where
  "on_the_way a b c n i \<longleftrightarrow> \<lfloor>i\<rfloor> = b \<or>
     (i = of_int a + real n * c \<and> (c > 0 \<and> i < of_int b \<or> c < 0 \<and> of_int b + 1 \<le> i))"

lemma on_the_way_start: "of_int (b - a) = D * c \<Longrightarrow> 0 \<le> D \<Longrightarrow> on_the_way a b c 0 (of_int a)"
proof (cases "a = b")
  case False
  assume D: "of_int (b - a) = D * c" "0 \<le> D"
  show ?thesis
  proof (cases "a < b")
    case True
    then have "0 < D * c" using D(1) by simp
    with D(2) have "0 < c" by (simp add: zero_less_mult_iff)
    with True show ?thesis by (simp add: on_the_way_def)
  next
    case F: False
    with False have "D * c < 0" using D(1) by simp
    with D(2) have "c < 0" by (simp add: mult_less_0_iff)
    moreover have "real_of_int b + 1 \<le> of_int a" using F False by linarith
    ultimately show ?thesis by (simp add: on_the_way_def)
  qed
qed (simp add: on_the_way_def)

lemma on_the_way_step:
  assumes "on_the_way a b c n i" "\<bar>c\<bar> \<le> 1"
  shows "on_the_way a b c (Suc n) (if \<lfloor>i\<rfloor> \<noteq> b then i + c else i)"
proof (cases "\<lfloor>i\<rfloor> = b")
  case False
  then have i: "i = of_int a + real n * c" "c > 0 \<and> i < of_int b \<or> c < 0 \<and> of_int b + 1 \<le> i"
    using assms(1) by (auto simp: on_the_way_def)
  have e: "i + c = of_int a + real (Suc n) * c" by (simp add: i(1) algebra_simps)
  have "\<lfloor>i + c\<rfloor> = b \<or> c > 0 \<and> i + c < of_int b \<or> c < 0 \<and> of_int b + 1 \<le> i + c"
    using i(2) assms(2) unfolding floor_eq_iff by linarith
  with False e show ?thesis unfolding on_the_way_def by auto
qed (use assms in \<open>simp add: on_the_way_def\<close>)

lemma on_the_way_end: "on_the_way a b c n i \<Longrightarrow> of_int (b - a) = D * c \<Longrightarrow> D \<le> real n \<Longrightarrow> \<lfloor>i\<rfloor> = b"
proof (rule ccontr)
  assume o: "on_the_way a b c n i" and D: "of_int (b - a) = D * c" "D \<le> real n" and n: "\<lfloor>i\<rfloor> \<noteq> b"
  then have i: "i = of_int a + real n * c" "c > 0 \<and> i < of_int b \<or> c < 0 \<and> of_int b + 1 \<le> i"
    by (auto simp: on_the_way_def)
  have b: "of_int b = of_int a + D * c" using D(1) by simp
  have "c > 0 \<Longrightarrow> D * c \<le> real n * c" "c < 0 \<Longrightarrow> real n * c \<le> D * c" using D(2) by (simp_all add: mult_right_mono mult_right_mono_neg)
  with i b show False by linarith
qed

section \<open>Free straight lines\<close>

text \<open>The cells that hold the points of the straight line from \<open>v\<close> to \<open>w\<close> at whole distances from its start, in units of a cell.\<close>

definition line_length :: "int \<times> int \<Rightarrow> int \<times> int \<Rightarrow> real" where
  "line_length v w = sqrt (of_int (fst w - fst v) * of_int (fst w - fst v) + of_int (snd w - snd v) * of_int (snd w - snd v))"

definition line_point :: "int \<times> int \<Rightarrow> int \<times> int \<Rightarrow> nat \<Rightarrow> int \<times> int" where
  "line_point v w n =
     (\<lfloor>of_int (fst v) + real n * (of_int (fst w - fst v) / line_length v w)\<rfloor>,
      \<lfloor>of_int (snd v) + real n * (of_int (snd w - snd v) / line_length v w)\<rfloor>)"

text \<open>A cell is clear if the robot can stand there; a line is free if all these cells and the one at its end are clear.\<close>

definition clear_cell :: "plan \<Rightarrow> int \<times> int \<Rightarrow> bool" where
  "clear_cell p x \<longleftrightarrow> x \<in> on_map p \<and> abs_min_radius p \<le> occ_dist (cell_of p x)"

definition free_line :: "plan \<Rightarrow> int \<times> int \<Rightarrow> int \<times> int \<Rightarrow> bool" where
  "free_line p v w \<longleftrightarrow> clear_cell p w \<and> (\<forall>n. real n \<le> line_length v w \<longrightarrow> clear_cell p (line_point v w n))"

text \<open>Once a coordinate has come to the cell of its end it stays there.\<close>

lemma coordinate_stays:
  assumes D: "of_int (b - a) = D * c" and b: "\<lfloor>of_int a + real m * c\<rfloor> = b" and m: "m \<le> n" "real n \<le> D"
  shows "\<lfloor>of_int a + real n * c\<rfloor> = b"
proof -
  have B: "of_int b = of_int a + D * c" using D by simp
  have "of_int b \<le> of_int a + real m * c" "of_int a + real m * c < of_int b + 1" using b unfolding floor_eq_iff by simp_all
  moreover have "real m \<le> real n" using m(1) by simp
  ultimately have "of_int b \<le> of_int a + real n * c \<and> of_int a + real n * c < of_int b + 1"
  proof (cases "c \<le> 0")
    case True
    then have "D * c \<le> real n * c" "real n * c \<le> real m * c" using m \<open>real m \<le> real n\<close> by (simp_all add: mult_right_mono_neg)
    with B \<open>of_int a + real m * c < of_int b + 1\<close> show ?thesis by linarith
  next
    case False
    then have "real m * c \<le> real n * c" "real n * c \<le> D * c" using m \<open>real m \<le> real n\<close> by (simp_all add: mult_right_mono)
    with B \<open>of_int b \<le> of_int a + real m * c\<close> show ?thesis by linarith
  qed
  then show ?thesis unfolding floor_eq_iff by simp
qed

lemma coordinate_cell:
  assumes "of_int (b - a) = D * c" "on_the_way a b c n i" "real n \<le> D \<longrightarrow> \<lfloor>i\<rfloor> = \<lfloor>of_int a + real n * c\<rfloor>"
  shows "real (Suc n) \<le> D \<longrightarrow> \<lfloor>if \<lfloor>i\<rfloor> \<noteq> b then i + c else i\<rfloor> = \<lfloor>of_int a + real (Suc n) * c\<rfloor>"
proof (cases "\<lfloor>i\<rfloor> = b")
  case True
  then show ?thesis using assms(3) coordinate_stays [OF assms(1), of n "Suc n"] by auto
next
  case False
  then have "i = of_int a + real n * c" using assms(2) by (auto simp: on_the_way_def)
  with False show ?thesis by (simp add: algebra_simps)
qed

text \<open>The loop at the \<open>n\<close>th point, \<open>l\<close> being the cell it has tested last.\<close>

lemma reach_loop_free:
  assumes g: "grid_ok p" and v: "v \<in> on_map p" and b: "(ci b, cj b) = w"
    and D: "of_int (fst w - fst v) = D * c" "of_int (snd w - snd v) = D * s" "D \<le> real N" and cs: "\<bar>c\<bar> \<le> 1" "\<bar>s\<bar> \<le> 1"
  defines "L \<equiv> \<lambda>n. (\<lfloor>of_int (fst v) + real n * c\<rfloor>, \<lfloor>of_int (snd v) + real n * s\<rfloor>)"
  shows "on_the_way (fst v) (fst w) c n i \<Longrightarrow> on_the_way (snd v) (snd w) s n j \<Longrightarrow> (real n \<le> D \<longrightarrow> (\<lfloor>i\<rfloor>, \<lfloor>j\<rfloor>) = L n) \<Longrightarrow>
    (if n = 0 then l = (- 1, - 1) else clear_cell p l \<and> (real (n - 1) \<le> D \<longrightarrow> l = L (n - 1))) \<Longrightarrow> (N < n \<Longrightarrow> l = w) \<Longrightarrow>
    N < n + fuel \<Longrightarrow> w \<in> on_map p \<Longrightarrow>
    reach_loop fuel c s b (fst l) (snd l) i j p = Inr (clear_cell p w \<and> (\<forall>m \<ge> n. real m \<le> D \<longrightarrow> clear_cell p (L m)))"
proof (induction fuel arbitrary: n i j l)
  case (Suc fuel)
  have w: "ci b = fst w" "cj b = snd w" using b by auto
  note way = Suc.prems(1,2)
  let ?x = "(\<lfloor>i\<rfloor>, \<lfloor>j\<rfloor>)" and ?i = "if \<lfloor>i\<rfloor> \<noteq> ci b then i + c else i" and ?j = "if \<lfloor>j\<rfloor> \<noteq> cj b then j + s else j"
  show ?case
  proof (cases "l = w")
    case True
    have "n \<noteq> 0"
    proof
      assume "n = 0"
      then have "l = (- 1, - 1)" using Suc.prems(4) by simp
      with True Suc.prems(7) show False by (auto simp: on_map_def)
    qed
    then have l: "clear_cell p w" "real (n - 1) \<le> D \<Longrightarrow> w = L (n - 1)" using Suc.prems(4) True by auto
    have "L m = w" if "n \<le> m" "real m \<le> D" for m
      using that l(2) coordinate_stays [OF D(1), of "n - 1" m] coordinate_stays [OF D(2), of "n - 1" m] by (auto simp: L_def)
    with True l(1) show ?thesis by (subst reach_loop.simps) (simp add: w)
  next
    case False
    have ends: "?x = w" if "D < real n"
      using on_the_way_end [OF way(1) D(1)] on_the_way_end [OF way(2) D(2)] that by (cases w) simp
    have test: "(if fst l \<noteq> \<lfloor>i\<rfloor> \<or> snd l \<noteq> \<lfloor>j\<rfloor> then
        (if \<not> PLAN_VALID p \<lfloor>i\<rfloor> \<lfloor>j\<rfloor> then Inr False
         else bindo (cell_at (PLAN_INDEX p \<lfloor>i\<rfloor> \<lfloor>j\<rfloor>) p) (\<lambda>c. Inr (\<not> occ_dist c < abs_min_radius p)))
      else Inr True) = Inr (clear_cell p ?x)"
    proof (cases "l = ?x")
      case True
      moreover have "n \<noteq> 0"
      proof
        assume "n = 0"
        then have "l = (- 1, - 1)" "?x = v" if "0 \<le> D" using Suc.prems(3,4) that by (simp_all add: L_def)
        moreover have "D < 0 \<Longrightarrow> ?x = w" using ends \<open>n = 0\<close> by simp
        ultimately show False using True False v Suc.prems(4) \<open>n = 0\<close> by (cases "0 \<le> D") (auto simp: on_map_def)
      qed
      ultimately show ?thesis using Suc.prems(4) by auto
    next
      case False
      then have "fst l \<noteq> \<lfloor>i\<rfloor> \<or> snd l \<noteq> \<lfloor>j\<rfloor>" by (cases l) auto
      then show ?thesis using cell_at_map [OF g, of "\<lfloor>i\<rfloor>" "\<lfloor>j\<rfloor>"] by (auto simp: valid_iff clear_cell_def)
    qed
    have rest: "reach_loop (Suc fuel) c s b (fst l) (snd l) i j p =
        (if clear_cell p ?x then reach_loop fuel c s b \<lfloor>i\<rfloor> \<lfloor>j\<rfloor> ?i ?j p else Inr False)"
    proof -
      have ne: "\<not> (fst l = ci b \<and> snd l = cj b)" using False by (simp add: w prod_eq_iff)
      show ?thesis
        by (subst reach_loop.simps) (simp only: ne if_False nat.case test bindo.simps, cases "clear_cell p ?x",
            simp_all only: not_True_eq_False not_False_eq_True if_True if_False)
    qed
    show ?thesis
    proof (cases "clear_cell p ?x")
      case True
      have "reach_loop fuel c s b (fst ?x) (snd ?x) ?i ?j p = Inr (clear_cell p w \<and> (\<forall>m \<ge> Suc n. real m \<le> D \<longrightarrow> clear_cell p (L m)))"
      proof (rule Suc.IH)
        show "on_the_way (fst v) (fst w) c (Suc n) ?i" "on_the_way (snd v) (snd w) s (Suc n) ?j"
          unfolding w by (rule on_the_way_step [OF way(1) cs(1)], rule on_the_way_step [OF way(2) cs(2)])
        show "real (Suc n) \<le> D \<longrightarrow> (\<lfloor>?i\<rfloor>, \<lfloor>?j\<rfloor>) = L (Suc n)"
          using coordinate_cell [OF D(1) way(1)] coordinate_cell [OF D(2) way(2)] Suc.prems(3) unfolding w by (simp add: L_def)
        show "if Suc n = 0 then ?x = (- 1, - 1) else clear_cell p ?x \<and> (real (Suc n - 1) \<le> D \<longrightarrow> ?x = L (Suc n - 1))"
          using True Suc.prems(3) by simp
        show "?x = w" if "N < Suc n"
          using on_the_way_end [OF way(1) D(1)] on_the_way_end [OF way(2) D(2)] that D(3) by (cases w) simp
        show "N < Suc n + fuel" "w \<in> on_map p" using Suc.prems(6,7) by simp_all
      qed
      moreover have "(\<forall>m \<ge> n. real m \<le> D \<longrightarrow> clear_cell p (L m)) = (\<forall>m \<ge> Suc n. real m \<le> D \<longrightarrow> clear_cell p (L m))"
        using True Suc.prems(3) by (metis Suc_leD le_antisym not_less_eq_eq)
      ultimately show ?thesis using rest True by simp
    next
      case F: False
      then have "\<not> (clear_cell p w \<and> (\<forall>m \<ge> n. real m \<le> D \<longrightarrow> clear_cell p (L m)))"
        using ends Suc.prems(3) by (cases "real n \<le> D") auto
      with rest F show ?thesis by simp
    qed
  qed
next
  case 0
  then have "l = w" by simp
  have "n \<noteq> 0"
  proof
    assume "n = 0"
    then have "l = (- 1, - 1)" using 0(4) by simp
    with \<open>l = w\<close> 0(7) show False by (auto simp: on_map_def)
  qed
  then have l: "clear_cell p w" using 0(4) \<open>l = w\<close> by auto
  have "D < real n" using 0(6) D(3) by simp
  then have "\<not> real m \<le> D" if "n \<le> m" for m using that by simp
  with l \<open>l = w\<close> b show ?case by (subst reach_loop.simps) auto
qed

text \<open>\<open>plan_test_reachable\<close> decides whether the line is free.\<close>

lemma plan_test_reachable_free:
  assumes g: "grid_ok p" and co: "coords_ok p" and v: "v \<in> on_map p" and w: "w \<in> on_map p"
  shows "plan_test_reachable (cell_of p v) (cell_of p w) p = Inr (free_line p v w)"
proof -
  note cv = cell_coords [OF g co, of "fst v" "snd v"] and cw = cell_coords [OF g co, of "fst w" "snd w"]
  have C: "ci (cell_of p v) = fst v" "cj (cell_of p v) = snd v" "ci (cell_of p w) = fst w" "cj (cell_of p w) = snd w"
    using cv cw v w by simp_all
  let ?x = "real_of_int (fst w - fst v)" and ?y = "real_of_int (snd w - snd v)"
  define t where "t = atan2 ?y ?x"
  define D where "D = sqrt (?x * ?x + ?y * ?y)"
  have D0: "0 \<le> D" by (simp add: D_def)
  have DL: "line_length v w = D" by (simp add: line_length_def D_def)
  have DN: "D \<le> \<bar>?x\<bar> + \<bar>?y\<bar>"
    unfolding D_def by (rule real_le_lsqrt) (auto simp: power2_eq_square algebra_simps abs_mult_self_eq)
  have xy: "?x = D * cos t" "?y = D * sin t"
  proof -
    have "?x = D * cos t \<and> ?y = D * sin t"
    proof (cases "?x \<noteq> 0 \<or> ?y \<noteq> 0")
      case True
      then have "0 < ?x * ?x + ?y * ?y" by (metis add.commute not_sum_squares_lt_zero sum_squares_gt_zero_iff)
      then have "0 < D" unfolding D_def by (rule real_sqrt_gt_zero)
      with atan2_ok(1,2) [OF True] show ?thesis by (simp add: t_def D_def)
    next
      case False
      then show ?thesis by (simp add: D_def)
    qed
    then show "?x = D * cos t" "?y = D * sin t" by blast+
  qed
  have L: "(\<lfloor>of_int (fst v) + real n * cos t\<rfloor>, \<lfloor>of_int (snd v) + real n * sin t\<rfloor>) = line_point v w n" if "real n \<le> D" for n
  proof (cases "D = 0")
    case False
    then have "?x / D = cos t" "?y / D = sin t" unfolding xy by simp_all
    then show ?thesis by (simp only: line_point_def DL)
  next
    case True
    with that show ?thesis by (simp add: line_point_def)
  qed
  let ?N = "nat \<bar>fst w - fst v\<bar> + nat \<bar>snd w - snd v\<bar>"
  have N: "D \<le> real ?N" using DN by simp
  have b: "(ci (cell_of p w), cj (cell_of p w)) = w" by (simp add: C)
  have "reach_loop (?N + 2) (cos t) (sin t) (cell_of p w) (- 1) (- 1) (of_int (fst v)) (of_int (snd v)) p =
    Inr (clear_cell p w \<and> (\<forall>m \<ge> 0. real m \<le> D \<longrightarrow> clear_cell p (\<lfloor>of_int (fst v) + real m * cos t\<rfloor>, \<lfloor>of_int (snd v) + real m * sin t\<rfloor>)))"
    using reach_loop_free [OF g v b xy N, of 0 "of_int (fst v)" "of_int (snd v)" "(- 1, - 1)" "?N + 2"]
      on_the_way_start [OF xy(1) D0] on_the_way_start [OF xy(2) D0] w by simp
  moreover have "plan_test_reachable (cell_of p v) (cell_of p w) p =
      reach_loop (?N + 2) (cos t) (sin t) (cell_of p w) (- 1) (- 1) (of_int (fst v)) (of_int (snd v)) p"
    by (simp only: plan_test_reachable_def Let_def C t_def)
  moreover have "(\<forall>m \<ge> 0. real m \<le> D \<longrightarrow> clear_cell p (\<lfloor>of_int (fst v) + real m * cos t\<rfloor>, \<lfloor>of_int (snd v) + real m * sin t\<rfloor>)) =
      (\<forall>n. real n \<le> D \<longrightarrow> clear_cell p (line_point v w n))" using L by (metis le0)
  ultimately show ?thesis by (simp only: free_line_def DL)
qed

section \<open>Waypoints of a path\<close>

definition path_links :: "plan \<Rightarrow> (int \<times> int) list \<Rightarrow> bool" where
  "path_links p xs \<longleftrightarrow> xs \<noteq> [] \<and> set xs \<subseteq> on_map p \<and> successively (\<lambda>x y. plan_next (cell_of p x) = Some (pos_of p y)) xs \<and>
     plan_next (cell_of p (last xs)) = None"

lemma path_links_Cons: "path_links p (x # xs) \<longleftrightarrow> x \<in> on_map p \<and>
    (if xs = [] then plan_next (cell_of p x) = None else plan_next (cell_of p x) = Some (pos_of p (hd xs)) \<and> path_links p xs)"
  by (cases xs) (auto simp: path_links_def)

lemma path_links_append: "path_links p (ys @ zs) \<Longrightarrow> zs \<noteq> [] \<Longrightarrow> path_links p zs"
  by (induction ys) (simp_all add: path_links_Cons)

lemma farthest_ok:
  assumes g: "grid_ok p" and co: "coords_ok p" and v: "v \<in> on_map p"
  shows "path_links p xs \<Longrightarrow> length xs \<le> Suc fuel \<Longrightarrow>
    \<exists>ys zs. xs = ys @ zs \<and> zs \<noteq> [] \<and> farthest fuel d (cell_of p v) (pos_of p (hd xs)) p = Inr (pos_of p (hd zs)) \<and>
      (d \<le> 1 / 2 \<and> tl xs \<noteq> [] \<longrightarrow> ys \<noteq> []) \<and>
      (\<forall>k < length ys. d + real k * scale p > 1 / 2 \<longrightarrow> free_line p v (xs ! Suc k)) \<and>
      (tl zs \<noteq> [] \<longrightarrow> d + real (length ys) * scale p > 1 / 2 \<and> \<not> free_line p v (hd (tl zs)))"
proof (induction xs arbitrary: fuel d)
  case Nil
  then show ?case by (simp add: path_links_def)
next
  case (Cons x xs)
  note IH = Cons.IH
  have x: "cell_at (int (pos_of p x)) p = Inr (cell_of p x)" using cell_at_pos [OF g] Cons.prems(1) by (simp add: path_links_Cons)
  show ?case
  proof (cases xs)
    case Nil
    then have "farthest fuel d (cell_of p v) (pos_of p x) p = Inr (pos_of p x)"
      using Cons.prems(1) by (subst farthest.simps) (simp add: x path_links_Cons)
    with Nil show ?thesis by (intro exI [of _ "[]"] exI [of _ "[x]"]) simp
  next
    case (Cons y ys')
    with \<open>path_links p (x # xs)\<close> have nx: "plan_next (cell_of p x) = Some (pos_of p y)" and ly: "path_links p xs"
      by (simp_all add: path_links_Cons)
    have yon: "y \<in> on_map p" using ly Cons by (simp add: path_links_Cons)
    have cy: "cell_at (int (pos_of p y)) p = Inr (cell_of p y)" using cell_at_pos [OF g yon] .
    obtain f where f: "fuel = Suc f" "length xs \<le> Suc f" using \<open>length (x # xs) \<le> Suc fuel\<close> Cons by (cases fuel) auto
    have step: "farthest fuel d (cell_of p v) (pos_of p x) p =
      (if d > 1 / 2 \<and> \<not> free_line p v y then Inr (pos_of p x) else farthest f (d + scale p) (cell_of p v) (pos_of p y) p)"
      by (subst farthest.simps) (simp add: x nx cy plan_test_reachable_free [OF g co v yon] f(1))
    show ?thesis
    proof (cases "d > 1 / 2 \<and> \<not> free_line p v y")
      case True
      then show ?thesis using step Cons by (intro exI [of _ "[]"] exI [of _ "x # xs"]) simp
    next
      case False
      have "hd xs = y" using Cons by simp
      from IH [OF ly f(2), of "d + scale p", unfolded this]
      obtain ys zs where z: "xs = ys @ zs" "zs \<noteq> []" "farthest f (d + scale p) (cell_of p v) (pos_of p y) p = Inr (pos_of p (hd zs))"
        "\<forall>k < length ys. d + scale p + real k * scale p > 1 / 2 \<longrightarrow> free_line p v (xs ! Suc k)"
        "tl zs \<noteq> [] \<longrightarrow> d + scale p + real (length ys) * scale p > 1 / 2 \<and> \<not> free_line p v (hd (tl zs))"
        by blast
      have "free_line p v ((x # xs) ! Suc k)" if "k < length (x # ys)" "d + real k * scale p > 1 / 2" for k
        using that z(4) False Cons by (cases k) (simp_all add: algebra_simps)
      moreover have "tl zs \<noteq> [] \<longrightarrow> d + real (length (x # ys)) * scale p > 1 / 2 \<and> \<not> free_line p v (hd (tl zs))"
        using z(5) by (simp add: algebra_simps)
      moreover have "farthest fuel d (cell_of p v) (pos_of p (hd (x # xs))) p = Inr (pos_of p (hd zs))"
        using step False z(3) by (simp only: if_False list.sel)
      moreover have "x # xs = (x # ys) @ zs" using z(1) by simp
      ultimately show ?thesis using z(2) by blast
    qed
  qed
qed

text \<open>From waypoint \<open>v\<close> to waypoint \<open>w\<close>: to every cell of the path up to \<open>w\<close> that is more than half a metre (and one cell) ahead
  the line is free, and it is not free to the cell that follows \<open>w\<close> on the path, if one does.\<close>

definition hop :: "plan \<Rightarrow> (int \<times> int) list \<Rightarrow> int \<times> int \<Rightarrow> int \<times> int \<Rightarrow> bool" where
  "hop p xs v w \<longleftrightarrow>
     (\<exists>us vs zs. xs = us @ (v # vs) @ w # zs \<and>
        (\<forall>k \<le> length vs. real k * scale p > 1 / 2 \<longrightarrow> free_line p v ((vs @ [w]) ! k)) \<and>
        (zs \<noteq> [] \<longrightarrow> real (Suc (length vs)) * scale p > 1 / 2 \<and> \<not> free_line p v (hd zs)))"

abbreviation with_waypoints :: "plan \<Rightarrow> nat list \<Rightarrow> nat \<Rightarrow> plan" where
  "with_waypoints p ws n \<equiv> p\<lparr>waypoints := ws, waypoint_size := n\<rparr>"

lemma with_waypoints_simps [simp]:
  "cell_of (with_waypoints p ws n) = cell_of p" "cell_at k (with_waypoints p ws n) = cell_at k p"
  "PLAN_INDEX (with_waypoints p ws n) = PLAN_INDEX p" "PLAN_VALID (with_waypoints p ws n) = PLAN_VALID p"
  "pos_of (with_waypoints p ws n) = pos_of p" "grid_ok (with_waypoints p ws n) = grid_ok p" "on_map (with_waypoints p ws n) = on_map p"
  by (simp_all add: cell_of_def cell_at_def PLAN_INDEX_def PLAN_VALID_def pos_of_def grid_ok_def on_map_def fun_eq_iff split_beta)

lemma path_links_waypoints [simp]: "path_links (with_waypoints p ws n) xs = path_links p xs"
  by (simp add: path_links_def)

lemma free_line_waypoints [simp]:
  "coords_ok (with_waypoints p ws n) = coords_ok p" "free_line (with_waypoints p ws n) = free_line p"
  by (simp_all add: coords_ok_def free_line_def clear_cell_def fun_eq_iff)

lemma hop_prefix: "hop p zs v w \<Longrightarrow> hop p (ys @ zs) v w"
  unfolding hop_def
proof (elim exE conjE, intro exI conjI)
  fix us vs zs' assume "zs = us @ (v # vs) @ w # zs'"
  then show "ys @ zs = (ys @ us) @ (v # vs) @ w # zs'" by simp
qed

lemma hd_pos_neq:
  assumes "grid_ok p" "set xs \<subseteq> on_map p" "distinct xs" "xs = ys @ zs" "zs \<noteq> []" "ys \<noteq> []"
  shows "pos_of p (hd zs) \<noteq> pos_of p (hd xs)"
proof -
  have h: "hd xs \<in> set ys" "hd zs \<in> set zs" unfolding assms(4) using assms(5,6) by (simp_all add: hd_append)
  have d: "set ys \<inter> set zs = {}" "set ys \<subseteq> on_map p" "set zs \<subseteq> on_map p" using assms(2,3) unfolding assms(4) by simp_all
  have "hd xs \<in> on_map p" "hd zs \<in> on_map p" using subsetD [OF d(2) h(1)] subsetD [OF d(3) h(2)] .
  moreover have "hd xs \<noteq> hd zs" using disjoint_iff [THEN iffD1, OF d(1)] h by metis
  ultimately show ?thesis using pos_of_inj [OF assms(1)] by metis
qed

lemma waypoint_loop_ok:
  assumes g: "grid_ok p" and co: "coords_ok p" and n: "length xs \<le> length (cells p)"
  shows "path_links p xs \<Longrightarrow> distinct xs \<Longrightarrow> length xs \<le> Suc fuel \<Longrightarrow>
    \<exists>ws m. waypoint_loop fuel (pos_of p (hd xs)) (with_waypoints p ps k) = Inr (pos_of p (last xs), with_waypoints p (ps @ map (pos_of p) ws) m) \<and>
      subseq ws xs \<and> ws \<noteq> [] \<and> hd ws = hd xs \<and> last ws = last xs \<and> successively (hop p xs) ws"
  using n
proof (induction "length xs" arbitrary: xs fuel ps k rule: less_induct)
  case less
  let ?x = "hd xs"
  let ?q = "with_waypoints p (ps @ [pos_of p ?x]) (grown k (length ps))"
  have ne: "xs \<noteq> []" using less.prems(1) by (simp add: path_links_def)
  have x: "cell_at (int (pos_of p ?x)) p = Inr (cell_of p ?x)"
    using cell_at_pos [OF g] less.prems(1) hd_in_set [OF ne] unfolding path_links_def by blast
  show ?case
  proof (cases "tl xs = []")
    case True
    then obtain y where y: "xs = [y]" using ne by (cases xs) auto
    then have "plan_next (cell_of p y) = None" using less.prems(1) by (simp add: path_links_def)
    then have "waypoint_loop fuel (pos_of p y) (with_waypoints p ps k) =
        Inr (pos_of p y, with_waypoints p (ps @ map (pos_of p) [y]) (grown k (length ps)))"
      using x by (subst waypoint_loop.simps) (simp add: y Let_def)
    then show ?thesis unfolding y by (intro exI [of _ "[y]"] exI [of _ "grown k (length ps)"]) simp
  next
    case False
    then have nx: "plan_next (cell_of p ?x) \<noteq> None" using less.prems(1) ne by (cases xs) (auto simp: path_links_Cons)
    have xon: "?x \<in> on_map p" using less.prems(1) hd_in_set [OF ne] unfolding path_links_def by blast
    have "length xs \<le> Suc (length (cells ?q))" using less.prems(4) by simp
    then have "\<exists>ys zs. xs = ys @ zs \<and> zs \<noteq> [] \<and> farthest (length (cells ?q)) 0 (cell_of p ?x) (pos_of p ?x) ?q = Inr (pos_of p (hd zs)) \<and>
        ys \<noteq> [] \<and> (\<forall>k < length ys. real k * scale p > 1 / 2 \<longrightarrow> free_line p ?x (xs ! Suc k)) \<and>
        (tl zs \<noteq> [] \<longrightarrow> real (length ys) * scale p > 1 / 2 \<and> \<not> free_line p ?x (hd (tl zs)))"
      using farthest_ok [of ?q ?x xs "length (cells ?q)" 0] g co xon less.prems(1) False by simp
    then obtain ys zs where z: "xs = ys @ zs" "zs \<noteq> []" "ys \<noteq> []"
      "farthest (length (cells ?q)) 0 (cell_of p ?x) (pos_of p ?x) ?q = Inr (pos_of p (hd zs))"
      "\<forall>k < length ys. real k * scale p > 1 / 2 \<longrightarrow> free_line p ?x (xs ! Suc k)"
      "tl zs \<noteq> [] \<longrightarrow> real (length ys) * scale p > 1 / 2 \<and> \<not> free_line p ?x (hd (tl zs))" by blast
    have neq: "pos_of p (hd zs) \<noteq> pos_of p ?x"
      using hd_pos_neq [OF g _ less.prems(2) z(1-3)] less.prems(1) by (simp add: path_links_def)
    obtain f where f: "fuel = Suc f" "length zs \<le> Suc f" using less.prems(3) z by (cases fuel; cases ys) auto
    have step: "waypoint_loop fuel (pos_of p ?x) (with_waypoints p ps k) = waypoint_loop f (pos_of p (hd zs)) ?q"
    proof -
      obtain m where "plan_next (cell_of p ?x) = Some m" using nx by blast
      then show ?thesis using neq z(4) by (subst waypoint_loop.simps) (simp add: x f(1) Let_def)
    qed
    have "length zs < length xs" "path_links p zs" "distinct zs" "length zs \<le> length (cells p)"
      using z path_links_append [of p ys zs] less.prems by auto
    from less.hyps [OF this(1-3) f(2) this(4), where ps = "ps @ [pos_of p ?x]" and k = "grown k (length ps)"]
    obtain ws m where w: "waypoint_loop f (pos_of p (hd zs)) ?q = Inr (pos_of p (last zs), with_waypoints p ((ps @ [pos_of p ?x]) @ map (pos_of p) ws) m)"
      "subseq ws zs" "ws \<noteq> []" "hd ws = hd zs" "last ws = last zs" "successively (hop p zs) ws" by blast
    have hop: "hop p xs ?x (hd ws)"
    proof -
      obtain us where us: "ys = ?x # us" using z(1,3) by (cases ys) auto
      have e: "xs = [] @ (?x # us) @ hd ws # tl zs" using z(1,2) us w(4) by simp
      have nth: "(us @ [hd ws]) ! k = xs ! Suc k" if "k \<le> length us" for k
        by (subst e) (use that in \<open>simp add: nth_append\<close>)
      show ?thesis unfolding hop_def
      proof (intro exI conjI)
        show "xs = [] @ (?x # us) @ hd ws # tl zs" by (rule e)
        show "\<forall>k \<le> length us. real k * scale p > 1 / 2 \<longrightarrow> free_line p ?x ((us @ [hd ws]) ! k)" using z(5) nth us by simp
        show "tl zs \<noteq> [] \<longrightarrow> real (Suc (length us)) * scale p > 1 / 2 \<and> \<not> free_line p ?x (hd (tl zs))" using z(6) us by simp
      qed
    qed
    have "successively (hop p xs) ws" using w(6) by (rule successively_mono) (simp add: z(1) hop_prefix)
    then have "successively (hop p xs) (?x # ws)" using hop w(3) by (cases ws) auto
    moreover have "subseq (?x # ws) xs"
    proof -
      have "?x \<in> set ys" using z(1,3) by (simp add: hd_append)
      then have "subseq [?x] ys" by (simp add: subseq_singleton_left)
      from list_emb_append_mono [OF this w(2)] show ?thesis by (simp add: z(1))
    qed
    ultimately show ?thesis using w step z by (intro exI [of _ "?x # ws"] exI [of _ m]) simp
  qed
qed

lemma length_on_map: "grid_ok p \<Longrightarrow> distinct xs \<Longrightarrow> set xs \<subseteq> on_map p \<Longrightarrow> length xs \<le> length (cells p)"
  using card_mono [OF finite_on_map, of "set xs" p] by (simp add: card_on_map distinct_card)

lemma plan_update_waypoints_ok:
  assumes p: "grid_ok p" "coords_ok p" "path_links p xs" "distinct xs"
    and conv: "PLAN_GXWX p px = Inr (fst (hd xs))" "PLAN_GYWY p py = Inr (snd (hd xs))"
  shows "\<exists>ws n. plan_update_waypoints px py p =
      Inr (with_waypoints p (if cost_of p (last xs) > 0 then [] else map (pos_of p) ws) n) \<and>
    subseq ws xs \<and> ws \<noteq> [] \<and> hd ws = hd xs \<and> last ws = last xs \<and> successively (hop p xs) ws"
proof -
  have ne: "xs \<noteq> []" "set xs \<subseteq> on_map p" using p(3) by (simp_all add: path_links_def)
  then have on: "hd xs \<in> on_map p" "last xs \<in> on_map p" by auto
  have len: "length xs \<le> length (cells p)" using length_on_map [OF p(1,4) ne(2)] .
  then have "length xs \<le> Suc (length (cells p))" by simp
  from waypoint_loop_ok [OF p(1,2) len p(3,4) this, where ps = "[]" and k = "waypoint_size p"]
  obtain ws m where w: "waypoint_loop (length (cells p)) (pos_of p (hd xs)) (p\<lparr>waypoints := []\<rparr>) =
      Inr (pos_of p (last xs), with_waypoints p (map (pos_of p) ws) m)"
    "subseq ws xs" "ws \<noteq> []" "hd ws = hd xs" "last ws = last xs" "successively (hop p xs) ws" by auto
  have "plan_update_waypoints px py p = Inr (with_waypoints p (if cost_of p (last xs) > 0 then [] else map (pos_of p) ws) m)"
    using w(1) cell_at_pos [OF p(1) on(2)] on(1)
    by (simp add: plan_update_waypoints_def conv valid_iff pos_of_def)
  with w show ?thesis by blast
qed

text \<open>C14: Let the cells know their places and the pointers from the robot's cell lead along the cells \<open>xs\<close>, none of them twice,
  to one that has no successor.  Then \<open>plan_update_waypoints\<close> returns.  If the last cell is the goal, with cost 0, it takes
  waypoints in the order of the path, from the robot's cell to the goal, each as far along the path as it can: a cell more than
  half a metre (and one cell) ahead of the last waypoint is passed or taken only if the straight line to it is free, and the cell
  after a waypoint that is not the goal cannot be reached so.  A line is free if the cell at its end and every cell that holds a
  point of it at a whole distance from its start are on the map and as far from the obstacles as the robot's radius demands.
  If the last cell is not the goal it takes no waypoint.\<close>

theorem waypoints_cut_path:
  assumes p: "grid_ok p" "coords_ok p" "path_links p xs" "distinct xs"
    and conv: "PLAN_GXWX p px = Inr (fst (hd xs))" "PLAN_GYWY p py = Inr (snd (hd xs))"
  shows "\<exists>ws n. plan_update_waypoints px py p =
      Inr (with_waypoints p (if cost_of p (last xs) > 0 then [] else map (pos_of p) ws) n) \<and>
    subseq ws xs \<and> ws \<noteq> [] \<and> hd ws = hd xs \<and> last ws = last xs \<and> successively (hop p xs) ws"
  using plan_update_waypoints_ok [OF assms] .

theorem waypoints_cut_path_witness:
  "\<exists>ws n. plan_update_waypoints 1 1 drive_map = Inr (with_waypoints drive_map (map (pos_of drive_map) ws) n) \<and>
    hd ws = (1, 1) \<and> last ws = (2, 2) \<and> subseq ws [(1, 1), (2, 2)]"
proof -
  note F = followableD [OF drive_map_ok]
  have on: "(1, 1) \<in> on_map drive_map" "(2, 2) \<in> on_map drive_map" by (simp_all add: on_map_def drive_map_simps)
  have "path_links drive_map [(1, 1), (2, 2)]"
    using on by (simp add: path_links_def drive_map_cell pos_of_def PLAN_INDEX_def drive_map_simps drive_cell_def)
  moreover have "cost_of drive_map (2, 2) = 0" using on(2) by (simp add: drive_map_cell drive_cell_def free_cell_def)
  ultimately show ?thesis
    using waypoints_cut_path [OF F(7) F(2), of "[(1, 1), (2, 2)]" 1 1] by (auto simp: drive_conv)
qed

section \<open>Waypoints after planning\<close>

lemma waypoints_after_planning:
  assumes p: "planner_ok p"
    and conv: "PLAN_GXWX p lx = Inr (fst L)" "PLAN_GYWY p ly = Inr (snd L)" "PLAN_GXWX p gx = Inr (fst G)" "PLAN_GYWY p gy = Inr (snd G)"
    and LG: "L \<noteq> G" and found: "plan_do_global lx ly gx gy p = Inr (0, q)"
  shows "\<exists>xs ws n. route p (on_map p) xs \<and> path q = map (pos_of p) xs \<and>
    plan_update_waypoints lx ly q = Inr (with_waypoints q (map (pos_of p) ws) n) \<and>
    subseq ws xs \<and> hd ws = L \<and> last ws = G \<and> successively (hop q xs) ws"
proof -
  obtain xs where xs: "path q = map (pos_of p) xs" "route p (on_map p) xs" "hd xs = L" "last xs = G" "successively (leads_to p q) xs"
    and k: "keeps_map p q" "plan_next (cell_of q G) = None" "cost_of q G = 0"
    using plan_do_global_ok [OF p conv] found LG by auto
  have g: "grid_ok p" "coords_ok p" using p by (simp_all add: planner_ok_def plan_ok_def)
  have K: "size_x q = size_x p" "size_y q = size_y p" "scale q = scale p" "length (cells q) = length (cells p)"
    "origin_x q = origin_x p" "origin_y q = origin_y p" and om: "on_map q = on_map p"
    using k(1) keeps_map_on_map [OF k(1)] by (simp_all add: keeps_map_def)
  have gq: "grid_ok q" using g by (simp add: grid_ok_def K)
  have cell: "ci (cell_of q x) = ci (cell_of p x) \<and> cj (cell_of q x) = cj (cell_of p x)" if "x \<in> on_map p" for x
    using k(1) that by (simp add: keeps_map_def)
  have cq: "coords_ok q" using coords_okI [OF gq] cell cell_coords [OF g] by (force simp: om)
  have pos: "pos_of q = pos_of p" "PLAN_GXWX q = PLAN_GXWX p" "PLAN_GYWY q = PLAN_GYWY p"
    by (simp_all add: pos_of_def PLAN_INDEX_def PLAN_GXWX_def PLAN_GYWY_def fun_eq_iff K)
  have "successively (\<lambda>x y. plan_next (cell_of q x) = Some (pos_of q y)) xs"
    using xs(5) by (rule successively_mono) (simp add: leads_to_def pos)
  then have "path_links q xs" using xs(2,4) k(2) by (simp add: path_links_def route_def om)
  then obtain ws n where "plan_update_waypoints lx ly q = Inr (with_waypoints q (if cost_of q (last xs) > 0 then [] else map (pos_of q) ws) n)"
    "subseq ws xs" "hd ws = hd xs" "last ws = last xs" "successively (hop q xs) ws"
    using plan_update_waypoints_ok [OF gq cq _ descent_distinct [OF xs(5)], of lx ly] conv xs(3) by (auto simp: pos)
  with xs k(3) show ?thesis by (auto simp: pos)
qed

text \<open>The waypoints can be read back one by one.\<close>

lemma get_waypoint_ok:
  assumes "grid_ok p" "coords_ok p" "waypoints p = map (pos_of p) ws" "set ws \<subseteq> on_map p" "i < length ws"
  shows "plan_get_waypoint (int i) p = Inr (Some (PLAN_WXGX p (fst (ws ! i)), PLAN_WYGY p (snd (ws ! i))))"
proof -
  have "ws ! i \<in> on_map p" using assms(4,5) by auto
  then show ?thesis
    using cell_at_pos [OF assms(1)] cell_coords [OF assms(1,2), of "fst (ws ! i)" "snd (ws ! i)"] assms(3,5)
    by (simp add: plan_get_waypoint_def)
qed

end
