(* ===== verification/Startup.thy ===== *)
theory Startup
  imports TcpSample InterfaceTable FunctionTable DriverTable
begin

text \<open>
  Starting the server: the driver and interface sections of the configuration (\<open>ParseAllDrivers\<close> and \<open>ParseAllInterfaces\<close> of
  \<open>libplayercore/configfile.cc\<close>), and what \<open>main\<close> of \<open>server/server.cc\<close> does with them before its loop.  Loading a shared
  object and what its initialisation function does are parameters, and so are the functions that make drivers.
\<close>

section \<open>State\<close>

text \<open>A function that makes a driver reads its section of the configuration and adds its devices to the table.\<close>

type_synonym ('s, 'x) factory =
  "addr_env \<Rightarrow> cfg \<Rightarrow> int \<Rightarrow> ('s, 'x tcp_data) core \<Rightarrow> (did option \<times> cfg \<times> ('s, 'x tcp_data) core) outcome"

record ('s, 'x, 'p, 'd) server =
  sv_cfg :: cfg
  sv_drivers :: "('s, 'x) factory driver_table"
  sv_ftable :: "('p, 'd) ftable"
  sv_itable :: interface_table
  sv_tcp :: "('s, 'x) tcp"

abbreviation sv_core :: "('s, 'x, 'p, 'd) server \<Rightarrow> ('s, 'x tcp_data) core" where
  "sv_core s \<equiv> t_core (sv_tcp s)"

definition set_core :: "('s, 'x tcp_data) core \<Rightarrow> ('s, 'x, 'p, 'd) server \<Rightarrow> ('s, 'x, 'p, 'd) server" where
  "set_core c s = s\<lparr>sv_tcp := (sv_tcp s)\<lparr>t_core := c\<rparr>\<rparr>"

record ('s, 'x, 'p, 'd, 'h) plugin_env =
  LoadPlugin :: "string \<Rightarrow> 'h option"
  InitDriverPlugin :: "'h \<Rightarrow> ('s, 'x) factory driver_table \<Rightarrow> bool \<times> ('s, 'x) factory driver_table"
  InitInterfacePlugin :: "'h \<Rightarrow> ('p, 'd) xdr_function list option"
  resolve_host :: "string \<Rightarrow> u32 option"

text \<open>The names of interfaces in device addresses are those of the table of interfaces.\<close>

definition server_env :: "('s, 'x, 'p, 'd, 'h) plugin_env \<Rightarrow> interface_table \<Rightarrow> addr_env" where
  "server_env pe t =
     \<lparr>lookup_interface = (\<lambda>name. case itable_lookup name t of Inr (Some e) \<Rightarrow> Some (pi_interf e) | _ \<Rightarrow> None),
      hostname_to_packedaddr = resolve_host pe\<rparr>"

section \<open>Driver sections\<close>

definition use_driver_plugin ::
    "('s, 'x, 'p, 'd, 'h) plugin_env \<Rightarrow> string option \<Rightarrow> ('s, 'x) factory driver_table \<Rightarrow> bool \<times> ('s, 'x) factory driver_table" where
  "use_driver_plugin pe pluginname t =
     (case pluginname of
        None \<Rightarrow> (True, t)
      | Some p \<Rightarrow> (case LoadPlugin pe p of None \<Rightarrow> (False, t) | Some h \<Rightarrow> InitDriverPlugin pe h t))"

text \<open>The number of devices of the driver \<open>i\<close>, which get its name.\<close>

definition name_device :: "did \<Rightarrow> string \<Rightarrow> device \<Rightarrow> device" where
  "name_device i name v = (if dv_driver v = Some i then v\<lparr>drivername := take DRIVER_STRING_LEN name\<rparr> else v)"

definition name_devices :: "did \<Rightarrow> string \<Rightarrow> ('s, 'e) core \<Rightarrow> nat \<times> ('s, 'e) core" where
  "name_devices i name c =
     (length (filter (\<lambda>v. dv_driver v = Some i) (devices c)), c\<lparr>devices := map (name_device i name) (devices c)\<rparr>)"

text \<open>What happens to a new driver: its devices are named and counted, and the section says whether it is always on.\<close>

definition adopt_driver ::
    "int \<Rightarrow> string \<Rightarrow> did option \<Rightarrow> ('s, 'x, 'p, 'd) server \<Rightarrow> (bool \<times> ('s, 'x, 'p, 'd) server) outcome" where
  "adopt_driver sec name driver s =
     (case driver of
        None \<Rightarrow> Inr (False, s)
      | Some i \<Rightarrow>
          (case drv (sv_core s) i of
             None \<Rightarrow> Inl UseAfterFree
           | Some d \<Rightarrow>
               if GetError d \<noteq> 0 then Inr (False, s)
               else
                 (let (count, c) = name_devices i name (sv_core s) in
                  if count = 0 then Inr (False, set_core c s)
                  else
                    bindo (ReadInt sec ''alwayson'' (if alwayson d then 1 else 0) (sv_cfg s)) (\<lambda>(n, f).
                      Inr (True, set_core (c\<lparr>drv := (drv c)(i \<mapsto> d\<lparr>alwayson := n \<noteq> 0\<rparr>)\<rparr>) (s\<lparr>sv_cfg := f\<rparr>))))))"

definition find_factory :: "('s, 'x) factory driver_table \<Rightarrow> string option \<Rightarrow> (string \<times> ('s, 'x) factory) option" where
  "find_factory t name =
     (case name of
        None \<Rightarrow> None
      | Some n \<Rightarrow>
          (case GetDriverEntry t n of
             None \<Rightarrow> None
           | Some entry \<Rightarrow> (case de_init entry of None \<Rightarrow> None | Some initfunc \<Rightarrow> Some (n, initfunc))))"

definition ParseDriver ::
    "('s, 'x, 'p, 'd, 'h) plugin_env \<Rightarrow> int \<Rightarrow> ('s, 'x, 'p, 'd) server \<Rightarrow> (bool \<times> ('s, 'x, 'p, 'd) server) outcome" where
  "ParseDriver pe sec s =
     bindo (ReadString sec ''plugin'' None (sv_cfg s)) (\<lambda>(pluginname, f).
       let (ok, dt) = use_driver_plugin pe pluginname (sv_drivers s); s = s\<lparr>sv_cfg := f, sv_drivers := dt\<rparr> in
       if \<not> ok then Inr (False, s)
       else
         bindo (ReadString sec ''name'' None f) (\<lambda>(drivername, f).
           let s = s\<lparr>sv_cfg := f\<rparr> in
           case find_factory dt drivername of
             None \<Rightarrow> Inr (False, s)
           | Some (name, initfunc) \<Rightarrow>
               bindo (initfunc (server_env pe (sv_itable s)) f sec (sv_core s)) (\<lambda>(driver, f, c).
                 adopt_driver sec name driver (set_core c (s\<lparr>sv_cfg := f\<rparr>)))))"

text \<open>The walk over the sections of one type; it ends at the first that fails.\<close>

fun parse_sections ::
    "string \<Rightarrow> (int \<Rightarrow> ('s, 'x, 'p, 'd) server \<Rightarrow> (bool \<times> ('s, 'x, 'p, 'd) server) outcome) \<Rightarrow> nat list
     \<Rightarrow> ('s, 'x, 'p, 'd) server \<Rightarrow> (bool \<times> ('s, 'x, 'p, 'd) server) outcome" where
  "parse_sections ty parse [] s = Inr (True, s)"
| "parse_sections ty parse (i # is) s =
     (case GetSectionType (sv_cfg s) (int i) of
        None \<Rightarrow> Inl NullDeref
      | Some t \<Rightarrow>
          if t = ty
          then bindo (parse (int i) s) (\<lambda>(ok, s). if \<not> ok then Inr (False, s) else parse_sections ty parse is s)
          else parse_sections ty parse is s)"

definition ParseAllDrivers ::
    "('s, 'x, 'p, 'd, 'h) plugin_env \<Rightarrow> ('s, 'x, 'p, 'd) server \<Rightarrow> (bool \<times> ('s, 'x, 'p, 'd) server) outcome" where
  "ParseAllDrivers pe s = parse_sections ''driver'' (ParseDriver pe) [1 ..< GetSectionCount (sv_cfg s)] s"

section \<open>Interface sections\<close>

text \<open>From the loading of the plugin on.\<close>

definition add_interface ::
    "('s, 'x, 'p, 'd, 'h) plugin_env \<Rightarrow> string \<Rightarrow> int \<Rightarrow> bool \<Rightarrow> string \<Rightarrow> ('s, 'x, 'p, 'd) server
     \<Rightarrow> (bool \<times> ('s, 'x, 'p, 'd) server) outcome" where
  "add_interface pe name code replace pluginname s =
     (case LoadPlugin pe pluginname of
        None \<Rightarrow> Inr (False, s)
      | Some h \<Rightarrow>
          (case InitInterfacePlugin pe h of
             None \<Rightarrow> Inr (False, s)
           | Some flist \<Rightarrow>
               (let (r, t) = playerxdr_ftable_add_multi flist replace (sv_ftable s); s = s\<lparr>sv_ftable := t\<rparr> in
                if r < 0 then Inr (False, s)
                else bindo (itable_add name (word_of_int code) replace (sv_itable s)) (\<lambda>(r, t).
                       Inr (\<not> r < 0, s\<lparr>sv_itable := t\<rparr>)))))"

definition ParseInterface ::
    "('s, 'x, 'p, 'd, 'h) plugin_env \<Rightarrow> int \<Rightarrow> ('s, 'x, 'p, 'd) server \<Rightarrow> (bool \<times> ('s, 'x, 'p, 'd) server) outcome" where
  "ParseInterface pe sec s =
     bindo (ReadInt sec ''replace'' 0 (sv_cfg s)) (\<lambda>(replace, f).
     bindo (ReadString sec ''name'' None f) (\<lambda>(interfacename, f).
       case interfacename of
         None \<Rightarrow> Inr (False, s\<lparr>sv_cfg := f\<rparr>)
       | Some name \<Rightarrow>
           bindo (ReadInt sec ''code'' (- 1) f) (\<lambda>(code, f).
             if code = - 1 then Inr (False, s\<lparr>sv_cfg := f\<rparr>)
             else
               bindo (ReadString sec ''plugin'' None f) (\<lambda>(pluginname, f).
                 case pluginname of
                   None \<Rightarrow> Inr (False, s\<lparr>sv_cfg := f\<rparr>)
                 | Some p \<Rightarrow> add_interface pe name code (replace \<noteq> 0) p (s\<lparr>sv_cfg := f\<rparr>)))))"

definition ParseAllInterfaces ::
    "('s, 'x, 'p, 'd, 'h) plugin_env \<Rightarrow> ('s, 'x, 'p, 'd) server \<Rightarrow> (bool \<times> ('s, 'x, 'p, 'd) server) outcome" where
  "ParseAllInterfaces pe s = parse_sections ''interface'' (ParseInterface pe) [1 ..< GetSectionCount (sv_cfg s)] s"

section \<open>Ports\<close>

text \<open>The ports of the devices that are not remote, each once.\<close>

fun collect_ports :: "u32 list \<Rightarrow> device list \<Rightarrow> u32 list" where
  "collect_ports ports [] = ports"
| "collect_ports ports (v # vs) =
     (if drivername v = ''remote'' then collect_ports ports vs
      else if robot (dv_addr v) \<in> set ports then collect_ports ports vs
      else collect_ports (ports @ [robot (dv_addr v)]) vs)"

definition relabel_port :: "u32 \<Rightarrow> u32 \<Rightarrow> device \<Rightarrow> device" where
  "relabel_port oport nport v =
     (if robot (dv_addr v) = oport then v\<lparr>dv_addr := (dv_addr v)\<lparr>robot := nport\<rparr>\<rparr> else v)"

fun relabel_ports :: "(u32 \<times> u32) list \<Rightarrow> device list \<Rightarrow> device list" where
  "relabel_ports [] vs = vs"
| "relabel_ports ((oport, nport) # ps) vs =
     relabel_ports ps (if oport = nport then vs else map (relabel_port oport nport) vs)"

text \<open>\<open>main\<close> from the loaded configuration to its loop: 0, or -1 where it exits.  \<open>udp_listen\<close> is the result of
  \<open>PlayerUDP::Listen\<close>.\<close>

definition start_server ::
    "('s, 'x, 'p, 'd, 'h) plugin_env \<Rightarrow> (int \<Rightarrow> (int \<times> int) option) \<Rightarrow> int \<times> int \<Rightarrow> (int list \<Rightarrow> int) \<Rightarrow> ('s, 'x, 'p, 'd) server
     \<Rightarrow> (int \<times> ('s, 'x, 'p, 'd) server) outcome" where
  "start_server pe bind garbage udp_listen s =
     bindo (ParseAllInterfaces pe s) (\<lambda>(ok, s).
       if \<not> ok then Inr (- 1, s)
       else bindo (ParseAllDrivers pe s) (\<lambda>(ok, s).
         if \<not> ok then Inr (- 1, s)
         else bindo (WarnUnused (sv_cfg s)) (\<lambda>_.
           if numdevices (sv_core s) = 0 then Inr (- 1, s)
           else
             (let ports = collect_ports [] (devices (sv_core s)); known = length (listeners (sv_tcp s)) in
              if numdevices (sv_core s) < length ports then Inl BufferOverflow
              else bindo (Listen bind garbage (map sint ports) (sv_tcp s)) (\<lambda>(r, t).
                let s = s\<lparr>sv_tcp := t\<rparr> in
                if r < 0 then Inr (- 1, s)
                else if udp_listen (map sint ports) < 0 then Inr (- 1, s)
                else
                  (let new_ports = map (word_of_int \<circ> snd) (drop known (listeners t)); c = t_core t in
                   bindo (StartAlwaysonDrivers (c\<lparr>devices := relabel_ports (zip ports new_ports) (devices c)\<rparr>)) (\<lambda>(r, c).
                     Inr (if r \<noteq> 0 then - 1 else 0, set_core c s))))))))"

section \<open>The devices listen\<close>

lemma listen_loop_keeps:
  "listen_loop bind ports is t = Inr (r, t') \<Longrightarrow>
   length (listeners t') = length (listeners t) \<and> t_core t' = t_core t \<and> (r = 0 \<or> r = - 1)"
proof (induction "is" arbitrary: t)
  case (Cons i "is")
  show ?case
  proof (cases "i < length ports")
    case True
    with Cons show ?thesis by (cases "bind (ports ! i)") force+
  qed (use Cons.prems in simp)
qed simp

lemma Listen_keeps:
  "Listen bind garbage ports t = Inr (r, t') \<Longrightarrow>
   length (listeners t') = length (listeners t) + length ports \<and> t_core t' = t_core t \<and> (r = 0 \<or> r = - 1)"
  unfolding Listen_def Let_def by (drule listen_loop_keeps) simp

lemma collect_ports_set:
  "set (collect_ports ps vs) = set ps \<union> (\<lambda>v. robot (dv_addr v)) ` {v \<in> set vs. drivername v \<noteq> ''remote''}"
  by (induction ps vs rule: collect_ports.induct) auto

lemma collect_ports_distinct: "distinct ps \<Longrightarrow> distinct (collect_ports ps vs)"
  by (induction ps vs rule: collect_ports.induct) auto

lemma collect_ports_length: "length (collect_ports ps vs) \<le> length ps + length vs"
  by (induction ps vs rule: collect_ports.induct) (auto intro: le_SucI order_trans)

lemma relabel_port_facts:
  "drivername (relabel_port oport nport v) = drivername v"
  "robot (dv_addr (relabel_port oport nport v)) = (if robot (dv_addr v) = oport then nport else robot (dv_addr v))"
  "relabel_port oport oport v = v"
  "robot (dv_addr v) \<noteq> oport \<Longrightarrow> relabel_port oport nport v = v"
  by (simp_all add: relabel_port_def)

text \<open>A device whose port is relabelled ends with one of the new ports.\<close>

definition relabelled :: "(u32 \<times> u32) list \<Rightarrow> device \<Rightarrow> device \<Rightarrow> bool" where
  "relabelled ps w v \<longleftrightarrow> drivername v = drivername w \<and>
     (if robot (dv_addr w) \<in> set (map fst ps) then robot (dv_addr v) \<in> set (map snd ps) else v = w)"

lemma relabelled_Cons: "relabelled ps (relabel_port oport nport w) v \<Longrightarrow> relabelled ((oport, nport) # ps) w v"
  by (cases "robot (dv_addr w) = oport") (auto simp: relabelled_def relabel_port_facts split: if_splits)

lemma relabel_ports_device: "v \<in> set (relabel_ports ps vs) \<Longrightarrow> \<exists>w \<in> set vs. relabelled ps w v"
proof (induction ps vs rule: relabel_ports.induct)
  case (2 oport nport ps vs)
  have "(if oport = nport then vs else map (relabel_port oport nport) vs) = map (relabel_port oport nport) vs"
    by (simp add: relabel_port_facts(3) map_idI)
  with 2 obtain w where "w \<in> set vs" "relabelled ps (relabel_port oport nport w) v" by auto
  with relabelled_Cons show ?case by blast
qed (simp add: relabelled_def)

definition same_names :: "device list \<Rightarrow> device list \<Rightarrow> bool" where
  "same_names vs ws \<longleftrightarrow> map (\<lambda>v. (dv_addr v, drivername v)) ws = map (\<lambda>v. (dv_addr v, drivername v)) vs"

lemma remove_queue_name: "remove_queue q v = (r, v') \<Longrightarrow> dv_addr v' = dv_addr v \<and> drivername v' = drivername v"
  by (auto simp: remove_queue_def split: option.splits)

lemma Device_Subscribe_name:
  "Device_Subscribe q v dr = (r, v', dr') \<Longrightarrow> dv_addr v' = dv_addr v \<and> drivername v' = drivername v"
  by (auto simp: Device_Subscribe_def Let_def split: option.splits prod.splits if_splits)

lemma Subscribe_at_names: "Subscribe_at q k c = Inr (r, c') \<Longrightarrow> same_names (devices c) (devices c')"
proof -
  assume r: "Subscribe_at q k c = Inr (r, c')"
  have same: "same_names (devices c) ((devices c)[k := v'])" if "Device_Subscribe q (devices c ! k) dr = (r', v', dr')" for r' v' dr dr'
  proof (cases "k < length (devices c)")
    case True
    with Device_Subscribe_name [OF that] show ?thesis unfolding same_names_def by (intro map_update_same) simp_all
  qed (simp add: same_names_def list_update_beyond)
  from r show ?thesis unfolding Subscribe_at_def on_device_def Let_def
    by (auto split: option.splits prod.splits dest!: same)
qed

lemma alwayson_loop_names:
  "alwayson_loop (Subscribe_at q) ks c = Inr (r, c') \<Longrightarrow> same_names (devices c) (devices c')"
proof (induction ks arbitrary: c)
  case (Cons k ks)
  then obtain d where d: "driver_at k c = Inr d" by auto
  show ?case
  proof (cases "alwayson d")
    case True
    with Cons.prems d obtain r1 c1 where c1: "Subscribe_at q k c = Inr (r1, c1)"
      "(if r1 \<noteq> 0 then Inr (- 1, c1) else alwayson_loop (Subscribe_at q) ks c1) = Inr (r, c')" by auto
    show ?thesis
    proof (cases "r1 = 0")
      case True
      with c1(2) have "same_names (devices c1) (devices c')" by (intro Cons.IH) simp
      with Subscribe_at_names [OF c1(1)] show ?thesis by (simp add: same_names_def)
    qed (use c1 Subscribe_at_names [OF c1(1)] in simp)
  next
    case False
    with Cons d show ?thesis by simp
  qed
qed (simp add: same_names_def)

lemma parse_sections_keeps:
  assumes "parse_sections ty parse is s = Inr (ok, s')" "P s"
    and "\<And>sec s ok s'. parse sec s = Inr (ok, s') \<Longrightarrow> P s \<Longrightarrow> P s'"
  shows "P s'"
  using assms(1,2)
proof (induction "is" arbitrary: s)
  case (Cons i "is")
  then obtain t where t: "GetSectionType (sv_cfg s) (int i) = Some t" by (auto split: option.splits)
  show ?case
  proof (cases "t = ty")
    case True
    with Cons.prems(1) t obtain ok1 s1 where s1: "parse (int i) s = Inr (ok1, s1)"
      "(if \<not> ok1 then Inr (False, s1) else parse_sections ty parse is s1) = Inr (ok, s')" by auto
    have "P s1" by (rule assms(3) [OF s1(1) Cons.prems(2)])
    with Cons.IH s1(2) show ?thesis by (cases ok1) auto
  next
    case False
    with Cons t show ?thesis by simp
  qed
qed simp

lemma adopt_driver_listeners: "adopt_driver sec name i s = Inr (ok, s') \<Longrightarrow> listeners (sv_tcp s') = listeners (sv_tcp s)"
  unfolding adopt_driver_def
  by (auto simp: set_core_def Let_def case_prod_unfold split: option.split_asm if_split_asm)

lemma ParseDriver_listeners: "ParseDriver pe sec s = Inr (ok, s') \<Longrightarrow> listeners (sv_tcp s') = listeners (sv_tcp s)"
  unfolding ParseDriver_def Let_def
  by (auto simp: set_core_def case_prod_unfold dest!: adopt_driver_listeners split: option.split_asm if_split_asm)

lemma add_interface_tcp: "add_interface pe name code re p s = Inr (ok, s') \<Longrightarrow> sv_tcp s' = sv_tcp s \<and> sv_cfg s' = sv_cfg s"
  unfolding add_interface_def
  by (auto simp: Let_def case_prod_unfold split: option.split_asm if_split_asm)

lemma ParseInterface_listeners: "ParseInterface pe sec s = Inr (ok, s') \<Longrightarrow> sv_tcp s' = sv_tcp s"
  unfolding ParseInterface_def
  by (auto simp: case_prod_unfold dest!: add_interface_tcp split: option.split_asm if_split_asm)

lemma ParseAll_listeners:
  "ParseAllDrivers pe s = Inr (ok, s') \<Longrightarrow> listeners (sv_tcp s) = [] \<Longrightarrow> listeners (sv_tcp s') = []"
  "ParseAllInterfaces pe s = Inr (ok, s') \<Longrightarrow> listeners (sv_tcp s) = [] \<Longrightarrow> listeners (sv_tcp s') = []"
  unfolding ParseAllDrivers_def ParseAllInterfaces_def
  by (erule parse_sections_keeps, assumption, simp add: ParseDriver_listeners)
     (erule parse_sections_keeps, assumption, simp add: ParseInterface_listeners)

lemma start_server_Inr:
  assumes "start_server pe bind garbage udp_listen s = Inr (0, s')" "listeners (sv_tcp s) = []"
  obtains t0 t c where "listeners t0 = []"
    "Listen bind garbage (map sint (collect_ports [] (devices (t_core t0)))) t0 = Inr (0, t)"
    "StartAlwaysonDrivers ((t_core t)\<lparr>devices :=
       relabel_ports (zip (collect_ports [] (devices (t_core t0))) (map (word_of_int \<circ> snd) (listeners t))) (devices (t_core t))\<rparr>) = Inr (0, c)"
    "sv_tcp s' = t\<lparr>t_core := c\<rparr>"
proof -
  from assms(1) obtain s1 where s1: "ParseAllInterfaces pe s = Inr (True, s1)" unfolding start_server_def
    by (auto simp: case_prod_unfold split: if_split_asm)
  with assms(1) obtain s2 where s2: "ParseAllDrivers pe s1 = Inr (True, s2)" unfolding start_server_def
    by (auto simp: case_prod_unfold split: if_split_asm)
  have none: "listeners (sv_tcp s2) = []" using ParseAll_listeners s1 s2 assms(2) by blast
  let ?ports = "collect_ports [] (devices (sv_core s2))"
  from assms(1) s1 s2 none obtain r t c where t: "Listen bind garbage (map sint ?ports) (sv_tcp s2) = Inr (r, t)" "\<not> r < 0"
    and c: "StartAlwaysonDrivers ((t_core t)\<lparr>devices :=
       relabel_ports (zip ?ports (map (word_of_int \<circ> snd) (listeners t))) (devices (t_core t))\<rparr>) = Inr (0, c)"
    and s': "s' = set_core c (s2\<lparr>sv_tcp := t\<rparr>)"
    unfolding start_server_def by (auto simp: Let_def case_prod_unfold split: if_split_asm)
  have "r = 0" using Listen_keeps [OF t(1)] t(2) by auto
  with t c s' none show ?thesis by (intro that [of "sv_tcp s2" t c]) (simp_all add: set_core_def)
qed

lemma StartAlwaysonDrivers_names: "StartAlwaysonDrivers c = Inr (r, c') \<Longrightarrow> same_names (devices c) (devices c')"
  unfolding StartAlwaysonDrivers_def by (rule alwayson_loop_names)

lemma same_names_mem:
  assumes "same_names vs ws" "w \<in> set ws"
  obtains v where "v \<in> set vs" "dv_addr w = dv_addr v" "drivername w = drivername v"
proof -
  let ?f = "\<lambda>v. (dv_addr v, drivername v)"
  have "?f ` set ws = ?f ` set vs" using arg_cong [OF assms(1) [unfolded same_names_def], of set] by simp
  with assms(2) have "?f w \<in> ?f ` set vs" by blast
  then obtain v where "v \<in> set vs" "?f w = ?f v" by (rule imageE)
  with that show ?thesis by simp
qed

lemma Listening_map: "p \<in> snd ` set (listeners t) \<longleftrightarrow> Listening p t"
  by (auto simp: Listening_def list_ex_iff)

text \<open>C12: A server that has started listens for every device it has of its own: the device's port, which the operating system may
  have chosen, is the port of one of the sockets.\<close>

theorem startup_listens:
  assumes "start_server pe bind garbage udp_listen s = Inr (0, s')" "listeners (sv_tcp s) = []"
    and "v \<in> set (devices (sv_core s'))" "drivername v \<noteq> ''remote''"
  shows "\<exists>p. Listening p (sv_tcp s') \<and> robot (dv_addr v) = word_of_int p"
proof -
  from assms(1,2) obtain t0 t c where none: "listeners (t0) = []"
    and t: "Listen bind garbage (map sint (collect_ports [] (devices (t_core t0)))) (t0) = Inr (0, t)"
    and c: "StartAlwaysonDrivers ((t_core t)\<lparr>devices :=
       relabel_ports (zip (collect_ports [] (devices (t_core t0))) (map (word_of_int \<circ> snd) (listeners t))) (devices (t_core t))\<rparr>) = Inr (0, c)"
    and s': "sv_tcp s' = t\<lparr>t_core := c\<rparr>" by (rule start_server_Inr)
  let ?ports = "collect_ports [] (devices (t_core t0))"
  let ?new = "map (word_of_int \<circ> snd) (listeners t) :: u32 list"
  from Listen_keeps [OF t] none have len: "length ?new = length ?ports" and core: "devices (t_core t) = devices (t_core t0)" by simp_all
  have "v \<in> set (devices c)" using assms(3) s' by simp
  then obtain w where w: "w \<in> set (relabel_ports (zip ?ports ?new) (devices (t_core t0)))" "dv_addr v = dv_addr w" "drivername v = drivername w"
    using core by (auto elim!: same_names_mem [OF StartAlwaysonDrivers_names [OF c]])
  from relabel_ports_device [OF w(1)] obtain u where u: "u \<in> set (devices (t_core t0))" "relabelled (zip ?ports ?new) u w" by blast
  have "robot (dv_addr u) \<in> set ?ports" using u w(3) assms(4) by (auto simp: collect_ports_set relabelled_def)
  with u(2) len have "robot (dv_addr w) \<in> set ?new" unfolding relabelled_def by (auto simp del: set_map simp: map_fst_zip map_snd_zip)
  then have "\<exists>p. Listening p t \<and> robot (dv_addr w) = word_of_int p" by (auto simp: Listening_map [symmetric])
  with w(2) s' show ?thesis by (simp add: Listening_def)
qed

section \<open>A server that starts\<close>

text \<open>The configuration \<open>db1\<close> has one driver section, whose driver is given one device.\<close>

definition laser_factory :: "(unit, unit) factory" where
  "laser_factory ae f sec c =
     (let i = next_did c; c1 = c\<lparr>next_did := i + 1, drv := (drv c)(i \<mapsto> sample_driver)\<rparr>
      in bindo (AddDevice (laser_at 0) i c1) (\<lambda>(_, c2). Inr (Some i, f, c2)))"

definition boot_env :: "(unit, unit, unit, unit, unit) plugin_env" where
  "boot_env = \<lparr>LoadPlugin = (\<lambda>_. None), InitDriverPlugin = (\<lambda>_ t. (True, t)), InitInterfacePlugin = (\<lambda>_. None), resolve_host = (\<lambda>_. None)\<rparr>"

definition boot_server :: "(unit, unit, unit, unit) server" where
  "boot_server = \<lparr>sv_cfg = db1, sv_drivers = AddDriver ''sick'' (Some laser_factory) DriverTable_new, sv_ftable = None,
     sv_itable = itable_unset, sv_tcp = sample_server\<lparr>listeners := [], t_core := DeviceTable_new\<rparr>\<rparr>"

definition boot_core :: "(unit, unit tcp_data) core" where
  "boot_core = DeviceTable_new\<lparr>drv := [0 \<mapsto> sample_driver\<lparr>device_addr := laser_at 0\<rparr>], next_did := 1, numdevices := 1,
     devices := [device0\<lparr>dv_addr := laser_at 0, drivername := ''sick''\<rparr>]\<rparr>"

lemma boot_sections: "GetSectionCount db1 = 3" "GetSectionType db1 1 = Some ''driver''" "GetSectionType db1 2 = Some ''geom''"
  by (simp_all add: GetSectionCount_def GetSectionType_def db1_def)

lemma boot_interfaces: "ParseAllInterfaces pe boot_server = Inr (True, boot_server)"
  by (simp add: ParseAllInterfaces_def boot_server_def boot_sections upt_rec)

lemma boot_name: "ReadString 1 ''plugin'' None db1 = Inr (None, db1)" "ReadString 1 ''name'' None db1 = Inr (Some ''sick'', mark_used 0 0 db1)"
  "ReadInt 1 ''alwayson'' b (mark_used 0 0 db1) = Inr (b, mark_used 0 0 db1)" "GetSectionType (mark_used 0 0 db1) 2 = Some ''geom''"
  by (simp_all add: ReadString_def ReadInt_def GetField_def db1_def mark_used_def GetFieldValue_def GetTokenValue_def new_cfg_def tree1_def
      print_entries_def print_values_def blank_def eol_def tok_def eval_nat_numeral GetSectionType_def)

lemma boot_factory: "laser_factory ae f sec DeviceTable_new = Inr (Some 0, f, boot_core\<lparr>devices := [device0\<lparr>dv_addr := laser_at 0\<rparr>]\<rparr>)"
  by (simp add: laser_factory_def AddDevice_def find_device_def DeviceTable_new_def Device_new_def boot_core_def device0_def
      sample_driver_def Driver_new_def)

definition booted :: "(unit, unit, unit, unit) server" where
  "booted = boot_server\<lparr>sv_cfg := mark_used 0 0 db1, sv_tcp := sample_server\<lparr>listeners := [], t_core := boot_core\<rparr>\<rparr>"

lemma boot_adopt:
  "adopt_driver 1 ''sick'' (Some 0) (set_core (boot_core\<lparr>devices := [device0\<lparr>dv_addr := laser_at 0\<rparr>]\<rparr>) (boot_server\<lparr>sv_cfg := mark_used 0 0 db1\<rparr>)) =
     Inr (True, booted)"
proof -
  have "drv boot_core 0 = Some (sample_driver\<lparr>device_addr := laser_at 0\<rparr>)" "GetError (sample_driver\<lparr>device_addr := laser_at 0\<rparr>) = 0"
    "\<not> alwayson sample_driver" by (simp_all add: boot_core_def sample_driver_def Driver_new_def GetError_def)
  then show ?thesis
    by (simp add: adopt_driver_def name_devices_def name_device_def set_core_def boot_name)
       (simp add: booted_def boot_core_def boot_server_def device0_def DRIVER_STRING_LEN_def sample_driver_def Driver_new_def fun_eq_iff)
qed

lemma boot_drivers: "ParseAllDrivers boot_env boot_server = Inr (True, booted)"
proof -
  have f: "sv_cfg boot_server = db1" "sv_core boot_server = DeviceTable_new" by (simp_all add: boot_server_def)
  have t: "use_driver_plugin boot_env None (sv_drivers boot_server) = (True, sv_drivers boot_server)"
    by (simp add: use_driver_plugin_def)
  have e: "find_factory (sv_drivers boot_server) (Some ''sick'') = Some (''sick'', laser_factory)"
    by (simp add: find_factory_def boot_server_def AddDriver_def DriverTable_new_def GetDriverEntry_def fill_entry_def DRIVER_STRING_LEN_def strncpy_term_def)
  have "boot_server\<lparr>sv_drivers := sv_drivers boot_server, sv_cfg := x\<rparr> = boot_server\<lparr>sv_cfg := x\<rparr>" for x by (simp add: boot_server_def)
  then have p: "ParseDriver boot_env 1 boot_server = Inr (True, booted)"
    by (simp add: ParseDriver_def f boot_name(1) t) (simp add: f boot_name(2) e boot_factory boot_adopt)
  have "sv_cfg booted = mark_used 0 0 db1" by (simp add: booted_def)
  with p boot_name(4) show ?thesis by (simp add: ParseAllDrivers_def f boot_sections upt_rec)
qed

lemma boot_starts: "\<exists>s'. start_server boot_env (\<lambda>p. Some (3, p)) (0, 0) (\<lambda>_. 0) boot_server = Inr (0, s') \<and>
    device0\<lparr>dv_addr := laser_at 0, drivername := ''sick''\<rparr> \<in> set (devices (sv_core s'))"
proof -
  have w: "\<exists>b. WarnUnused (sv_cfg booted) = Inr b"
    by (auto simp: booted_def WarnUnused_def mark_used_def db1_def)
  have d: "devices (sv_core booted) = [device0\<lparr>dv_addr := laser_at 0, drivername := ''sick''\<rparr>]" "numdevices (sv_core booted) = 1"
    by (simp_all add: booted_def boot_core_def)
  have l: "listeners (sv_tcp booted) = []" by (simp add: booted_def)
  let ?b = "\<lambda>p. Some (3 :: int, p)" and ?t = "(sv_tcp booted)\<lparr>listeners := [(3, 6665)], t_watcher := AddFileWatch_noqueue 3 True False True (t_watcher (sv_tcp booted))\<rparr>"
  have ports: "collect_ports [] (devices (sv_core booted)) = [6665]" by (simp add: d)
  have li: "Listen ?b (0, 0) (map sint [6665 :: u32]) (sv_tcp booted) = Inr (0, ?t)"
    by (simp add: Listen_def l Let_def upt_rec)
  have core: "t_core ?t = sv_core booted" by simp
  have same: "sv_core booted\<lparr>devices := [device0\<lparr>dv_addr := laser_at 0, drivername := ''sick''\<rparr>]\<rparr> = sv_core booted"
    by (simp add: booted_def boot_core_def)
  have al: "StartAlwaysonDrivers (sv_core booted) = Inr (0, sv_core booted)"
    by (simp add: StartAlwaysonDrivers_def booted_def boot_core_def upt_rec driver_at_def device0_def sample_driver_def Driver_new_def)
  from w obtain b where b: "WarnUnused (sv_cfg booted) = Inr b" by blast
  have "start_server boot_env ?b (0, 0) (\<lambda>_. 0) boot_server = Inr (0, set_core (sv_core booted) (booted\<lparr>sv_tcp := ?t\<rparr>))"
    unfolding start_server_def boot_interfaces boot_drivers bindo.simps prod.case b ports Let_def li l core
    by (simp add: d same al)
  with d show ?thesis by (simp add: set_core_def)
qed

theorem startup_listens_witness:
  "\<exists>s' p. start_server boot_env (\<lambda>p. Some (3, p)) (0, 0) (\<lambda>_. 0) boot_server = Inr (0, s') \<and> Listening p (sv_tcp s') \<and> word_of_int p = (6665 :: u32)"
proof -
  obtain s' where s': "start_server boot_env (\<lambda>p. Some (3, p)) (0, 0) (\<lambda>_. 0) boot_server = Inr (0, s')"
    "device0\<lparr>dv_addr := laser_at 0, drivername := ''sick''\<rparr> \<in> set (devices (sv_core s'))" using boot_starts by blast
  have "listeners (sv_tcp boot_server) = []" by (simp add: boot_server_def)
  from startup_listens [OF s'(1) this s'(2)] s'(1) show ?thesis by (auto simp: device0_def)
qed

end
