(* ===== verification/StartDrivers.thy ===== *)
theory StartDrivers
  imports Startup
begin

text \<open>
  What the walk over the driver sections promises, given what the functions that make drivers promise: every section has a
  driver of its own, with the name and the flags the section gives it.
\<close>

section \<open>Reading a configuration\<close>

text \<open>A factory may read fields and write some (file names become absolute), but it keeps the sections and the fields that
  \<open>ParseDriver\<close> reads.\<close>

definition driver_fields :: "string set" where
  "driver_fields = {''plugin'', ''name'', ''alwayson''}"

definition keeps_config :: "cfg \<Rightarrow> cfg \<Rightarrow> bool" where
  "keeps_config f f' \<longleftrightarrow> cfg_ok f' \<and> sections f' = sections f \<and>
     (\<forall>sec. \<forall>name \<in> driver_fields.
       GetField f' sec name = GetField f sec name \<and> field_value f' (sec, name) = field_value f (sec, name))"

lemma keeps_config_refl: "cfg_ok f \<Longrightarrow> keeps_config f f"
  by (simp add: keeps_config_def)

lemma keeps_config_trans: "keeps_config f g \<Longrightarrow> keeps_config g h \<Longrightarrow> keeps_config f h"
  by (simp add: keeps_config_def)

lemma find_index_map: "find_index P (map g xs) = find_index (\<lambda>x. P (g x)) xs"
  by (induction xs) simp_all

lemma mark_used_keeps:
  assumes "cfg_ok f" "k < length (cfields f)"
  shows "keeps_config f (mark_used k ix f)"
proof -
  let ?g = "(cfields f ! k)\<lparr>fd_useds := (fd_useds (cfields f ! k))[ix := Some True]\<rparr>" and ?key = "\<lambda>g. (fd_section g, fd_name g)"
  have keys: "map ?key ((cfields f)[k := ?g]) = map ?key (cfields f)"
    using assms(2) by (intro map_update_same) simp_all
  have index: "find_index (\<lambda>g. fd_section g = sec \<and> fd_name g = name) fs = find_index (\<lambda>p. p = (sec, name)) (map ?key fs)" for sec name fs
    by (simp add: find_index_map)
  have vals: "fd_values ((cfields f)[k := ?g] ! j) = fd_values (cfields f ! j)" for j
    using assms(2) by (cases "j = k") simp_all
  have "field_ok (tokens f) (length (sections f)) (cfields f ! k)" using assms by (simp add: cfg_ok_def)
  moreover have "set ((fd_useds (cfields f ! k))[ix := Some True]) \<subseteq> insert (Some True) (set (fd_useds (cfields f ! k)))"
    by (rule set_update_subset_insert)
  ultimately have "field_ok (tokens f) (length (sections f)) ?g" by (auto simp: field_ok_def)
  then have "field_ok (tokens f) (length (sections f)) g" if "g \<in> set ((cfields f)[k := ?g])" for g
    using that assms(1) set_update_subset_insert [of "cfields f" k ?g] by (auto simp: cfg_ok_def)
  with assms(1) keys vals show ?thesis
    by (simp add: keeps_config_def mark_used_def cfg_ok_def unique_fields_def GetField_def field_value_def index
        split: option.split list.split)
qed

text \<open>The value that a read gives for a field with a default.\<close>

definition string_of :: "int \<Rightarrow> string \<Rightarrow> string option \<Rightarrow> cfg \<Rightarrow> string option" where
  "string_of sec name def f = (if GetField f sec name = None then def else field_value f (sec, name))"

lemma GetFieldValue_none: "k < length (cfields f) \<Longrightarrow> fd_values (cfields f ! k) = [] \<Longrightarrow> GetFieldValue k 0 True f = Inr (None, f)"
  by (simp add: GetFieldValue_def)

lemma ReadString_ok:
  assumes "cfg_ok f"
  obtains f' where "ReadString sec name def f = Inr (string_of sec name def f, f')" "keeps_config f f'"
proof (cases "GetField f sec name")
  case None
  with that keeps_config_refl [OF assms] show ?thesis by (simp add: ReadString_def string_of_def)
next
  case (Some k)
  note k = GetField_Some [OF Some]
  show ?thesis
  proof (cases "fd_values (cfields f ! k)")
    case Nil
    with Some k that keeps_config_refl [OF assms] show ?thesis
      by (simp add: ReadString_def string_of_def GetFieldValue_none field_value_def)
  next
    case (Cons v vs)
    with cfg_ok_value [of f k v] assms k obtain t where "v = Some t" by auto
    with Cons have vs: "fd_values (cfields f ! k) = Some t # vs" by simp
    show ?thesis
      using that [OF _ mark_used_keeps [OF assms]] Some k GetFieldValue_first [OF assms Some vs] vs
      by (simp add: ReadString_def string_of_def field_value_def)
  qed
qed

text \<open>An integer field that can be read has a value of the range of \<open>int\<close>.\<close>

definition int_readable :: "cfg \<Rightarrow> int \<Rightarrow> string \<Rightarrow> bool" where
  "int_readable f sec name \<longleftrightarrow> GetField f sec name = None \<or> (\<exists>v. field_value f (sec, name) = Some v \<and> int_range (atoi_value v))"

definition int_of_field :: "int \<Rightarrow> string \<Rightarrow> int \<Rightarrow> cfg \<Rightarrow> int" where
  "int_of_field sec name def f = (case field_value f (sec, name) of None \<Rightarrow> def | Some v \<Rightarrow> atoi_value v)"

lemma ReadInt_ok:
  assumes "cfg_ok f" "int_readable f sec name"
  obtains f' where "ReadInt sec name def f = Inr (int_of_field sec name def f, f')" "keeps_config f f'"
proof (cases "GetField f sec name")
  case None
  with that keeps_config_refl [OF assms(1)] show ?thesis by (simp add: ReadInt_def int_of_field_def field_value_def)
next
  case (Some k)
  note k = GetField_Some [OF Some]
  with assms(2) Some obtain v where v: "field_value f (sec, name) = Some v" "int_range (atoi_value v)" by (auto simp: int_readable_def)
  from v(1) obtain t vs where vs: "fd_values (cfields f ! k) = Some t # vs" "v = t_value (tokens f ! t)"
    by (rule field_value_Some) (use Some in simp)
  show ?thesis
    using that [OF _ mark_used_keeps [OF assms(1)]] Some k GetFieldValue_first [OF assms(1) Some vs(1)] v vs(2)
    by (simp add: ReadInt_def int_of_field_def atoi_def)
qed

lemma int_readable_keeps: "keeps_config f f' \<Longrightarrow> name \<in> driver_fields \<Longrightarrow> int_readable f' sec name = int_readable f sec name"
  by (simp add: int_readable_def keeps_config_def)

section \<open>The contract of a driver's init function\<close>

text \<open>What making a driver does to the table: drivers and devices there were stay, and new devices have new drivers.\<close>

definition grows :: "('s, 'e) core \<Rightarrow> ('s, 'e) core \<Rightarrow> bool" where
  "grows c c' \<longleftrightarrow> next_did c \<le> next_did c' \<and> (\<forall>j < next_did c. drv c' j = drv c j) \<and>
     (\<exists>vs. devices c' = devices c @ vs \<and> (\<forall>v \<in> set vs. \<forall>i. dv_driver v = Some i \<longrightarrow> next_did c \<le> i))"

definition makes_driver :: "('s, 'x) factory \<Rightarrow> bool" where
  "makes_driver fn \<longleftrightarrow>
     (\<forall>ae f sec c. cfg_ok f \<longrightarrow> core_ok c \<longrightarrow>
       (\<exists>r f' c'. fn ae f sec c = Inr (r, f', c') \<and> keeps_config f f' \<and> core_ok c' \<and> grows c c' \<and>
         (\<forall>i. r = Some i \<longrightarrow> next_did c \<le> i \<and> drv c' i \<noteq> None)))"

definition table_makes :: "('s, 'x) factory driver_table \<Rightarrow> bool" where
  "table_makes t \<longleftrightarrow> (\<forall>name n fn. find_factory t name = Some (n, fn) \<longrightarrow> makes_driver fn)"

definition plugins_make :: "('s, 'x, 'p, 'd, 'h) plugin_env \<Rightarrow> bool" where
  "plugins_make pe \<longleftrightarrow> (\<forall>h t. table_makes t \<longrightarrow> table_makes (snd (InitDriverPlugin pe h t)))"

lemma grows_refl: "grows c c"
  by (simp add: grows_def)

lemma grows_trans:
  assumes "grows a b" "grows b c"
  shows "grows a c"
proof -
  from assms obtain vs ws where vs: "devices b = devices a @ vs" "\<forall>v \<in> set vs. \<forall>i. dv_driver v = Some i \<longrightarrow> next_did a \<le> i"
    and ws: "devices c = devices b @ ws" "\<forall>v \<in> set ws. \<forall>i. dv_driver v = Some i \<longrightarrow> next_did b \<le> i"
    and n: "next_did a \<le> next_did b" "next_did b \<le> next_did c" by (auto simp: grows_def)
  have "\<forall>v \<in> set (vs @ ws). \<forall>i. dv_driver v = Some i \<longrightarrow> next_did a \<le> i" using vs(2) ws(2) n(1) by fastforce
  with vs ws have "\<exists>us. devices c = devices a @ us \<and> (\<forall>v \<in> set us. \<forall>i. dv_driver v = Some i \<longrightarrow> next_did a \<le> i)"
    by (intro exI [of _ "vs @ ws"]) simp
  with assms n show ?thesis by (simp add: grows_def)
qed

text \<open>The driver \<open>i\<close> is what the section \<open>sec\<close> asks for: its devices carry the name, \<open>alwayson\<close> is the flag of the section.\<close>

definition made :: "cfg \<Rightarrow> int \<Rightarrow> did \<Rightarrow> ('s, 'e) core \<Rightarrow> bool" where
  "made f sec i c \<longleftrightarrow>
     (\<exists>d name. drv c i = Some d \<and> GetError d = 0 \<and> field_value f (sec, ''name'') = Some name \<and>
       (\<forall>v. field_value f (sec, ''alwayson'') = Some v \<longrightarrow> alwayson d = (atoi_value v \<noteq> 0)) \<and>
       (\<exists>v \<in> set (devices c). dv_driver v = Some i) \<and>
       (\<forall>v \<in> set (devices c). dv_driver v = Some i \<longrightarrow> drivername v = take DRIVER_STRING_LEN name))"

lemma core_ok_bound: "core_ok c \<Longrightarrow> drv c i \<noteq> None \<Longrightarrow> i < next_did c"
  by (metis core_ok_def not_le_imp_less)

lemma made_grows:
  assumes "made f sec i c" "core_ok c" "grows c c'"
  shows "made f sec i c'"
proof -
  have i: "i < next_did c" using assms(1) by (intro core_ok_bound [OF assms(2)]) (auto simp: made_def)
  from assms(3) obtain vs where vs: "devices c' = devices c @ vs" "\<forall>v \<in> set vs. dv_driver v \<noteq> Some i" "drv c' i = drv c i"
    using i by (fastforce simp: grows_def)
  with assms(1) show ?thesis unfolding made_def by auto
qed

lemma made_config: "keeps_config f f' \<Longrightarrow> made f' sec i c = made f sec i c"
  by (simp add: made_def keeps_config_def driver_fields_def)

section \<open>One section\<close>

lemma name_device_facts:
  "dv_addr (name_device i name v) = dv_addr v" "dv_driver (name_device i name v) = dv_driver v"
  "device_ok (name_device i name v) = device_ok v" "dv_driver v \<noteq> Some i \<Longrightarrow> name_device i name v = v"
  "dv_driver v = Some i \<Longrightarrow> drivername (name_device i name v) = take DRIVER_STRING_LEN name"
  by (simp_all add: name_device_def device_ok_def)

lemma name_devices_core:
  fixes name :: string
  assumes "core_ok c0" "core_ok c" "grows c0 c" "next_did c0 \<le> i" "drv c i \<noteq> None"
  defines "c1 \<equiv> c\<lparr>devices := map (name_device i name) (devices c)\<rparr>"
  shows "core_ok c1" "grows c0 c1" "core_ok (c1\<lparr>drv := (drv c1)(i \<mapsto> d)\<rparr>)" "grows c0 (c1\<lparr>drv := (drv c1)(i \<mapsto> d)\<rparr>)"
proof -
  note [simp] = name_device_facts(1-3)
  have i: "i < next_did c" by (rule core_ok_bound [OF assms(2,5)])
  show ok: "core_ok c1" unfolding c1_def using assms(2) by (simp add: core_ok_def sorted_wrt_map)
  then show "core_ok (c1\<lparr>drv := (drv c1)(i \<mapsto> d)\<rparr>)" using i unfolding c1_def by (auto simp: core_ok_def)
  from assms(3) obtain vs where vs: "devices c = devices c0 @ vs" "\<forall>v \<in> set vs. \<forall>i. dv_driver v = Some i \<longrightarrow> next_did c0 \<le> i"
    by (auto simp: grows_def)
  have old: "dv_driver v \<noteq> Some i" if "v \<in> set (devices c0)" for v
  proof
    assume "dv_driver v = Some i"
    with assms(1) that have "drv c0 i \<noteq> None" by (auto simp: core_ok_def)
    from core_ok_bound [OF assms(1) this] assms(4) show False by simp
  qed
  then have "map (name_device i name) (devices c0) = devices c0" by (intro map_idI) (simp add: name_device_facts(4))
  then have "devices c1 = devices c0 @ map (name_device i name) vs" by (simp add: c1_def vs(1))
  moreover have "\<forall>v \<in> set (map (name_device i name) vs). \<forall>i. dv_driver v = Some i \<longrightarrow> next_did c0 \<le> i" using vs(2) by simp
  ultimately have dv: "\<exists>vs. devices c1 = devices c0 @ vs \<and> (\<forall>v \<in> set vs. \<forall>i. dv_driver v = Some i \<longrightarrow> next_did c0 \<le> i)" by blast
  have "drv c1 = drv c" "next_did c1 = next_did c" by (simp_all add: c1_def)
  with dv assms(3,4) show "grows c0 c1" "grows c0 (c1\<lparr>drv := (drv c1)(i \<mapsto> d)\<rparr>)" by (simp_all add: grows_def)
qed

text \<open>What one section leaves: \<open>s\<close> before, \<open>s'\<close> after.\<close>

definition driver_step :: "('s, 'x, 'p, 'd) server \<Rightarrow> ('s, 'x, 'p, 'd) server \<Rightarrow> bool" where
  "driver_step s s' \<longleftrightarrow> keeps_config (sv_cfg s) (sv_cfg s') \<and> core_ok (sv_core s') \<and> grows (sv_core s) (sv_core s') \<and> table_makes (sv_drivers s')"

definition made_one :: "('s, 'x, 'p, 'd) server \<Rightarrow> int \<Rightarrow> ('s, 'x, 'p, 'd) server \<Rightarrow> bool" where
  "made_one s sec s' \<longleftrightarrow> (\<exists>i. next_did (sv_core s) \<le> i \<and> made (sv_cfg s) sec i (sv_core s'))"

lemma set_core_simps [simp]:
  "sv_core (set_core c s) = c" "sv_cfg (set_core c s) = sv_cfg s" "sv_drivers (set_core c s) = sv_drivers s"
  by (simp_all add: set_core_def)

lemma adopt_driver_ok:
  assumes c0: "core_ok c0" "grows c0 (sv_core s)" and ok: "core_ok (sv_core s)" "cfg_ok (sv_cfg s)"
    and d: "\<forall>i. r = Some i \<longrightarrow> next_did c0 \<le> i \<and> drv (sv_core s) i \<noteq> None"
    and name: "field_value (sv_cfg s) (sec, ''name'') = Some name" and flag: "int_readable (sv_cfg s) sec ''alwayson''"
  obtains b s' where "adopt_driver sec name r s = Inr (b, s')" "core_ok (sv_core s')" "grows c0 (sv_core s')"
    "keeps_config (sv_cfg s) (sv_cfg s')" "sv_drivers s' = sv_drivers s"
    "b \<Longrightarrow> \<exists>i. next_did c0 \<le> i \<and> made (sv_cfg s) sec i (sv_core s')"
proof (cases r)
  case None
  with that [of False s] c0 ok show ?thesis by (simp add: adopt_driver_def keeps_config_refl)
next
  case (Some i)
  with d obtain d where i: "next_did c0 \<le> i" and d: "drv (sv_core s) i = Some d" by auto
  note core = name_devices_core [OF c0(1) ok(1) c0(2) i, unfolded d, simplified]
  let ?c = "(sv_core s)\<lparr>devices := map (name_device i name) (devices (sv_core s))\<rparr>"
  let ?n = "length (filter (\<lambda>v. dv_driver v = Some i) (devices (sv_core s)))"
  show ?thesis
  proof (cases "GetError d = 0 \<and> ?n \<noteq> 0")
    case False
    then consider "GetError d \<noteq> 0" | "GetError d = 0" "?n = 0" by blast
    then show ?thesis
    proof cases
      case 1
      with Some d that [of False s] c0 ok show ?thesis by (simp add: adopt_driver_def keeps_config_refl)
    next
      case 2
      with Some d that [of False "set_core ?c s"] core ok show ?thesis
        by (simp add: adopt_driver_def name_devices_def keeps_config_refl)
    qed
  next
    case True
    from ReadInt_ok [OF ok(2) flag] obtain f' where f': "ReadInt sec ''alwayson'' (if alwayson d then 1 else 0) (sv_cfg s) =
        Inr (int_of_field sec ''alwayson'' (if alwayson d then 1 else 0) (sv_cfg s), f')" "keeps_config (sv_cfg s) f'" by blast
    let ?d = "d\<lparr>alwayson := int_of_field sec ''alwayson'' (if alwayson d then 1 else 0) (sv_cfg s) \<noteq> 0\<rparr>"
    let ?s = "set_core (?c\<lparr>drv := (drv ?c)(i \<mapsto> ?d)\<rparr>) (s\<lparr>sv_cfg := f'\<rparr>)"
    from True obtain v where v: "v \<in> set (devices (sv_core s))" "dv_driver v = Some i" by (auto simp: filter_empty_conv)
    have "made (sv_cfg s) sec i (sv_core ?s)"
      unfolding made_def using True name v
      by (auto simp: name_device_facts int_of_field_def GetError_def intro!: bexI [of _ v])
    with Some d i f' True core show ?thesis
      by (intro that [of True ?s]) (auto simp: adopt_driver_def name_devices_def)
  qed
qed

lemma use_driver_plugin_makes:
  "plugins_make pe \<Longrightarrow> table_makes t \<Longrightarrow> table_makes (snd (use_driver_plugin pe p t))"
  by (simp add: use_driver_plugin_def plugins_make_def split: option.split)

lemma find_factory_name: "find_factory t name = Some (n, fn) \<Longrightarrow> name = Some n"
  by (auto simp: find_factory_def split: option.splits)

lemma ParseDriver_ok:
  assumes ok: "cfg_ok (sv_cfg s)" "core_ok (sv_core s)" and makes: "table_makes (sv_drivers s)" "plugins_make pe"
    and flag: "int_readable (sv_cfg s) sec ''alwayson''"
  shows "\<exists>b s'. ParseDriver pe sec s = Inr (b, s') \<and> driver_step s s' \<and> (b \<longrightarrow> made_one s sec s')"
proof -
  from ReadString_ok [OF ok(1), of sec "''plugin''" None] obtain f1 where
    f1: "ReadString sec ''plugin'' None (sv_cfg s) = Inr (string_of sec ''plugin'' None (sv_cfg s), f1)" "keeps_config (sv_cfg s) f1" .
  let ?p = "string_of sec ''plugin'' None (sv_cfg s)"
  obtain b1 dt where dt: "use_driver_plugin pe ?p (sv_drivers s) = (b1, dt)" by fastforce
  with use_driver_plugin_makes [OF makes(2,1), of ?p] have tab: "table_makes dt" by simp
  from ReadString_ok [of f1 sec "''name''" None] f1(2) obtain f2 where
    f2: "ReadString sec ''name'' None f1 = Inr (string_of sec ''name'' None f1, f2)" "keeps_config f1 f2"
    by (auto simp: keeps_config_def)
  let ?n = "string_of sec ''name'' None f1"
  have k2: "keeps_config (sv_cfg s) f2" by (rule keeps_config_trans [OF f1(2) f2(2)])
  note run = ParseDriver_def f1(1) f2(1) dt Let_def bindo.simps prod.case
  show ?thesis
  proof (cases "b1 \<and> find_factory dt ?n \<noteq> None")
    case False
    then consider "\<not> b1" | "b1" "find_factory dt ?n = None" by blast
    then show ?thesis
    proof cases
      case 1
      with f1 ok tab show ?thesis by (auto simp: run driver_step_def grows_refl)
    next
      case 2
      with k2 ok tab show ?thesis by (auto simp: run driver_step_def grows_refl)
    qed
  next
    case True
    then obtain name fn where fn: "find_factory dt ?n = Some (name, fn)" by auto
    let ?s = "s\<lparr>sv_cfg := f2, sv_drivers := dt\<rparr>"
    have "makes_driver fn" using tab fn by (auto simp: table_makes_def)
    moreover have "cfg_ok f2" using k2 by (simp add: keeps_config_def)
    ultimately obtain r f3 c where init: "fn (server_env pe (sv_itable s)) f2 sec (sv_core s) = Inr (r, f3, c)"
        "keeps_config f2 f3" "core_ok c" "grows (sv_core s) c" "\<forall>i. r = Some i \<longrightarrow> next_did (sv_core s) \<le> i \<and> drv c i \<noteq> None"
      using ok(2) unfolding makes_driver_def by meson
    have k3: "keeps_config (sv_cfg s) f3" by (rule keeps_config_trans [OF k2 init(2)])
    then have ok3: "cfg_ok f3" by (simp add: keeps_config_def)
    have "field_value f1 (sec, ''name'') = Some name"
      using find_factory_name [OF fn] by (simp add: string_of_def split: if_splits)
    with f1(2) k3 have name: "field_value f3 (sec, ''name'') = Some name" by (simp add: keeps_config_def driver_fields_def)
    have flag3: "int_readable f3 sec ''alwayson''" using flag int_readable_keeps [OF k3] by (simp add: driver_fields_def)
    let ?t = "set_core c (s\<lparr>sv_drivers := dt, sv_cfg := f3\<rparr>)"
    obtain b s' where a: "adopt_driver sec name r ?t = Inr (b, s')" "core_ok (sv_core s')" "grows (sv_core s) (sv_core s')"
        "keeps_config f3 (sv_cfg s')" "sv_drivers s' = dt" "b \<Longrightarrow> \<exists>i. next_did (sv_core s) \<le> i \<and> made f3 sec i (sv_core s')"
    proof (rule adopt_driver_ok [of "sv_core s" ?t r sec name], goal_cases)
      case (8 b s')
      with 8(1) [of b s'] show ?case by simp
    qed (use init ok ok3 name flag3 in simp_all)
    have "ParseDriver pe sec s = Inr (b, s')"
      using True a(1) init(1) fn by (simp add: run)
    moreover have "driver_step s s'" using a tab keeps_config_trans [OF k3 a(4)] by (simp add: driver_step_def)
    moreover have "made_one s sec s'" if b using a(6) [OF that] by (simp add: made_one_def made_config [OF k3])
    ultimately show ?thesis by blast
  qed
qed

section \<open>The walk\<close>

definition driver_sections :: "cfg \<Rightarrow> nat list \<Rightarrow> int list" where
  "driver_sections f is = map int (filter (\<lambda>i. GetSectionType f (int i) = Some ''driver'') is)"

lemma driver_sections_keeps: "keeps_config f f' \<Longrightarrow> driver_sections f' = driver_sections f"
  by (simp add: driver_sections_def keeps_config_def GetSectionType_def fun_eq_iff)

lemma driver_step_trans: "driver_step a b \<Longrightarrow> driver_step b c \<Longrightarrow> driver_step a c"
  unfolding driver_step_def by (blast intro: keeps_config_trans grows_trans)

text \<open>Different sections have different drivers: their numbers go up.\<close>

definition all_made :: "('s, 'x, 'p, 'd) server \<Rightarrow> int list \<Rightarrow> ('s, 'x, 'p, 'd) server \<Rightarrow> bool" where
  "all_made s secs s' \<longleftrightarrow>
     (\<exists>ds. sorted_wrt (<) ds \<and> (\<forall>i \<in> set ds. next_did (sv_core s) \<le> i) \<and>
       list_all2 (\<lambda>sec i. made (sv_cfg s) sec i (sv_core s')) secs ds)"

lemma all_made_Cons:
  assumes s1: "driver_step s s1" "made_one s sec s1" and s2: "driver_step s1 s2" "all_made s1 secs s2"
  shows "all_made s (sec # secs) s2"
proof -
  from s1(2) obtain i where i: "next_did (sv_core s) \<le> i" "made (sv_cfg s) sec i (sv_core s1)" by (auto simp: made_one_def)
  from s2(2) obtain ds where ds: "sorted_wrt (<) ds" "\<forall>j \<in> set ds. next_did (sv_core s1) \<le> j"
      "list_all2 (\<lambda>sec i. made (sv_cfg s1) sec i (sv_core s2)) secs ds" by (auto simp: all_made_def)
  have k: "keeps_config (sv_cfg s) (sv_cfg s1)" and ok: "core_ok (sv_core s1)" and g: "grows (sv_core s) (sv_core s1)"
    using s1(1) by (simp_all add: driver_step_def)
  have "made (sv_cfg s) sec i (sv_core s2)" using made_grows [OF i(2) ok] s2(1) by (simp add: driver_step_def)
  moreover have "i < next_did (sv_core s1)" using i(2) by (intro core_ok_bound [OF ok]) (auto simp: made_def)
  ultimately show ?thesis using i(1) ds g unfolding all_made_def
    by (intro exI [of _ "i # ds"]) (auto simp: made_config [OF k] grows_def)
qed

lemma parse_drivers_ok:
  assumes "cfg_ok (sv_cfg s)" "core_ok (sv_core s)" "table_makes (sv_drivers s)" "plugins_make pe"
    "\<forall>i \<in> set is. i < length (sections (sv_cfg s)) \<and> int_readable (sv_cfg s) (int i) ''alwayson''"
  shows "\<exists>b s'. parse_sections ''driver'' (ParseDriver pe) is s = Inr (b, s') \<and> driver_step s s' \<and>
    (b \<longrightarrow> all_made s (driver_sections (sv_cfg s) is) s')"
  using assms
proof (induction "is" arbitrary: s)
  case Nil
  then show ?case by (auto simp: driver_step_def keeps_config_refl grows_refl all_made_def driver_sections_def)
next
  case (Cons i "is")
  let ?t = "sc_type (sections (sv_cfg s) ! i)"
  have t: "GetSectionType (sv_cfg s) (int i) = Some ?t" using Cons.prems(5) by (simp add: GetSectionType_def)
  show ?case
  proof (cases "?t = ''driver''")
    case False
    with Cons t show ?thesis by (simp add: driver_sections_def)
  next
    case True
    then have secs: "driver_sections (sv_cfg s) (i # is) = int i # driver_sections (sv_cfg s) is" using t by (simp add: driver_sections_def)
    from ParseDriver_ok [OF Cons.prems(1-4), of "int i"] Cons.prems(5) obtain b1 s1 where
      s1: "ParseDriver pe (int i) s = Inr (b1, s1)" "driver_step s s1" "b1 \<longrightarrow> made_one s (int i) s1" by auto
    have run: "parse_sections ''driver'' (ParseDriver pe) (i # is) s =
        (if \<not> b1 then Inr (False, s1) else parse_sections ''driver'' (ParseDriver pe) is s1)" using t True s1(1) by simp
    show ?thesis
    proof (cases b1)
      case False
      with run s1(2) show ?thesis by auto
    next
      case b1: True
      have k: "keeps_config (sv_cfg s) (sv_cfg s1)" using s1(2) by (simp add: driver_step_def)
      have rd: "int_readable (sv_cfg s1) j ''alwayson'' = int_readable (sv_cfg s) j ''alwayson''" for j
        by (rule int_readable_keeps [OF k]) (simp add: driver_fields_def)
      have sec: "sections (sv_cfg s1) = sections (sv_cfg s)" using k by (simp add: keeps_config_def)
      have "\<exists>b s'. parse_sections ''driver'' (ParseDriver pe) is s1 = Inr (b, s') \<and> driver_step s1 s' \<and>
          (b \<longrightarrow> all_made s1 (driver_sections (sv_cfg s1) is) s')"
        using s1(2) Cons.prems(4,5) k by (intro Cons.IH) (auto simp: driver_step_def keeps_config_def rd sec)
      then obtain b s' where s': "parse_sections ''driver'' (ParseDriver pe) is s1 = Inr (b, s')" "driver_step s1 s'"
          "b \<longrightarrow> all_made s1 (driver_sections (sv_cfg s) is) s'" unfolding driver_sections_keeps [OF k] by blast
      have "all_made s (driver_sections (sv_cfg s) (i # is)) s'" if b
        unfolding secs using s1 s' b1 that by (intro all_made_Cons) simp_all
      with run b1 s' driver_step_trans [OF s1(2) s'(2)] show ?thesis by auto
    qed
  qed
qed

text \<open>C11: Given factories that keep their contract, the walk over the driver sections returns without a fault, keeps the drivers and
  devices there were, and on success every section has a driver of its own: without error, always on if the section says so,
  with at least one device, and with all its devices named as in the section.\<close>

theorem ParseAllDrivers_makes_drivers:
  assumes "cfg_ok (sv_cfg s)" "core_ok (sv_core s)" "table_makes (sv_drivers s)" "plugins_make pe"
    and "\<forall>i < GetSectionCount (sv_cfg s). int_readable (sv_cfg s) (int i) ''alwayson''"
  shows "\<exists>ok s'. ParseAllDrivers pe s = Inr (ok, s') \<and> driver_step s s' \<and>
    (ok \<longrightarrow> all_made s (driver_sections (sv_cfg s) [1 ..< GetSectionCount (sv_cfg s)]) s')"
  unfolding ParseAllDrivers_def
  using assms by (intro parse_drivers_ok) (auto simp: GetSectionCount_def)

section \<open>The contract holds for a factory\<close>

lemma laser_factory_makes: "makes_driver laser_factory"
  unfolding makes_driver_def
proof (intro allI impI)
  fix ae f sec and c :: "(unit, unit tcp_data) core"
  assume f: "cfg_ok f" and c: "core_ok c"
  let ?i = "next_did c"
  let ?c = "c\<lparr>next_did := ?i + 1, drv := (drv c)(?i \<mapsto> sample_driver)\<rparr>"
  have old: "drv c i = None" if "?i \<le> i" for i using c that by (simp add: core_ok_def)
  have "the (dv_driver v) \<noteq> ?i" if "v \<in> set (devices c)" for v
    using c old [of ?i] that by (metis core_ok_def order_refl)
  then have ok: "core_ok ?c" using c by (auto simp: core_ok_def)
  show "\<exists>r f' c'. laser_factory ae f sec c = Inr (r, f', c') \<and> keeps_config f f' \<and> core_ok c' \<and> grows c c' \<and>
      (\<forall>i. r = Some i \<longrightarrow> ?i \<le> i \<and> drv c' i \<noteq> None)"
  proof (cases "find_device (laser_at 0) (devices c)")
    case (Some k)
    then have "laser_factory ae f sec c = Inr (Some ?i, f, ?c)" by (simp add: laser_factory_def AddDevice_def Let_def)
    with ok keeps_config_refl [OF f] show ?thesis by (auto simp: grows_def)
  next
    case None
    then have none: "find_device (laser_at 0) (devices ?c) = None" by simp
    have at: "drv ?c ?i = Some sample_driver" by simp
    note add = AddDevice_fresh [OF none at]
    obtain v d where add': "AddDevice (laser_at 0) ?i ?c = Inr (Some (length (devices c)), ?c\<lparr>devices := devices c @ [v],
        drv := (drv ?c)(?i \<mapsto> d), numdevices := numdevices c + 1\<rparr>)" "dv_driver v = Some ?i"
      using add by auto
    let ?e = "?c\<lparr>devices := devices c @ [v], drv := (drv ?c)(?i \<mapsto> d), numdevices := numdevices c + 1\<rparr>"
    have "core_ok ?e" using AddDevice_ok [OF ok add'(1)] by simp
    moreover have "laser_factory ae f sec c = Inr (Some ?i, f, ?e)" by (simp only: laser_factory_def Let_def add'(1) bindo.simps prod.case)
    ultimately show ?thesis using keeps_config_refl [OF f] add'(2) by (auto simp: grows_def)
  qed
qed

lemma boot_makes: "table_makes (sv_drivers boot_server)" "plugins_make boot_env"
proof -
  have "GetDriverEntry (sv_drivers boot_server) n = (if n = ''sick'' then Some \<lparr>de_name = ''sick'', de_init = Some laser_factory\<rparr> else None)" for n
    by (simp add: boot_server_def AddDriver_def DriverTable_new_def GetDriverEntry_def fill_entry_def DRIVER_STRING_LEN_def strncpy_term_def)
  then show "table_makes (sv_drivers boot_server)"
    using laser_factory_makes by (auto simp: table_makes_def find_factory_def split: option.splits if_splits)
qed (simp add: plugins_make_def boot_env_def)

theorem ParseAllDrivers_makes_drivers_witness:
  "\<exists>s' i. ParseAllDrivers boot_env boot_server = Inr (True, s') \<and> made db1 1 i (sv_core s') \<and> field_value db1 (1, ''name'') = Some ''sick''"
proof -
  have cfg: "sv_cfg boot_server = db1" by (simp add: boot_server_def)
  have core: "core_ok (sv_core boot_server)" by (simp add: boot_server_def core_ok_def DeviceTable_new_def)
  have "int_readable db1 i ''alwayson''" for i by (simp add: int_readable_def GetField_def db1_def)
  with ParseAllDrivers_makes_drivers [OF _ core boot_makes] cfg db1_ok have
    "all_made boot_server (driver_sections db1 [1 ..< GetSectionCount db1]) booted" using boot_drivers by fastforce
  moreover have "driver_sections db1 [1 ..< GetSectionCount db1] = [1]" by (simp add: driver_sections_def boot_sections upt_rec)
  ultimately have "\<exists>i. made db1 1 i (sv_core booted)" by (auto simp: all_made_def list_all2_Cons1 cfg)
  with boot_drivers db1_values(1) show ?thesis by blast
qed

end
