(* ===== verification/Spec2Isabelle.thy ===== *)
theory Spec2Isabelle
  imports QueueLinks QueueWait RefCount ConfigView DriverTable FileWatcher Request Thread TcpRead FunctionTable InterfaceTable PlanWaypoint StartDrivers
begin

text \<open>
  Player is a robot device server.  A server process loads drivers from a configuration file, makes them available as
  devices, and passes messages between the drivers and the clients that have subscribed to the devices.  This development
  models the core of the server, \<open>src/libplayercore\<close>, its TCP transport, \<open>src/libplayertcp\<close>, and of the drivers the
  path planner of the wavefront driver, \<open>src/server/drivers/planner/wavefront\<close>.

  \<^bold>\<open>The program and its parts.\<close>  \<open>ConfigFile\<close> (\<open>configfile.cc\<close>) reads the configuration; for each driver section
  \<open>DriverTable\<close> (\<open>drivertable.cc\<close>) gives the function that makes the driver, and the driver registers its devices, whose
  addresses \<open>ConfigFile::ReadDeviceAddr\<close> reads, in the \<open>DeviceTable\<close> (\<open>devicetable.cc\<close>).  Clients subscribe to a
  \<open>Device\<close> (\<open>device.cc\<close>), which keeps their queues and sets the \<open>Driver\<close> (\<open>driver.cc\<close>, \<open>threaded_driver.cc\<close>) up at the
  first subscription.  Data goes from \<open>Driver::Publish\<close> to the queues of the subscribers; commands and requests go
  through \<open>Device::PutMsg\<close> to the queue of the driver, which \<open>Driver::ProcessMessages\<close> empties.  All of this rests on
  \<open>Message\<close>, \<open>MessageQueue\<close> and \<open>QueuePointer\<close> (\<open>message.cc\<close>); \<open>FileWatcher\<close> (\<open>filewatcher.cc\<close>) wakes queues when a
  descriptor has an event.

  \<^bold>\<open>Conventions\<close> (theory Prelude).  A run of the code is a value of the type \<open>outcome\<close>: the result, or the fault it
  reaches, such as a null pointer, a failed \<open>assert\<close>, an access out of bounds.  Machine integers that are cast or
  wrap are words; counters that cannot wrap are natural numbers or integers.  C strings are lists of characters.  An
  object is its record; a pointer is a position or a number in an explicit store wherever the code shares objects.
  Functions that the build generates from the interface definitions, system calls, the clock and the methods of
  driver classes are parameters.

  \<^bold>\<open>Theories.\<close>
  \<^item> Messages: addresses, headers, \<open>Message::CreateMessage\<close>, matching (\<open>message.h\<close>, \<open>device.h\<close>).
  \<^item> MessageQueue, QueueProps: the operations of \<open>MessageQueue\<close> on the sequence of messages; order, loss, bounds,
    replacement, push and pull mode, filters.  QueueLinks: the doubly linked elements as a store of pointers, shown to
    implement the sequences.  QueueWait: \<open>Wait\<close> and \<open>DataAvailable\<close> as interleaved steps.  RefCount: \<open>QueuePointer\<close> and
    the counts of messages.
  \<^item> CText, ConfigLexer: the tokeniser of \<open>configfile.cc\<close>, its inverse \<open>SaveTokens\<close>, termination.  ConfigParser,
    ConfigGrammar: the parser, its invariant, termination, and the database it builds from a tree.  ConfigAccess,
    ConfigFloat, ConfigView, ConfigAddr: reading and writing fields, numbers, lengths and colors, device addresses.
  \<^item> Registry: the interfaces of stores (what a lookup returns after an insertion) as locales; they are interpreted on
    the fields of the configuration, the property bag, the driver table and the device table.
  \<^item> Property: \<open>property.cpp\<close> and the property requests of \<open>Driver::ProcessInternalMessages\<close>.
  \<^item> FunctionTable, InterfaceTable: the marshalling functions of each message signature, which the parameters of the
    message constructors can be taken from, and the names and codes of interfaces (\<open>functiontable.c\<close>,
    \<open>interface_util.c\<close> of \<open>src/libplayerinterface\<close>).
  \<^item> DriverTable, FileWatcher: \<open>drivertable.cc\<close>, \<open>filewatcher.cc\<close>.
  \<^item> Driver, Device, Subscription, DeviceTable: the objects, subscription, the table, always-on drivers.
  \<^item> Traffic: publishing and the message loop of a driver.  Request: \<open>Device::Request\<close> and \<open>TimedRequest\<close>.
  \<^item> Thread: the thread of a \<open>ThreadedDriver\<close> as a step relation.
  \<^item> Tcp, TcpPlayer, TcpStream: the TCP server (\<open>libplayertcp/playertcp.cc\<close>): listeners and connections; the requests
    to the server itself; reading, framing, decoding, delivery, encoding and writing.  A socket is what the kernel holds
    for it: chunks to receive, results of sends, bytes sent.  The generated pack functions and zlib are fields of the
    parameter \<open>tcp_env\<close>.
  \<^item> Session: the agreement of the server's record of subscriptions with the devices.  TcpProps: answers to requests and
    whole sessions.  TcpFrames: the messages in a stream, and how it may be cut.  TcpWrite, TcpRead: the order and
    completeness of what is sent and received.  TcpSample: the server and the encoding that witnesses use.
  \<^item> Startup, StartDrivers: the driver and interface sections (\<open>ParseAllDrivers\<close>, \<open>ParseAllInterfaces\<close> of \<open>configfile.cc\<close>),
    what \<open>main\<close> of \<open>src/server/server.cc\<close> does before its loop, and the contract of the functions that make drivers.
  \<^item> PlanHeap: the priority queue of the planner (\<open>heap.c\<close>), an instance of the interface of a queue that gives out a
    largest key.  Plan: the map (\<open>plan.c\<close>) and the distances to obstacles.  PlanSearch, PlanRoute: the search from the goal,
    the global and the local plan (\<open>plan_plan.c\<close>), and the routes they find.  PlanControl: straight lines, the carrot, the
    velocities (\<open>plan_control.c\<close>).  PlanWaypoint: the waypoints of a path (\<open>plan_waypoint.c\<close>) and the straight lines that are free.  A pointer to a cell is its
    position in the array of cells.
  \<^bold>\<open>What the lemmas show.\<close>  For each component: which invariant its state keeps under every operation; what each
  operation does on every branch; and a specification it implements: sequences for the queues, multisets for
  subscriptions and file watches, maps for the tables, configuration trees for the parser, routes in a grid for the planner.  Properties that span components
  are a request and its reply (Request over Traffic over QueueProps), the agreement of the two readers of addresses
  (DeviceTable and ConfigAddr), and reading what was written in a file (ConfigView over ConfigGrammar).
  The theories on the TCP server build on those of the core: a session rests on the multisets of subscriptions of a
  device, what is sent rests on \<open>Pop\<close>.
  Lemmas in sections called edge cases show behaviour of the code that its documentation or its callers do not expect.

  \<^bold>\<open>Bounds and fuel.\<close>  Fixed buffers have the size of the code.  Fuel occurs where a loop of the code need not end: the
  tokeniser (an include cycle), the parser (a macro that calls itself), \<open>ProcessMessages\<close> without a limit, \<open>ParseBuffer\<close> (a
  message of length 0).
  \<open>LoadTokens_terminates\<close> and \<open>ParseTokens_returns\<close> give fuel that is enough; waiting in \<open>TimedRequest\<close> is bounded by the
  list of what happens meanwhile.  The search of the planner gets one round for each cell and one more, since no cell is
  queued twice; a path is followed for as many steps, since costs fall along it.  The loops over distances and straight lines
  get the number of steps that the lengths allow; that all of these suffice is part of what is proved.

  \<^bold>\<open>Not modelled.\<close>  What a driver does in \<open>Setup\<close>, \<open>Shutdown\<close> and \<open>Subscribe\<close> to others: these methods see and change the
  driver's own state only, so the properties on subscriptions, sessions and always-on drivers hold for drivers that do not
  subscribe elsewhere in them.  The drivers themselves, one plugin per device or algorithm, with the wavefront driver around its planner; the client libraries; the marshalling
  functions and message structures that are generated from the interface definitions; the kernel behind the sockets, the clock,
  mutexes and the creation of threads (an operation under a lock is one step); loading of shared objects; options, signals and the loop of \<open>main\<close>; release of memory,
  except where counts decide about it; floating point rounding (reals stand for doubles); wrap-around of counts of references
  above \<open>2 ^ 32\<close>.
\<close>

end
